(* ===== verification/Prelude.thy ===== *)
theory Prelude
  imports Main "HOL-Library.Monad_Syntax"
begin

text \<open>
  Shared vocabulary of the development.

  Code that can stop the process is modelled in the option monad: \<open>None\<close> is a failed
  \<open>CHECK\<close> or \<open>DCHECK\<close>, or an access that has no meaning in C++ (a read of storage that
  holds no object). The model is the build with \<open>DCHECK_IS_ON()\<close>; a theorem that an
  operation returns \<open>Some\<close> says that none of its checks fires.

  The theory also holds the arithmetic of ring buffers (indices modulo a capacity), which
  the two deques of the code base share.
\<close>

section \<open>Checks\<close>

definition DCHECK :: "bool \<Rightarrow> unit option" where
  "DCHECK b = (if b then Some () else None)"

lemma DCHECK_True [simp]: "DCHECK True = Some ()"
  by (simp add: DCHECK_def)

lemma DCHECK_False [simp]: "DCHECK False = None"
  by (simp add: DCHECK_def)

lemma DCHECK_bind [simp]: "Option.bind (DCHECK b) f = (if b then f () else None)"
  by (simp add: DCHECK_def)

section \<open>Ring indices\<close>

lemma ring_index_eq:
  fixes b c k :: nat
  assumes "b < c" "k \<le> c"
  shows "(b + k) mod c = (if b + k < c then b + k else b + k - c)"
  using assms by (simp add: mod_if)

lemma ring_index_less [simp]: "b < c \<Longrightarrow> (b + k) mod c < (c :: nat)"
  by (rule mod_less_divisor) simp

lemma ring_index_inj [simp]:
  fixes b c j k :: nat
  assumes "b < c" "j < c" "k < c"
  shows "(b + j) mod c = (b + k) mod c \<longleftrightarrow> j = k"
  using assms by (auto simp: ring_index_eq split: if_splits)

lemma ring_index_surj:
  fixes b c i :: nat
  assumes "b < c" "i < c"
  obtains k where "k < c" "i = (b + k) mod c"
proof (cases "b \<le> i")
  case True
  with assms that [of "i - b"] show ?thesis by simp
next
  case False
  with assms that [of "i + c - b"] show ?thesis by (simp add: ring_index_eq)
qed

lemma ring_next:
  fixes b c n :: nat
  assumes "b < c"
  shows "((if Suc b = c then 0 else Suc b) + n) mod c = (b + Suc n) mod c"
proof (cases "Suc b = c")
  case True
  then have eq: "b + Suc n = n + c" by simp
  show ?thesis unfolding eq using True by simp
qed simp

lemma ring_prev:
  fixes b c n :: nat
  assumes "b < c"
  shows "((if b = 0 then c - 1 else b - 1) + Suc n) mod c = (b + n) mod c"
proof (cases "b = 0")
  case True
  with assms have "(if b = 0 then c - 1 else b - 1) + Suc n = n + c" by simp
  then show ?thesis using True by simp
qed simp

lemma ring_nth_update:
  assumes "b < length buf" "j < length buf" "k < length buf"
  shows "(buf[(b + k) mod length buf := v]) ! ((b + j) mod length buf)
    = (if j = k then v else buf ! ((b + j) mod length buf))"
  using assms by (simp add: nth_list_update)

section \<open>The logical view of a ring\<close>

lemma rotate_update:
  assumes "b < length buf" "k < length buf"
  shows "rotate b (buf[(b + k) mod length buf := v]) = (rotate b buf)[k := v]"
proof (rule nth_equalityI)
  fix i
  assume "i < length (rotate b (buf[(b + k) mod length buf := v]))"
  then have "i < length buf" by simp
  then show "rotate b (buf[(b + k) mod length buf := v]) ! i = (rotate b buf)[k := v] ! i"
    using assms by (simp add: nth_rotate ring_nth_update nth_list_update)
qed simp

lemma rotate_update0:
  assumes "b < length buf"
  shows "rotate b (buf[b := v]) = (rotate b buf)[0 := v]"
proof -
  from assms have "buf \<noteq> []" by auto
  with rotate_update [of b buf 0 v] assms show ?thesis by simp
qed

lemma rotate_split:
  assumes "b < length buf"
  shows "buf = drop (length buf - b) (rotate b buf) @ take (length buf - b) (rotate b buf)"
  using assms by (simp add: rotate_drop_take)

lemma nth_ring:
  assumes "b < length buf" "k < length buf"
  shows "buf ! ((b + k) mod length buf) = rotate b buf ! k"
  using assms by (simp add: nth_rotate)

lemma nth_ring0:
  assumes "b < length buf"
  shows "buf ! b = rotate b buf ! 0"
proof -
  from assms have "buf \<noteq> []" by auto
  with nth_ring [OF assms, of 0] assms show ?thesis by simp
qed

lemma rotate_prev:
  assumes "b < length buf"
  shows "rotate1 (rotate (if b = 0 then length buf - 1 else b - 1) buf) = rotate b buf"
proof (cases "b = 0")
  case True
  have "rotate (Suc (length buf - 1)) buf = rotate 0 buf"
    using assms by (metis Suc_pred' length_greater_0_conv list.size(3) mod_self not_less_zero rotate_conv_mod)
  with True show ?thesis by (simp del: rotate_Suc add: rotate_Suc [symmetric])
next
  case False
  then have "rotate (Suc (b - 1)) buf = rotate b buf" by simp
  with False show ?thesis by (simp del: rotate_Suc add: rotate_Suc [symmetric])
qed

lemma rotate_next:
  assumes "b < length buf"
  shows "rotate (if Suc b = length buf then 0 else Suc b) buf = rotate1 (rotate b buf)"
proof (cases "Suc b = length buf")
  case True
  then have "rotate1 (rotate b buf) = rotate (length buf) buf"
    by (metis rotate_Suc)
  with True show ?thesis by simp
next
  case False
  then show ?thesis by simp
qed

lemma rotate1_cancel:
  "rotate1 xs = ys @ [y] \<Longrightarrow> xs = y # ys"
  by (cases xs) auto

lemma None_snoc: "set M \<subseteq> {None} \<Longrightarrow> None # M = M @ [None]"
  by (induction M) auto

lemma nth_ring_append:
  assumes "b < length buf" "rotate b buf = A @ x # B"
  shows "buf ! ((b + length A) mod length buf) = x"
proof -
  have "length A < length buf"
    using arg_cong [OF assms(2), of length] by simp
  from nth_ring [OF assms(1) this] assms(2) show ?thesis by (simp add: nth_append)
qed

lemma rotate_update_append:
  assumes "b < length buf" "rotate b buf = A @ x # B"
  shows "rotate b (buf[(b + length A) mod length buf := y]) = A @ y # B"
proof -
  have "length A < length buf"
    using arg_cong [OF assms(2), of length] by simp
  from rotate_update [OF assms(1) this] assms(2) show ?thesis by (simp add: list_update_append)
qed

lemma replicate_snoc: "0 < m \<Longrightarrow> \<exists>R. replicate m x = x # R \<and> replicate m x = R @ [x] \<and> length R = m - 1"
  by (cases m) (auto simp: replicate_append_same intro: exI [of _ "replicate (m - 1) x"])

lemma replicate_split:
  "n = a + Suc b \<Longrightarrow> replicate n x = replicate a x @ x # replicate b x"
  "n = Suc b + a \<Longrightarrow> replicate n x = (x # replicate b x) @ replicate a x"
  by (simp_all only: replicate_add replicate_Suc)

lemma set_replicate_None [simp]: "set (replicate n None) \<subseteq> {None}"
  by auto

end
