(* ===== verification/Vector_Buffer.thy ===== *)
theory Vector_Buffer
  imports Prelude
begin

text \<open>
  \<open>base::internal::VectorBuffer\<close> (base/containers/vector_buffer.h): a block of storage whose slots
  are constructed and destructed one by one.  Slot \<open>None\<close> is raw storage, slot \<open>Some x\<close> holds the
  live object \<open>x\<close>.  Reading or destructing raw storage, and constructing over a live object, are
  faults of the model, so that a theorem whose conclusion is \<open>\<dots> = Some buf\<close> also says that every
  object is constructed and destructed exactly once.  The move functions are those of a type that
  is not trivially copyable.  \<open>size_t\<close> values are naturals: they are bounded by the size of an
  allocation.
\<close>

section \<open>VectorBuffer\<close>

type_synonym 'a vector_buffer = "'a option list"

definition VectorBuffer :: "nat \<Rightarrow> 'a vector_buffer" where
  "VectorBuffer count = replicate count None"

definition vb_addr :: "'a vector_buffer \<Rightarrow> nat \<Rightarrow> nat option" where
  "vb_addr buf i = do { DCHECK (i \<le> length buf); Some i }"

definition vb_load :: "'a vector_buffer \<Rightarrow> nat \<Rightarrow> 'a option" where
  "vb_load buf p = (if p < length buf then buf ! p else None)"

definition vb_construct :: "'a vector_buffer \<Rightarrow> nat \<Rightarrow> 'a \<Rightarrow> 'a vector_buffer option" where
  "vb_construct buf p x =
     (if p < length buf \<and> Option.is_none (buf ! p) then Some (buf[p := Some x]) else None)"

definition vb_destroy :: "'a vector_buffer \<Rightarrow> nat \<Rightarrow> 'a vector_buffer option" where
  "vb_destroy buf p =
     (if p < length buf \<and> \<not> Option.is_none (buf ! p) then Some (buf[p := None]) else None)"

fun vb_destruct_loop :: "'a vector_buffer \<Rightarrow> nat \<Rightarrow> nat \<Rightarrow> 'a vector_buffer option" where
  "vb_destruct_loop buf p 0 = Some buf"
| "vb_destruct_loop buf p (Suc n) =
     do { buf' \<leftarrow> vb_destroy buf p; vb_destruct_loop buf' (Suc p) n }"

definition vb_DestructRange :: "'a vector_buffer \<Rightarrow> nat \<Rightarrow> nat \<Rightarrow> 'a vector_buffer option" where
  "vb_DestructRange buf b e =
     do { DCHECK (b \<le> e); vb_destruct_loop buf b (e - b) }"

definition RangesOverlap :: "nat \<Rightarrow> nat \<Rightarrow> nat \<Rightarrow> bool" where
  "RangesOverlap from_begin from_end to =
     (\<not> (from_end \<le> to \<or> to + (from_end - from_begin) \<le> from_begin))"

text \<open>\<open>MoveRange\<close> within one buffer, and from one buffer into another: two allocations never
  overlap, so the check of the second holds by construction.\<close>

fun vb_move_loop :: "'a vector_buffer \<Rightarrow> nat \<Rightarrow> nat \<Rightarrow> nat \<Rightarrow> 'a vector_buffer option" where
  "vb_move_loop buf p to 0 = Some buf"
| "vb_move_loop buf p to (Suc n) =
     do { x \<leftarrow> vb_load buf p;
          buf' \<leftarrow> vb_construct buf to x;
          buf'' \<leftarrow> vb_destroy buf' p;
          vb_move_loop buf'' (Suc p) (Suc to) n }"

definition vb_MoveRange :: "'a vector_buffer \<Rightarrow> nat \<Rightarrow> nat \<Rightarrow> nat \<Rightarrow> 'a vector_buffer option" where
  "vb_MoveRange buf from_begin from_end to =
     do { DCHECK (\<not> RangesOverlap from_begin from_end to);
          vb_move_loop buf from_begin to (from_end - from_begin) }"

fun vb_move_across_loop ::
  "'a vector_buffer \<Rightarrow> nat \<Rightarrow> 'a vector_buffer \<Rightarrow> nat \<Rightarrow> nat
     \<Rightarrow> ('a vector_buffer \<times> 'a vector_buffer) option" where
  "vb_move_across_loop from p to_buf q 0 = Some (from, to_buf)"
| "vb_move_across_loop from p to_buf q (Suc n) =
     do { x \<leftarrow> vb_load from p;
          to_buf' \<leftarrow> vb_construct to_buf q x;
          from' \<leftarrow> vb_destroy from p;
          vb_move_across_loop from' (Suc p) to_buf' (Suc q) n }"

definition vb_MoveRange_across ::
  "'a vector_buffer \<Rightarrow> nat \<Rightarrow> nat \<Rightarrow> 'a vector_buffer \<Rightarrow> nat
     \<Rightarrow> ('a vector_buffer \<times> 'a vector_buffer) option" where
  "vb_MoveRange_across from from_begin from_end to_buf to =
     vb_move_across_loop from from_begin to_buf to (from_end - from_begin)"

section \<open>Storage lemmas\<close>

lemma vb_addr_Some [simp]: "i \<le> length buf \<Longrightarrow> vb_addr buf i = Some i"
  by (simp add: vb_addr_def)

lemma vb_load_Some [simp]: "p < length buf \<Longrightarrow> vb_load buf p = buf ! p"
  by (simp add: vb_load_def)

lemma vb_destruct_loop_run [simp]:
  "vb_destruct_loop (A @ map Some ys @ B) (length A) (length ys)
     = Some (A @ replicate (length ys) None @ B)"
proof (induction ys arbitrary: A)
  case Nil
  then show ?case by simp
next
  case (Cons y ys)
  from Cons [of "A @ [None]"] show ?case
    by (simp add: vb_destroy_def list_update_append)
qed

lemma vb_DestructRange_run:
  assumes "buf = A @ map Some ys @ B" "b = length A" "e = length A + length ys"
  shows "vb_DestructRange buf b e = Some (A @ replicate (length ys) None @ B)"
  using assms by (simp add: vb_DestructRange_def)

lemma vb_move_across_loop_run [simp]:
  "vb_move_across_loop (A @ map Some ys @ B) (length A)
       (C @ replicate (length ys) None @ D) (length C) (length ys)
     = Some (A @ replicate (length ys) None @ B, C @ map Some ys @ D)"
proof (induction ys arbitrary: A C)
  case Nil
  then show ?case by simp
next
  case (Cons y ys)
  from Cons [of "A @ [None]" "C @ [Some y]"] show ?case
    by (simp add: vb_destroy_def vb_construct_def list_update_append nth_append)
qed

lemma vb_MoveRange_across_run:
  assumes "from = A @ map Some ys @ B" "b = length A" "e = length A + length ys"
    and "to_buf = C @ replicate (length ys) None @ D" "t = length C"
  shows "vb_MoveRange_across from b e to_buf t
     = Some (A @ replicate (length ys) None @ B, C @ map Some ys @ D)"
  using assms by (simp add: vb_MoveRange_across_def)

lemma DestructRange_one:
  assumes "p < length buf" "buf ! p = Some x"
  shows "vb_DestructRange buf p (Suc p) = Some (buf[p := None])"
  using assms by (simp add: vb_DestructRange_def vb_destroy_def)

lemma vb_destruct_ring:
  assumes "b < length buf" "rotate b buf = A @ map Some ys @ B"
    and "p = (b + length A) mod length buf" "p + length ys \<le> length buf"
  shows "\<exists>buf'. vb_destruct_loop buf p (length ys) = Some buf' \<and>
           length buf' = length buf \<and> rotate b buf' = A @ replicate (length ys) None @ B"
  using assms
proof (induction ys arbitrary: buf A p)
  case Nil
  then show ?case by simp
next
  case (Cons y ys)
  let ?buf = "buf[p := None]"
  have p: "p < length buf" "buf ! p = Some y"
    using Cons.prems nth_ring_append [of b buf A "Some y" "map Some ys @ B"] by simp_all
  have rot: "rotate b ?buf = (A @ [None]) @ map Some ys @ B"
    using Cons.prems rotate_update_append [of b buf A "Some y" "map Some ys @ B" None] by simp
  have step: "vb_destruct_loop buf p (length (y # ys)) = vb_destruct_loop ?buf (Suc p) (length ys)"
    using p by (simp add: vb_destroy_def)
  show ?case
  proof (cases "ys = []")
    case True
    with rot step show ?thesis by simp
  next
    case False
    then have "Suc p = (b + length (A @ [None])) mod length ?buf"
      using Cons.prems(3,4) p(1) by (auto simp: mod_Suc neq_Nil_conv)
    with Cons.IH [of ?buf "A @ [None]" "Suc p"] Cons.prems(1,4) rot step show ?thesis by simp
  qed
qed

lemma vb_MoveRange_one:
  assumes "p < length buf" "t < length buf" "p \<noteq> t" "buf ! p = Some x" "buf ! t = None"
  shows "vb_MoveRange buf p (Suc p) t = Some (buf[t := Some x, p := None])"
  using assms
  by (auto simp: vb_MoveRange_def RangesOverlap_def vb_construct_def vb_destroy_def)

lemma ring_move_right:
  assumes "b < length buf" "rotate b buf = A @ Some x # B @ None # C"
    and "p = (b + length A) mod length buf" "t = (b + (length A + Suc (length B))) mod length buf"
  shows "\<exists>buf'. vb_MoveRange buf p (Suc p) t = Some buf' \<and> length buf' = length buf \<and>
           rotate b buf' = A @ None # B @ Some x # C"
proof -
  have l: "length A + Suc (length B) < length buf"
    using arg_cong [OF assms(2), of length] by simp
  have "p < length buf" "t < length buf"
    unfolding assms(3,4) using assms(1) by (rule ring_index_less)+
  moreover have "p \<noteq> t"
    using ring_index_inj [OF assms(1), of "length A" "length A + Suc (length B)"] l assms(3,4) by simp
  moreover have "buf ! p = Some x"
    using nth_ring_append [OF assms(1,2)] assms(3) by simp
  moreover have rot: "rotate b buf = (A @ Some x # B) @ None # C" using assms(2) by simp
  then have "buf ! t = None"
    using nth_ring_append [OF assms(1) rot] assms(4) by simp
  moreover have 1: "rotate b (buf[t := Some x]) = A @ Some x # (B @ Some x # C)"
    using rotate_update_append [OF assms(1) rot, of "Some x"] assms(4) by simp
  then have "rotate b (buf[t := Some x, p := None]) = A @ None # B @ Some x # C"
    using rotate_update_append [of b "buf[t := Some x]" A "Some x" "B @ Some x # C" None] assms(1,3)
    by simp
  ultimately show ?thesis
    using vb_MoveRange_one [of p buf t x] by simp
qed

lemma ring_move_left:
  assumes "b < length buf" "rotate b buf = A @ None # B @ Some x # C"
    and "t = (b + length A) mod length buf" "p = (b + (length A + Suc (length B))) mod length buf"
  shows "\<exists>buf'. vb_MoveRange buf p (Suc p) t = Some buf' \<and> length buf' = length buf \<and>
           rotate b buf' = A @ Some x # B @ None # C"
proof -
  have l: "length A + Suc (length B) < length buf"
    using arg_cong [OF assms(2), of length] by simp
  have "p < length buf" "t < length buf"
    unfolding assms(3,4) using assms(1) by (rule ring_index_less)+
  moreover have "p \<noteq> t"
    using ring_index_inj [OF assms(1), of "length A" "length A + Suc (length B)"] l assms(3,4) by simp
  moreover have "buf ! t = None"
    using nth_ring_append [OF assms(1,2)] assms(3) by simp
  moreover have rot: "rotate b buf = (A @ None # B) @ Some x # C" using assms(2) by simp
  then have "buf ! p = Some x"
    using nth_ring_append [OF assms(1) rot] assms(4) by simp
  moreover have 1: "rotate b (buf[t := Some x]) = (A @ Some x # B) @ Some x # C"
    using rotate_update_append [OF assms(1,2), of "Some x"] assms(3) by simp
  then have "rotate b (buf[t := Some x, p := None]) = A @ Some x # B @ None # C"
    using rotate_update_append [of b "buf[t := Some x]" "A @ Some x # B" "Some x" C None]
      assms(1,4)
    by simp
  ultimately show ?thesis
    using vb_MoveRange_one [of p buf t x] by simp
qed

end
