(* ===== verification/Deque_Spec.thy ===== *)
theory Deque_Spec
  imports Prelude
begin

text \<open>
  The contract of a double-ended queue, as the containers of base/ promise it: a deque is a
  sequence, pushing extends it at one end, popping removes at one end, and reading an end that does
  not exist is a failed check.  The operations of an implementation are collected in a record, its
  promises in the locale \<open>deque_impl\<close>, whose laws relate a deque to the sequence it stands for.
  The client lemmas run arbitrary programs of deque operations and compare what they observe with a
  run on plain lists.
\<close>

section \<open>Programs of deque operations\<close>

record ('d, 'a) deque_ops =
  dq_new :: 'd
  dq_push_front :: "'d \<Rightarrow> 'a \<Rightarrow> 'd option"
  dq_push_back :: "'d \<Rightarrow> 'a \<Rightarrow> 'd option"
  dq_pop_front :: "'d \<Rightarrow> 'd option"
  dq_front :: "'d \<Rightarrow> 'a option"
  dq_back :: "'d \<Rightarrow> 'a option"
  dq_size :: "'d \<Rightarrow> nat"
  dq_empty :: "'d \<Rightarrow> bool"
  dq_clear :: "'d \<Rightarrow> 'd option"

datatype 'a dq_cmd = PushFront 'a | PushBack 'a | PopFront | Front | Back | Size | Empty | Clear

datatype 'a dq_out = Elem 'a | Count nat | Flag bool

fun dq_exec :: "('d, 'a) deque_ops \<Rightarrow> 'd \<Rightarrow> 'a dq_cmd \<Rightarrow> ('d \<times> 'a dq_out list) option" where
  "dq_exec D d (PushFront x) = do { d' \<leftarrow> dq_push_front D d x; Some (d', []) }"
| "dq_exec D d (PushBack x) = do { d' \<leftarrow> dq_push_back D d x; Some (d', []) }"
| "dq_exec D d PopFront = do { d' \<leftarrow> dq_pop_front D d; Some (d', []) }"
| "dq_exec D d Front = do { x \<leftarrow> dq_front D d; Some (d, [Elem x]) }"
| "dq_exec D d Back = do { x \<leftarrow> dq_back D d; Some (d, [Elem x]) }"
| "dq_exec D d Size = Some (d, [Count (dq_size D d)])"
| "dq_exec D d Empty = Some (d, [Flag (dq_empty D d)])"
| "dq_exec D d Clear = do { d' \<leftarrow> dq_clear D d; Some (d', []) }"

primrec dq_run :: "('d, 'a) deque_ops \<Rightarrow> 'd \<Rightarrow> 'a dq_cmd list \<Rightarrow> ('d \<times> 'a dq_out list) option" where
  "dq_run D d [] = Some (d, [])"
| "dq_run D d (c # cs) =
     do { (d1, o1) \<leftarrow> dq_exec D d c; (d2, o2) \<leftarrow> dq_run D d1 cs; Some (d2, o1 @ o2) }"

text \<open>The reference implementation: a deque is a list.\<close>

definition list_deque :: "('a list, 'a) deque_ops" where
  "list_deque =
     \<lparr>dq_new = [],
      dq_push_front = (\<lambda>xs x. Some (x # xs)),
      dq_push_back = (\<lambda>xs x. Some (xs @ [x])),
      dq_pop_front = (\<lambda>xs. case xs of [] \<Rightarrow> None | _ # ys \<Rightarrow> Some ys),
      dq_front = (\<lambda>xs. case xs of [] \<Rightarrow> None | x # _ \<Rightarrow> Some x),
      dq_back = (\<lambda>xs. if xs = [] then None else Some (last xs)),
      dq_size = length,
      dq_empty = (\<lambda>xs. xs = []),
      dq_clear = (\<lambda>xs. Some [])\<rparr>"

definition observe :: "('d, 'a) deque_ops \<Rightarrow> 'a dq_cmd list \<Rightarrow> 'a dq_out list option" where
  "observe D cs = map_option snd (dq_run D (dq_new D) cs)"

section \<open>The contract\<close>

locale deque_impl =
  fixes D :: "('d, 'a) deque_ops"
    and rep :: "'d \<Rightarrow> 'a list \<Rightarrow> bool"
  assumes new_rep: "rep (dq_new D) []"
    and push_front_law: "rep d xs \<Longrightarrow> \<exists>d'. dq_push_front D d x = Some d' \<and> rep d' (x # xs)"
    and push_back_law: "rep d xs \<Longrightarrow> \<exists>d'. dq_push_back D d x = Some d' \<and> rep d' (xs @ [x])"
    and pop_front_law: "rep d (x # xs) \<Longrightarrow> \<exists>d'. dq_pop_front D d = Some d' \<and> rep d' xs"
    and pop_front_nil: "rep d [] \<Longrightarrow> dq_pop_front D d = None"
    and front_law: "rep d (x # xs) \<Longrightarrow> dq_front D d = Some x"
    and front_nil: "rep d [] \<Longrightarrow> dq_front D d = None"
    and back_law: "rep d (xs @ [x]) \<Longrightarrow> dq_back D d = Some x"
    and back_nil: "rep d [] \<Longrightarrow> dq_back D d = None"
    and size_law: "rep d xs \<Longrightarrow> dq_size D d = length xs"
    and empty_law: "rep d xs \<Longrightarrow> dq_empty D d \<longleftrightarrow> xs = []"
    and clear_law: "rep d xs \<Longrightarrow> \<exists>d'. dq_clear D d = Some d' \<and> rep d' []"
begin

lemma exec_refines:
  assumes "rep d xs"
  shows "case dq_exec list_deque xs c of
           None \<Rightarrow> dq_exec D d c = None
         | Some (ys, out) \<Rightarrow> \<exists>d'. dq_exec D d c = Some (d', out) \<and> rep d' ys"
proof (cases c)
  case (PushFront x)
  then show ?thesis using push_front_law [OF assms, of x] by (auto simp: list_deque_def)
next
  case (PushBack x)
  then show ?thesis using push_back_law [OF assms, of x] by (auto simp: list_deque_def)
next
  case PopFront
  then show ?thesis using assms pop_front_law pop_front_nil
    by (cases xs) (fastforce simp: list_deque_def)+
next
  case Front
  then show ?thesis using assms front_law front_nil by (cases xs) (auto simp: list_deque_def)
next
  case Back
  then show ?thesis using assms back_law back_nil
    by (cases xs rule: rev_cases) (auto simp: list_deque_def)
next
  case Clear
  then show ?thesis using clear_law [OF assms] by (auto simp: list_deque_def)
qed (use size_law [OF assms] empty_law [OF assms] assms in \<open>auto simp: list_deque_def\<close>)

lemma run_refines:
  assumes "rep d xs"
  shows "case dq_run list_deque xs cs of
           None \<Rightarrow> dq_run D d cs = None
         | Some (ys, out) \<Rightarrow> \<exists>d'. dq_run D d cs = Some (d', out) \<and> rep d' ys"
  using assms
proof (induction cs arbitrary: d xs)
  case Nil
  then show ?case by simp
next
  case (Cons c cs)
  show ?case
  proof (cases "dq_exec list_deque xs c")
    case None
    with exec_refines [OF Cons.prems, of c] show ?thesis by simp
  next
    case (Some p)
    then obtain ys out where p: "dq_exec list_deque xs c = Some (ys, out)" by (cases p) auto
    with exec_refines [OF Cons.prems, of c] obtain d' where
      d': "dq_exec D d c = Some (d', out)" "rep d' ys" by auto
    from Cons.IH [OF d'(2)] p d'(1) show ?thesis
      by (auto split: option.splits)
  qed
qed

text \<open>No program of operations can tell the implementation from a list.\<close>

lemma observe_list: "observe D cs = observe list_deque cs"
  using run_refines [OF new_rep, of cs]
  by (auto simp: observe_def list_deque_def split: option.splits)

text \<open>First in, first out: what a program pushes at the back leaves at the front, in order.\<close>

lemma drain:
  assumes "rep d xs"
  shows "\<exists>d'. dq_run D d (concat (replicate (length xs) [Front, PopFront])) = Some (d', map Elem xs)
              \<and> rep d' []"
  using assms
proof (induction xs arbitrary: d)
  case Nil
  then show ?case by auto
next
  case (Cons x xs)
  obtain d1 where "dq_pop_front D d = Some d1" "rep d1 xs" using pop_front_law [OF Cons.prems] by auto
  with Cons.IH [OF this(2)] front_law [OF Cons.prems] show ?case by auto
qed

lemma push_back_all:
  assumes "rep d xs"
  shows "\<exists>d'. dq_run D d (map PushBack ys) = Some (d', []) \<and> rep d' (xs @ ys)"
  using assms
proof (induction ys arbitrary: d xs)
  case Nil
  then show ?case by simp
next
  case (Cons y ys)
  obtain d1 where "dq_push_back D d y = Some d1" "rep d1 (xs @ [y])"
    using push_back_law [OF Cons.prems] by auto
  with Cons.IH [OF this(2)] show ?case by auto
qed

end

end
