(* ===== verification/Circular_Deque.thy ===== *)
theory Circular_Deque
  imports Vector_Buffer Deque_Spec "HOL-Library.Word"
begin

text \<open>
  \<open>base::circular_deque\<close> (base/containers/circular_deque.h): a ring buffer over a VectorBuffer
  that always keeps one slot free, with checked iterators.  An iterator carries the index and the
  generation it was created with; its parent deque is the deque it is used with.  The relation
  \<open>cd_rep d xs\<close> says that the ring \<open>d\<close> is well formed and stands for the sequence \<open>xs\<close>; every
  operation is shown to return, never to touch raw storage, and to take a ring for \<open>xs\<close> to a ring
  for the sequence that a deque should hold afterwards.  Positions in a ring are logical:
  \<open>it_pos d k\<close> is the iterator at distance \<open>k\<close> from the beginning.
\<close>

section \<open>circular_deque\<close>

record 'a circular_deque =
  cd_buffer :: "'a vector_buffer"
  cd_begin :: nat
  cd_end :: nat
  cd_generation :: "64 word"

record cd_iter =
  it_index :: nat
  it_generation :: "64 word"

definition kCircularBufferInitialCapacity :: nat where
  "kCircularBufferInitialCapacity = 3"

definition cd_new :: "'a circular_deque" where
  "cd_new = \<lparr>cd_buffer = [], cd_begin = 0, cd_end = 0, cd_generation = 0\<rparr>"

definition IncrementGeneration :: "'a circular_deque \<Rightarrow> 'a circular_deque" where
  "IncrementGeneration d = d\<lparr>cd_generation := cd_generation d + 1\<rparr>"

definition cd_empty :: "'a circular_deque \<Rightarrow> bool" where
  "cd_empty d = (cd_begin d = cd_end d)"

definition cd_size :: "'a circular_deque \<Rightarrow> nat" where
  "cd_size d =
     (if cd_begin d \<le> cd_end d then cd_end d - cd_begin d
      else length (cd_buffer d) - cd_begin d + cd_end d)"

definition cd_capacity :: "'a circular_deque \<Rightarrow> nat" where
  "cd_capacity d = (if length (cd_buffer d) = 0 then 0 else length (cd_buffer d) - 1)"

subsection \<open>Index checks and iterators\<close>

definition CheckValidIndex :: "'a circular_deque \<Rightarrow> nat \<Rightarrow> unit option" where
  "CheckValidIndex d i =
     DCHECK (if cd_begin d \<le> cd_end d then cd_begin d \<le> i \<and> i < cd_end d
             else (cd_begin d \<le> i \<and> i < length (cd_buffer d)) \<or> i < cd_end d)"

definition CheckValidIndexOrEnd :: "'a circular_deque \<Rightarrow> nat \<Rightarrow> unit option" where
  "CheckValidIndexOrEnd d i = (if i \<noteq> cd_end d then CheckValidIndex d i else Some ())"

definition CheckUnstableUsage :: "'a circular_deque \<Rightarrow> cd_iter \<Rightarrow> unit option" where
  "CheckUnstableUsage d it = DCHECK (it_generation it = cd_generation d)"

definition CheckComparable :: "cd_iter \<Rightarrow> cd_iter \<Rightarrow> unit option" where
  "CheckComparable lhs rhs = DCHECK (it_generation lhs = it_generation rhs)"

definition cd_iterator :: "'a circular_deque \<Rightarrow> nat \<Rightarrow> cd_iter" where
  "cd_iterator d i = \<lparr>it_index = i, it_generation = cd_generation d\<rparr>"

definition it_begin :: "'a circular_deque \<Rightarrow> cd_iter" where
  "it_begin d = cd_iterator d (cd_begin d)"

definition it_end :: "'a circular_deque \<Rightarrow> cd_iter" where
  "it_end d = cd_iterator d (cd_end d)"

definition it_deref :: "'a circular_deque \<Rightarrow> cd_iter \<Rightarrow> 'a option" where
  "it_deref d it =
     do { CheckUnstableUsage d it;
          CheckValidIndex d (it_index it);
          p \<leftarrow> vb_addr (cd_buffer d) (it_index it);
          vb_load (cd_buffer d) p }"

definition OffsetFromBegin :: "'a circular_deque \<Rightarrow> cd_iter \<Rightarrow> nat" where
  "OffsetFromBegin d it =
     (if cd_begin d \<le> it_index it then it_index it - cd_begin d
      else length (cd_buffer d) - cd_begin d + it_index it)"

definition it_Increment :: "'a circular_deque \<Rightarrow> cd_iter \<Rightarrow> cd_iter option" where
  "it_Increment d it =
     do { CheckUnstableUsage d it;
          CheckValidIndex d (it_index it);
          let i = it_index it + 1;
          Some (it\<lparr>it_index := (if i = length (cd_buffer d) then 0 else i)\<rparr>) }"

definition it_Decrement :: "'a circular_deque \<Rightarrow> cd_iter \<Rightarrow> cd_iter option" where
  "it_Decrement d it =
     do { CheckUnstableUsage d it;
          CheckValidIndexOrEnd d (it_index it);
          Some (it\<lparr>it_index :=
            (if it_index it = 0 then length (cd_buffer d) - 1 else it_index it - 1)\<rparr>) }"

definition it_Add :: "'a circular_deque \<Rightarrow> cd_iter \<Rightarrow> int \<Rightarrow> cd_iter option" where
  "it_Add d it delta =
     do { CheckUnstableUsage d it;
          (if delta \<le> 0 then CheckValidIndexOrEnd d (it_index it)
           else CheckValidIndex d (it_index it));
          if delta = 0 then Some it
          else do {
            let new_offset = int (OffsetFromBegin d it) + delta;
            DCHECK (0 \<le> new_offset \<and> new_offset \<le> int (cd_size d));
            Some (it\<lparr>it_index :=
              nat ((new_offset + int (cd_begin d)) mod int (length (cd_buffer d)))\<rparr>) } }"

definition it_eq :: "cd_iter \<Rightarrow> cd_iter \<Rightarrow> bool option" where
  "it_eq lhs rhs = do { CheckComparable lhs rhs; Some (it_index lhs = it_index rhs) }"

definition it_less :: "'a circular_deque \<Rightarrow> cd_iter \<Rightarrow> cd_iter \<Rightarrow> bool option" where
  "it_less d lhs rhs =
     do { CheckComparable lhs rhs; Some (OffsetFromBegin d lhs < OffsetFromBegin d rhs) }"

definition it_diff :: "'a circular_deque \<Rightarrow> cd_iter \<Rightarrow> cd_iter \<Rightarrow> int option" where
  "it_diff d lhs rhs =
     do { CheckComparable lhs rhs;
          Some (int (OffsetFromBegin d lhs) - int (OffsetFromBegin d rhs)) }"

definition ValidateIterator :: "'a circular_deque \<Rightarrow> cd_iter \<Rightarrow> unit option" where
  "ValidateIterator d it = CheckUnstableUsage d it"

subsection \<open>Accessors\<close>

definition cd_at :: "'a circular_deque \<Rightarrow> nat \<Rightarrow> 'a option" where
  "cd_at d i =
     do { DCHECK (i < cd_size d);
          let right_size = length (cd_buffer d) - cd_begin d;
          p \<leftarrow> (if cd_begin d \<le> cd_end d \<or> i < right_size
               then vb_addr (cd_buffer d) (cd_begin d + i)
               else vb_addr (cd_buffer d) (i - right_size));
          vb_load (cd_buffer d) p }"

definition cd_front :: "'a circular_deque \<Rightarrow> 'a option" where
  "cd_front d =
     do { DCHECK (\<not> cd_empty d);
          p \<leftarrow> vb_addr (cd_buffer d) (cd_begin d);
          vb_load (cd_buffer d) p }"

definition cd_back :: "'a circular_deque \<Rightarrow> 'a option" where
  "cd_back d =
     do { DCHECK (\<not> cd_empty d);
          it \<leftarrow> it_Decrement d (it_end d);
          it_deref d it }"

subsection \<open>Memory management\<close>

definition MoveBuffer ::
  "'a vector_buffer \<Rightarrow> nat \<Rightarrow> nat \<Rightarrow> 'a vector_buffer
     \<Rightarrow> ('a vector_buffer \<times> 'a vector_buffer \<times> nat \<times> nat) option" where
  "MoveBuffer from_buf from_begin from_end to_buf =
     (let from_capacity = length from_buf in
      if from_begin < from_end then
        do { b \<leftarrow> vb_addr from_buf from_begin;
             e \<leftarrow> vb_addr from_buf from_end;
             (from', to') \<leftarrow> vb_MoveRange_across from_buf b e to_buf 0;
             Some (from', to', 0, from_end - from_begin) }
      else if from_end < from_begin then
        do { b \<leftarrow> vb_addr from_buf from_begin;
             e \<leftarrow> vb_addr from_buf from_capacity;
             (from', to') \<leftarrow> vb_MoveRange_across from_buf b e to_buf 0;
             let right_size = from_capacity - from_begin;
             b' \<leftarrow> vb_addr from' 0;
             e' \<leftarrow> vb_addr from' from_end;
             t \<leftarrow> vb_addr to' right_size;
             (from'', to'') \<leftarrow> vb_MoveRange_across from' b' e' to' t;
             Some (from'', to'', 0, right_size + from_end) }
      else Some (from_buf, to_buf, 0, 0))"

definition SetCapacityTo :: "'a circular_deque \<Rightarrow> nat \<Rightarrow> 'a circular_deque option" where
  "SetCapacityTo d new_capacity =
     do { (_, new_buffer, b, e) \<leftarrow>
            MoveBuffer (cd_buffer d) (cd_begin d) (cd_end d) (VectorBuffer (new_capacity + 1));
          Some (d\<lparr>cd_buffer := new_buffer, cd_begin := b, cd_end := e\<rparr>) }"

definition ExpandCapacityIfNecessary ::
  "'a circular_deque \<Rightarrow> nat \<Rightarrow> 'a circular_deque option" where
  "ExpandCapacityIfNecessary d additional_elts =
     (let min_new_capacity = cd_size d + additional_elts in
      if min_new_capacity \<le> cd_capacity d then Some d
      else
        (let min_new_capacity' = max min_new_capacity kCircularBufferInitialCapacity;
             new_capacity = max min_new_capacity' (cd_capacity d + cd_capacity d div 4)
         in SetCapacityTo d new_capacity))"

definition ShrinkCapacityIfNecessary :: "'a circular_deque \<Rightarrow> 'a circular_deque option" where
  "ShrinkCapacityIfNecessary d =
     (if cd_capacity d \<le> kCircularBufferInitialCapacity then Some d
      else
        (let sz = cd_size d;
             empty_spaces = cd_capacity d - sz
         in if empty_spaces < sz then Some d
            else
              (let new_capacity = max kCircularBufferInitialCapacity (sz + sz div 4)
               in if new_capacity < cd_capacity d then SetCapacityTo d new_capacity
                  else Some d)))"

definition cd_DestructRange :: "'a circular_deque \<Rightarrow> nat \<Rightarrow> nat \<Rightarrow> 'a vector_buffer option" where
  "cd_DestructRange d b e =
     (let buf = cd_buffer d in
      if e = b then Some buf
      else if b < e then
        do { p \<leftarrow> vb_addr buf b; q \<leftarrow> vb_addr buf e; vb_DestructRange buf p q }
      else
        do { p \<leftarrow> vb_addr buf b;
             q \<leftarrow> vb_addr buf (length buf);
             buf' \<leftarrow> vb_DestructRange buf p q;
             p' \<leftarrow> vb_addr buf' 0;
             q' \<leftarrow> vb_addr buf' e;
             vb_DestructRange buf' p' q' })"

definition ClearRetainCapacity :: "'a circular_deque \<Rightarrow> 'a circular_deque option" where
  "ClearRetainCapacity d =
     do { buf \<leftarrow> cd_DestructRange d (cd_begin d) (cd_end d);
          Some (IncrementGeneration (d\<lparr>cd_buffer := buf, cd_begin := 0, cd_end := 0\<rparr>)) }"

definition cd_reserve :: "'a circular_deque \<Rightarrow> nat \<Rightarrow> 'a circular_deque option" where
  "cd_reserve d new_capacity =
     (if cd_capacity d < new_capacity then SetCapacityTo d new_capacity else Some d)"

definition cd_shrink_to_fit :: "'a circular_deque \<Rightarrow> 'a circular_deque option" where
  "cd_shrink_to_fit d =
     (if cd_empty d then
        (if length (cd_buffer d) \<noteq> 0 then Some (d\<lparr>cd_buffer := []\<rparr>) else Some d)
      else SetCapacityTo d (cd_size d))"

definition cd_clear :: "'a circular_deque \<Rightarrow> 'a circular_deque option" where
  "cd_clear d = do { d' \<leftarrow> ClearRetainCapacity d; Some (d'\<lparr>cd_buffer := []\<rparr>) }"

subsection \<open>Begin and end operations\<close>

definition emplace_front :: "'a circular_deque \<Rightarrow> 'a \<Rightarrow> 'a circular_deque option" where
  "emplace_front d x =
     do { d1 \<leftarrow> ExpandCapacityIfNecessary d 1;
          let d2 = IncrementGeneration (d1\<lparr>cd_begin :=
            (if cd_begin d1 = 0 then length (cd_buffer d1) - 1 else cd_begin d1 - 1)\<rparr>);
          p \<leftarrow> vb_addr (cd_buffer d2) (cd_begin d2);
          buf \<leftarrow> vb_construct (cd_buffer d2) p x;
          let d3 = d2\<lparr>cd_buffer := buf\<rparr>;
          cd_front d3;
          Some d3 }"

definition emplace_back :: "'a circular_deque \<Rightarrow> 'a \<Rightarrow> 'a circular_deque option" where
  "emplace_back d x =
     do { d1 \<leftarrow> ExpandCapacityIfNecessary d 1;
          p \<leftarrow> vb_addr (cd_buffer d1) (cd_end d1);
          buf \<leftarrow> vb_construct (cd_buffer d1) p x;
          let d2 = IncrementGeneration (d1\<lparr>cd_buffer := buf, cd_end :=
            (if cd_end d1 = length buf - 1 then 0 else cd_end d1 + 1)\<rparr>);
          cd_back d2;
          Some d2 }"

definition push_front :: "'a circular_deque \<Rightarrow> 'a \<Rightarrow> 'a circular_deque option" where
  "push_front d x = emplace_front d x"

definition push_back :: "'a circular_deque \<Rightarrow> 'a \<Rightarrow> 'a circular_deque option" where
  "push_back d x = emplace_back d x"

definition pop_front :: "'a circular_deque \<Rightarrow> 'a circular_deque option" where
  "pop_front d =
     do { DCHECK (cd_size d \<noteq> 0);
          p \<leftarrow> vb_addr (cd_buffer d) (cd_begin d);
          q \<leftarrow> vb_addr (cd_buffer d) (cd_begin d + 1);
          buf \<leftarrow> vb_DestructRange (cd_buffer d) p q;
          let b = cd_begin d + 1;
          d' \<leftarrow> ShrinkCapacityIfNecessary
                 (d\<lparr>cd_buffer := buf, cd_begin := (if b = length buf then 0 else b)\<rparr>);
          Some (IncrementGeneration d') }"

definition pop_back :: "'a circular_deque \<Rightarrow> 'a circular_deque option" where
  "pop_back d =
     do { DCHECK (cd_size d \<noteq> 0);
          let e = (if cd_end d = 0 then length (cd_buffer d) - 1 else cd_end d - 1);
          p \<leftarrow> vb_addr (cd_buffer d) e;
          q \<leftarrow> vb_addr (cd_buffer d) (e + 1);
          buf \<leftarrow> vb_DestructRange (cd_buffer d) p q;
          d' \<leftarrow> ShrinkCapacityIfNecessary (d\<lparr>cd_buffer := buf, cd_end := e\<rparr>);
          Some (IncrementGeneration d') }"

definition cd_swap ::
  "'a circular_deque \<Rightarrow> 'a circular_deque \<Rightarrow> 'a circular_deque \<times> 'a circular_deque" where
  "cd_swap this other =
     (IncrementGeneration
        (this\<lparr>cd_buffer := cd_buffer other, cd_begin := cd_begin other, cd_end := cd_end other\<rparr>),
      other\<lparr>cd_buffer := cd_buffer this, cd_begin := cd_begin this, cd_end := cd_end this\<rparr>)"

subsection \<open>Assignment and resizing\<close>

primrec emplace_back_list :: "'a circular_deque \<Rightarrow> 'a list \<Rightarrow> 'a circular_deque option" where
  "emplace_back_list d [] = Some d"
| "emplace_back_list d (x # xs) = do { d' \<leftarrow> emplace_back d x; emplace_back_list d' xs }"

definition assign_count :: "'a circular_deque \<Rightarrow> nat \<Rightarrow> 'a \<Rightarrow> 'a circular_deque option" where
  "assign_count d count value =
     do { d1 \<leftarrow> ClearRetainCapacity d;
          d2 \<leftarrow> cd_reserve d1 count;
          d3 \<leftarrow> emplace_back_list d2 (replicate count value);
          Some (IncrementGeneration d3) }"

definition assign_range :: "'a circular_deque \<Rightarrow> 'a list \<Rightarrow> 'a circular_deque option" where
  "assign_range d xs =
     do { d1 \<leftarrow> ClearRetainCapacity d;
          d2 \<leftarrow> emplace_back_list d1 xs;
          Some (IncrementGeneration d2) }"

definition assign_ilist :: "'a circular_deque \<Rightarrow> 'a list \<Rightarrow> 'a circular_deque option" where
  "assign_ilist d xs = do { d1 \<leftarrow> cd_reserve d (length xs); assign_range d1 xs }"

partial_function (option) resize_loop ::
  "'a circular_deque \<Rightarrow> nat \<Rightarrow> 'a \<Rightarrow> 'a circular_deque option" where
  "resize_loop d count value =
     (if cd_size d < count
      then do { d' \<leftarrow> emplace_back d value; resize_loop d' count value }
      else Some d)"

definition cd_resize :: "'a circular_deque \<Rightarrow> nat \<Rightarrow> 'a \<Rightarrow> 'a circular_deque option" where
  "cd_resize d count value =
     do { d' \<leftarrow>
            (if cd_size d < count then
               do { d1 \<leftarrow> ExpandCapacityIfNecessary d (count - cd_size d);
                    resize_loop d1 count value }
             else if count < cd_size d then
               do { let new_end = (cd_begin d + count) mod length (cd_buffer d);
                    buf \<leftarrow> cd_DestructRange d new_end (cd_end d);
                    ShrinkCapacityIfNecessary (d\<lparr>cd_buffer := buf, cd_end := new_end\<rparr>) }
             else Some d);
          Some (IncrementGeneration d') }"

subsection \<open>Insertion and erasure in the middle\<close>

partial_function (option) make_room_loop ::
  "'a circular_deque \<Rightarrow> cd_iter \<Rightarrow> cd_iter \<Rightarrow> cd_iter \<Rightarrow> 'a circular_deque option" where
  "make_room_loop d insert_begin src dest =
     do { stop \<leftarrow> it_eq src insert_begin;
          if stop then Some d
          else do {
            src' \<leftarrow> it_Decrement d src;
            dest' \<leftarrow> it_Decrement d dest;
            p \<leftarrow> vb_addr (cd_buffer d) (it_index src');
            q \<leftarrow> vb_addr (cd_buffer d) (it_index src' + 1);
            t \<leftarrow> vb_addr (cd_buffer d) (it_index dest');
            buf \<leftarrow> vb_MoveRange (cd_buffer d) p q t;
            make_room_loop (d\<lparr>cd_buffer := buf\<rparr>) insert_begin src' dest' } }"

definition MakeRoomFor ::
  "'a circular_deque \<Rightarrow> nat \<Rightarrow> cd_iter \<Rightarrow> ('a circular_deque \<times> cd_iter \<times> cd_iter) option" where
  "MakeRoomFor d count insert_begin =
     (if count = 0 then Some (d, insert_begin, insert_begin)
      else do {
        let begin_offset = OffsetFromBegin d insert_begin;
        d1 \<leftarrow> ExpandCapacityIfNecessary d count;
        let cap = length (cd_buffer d1);
        let insert_begin' = insert_begin\<lparr>it_index := (cd_begin d1 + begin_offset) mod cap\<rparr>;
        let insert_end = cd_iterator d1 ((it_index insert_begin' + count) mod cap);
        let src = it_end d1;
        let d2 = d1\<lparr>cd_end := (cd_end d1 + count) mod cap\<rparr>;
        d3 \<leftarrow> make_room_loop d2 insert_begin' src (it_end d2);
        Some (d3, insert_begin', insert_end) })"

partial_function (option) fill_loop ::
  "'a circular_deque \<Rightarrow> cd_iter \<Rightarrow> cd_iter \<Rightarrow> 'a list \<Rightarrow> 'a circular_deque option" where
  "fill_loop d insert_cur insert_end xs =
     do { go \<leftarrow> it_less d insert_cur insert_end;
          if \<not> go then Some d
          else (case xs of
              [] \<Rightarrow> None
            | x # xs' \<Rightarrow> do {
                p \<leftarrow> vb_addr (cd_buffer d) (it_index insert_cur);
                buf \<leftarrow> vb_construct (cd_buffer d) p x;
                insert_cur' \<leftarrow> it_Increment (d\<lparr>cd_buffer := buf\<rparr>) insert_cur;
                fill_loop (d\<lparr>cd_buffer := buf\<rparr>) insert_cur' insert_end xs' }) }"

primrec push_front_n :: "nat \<Rightarrow> 'a circular_deque \<Rightarrow> 'a \<Rightarrow> 'a circular_deque option" where
  "push_front_n 0 d value = Some d"
| "push_front_n (Suc n) d value = do { d' \<leftarrow> push_front d value; push_front_n n d' value }"

definition insert_count ::
  "'a circular_deque \<Rightarrow> cd_iter \<Rightarrow> nat \<Rightarrow> 'a \<Rightarrow> 'a circular_deque option" where
  "insert_count d pos count value =
     do { ValidateIterator d pos;
          at_begin \<leftarrow> it_eq pos (it_begin d);
          if at_begin then
            do { d1 \<leftarrow> ExpandCapacityIfNecessary d count; push_front_n count d1 value }
          else
            do { (d1, insert_cur, insert_end) \<leftarrow>
                   MakeRoomFor d count (cd_iterator d (it_index pos));
                 d2 \<leftarrow> fill_loop d1 insert_cur insert_end (replicate count value);
                 Some (IncrementGeneration d2) } }"

definition insert_range ::
  "'a circular_deque \<Rightarrow> cd_iter \<Rightarrow> 'a list \<Rightarrow> 'a circular_deque option" where
  "insert_range d pos xs =
     do { ValidateIterator d pos;
          let inserted_items = length xs;
          if inserted_items = 0 then Some d
          else do {
            at_begin \<leftarrow> it_eq pos (it_begin d);
            (d1, insert_cur, insert_end) \<leftarrow>
              (if at_begin then
                 do { d1 \<leftarrow> ExpandCapacityIfNecessary d inserted_items;
                      let insert_end = it_begin d1;
                      let cap = length (cd_buffer d1);
                      let d2 = d1\<lparr>cd_begin := (cd_begin d1 + cap - inserted_items) mod cap\<rparr>;
                      Some (d2, it_begin d2, insert_end) }
               else MakeRoomFor d inserted_items (cd_iterator d (it_index pos)));
            d2 \<leftarrow> fill_loop d1 insert_cur insert_end xs;
            Some (IncrementGeneration d2) } }"

definition cd_emplace ::
  "'a circular_deque \<Rightarrow> cd_iter \<Rightarrow> 'a \<Rightarrow> ('a circular_deque \<times> cd_iter) option" where
  "cd_emplace d pos x =
     do { ValidateIterator d pos;
          at_begin \<leftarrow> it_eq pos (it_begin d);
          if at_begin then
            do { d' \<leftarrow> emplace_front d x; Some (d', it_begin d') }
          else do {
            let d1 = IncrementGeneration d;
            (d2, insert_begin, insert_end) \<leftarrow>
              MakeRoomFor d1 1 (cd_iterator d1 (it_index pos));
            p \<leftarrow> vb_addr (cd_buffer d2) (it_index insert_begin);
            buf \<leftarrow> vb_construct (cd_buffer d2) p x;
            Some (d2\<lparr>cd_buffer := buf\<rparr>, insert_begin) } }"

partial_function (option) erase_loop ::
  "'a circular_deque \<Rightarrow> cd_iter \<Rightarrow> cd_iter \<Rightarrow> cd_iter \<Rightarrow> ('a circular_deque \<times> cd_iter) option" where
  "erase_loop d move_src move_src_end move_dest =
     do { go \<leftarrow> it_less d move_src move_src_end;
          if \<not> go then Some (d, move_dest)
          else do {
            p \<leftarrow> vb_addr (cd_buffer d) (it_index move_src);
            q \<leftarrow> vb_addr (cd_buffer d) (it_index move_src + 1);
            t \<leftarrow> vb_addr (cd_buffer d) (it_index move_dest);
            buf \<leftarrow> vb_MoveRange (cd_buffer d) p q t;
            let d' = d\<lparr>cd_buffer := buf\<rparr>;
            move_src' \<leftarrow> it_Increment d' move_src;
            move_dest' \<leftarrow> it_Increment d' move_dest;
            erase_loop d' move_src' move_src_end move_dest' } }"

definition erase_range ::
  "'a circular_deque \<Rightarrow> cd_iter \<Rightarrow> cd_iter \<Rightarrow> ('a circular_deque \<times> cd_iter) option" where
  "erase_range d0 first_it last_it =
     do { ValidateIterator d0 first_it;
          ValidateIterator d0 last_it;
          let d = IncrementGeneration d0;
          let f = it_index first_it;
          let l = it_index last_it;
          let buf = cd_buffer d;
          if f = l then Some (d, cd_iterator d f)
          else do {
            buf' \<leftarrow>
              (if f < l then
                 do { p \<leftarrow> vb_addr buf f; q \<leftarrow> vb_addr buf l; vb_DestructRange buf p q }
               else
                 do { p \<leftarrow> vb_addr buf f;
                      q \<leftarrow> vb_addr buf (length buf);
                      buf1 \<leftarrow> vb_DestructRange buf p q;
                      p' \<leftarrow> vb_addr buf1 0;
                      q' \<leftarrow> vb_addr buf1 l;
                      vb_DestructRange buf1 p' q' });
            let d1 = d\<lparr>cd_buffer := buf'\<rparr>;
            if f = cd_begin d1 then
              do { let d2 = d1\<lparr>cd_begin := l\<rparr>; Some (d2, cd_iterator d2 l) }
            else do {
              (d2, move_dest) \<leftarrow>
                erase_loop d1 (cd_iterator d1 l) (it_end d1) (cd_iterator d1 f);
              Some (d2\<lparr>cd_end := it_index move_dest\<rparr>, cd_iterator d2 f) } } }"

definition cd_erase :: "'a circular_deque \<Rightarrow> cd_iter \<Rightarrow> ('a circular_deque \<times> cd_iter) option" where
  "cd_erase d pos = do { next \<leftarrow> it_Add d pos 1; erase_range d pos next }"

subsection \<open>Iteration, copies and moves\<close>

text \<open>
  The values a client reads with \<open>for (it = first; it != last; ++it) *it\<close>.
\<close>

partial_function (option) it_values ::
  "'a circular_deque \<Rightarrow> cd_iter \<Rightarrow> cd_iter \<Rightarrow> 'a list option" where
  "it_values d first_it last_it =
     do { stop \<leftarrow> it_eq first_it last_it;
          if stop then Some []
          else do {
            x \<leftarrow> it_deref d first_it;
            next \<leftarrow> it_Increment d first_it;
            xs \<leftarrow> it_values d next last_it;
            Some (x # xs) } }"

definition cd_copy :: "'a circular_deque \<Rightarrow> 'a circular_deque option" where
  "cd_copy other =
     do { xs \<leftarrow> it_values other (it_begin other) (it_end other);
          assign_range (cd_new\<lparr>cd_buffer := VectorBuffer (cd_size other + 1)\<rparr>) xs }"

definition cd_copy_assign ::
  "bool \<Rightarrow> 'a circular_deque \<Rightarrow> 'a circular_deque \<Rightarrow> 'a circular_deque option" where
  "cd_copy_assign same this other =
     (if same then Some this
      else do {
        this1 \<leftarrow> cd_reserve this (cd_size other);
        xs \<leftarrow> it_values other (it_begin other) (it_end other);
        assign_range this1 xs })"

text \<open>A moved-from VectorBuffer has no storage.\<close>

definition cd_move :: "'a circular_deque \<Rightarrow> 'a circular_deque \<times> 'a circular_deque" where
  "cd_move other =
     (cd_new\<lparr>cd_buffer := cd_buffer other, cd_begin := cd_begin other, cd_end := cd_end other\<rparr>,
      other\<lparr>cd_buffer := [], cd_begin := 0, cd_end := 0\<rparr>)"

definition cd_move_assign ::
  "bool \<Rightarrow> 'a circular_deque \<Rightarrow> 'a circular_deque
     \<Rightarrow> ('a circular_deque \<times> 'a circular_deque) option" where
  "cd_move_assign same this other =
     (if same then Some (this, other)
      else do {
        this1 \<leftarrow> ClearRetainCapacity this;
        Some (IncrementGeneration (this1\<lparr>cd_buffer := cd_buffer other, cd_begin := cd_begin other,
                                          cd_end := cd_end other\<rparr>),
              other\<lparr>cd_buffer := [], cd_begin := 0, cd_end := 0\<rparr>) })"

text \<open>The destructor: what is left in the buffer that is then freed.\<close>

definition cd_destroy :: "'a circular_deque \<Rightarrow> 'a vector_buffer option" where
  "cd_destroy d = cd_DestructRange d (cd_begin d) (cd_end d)"

declare resize_loop.simps [code] make_room_loop.simps [code] fill_loop.simps [code]
  erase_loop.simps [code] it_values.simps [code]

section \<open>Specification\<close>

definition cd_rep :: "'a circular_deque \<Rightarrow> 'a list \<Rightarrow> bool" where
  "cd_rep d xs \<longleftrightarrow>
     (let buf = cd_buffer d; c = length buf; b = cd_begin d in
      if c = 0 then cd_begin d = cd_end d \<and> xs = []
      else b < c \<and> length xs < c \<and> cd_end d = (b + length xs) mod c \<and>
           rotate b buf = map Some xs @ replicate (c - length xs) None)"

definition cd_span :: "'a circular_deque \<Rightarrow> nat \<Rightarrow> bool" where
  "cd_span d n \<longleftrightarrow> cd_begin d < length (cd_buffer d) \<and> n < length (cd_buffer d) \<and>
     cd_end d = (cd_begin d + n) mod length (cd_buffer d)"

definition it_pos :: "'a circular_deque \<Rightarrow> nat \<Rightarrow> cd_iter" where
  "it_pos d k = cd_iterator d ((cd_begin d + k) mod length (cd_buffer d))"

definition circular_deque_ops :: "('a circular_deque, 'a) deque_ops" where
  "circular_deque_ops =
     \<lparr>dq_new = cd_new, dq_push_front = push_front, dq_push_back = push_back,
      dq_pop_front = pop_front, dq_front = cd_front, dq_back = cd_back,
      dq_size = cd_size, dq_empty = cd_empty, dq_clear = cd_clear\<rparr>"

text \<open>A ring of five slots whose three elements wrap around the end of the buffer.\<close>

definition cd_example :: "nat circular_deque" where
  "cd_example = \<lparr>cd_buffer = [Some 3, None, None, Some 1, Some 2], cd_begin = 3, cd_end = 1,
     cd_generation = 5\<rparr>"

section \<open>Representation\<close>

lemma IncrementGeneration_simps [simp]:
  "cd_buffer (IncrementGeneration d) = cd_buffer d"
  "cd_begin (IncrementGeneration d) = cd_begin d"
  "cd_end (IncrementGeneration d) = cd_end d"
  "cd_generation (IncrementGeneration d) = cd_generation d + 1"
  by (simp_all add: IncrementGeneration_def)

lemma cd_rep_new [simp]: "cd_rep cd_new []"
  by (simp add: cd_rep_def cd_new_def)

lemma cd_rep_generation [simp]:
  "cd_rep (IncrementGeneration d) xs = cd_rep d xs"
  by (simp add: cd_rep_def IncrementGeneration_def)

lemma cd_rep_nonempty:
  assumes "cd_rep d xs" "cd_buffer d \<noteq> []"
  shows "cd_begin d < length (cd_buffer d)" "length xs < length (cd_buffer d)"
    "cd_end d = (cd_begin d + length xs) mod length (cd_buffer d)"
    "rotate (cd_begin d) (cd_buffer d)
       = map Some xs @ replicate (length (cd_buffer d) - length xs) None"
  using assms by (auto simp: cd_rep_def Let_def)

lemma cd_rep_no_buffer: "cd_rep d xs \<Longrightarrow> cd_buffer d = [] \<Longrightarrow> xs = [] \<and> cd_end d = cd_begin d"
  by (simp add: cd_rep_def)

lemma cd_repI:
  assumes "cd_begin d < length (cd_buffer d)"
    and "cd_end d = (cd_begin d + length xs) mod length (cd_buffer d)"
    and "rotate (cd_begin d) (cd_buffer d) = map Some xs @ None # M"
    and "set M \<subseteq> {None}"
  shows "cd_rep d xs"
proof -
  have l: "length (cd_buffer d) = length xs + Suc (length M)"
    using arg_cong [OF assms(3), of length] by simp
  have "M = replicate (length M) None"
    using assms(4) by (metis replicate_length_same singletonD subsetD)
  then have "None # M = replicate (length (cd_buffer d) - length xs) None"
    using l by simp
  with assms l show ?thesis by (auto simp: cd_rep_def Let_def)
qed

lemma cd_repE:
  assumes "cd_rep d xs" "cd_buffer d \<noteq> []"
  obtains M where "cd_begin d < length (cd_buffer d)" "length xs < length (cd_buffer d)"
    "cd_end d = (cd_begin d + length xs) mod length (cd_buffer d)"
    "rotate (cd_begin d) (cd_buffer d) = map Some xs @ None # M" "set M \<subseteq> {None}"
proof -
  note r = cd_rep_nonempty [OF assms]
  from r(2) have "length (cd_buffer d) - length xs = Suc (length (cd_buffer d) - length xs - 1)"
    by simp
  with that r show ?thesis
    by (metis replicate_Suc set_replicate_conv_if empty_subsetI order_refl)
qed

lemma cd_rep_size [simp]:
  assumes "cd_rep d xs"
  shows "cd_size d = length xs"
proof (cases "cd_buffer d = []")
  case True
  with assms show ?thesis by (simp add: cd_size_def cd_rep_def)
next
  case False
  note r = cd_rep_nonempty [OF assms False]
  then show ?thesis
    by (auto simp: cd_size_def ring_index_eq)
qed

lemma cd_rep_empty [simp]:
  assumes "cd_rep d xs"
  shows "cd_empty d \<longleftrightarrow> xs = []"
proof (cases "cd_buffer d = []")
  case True
  with assms show ?thesis by (simp add: cd_empty_def cd_rep_def)
next
  case False
  note r = cd_rep_nonempty [OF assms False]
  then show ?thesis
    by (auto simp: cd_empty_def ring_index_eq split: if_splits)
qed

lemma cd_rep_capacity:
  assumes "cd_rep d xs"
  shows "length xs \<le> cd_capacity d"
  using assms by (auto simp: cd_rep_def cd_capacity_def Let_def split: if_splits)

lemma cd_rep_inj:
  assumes "cd_rep d xs" "cd_rep d ys"
  shows "xs = ys"
proof -
  have "length xs = length ys"
    using cd_rep_size [OF assms(1)] cd_rep_size [OF assms(2)] by simp
  moreover from this assms have "map Some xs = map Some ys"
    by (auto simp: cd_rep_def Let_def split: if_splits)
  ultimately show ?thesis
    by (metis list.inj_map option.inject injI injD)
qed

text \<open>The two shapes of a ring in memory: one block of elements, or two.\<close>

lemma cd_rep_contiguous:
  assumes "cd_rep d xs" "cd_buffer d \<noteq> []" "cd_begin d + length xs < length (cd_buffer d)"
  obtains r where "cd_buffer d = replicate (cd_begin d) None @ map Some xs @ replicate (Suc r) None"
    and "cd_end d = cd_begin d + length xs"
proof -
  note r = cd_rep_nonempty [OF assms(1,2)]
  have "Suc (length (cd_buffer d) - cd_begin d - length xs - 1)
      = length (cd_buffer d) - cd_begin d - length xs"
    using assms(3) by simp
  then have "cd_buffer d = replicate (cd_begin d) None @ map Some xs
      @ replicate (Suc (length (cd_buffer d) - cd_begin d - length xs - 1)) None"
    using rotate_split [OF r(1)] r(4) assms(3) by (simp del: replicate_Suc)
  moreover have "cd_end d = cd_begin d + length xs"
    using r(3) assms(3) by simp
  ultimately show ?thesis by (rule that)
qed

lemma cd_rep_wrapped:
  assumes "cd_rep d xs" "cd_buffer d \<noteq> []" "length (cd_buffer d) \<le> cd_begin d + length xs"
  obtains ys zs where "xs = ys @ zs" "ys \<noteq> []" "length ys = length (cd_buffer d) - cd_begin d"
    "cd_end d = length zs" "length zs < cd_begin d"
    "cd_buffer d = map Some zs @ replicate (cd_begin d - length zs) None @ map Some ys"
proof -
  note r = cd_rep_nonempty [OF assms(1,2)]
  let ?m = "length (cd_buffer d) - cd_begin d"
  let ?ys = "take ?m xs" and ?zs = "drop ?m xs"
  have "?m \<le> length xs" using assms(3) by simp
  have e: "cd_end d = length ?zs"
    using r(1-3) assms(3) by (simp add: ring_index_eq)
  have "cd_buffer d = map Some ?zs @ replicate (cd_begin d - length ?zs) None @ map Some ?ys"
    using rotate_split [OF r(1)] r assms(3)
    by (simp add: drop_map take_map)
  moreover have "xs \<noteq> []" "length xs - ?m < cd_begin d"
    using r(1,2) assms(3) by auto
  ultimately show ?thesis
    using that [of ?ys ?zs] e r(1) \<open>?m \<le> length xs\<close> by simp
qed

section \<open>Reallocation\<close>

lemma MoveBuffer_run:
  assumes "cd_rep d xs" "length xs \<le> n"
  obtains from' where
    "MoveBuffer (cd_buffer d) (cd_begin d) (cd_end d) (VectorBuffer n)
       = Some (from', map Some xs @ replicate (n - length xs) None, 0, length xs)"
    "from' = replicate (length (cd_buffer d)) None"
proof (cases "cd_buffer d = [] \<or> xs = []")
  case True
  with assms cd_rep_empty [OF assms(1)] have "cd_end d = cd_begin d" "xs = []"
    by (auto simp: cd_empty_def cd_rep_def)
  moreover have "cd_buffer d = replicate (length (cd_buffer d)) None"
  proof (cases "cd_buffer d = []")
    case False
    note r = cd_rep_nonempty [OF assms(1) False]
    show ?thesis
      using rotate_split [OF r(1)] r(1,4) \<open>xs = []\<close> by (simp flip: replicate_add)
  qed simp
  ultimately show ?thesis
    using that [of "cd_buffer d"] by (simp add: MoveBuffer_def VectorBuffer_def)
next
  case False
  then have buf: "cd_buffer d \<noteq> []" and ne: "xs \<noteq> []" by auto
  note r = cd_rep_nonempty [OF assms(1) buf]
  show ?thesis
  proof (cases "cd_begin d + length xs < length (cd_buffer d)")
    case True
    then obtain r where c: "cd_buffer d = replicate (cd_begin d) None @ map Some xs
        @ replicate (Suc r) None" "cd_end d = cd_begin d + length xs"
      by (rule cd_rep_contiguous [OF assms(1) buf])
    have "vb_MoveRange_across (cd_buffer d) (cd_begin d) (cd_begin d + length xs)
            (VectorBuffer n) 0
        = Some (replicate (cd_begin d) None @ replicate (length xs) None
                 @ replicate (Suc r) None,
                [] @ map Some xs @ replicate (n - length xs) None)"
      by (rule vb_MoveRange_across_run [OF c(1)])
        (use assms(2) in \<open>simp_all add: VectorBuffer_def flip: replicate_add\<close>)
    moreover have "length (cd_buffer d) = cd_begin d + length xs + Suc r"
      by (subst c(1)) simp
    ultimately show ?thesis
      using that c(2) ne by (simp add: MoveBuffer_def del: replicate_Suc flip: replicate_add)
  next
    case False
    then have "length (cd_buffer d) \<le> cd_begin d + length xs" by simp
    then obtain ys zs where w: "xs = ys @ zs" "ys \<noteq> []"
      "length ys = length (cd_buffer d) - cd_begin d" "cd_end d = length zs"
      "length zs < cd_begin d"
      "cd_buffer d = map Some zs @ replicate (cd_begin d - length zs) None @ map Some ys"
      by (rule cd_rep_wrapped [OF assms(1) buf])
    let ?gap = "replicate (cd_begin d - length zs) None"
    have len: "length (cd_buffer d) = cd_begin d + length ys"
      using w(3) r(1) by simp
    have 1: "vb_MoveRange_across (cd_buffer d) (cd_begin d) (length (cd_buffer d))
            (VectorBuffer n) 0
        = Some ((map Some zs @ ?gap) @ replicate (length ys) None @ [],
                [] @ map Some ys @ replicate (n - length ys) None)"
      by (rule vb_MoveRange_across_run)
        (use assms(2) w(1,5) in \<open>simp_all add: VectorBuffer_def len w(6) flip: replicate_add\<close>)
    have 2: "vb_MoveRange_across (map Some zs @ ?gap @ replicate (length ys) None)
            0 (length zs) (map Some ys @ replicate (n - length ys) None) (length ys)
        = Some ([] @ replicate (length zs) None @ ?gap @ replicate (length ys) None,
                map Some ys @ map Some zs @ replicate (n - length ys - length zs) None)"
      by (rule vb_MoveRange_across_run)
        (use assms(2) w(1) in \<open>simp_all flip: replicate_add\<close>)
    have "\<not> cd_begin d < length zs" "cd_begin d \<noteq> length zs" using w(5) by auto
    with 1 2 that w(1,4,5) len show ?thesis
      by (simp add: MoveBuffer_def Let_def flip: replicate_add)
  qed
qed

lemma SetCapacityTo_run:
  assumes "cd_rep d xs" "length xs \<le> n"
  shows "SetCapacityTo d n = Some (d\<lparr>cd_buffer := map Some xs @ replicate (Suc n - length xs) None,
           cd_begin := 0, cd_end := length xs\<rparr>)"
proof -
  from assms have "length xs \<le> Suc n" by simp
  from assms(1) this obtain from' where
    "MoveBuffer (cd_buffer d) (cd_begin d) (cd_end d) (VectorBuffer (Suc n))
       = Some (from', map Some xs @ replicate (Suc n - length xs) None, 0, length xs)"
    by (rule MoveBuffer_run)
  then show ?thesis by (simp add: SetCapacityTo_def)
qed

lemma SetCapacityTo_rep:
  assumes "cd_rep d xs" "length xs \<le> n"
  obtains d' where "SetCapacityTo d n = Some d'" "cd_rep d' xs"
    "cd_capacity d' = n" "cd_generation d' = cd_generation d" "cd_begin d' = 0"
proof (rule that [OF SetCapacityTo_run [OF assms]])
qed (use assms(2) in \<open>simp_all add: cd_rep_def cd_capacity_def Suc_diff_le\<close>)

lemma ExpandCapacityIfNecessary_rep:
  assumes "cd_rep d xs"
  obtains d' where "ExpandCapacityIfNecessary d k = Some d'" "cd_rep d' xs"
    "length xs + k \<le> cd_capacity d'" "cd_generation d' = cd_generation d"
    "length xs + k \<le> cd_capacity d \<Longrightarrow> d' = d"
proof (cases "length xs + k \<le> cd_capacity d")
  case True
  with assms that [of d] show ?thesis
    by (simp add: ExpandCapacityIfNecessary_def)
next
  case False
  let ?n = "max (max (length xs + k) kCircularBufferInitialCapacity)
              (cd_capacity d + cd_capacity d div 4)"
  have "length xs \<le> ?n" by simp
  from assms this obtain d' where "SetCapacityTo d ?n = Some d'" "cd_rep d' xs"
    "cd_capacity d' = ?n" "cd_generation d' = cd_generation d"
    by (rule SetCapacityTo_rep)
  with assms False that [of d'] show ?thesis
    by (simp add: ExpandCapacityIfNecessary_def)
qed

lemma ShrinkCapacityIfNecessary_rep:
  assumes "cd_rep d xs"
  obtains d' where "ShrinkCapacityIfNecessary d = Some d'" "cd_rep d' xs"
    "cd_generation d' = cd_generation d" "cd_capacity d' \<le> cd_capacity d"
proof (cases "ShrinkCapacityIfNecessary d = Some d")
  case True
  with assms that show ?thesis by blast
next
  case False
  let ?n = "max kCircularBufferInitialCapacity (length xs + length xs div 4)"
  have s: "ShrinkCapacityIfNecessary d = SetCapacityTo d ?n" "?n < cd_capacity d"
    using False assms
    by (auto simp: ShrinkCapacityIfNecessary_def Let_def split: if_splits)
  have "length xs \<le> ?n" by simp
  from assms this obtain d' where "SetCapacityTo d ?n = Some d'" "cd_rep d' xs"
    "cd_capacity d' = ?n" "cd_generation d' = cd_generation d"
    by (rule SetCapacityTo_rep)
  with s that [of d'] show ?thesis by simp
qed

section \<open>Begin and end operations\<close>

lemma cd_repE_room:
  assumes "cd_rep d xs" "length xs < cd_capacity d"
  obtains M where "cd_begin d < length (cd_buffer d)" "Suc (length xs) < length (cd_buffer d)"
    "cd_end d = (cd_begin d + length xs) mod length (cd_buffer d)"
    "rotate (cd_begin d) (cd_buffer d) = map Some xs @ None # None # M" "set M \<subseteq> {None}"
proof -
  have ne: "cd_buffer d \<noteq> []" and l: "Suc (length xs) < length (cd_buffer d)"
    using assms(2) by (auto simp: cd_capacity_def split: if_splits)
  from assms(1) ne obtain M where r: "cd_begin d < length (cd_buffer d)"
    "cd_end d = (cd_begin d + length xs) mod length (cd_buffer d)"
    "rotate (cd_begin d) (cd_buffer d) = map Some xs @ None # M" "set M \<subseteq> {None}"
    by (rule cd_repE)
  from arg_cong [OF r(3), of length] l have "M \<noteq> []" by auto
  then obtain m M' where "M = m # M'" by (cases M) auto
  with that r l show ?thesis by auto
qed

lemma cd_at_rep:
  assumes "cd_rep d xs" "i < length xs"
  shows "cd_at d i = Some (xs ! i)"
proof -
  have ne: "cd_buffer d \<noteq> []"
    using assms cd_rep_no_buffer by fastforce
  note r = cd_rep_nonempty [OF assms(1) ne]
  have i: "i < length (cd_buffer d)" using r(2) assms(2) by simp
  have load: "cd_buffer d ! ((cd_begin d + i) mod length (cd_buffer d)) = Some (xs ! i)"
    using nth_ring [OF r(1) i] r(4) assms(2) by (simp add: nth_append)
  show ?thesis
  proof (cases "cd_begin d + i < length (cd_buffer d)")
    case True
    then have "cd_begin d \<le> cd_end d \<or> i < length (cd_buffer d) - cd_begin d" by auto
    with True load assms show ?thesis by (simp add: cd_at_def)
  next
    case False
    then have "\<not> (cd_begin d \<le> cd_end d \<or> i < length (cd_buffer d) - cd_begin d)"
      using r(1-3) assms(2) by (auto simp: ring_index_eq split: if_splits)
    moreover have "(cd_begin d + i) mod length (cd_buffer d)
        = i - (length (cd_buffer d) - cd_begin d)"
      using False r(1) i by (simp add: ring_index_eq)
    ultimately show ?thesis
      using load assms i by (auto simp: cd_at_def)
  qed
qed

lemma cd_front_rep:
  assumes "cd_rep d (x # xs)"
  shows "cd_front d = Some x"
proof -
  have ne: "cd_buffer d \<noteq> []"
    using assms cd_rep_no_buffer by fastforce
  note r = cd_rep_nonempty [OF assms ne]
  then have "cd_buffer d ! cd_begin d = Some x"
    using nth_ring [OF r(1), of 0] ne by simp
  with r(1) cd_rep_empty [OF assms] show ?thesis
    by (simp add: cd_front_def)
qed

section \<open>Positions\<close>

lemma cd_rep_span: "cd_rep d xs \<Longrightarrow> cd_buffer d \<noteq> [] \<Longrightarrow> cd_span d (length xs)"
  by (simp add: cd_span_def cd_rep_nonempty)

lemma cd_rep_iff_span:
  assumes "cd_buffer d \<noteq> []"
  shows "cd_rep d xs \<longleftrightarrow> cd_span d (length xs) \<and> rotate (cd_begin d) (cd_buffer d)
           = map Some xs @ replicate (length (cd_buffer d) - length xs) None"
  using assms by (auto simp: cd_rep_def cd_span_def Let_def)

lemma span_size: "cd_span d n \<Longrightarrow> cd_size d = n"
  by (auto simp: cd_span_def cd_size_def ring_index_eq)

lemma span_it_begin: "cd_span d n \<Longrightarrow> it_begin d = it_pos d 0"
  by (simp add: it_begin_def it_pos_def cd_span_def)

lemma span_it_end: "cd_span d n \<Longrightarrow> it_end d = it_pos d n"
  by (simp add: it_end_def it_pos_def cd_span_def)

lemma it_pos_frame [simp]:
  "length buf = length (cd_buffer d) \<Longrightarrow> it_pos (d\<lparr>cd_buffer := buf\<rparr>) k = it_pos d k"
  "it_pos (d\<lparr>cd_end := e\<rparr>) k = it_pos d k"
  by (simp_all add: it_pos_def cd_iterator_def)

lemma span_frame [simp]:
  "length buf = length (cd_buffer d) \<Longrightarrow> cd_span (d\<lparr>cd_buffer := buf\<rparr>) n = cd_span d n"
  by (simp add: cd_span_def)

lemma it_index_pos [simp]:
  "it_index (it_pos d k) = (cd_begin d + k) mod length (cd_buffer d)"
  by (simp add: it_pos_def cd_iterator_def)

lemma it_generation_pos [simp]: "it_generation (it_pos d k) = cd_generation d"
  by (simp add: it_pos_def cd_iterator_def)

lemma CheckUnstableUsage_pos [simp]: "CheckUnstableUsage d (it_pos d k) = Some ()"
  by (simp add: CheckUnstableUsage_def)

lemma CheckComparable_pos [simp]: "CheckComparable (it_pos d j) (it_pos d k) = Some ()"
  by (simp add: CheckComparable_def)

lemma ValidateIterator_pos [simp]: "ValidateIterator d (it_pos d k) = Some ()"
  by (simp add: ValidateIterator_def)

lemma CheckValidIndex_pos:
  "cd_span d n \<Longrightarrow> k < n \<Longrightarrow>
     CheckValidIndex d ((cd_begin d + k) mod length (cd_buffer d)) = Some ()"
  by (auto simp: CheckValidIndex_def cd_span_def ring_index_eq DCHECK_def)

lemma CheckValidIndexOrEnd_pos:
  "cd_span d n \<Longrightarrow> k \<le> n \<Longrightarrow>
     CheckValidIndexOrEnd d ((cd_begin d + k) mod length (cd_buffer d)) = Some ()"
  using CheckValidIndex_pos [of d n k]
  by (cases "k = n") (auto simp: CheckValidIndexOrEnd_def cd_span_def)

lemma OffsetFromBegin_pos:
  "cd_span d n \<Longrightarrow> k < length (cd_buffer d) \<Longrightarrow> OffsetFromBegin d (it_pos d k) = k"
  by (auto simp: OffsetFromBegin_def cd_span_def ring_index_eq)

lemma it_less_pos:
  "cd_span d n \<Longrightarrow> j < length (cd_buffer d) \<Longrightarrow> k < length (cd_buffer d) \<Longrightarrow>
     it_less d (it_pos d j) (it_pos d k) = Some (j < k)"
  by (simp add: it_less_def OffsetFromBegin_pos)

lemma it_eq_pos:
  "cd_span d n \<Longrightarrow> j < length (cd_buffer d) \<Longrightarrow> k < length (cd_buffer d) \<Longrightarrow>
     it_eq (it_pos d j) (it_pos d k) = Some (j = k)"
  by (simp add: it_eq_def cd_span_def)

lemma it_Increment_pos:
  assumes "cd_span d n" "k < n"
  shows "it_Increment d (it_pos d k) = Some (it_pos d (Suc k))"
proof -
  have "(if (cd_begin d + k) mod length (cd_buffer d) + 1 = length (cd_buffer d) then 0
         else (cd_begin d + k) mod length (cd_buffer d) + 1)
      = (cd_begin d + Suc k) mod length (cd_buffer d)"
    using assms by (auto simp: cd_span_def mod_Suc)
  with assms CheckValidIndex_pos [OF assms] show ?thesis
    by (simp add: it_Increment_def Let_def it_pos_def cd_iterator_def CheckUnstableUsage_def
        split: if_splits)
qed

lemma it_Decrement_pos:
  assumes "cd_span d n" "Suc k \<le> n"
  shows "it_Decrement d (it_pos d (Suc k)) = Some (it_pos d k)"
proof -
  have "(if (cd_begin d + Suc k) mod length (cd_buffer d) = 0 then length (cd_buffer d) - 1
         else (cd_begin d + Suc k) mod length (cd_buffer d) - 1)
      = (cd_begin d + k) mod length (cd_buffer d)"
    using assms by (auto simp: cd_span_def mod_Suc split: if_splits)
  with assms CheckValidIndexOrEnd_pos [OF assms] show ?thesis
    by (simp add: it_Decrement_def it_pos_def cd_iterator_def CheckUnstableUsage_def
        split: if_splits)
qed

lemma it_Add_pos:
  assumes "cd_span d n" "k \<le> n" "0 < delta \<Longrightarrow> k < n" "0 \<le> int k + delta" "int k + delta \<le> int n"
  shows "it_Add d (it_pos d k) delta = Some (it_pos d (nat (int k + delta)))"
proof (cases "delta = 0")
  case True
  with assms(1,2) CheckValidIndexOrEnd_pos [OF assms(1,2)] show ?thesis
    by (simp add: it_Add_def)
next
  case False
  have k: "k < length (cd_buffer d)" using assms(1,2) by (simp add: cd_span_def)
  obtain m where m: "int k + delta = int m"
    using assms(4) by (rule nonneg_int_cases)
  have "(int m + int (cd_begin d)) mod int (length (cd_buffer d))
      = int ((cd_begin d + m) mod length (cd_buffer d))"
    by (simp add: of_nat_mod add.commute)
  then have "nat ((int k + delta + int (cd_begin d)) mod int (length (cd_buffer d)))
      = (cd_begin d + nat (int k + delta)) mod length (cd_buffer d)"
    by (simp add: m)
  then show ?thesis
    using assms False CheckValidIndexOrEnd_pos [OF assms(1,2)] CheckValidIndex_pos [OF assms(1)]
      OffsetFromBegin_pos [OF assms(1) k]
    by (simp add: it_Add_def Let_def span_size it_pos_def cd_iterator_def CheckUnstableUsage_def)
qed

lemma cd_back_rep:
  assumes "cd_rep d (xs @ [x])"
  shows "cd_back d = Some x"
proof -
  have ne: "cd_buffer d \<noteq> []"
    using assms cd_rep_no_buffer by fastforce
  note r = cd_rep_nonempty [OF assms ne]
  have s: "cd_span d (Suc (length xs))"
    using cd_rep_span [OF assms ne] by simp
  have "it_Decrement d (it_end d) = Some (it_pos d (length xs))"
    using it_Decrement_pos [OF s] span_it_end [OF s] by simp
  moreover have "CheckValidIndex d ((cd_begin d + length xs) mod length (cd_buffer d)) = Some ()"
    using CheckValidIndex_pos [OF s] by simp
  moreover have "cd_buffer d ! ((cd_begin d + length xs) mod length (cd_buffer d)) = Some x"
    using nth_ring [OF r(1), of "length xs"] r(2,4) by (simp add: nth_append)
  ultimately show ?thesis
    using r(1) cd_rep_empty [OF assms] by (simp add: cd_back_def it_deref_def less_imp_le)
qed

lemma it_deref_pos:
  assumes "cd_rep d xs" "k < length xs"
  shows "it_deref d (it_pos d k) = Some (xs ! k)"
proof -
  have ne: "cd_buffer d \<noteq> []"
    using assms cd_rep_no_buffer by fastforce
  note r = cd_rep_nonempty [OF assms(1) ne]
  have "CheckValidIndex d ((cd_begin d + k) mod length (cd_buffer d)) = Some ()"
    using CheckValidIndex_pos [OF cd_rep_span [OF assms(1) ne] assms(2)] .
  moreover have "cd_buffer d ! ((cd_begin d + k) mod length (cd_buffer d)) = Some (xs ! k)"
    using nth_ring [OF r(1), of k] r(2,4) assms(2) by (simp add: nth_append)
  ultimately show ?thesis
    using r(1) by (simp add: it_deref_def less_imp_le)
qed

section \<open>Pushing and popping\<close>

lemma emplace_back_rep:
  assumes "cd_rep d xs"
  obtains d' where "emplace_back d x = Some d'" "cd_rep d' (xs @ [x])"
    "cd_generation d' = cd_generation d + 1"
proof -
  obtain d1 where e: "ExpandCapacityIfNecessary d 1 = Some d1" "cd_rep d1 xs"
    "length xs + 1 \<le> cd_capacity d1" "cd_generation d1 = cd_generation d"
    by (rule ExpandCapacityIfNecessary_rep [OF assms])
  from e(2,3) obtain M where r: "cd_begin d1 < length (cd_buffer d1)"
    "Suc (length xs) < length (cd_buffer d1)"
    "cd_end d1 = (cd_begin d1 + length xs) mod length (cd_buffer d1)"
    "rotate (cd_begin d1) (cd_buffer d1) = map Some xs @ None # None # M"
    "set M \<subseteq> {None}"
    by (elim cd_repE_room) simp
  let ?buf = "(cd_buffer d1)[cd_end d1 := Some x]"
  let ?d2 = "d1\<lparr>cd_buffer := ?buf, cd_end :=
            (if cd_end d1 = length ?buf - 1 then 0 else cd_end d1 + 1)\<rparr>"
  have slot: "cd_end d1 < length (cd_buffer d1)" "cd_buffer d1 ! cd_end d1 = None"
    using nth_ring [OF r(1), of "length xs"] r by (simp_all add: nth_append)
  have "rotate (cd_begin d1) ?buf = map Some (xs @ [x]) @ None # M"
    using rotate_update [OF r(1), of "length xs" "Some x"] r by (simp add: list_update_append)
  moreover have "(if cd_end d1 = length ?buf - 1 then 0 else cd_end d1 + 1)
      = (cd_begin d1 + length (xs @ [x])) mod length ?buf"
    using r(1-3) by (auto simp: mod_Suc)
  ultimately have rep: "cd_rep ?d2 (xs @ [x])"
    using r(1,5) by (intro cd_repI) simp_all
  have "cd_back (IncrementGeneration ?d2) = Some x"
    using rep by (intro cd_back_rep) simp
  with e(1) slot have "emplace_back d x = Some (IncrementGeneration ?d2)"
    by (simp add: emplace_back_def vb_construct_def Let_def)
  with that rep e(4) show ?thesis by simp
qed

lemma emplace_front_rep:
  assumes "cd_rep d xs"
  obtains d' where "emplace_front d x = Some d'" "cd_rep d' (x # xs)"
    "cd_generation d' = cd_generation d + 1"
proof -
  obtain d1 where e: "ExpandCapacityIfNecessary d 1 = Some d1" "cd_rep d1 xs"
    "length xs + 1 \<le> cd_capacity d1" "cd_generation d1 = cd_generation d"
    by (rule ExpandCapacityIfNecessary_rep [OF assms])
  from e(2,3) obtain M where r: "cd_begin d1 < length (cd_buffer d1)"
    "Suc (length xs) < length (cd_buffer d1)"
    "cd_end d1 = (cd_begin d1 + length xs) mod length (cd_buffer d1)"
    "rotate (cd_begin d1) (cd_buffer d1) = map Some xs @ None # None # M"
    "set M \<subseteq> {None}"
    by (elim cd_repE_room) simp
  define b where "b = (if cd_begin d1 = 0 then length (cd_buffer d1) - 1 else cd_begin d1 - 1)"
  let ?buf = "(cd_buffer d1)[b := Some x]"
  let ?d3 = "(IncrementGeneration (d1\<lparr>cd_begin := b\<rparr>))\<lparr>cd_buffer := ?buf\<rparr>"
  have b: "b < length (cd_buffer d1)" using r(1) by (auto simp: b_def)
  have "rotate1 (rotate b (cd_buffer d1)) = (map Some xs @ None # M) @ [None]"
    unfolding b_def using rotate_prev [OF r(1)] r(4) None_snoc [OF r(5)] by simp
  then have rot: "rotate b (cd_buffer d1) = None # map Some xs @ None # M"
    by (rule rotate1_cancel)
  have slot: "cd_buffer d1 ! b = None"
    using nth_ring0 [OF b] rot by simp
  have "rotate b ?buf = map Some (x # xs) @ None # M"
    using rotate_update0 [OF b, of "Some x"] rot by simp
  moreover have "cd_end d1 = (b + length (x # xs)) mod length ?buf"
    unfolding b_def using r(3) ring_prev [OF r(1), of "length xs"] by simp
  ultimately have rep: "cd_rep ?d3 (x # xs)"
    using b r(5) by (intro cd_repI) simp_all
  from e(1) slot b cd_front_rep [OF rep] have "emplace_front d x = Some ?d3"
    by (simp add: emplace_front_def vb_construct_def Let_def flip: b_def)
  with that rep e(4) show ?thesis by simp
qed

lemma pop_front_rep:
  assumes "cd_rep d (x # xs)"
  obtains d' where "pop_front d = Some d'" "cd_rep d' xs"
    "cd_generation d' = cd_generation d + 1"
proof -
  have ne: "cd_buffer d \<noteq> []"
    using assms cd_rep_no_buffer by fastforce
  from assms ne obtain M where r: "cd_begin d < length (cd_buffer d)"
    "length (x # xs) < length (cd_buffer d)"
    "cd_end d = (cd_begin d + length (x # xs)) mod length (cd_buffer d)"
    "rotate (cd_begin d) (cd_buffer d) = map Some (x # xs) @ None # M" "set M \<subseteq> {None}"
    by (rule cd_repE)
  let ?buf = "(cd_buffer d)[cd_begin d := None]"
  define b where "b = (if Suc (cd_begin d) = length (cd_buffer d) then 0 else Suc (cd_begin d))"
  let ?d1 = "d\<lparr>cd_buffer := ?buf, cd_begin := b\<rparr>"
  have slot: "cd_buffer d ! cd_begin d = Some x"
    using nth_ring0 [OF r(1)] r(4) by simp
  have b: "b < length ?buf" using r(1) by (auto simp: b_def)
  have "rotate b ?buf = map Some xs @ None # M @ [None]"
    using rotate_next [of "cd_begin d" ?buf] rotate_update0 [OF r(1), of None] r(1,4)
    by (simp add: b_def)
  moreover have "cd_end d = (b + length xs) mod length ?buf"
    using r(3) ring_next [OF r(1), of "length xs"] by (simp add: b_def)
  ultimately have "cd_rep ?d1 xs"
    using b r(5) by (intro cd_repI [where M = "M @ [None]"]) simp_all
  then obtain d' where "ShrinkCapacityIfNecessary ?d1 = Some d'" "cd_rep d' xs"
    "cd_generation d' = cd_generation ?d1"
    by (rule ShrinkCapacityIfNecessary_rep)
  with that [of "IncrementGeneration d'"] show ?thesis
    using slot r(1) cd_rep_size [OF assms]
    by (simp add: pop_front_def Let_def DestructRange_one b_def)
qed

lemma pop_back_rep:
  assumes "cd_rep d (xs @ [x])"
  obtains d' where "pop_back d = Some d'" "cd_rep d' xs"
    "cd_generation d' = cd_generation d + 1"
proof -
  have ne: "cd_buffer d \<noteq> []"
    using assms cd_rep_no_buffer by fastforce
  from assms ne obtain M where r: "cd_begin d < length (cd_buffer d)"
    "length (xs @ [x]) < length (cd_buffer d)"
    "cd_end d = (cd_begin d + length (xs @ [x])) mod length (cd_buffer d)"
    "rotate (cd_begin d) (cd_buffer d) = map Some (xs @ [x]) @ None # M" "set M \<subseteq> {None}"
    by (rule cd_repE)
  define e where "e = (if cd_end d = 0 then length (cd_buffer d) - 1 else cd_end d - 1)"
  have e: "e = (cd_begin d + length xs) mod length (cd_buffer d)"
    using r(1-3) by (auto simp: e_def mod_Suc split: if_splits)
  let ?buf = "(cd_buffer d)[e := None]"
  let ?d1 = "d\<lparr>cd_buffer := ?buf, cd_end := e\<rparr>"
  have e': "e < length (cd_buffer d)" unfolding e using r(1) by simp
  have slot: "cd_buffer d ! e = Some x"
    unfolding e using nth_ring [OF r(1), of "length xs"] r by (simp add: nth_append)
  have "rotate (cd_begin d) ?buf = map Some xs @ None # None # M"
    unfolding e using rotate_update [OF r(1), of "length xs" None] r
    by (simp add: list_update_append)
  then have "cd_rep ?d1 xs"
    using r(1,5) e by (intro cd_repI [where M = "None # M"]) simp_all
  then obtain d' where "ShrinkCapacityIfNecessary ?d1 = Some d'" "cd_rep d' xs"
    "cd_generation d' = cd_generation ?d1"
    by (rule ShrinkCapacityIfNecessary_rep)
  with that [of "IncrementGeneration d'"] show ?thesis
    using slot e' cd_rep_size [OF assms]
    by (simp add: pop_back_def Let_def DestructRange_one flip: e_def)
qed

section \<open>Clearing\<close>

lemma DestructRange_middle:
  assumes "cd_span d n" "rotate (cd_begin d) (cd_buffer d) = A @ map Some ys @ B"
    and "length A + length ys \<le> n"
  shows "\<exists>buf. cd_DestructRange d ((cd_begin d + length A) mod length (cd_buffer d))
              ((cd_begin d + (length A + length ys)) mod length (cd_buffer d)) = Some buf \<and>
           length buf = length (cd_buffer d) \<and>
           rotate (cd_begin d) buf = A @ replicate (length ys) None @ B"
proof (cases "ys = []")
  case True
  with assms(2) show ?thesis by (simp add: cd_DestructRange_def)
next
  case False
  let ?c = "length (cd_buffer d)" and ?b = "cd_begin d"
  let ?p = "(?b + length A) mod ?c" and ?q = "(?b + (length A + length ys)) mod ?c"
  have b: "?b < ?c" and l: "length A + length ys < ?c"
    using assms(1,3) by (auto simp: cd_span_def)
  have ne: "?q \<noteq> ?p"
    using ring_index_inj [OF b, of "length A + length ys" "length A"] l False by simp
  have p: "?p < ?c" and q: "?q < ?c" using b by simp_all
  show ?thesis
  proof (cases "?p < ?q")
    case True
    then have pq: "?p + length ys = ?q"
      using b l by (auto simp: ring_index_eq split: if_splits)
    with vb_destruct_ring [OF b assms(2) refl] q
    obtain buf where "vb_destruct_loop (cd_buffer d) ?p (length ys) = Some buf"
      "length buf = ?c" "rotate ?b buf = A @ replicate (length ys) None @ B"
      by auto
    moreover from pq have "?q - ?p = length ys" by linarith
    ultimately show ?thesis
      using True ne p q by (auto simp: cd_DestructRange_def vb_DestructRange_def Let_def)
  next
    case False
    let ?ys1 = "take (?c - ?p) ys" and ?ys2 = "drop (?c - ?p) ys"
    have pq: "?p + length ys = ?c + ?q"
      using False ne b l by (auto simp: ring_index_eq split: if_splits)
    with p q have l1: "length ?ys1 = ?c - ?p" and l2: "length ?ys2 = ?q" by auto
    have "rotate ?b (cd_buffer d) = A @ map Some ?ys1 @ map Some ?ys2 @ B"
      using assms(2) by (metis append.assoc append_take_drop_id map_append)
    from vb_destruct_ring [OF b this refl] l1 p
    obtain buf1 where b1: "vb_destruct_loop (cd_buffer d) ?p (?c - ?p) = Some buf1"
      "length buf1 = ?c"
      "rotate ?b buf1 = (A @ replicate (?c - ?p) None) @ map Some ?ys2 @ B"
      by auto
    have "0 = (?b + length (A @ replicate (?c - ?p) (None :: 'a option))) mod length buf1"
      using b l False b1(2) by (auto simp: ring_index_eq split: if_splits)
    from vb_destruct_ring [OF _ b1(3) this] b b1(2) l2 less_imp_le [OF q]
    obtain buf2 where b2: "vb_destruct_loop buf1 0 ?q = Some buf2" "length buf2 = ?c"
      "rotate ?b buf2 = (A @ replicate (?c - ?p) None) @ replicate ?q None @ B"
      by auto
    moreover have "replicate (length ys) (None :: 'a option)
        = replicate (?c - ?p) None @ replicate ?q None"
      using pq p by (simp flip: replicate_add)
    ultimately show ?thesis
      using False ne b1 p q by (auto simp: cd_DestructRange_def vb_DestructRange_def Let_def)
  qed
qed

lemma ClearRetainCapacity_rep:
  assumes "cd_rep d xs"
  obtains d' where "ClearRetainCapacity d = Some d'" "cd_rep d' []"
    "cd_capacity d' = cd_capacity d" "cd_generation d' = cd_generation d + 1"
proof (cases "cd_buffer d = []")
  case True
  with assms that [of "IncrementGeneration (d\<lparr>cd_begin := 0, cd_end := 0\<rparr>)"] show ?thesis
    by (simp add: ClearRetainCapacity_def cd_DestructRange_def cd_rep_def cd_capacity_def)
next
  case False
  note r = cd_rep_nonempty [OF assms False] and s = cd_rep_span [OF assms False]
  let ?n = "length (cd_buffer d) - length xs"
  have "rotate (cd_begin d) (cd_buffer d) = [] @ map Some xs @ replicate ?n None"
    using r(4) by simp
  from DestructRange_middle [OF s this] r(1,3)
  obtain buf where b: "cd_DestructRange d (cd_begin d) (cd_end d) = Some buf"
    "length buf = length (cd_buffer d)"
    "rotate (cd_begin d) buf = replicate (length xs) None @ replicate ?n None"
    by auto
  have "set buf \<subseteq> {None}"
    using arg_cong [OF b(3), of set] by auto
  then have "buf = None # tl buf" "set (tl buf) \<subseteq> {None}"
    using b(2) False by (cases buf; auto)+
  then have "cd_rep (d\<lparr>cd_buffer := buf, cd_begin := 0, cd_end := 0\<rparr>) []"
    using b(2) False by (intro cd_repI) auto
  moreover have "buf \<noteq> []" using b(2) False by auto
  ultimately show ?thesis
    using b that False by (simp add: ClearRetainCapacity_def cd_capacity_def)
qed

section \<open>Capacity, clearing, assignment and resizing\<close>

lemma cd_reserve_rep:
  assumes "cd_rep d xs"
  obtains d' where "cd_reserve d n = Some d'" "cd_rep d' xs" "n \<le> cd_capacity d'"
    "cd_generation d' = cd_generation d"
proof (cases "cd_capacity d < n")
  case True
  then have "length xs \<le> n"
    using cd_rep_capacity [OF assms] by simp
  from SetCapacityTo_rep [OF assms this] obtain d' where "SetCapacityTo d n = Some d'"
    "cd_rep d' xs" "cd_capacity d' = n" "cd_generation d' = cd_generation d" by blast
  with True that [of d'] show ?thesis by (simp add: cd_reserve_def)
next
  case False
  with assms that [of d] show ?thesis by (simp add: cd_reserve_def)
qed

lemma cd_shrink_to_fit_rep:
  assumes "cd_rep d xs"
  obtains d' where "cd_shrink_to_fit d = Some d'" "cd_rep d' xs" "cd_capacity d' = length xs"
proof (cases "xs = []")
  case True
  with assms cd_rep_empty [OF assms] that [of "d\<lparr>cd_buffer := []\<rparr>"] that [of d] show ?thesis
    by (auto simp: cd_shrink_to_fit_def cd_rep_def cd_capacity_def cd_empty_def)
next
  case False
  have "length xs \<le> length xs" by simp
  from SetCapacityTo_rep [OF assms this] obtain d' where "SetCapacityTo d (length xs) = Some d'"
    "cd_rep d' xs" "cd_capacity d' = length xs" by blast
  with False assms that [of d'] show ?thesis by (simp add: cd_shrink_to_fit_def)
qed

lemma cd_clear_rep:
  assumes "cd_rep d xs"
  obtains d' where "cd_clear d = Some d'" "cd_rep d' []" "cd_capacity d' = 0"
proof -
  obtain d1 where "ClearRetainCapacity d = Some d1" "cd_rep d1 []"
    by (rule ClearRetainCapacity_rep [OF assms])
  moreover from this have "cd_begin d1 = cd_end d1"
    using cd_rep_empty [of d1 "[]"] by (simp add: cd_empty_def)
  ultimately show ?thesis
    using that [of "d1\<lparr>cd_buffer := []\<rparr>"]
    by (simp add: cd_clear_def cd_rep_def cd_capacity_def)
qed

lemma emplace_back_list_rep:
  assumes "cd_rep d xs"
  obtains d' where "emplace_back_list d ys = Some d'" "cd_rep d' (xs @ ys)"
proof -
  have "\<exists>d'. emplace_back_list d ys = Some d' \<and> cd_rep d' (xs @ ys)"
    using assms
  proof (induction ys arbitrary: d xs)
    case Nil
    then show ?case by simp
  next
    case (Cons y ys)
    obtain d1 where 1: "emplace_back d y = Some d1" "cd_rep d1 (xs @ [y])"
      by (rule emplace_back_rep [OF Cons.prems])
    from Cons.IH [OF 1(2)] 1(1) show ?case by simp
  qed
  with that show ?thesis by blast
qed

lemma assign_count_rep:
  assumes "cd_rep d xs"
  obtains d' where "assign_count d n x = Some d'" "cd_rep d' (replicate n x)"
proof -
  obtain d1 where 1: "ClearRetainCapacity d = Some d1" "cd_rep d1 []"
    by (rule ClearRetainCapacity_rep [OF assms])
  obtain d2 where 2: "cd_reserve d1 n = Some d2" "cd_rep d2 []"
    by (rule cd_reserve_rep [OF 1(2)])
  obtain d3 where 3: "emplace_back_list d2 (replicate n x) = Some d3" "cd_rep d3 (replicate n x)"
    using emplace_back_list_rep [OF 2(2)] by auto
  with 1 2 that [of "IncrementGeneration d3"] show ?thesis by (simp add: assign_count_def)
qed

lemma assign_range_rep:
  assumes "cd_rep d xs"
  obtains d' where "assign_range d ys = Some d'" "cd_rep d' ys"
proof -
  obtain d1 where 1: "ClearRetainCapacity d = Some d1" "cd_rep d1 []"
    by (rule ClearRetainCapacity_rep [OF assms])
  obtain d2 where 2: "emplace_back_list d1 ys = Some d2" "cd_rep d2 ys"
    using emplace_back_list_rep [OF 1(2)] by auto
  with 1 that [of "IncrementGeneration d2"] show ?thesis by (simp add: assign_range_def)
qed

lemma assign_ilist_rep:
  assumes "cd_rep d xs"
  obtains d' where "assign_ilist d ys = Some d'" "cd_rep d' ys"
proof -
  obtain d1 where 1: "cd_reserve d (length ys) = Some d1" "cd_rep d1 xs"
    by (rule cd_reserve_rep [OF assms])
  obtain d2 where "assign_range d1 ys = Some d2" "cd_rep d2 ys"
    by (rule assign_range_rep [OF 1(2)])
  with 1 that [of d2] show ?thesis by (simp add: assign_ilist_def)
qed

lemma resize_loop_rep:
  assumes "cd_rep d xs"
  shows "\<exists>d'. resize_loop d n x = Some d' \<and> cd_rep d' (xs @ replicate (n - length xs) x)"
  using assms
proof (induction "n - length xs" arbitrary: d xs)
  case 0
  then show ?case by (simp add: resize_loop.simps)
next
  case (Suc m)
  obtain d1 where 1: "emplace_back d x = Some d1" "cd_rep d1 (xs @ [x])"
    by (rule emplace_back_rep [OF Suc.prems])
  have "m = n - length (xs @ [x])" using Suc.hyps(2) by simp
  from Suc.hyps(1) [OF this 1(2)] obtain d' where
    "resize_loop d1 n x = Some d'" "cd_rep d' ((xs @ [x]) @ replicate (n - length (xs @ [x])) x)"
    by blast
  moreover have "(xs @ [x]) @ replicate (n - length (xs @ [x])) x = xs @ replicate (n - length xs) x"
    using Suc.hyps(2) by (cases "n - length xs") auto
  moreover have "cd_size d < n" using Suc.hyps(2) cd_rep_size [OF Suc.prems] by simp
  ultimately show ?case
    using 1(1) by (subst resize_loop.simps) simp
qed

lemma cd_resize_rep:
  assumes "cd_rep d xs"
  obtains d' where "cd_resize d n x = Some d'"
    "cd_rep d' (take n xs @ replicate (n - length xs) x)"
proof -
  consider "length xs < n" | "n < length xs" | "n = length xs" by linarith
  then show ?thesis
  proof cases
    case 1
    obtain d1 where e: "ExpandCapacityIfNecessary d (n - length xs) = Some d1" "cd_rep d1 xs"
      by (rule ExpandCapacityIfNecessary_rep [OF assms])
    from resize_loop_rep [OF e(2)] obtain d2 where
      "resize_loop d1 n x = Some d2" "cd_rep d2 (xs @ replicate (n - length xs) x)" by blast
    with e 1 assms that [of "IncrementGeneration d2"] show ?thesis by (simp add: cd_resize_def)
  next
    case 2
    have ne: "cd_buffer d \<noteq> []"
      using assms cd_rep_no_buffer 2 by fastforce
    from assms ne obtain M where r: "cd_begin d < length (cd_buffer d)"
      "length xs < length (cd_buffer d)"
      "cd_end d = (cd_begin d + length xs) mod length (cd_buffer d)"
      "rotate (cd_begin d) (cd_buffer d) = map Some xs @ None # M" "set M \<subseteq> {None}"
      by (rule cd_repE)
    let ?e = "(cd_begin d + n) mod length (cd_buffer d)"
    have "rotate (cd_begin d) (cd_buffer d)
        = map Some (take n xs) @ map Some (drop n xs) @ None # M"
      using r(4) by (simp flip: map_append append_assoc)
    from DestructRange_middle [OF cd_rep_span [OF assms ne] this] 2 r(3)
    obtain buf where buf: "cd_DestructRange d ?e (cd_end d) = Some buf"
      "length buf = length (cd_buffer d)"
      "rotate (cd_begin d) buf
         = map Some (take n xs) @ replicate (length xs - n) None @ None # M"
      by auto
    have "replicate (length xs - n) (None :: 'a option) @ None # M
        = None # replicate (length xs - n) None @ M"
      by (simp add: replicate_app_Cons_same)
    then have "cd_rep (d\<lparr>cd_buffer := buf, cd_end := ?e\<rparr>) (take n xs)"
      using r(1,5) buf(2,3) 2
      by (intro cd_repI [where M = "replicate (length xs - n) None @ M"]) auto
    then obtain d' where "ShrinkCapacityIfNecessary (d\<lparr>cd_buffer := buf, cd_end := ?e\<rparr>) = Some d'"
      "cd_rep d' (take n xs)"
      by (rule ShrinkCapacityIfNecessary_rep)
    with 2 buf(1) assms that [of "IncrementGeneration d'"] show ?thesis
      by (simp add: cd_resize_def Let_def)
  next
    case 3
    with assms that [of "IncrementGeneration d"] show ?thesis by (simp add: cd_resize_def)
  qed
qed

section \<open>Insertion and erasure in the middle\<close>

lemma make_room_loop_run:
  assumes "cd_span d n" "0 < count" "length A + length ys + count \<le> n"
    and "rotate (cd_begin d) (cd_buffer d) = A @ map Some ys @ replicate count None @ B"
  shows "\<exists>buf. make_room_loop d (it_pos d (length A)) (it_pos d (length A + length ys))
             (it_pos d (length A + length ys + count)) = Some (d\<lparr>cd_buffer := buf\<rparr>) \<and>
           length buf = length (cd_buffer d) \<and>
           rotate (cd_begin d) buf = A @ replicate count None @ map Some ys @ B"
  using assms
proof (induction ys arbitrary: d B rule: rev_induct)
  case Nil
  then show ?case
    by (subst make_room_loop.simps)
      (auto simp: it_eq_pos [where n = n] cd_span_def intro!: exI [of _ "cd_buffer d"])
next
  case (snoc y ys)
  let ?k = "length A + length ys"
  obtain R :: "'a option list" where R: "replicate count None = None # R"
    "replicate count None = R @ [None]" "length R = count - 1"
    using replicate_snoc [OF snoc.prems(2), of "None :: 'a option"] by auto
  have b: "cd_begin d < length (cd_buffer d)" and n: "n < length (cd_buffer d)"
    using snoc.prems(1) by (auto simp: cd_span_def)
  have stop: "it_eq (it_pos d (Suc ?k)) (it_pos d (length A)) = Some False"
    using it_eq_pos [OF snoc.prems(1)] snoc.prems(3) n by simp
  have dec: "it_Decrement d (it_pos d (Suc ?k)) = Some (it_pos d ?k)"
    "it_Decrement d (it_pos d (Suc (?k + count))) = Some (it_pos d (?k + count))"
    using it_Decrement_pos [OF snoc.prems(1)] snoc.prems(3) by simp_all
  have "rotate (cd_begin d) (cd_buffer d) = (A @ map Some ys) @ Some y # R @ None # B"
    using snoc.prems(4) R(2) by simp
  from ring_move_right [OF b this refl refl] R(3) snoc.prems(2)
  obtain buf where buf: "vb_MoveRange (cd_buffer d)
      ((cd_begin d + ?k) mod length (cd_buffer d))
      (Suc ((cd_begin d + ?k) mod length (cd_buffer d)))
      ((cd_begin d + (?k + count)) mod length (cd_buffer d)) = Some buf"
    "length buf = length (cd_buffer d)"
    "rotate (cd_begin d) buf = (A @ map Some ys) @ None # R @ Some y # B"
    by auto
  let ?d = "d\<lparr>cd_buffer := buf\<rparr>"
  have "rotate (cd_begin ?d) (cd_buffer ?d) = A @ map Some ys @ replicate count None @ Some y # B"
    using buf(3) R(1) by simp
  from snoc.IH [OF _ snoc.prems(2) _ this] snoc.prems(1,3) buf(2)
  obtain buf' where "make_room_loop ?d (it_pos d (length A)) (it_pos d ?k) (it_pos d (?k + count))
      = Some (d\<lparr>cd_buffer := buf'\<rparr>)" "length buf' = length (cd_buffer d)"
    "rotate (cd_begin d) buf' = A @ replicate count None @ map Some ys @ Some y # B"
    by auto
  moreover have "make_room_loop d (it_pos d (length A)) (it_pos d (Suc ?k)) (it_pos d (Suc (?k + count)))
      = make_room_loop ?d (it_pos d (length A)) (it_pos d ?k) (it_pos d (?k + count))"
    using stop dec buf(1) b
    by (subst make_room_loop.simps) (simp add: less_imp_le Suc_le_eq)
  ultimately show ?case by (auto intro!: exI [of _ buf'])
qed

lemma fill_loop_run:
  assumes "cd_span d n" "length A + length xs \<le> n"
    and "rotate (cd_begin d) (cd_buffer d) = A @ replicate (length xs) None @ B"
  shows "\<exists>buf. fill_loop d (it_pos d (length A)) (it_pos d (length A + length xs)) xs
             = Some (d\<lparr>cd_buffer := buf\<rparr>) \<and>
           length buf = length (cd_buffer d) \<and> rotate (cd_begin d) buf = A @ map Some xs @ B"
  using assms
proof (induction xs arbitrary: d A)
  case Nil
  then show ?case
    by (subst fill_loop.simps)
      (auto simp: it_less_pos [where n = n] cd_span_def intro!: exI [of _ "cd_buffer d"])
next
  case (Cons x xs)
  have b: "cd_begin d < length (cd_buffer d)" and n: "n < length (cd_buffer d)"
    using Cons.prems(1) by (auto simp: cd_span_def)
  let ?p = "(cd_begin d + length A) mod length (cd_buffer d)"
  let ?buf = "(cd_buffer d)[?p := Some x]"
  let ?d = "d\<lparr>cd_buffer := ?buf\<rparr>"
  have go: "it_less d (it_pos d (length A)) (it_pos d (Suc (length A + length xs))) = Some True"
    using it_less_pos [OF Cons.prems(1)] Cons.prems(2) n by simp
  have rot: "rotate (cd_begin d) (cd_buffer d) = A @ None # replicate (length xs) None @ B"
    using Cons.prems(3) by simp
  have slot: "?p < length (cd_buffer d)" "cd_buffer d ! ?p = None"
    using b nth_ring_append [OF b rot] by simp_all
  have rot': "rotate (cd_begin ?d) (cd_buffer ?d) = (A @ [Some x]) @ replicate (length xs) None @ B"
    using rotate_update_append [OF b rot, of "Some x"] by simp
  have s: "cd_span ?d n" using Cons.prems(1) by simp
  have inc: "it_Increment ?d (it_pos d (length A)) = Some (it_pos d (Suc (length A)))"
    using it_Increment_pos [OF s, of "length A"] Cons.prems(2) by simp
  from Cons.IH [OF s _ rot'] Cons.prems(2) obtain buf' where
    "fill_loop ?d (it_pos d (Suc (length A))) (it_pos d (Suc (length A + length xs))) xs
       = Some (d\<lparr>cd_buffer := buf'\<rparr>)"
    "length buf' = length (cd_buffer d)"
    "rotate (cd_begin d) buf' = A @ Some x # map Some xs @ B"
    by auto
  moreover have "fill_loop d (it_pos d (length A)) (it_pos d (Suc (length A + length xs))) (x # xs)
      = fill_loop ?d (it_pos d (Suc (length A))) (it_pos d (Suc (length A + length xs))) xs"
    using go inc slot by (subst fill_loop.simps) (simp add: vb_construct_def less_imp_le)
  ultimately show ?case by (auto intro!: exI [of _ buf'])
qed

lemma erase_loop_run:
  assumes "cd_span d n" "0 < m" "length A + m + length zs = n"
    and "rotate (cd_begin d) (cd_buffer d) = A @ replicate m None @ map Some zs @ B"
  shows "\<exists>buf. erase_loop d (it_pos d (length A + m)) (it_pos d n) (it_pos d (length A))
             = Some (d\<lparr>cd_buffer := buf\<rparr>, it_pos d (length A + length zs)) \<and>
           length buf = length (cd_buffer d) \<and>
           rotate (cd_begin d) buf = A @ map Some zs @ replicate m None @ B"
  using assms
proof (induction zs arbitrary: d A)
  case Nil
  then show ?case
    by (subst erase_loop.simps)
      (auto simp: it_less_pos [where n = n] cd_span_def intro!: exI [of _ "cd_buffer d"])
next
  case (Cons z zs)
  obtain R :: "'a option list" where R: "replicate m None = None # R"
    "replicate m None = R @ [None]" "length R = m - 1"
    using replicate_snoc [OF Cons.prems(2), of "None :: 'a option"] by auto
  have b: "cd_begin d < length (cd_buffer d)" and n: "n < length (cd_buffer d)"
    using Cons.prems(1) by (auto simp: cd_span_def)
  have go: "it_less d (it_pos d (length A + m)) (it_pos d n) = Some True"
    using it_less_pos [OF Cons.prems(1)] Cons.prems(3) n by simp
  have "rotate (cd_begin d) (cd_buffer d) = A @ None # R @ Some z # map Some zs @ B"
    using Cons.prems(4) R(1) by simp
  from ring_move_left [OF b this refl refl] R(3) Cons.prems(2)
  obtain buf where buf: "vb_MoveRange (cd_buffer d)
      ((cd_begin d + (length A + m)) mod length (cd_buffer d))
      (Suc ((cd_begin d + (length A + m)) mod length (cd_buffer d)))
      ((cd_begin d + length A) mod length (cd_buffer d)) = Some buf"
    "length buf = length (cd_buffer d)"
    "rotate (cd_begin d) buf = A @ Some z # R @ None # map Some zs @ B"
    by auto
  let ?d = "d\<lparr>cd_buffer := buf\<rparr>"
  have s: "cd_span ?d n" using Cons.prems(1) buf(2) by simp
  have inc: "it_Increment ?d (it_pos d (length A + m)) = Some (it_pos d (Suc (length A + m)))"
    "it_Increment ?d (it_pos d (length A)) = Some (it_pos d (Suc (length A)))"
    using it_Increment_pos [OF s] Cons.prems(2,3) buf(2) by simp_all
  have rot': "rotate (cd_begin ?d) (cd_buffer ?d)
      = (A @ [Some z]) @ replicate m None @ map Some zs @ B"
    using buf(3) R(2) by simp
  from Cons.IH [OF s Cons.prems(2) _ rot'] Cons.prems(3) buf(2) obtain buf' where
    "erase_loop ?d (it_pos d (Suc (length A + m))) (it_pos d n) (it_pos d (Suc (length A)))
       = Some (d\<lparr>cd_buffer := buf'\<rparr>, it_pos d (Suc (length A + length zs)))"
    "length buf' = length (cd_buffer d)"
    "rotate (cd_begin d) buf' = A @ Some z # map Some zs @ replicate m None @ B"
    by auto
  moreover have "erase_loop d (it_pos d (length A + m)) (it_pos d n) (it_pos d (length A))
      = erase_loop ?d (it_pos d (Suc (length A + m))) (it_pos d n) (it_pos d (Suc (length A)))"
    using go inc buf(1) b
    by (subst erase_loop.simps) (simp add: less_imp_le Suc_le_eq Let_def)
  ultimately show ?case by (auto intro!: exI [of _ buf'])
qed

lemma MakeRoomFor_run:
  assumes "cd_rep d (us @ vs)" "us \<noteq> []" "0 < count"
  obtains d' r where
    "MakeRoomFor d count (it_pos d (length us))
       = Some (d', it_pos d' (length us), it_pos d' (length us + count))"
    "cd_span d' (length us + count + length vs)"
    "rotate (cd_begin d') (cd_buffer d')
       = map Some us @ replicate count None @ map Some vs @ None # replicate r None"
    "cd_generation d' = cd_generation d"
proof -
  let ?n = "length us + length vs"
  have ne: "cd_buffer d \<noteq> []"
    using assms cd_rep_no_buffer by fastforce
  have sp: "cd_span d ?n" using cd_rep_span [OF assms(1) ne] by simp
  obtain d1 where d1: "ExpandCapacityIfNecessary d count = Some d1" "cd_rep d1 (us @ vs)"
    "length (us @ vs) + count \<le> cd_capacity d1" "cd_generation d1 = cd_generation d"
    by (rule ExpandCapacityIfNecessary_rep [OF assms(1)])
  let ?c = "length (cd_buffer d1)" and ?b = "cd_begin d1"
  have ne1: "cd_buffer d1 \<noteq> []" and room: "?n + count < ?c"
    using d1(3) assms(3) by (auto simp: cd_capacity_def split: if_splits)
  note r = cd_rep_nonempty [OF d1(2) ne1]
  have sp1: "cd_span d1 ?n" using cd_rep_span [OF d1(2) ne1] by simp
  define d2 where "d2 = d1\<lparr>cd_end := (cd_end d1 + count) mod ?c\<rparr>"
  have sp2: "cd_span d2 (?n + count)"
    using sp1 room by (simp add: cd_span_def d2_def mod_add_left_eq add.assoc)
  have pos: "it_pos d2 k = it_pos d1 k" for k by (simp add: d2_def)
  let ?r = "?c - ?n - count - 1"
  have "?c - length (us @ vs) = count + Suc ?r" using room by simp
  from replicate_split(1) [OF this] have "rotate (cd_begin d2) (cd_buffer d2) = map Some us @ map Some vs
      @ replicate count None @ None # replicate ?r None"
    using r(4) by (simp add: d2_def)
  from make_room_loop_run [OF sp2 assms(3) _ this]
  obtain buf where loop: "make_room_loop d2 (it_pos d2 (length us)) (it_pos d2 ?n)
      (it_pos d2 (?n + count)) = Some (d2\<lparr>cd_buffer := buf\<rparr>)" "length buf = length (cd_buffer d2)"
    "rotate (cd_begin d2) buf = map Some us @ replicate count None @ map Some vs
      @ None # replicate ?r None"
    by auto
  let ?d3 = "d2\<lparr>cd_buffer := buf\<rparr>"
  have off: "OffsetFromBegin d (it_pos d (length us)) = length us"
    using OffsetFromBegin_pos [OF sp] sp by (simp add: cd_span_def)
  have ib: "(it_pos d (length us))\<lparr>it_index := (?b + length us) mod ?c\<rparr> = it_pos d1 (length us)"
    using d1(4) by (simp add: it_pos_def cd_iterator_def)
  have ie: "cd_iterator d1 (((?b + length us) mod ?c + count) mod ?c) = it_pos d1 (length us + count)"
    by (simp add: it_pos_def mod_add_left_eq add.assoc)
  have "MakeRoomFor d count (it_pos d (length us))
      = Some (?d3, it_pos d1 (length us), it_pos d1 (length us + count))"
    using assms(3) d1(1) off ib ie loop(1) span_it_end [OF sp1] span_it_end [OF sp2] pos
    by (simp add: MakeRoomFor_def Let_def flip: d2_def)
  with that [of ?d3] sp2 loop(2,3) d1(4) pos show ?thesis
    by (simp add: add_ac d2_def)
qed

lemma push_front_n_rep:
  assumes "cd_rep d xs"
  shows "\<exists>d'. push_front_n n d x = Some d' \<and> cd_rep d' (replicate n x @ xs)"
  using assms
proof (induction n arbitrary: d xs)
  case 0
  then show ?case by simp
next
  case (Suc n)
  obtain d1 where 1: "emplace_front d x = Some d1" "cd_rep d1 (x # xs)"
    by (rule emplace_front_rep [OF Suc.prems])
  from Suc.IH [OF 1(2)] 1(1) show ?case
    by (simp add: push_front_def replicate_app_Cons_same)
qed

lemma it_eq_begin:
  assumes "cd_rep d xs" "k \<le> length xs"
  shows "it_eq (it_pos d k) (it_begin d) = Some (k = 0)"
proof (cases "cd_buffer d = []")
  case True
  with assms cd_rep_no_buffer [OF assms(1)] show ?thesis
    by (simp add: it_eq_def CheckComparable_def it_begin_def it_pos_def cd_iterator_def)
next
  case False
  note s = cd_rep_span [OF assms(1) False]
  then show ?thesis
    using it_eq_pos [OF s, of k 0] span_it_begin [OF s] assms(2) s False
    by (simp add: cd_span_def)
qed

lemma cd_iterator_pos: "cd_iterator d (it_index (it_pos d k)) = it_pos d k"
  by (simp add: it_pos_def cd_iterator_def)

lemma span_rotate_rep:
  assumes "cd_span d (length xs)" "rotate (cd_begin d) (cd_buffer d) = map Some xs @ None # M"
    "set M \<subseteq> {None}"
  shows "cd_rep d xs"
  using assms by (intro cd_repI) (auto simp: cd_span_def)

lemma insert_count_rep:
  assumes "cd_rep d (us @ vs)"
  obtains d' where "insert_count d (it_pos d (length us)) n x = Some d'"
    "cd_rep d' (us @ replicate n x @ vs)"
proof (cases "us = []")
  case True
  obtain d1 where d1: "ExpandCapacityIfNecessary d n = Some d1" "cd_rep d1 vs"
    using ExpandCapacityIfNecessary_rep [OF assms] True by auto
  with push_front_n_rep [OF d1(2), of n x] True that show ?thesis
    using it_eq_begin [OF assms, of 0] by (auto simp: insert_count_def)
next
  case False
  then have eq: "it_eq (it_pos d (length us)) (it_begin d) = Some False"
    using it_eq_begin [OF assms, of "length us"] by simp
  show ?thesis
  proof (cases "n = 0")
    case True
    have "it_less d (it_pos d (length us)) (it_pos d (length us)) = Some False"
      by (simp add: it_less_def)
    then have "insert_count d (it_pos d (length us)) n x = Some (IncrementGeneration d)"
      using eq True by (simp add: insert_count_def MakeRoomFor_def fill_loop.simps cd_iterator_pos del: it_index_pos)
    with that assms True show ?thesis by simp
  next
    case n: False
    obtain d1 r where d1:
      "MakeRoomFor d n (it_pos d (length us))
         = Some (d1, it_pos d1 (length us), it_pos d1 (length us + n))"
      "cd_span d1 (length us + n + length vs)"
      "rotate (cd_begin d1) (cd_buffer d1)
         = map Some us @ replicate n None @ map Some vs @ None # replicate r None"
      by (rule MakeRoomFor_run [OF assms False, of n]) (use n in auto)
    from fill_loop_run [OF d1(2), of "map Some us" "replicate n x"] d1(3)
    obtain buf where f: "fill_loop d1 (it_pos d1 (length us)) (it_pos d1 (length us + n))
        (replicate n x) = Some (d1\<lparr>cd_buffer := buf\<rparr>)" "length buf = length (cd_buffer d1)"
      "rotate (cd_begin d1) buf
         = map Some us @ replicate n (Some x) @ map Some vs @ None # replicate r None"
      by auto
    have "cd_rep (d1\<lparr>cd_buffer := buf\<rparr>) (us @ replicate n x @ vs)"
      using f(2,3) d1(2)
      by (intro span_rotate_rep [where M = "replicate r None"]) (simp_all add: add_ac)
    with that [of "IncrementGeneration (d1\<lparr>cd_buffer := buf\<rparr>)"] show ?thesis
      using eq d1(1) f(1) by (simp add: insert_count_def cd_iterator_pos del: it_index_pos)
  qed
qed

lemma cd_emplace_rep:
  assumes "cd_rep d (us @ vs)"
  obtains d' where "cd_emplace d (it_pos d (length us)) x = Some (d', it_pos d' (length us))"
    "cd_rep d' (us @ x # vs)"
proof (cases "us = []")
  case True
  obtain d1 where d1: "emplace_front d x = Some d1" "cd_rep d1 (x # vs)"
    using emplace_front_rep [OF assms] True by auto
  have "it_begin d1 = it_pos d1 0"
    using cd_rep_span [OF d1(2)] span_it_begin cd_rep_no_buffer [OF d1(2)] by blast
  with d1 True that show ?thesis
    using it_eq_begin [OF assms, of 0] by (auto simp: cd_emplace_def)
next
  case False
  then have eq: "it_eq (it_pos d (length us)) (it_begin d) = Some False"
    using it_eq_begin [OF assms, of "length us"] by simp
  let ?d0 = "IncrementGeneration d"
  have rep0: "cd_rep ?d0 (us @ vs)" using assms by simp
  have pos0: "cd_iterator ?d0 ((cd_begin d + length us) mod length (cd_buffer d))
      = it_pos ?d0 (length us)"
    by (simp add: it_pos_def)
  obtain d1 r where d1:
    "MakeRoomFor ?d0 1 (it_pos ?d0 (length us))
       = Some (d1, it_pos d1 (length us), it_pos d1 (length us + 1))"
    "cd_span d1 (length us + 1 + length vs)"
    "rotate (cd_begin d1) (cd_buffer d1)
       = map Some us @ replicate 1 None @ map Some vs @ None # replicate r None"
    by (rule MakeRoomFor_run [OF rep0 False, of 1]) auto
  have b: "cd_begin d1 < length (cd_buffer d1)" using d1(2) by (simp add: cd_span_def)
  let ?p = "(cd_begin d1 + length us) mod length (cd_buffer d1)"
  let ?buf = "(cd_buffer d1)[?p := Some x]"
  have rot: "rotate (cd_begin d1) (cd_buffer d1)
      = map Some us @ None # (map Some vs @ None # replicate r None)"
    using d1(3) by simp
  have slot: "?p < length (cd_buffer d1)" "cd_buffer d1 ! ?p = None"
    using b nth_ring_append [OF b rot] by simp_all
  have "cd_rep (d1\<lparr>cd_buffer := ?buf\<rparr>) (us @ x # vs)"
    using rotate_update_append [OF b rot, of "Some x"] d1(2)
    by (intro span_rotate_rep [where M = "replicate r None"]) simp_all
  with that [of "d1\<lparr>cd_buffer := ?buf\<rparr>"] show ?thesis
    using eq d1(1) slot pos0 by (simp add: cd_emplace_def Let_def vb_construct_def less_imp_le)
qed

lemma front_room_run:
  assumes "cd_rep d vs" "0 < m"
  obtains d1 r where "ExpandCapacityIfNecessary d m = Some d1" 
    "\<And>d2. d2 = d1\<lparr>cd_begin := (cd_begin d1 + length (cd_buffer d1) - m) mod length (cd_buffer d1)\<rparr>
       \<Longrightarrow> it_begin d2 = it_pos d2 0 \<and> it_begin d1 = it_pos d2 m \<and> cd_span d2 (m + length vs) \<and>
         rotate (cd_begin d2) (cd_buffer d2)
           = replicate m None @ map Some vs @ None # replicate r None"
proof -
  obtain d1 where d1: "ExpandCapacityIfNecessary d m = Some d1" "cd_rep d1 vs"
    "length vs + m \<le> cd_capacity d1" "cd_generation d1 = cd_generation d"
    by (rule ExpandCapacityIfNecessary_rep [OF assms(1)])
  let ?c = "length (cd_buffer d1)" and ?b = "cd_begin d1"
  let ?b' = "(?b + ?c - m) mod ?c" and ?r = "?c - length vs - m - 1"
  have ne1: "cd_buffer d1 \<noteq> []" and room: "length vs + m < ?c"
    using d1(3) assms(2) by (auto simp: cd_capacity_def split: if_splits)
  note r = cd_rep_nonempty [OF d1(2) ne1]
  have sp1: "cd_span d1 (length vs)" by (rule cd_rep_span [OF d1(2) ne1])
  have bk: "(?b' + m) mod ?c = ?b"
    using room sp1 by (simp add: cd_span_def mod_add_left_eq)
  have "(?b' + (m + length vs)) mod ?c = (?b + length vs) mod ?c"
    using bk by (metis add.assoc mod_add_left_eq)
  then have e': "cd_end d1 = (?b' + (m + length vs)) mod ?c"
    using sp1 by (simp add: cd_span_def)
  have b': "?b' < ?c" using ne1 by (intro mod_less_divisor) simp
  have "?c - length vs = Suc ?r + m" using room by simp
  from replicate_split(2) [OF this] have rot: "rotate ?b (cd_buffer d1)
      = (map Some vs @ None # replicate ?r None) @ replicate m None"
    using r(4) by simp
  have "rotate ?b' (cd_buffer d1) = rotate ((?c - m) + ?b) (cd_buffer d1)"
    using room by (simp add: add_ac flip: rotate_conv_mod)
  also have "\<dots> = rotate (?c - m) (rotate ?b (cd_buffer d1))"
    by (simp only: rotate_rotate)
  also have "?c - m = length (map Some vs @ None # replicate ?r None :: 'a option list)"
    using room by simp
  finally have "rotate ?b' (cd_buffer d1) = replicate m None @ map Some vs @ None # replicate ?r None"
    unfolding rot by (simp only: rotate_append)
  with that [of d1 ?r] d1(1) bk e' b' room show ?thesis
    by (simp add: it_pos_def it_begin_def cd_iterator_def cd_span_def)
qed

lemma insert_range_rep:
  assumes "cd_rep d (us @ vs)"
  obtains d' where "insert_range d (it_pos d (length us)) xs = Some d'"
    "cd_rep d' (us @ xs @ vs)"
proof (cases "xs = []")
  case True
  with assms that [of d] show ?thesis by (simp add: insert_range_def)
next
  case ne: False
  let ?fin = "\<lambda>(d1, insert_cur, insert_end).
    do { d2 \<leftarrow> fill_loop d1 insert_cur insert_end xs; Some (IncrementGeneration d2) }"
  have "\<exists>d1 r. insert_range d (it_pos d (length us)) xs
        = ?fin (d1, it_pos d1 (length us), it_pos d1 (length us + length xs)) \<and>
      cd_span d1 (length us + length xs + length vs) \<and>
      rotate (cd_begin d1) (cd_buffer d1)
        = map Some us @ replicate (length xs) None @ map Some vs @ None # replicate r None"
  proof (cases "us = []")
    case True
    then have "cd_rep d vs" "0 < length xs" using assms ne by auto
    from front_room_run [OF this]
    obtain d1 d2 r where "ExpandCapacityIfNecessary d (length xs) = Some d1"
      and d2: "d2 = d1\<lparr>cd_begin := (cd_begin d1 + length (cd_buffer d1) - length xs)
                          mod length (cd_buffer d1)\<rparr>"
      and "it_begin d2 = it_pos d2 0 \<and> it_begin d1 = it_pos d2 (length xs) \<and>
        cd_span d2 (length xs + length vs) \<and> rotate (cd_begin d2) (cd_buffer d2)
           = replicate (length xs) None @ map Some vs @ None # replicate r None"
      by metis
    with True ne it_eq_begin [OF assms, of 0] show ?thesis
      by (intro exI [of _ d2] exI [of _ r]) (simp add: insert_range_def flip: d2)
  next
    case False
    obtain d1 r where "MakeRoomFor d (length xs) (it_pos d (length us))
         = Some (d1, it_pos d1 (length us), it_pos d1 (length us + length xs))"
      "cd_span d1 (length us + length xs + length vs)"
      "rotate (cd_begin d1) (cd_buffer d1)
         = map Some us @ replicate (length xs) None @ map Some vs @ None # replicate r None"
      by (rule MakeRoomFor_run [OF assms False, of "length xs"]) (use ne in auto)
    with False ne it_eq_begin [OF assms, of "length us"] show ?thesis
      by (intro exI [of _ d1] exI [of _ r])
        (simp add: insert_range_def cd_iterator_pos del: it_index_pos)
  qed
  then obtain d1 r where d1: "insert_range d (it_pos d (length us)) xs
        = ?fin (d1, it_pos d1 (length us), it_pos d1 (length us + length xs))"
      "cd_span d1 (length us + length xs + length vs)"
      "rotate (cd_begin d1) (cd_buffer d1)
        = map Some us @ replicate (length xs) None @ map Some vs @ None # replicate r None"
    by blast
  from fill_loop_run [OF d1(2), of "map Some us" xs] d1(3)
  obtain buf where f: "fill_loop d1 (it_pos d1 (length us)) (it_pos d1 (length us + length xs)) xs
      = Some (d1\<lparr>cd_buffer := buf\<rparr>)" "length buf = length (cd_buffer d1)"
    "rotate (cd_begin d1) buf = map Some us @ map Some xs @ map Some vs @ None # replicate r None"
    by auto
  have "cd_rep (d1\<lparr>cd_buffer := buf\<rparr>) (us @ xs @ vs)"
    using f(2,3) d1(2)
    by (intro span_rotate_rep [where M = "replicate r None"]) (simp_all add: add_ac)
  with that [of "IncrementGeneration (d1\<lparr>cd_buffer := buf\<rparr>)"] d1(1) f(1) show ?thesis
    by simp
qed

lemma erase_front_run:
  assumes "cd_span d (length ys + length zs)"
    and "rotate (cd_begin d) (cd_buffer d)
           = replicate (length ys) None @ map Some zs @ None # replicate r None"
    and "l = (cd_begin d + length ys) mod length (cd_buffer d)"
  shows "cd_rep (d\<lparr>cd_begin := l\<rparr>) zs"
proof -
  have "rotate l (cd_buffer d) = rotate (length ys) (rotate (cd_begin d) (cd_buffer d))"
    by (simp add: assms(3) rotate_rotate add_ac flip: rotate_conv_mod)
  also have "\<dots> = map Some zs @ None # replicate r None @ replicate (length ys) None"
    using rotate_append [of "replicate (length ys) (None :: 'a option)"] by (simp add: assms(2))
  finally show ?thesis
    using assms(1,3)
    by (intro span_rotate_rep [where M = "replicate r None @ replicate (length ys) None"])
      (auto simp: cd_span_def mod_add_left_eq add.assoc)
qed

lemma erase_range_DestructRange:
  "erase_range d0 first_it last_it =
     do { ValidateIterator d0 first_it;
          ValidateIterator d0 last_it;
          let d = IncrementGeneration d0;
          let f = it_index first_it;
          let l = it_index last_it;
          if f = l then Some (d, cd_iterator d f)
          else do {
            buf' \<leftarrow> cd_DestructRange d f l;
            let d1 = d\<lparr>cd_buffer := buf'\<rparr>;
            if f = cd_begin d1 then Some (d1\<lparr>cd_begin := l\<rparr>, cd_iterator (d1\<lparr>cd_begin := l\<rparr>) l)
            else do {
              (d2, move_dest) \<leftarrow>
                erase_loop d1 (cd_iterator d1 l) (it_end d1) (cd_iterator d1 f);
              Some (d2\<lparr>cd_end := it_index move_dest\<rparr>, cd_iterator d2 f) } } }"
  by (simp add: erase_range_def cd_DestructRange_def Let_def cong: if_cong)

lemma erase_range_rep:
  assumes "cd_rep d (us @ ys @ zs)"
  obtains d' where
    "erase_range d (it_pos d (length us)) (it_pos d (length us + length ys))
       = Some (d', it_pos d' (length us))"
    "cd_rep d' (us @ zs)"
proof (cases "ys = []")
  case True
  with that [of "IncrementGeneration d"] assms show ?thesis
    by (simp add: erase_range_def Let_def) (simp add: it_pos_def)
next
  case ne: False
  let ?d = "IncrementGeneration d"
  let ?n = "length us + length ys + length zs"
  let ?f = "(cd_begin d + length us) mod length (cd_buffer d)"
  let ?l = "(cd_begin d + (length us + length ys)) mod length (cd_buffer d)"
  have nb: "cd_buffer d \<noteq> []" using cd_rep_no_buffer [OF assms] ne by auto
  note r = cd_rep_nonempty [OF assms nb]
  have sp: "cd_span ?d ?n"
    using cd_rep_span [OF assms nb] by (simp add: cd_span_def add_ac)
  then have b: "cd_begin d < length (cd_buffer d)" "?n < length (cd_buffer d)"
    by (simp_all add: cd_span_def)
  have fl: "?f \<noteq> ?l"
    using ring_index_inj [OF b(1), of "length us" "length us + length ys"] b(2) ne by simp
  define rr where "rr = length (cd_buffer d) - ?n - 1"
  have "length (cd_buffer d) - length (us @ ys @ zs) = Suc rr" using b(2) by (simp add: rr_def)
  with r(4) have rot: "rotate (cd_begin ?d) (cd_buffer ?d)
      = map Some us @ map Some ys @ map Some zs @ None # replicate rr None"
    by simp
  from DestructRange_middle [OF sp rot] obtain buf where
    buf: "cd_DestructRange ?d ?f ?l = Some buf" "length buf = length (cd_buffer d)"
      "rotate (cd_begin d) buf
         = map Some us @ replicate (length ys) None @ map Some zs @ None # replicate rr None"
    by auto
  define d1 where "d1 = ?d\<lparr>cd_buffer := buf\<rparr>"
  have d1: "cd_span d1 ?n" "cd_begin d1 = cd_begin d" "length (cd_buffer d1) = length (cd_buffer d)"
    "rotate (cd_begin d1) (cd_buffer d1)
       = map Some us @ replicate (length ys) None @ map Some zs @ None # replicate rr None"
    using sp buf(2,3) by (simp_all add: d1_def)
  let ?tail = "if ?f = cd_begin d1 then Some (d1\<lparr>cd_begin := ?l\<rparr>, cd_iterator (d1\<lparr>cd_begin := ?l\<rparr>) ?l)
    else do { (d2, move_dest) \<leftarrow> erase_loop d1 (cd_iterator d1 ?l) (it_end d1) (cd_iterator d1 ?f);
              Some (d2\<lparr>cd_end := it_index move_dest\<rparr>, cd_iterator d2 ?f) }"
  have eq: "erase_range d (it_pos d (length us)) (it_pos d (length us + length ys)) = ?tail"
    using buf(1) fl d1(2) by (simp add: erase_range_DestructRange Let_def flip: d1_def)
  show ?thesis
  proof (cases "us = []")
    case True
    let ?d2 = "d1\<lparr>cd_begin := ?l\<rparr>"
    have "cd_rep ?d2 zs"
      using erase_front_run [of d1 ys zs rr ?l] d1 True by simp
    moreover have "it_pos ?d2 0 = cd_iterator ?d2 ?l" by (simp add: it_pos_def d1(3))
    ultimately show ?thesis using that [of ?d2] eq True b(1) d1(2) by simp
  next
    case False
    have f: "?f \<noteq> cd_begin d1"
      using ring_index_inj [OF b(1), of "length us" 0] b False d1(2) nb by simp
    from erase_loop_run [OF d1(1), of "length ys" "map Some us" zs] ne d1(4)
    obtain buf' where l: "erase_loop d1 (it_pos d1 (length us + length ys)) (it_pos d1 ?n)
        (it_pos d1 (length us))
        = Some (d1\<lparr>cd_buffer := buf'\<rparr>, it_pos d1 (length us + length zs))"
      "length buf' = length (cd_buffer d1)"
      "rotate (cd_begin d1) buf' = map Some us @ map Some zs @ replicate (length ys) None
         @ None # replicate rr None"
      by auto
    have its: "cd_iterator d1 ?l = it_pos d1 (length us + length ys)"
      "cd_iterator d1 ?f = it_pos d1 (length us)" "it_end d1 = it_pos d1 ?n"
      using d1(2,3) span_it_end [OF d1(1)] by (simp_all add: it_pos_def)
    let ?d2 = "d1\<lparr>cd_buffer := buf', cd_end := it_index (it_pos d1 (length us + length zs))\<rparr>"
    have "cd_rep ?d2 (us @ zs)"
      using l(2,3) d1(1) ne
      by (intro span_rotate_rep
            [where M = "replicate (length ys - 1) None @ None # replicate rr None"])
        (auto simp: cd_span_def neq_Nil_conv)
    moreover have "cd_iterator (d1\<lparr>cd_buffer := buf'\<rparr>) ?f = it_pos ?d2 (length us)"
      using l(2) its(2) by (simp add: cd_iterator_def it_pos_def)
    ultimately show ?thesis using that [of ?d2] eq f l(1) its by simp
  qed
qed

lemma cd_erase_rep:
  assumes "cd_rep d (us @ y # zs)"
  obtains d' where "cd_erase d (it_pos d (length us)) = Some (d', it_pos d' (length us))"
    "cd_rep d' (us @ zs)"
proof -
  have ne: "cd_buffer d \<noteq> []" using cd_rep_no_buffer [OF assms] by auto
  have "it_Add d (it_pos d (length us)) 1 = Some (it_pos d (Suc (length us)))"
    using it_Add_pos [OF cd_rep_span [OF assms ne], of "length us" 1] by (simp add: nat_add_distrib)
  moreover obtain d' where "erase_range d (it_pos d (length us)) (it_pos d (Suc (length us)))
      = Some (d', it_pos d' (length us))" "cd_rep d' (us @ zs)"
    using erase_range_rep [of d us "[y]" zs] assms by auto
  ultimately show ?thesis using that by (simp add: cd_erase_def)
qed

section \<open>Iteration, copies and moves\<close>

lemma it_values_run:
  assumes "cd_rep d (us @ vs)" "cd_buffer d \<noteq> []"
  shows "it_values d (it_pos d (length us)) (it_pos d (length us + length vs)) = Some vs"
  using assms
proof (induction vs arbitrary: us)
  case Nil
  then show ?case by (simp add: it_values.simps it_eq_def)
next
  case (Cons v vs)
  have s: "cd_span d (length (us @ v # vs))" by (rule cd_rep_span [OF Cons.prems])
  then have n: "length us + Suc (length vs) < length (cd_buffer d)" by (simp add: cd_span_def)
  have "it_eq (it_pos d (length us)) (it_pos d (length us + Suc (length vs))) = Some False"
    using it_eq_pos [OF s] n by simp
  moreover have "it_deref d (it_pos d (length us)) = Some v"
    using it_deref_pos [OF Cons.prems(1), of "length us"] by (simp add: nth_append)
  moreover have "it_Increment d (it_pos d (length us)) = Some (it_pos d (Suc (length us)))"
    using it_Increment_pos [OF s] by simp
  moreover have "it_values d (it_pos d (Suc (length us))) (it_pos d (length us + Suc (length vs))) = Some vs"
    using Cons.IH [of "us @ [v]"] Cons.prems by simp
  ultimately show ?case by (subst it_values.simps) simp
qed

lemma it_values_rep:
  assumes "cd_rep d xs"
  shows "it_values d (it_begin d) (it_end d) = Some xs"
proof (cases "cd_buffer d = []")
  case True
  with cd_rep_no_buffer [OF assms] show ?thesis
    by (simp add: it_values.simps it_eq_def it_begin_def it_end_def CheckComparable_def cd_iterator_def)
next
  case False
  note s = cd_rep_span [OF assms False]
  with it_values_run [of d "[]" xs] assms False show ?thesis
    by (simp add: span_it_begin [OF s] span_it_end [OF s])
qed

lemma cd_rep_fresh: "cd_rep (cd_new\<lparr>cd_buffer := VectorBuffer (Suc n)\<rparr>) []"
  by (simp add: cd_rep_def cd_new_def VectorBuffer_def)

lemma cd_copy_rep:
  assumes "cd_rep other xs"
  obtains d where "cd_copy other = Some d" "cd_rep d xs"
proof -
  obtain d where "assign_range (cd_new\<lparr>cd_buffer := VectorBuffer (Suc (length xs))\<rparr>) xs = Some d"
    "cd_rep d xs"
    by (rule assign_range_rep [OF cd_rep_fresh])
  with that assms show ?thesis by (simp add: cd_copy_def it_values_rep)
qed

lemma cd_copy_assign_rep:
  assumes "cd_rep this xs" "cd_rep other ys" "same \<Longrightarrow> xs = ys"
  obtains d where "cd_copy_assign same this other = Some d" "cd_rep d ys"
proof (cases same)
  case True
  with that assms show ?thesis by (simp add: cd_copy_assign_def)
next
  case False
  obtain d1 where 1: "cd_reserve this (length ys) = Some d1" "cd_rep d1 xs"
    by (rule cd_reserve_rep [OF assms(1)])
  obtain d where "assign_range d1 ys = Some d" "cd_rep d ys"
    by (rule assign_range_rep [OF 1(2)])
  with that 1 assms False show ?thesis by (simp add: cd_copy_assign_def it_values_rep)
qed

lemma cd_rep_steal:
  "cd_rep other xs \<Longrightarrow>
     cd_rep (d\<lparr>cd_buffer := cd_buffer other, cd_begin := cd_begin other, cd_end := cd_end other\<rparr>) xs"
  by (simp add: cd_rep_def Let_def)

lemma cd_rep_emptied: "cd_rep (d\<lparr>cd_buffer := [], cd_begin := 0, cd_end := 0\<rparr>) []"
  by (simp add: cd_rep_def)

lemma cd_move_rep:
  "cd_rep other xs \<Longrightarrow> cd_rep (fst (cd_move other)) xs \<and> cd_rep (snd (cd_move other)) []"
  by (simp add: cd_move_def cd_rep_steal cd_rep_emptied)

lemma cd_move_assign_rep:
  assumes "cd_rep this xs" "cd_rep other ys"
  obtains d1 d2 where "cd_move_assign False this other = Some (d1, d2)" "cd_rep d1 ys" "cd_rep d2 []"
proof -
  obtain t where "ClearRetainCapacity this = Some t"
    by (rule ClearRetainCapacity_rep [OF assms(1)])
  with that assms(2) show ?thesis
    by (simp add: cd_move_assign_def cd_rep_steal cd_rep_emptied)
qed

lemma cd_swap_rep:
  "cd_rep d1 xs \<Longrightarrow> cd_rep d2 ys \<Longrightarrow>
     cd_rep (fst (cd_swap d1 d2)) ys \<and> cd_rep (snd (cd_swap d1 d2)) xs"
  by (simp add: cd_swap_def cd_rep_steal)

lemma cd_destroy_rep:
  assumes "cd_rep d xs"
  obtains buf where "cd_destroy d = Some buf" "set buf \<subseteq> {None}"
proof (cases "cd_buffer d = []")
  case True
  with cd_rep_no_buffer [OF assms] that show ?thesis
    by (simp add: cd_destroy_def cd_DestructRange_def)
next
  case False
  note r = cd_rep_nonempty [OF assms False] and s = cd_rep_span [OF assms False]
  have "rotate (cd_begin d) (cd_buffer d)
      = [] @ map Some xs @ replicate (length (cd_buffer d) - length xs) None"
    using r(4) by simp
  from DestructRange_middle [OF s this] r(1,3)
  obtain buf where "cd_destroy d = Some buf"
    "rotate (cd_begin d) buf
       = replicate (length xs) None @ replicate (length (cd_buffer d) - length xs) None"
    by (auto simp: cd_destroy_def)
  with that show ?thesis
    by (metis (no_types, lifting) Un_subset_iff set_append set_replicate_None set_rotate)
qed

section \<open>The deque contract\<close>

lemma pop_front_nil: "cd_rep d [] \<Longrightarrow> pop_front d = None"
  using cd_rep_size [of d "[]"] by (simp add: pop_front_def DCHECK_def)

lemma pop_back_nil: "cd_rep d [] \<Longrightarrow> pop_back d = None"
  using cd_rep_size [of d "[]"] by (simp add: pop_back_def DCHECK_def)

lemma cd_front_nil: "cd_rep d [] \<Longrightarrow> cd_front d = None"
  using cd_rep_empty [of d "[]"] by (simp add: cd_front_def)

lemma cd_back_nil: "cd_rep d [] \<Longrightarrow> cd_back d = None"
  using cd_rep_empty [of d "[]"] by (simp add: cd_back_def)

interpretation cd: deque_impl circular_deque_ops cd_rep
proof (unfold_locales, simp_all add: circular_deque_ops_def pop_front_nil cd_front_nil cd_back_nil)
  fix d :: "'a circular_deque" and xs x
  assume d: "cd_rep d xs"
  show "\<exists>d'. push_front d x = Some d' \<and> cd_rep d' (x # xs)"
    using emplace_front_rep [OF d, of x] by (metis push_front_def)
  show "\<exists>d'. push_back d x = Some d' \<and> cd_rep d' (xs @ [x])"
    using emplace_back_rep [OF d, of x] by (metis push_back_def)
  show "\<exists>d'. cd_clear d = Some d' \<and> cd_rep d' []"
    using cd_clear_rep [OF d] by metis
next
  fix d :: "'a circular_deque" and xs x
  assume d: "cd_rep d (x # xs)"
  show "\<exists>d'. pop_front d = Some d' \<and> cd_rep d' xs"
    using pop_front_rep [OF d] by metis
  show "cd_front d = Some x" by (rule cd_front_rep [OF d])
next
  fix d :: "'a circular_deque" and xs x
  assume d: "cd_rep d (xs @ [x])"
  show "cd_back d = Some x" using cd_back_rep [OF d] by simp
qed

section \<open>Properties\<close>

lemma cd_rep_example: "cd_rep cd_example [1, 2, 3]"
  by code_simp

lemma it_Add_begin:
  assumes "cd_rep d xs" "k \<le> length xs"
  shows "it_Add d (it_begin d) (int k) = Some (it_pos d k)"
proof (cases "cd_buffer d = []")
  case True
  with assms cd_rep_no_buffer [OF assms(1)] show ?thesis
    by (simp add: it_Add_def it_begin_def it_pos_def CheckUnstableUsage_def CheckValidIndexOrEnd_def
        cd_iterator_def)
next
  case False
  note s = cd_rep_span [OF assms(1) False]
  have "0 < int k \<Longrightarrow> 0 < length xs" using assms(2) by auto
  with it_Add_pos [OF s, of 0 "int k"] assms(2) show ?thesis
    by (simp add: span_it_begin [OF s])
qed


text \<open>
  Claim C16.  Inserting a range at the iterator \<open>begin() + k\<close> returns, whatever the position of the
  elements in the ring and whether or not the buffer has to grow, and the deque then holds the old
  elements with the new ones in order at position \<open>k\<close>.
\<close>

theorem circular_deque_insert_range:
  assumes "cd_rep d xs" "k \<le> length xs"
  shows "\<exists>pos d'. it_Add d (it_begin d) (int k) = Some pos \<and> insert_range d pos ys = Some d' \<and>
           cd_rep d' (take k xs @ ys @ drop k xs)"
proof -
  have "cd_rep d (take k xs @ drop k xs)" using assms(1) by simp
  then obtain d' where "insert_range d (it_pos d (length (take k xs))) ys = Some d'"
    "cd_rep d' (take k xs @ ys @ drop k xs)"
    by (rule insert_range_rep)
  with it_Add_begin [OF assms] assms(2) show ?thesis by auto
qed

theorem circular_deque_insert_range_witness:
  "\<exists>pos d'. it_Add cd_example (it_begin cd_example) (int 2) = Some pos \<and>
     insert_range cd_example pos [7, 8, 9] = Some d' \<and> cd_rep d' [1, 2, 7, 8, 9, 3]"
  using circular_deque_insert_range [OF cd_rep_example, of 2 "[7, 8, 9]"]
  by (simp add: numeral_2_eq_2)

text \<open>
  Claim C17.  Erasing the range from \<open>begin() + i\<close> to \<open>begin() + j\<close> destroys exactly those elements
  and closes the gap; the returned iterator stands at position \<open>i\<close> of the result.
\<close>

theorem circular_deque_erase_range:
  assumes "cd_rep d xs" "i \<le> j" "j \<le> length xs"
  shows "\<exists>p q d'. it_Add d (it_begin d) (int i) = Some p \<and> it_Add d (it_begin d) (int j) = Some q \<and>
           erase_range d p q = Some (d', it_pos d' i) \<and> cd_rep d' (take i xs @ drop j xs)"
proof -
  have "take i xs @ take (j - i) (drop i xs) @ drop j xs = xs"
    using assms(2) by (metis append_take_drop_id drop_drop le_add_diff_inverse2)
  then have "cd_rep d (take i xs @ take (j - i) (drop i xs) @ drop j xs)" using assms(1) by simp
  then obtain d' where "erase_range d (it_pos d (length (take i xs)))
      (it_pos d (length (take i xs) + length (take (j - i) (drop i xs))))
      = Some (d', it_pos d' (length (take i xs)))" "cd_rep d' (take i xs @ drop j xs)"
    by (rule erase_range_rep)
  with assms it_Add_begin [OF assms(1), of i] it_Add_begin [OF assms(1), of j] show ?thesis
    by auto
qed

theorem circular_deque_erase_range_witness:
  "\<exists>p q d'. it_Add cd_example (it_begin cd_example) (int 1) = Some p \<and>
     it_Add cd_example (it_begin cd_example) (int 2) = Some q \<and>
     erase_range cd_example p q = Some (d', it_pos d' 1) \<and> cd_rep d' [1, 3]"
  using circular_deque_erase_range [OF cd_rep_example, of 1 2]
  by (simp add: numeral_2_eq_2)

text \<open>
  Claim C18.  A copy and its original, read with their iterators from begin() to end(), yield the
  same sequence: the loops terminate, no check of an iterator fires, and every element is read once.
\<close>

theorem circular_deque_copy_iterates:
  assumes "cd_rep d xs"
  shows "\<exists>c. cd_copy d = Some c \<and> it_values c (it_begin c) (it_end c) = Some xs \<and>
           it_values d (it_begin d) (it_end d) = Some xs"
  using cd_copy_rep [OF assms] it_values_rep assms by metis

theorem circular_deque_copy_iterates_witness:
  "\<exists>c. cd_copy cd_example = Some c \<and> it_values c (it_begin c) (it_end c) = Some [1, 2, 3]"
  using circular_deque_copy_iterates [OF cd_rep_example] by blast

text \<open>
  Claim C19.  The destructor leaves only raw storage behind: every live element is destroyed, and
  none twice.
\<close>

theorem circular_deque_destroys_all:
  assumes "cd_rep d xs"
  shows "\<exists>buf. cd_destroy d = Some buf \<and> set buf \<subseteq> {None}"
  using cd_destroy_rep [OF assms] by metis

theorem circular_deque_destroys_all_witness:
  "\<exists>buf. cd_destroy cd_example = Some buf \<and> set buf \<subseteq> {None}"
  using circular_deque_destroys_all [OF cd_rep_example] .


end
