(* ===== verification/Safe_Conversions.thy ===== *)
theory Safe_Conversions
  imports Prelude "HOL-Library.Signed_Division"
begin

unbundle bit_operations_syntax

text \<open>
  The integer part of base/numerics: type limits, promotions, range checks, mixed-type comparisons
  and saturating conversions (safe_conversions_impl.h and safe_conversions.h).

  A C++ integer type is a value \<open>CType is_signed bits\<close>, so that the templates become functions of
  their type arguments; a C++ integer is an \<open>int\<close> inside the range of its type, \<open>static_cast\<close> is the
  conversion of the language (modulo two to the width) and \<open>usual_arithmetic\<close> is the type of
  \<open>l + r\<close>.  The eight types of \<open>INTEGER_FOR_DIGITS_AND_SIGN\<close> are the well-formed ones.
  Floating-point instantiations are not modelled.
\<close>

section \<open>Types, limits and conversions\<close>

datatype ctype = CType (is_signed: bool) (bits: nat)

definition wf_type :: "ctype \<Rightarrow> bool" where
  "wf_type t \<longleftrightarrow> bits t \<in> {8, 16, 32, 64}"

abbreviation "int32_t \<equiv> CType True 32"
abbreviation "int64_t \<equiv> CType True 64"
abbreviation "uint64_t \<equiv> CType False 64"

abbreviation "intmax_t \<equiv> int64_t"
abbreviation "uintmax_t \<equiv> uint64_t"

definition make_signed :: "ctype \<Rightarrow> ctype" where
  "make_signed t = CType True (bits t)"

definition make_unsigned :: "ctype \<Rightarrow> ctype" where
  "make_unsigned t = CType False (bits t)"

definition limit_lowest :: "ctype \<Rightarrow> int" where
  "limit_lowest t = (if is_signed t then - (2 ^ (bits t - 1)) else 0)"

definition limit_max :: "ctype \<Rightarrow> int" where
  "limit_max t = (if is_signed t then 2 ^ (bits t - 1) - 1 else 2 ^ bits t - 1)"

definition in_range :: "ctype \<Rightarrow> int \<Rightarrow> bool" where
  "in_range t v \<longleftrightarrow> limit_lowest t \<le> v \<and> v \<le> limit_max t"

definition static_cast :: "ctype \<Rightarrow> int \<Rightarrow> int" where
  "static_cast t v =
     (if is_signed t then (v + 2 ^ (bits t - 1)) mod 2 ^ bits t - 2 ^ (bits t - 1)
      else v mod 2 ^ bits t)"

definition digits :: "ctype \<Rightarrow> nat" where
  "digits t = (if is_signed t then bits t - 1 else bits t)"

definition integral_promotion :: "ctype \<Rightarrow> ctype" where
  "integral_promotion t = (if bits t < 32 then int32_t else t)"

definition usual_arithmetic :: "ctype \<Rightarrow> ctype \<Rightarrow> ctype" where
  "usual_arithmetic l r =
     (let p = integral_promotion l; q = integral_promotion r in
      if is_signed p = is_signed q then (if bits q \<le> bits p then p else q)
      else if is_signed q then (if bits q \<le> bits p then p else q)
      else (if bits p \<le> bits q then q else p))"

text \<open>The value of an arithmetic expression computed in type \<open>t\<close>: unsigned arithmetic wraps, a
  signed result out of range has no meaning.\<close>

definition arith :: "ctype \<Rightarrow> int \<Rightarrow> int option" where
  "arith t v = (if is_signed t then (if in_range t v then Some v else None)
                else Some (static_cast t v))"

section \<open>safe_conversions_impl.h\<close>

definition MaxExponent :: "ctype \<Rightarrow> nat" where
  "MaxExponent t = digits t + 1"

definition IntegerBitsPlusSign :: "ctype \<Rightarrow> nat" where
  "IntegerBitsPlusSign t = digits t + (if is_signed t then 1 else 0)"

definition PositionOfSignBit :: "ctype \<Rightarrow> nat" where
  "PositionOfSignBit t = IntegerBitsPlusSign t - 1"

definition IsValueNegative :: "ctype \<Rightarrow> int \<Rightarrow> bool" where
  "IsValueNegative t v = (if is_signed t then v < 0 else False)"

definition ConditionalNegate :: "ctype \<Rightarrow> int \<Rightarrow> bool \<Rightarrow> int" where
  "ConditionalNegate t x is_negative =
     static_cast (make_signed t)
       (static_cast (make_unsigned t)
          (static_cast (make_unsigned t) x XOR
             static_cast (make_unsigned t) (- (if is_negative then 1 else 0)))
        + (if is_negative then 1 else 0))"

definition SafeUnsignedAbs :: "ctype \<Rightarrow> int \<Rightarrow> int" where
  "SafeUnsignedAbs t v =
     (if IsValueNegative t v then static_cast (make_unsigned t) (0 - static_cast (make_unsigned t) v)
      else static_cast (make_unsigned t) v)"

datatype NumericRangeRepresentation = NUMERIC_RANGE_NOT_CONTAINED | NUMERIC_RANGE_CONTAINED

definition StaticDstRangeRelationToSrcRange :: "ctype \<Rightarrow> ctype \<Rightarrow> NumericRangeRepresentation" where
  "StaticDstRangeRelationToSrcRange dst src =
     (if is_signed dst = is_signed src then
        (if MaxExponent src \<le> MaxExponent dst then NUMERIC_RANGE_CONTAINED
         else NUMERIC_RANGE_NOT_CONTAINED)
      else if is_signed dst then
        (if MaxExponent src < MaxExponent dst then NUMERIC_RANGE_CONTAINED
         else NUMERIC_RANGE_NOT_CONTAINED)
      else NUMERIC_RANGE_NOT_CONTAINED)"

datatype RangeCheck = MkRangeCheck (is_underflow: bool) (is_overflow: bool)

definition range_check :: "bool \<Rightarrow> bool \<Rightarrow> RangeCheck" where
  "range_check is_in_lower_bound is_in_upper_bound =
     MkRangeCheck (\<not> is_in_lower_bound) (\<not> is_in_upper_bound)"

definition rc_IsValid :: "RangeCheck \<Rightarrow> bool" where
  "rc_IsValid c = (\<not> is_overflow c \<and> \<not> is_underflow c)"

definition rc_IsOverflow :: "RangeCheck \<Rightarrow> bool" where
  "rc_IsOverflow c = (is_overflow c \<and> \<not> is_underflow c)"

definition rc_IsUnderflow :: "RangeCheck \<Rightarrow> bool" where
  "rc_IsUnderflow c = (\<not> is_overflow c \<and> is_underflow c)"

definition kShift :: "ctype \<Rightarrow> ctype \<Rightarrow> nat" where
  "kShift dst src =
     (if MaxExponent dst < MaxExponent src \<and> digits src < digits dst then digits dst - digits src
      else 0)"

definition NarrowingRange_Adjust :: "ctype \<Rightarrow> ctype \<Rightarrow> int \<Rightarrow> int" where
  "NarrowingRange_Adjust dst src v =
     static_cast dst
       (ConditionalNegate (make_unsigned dst)
          (SafeUnsignedAbs dst v AND
             static_cast (make_unsigned dst) (NOT (push_bit (kShift dst src) 1 - 1)))
          (IsValueNegative dst v))"

definition NarrowingRange_max :: "ctype \<Rightarrow> ctype \<Rightarrow> int" where
  "NarrowingRange_max dst src = NarrowingRange_Adjust dst src (limit_max dst)"

definition NarrowingRange_lowest :: "ctype \<Rightarrow> ctype \<Rightarrow> int" where
  "NarrowingRange_lowest dst src = NarrowingRange_Adjust dst src (limit_lowest dst)"

definition DstRangeRelationToSrcRange :: "ctype \<Rightarrow> ctype \<Rightarrow> int \<Rightarrow> RangeCheck" where
  "DstRangeRelationToSrcRange dst src v =
     (let lo = NarrowingRange_lowest dst src; hi = NarrowingRange_max dst src;
          promotion = usual_arithmetic src dst in
      case StaticDstRangeRelationToSrcRange dst src of
        NUMERIC_RANGE_CONTAINED \<Rightarrow>
          range_check (lo \<le> static_cast dst (limit_lowest src) \<or> lo \<le> static_cast dst v)
                     (static_cast dst (limit_max src) \<le> hi \<or> static_cast dst v \<le> hi)
      | NUMERIC_RANGE_NOT_CONTAINED \<Rightarrow>
          (if is_signed dst then
             (if is_signed src then range_check (lo \<le> v) (v \<le> hi)
              else range_check
                     (lo \<le> 0 \<or> static_cast promotion lo \<le> static_cast promotion v)
                     (static_cast promotion v \<le> static_cast promotion hi))
           else
             (if is_signed src then
                range_check
                  (0 \<le> v \<and> (lo = 0 \<or> lo \<le> static_cast dst v))
                  (static_cast promotion (limit_max src) \<le> static_cast promotion hi \<or>
                   static_cast promotion v \<le> static_cast promotion hi)
              else range_check (lo = 0 \<or> lo \<le> v) (v \<le> hi))))"

definition IsTypeInRangeForNumericType :: "ctype \<Rightarrow> ctype \<Rightarrow> bool" where
  "IsTypeInRangeForNumericType dst src \<longleftrightarrow>
     StaticDstRangeRelationToSrcRange dst src = NUMERIC_RANGE_CONTAINED"

subsection \<open>Promotions\<close>

definition TwiceWiderInteger :: "ctype \<Rightarrow> bool \<Rightarrow> ctype" where
  "TwiceWiderInteger t s = CType s (IntegerBitsPlusSign t * 2)"

definition MaxExponentPromotion :: "ctype \<Rightarrow> ctype \<Rightarrow> ctype" where
  "MaxExponentPromotion l r = (if MaxExponent r < MaxExponent l then l else r)"

definition LowestValuePromotion :: "ctype \<Rightarrow> ctype \<Rightarrow> ctype" where
  "LowestValuePromotion l r =
     (if is_signed l then
        (if is_signed r then (if MaxExponent r < MaxExponent l then l else r) else l)
      else
        (if is_signed r then r else (if MaxExponent l < MaxExponent r then l else r)))"

definition big_is_intmax :: "ctype \<Rightarrow> ctype \<Rightarrow> bool" where
  "big_is_intmax l r \<longleftrightarrow>
     IntegerBitsPlusSign (MaxExponentPromotion l r) = IntegerBitsPlusSign intmax_t"

definition big_is_max_exponent :: "ctype \<Rightarrow> ctype \<Rightarrow> bool" where
  "big_is_max_exponent l r \<longleftrightarrow>
     IsTypeInRangeForNumericType (MaxExponentPromotion l r) l \<and>
     IsTypeInRangeForNumericType (MaxExponentPromotion l r) r"

definition BigEnoughPromotion :: "ctype \<Rightarrow> ctype \<Rightarrow> ctype" where
  "BigEnoughPromotion l r =
     (if big_is_max_exponent l r then MaxExponentPromotion l r
      else if \<not> big_is_intmax l r then
        TwiceWiderInteger (MaxExponentPromotion l r) (is_signed l \<or> is_signed r)
      else MaxExponentPromotion l r)"

definition big_is_contained :: "ctype \<Rightarrow> ctype \<Rightarrow> bool" where
  "big_is_contained l r \<longleftrightarrow> big_is_max_exponent l r \<or> \<not> big_is_intmax l r"

definition IsIntegerArithmeticSafe :: "ctype \<Rightarrow> ctype \<Rightarrow> ctype \<Rightarrow> bool" where
  "IsIntegerArithmeticSafe t l r \<longleftrightarrow>
     is_signed l \<le> is_signed t \<and> 2 * IntegerBitsPlusSign l \<le> IntegerBitsPlusSign t \<and>
     is_signed r \<le> is_signed t \<and> 2 * IntegerBitsPlusSign r \<le> IntegerBitsPlusSign t"

definition FastIntegerArithmeticPromotion :: "ctype \<Rightarrow> ctype \<Rightarrow> ctype" where
  "FastIntegerArithmeticPromotion l r =
     (if IsIntegerArithmeticSafe (if is_signed l \<or> is_signed r then intmax_t else uintmax_t)
           (MaxExponentPromotion l r) (MaxExponentPromotion l r)
      then TwiceWiderInteger (MaxExponentPromotion l r) (is_signed l \<or> is_signed r)
      else BigEnoughPromotion l r)"

definition as_signed :: "ctype \<Rightarrow> int \<Rightarrow> int" where
  "as_signed t v = static_cast (make_signed t) v"

definition as_unsigned :: "ctype \<Rightarrow> int \<Rightarrow> int" where
  "as_unsigned t v = static_cast (make_unsigned t) v"

subsection \<open>Comparisons\<close>

definition IsLess :: "ctype \<Rightarrow> ctype \<Rightarrow> int \<Rightarrow> int \<Rightarrow> bool" where
  "IsLess l r lhs rhs =
     (let l_range = DstRangeRelationToSrcRange r l lhs;
          r_range = DstRangeRelationToSrcRange l r rhs; t = usual_arithmetic l r in
      rc_IsUnderflow l_range \<or> rc_IsOverflow r_range \<or>
      (l_range = r_range \<and> static_cast t lhs < static_cast t rhs))"

definition IsLessOrEqual :: "ctype \<Rightarrow> ctype \<Rightarrow> int \<Rightarrow> int \<Rightarrow> bool" where
  "IsLessOrEqual l r lhs rhs =
     (let l_range = DstRangeRelationToSrcRange r l lhs;
          r_range = DstRangeRelationToSrcRange l r rhs; t = usual_arithmetic l r in
      rc_IsUnderflow l_range \<or> rc_IsOverflow r_range \<or>
      (l_range = r_range \<and> static_cast t lhs \<le> static_cast t rhs))"

definition IsGreater :: "ctype \<Rightarrow> ctype \<Rightarrow> int \<Rightarrow> int \<Rightarrow> bool" where
  "IsGreater l r lhs rhs =
     (let l_range = DstRangeRelationToSrcRange r l lhs;
          r_range = DstRangeRelationToSrcRange l r rhs; t = usual_arithmetic l r in
      rc_IsOverflow l_range \<or> rc_IsUnderflow r_range \<or>
      (l_range = r_range \<and> static_cast t lhs > static_cast t rhs))"

definition IsGreaterOrEqual :: "ctype \<Rightarrow> ctype \<Rightarrow> int \<Rightarrow> int \<Rightarrow> bool" where
  "IsGreaterOrEqual l r lhs rhs =
     (let l_range = DstRangeRelationToSrcRange r l lhs;
          r_range = DstRangeRelationToSrcRange l r rhs; t = usual_arithmetic l r in
      rc_IsOverflow l_range \<or> rc_IsUnderflow r_range \<or>
      (l_range = r_range \<and> static_cast t lhs \<ge> static_cast t rhs))"

definition IsEqual :: "ctype \<Rightarrow> ctype \<Rightarrow> int \<Rightarrow> int \<Rightarrow> bool" where
  "IsEqual l r lhs rhs =
     (let t = usual_arithmetic l r in
      DstRangeRelationToSrcRange r l lhs = DstRangeRelationToSrcRange l r rhs \<and>
      static_cast t lhs = static_cast t rhs)"

definition IsNotEqual :: "ctype \<Rightarrow> ctype \<Rightarrow> int \<Rightarrow> int \<Rightarrow> bool" where
  "IsNotEqual l r lhs rhs =
     (let t = usual_arithmetic l r in
      DstRangeRelationToSrcRange r l lhs \<noteq> DstRangeRelationToSrcRange l r rhs \<or>
      static_cast t lhs \<noteq> static_cast t rhs)"

type_synonym comparator = "ctype \<Rightarrow> ctype \<Rightarrow> int \<Rightarrow> int \<Rightarrow> bool"

definition SafeCompare :: "comparator \<Rightarrow> ctype \<Rightarrow> ctype \<Rightarrow> int \<Rightarrow> int \<Rightarrow> bool" where
  "SafeCompare C l r lhs rhs =
     (let big = BigEnoughPromotion l r in
      if big_is_contained l r then C big big (static_cast big lhs) (static_cast big rhs)
      else C l r lhs rhs)"

definition IsMaxInRangeForNumericType :: "ctype \<Rightarrow> ctype \<Rightarrow> bool" where
  "IsMaxInRangeForNumericType dst src = IsGreaterOrEqual dst src (limit_max dst) (limit_max src)"

definition IsMinInRangeForNumericType :: "ctype \<Rightarrow> ctype \<Rightarrow> bool" where
  "IsMinInRangeForNumericType dst src = IsLessOrEqual dst src (limit_lowest dst) (limit_lowest src)"

definition CommonMax :: "ctype \<Rightarrow> ctype \<Rightarrow> int" where
  "CommonMax dst src =
     (if \<not> IsMaxInRangeForNumericType dst src then static_cast dst (limit_max dst)
      else static_cast dst (limit_max src))"

definition CommonMin :: "ctype \<Rightarrow> ctype \<Rightarrow> int" where
  "CommonMin dst src =
     (if \<not> IsMinInRangeForNumericType dst src then static_cast dst (limit_lowest dst)
      else static_cast dst (limit_lowest src))"

definition CommonMaxOrMin :: "ctype \<Rightarrow> ctype \<Rightarrow> bool \<Rightarrow> int" where
  "CommonMaxOrMin dst src is_min = (if is_min then CommonMin dst src else CommonMax dst src)"

section \<open>safe_conversions.h\<close>

definition IsValueInRangeForNumericType :: "ctype \<Rightarrow> ctype \<Rightarrow> int \<Rightarrow> bool" where
  "IsValueInRangeForNumericType dst src v =
     (if is_signed dst \<and> is_signed src \<and> \<not> IsTypeInRangeForNumericType dst src then
        v = static_cast dst v
      else if \<not> is_signed dst \<and> is_signed src \<and> \<not> IsTypeInRangeForNumericType dst src then
        as_unsigned src v \<le> as_unsigned src (CommonMax src dst)
      else rc_IsValid (DstRangeRelationToSrcRange dst src v))"

definition checked_cast :: "ctype \<Rightarrow> ctype \<Rightarrow> int \<Rightarrow> int option" where
  "checked_cast dst src v =
     (if IsValueInRangeForNumericType dst src v then Some (static_cast dst v) else None)"

definition saturated_cast_impl :: "ctype \<Rightarrow> ctype \<Rightarrow> int \<Rightarrow> RangeCheck \<Rightarrow> int" where
  "saturated_cast_impl dst src v constraint =
     (if \<not> is_overflow constraint then
        (if \<not> is_underflow constraint then static_cast dst v else limit_lowest dst)
      else limit_max dst)"

definition SaturateFastOp :: "ctype \<Rightarrow> ctype \<Rightarrow> int \<Rightarrow> int" where
  "SaturateFastOp dst src v =
     (let saturated = CommonMaxOrMin dst src
            (IsMaxInRangeForNumericType dst src \<or>
             (\<not> IsMinInRangeForNumericType dst src \<and> IsValueNegative src v)) in
      if IsValueInRangeForNumericType dst src v then static_cast dst v else saturated)"

definition saturated_cast :: "bool \<Rightarrow> ctype \<Rightarrow> ctype \<Rightarrow> int \<Rightarrow> int" where
  "saturated_cast is_compile_time_constant dst src v =
     (if \<not> is_compile_time_constant then SaturateFastOp dst src v
      else saturated_cast_impl dst src v (DstRangeRelationToSrcRange dst src v))"

section \<open>Specification\<close>

text \<open>The value of a type nearest to an integer.\<close>

definition clamp :: "ctype \<Rightarrow> int \<Rightarrow> int" where
  "clamp t v = (if v < limit_lowest t then limit_lowest t else if limit_max t < v then limit_max t else v)"

section \<open>Conversions of the language\<close>

lemma wf_typeE:
  assumes "wf_type t"
  obtains s where "t = CType s 8" | s where "t = CType s 16" | s where "t = CType s 32"
    | s where "t = CType s 64"
  using assms by (cases t) (auto simp: wf_type_def)

lemma wf_type_simps [simp]: "wf_type (CType s b) \<longleftrightarrow> b \<in> {8, 16, 32, 64}"
  "wf_type (make_signed t) = wf_type t" "wf_type (make_unsigned t) = wf_type t"
  "bits (make_signed t) = bits t" "bits (make_unsigned t) = bits t"
  "is_signed (make_signed t)" "\<not> is_signed (make_unsigned t)"
  by (simp_all add: wf_type_def make_signed_def make_unsigned_def)

lemma bits_pos [simp]: "wf_type t \<Longrightarrow> 0 < bits t"
  by (auto simp: wf_type_def)

lemma static_cast_id [simp]:
  assumes "0 < bits t" "in_range t v"
  shows "static_cast t v = v"
proof -
  have "(2::int) ^ bits t = 2 * 2 ^ (bits t - 1)"
    using assms(1) by (simp add: power_eq_if)
  with assms(2) show ?thesis
    by (auto simp: static_cast_def in_range_def limit_lowest_def limit_max_def mod_pos_pos_trivial
        split: if_splits)
qed

lemma static_cast_in_range [simp]:
  assumes "0 < bits t"
  shows "in_range t (static_cast t v)"
proof -
  have "(2::int) ^ bits t = 2 * 2 ^ (bits t - 1)"
    using assms by (simp add: power_eq_if)
  then show ?thesis
    using pos_mod_bound [of "2 ^ bits t" "v + 2 ^ (bits t - 1)"]
      pos_mod_sign [of "2 ^ bits t" "v + 2 ^ (bits t - 1)"] pos_mod_bound [of "2 ^ bits t" v]
    by (auto simp: static_cast_def in_range_def limit_lowest_def limit_max_def)
qed

lemma static_cast_eq_iff:
  assumes "0 < bits t"
  shows "static_cast t a = static_cast t b \<longleftrightarrow> a mod 2 ^ bits t = b mod 2 ^ bits t"
proof (cases "is_signed t")
  case True
  have "(a + 2 ^ (bits t - 1)) mod 2 ^ bits t = (b + 2 ^ (bits t - 1)) mod 2 ^ bits t
      \<longleftrightarrow> a mod 2 ^ bits t = b mod 2 ^ bits t"
    by (simp add: mod_eq_dvd_iff)
  with True show ?thesis by (simp add: static_cast_def)
next
  case False
  then show ?thesis by (simp add: static_cast_def)
qed

lemma static_cast_eqI:
  assumes "0 < bits t" "in_range t w" "v mod 2 ^ bits t = w mod 2 ^ bits t"
  shows "static_cast t v = w"
  using assms static_cast_eq_iff [of t v w] by simp

lemma static_cast_mod [simp]: "0 < bits t \<Longrightarrow> static_cast t v mod 2 ^ bits t = v mod 2 ^ bits t"
  using static_cast_eq_iff [of t "static_cast t v" v] by simp

lemma limits_in_range [simp]: "in_range t (limit_lowest t)" "in_range t (limit_max t)"
  by (auto simp: in_range_def limit_lowest_def limit_max_def)

lemma kShift_integral [simp]: "kShift dst src = 0"
  by (simp add: kShift_def MaxExponent_def)

lemma Adjust_limits:
  "\<forall>s \<in> {True, False}. \<forall>b \<in> {8, 16, 32, 64}. \<forall>v \<in> {limit_max (CType s b), limit_lowest (CType s b)}.
     static_cast (CType s b)
       (ConditionalNegate (make_unsigned (CType s b))
          (SafeUnsignedAbs (CType s b) v AND
             static_cast (make_unsigned (CType s b)) (NOT (push_bit 0 1 - 1)))
          (IsValueNegative (CType s b) v)) = v"
  by code_simp

lemma NarrowingRange_limits [simp]:
  assumes "wf_type dst"
  shows "NarrowingRange_max dst src = limit_max dst" "NarrowingRange_lowest dst src = limit_lowest dst"
proof -
  obtain s b where d: "dst = CType s b" "b \<in> {8, 16, 32, 64}"
    using assms by (cases dst) auto
  have "s \<in> {True, False}" by simp
  note limit = bspec [OF bspec [OF Adjust_limits this] d(2), THEN bspec]
  show "NarrowingRange_max dst src = limit_max dst" "NarrowingRange_lowest dst src = limit_lowest dst"
    unfolding NarrowingRange_max_def NarrowingRange_lowest_def NarrowingRange_Adjust_def
      kShift_integral d(1)
    by (rule limit, simp)+
qed

lemmas type_defs = usual_arithmetic_def integral_promotion_def in_range_def limit_lowest_def
  limit_max_def StaticDstRangeRelationToSrcRange_def IsTypeInRangeForNumericType_def MaxExponent_def
  digits_def IntegerBitsPlusSign_def

lemma limit_signs [simp]: "limit_lowest t \<le> 0" "0 \<le> limit_max t"
  by (auto simp: limit_lowest_def limit_max_def)

lemma limit_lowest_unsigned [simp]: "\<not> is_signed t \<Longrightarrow> limit_lowest t = 0"
  by (simp add: limit_lowest_def)

lemma type_contained:
  assumes "wf_type dst" "wf_type src" "IsTypeInRangeForNumericType dst src" "in_range src v"
  shows "in_range dst v"
  using assms
  by (cases dst; cases src)
    (auto simp: type_defs split: if_splits)

lemma wf_usual_arithmetic [simp]:
  "wf_type l \<Longrightarrow> wf_type r \<Longrightarrow> wf_type (usual_arithmetic l r)"
  by (cases l; cases r) (auto simp: usual_arithmetic_def integral_promotion_def Let_def)

text \<open>A value of both types survives the usual arithmetic conversions.\<close>

lemma usual_arithmetic_common:
  assumes "wf_type l" "wf_type r" "in_range l v" "in_range r v"
  shows "in_range (usual_arithmetic l r) v"
  using assms
  by (cases l; cases r)
    (auto simp: type_defs split: if_splits)

lemma usual_arithmetic_value:
  assumes "wf_type dst" "wf_type src" "is_signed src \<noteq> is_signed dst" "in_range src v"
    and "\<not> IsTypeInRangeForNumericType dst src" "0 \<le> v \<or> limit_max dst < limit_max src"
  shows "in_range (usual_arithmetic src dst) v"
  using assms by (cases dst; cases src) (auto simp: type_defs split: if_splits)

lemma usual_arithmetic_limits_eval:
  "\<forall>s \<in> {True, False}. \<forall>r \<in> {True, False}. \<forall>b \<in> {8, 16, 32, 64}. \<forall>c \<in> {8, 16, 32, 64}.
     in_range (usual_arithmetic (CType s b) (CType r c)) (limit_max (CType r c))"
  by code_simp

lemma usual_arithmetic_limit:
  assumes "wf_type dst" "wf_type src"
  shows "in_range (usual_arithmetic src dst) (limit_max dst)"
  using assms usual_arithmetic_limits_eval by (cases dst; cases src) (simp only: wf_type_simps, blast)

text \<open>The range check computes the two comparisons it stands for.\<close>

lemma DstRangeRelation_correct:
  assumes "wf_type dst" "wf_type src" "in_range src v"
  shows "DstRangeRelationToSrcRange dst src v = MkRangeCheck (v < limit_lowest dst) (limit_max dst < v)"
proof (cases "IsTypeInRangeForNumericType dst src")
  case True
  then have "in_range dst v" using type_contained assms by blast
  with True assms show ?thesis
    by (simp add: DstRangeRelationToSrcRange_def IsTypeInRangeForNumericType_def range_check_def
        in_range_def)
next
  case False
  then have n: "StaticDstRangeRelationToSrcRange dst src = NUMERIC_RANGE_NOT_CONTAINED"
    by (cases "StaticDstRangeRelationToSrcRange dst src") (auto simp: IsTypeInRangeForNumericType_def)
  consider "is_signed src = is_signed dst" | "is_signed dst" "\<not> is_signed src"
    | "\<not> is_signed dst" "is_signed src" "0 \<le> v \<or> limit_max dst < limit_max src"
    | "\<not> is_signed dst" "is_signed src" "v < 0" "limit_max src \<le> limit_max dst"
    by linarith
  then show ?thesis
  proof cases
    case 1
    with assms n
      usual_arithmetic_limit [OF assms(1,2)] show ?thesis
      by (auto simp: DstRangeRelationToSrcRange_def range_check_def in_range_def limit_lowest_def)
  next
    case 2
    with assms(3) have "0 \<le> v" by (simp add: in_range_def limit_lowest_def)
    moreover from this have "limit_lowest dst \<le> v" using limit_signs(1) [of dst] by linarith
    ultimately show ?thesis
      using 2 usual_arithmetic_value [OF assms(1,2) _ assms(3) False] assms n
        usual_arithmetic_limit [OF assms(1,2)]
      by (auto simp: DstRangeRelationToSrcRange_def range_check_def Let_def)
  next
    case 3
    with usual_arithmetic_value [OF assms(1,2) _ assms(3) False]
      usual_arithmetic_value [OF assms(1,2) _ limits_in_range(2) False] assms n
      usual_arithmetic_limit [OF assms(1,2)] show ?thesis
      by (auto simp: DstRangeRelationToSrcRange_def range_check_def Let_def in_range_def limit_lowest_def)
  next
    case 4
    with usual_arithmetic_value [OF assms(1,2) _ limits_in_range(2) False] assms n
      usual_arithmetic_limit [OF assms(1,2)] show ?thesis
      by (auto simp: DstRangeRelationToSrcRange_def range_check_def Let_def
          dest: order_trans [OF limit_signs(2)])
  qed
qed

section \<open>Comparisons and saturation\<close>

lemma compare_cases:
  assumes "wf_type l" "wf_type r" "in_range l v" "in_range r w"
  obtains (below) "v < limit_lowest r" "v < w" "v \<le> limit_max r"
        "limit_lowest l \<le> w"
    | (above) "limit_max r < v" "w < v" "limit_lowest r \<le> v" "w \<le> limit_max l"
    | (under) "w < limit_lowest l" "w < v" "in_range r v" "w \<le> limit_max l"
    | (over) "limit_max l < w" "v < w" "in_range r v" "limit_lowest l \<le> w"
    | (common) "in_range r v" "in_range l w"
        "static_cast (usual_arithmetic l r) v = v" "static_cast (usual_arithmetic l r) w = w"
proof -
  have lims: "limit_lowest r \<le> limit_max r" "limit_lowest l \<le> limit_max l"
    using order_trans [OF limit_signs] by auto
  have cv: "static_cast (usual_arithmetic l r) v = v" if "in_range r v"
    using usual_arithmetic_common [OF assms(1,2,3) that] assms by simp
  have cw: "static_cast (usual_arithmetic l r) w = w" if "in_range l w"
    using usual_arithmetic_common [OF assms(1,2) that assms(4)] assms by simp
  consider "v < limit_lowest r" | "limit_max r < v" | "in_range r v" "w < limit_lowest l"
    | "in_range r v" "limit_max l < w" | "in_range r v" "in_range l w"
    unfolding in_range_def by linarith
  then show ?thesis
  proof cases
    case 1
    with assms(3,4) lims show ?thesis by (intro below) (auto simp: in_range_def)
  next
    case 2
    with assms(3,4) lims show ?thesis by (intro above) (auto simp: in_range_def)
  next
    case 3
    with assms(3,4) lims show ?thesis by (intro under) (auto simp: in_range_def)
  next
    case 4
    with assms(3,4) lims show ?thesis by (intro over) (auto simp: in_range_def)
  next
    case 5
    with common cv cw show ?thesis by blast
  qed
qed

lemma comparisons_correct [simp]:
  assumes "wf_type l" "wf_type r" "in_range l v" "in_range r w"
  shows "IsLess l r v w \<longleftrightarrow> v < w" "IsLessOrEqual l r v w \<longleftrightarrow> v \<le> w"
    "IsGreater l r v w \<longleftrightarrow> v > w" "IsGreaterOrEqual l r v w \<longleftrightarrow> v \<ge> w"
    "IsEqual l r v w \<longleftrightarrow> v = w" "IsNotEqual l r v w \<longleftrightarrow> v \<noteq> w"
  using assms
  by (cases rule: compare_cases [OF assms];
      auto simp: IsLess_def IsLessOrEqual_def IsGreater_def IsGreaterOrEqual_def IsEqual_def
        IsNotEqual_def DstRangeRelation_correct rc_IsUnderflow_def rc_IsOverflow_def in_range_def Let_def)+

lemma IsMaxInRange [simp]:
  "wf_type dst \<Longrightarrow> wf_type src \<Longrightarrow> IsMaxInRangeForNumericType dst src \<longleftrightarrow> limit_max src \<le> limit_max dst"
  by (simp add: IsMaxInRangeForNumericType_def)

lemma IsMinInRange [simp]:
  "wf_type dst \<Longrightarrow> wf_type src \<Longrightarrow>
     IsMinInRangeForNumericType dst src \<longleftrightarrow> limit_lowest dst \<le> limit_lowest src"
  by (simp add: IsMinInRangeForNumericType_def)

lemma CommonMax_correct [simp]:
  assumes "wf_type dst" "wf_type src"
  shows "CommonMax dst src = min (limit_max dst) (limit_max src)"
proof -
  have "limit_max src \<le> limit_max dst \<Longrightarrow> in_range dst (limit_max src)"
    using order_trans [OF limit_signs, of dst src] by (simp add: in_range_def)
  with assms show ?thesis by (auto simp: CommonMax_def)
qed

lemma CommonMin_correct [simp]:
  assumes "wf_type dst" "wf_type src"
  shows "CommonMin dst src = max (limit_lowest dst) (limit_lowest src)"
proof -
  have "limit_lowest dst \<le> limit_lowest src \<Longrightarrow> in_range dst (limit_lowest src)"
    using order_trans [OF limit_signs, of src dst] by (simp add: in_range_def)
  with assms show ?thesis by (auto simp: CommonMin_def)
qed

lemma to_unsigned:
  assumes "wf_type t" "in_range t v"
  shows "static_cast (make_unsigned t) v = (if v < 0 then v + 2 ^ bits t else v)"
proof (rule static_cast_eqI)
  have p: "(2::int) ^ bits t = 2 * 2 ^ (bits t - 1)"
    using assms(1) by (simp add: power_eq_if)
  from assms(2) show "in_range (make_unsigned t) (if v < 0 then v + 2 ^ bits t else v)"
    by (auto simp: in_range_def limit_lowest_def limit_max_def p split: if_splits)
qed (use assms in simp_all)

lemma IsValueInRange_correct [simp]:
  assumes "wf_type dst" "wf_type src" "in_range src v"
  shows "IsValueInRangeForNumericType dst src v \<longleftrightarrow> in_range dst v"
proof (cases "is_signed src \<and> \<not> IsTypeInRangeForNumericType dst src")
  case False
  with assms show ?thesis
    by (auto simp: IsValueInRangeForNumericType_def DstRangeRelation_correct rc_IsValid_def in_range_def)
next
  case True
  show ?thesis
  proof (cases "is_signed dst")
    case s: True
    have "v = static_cast dst v \<longleftrightarrow> in_range dst v"
      using assms(1) by (metis bits_pos static_cast_in_range static_cast_id)
    with True s show ?thesis by (simp add: IsValueInRangeForNumericType_def)
  next
    case False
    have "as_unsigned src v \<le> as_unsigned src (min (limit_max src) (limit_max dst))
        \<longleftrightarrow> 0 \<le> v \<and> v \<le> limit_max dst"
    proof -
      have p: "(2::int) ^ bits src = 2 * 2 ^ (bits src - 1)"
        using assms(2) by (simp add: power_eq_if)
      have m: "in_range src (min (limit_max src) (limit_max dst))"
        using order_trans [OF limit_signs, of src dst] order_trans [OF limit_signs, of src src]
        by (simp add: in_range_def)
      have m0: "\<not> min (limit_max src) (limit_max dst) < 0" by (simp add: not_less)
      have "limit_max src = 2 ^ (bits src - 1) - 1" "limit_lowest src = - (2 ^ (bits src - 1))"
        using True by (simp_all add: limit_lowest_def limit_max_def)
      with assms(3) show ?thesis
        unfolding as_unsigned_def to_unsigned [OF assms(2,3)] to_unsigned [OF assms(2) m] p if_not_P [OF m0]
        by (auto simp: in_range_def)
    qed
    with True False assms show ?thesis
      by (simp add: IsValueInRangeForNumericType_def in_range_def)
  qed
qed

lemma saturated_cast_correct:
  assumes "wf_type dst" "wf_type src" "in_range src v"
  shows "saturated_cast c dst src v = clamp dst v"
proof -
  have "saturated_cast_impl dst src v (DstRangeRelationToSrcRange dst src v) = clamp dst v"
    using assms order_trans [OF limit_signs, of dst dst]
    by (auto simp: saturated_cast_impl_def DstRangeRelation_correct clamp_def in_range_def)
  moreover have "SaturateFastOp dst src v = clamp dst v"
  proof (cases "in_range dst v")
    case True
    with assms show ?thesis by (simp add: SaturateFastOp_def clamp_def in_range_def Let_def)
  next
    case False
    then consider "v < limit_lowest dst" | "limit_max dst < v" by (auto simp: in_range_def)
    then show ?thesis
    proof cases
      case 1
      with assms limit_signs(1) [of dst] limit_signs(2) [of dst]
      have "v < 0" "limit_lowest src < limit_lowest dst" by (linarith, simp add: in_range_def)
      with 1 False assms show ?thesis
        by (auto simp: SaturateFastOp_def clamp_def CommonMaxOrMin_def IsValueNegative_def in_range_def)
    next
      case 2
      with assms limit_signs(2) [of dst]
      have "0 \<le> v" "limit_max dst < limit_max src" by (linarith, simp add: in_range_def)
      moreover from this have "\<not> v < limit_lowest dst" using limit_signs(1) [of dst] by linarith
      ultimately show ?thesis
        using 2 False assms
        by (auto simp: SaturateFastOp_def clamp_def CommonMaxOrMin_def IsValueNegative_def)
    qed
  qed
  ultimately show ?thesis by (simp add: saturated_cast_def)
qed

lemma BigEnough_eval:
  "\<forall>s \<in> {True, False}. \<forall>r \<in> {True, False}. \<forall>b \<in> {8, 16, 32, 64}. \<forall>c \<in> {8, 16, 32, 64}.
     wf_type (BigEnoughPromotion (CType s b) (CType r c)) \<and>
     (big_is_contained (CType s b) (CType r c) \<longrightarrow>
        IsTypeInRangeForNumericType (BigEnoughPromotion (CType s b) (CType r c)) (CType s b) \<and>
        IsTypeInRangeForNumericType (BigEnoughPromotion (CType s b) (CType r c)) (CType r c))"
  by code_simp

lemma SafeCompare_correct:
  assumes "wf_type l" "wf_type r" "in_range l v" "in_range r w"
    and "\<And>l r v w. wf_type l \<Longrightarrow> wf_type r \<Longrightarrow> in_range l v \<Longrightarrow> in_range r w \<Longrightarrow> C l r v w \<longleftrightarrow> op v w"
  shows "SafeCompare C l r v w \<longleftrightarrow> op v w"
proof -
  have 1: "wf_type (BigEnoughPromotion l r)" "big_is_contained l r \<Longrightarrow>
        IsTypeInRangeForNumericType (BigEnoughPromotion l r) l \<and>
        IsTypeInRangeForNumericType (BigEnoughPromotion l r) r"
    using BigEnough_eval assms(1,2) by (cases l; cases r; simp only: wf_type_simps, blast)+
  show ?thesis
  proof (cases "big_is_contained l r")
    case True
    with 1 assms type_contained show ?thesis
      by (auto simp: SafeCompare_def)
  next
    case False
    with assms show ?thesis by (simp add: SafeCompare_def)
  qed
qed

section \<open>Properties\<close>

text \<open>
  Claim C24.  The comparison operators of StrictNumeric, CheckedNumeric and ClampedNumeric compare two
  integers of any two types as the integers they are: no sign extension or truncation changes the
  outcome.
\<close>

theorem safe_compare_exact:
  assumes "wf_type l" "wf_type r" "in_range l v" "in_range r w"
  shows "(SafeCompare IsLess l r v w \<longleftrightarrow> v < w) \<and> (SafeCompare IsLessOrEqual l r v w \<longleftrightarrow> v \<le> w) \<and>
    (SafeCompare IsGreater l r v w \<longleftrightarrow> v > w) \<and> (SafeCompare IsGreaterOrEqual l r v w \<longleftrightarrow> v \<ge> w) \<and>
    (SafeCompare IsEqual l r v w \<longleftrightarrow> v = w) \<and> (SafeCompare IsNotEqual l r v w \<longleftrightarrow> v \<noteq> w)"
  using SafeCompare_correct [OF assms, of IsLess "(<)"]
    SafeCompare_correct [OF assms, of IsLessOrEqual "(\<le>)"]
    SafeCompare_correct [OF assms, of IsGreater "(>)"]
    SafeCompare_correct [OF assms, of IsGreaterOrEqual "(\<ge>)"]
    SafeCompare_correct [OF assms, of IsEqual "(=)"]
    SafeCompare_correct [OF assms, of IsNotEqual "(\<noteq>)"]
  by simp

theorem safe_compare_exact_witness:
  "SafeCompare IsLess int32_t uint64_t (- 1) 1 \<and> \<not> SafeCompare IsEqual int64_t uint64_t (- 1) (2 ^ 64 - 1)"
proof -
  have "in_range int32_t (- 1)" "in_range int64_t (- 1)" "in_range uint64_t 1"
    "in_range uint64_t (2 ^ 64 - 1)"
    by (simp_all add: in_range_def limit_lowest_def limit_max_def)
  then show ?thesis
    using safe_compare_exact [of int32_t uint64_t "- 1" 1]
      safe_compare_exact [of int64_t uint64_t "- 1" "2 ^ 64 - 1"] by simp
qed

text \<open>
  Claim C25.  checked_cast succeeds exactly on the values of the destination type and keeps them;
  saturated_cast, in both of its implementations, yields the nearest value of the destination type.
\<close>

theorem casts_exact:
  assumes "wf_type dst" "wf_type src" "in_range src v"
  shows "checked_cast dst src v = (if in_range dst v then Some v else None)
    \<and> saturated_cast is_constant dst src v = clamp dst v"
  using assms saturated_cast_correct [OF assms] by (auto simp: checked_cast_def)

theorem casts_exact_witness:
  "checked_cast (CType False 8) int32_t 300 = None \<and> saturated_cast False (CType False 8) int32_t 300 = 255
    \<and> saturated_cast True (CType True 8) uint64_t (2 ^ 63) = 127"
proof -
  have "in_range int32_t 300" "in_range uint64_t (2 ^ 63)"
    by (simp_all add: in_range_def limit_lowest_def limit_max_def)
  then show ?thesis
    using casts_exact [of "CType False 8" int32_t 300 False]
      casts_exact [of "CType True 8" uint64_t "2 ^ 63" True]
    by (simp add: clamp_def in_range_def limit_lowest_def limit_max_def)
qed

end
