(* ===== verification/Safe_Math.thy ===== *)
theory Safe_Math
  imports Safe_Conversions
begin

unbundle bit_operations_syntax

text \<open>
  Checked and saturating integer arithmetic (checked_math_impl.h, clamped_math_impl.h,
  checked_math.h, safe_math_shared_impl.h, safe_math_clang_gcc_impl.h).

  \<open>CheckedXOp<T, U>::Do<V>(x, y, &result)\<close> is a function of the three types and the two operands.
  It yields the validity flag and the value left in \<open>result\<close>, which every caller initialises to
  zero; \<open>None\<close> is behaviour that C++ does not define.  The toolchain decides whether the overflow
  builtins of the compiler replace the portable code.
\<close>

section \<open>Checked operations\<close>

datatype toolchain = Portable | Gcc | Clang

abbreviation "intptr_t \<equiv> int64_t"
abbreviation "uintptr_t \<equiv> uint64_t"

type_synonym checked_result = "(bool \<times> int) option"

text \<open>The overflow builtins compute the exact result and test whether it fits.\<close>

definition builtin_overflow :: "ctype \<Rightarrow> int \<Rightarrow> bool \<times> int" where
  "builtin_overflow v exact = (\<not> in_range v exact, static_cast v exact)"

definition CheckedAddFastOp :: "ctype \<Rightarrow> int \<Rightarrow> int \<Rightarrow> bool \<times> int" where
  "CheckedAddFastOp v x y = (let (ovf, r) = builtin_overflow v (x + y) in (\<not> ovf, r))"

definition CheckedSubFastOp :: "ctype \<Rightarrow> int \<Rightarrow> int \<Rightarrow> bool \<times> int" where
  "CheckedSubFastOp v x y = (let (ovf, r) = builtin_overflow v (x - y) in (\<not> ovf, r))"

definition CheckedMulFastOp :: "ctype \<Rightarrow> int \<Rightarrow> int \<Rightarrow> bool \<times> int" where
  "CheckedMulFastOp v x y = (let (ovf, r) = builtin_overflow v (x * y) in (\<not> ovf, r))"

definition CheckedMulFastOp_supported :: "toolchain \<Rightarrow> ctype \<Rightarrow> ctype \<Rightarrow> bool" where
  "CheckedMulFastOp_supported tc t u =
     (case tc of
        Portable \<Rightarrow> False
      | Gcc \<Rightarrow> True
      | Clang \<Rightarrow>
          (IsTypeInRangeForNumericType intptr_t t \<and> IsTypeInRangeForNumericType intptr_t u) \<or>
          (IsTypeInRangeForNumericType uintptr_t t \<and> IsTypeInRangeForNumericType uintptr_t u))"

definition CheckedAddImpl :: "ctype \<Rightarrow> int \<Rightarrow> int \<Rightarrow> bool \<times> int" where
  "CheckedAddImpl t x y =
     (let ux = static_cast (make_unsigned t) x;
          uy = static_cast (make_unsigned t) y;
          uresult = static_cast (make_unsigned t) (ux + uy) in
      (if is_signed t
       then 0 \<le> static_cast (make_signed t) ((uresult XOR ux) AND (uresult XOR uy))
       else uy \<le> uresult,
       static_cast t uresult))"

definition CheckedSubImpl :: "ctype \<Rightarrow> int \<Rightarrow> int \<Rightarrow> bool \<times> int" where
  "CheckedSubImpl t x y =
     (let ux = static_cast (make_unsigned t) x;
          uy = static_cast (make_unsigned t) y;
          uresult = static_cast (make_unsigned t) (ux - uy) in
      (if is_signed t
       then 0 \<le> static_cast (make_signed t) ((uresult XOR ux) AND (ux XOR uy))
       else y \<le> x,
       static_cast t uresult))"

definition CheckedMulImpl :: "ctype \<Rightarrow> int \<Rightarrow> int \<Rightarrow> bool \<times> int" where
  "CheckedMulImpl t x y =
     (let ux = SafeUnsignedAbs t x;
          uy = SafeUnsignedAbs t y;
          uresult = static_cast (make_unsigned t) (ux * uy);
          is_negative = (is_signed t \<and> static_cast (make_signed t) (x XOR y) < 0) in
      (uy \<le> (if \<not> is_signed t \<or> is_negative then 1 else 0) \<or>
         ux \<le> static_cast (make_unsigned t) (limit_max t + (if is_negative then 1 else 0)) div uy,
       static_cast t (if is_negative then 0 - uresult else uresult)))"

definition AddSub_promotion :: "ctype \<Rightarrow> ctype \<Rightarrow> ctype" where
  "AddSub_promotion t u =
     (let fast = FastIntegerArithmeticPromotion t u in
      if IntegerBitsPlusSign intptr_t < IntegerBitsPlusSign fast then BigEnoughPromotion t u else fast)"

definition CheckedAddOp :: "toolchain \<Rightarrow> ctype \<Rightarrow> ctype \<Rightarrow> ctype \<Rightarrow> int \<Rightarrow> int \<Rightarrow> checked_result" where
  "CheckedAddOp tc t u v x y =
     (if tc \<noteq> Portable then Some (CheckedAddFastOp v x y)
      else let p = AddSub_promotion t u in
        if \<not> IsValueInRangeForNumericType p t x \<or> \<not> IsValueInRangeForNumericType p u y
        then Some (False, 0)
        else do {
          (is_valid, presult) \<leftarrow>
            (if IsIntegerArithmeticSafe p t u
             then do { s \<leftarrow> arith (usual_arithmetic p p) (static_cast p x + static_cast p y);
                       Some (True, static_cast p s) }
             else Some (CheckedAddImpl p (static_cast p x) (static_cast p y)));
          Some (is_valid \<and> IsValueInRangeForNumericType v p presult, static_cast v presult) })"

definition CheckedSubOp :: "toolchain \<Rightarrow> ctype \<Rightarrow> ctype \<Rightarrow> ctype \<Rightarrow> int \<Rightarrow> int \<Rightarrow> checked_result" where
  "CheckedSubOp tc t u v x y =
     (if tc \<noteq> Portable then Some (CheckedSubFastOp v x y)
      else let p = AddSub_promotion t u in
        if \<not> IsValueInRangeForNumericType p t x \<or> \<not> IsValueInRangeForNumericType p u y
        then Some (False, 0)
        else do {
          (is_valid, presult) \<leftarrow>
            (if IsIntegerArithmeticSafe p t u
             then do { s \<leftarrow> arith (usual_arithmetic p p) (static_cast p x - static_cast p y);
                       Some (True, static_cast p s) }
             else Some (CheckedSubImpl p (static_cast p x) (static_cast p y)));
          Some (is_valid \<and> IsValueInRangeForNumericType v p presult, static_cast v presult) })"

definition CheckedMulOp :: "toolchain \<Rightarrow> ctype \<Rightarrow> ctype \<Rightarrow> ctype \<Rightarrow> int \<Rightarrow> int \<Rightarrow> checked_result" where
  "CheckedMulOp tc t u v x y =
     (if CheckedMulFastOp_supported tc t u then Some (CheckedMulFastOp v x y)
      else let p = FastIntegerArithmeticPromotion t u in
        if (\<not> IsValueInRangeForNumericType p t x \<or> \<not> IsValueInRangeForNumericType p u y) \<and>
           x \<noteq> 0 \<and> y \<noteq> 0
        then Some (False, 0)
        else do {
          (is_valid, presult) \<leftarrow>
            (if CheckedMulFastOp_supported tc p p
             then Some (CheckedMulFastOp p (static_cast p x) (static_cast p y))
             else if IsIntegerArithmeticSafe p t u
             then do { s \<leftarrow> arith (usual_arithmetic p p) (static_cast p x * static_cast p y);
                       Some (True, static_cast p s) }
             else Some (CheckedMulImpl p (static_cast p x) (static_cast p y)));
          Some (is_valid \<and> IsValueInRangeForNumericType v p presult, static_cast v presult) })"

text \<open>Division and remainder of two values computed in type \<open>t\<close>: not defined for a zero divisor
  and for the quotient that does not fit.\<close>

definition div_in :: "ctype \<Rightarrow> int \<Rightarrow> int \<Rightarrow> int option" where
  "div_in t x y = (if y = 0 then None else arith t (x sdiv y))"

definition mod_in :: "ctype \<Rightarrow> int \<Rightarrow> int \<Rightarrow> int option" where
  "mod_in t x y = do { _ \<leftarrow> div_in t x y; Some (x smod y) }"

definition CheckedDivOp :: "ctype \<Rightarrow> ctype \<Rightarrow> ctype \<Rightarrow> int \<Rightarrow> int \<Rightarrow> checked_result" where
  "CheckedDivOp t u v x y =
     (if y = 0 then Some (False, 0)
      else let p = BigEnoughPromotion t u in
        if is_signed t \<and> is_signed u \<and> IsTypeInRangeForNumericType t p \<and>
           static_cast p x = limit_lowest p \<and> y = static_cast u (- 1)
        then Some (False, 0)
        else if (\<not> IsValueInRangeForNumericType p t x \<or> \<not> IsValueInRangeForNumericType p u y) \<and> x \<noteq> 0
        then Some (False, 0)
        else do {
          s \<leftarrow> div_in (usual_arithmetic p p) (static_cast p x) (static_cast p y);
          let presult = static_cast p s;
          Some (IsValueInRangeForNumericType v p presult, static_cast v presult) })"

definition CheckedModOp :: "ctype \<Rightarrow> ctype \<Rightarrow> ctype \<Rightarrow> int \<Rightarrow> int \<Rightarrow> checked_result" where
  "CheckedModOp t u v x y =
     (let p = BigEnoughPromotion t u in
      if y \<noteq> 0 then
        do { s \<leftarrow> mod_in (usual_arithmetic p p) (static_cast p x) (static_cast p y);
             let presult = static_cast p s;
             Some (IsValueInRangeForNumericType v p presult, static_cast v presult) }
      else Some (False, 0))"

definition CheckedLshOp :: "ctype \<Rightarrow> ctype \<Rightarrow> ctype \<Rightarrow> int \<Rightarrow> int \<Rightarrow> checked_result" where
  "CheckedLshOp t u v x shift =
     (if \<not> IsValueNegative t x \<and> as_unsigned u shift < int (digits t) then
        do { s \<leftarrow> arith (integral_promotion (make_unsigned t))
                        (push_bit (nat shift) (as_unsigned t x));
             let result = static_cast v s;
             let c = usual_arithmetic v t;
             Some (static_cast c (drop_bit (nat shift) result) = static_cast c x, result) }
      else Some (is_signed t \<and> x = 0 \<and> as_unsigned u shift = int (digits t), 0))"

definition CheckedRshOp :: "ctype \<Rightarrow> ctype \<Rightarrow> ctype \<Rightarrow> int \<Rightarrow> int \<Rightarrow> checked_result" where
  "CheckedRshOp t u v x shift =
     (if as_unsigned u shift < int (IntegerBitsPlusSign t) then
        (let tmp = static_cast t (drop_bit (nat shift) x) in
         Some (IsValueInRangeForNumericType v t tmp, static_cast v tmp))
      else Some (False, 0))"

definition bitwise_type :: "ctype \<Rightarrow> ctype \<Rightarrow> ctype" where
  "bitwise_type t u = make_unsigned (MaxExponentPromotion t u)"

definition CheckedAndOp :: "ctype \<Rightarrow> ctype \<Rightarrow> ctype \<Rightarrow> int \<Rightarrow> int \<Rightarrow> checked_result" where
  "CheckedAndOp t u v x y =
     (let r = bitwise_type t u; tmp = static_cast r x AND static_cast r y in
      Some (IsValueInRangeForNumericType v r tmp, static_cast v tmp))"

definition CheckedOrOp :: "ctype \<Rightarrow> ctype \<Rightarrow> ctype \<Rightarrow> int \<Rightarrow> int \<Rightarrow> checked_result" where
  "CheckedOrOp t u v x y =
     (let r = bitwise_type t u; tmp = static_cast r x OR static_cast r y in
      Some (IsValueInRangeForNumericType v r tmp, static_cast v tmp))"

definition CheckedXorOp :: "ctype \<Rightarrow> ctype \<Rightarrow> ctype \<Rightarrow> int \<Rightarrow> int \<Rightarrow> checked_result" where
  "CheckedXorOp t u v x y =
     (let r = bitwise_type t u; tmp = static_cast r x XOR static_cast r y in
      Some (IsValueInRangeForNumericType v r tmp, static_cast v tmp))"

definition CheckedMaxOp :: "ctype \<Rightarrow> ctype \<Rightarrow> ctype \<Rightarrow> int \<Rightarrow> int \<Rightarrow> checked_result" where
  "CheckedMaxOp t u v x y =
     (let r = MaxExponentPromotion t u;
          tmp = (if IsGreater t u x y then static_cast r x else static_cast r y) in
      Some (IsValueInRangeForNumericType v r tmp, static_cast v tmp))"

definition CheckedMinOp :: "ctype \<Rightarrow> ctype \<Rightarrow> ctype \<Rightarrow> int \<Rightarrow> int \<Rightarrow> checked_result" where
  "CheckedMinOp t u v x y =
     (let r = LowestValuePromotion t u;
          tmp = (if IsLess t u x y then static_cast r x else static_cast r y) in
      Some (IsValueInRangeForNumericType v r tmp, static_cast v tmp))"

section \<open>Unary operations\<close>

definition NegateWrapper :: "ctype \<Rightarrow> int \<Rightarrow> int" where
  "NegateWrapper t v = static_cast t (static_cast (make_unsigned t) (0 - static_cast (make_unsigned t) v))"

definition InvertWrapper :: "ctype \<Rightarrow> int \<Rightarrow> int" where
  "InvertWrapper t v = static_cast (make_unsigned t) (NOT v)"

definition AbsWrapper :: "ctype \<Rightarrow> int \<Rightarrow> int" where
  "AbsWrapper t v = static_cast t (SafeUnsignedAbs t v)"

section \<open>Saturating operations\<close>

definition ClampedNegFastOp :: "ctype \<Rightarrow> int \<Rightarrow> int" where
  "ClampedNegFastOp t v = (let (ovf, r) = builtin_overflow t (0 - v) in if \<not> ovf then r else limit_max t)"

definition SaturatedNegWrapper :: "toolchain \<Rightarrow> bool \<Rightarrow> ctype \<Rightarrow> int \<Rightarrow> int" where
  "SaturatedNegWrapper tc must_treat_as_constexpr t v =
     (if is_signed t then
        (if must_treat_as_constexpr \<or> tc = Portable then
           (if NegateWrapper t v \<noteq> limit_lowest t then NegateWrapper t v else limit_max t)
         else ClampedNegFastOp t v)
      else 0)"

definition SaturatedAbsWrapper :: "ctype \<Rightarrow> int \<Rightarrow> int" where
  "SaturatedAbsWrapper t v =
     static_cast t
       (SafeUnsignedAbs t v -
        (if IsValueNegative t (static_cast t (SafeUnsignedAbs t v)) then 1 else 0))"

definition ClampedAddOp :: "toolchain \<Rightarrow> ctype \<Rightarrow> ctype \<Rightarrow> ctype \<Rightarrow> int \<Rightarrow> int \<Rightarrow> int option" where
  "ClampedAddOp tc t u v x y =
     (let saturated = CommonMaxOrMin v v (IsValueNegative u y) in
      do { (ok, result) \<leftarrow> CheckedAddOp tc t u v x y; Some (if ok then result else saturated) })"

definition ClampedSubOp :: "toolchain \<Rightarrow> ctype \<Rightarrow> ctype \<Rightarrow> ctype \<Rightarrow> int \<Rightarrow> int \<Rightarrow> int option" where
  "ClampedSubOp tc t u v x y =
     (let saturated = CommonMaxOrMin v v (\<not> IsValueNegative u y) in
      do { (ok, result) \<leftarrow> CheckedSubOp tc t u v x y; Some (if ok then result else saturated) })"

definition ClampedMulOp :: "toolchain \<Rightarrow> ctype \<Rightarrow> ctype \<Rightarrow> ctype \<Rightarrow> int \<Rightarrow> int \<Rightarrow> int option" where
  "ClampedMulOp tc t u v x y =
     (let saturated = CommonMaxOrMin v v (IsValueNegative t x \<noteq> IsValueNegative u y) in
      do { (ok, result) \<leftarrow> CheckedMulOp tc t u v x y; Some (if ok then result else saturated) })"

definition ClampedDivOp :: "ctype \<Rightarrow> ctype \<Rightarrow> ctype \<Rightarrow> int \<Rightarrow> int \<Rightarrow> int option" where
  "ClampedDivOp t u v x y =
     do { (ok, result) \<leftarrow> CheckedDivOp t u v x y;
          Some (if ok then result
                else if x \<noteq> 0
                then CommonMaxOrMin v v (IsValueNegative t x \<noteq> IsValueNegative u y)
                else 0) }"

definition ClampedModOp :: "ctype \<Rightarrow> ctype \<Rightarrow> ctype \<Rightarrow> int \<Rightarrow> int \<Rightarrow> int option" where
  "ClampedModOp t u v x y =
     do { (ok, result) \<leftarrow> CheckedModOp t u v x y;
          Some (if ok then result else static_cast v x) }"

definition ClampedLshOp :: "ctype \<Rightarrow> ctype \<Rightarrow> int \<Rightarrow> int \<Rightarrow> int option" where
  "ClampedLshOp t v x shift =
     (let saturated = (if x \<noteq> 0 then CommonMaxOrMin v v (IsValueNegative t x) else 0) in
      if shift < int (digits t) then
        do { s \<leftarrow> arith (integral_promotion (make_unsigned t)) (push_bit (nat shift) (as_unsigned t x));
             let result = static_cast v s;
             let c = usual_arithmetic v t;
             Some (if static_cast c (drop_bit (nat shift) result) = static_cast c x then result
                   else saturated) }
      else Some saturated)"

definition ClampedRshOp :: "bool \<Rightarrow> ctype \<Rightarrow> ctype \<Rightarrow> int \<Rightarrow> int \<Rightarrow> int" where
  "ClampedRshOp c t v x shift =
     (let saturated = static_cast v (as_unsigned v 0 - (if IsValueNegative t x then 1 else 0)) in
      if shift < int (IntegerBitsPlusSign t)
      then saturated_cast c v t (static_cast t (drop_bit (nat shift) x))
      else saturated)"

definition ClampedMaxOp :: "bool \<Rightarrow> ctype \<Rightarrow> ctype \<Rightarrow> ctype \<Rightarrow> int \<Rightarrow> int \<Rightarrow> int" where
  "ClampedMaxOp c t u v x y = (if IsGreater t u x y then saturated_cast c v t x else saturated_cast c v u y)"

definition ClampedMinOp :: "bool \<Rightarrow> ctype \<Rightarrow> ctype \<Rightarrow> ctype \<Rightarrow> int \<Rightarrow> int \<Rightarrow> int" where
  "ClampedMinOp c t u v x y = (if IsLess t u x y then saturated_cast c v t x else saturated_cast c v u y)"

section \<open>CheckedNumeric\<close>

record checked_numeric =
  cn_valid :: bool
  cn_value :: int

definition CheckedNumeric :: "ctype \<Rightarrow> ctype \<Rightarrow> int \<Rightarrow> bool \<Rightarrow> checked_numeric" where
  "CheckedNumeric t src v is_valid =
     \<lparr>cn_valid = (is_valid \<and> IsValueInRangeForNumericType t src v), cn_value = static_cast t v\<rparr>"

definition cn_IsValid :: "ctype \<Rightarrow> ctype \<Rightarrow> checked_numeric \<Rightarrow> bool" where
  "cn_IsValid dst t n = (cn_valid n \<and> IsValueInRangeForNumericType dst t (cn_value n))"

definition ValueOrDie :: "ctype \<Rightarrow> ctype \<Rightarrow> checked_numeric \<Rightarrow> int option" where
  "ValueOrDie dst t n = (if cn_IsValid dst t n then Some (static_cast dst (cn_value n)) else None)"

definition AssignIfValid :: "ctype \<Rightarrow> ctype \<Rightarrow> checked_numeric \<Rightarrow> int \<Rightarrow> bool \<times> int" where
  "AssignIfValid dst t n result =
     (if cn_IsValid dst t n then (True, static_cast dst (cn_value n)) else (False, result))"

definition ValueOrDefault :: "ctype \<Rightarrow> ctype \<Rightarrow> ctype \<Rightarrow> checked_numeric \<Rightarrow> int \<Rightarrow> int option" where
  "ValueOrDefault dst t src n default_value =
     (if cn_IsValid dst t n then Some (static_cast dst (cn_value n))
      else checked_cast dst src default_value)"

definition MathOp ::
  "(ctype \<Rightarrow> ctype \<Rightarrow> ctype \<Rightarrow> int \<Rightarrow> int \<Rightarrow> checked_result)
     \<Rightarrow> ctype \<Rightarrow> ctype \<Rightarrow> ctype \<Rightarrow> checked_numeric \<Rightarrow> checked_numeric \<Rightarrow> checked_numeric option" where
  "MathOp M t l r lhs rhs =
     do { (is_valid, result) \<leftarrow>
            (if cn_IsValid l l lhs \<and> cn_IsValid r r rhs then M l r t (cn_value lhs) (cn_value rhs)
             else Some (False, 0));
          Some (CheckedNumeric t t result is_valid) }"

definition cn_negate :: "toolchain \<Rightarrow> bool \<Rightarrow> ctype \<Rightarrow> checked_numeric \<Rightarrow> checked_numeric option" where
  "cn_negate tc must_treat_as_constexpr t n =
     (if must_treat_as_constexpr \<or> \<not> is_signed t then
        Some (CheckedNumeric t t (NegateWrapper t (cn_value n))
                (cn_IsValid t t n \<and>
                 (\<not> is_signed t \<or> NegateWrapper t (cn_value n) \<noteq> limit_lowest t)))
      else do { (success, result) \<leftarrow> CheckedSubOp tc t t t 0 (cn_value n);
                Some (CheckedNumeric t t result (cn_IsValid t t n \<and> success)) })"

definition cn_Abs :: "toolchain \<Rightarrow> bool \<Rightarrow> ctype \<Rightarrow> checked_numeric \<Rightarrow> checked_numeric option" where
  "cn_Abs tc c t n =
     (if \<not> IsValueNegative t (cn_value n) then Some n else cn_negate tc c t n)"

definition UnsignedAbs :: "ctype \<Rightarrow> checked_numeric \<Rightarrow> checked_numeric" where
  "UnsignedAbs t n =
     CheckedNumeric (make_unsigned t) (make_unsigned t) (SafeUnsignedAbs t (cn_value n)) (cn_valid n)"

section \<open>Specification\<close>

text \<open>The portable code also needs the operands and the result to fit the promoted type.\<close>

definition promotes :: "toolchain \<Rightarrow> ctype \<Rightarrow> int \<Rightarrow> int \<Rightarrow> int \<Rightarrow> bool" where
  "promotes tc p x y z \<longleftrightarrow> tc = Portable \<longrightarrow> in_range p x \<and> in_range p y \<and> in_range p z"

datatype cexpr = Lit int | Add cexpr cexpr | Sub cexpr cexpr | Mul cexpr cexpr | Div cexpr cexpr
  | Neg cexpr | Abs cexpr

primrec eval_checked :: "toolchain \<Rightarrow> bool \<Rightarrow> ctype \<Rightarrow> cexpr \<Rightarrow> checked_numeric option" where
  "eval_checked tc c t (Lit v) = Some (CheckedNumeric t intmax_t v True)"
| "eval_checked tc c t (Add a b) =
     do { l \<leftarrow> eval_checked tc c t a; r \<leftarrow> eval_checked tc c t b; MathOp (CheckedAddOp tc) t t t l r }"
| "eval_checked tc c t (Sub a b) =
     do { l \<leftarrow> eval_checked tc c t a; r \<leftarrow> eval_checked tc c t b; MathOp (CheckedSubOp tc) t t t l r }"
| "eval_checked tc c t (Mul a b) =
     do { l \<leftarrow> eval_checked tc c t a; r \<leftarrow> eval_checked tc c t b; MathOp (CheckedMulOp tc) t t t l r }"
| "eval_checked tc c t (Div a b) =
     do { l \<leftarrow> eval_checked tc c t a; r \<leftarrow> eval_checked tc c t b; MathOp CheckedDivOp t t t l r }"
| "eval_checked tc c t (Neg a) = do { n \<leftarrow> eval_checked tc c t a; cn_negate tc c t n }"
| "eval_checked tc c t (Abs a) = do { n \<leftarrow> eval_checked tc c t a; cn_Abs tc c t n }"

text \<open>The value of an expression in unbounded arithmetic, if it has one.\<close>

primrec eval_exact :: "cexpr \<Rightarrow> int option" where
  "eval_exact (Lit v) = Some v"
| "eval_exact (Add a b) = do { x \<leftarrow> eval_exact a; y \<leftarrow> eval_exact b; Some (x + y) }"
| "eval_exact (Sub a b) = do { x \<leftarrow> eval_exact a; y \<leftarrow> eval_exact b; Some (x - y) }"
| "eval_exact (Mul a b) = do { x \<leftarrow> eval_exact a; y \<leftarrow> eval_exact b; Some (x * y) }"
| "eval_exact (Div a b) =
     do { x \<leftarrow> eval_exact a; y \<leftarrow> eval_exact b; if y = 0 then None else Some (x sdiv y) }"
| "eval_exact (Neg a) = do { x \<leftarrow> eval_exact a; Some (- x) }"
| "eval_exact (Abs a) = do { x \<leftarrow> eval_exact a; Some \<bar>x\<bar> }"

definition has_value_in :: "ctype \<Rightarrow> cexpr \<Rightarrow> bool" where
  "has_value_in t e = (case eval_exact e of Some v \<Rightarrow> in_range t v | None \<Rightarrow> False)"

text \<open>No subexpression leaves the type.\<close>

primrec stays_in :: "ctype \<Rightarrow> cexpr \<Rightarrow> bool" where
  "stays_in t (Lit v) = has_value_in t (Lit v)"
| "stays_in t (Add a b) = (stays_in t a \<and> stays_in t b \<and> has_value_in t (Add a b))"
| "stays_in t (Sub a b) = (stays_in t a \<and> stays_in t b \<and> has_value_in t (Sub a b))"
| "stays_in t (Mul a b) = (stays_in t a \<and> stays_in t b \<and> has_value_in t (Mul a b))"
| "stays_in t (Div a b) = (stays_in t a \<and> stays_in t b \<and> has_value_in t (Div a b))"
| "stays_in t (Neg a) = (stays_in t a \<and> has_value_in t (Neg a))"
| "stays_in t (Abs a) = (stays_in t a \<and> has_value_in t (Abs a))"

primrec literals :: "cexpr \<Rightarrow> int set" where
  "literals (Lit v) = {v}"
| "literals (Add a b) = literals a \<union> literals b"
| "literals (Sub a b) = literals a \<union> literals b"
| "literals (Mul a b) = literals a \<union> literals b"
| "literals (Div a b) = literals a \<union> literals b"
| "literals (Neg a) = literals a"
| "literals (Abs a) = literals a"

definition agrees :: "ctype \<Rightarrow> cexpr \<Rightarrow> checked_numeric \<Rightarrow> bool" where
  "agrees t e n \<longleftrightarrow> in_range t (cn_value n) \<and> (cn_valid n \<longleftrightarrow> stays_in t e) \<and>
     (cn_valid n \<longrightarrow> eval_exact e = Some (cn_value n))"

section \<open>The portable overflow tests\<close>

lemma high_bit:
  assumes "0 < b" "0 \<le> u" "u < 2 ^ b"
  shows "bit u (b - Suc 0) \<longleftrightarrow> 2 ^ (b - Suc 0) \<le> (u :: int)"
proof -
  have p: "(2 :: int) ^ b = 2 * 2 ^ (b - Suc 0)" using assms(1) by (simp add: power_eq_if)
  show ?thesis
  proof (cases "2 ^ (b - Suc 0) \<le> u")
    case True
    then have "u div 2 ^ (b - Suc 0) = 1"
      using assms(3) p by (intro int_div_pos_eq [where r = "u - 2 ^ (b - Suc 0)"]) auto
    with True show ?thesis by (simp add: bit_iff_odd)
  next
    case False
    with assms(2) show ?thesis by (simp add: bit_iff_odd)
  qed
qed

lemma power_bits: "wf_type t \<Longrightarrow> (2 :: int) ^ bits t = 2 * 2 ^ (bits t - Suc 0)"
  by (simp add: power_eq_if)

text \<open>The sign of a pattern, read as a signed number, is its highest bit.\<close>

lemma signed_nonneg:
  assumes "wf_type t"
  shows "0 \<le> static_cast (make_signed t) u \<longleftrightarrow> \<not> bit u (bits t - Suc 0)"
proof -
  let ?b = "bits t"
  define w where "w = u mod 2 ^ ?b"
  have w: "0 \<le> w" "w < 2 ^ ?b" by (simp_all add: w_def)
  have "static_cast (make_signed t) u = static_cast (make_signed t) w"
    using static_cast_eq_iff [of "make_signed t" u w] assms by (simp add: w_def)
  also have "\<dots> = (if w < 2 ^ (?b - Suc 0) then w else w - 2 ^ ?b)"
    using assms power_bits [OF assms] w
    by (intro static_cast_eqI) (auto simp: in_range_def limit_lowest_def limit_max_def)
  finally have "0 \<le> static_cast (make_signed t) u \<longleftrightarrow> \<not> 2 ^ (?b - Suc 0) \<le> w"
    using w by auto
  also have "2 ^ (?b - Suc 0) \<le> w \<longleftrightarrow> bit w (?b - Suc 0)"
    using high_bit [of ?b w] assms w by simp
  also have "bit w (?b - Suc 0) \<longleftrightarrow> bit u (?b - Suc 0)"
    using assms by (simp add: w_def bit_take_bit_iff flip: take_bit_eq_mod)
  finally show ?thesis .
qed

lemma unsigned_high_bit:
  assumes "wf_type t" "in_range t x" "is_signed t"
  shows "bit (static_cast (make_unsigned t) x) (bits t - Suc 0) \<longleftrightarrow> x < 0"
  unfolding to_unsigned [OF assms(1,2)]
  using assms power_bits [OF assms(1)] high_bit [of "bits t" x] high_bit [of "bits t" "x + 2 ^ bits t"]
  by (auto simp: in_range_def limit_lowest_def limit_max_def)

lemma unsigned_arith:
  assumes "wf_type t"
  shows "static_cast (make_unsigned t) (static_cast (make_unsigned t) x + static_cast (make_unsigned t) y)
      = static_cast (make_unsigned t) (x + y)"
    "static_cast (make_unsigned t) (static_cast (make_unsigned t) x - static_cast (make_unsigned t) y)
      = static_cast (make_unsigned t) (x - y)"
    "static_cast (make_unsigned t) (static_cast (make_unsigned t) x * static_cast (make_unsigned t) y)
      = static_cast (make_unsigned t) (x * y)"
    "static_cast t (static_cast (make_unsigned t) x) = static_cast t x"
    "static_cast t (static_cast (make_unsigned t) x + static_cast (make_unsigned t) y)
      = static_cast t (x + y)"
    "static_cast t (static_cast (make_unsigned t) x - static_cast (make_unsigned t) y)
      = static_cast t (x - y)"
  using assms
  by (simp_all add: static_cast_eq_iff, simp_all add: static_cast_def mod_simps)

lemma static_cast_near:
  assumes "wf_type t" "- (2 ^ bits t) \<le> v" "v < 2 * 2 ^ bits t"
  shows "static_cast (make_unsigned t) v
    = (if v < 0 then v + 2 ^ bits t else if v < 2 ^ bits t then v else v - 2 ^ bits t)"
proof (rule static_cast_eqI)
  show "v mod 2 ^ bits (make_unsigned t)
    = (if v < 0 then v + 2 ^ bits t else if v < 2 ^ bits t then v else v - 2 ^ bits t)
        mod 2 ^ bits (make_unsigned t)"
    unfolding mod_eq_dvd_iff by simp
qed (use assms in \<open>auto simp: in_range_def limit_lowest_def limit_max_def\<close>)

lemma signed_limits:
  assumes "is_signed t"
  shows "limit_lowest t = - (2 ^ (bits t - Suc 0))" "limit_max t = 2 ^ (bits t - Suc 0) - 1"
  using assms by (simp_all add: limit_lowest_def limit_max_def)

lemma unsigned_limits:
  assumes "\<not> is_signed t"
  shows "limit_lowest t = 0" "limit_max t = 2 ^ bits t - 1"
  using assms by (simp_all add: limit_lowest_def limit_max_def)

lemma unsigned_result_high_bit:
  assumes "wf_type t" "- (2 ^ bits t) \<le> v" "v < 2 ^ bits t"
  shows "bit (static_cast (make_unsigned t) v) (bits t - Suc 0)
    \<longleftrightarrow> (- (2 ^ (bits t - Suc 0)) \<le> v \<and> v < 0) \<or> 2 ^ (bits t - Suc 0) \<le> v"
  using assms power_bits [OF assms(1)] high_bit [of "bits t" v] high_bit [of "bits t" "v + 2 ^ bits t"]
  by (auto simp: static_cast_near)

lemma CheckedAddImpl_correct:
  assumes "wf_type t" "in_range t x" "in_range t y"
  shows "CheckedAddImpl t x y = (in_range t (x + y), static_cast t (x + y))"
proof (cases "is_signed t")
  case True
  note p = power_bits [OF assms(1)] and l = signed_limits [OF True]
  have "- (2 ^ bits t) \<le> x + y" "x + y < 2 ^ bits t"
    using assms(2,3) p l by (auto simp: in_range_def)
  then have "0 \<le> static_cast (make_signed t)
        ((static_cast (make_unsigned t) (x + y) XOR static_cast (make_unsigned t) x) AND
         (static_cast (make_unsigned t) (x + y) XOR static_cast (make_unsigned t) y))
      \<longleftrightarrow> in_range t (x + y)"
    using assms(2,3) p l
    by (auto simp: signed_nonneg [OF assms(1)] bit_simps unsigned_result_high_bit [OF assms(1)]
        unsigned_high_bit [OF assms(1,2) True] unsigned_high_bit [OF assms(1,3) True] in_range_def)
  with True show ?thesis
    by (simp add: CheckedAddImpl_def Let_def unsigned_arith [OF assms(1)])
next
  case False
  then have u: "static_cast (make_unsigned t) x = x" "static_cast (make_unsigned t) y = y"
    using to_unsigned [OF assms(1,2)] to_unsigned [OF assms(1,3)] assms(2,3)
    by (simp_all add: in_range_def)
  have "y \<le> static_cast (make_unsigned t) (x + y) \<longleftrightarrow> in_range t (x + y)"
    using assms(2,3) unsigned_limits [OF False] static_cast_near [OF assms(1), of "x + y"]
    by (auto simp: in_range_def)
  with False u show ?thesis
    by (simp add: CheckedAddImpl_def Let_def unsigned_arith [OF assms(1)])
qed

lemma CheckedSubImpl_correct:
  assumes "wf_type t" "in_range t x" "in_range t y"
  shows "CheckedSubImpl t x y = (in_range t (x - y), static_cast t (x - y))"
proof (cases "is_signed t")
  case True
  note p = power_bits [OF assms(1)] and l = signed_limits [OF True]
  have "- (2 ^ bits t) \<le> x - y" "x - y < 2 ^ bits t"
    using assms(2,3) p l by (auto simp: in_range_def)
  then have "0 \<le> static_cast (make_signed t)
        ((static_cast (make_unsigned t) (x - y) XOR static_cast (make_unsigned t) x) AND
         (static_cast (make_unsigned t) x XOR static_cast (make_unsigned t) y))
      \<longleftrightarrow> in_range t (x - y)"
    using assms(2,3) p l
    by (auto simp: signed_nonneg [OF assms(1)] bit_simps unsigned_result_high_bit [OF assms(1)]
        unsigned_high_bit [OF assms(1,2) True] unsigned_high_bit [OF assms(1,3) True] in_range_def)
  with True show ?thesis
    by (simp add: CheckedSubImpl_def Let_def unsigned_arith [OF assms(1)])
next
  case False
  have "y \<le> x \<longleftrightarrow> in_range t (x - y)"
    using assms(2,3) unsigned_limits [OF False] by (auto simp: in_range_def)
  with False show ?thesis
    by (simp add: CheckedSubImpl_def Let_def unsigned_arith [OF assms(1)])
qed

lemma SafeUnsignedAbs_correct [simp]:
  assumes "wf_type t" "in_range t v"
  shows "SafeUnsignedAbs t v = \<bar>v\<bar>"
proof (cases "v < 0")
  case True
  then have s: "is_signed t" using assms(2) unsigned_limits(1) [of t]
    by (fastforce simp: in_range_def)
  have "static_cast (make_unsigned t) (0 - (v + 2 ^ bits t)) = - v"
    using True assms(2) power_bits [OF assms(1)] signed_limits [OF s]
    by (intro static_cast_eqI)
      (use assms(1) in \<open>auto simp: in_range_def limit_lowest_def limit_max_def mod_eq_dvd_iff\<close>)
  with True s show ?thesis
    by (simp add: SafeUnsignedAbs_def IsValueNegative_def to_unsigned [OF assms])
next
  case False
  with assms show ?thesis
    by (simp add: SafeUnsignedAbs_def IsValueNegative_def to_unsigned [OF assms])
qed

lemma le_div_iff: "0 < c \<Longrightarrow> a \<le> M div c \<longleftrightarrow> a * c \<le> (M :: int)"
proof
  assume c: "0 < c" and "a \<le> M div c"
  then have "a * c \<le> M div c * c" by simp
  also have "\<dots> \<le> M" using c by (metis minus_mod_eq_div_mult diff_le_eq le_add_same_cancel1 pos_mod_sign)
  finally show "a * c \<le> M" .
next
  assume c: "0 < c" and "a * c \<le> M"
  from zdiv_mono1 [OF this(2) c] c show "a \<le> M div c" by simp
qed

lemma signed_bit:
  assumes "wf_type t" "is_signed t" "in_range t x"
  shows "bit x (bits t - Suc 0) \<longleftrightarrow> x < 0"
proof -
  have "make_signed t = t" using assms(2) by (cases t) (simp add: make_signed_def)
  with signed_nonneg [OF assms(1), of x] assms have "0 \<le> x \<longleftrightarrow> \<not> bit x (bits t - Suc 0)" by simp
  then show ?thesis by linarith
qed

lemma CheckedMulImpl_correct:
  assumes "wf_type t" "in_range t x" "in_range t y"
  shows "CheckedMulImpl t x y = (in_range t (x * y), static_cast t (x * y))"
proof -
  define neg where "neg \<longleftrightarrow> is_signed t \<and> static_cast (make_signed t) (x XOR y) < 0"
  have neg: "neg \<longleftrightarrow> (x < 0) \<noteq> (y < 0)"
  proof (cases "is_signed t")
    case True
    have "static_cast (make_signed t) (x XOR y) < 0 \<longleftrightarrow> bit (x XOR y) (bits t - Suc 0)"
      using signed_nonneg [OF assms(1), of "x XOR y"] by linarith
    with True show ?thesis
      by (simp add: neg_def bit_simps signed_bit [OF assms(1) True assms(2)]
          signed_bit [OF assms(1) True assms(3)])
  next
    case False
    then show ?thesis
      using assms(2,3) unsigned_limits [OF False] by (auto simp: neg_def in_range_def)
  qed
  have prod: "x * y = (if neg then - (\<bar>x\<bar> * \<bar>y\<bar>) else \<bar>x\<bar> * \<bar>y\<bar>)"
    unfolding neg by (auto simp: abs_if)
  let ?M = "limit_max t + (if neg then 1 else 0)"
  have "- 1 < (2 :: int) ^ (bits t - Suc 0)" by (rule less_trans [of _ 0]) simp_all
  then have M: "static_cast (make_unsigned t) ?M = ?M"
    using assms(1) power_bits [OF assms(1)] neg_def
    by (intro static_cast_id) (auto simp: in_range_def limit_lowest_def limit_max_def)
  define a where "a = \<bar>x\<bar> * \<bar>y\<bar>"
  have "0 \<le> a" by (simp add: a_def)
  moreover have "limit_lowest t = - limit_max t - 1" if neg
    using that signed_limits [of t] by (simp add: neg_def)
  ultimately have r: "in_range t (x * y) \<longleftrightarrow> \<bar>x\<bar> * \<bar>y\<bar> \<le> ?M"
    unfolding prod a_def [symmetric] in_range_def using limit_signs [of t] by (cases neg; simp; linarith)
  have "\<bar>y\<bar> \<le> (if \<not> is_signed t \<or> neg then 1 else 0) \<or> \<bar>x\<bar> \<le> ?M div \<bar>y\<bar> \<longleftrightarrow> in_range t (x * y)"
  proof (cases "\<bar>y\<bar> \<le> (if \<not> is_signed t \<or> neg then 1 else 0)")
    case True
    then consider "y = 0" | "\<bar>y\<bar> = 1" "\<not> is_signed t \<or> neg" by (fastforce split: if_splits)
    then have "in_range t (x * y)"
    proof cases
      case 1
      then show ?thesis by (simp add: in_range_def)
    next
      case 2
      have "\<bar>x\<bar> \<le> ?M"
        using assms(2) 2(2) signed_limits [of t] unsigned_limits [of t]
        by (cases "is_signed t") (auto simp: in_range_def)
      with 2(1) r show ?thesis by simp
    qed
    with True show ?thesis by simp
  next
    case False
    then have "0 < \<bar>y\<bar>" by (auto split: if_splits)
    from le_div_iff [OF this, of "\<bar>x\<bar>" ?M] False r show ?thesis by simp
  qed
  moreover have "static_cast t (if neg then 0 - static_cast (make_unsigned t) (\<bar>x\<bar> * \<bar>y\<bar>)
      else static_cast (make_unsigned t) (\<bar>x\<bar> * \<bar>y\<bar>)) = static_cast t (x * y)"
    using prod assms(1) static_cast_eq_iff [of t "- static_cast (make_unsigned t) (\<bar>x\<bar> * \<bar>y\<bar>)"]
    by (simp add: unsigned_arith(4) [OF assms(1)] mod_simps static_cast_def [of "make_unsigned t"]
        static_cast_eq_iff)
  ultimately show ?thesis
    using M assms by (simp add: CheckedMulImpl_def Let_def flip: neg_def)
qed

section \<open>Checked operations\<close>

lemma IntegerBits [simp]: "wf_type t \<Longrightarrow> IntegerBitsPlusSign t = bits t"
  by (simp add: IntegerBitsPlusSign_def digits_def)

lemma wf_promotions [simp]:
  assumes "wf_type t" "wf_type u"
  shows "wf_type (MaxExponentPromotion t u)" "wf_type (LowestValuePromotion t u)"
    "wf_type (BigEnoughPromotion t u)" "wf_type (FastIntegerArithmeticPromotion t u)"
    "AddSub_promotion t u = FastIntegerArithmeticPromotion t u"
proof -
  show m: "wf_type (MaxExponentPromotion t u)" "wf_type (LowestValuePromotion t u)"
    using assms by (auto simp: MaxExponentPromotion_def LowestValuePromotion_def)
  have tw: "wf_type (TwiceWiderInteger w s)" if "wf_type w" "bits w \<noteq> 64" for w s
    using that by (auto simp: TwiceWiderInteger_def wf_type_def IntegerBitsPlusSign_def digits_def)
  show b: "wf_type (BigEnoughPromotion t u)"
    using m tw by (auto simp: BigEnoughPromotion_def big_is_intmax_def)
  show f: "wf_type (FastIntegerArithmeticPromotion t u)"
    using m(1) b tw [OF m(1)]
    by (auto simp: FastIntegerArithmeticPromotion_def IsIntegerArithmeticSafe_def split: if_splits)
  then show "AddSub_promotion t u = FastIntegerArithmeticPromotion t u"
    by (auto simp: AddSub_promotion_def Let_def wf_type_def IntegerBitsPlusSign_def digits_def)
qed

text \<open>When the promoted type is twice as wide, sums, differences and products of the operands fit.\<close>

lemma type_magnitude:
  assumes "wf_type t" "in_range t x"
  shows "\<bar>x\<bar> < 2 ^ bits t" "is_signed t \<Longrightarrow> \<bar>x\<bar> \<le> 2 ^ (bits t - Suc 0)" "\<not> is_signed t \<Longrightarrow> 0 \<le> x"
  using assms power_bits [OF assms(1)]
  by (auto simp: in_range_def limit_lowest_def limit_max_def split: if_splits)

lemma safe_sum:
  assumes "wf_type p" "wf_type t" "wf_type u" "IsIntegerArithmeticSafe p t u" "in_range t x" "in_range u y"
  shows "\<bar>x\<bar> + \<bar>y\<bar> \<le> limit_max p"
proof -
  have le: "2 * bits t \<le> bits p" "2 * bits u \<le> bits p"
    using assms(1-4) by (auto simp: IsIntegerArithmeticSafe_def)
  have "b \<in> {8, 16, 32, 64} \<Longrightarrow> 2 * b \<le> n \<Longrightarrow> 4 * 2 ^ b \<le> (2 :: int) ^ n" for b n :: nat
    using power_increasing [of "2 + b" n "2 :: int"] by (auto simp: power_add)
  from this [OF _ le(1)] this [OF _ le(2)] assms(2,3)
  have "4 * 2 ^ bits t \<le> (2 :: int) ^ bits p" "4 * 2 ^ bits u \<le> (2 :: int) ^ bits p"
    by (auto simp: wf_type_def)
  with type_magnitude(1) [OF assms(2,5)] type_magnitude(1) [OF assms(3,6)] power_bits [OF assms(1)]
  show ?thesis by (auto simp: limit_max_def)
qed

lemma Fast_sign:
  "is_signed (FastIntegerArithmeticPromotion t u) \<Longrightarrow> is_signed t \<or> is_signed u"
  by (auto simp: FastIntegerArithmeticPromotion_def BigEnoughPromotion_def TwiceWiderInteger_def
      MaxExponentPromotion_def split: if_splits)

lemma safe_product:
  assumes "wf_type p" "wf_type t" "wf_type u" "IsIntegerArithmeticSafe p t u" "in_range t x" "in_range u y"
    and "is_signed p \<Longrightarrow> is_signed t \<or> is_signed u"
  shows "in_range p (x * y)"
proof -
  have le: "bits t + bits u \<le> bits p" "is_signed t \<or> is_signed u \<Longrightarrow> is_signed p"
    using assms(1-4) by (auto simp: IsIntegerArithmeticSafe_def)
  note mt = type_magnitude [OF assms(2,5)] and mu = type_magnitude [OF assms(3,6)]
  have pw: "(2 :: int) ^ bits t * 2 ^ bits u \<le> 2 ^ bits p"
    using power_increasing [OF le(1), of "2 :: int"] by (simp add: power_add)
  show ?thesis
  proof (cases "is_signed p")
    case True
    have "2 * (\<bar>x\<bar> * \<bar>y\<bar>) < 2 ^ bits t * 2 ^ bits u"
    proof (cases "is_signed t")
      case s: True
      have "(2 * \<bar>x\<bar>) * \<bar>y\<bar> \<le> 2 ^ bits t * \<bar>y\<bar>"
        using mt(2) [OF s] power_bits [OF assms(2)] by (intro mult_right_mono) auto
      also have "\<dots> < 2 ^ bits t * 2 ^ bits u" using mu(1) by simp
      finally show ?thesis by (simp add: mult.assoc)
    next
      case False
      with assms(7) True have s: "is_signed u" by simp
      have "\<bar>x\<bar> * (2 * \<bar>y\<bar>) \<le> \<bar>x\<bar> * 2 ^ bits u"
        using mu(2) [OF s] power_bits [OF assms(3)] by (intro mult_left_mono) auto
      also have "\<dots> < 2 ^ bits t * 2 ^ bits u" using mt(1) by simp
      finally show ?thesis by (simp add: mult_ac)
    qed
    then have "\<bar>x * y\<bar> < 2 ^ (bits p - Suc 0)"
      using pw power_bits [OF assms(1)] by (simp add: abs_mult)
    with True show ?thesis by (auto simp: in_range_def limit_lowest_def limit_max_def)
  next
    case False
    with le(2) mt(3) mu(3) have "0 \<le> x" "0 \<le> y" by auto
    with mt(1) mu(1) have "x * y < 2 ^ bits t * 2 ^ bits u" by (intro mult_strict_mono) auto
    with pw False \<open>0 \<le> x\<close> \<open>0 \<le> y\<close> show ?thesis
      by (auto simp: in_range_def limit_lowest_def limit_max_def)
  qed
qed

lemma usual_arithmetic_same [simp]: "usual_arithmetic p p = integral_promotion p"
  by (simp add: usual_arithmetic_def Let_def)

lemma integral_promotion_range:
  "wf_type p \<Longrightarrow> in_range p v \<Longrightarrow> in_range (integral_promotion p) v"
  using usual_arithmetic_common [of p p v] by simp

lemma wf_integral_promotion [simp]: "wf_type p \<Longrightarrow> wf_type (integral_promotion p)"
  by (auto simp: integral_promotion_def)

lemma arith_promoted:
  assumes "wf_type p" "in_range p v"
  shows "arith (integral_promotion p) v = Some v"
  using integral_promotion_range [OF assms] assms(1) by (simp add: arith_def)

lemma limit_promoted: "wf_type p \<Longrightarrow> limit_max p \<le> limit_max (integral_promotion p)"
  by (meson in_range_def limits_in_range(2) integral_promotion_range)

lemma magnitude_in_range:
  "\<bar>z\<bar> \<le> limit_max p \<Longrightarrow> (\<not> is_signed p \<Longrightarrow> 0 \<le> z) \<Longrightarrow> in_range p z"
  using signed_limits [of p] unsigned_limits [of p]
  by (cases "is_signed p") (auto simp: in_range_def abs_le_iff)

lemma arith_magnitude:
  assumes "wf_type p" "\<bar>v\<bar> \<le> limit_max p"
  obtains s where "arith (integral_promotion p) v = Some s" "static_cast p s = static_cast p v"
proof (cases "is_signed (integral_promotion p)")
  case True
  then have "in_range (integral_promotion p) v"
    using assms limit_promoted [OF assms(1)] signed_limits [OF True] by (auto simp: in_range_def)
  with that [of v] True show ?thesis by (simp add: arith_def)
next
  case False
  then have p: "integral_promotion p = p" "make_unsigned p = p"
    by (auto simp: integral_promotion_def make_unsigned_def split: if_splits) (metis ctype.collapse)+
  with that [of "static_cast p v"] False assms(1) show ?thesis
    by (simp add: arith_def)
qed

lemma CheckedAddOp_correct:
  assumes "wf_type t" "wf_type u" "wf_type v" "in_range t x" "in_range u y"
  shows "\<exists>r. CheckedAddOp tc t u v x y
      = Some (in_range v (x + y) \<and> promotes tc (FastIntegerArithmeticPromotion t u) x y (x + y), r)
    \<and> (in_range v (x + y) \<longrightarrow> promotes tc (FastIntegerArithmeticPromotion t u) x y (x + y) \<longrightarrow> r = x + y)"
proof (cases "tc = Portable")
  case False
  with assms show ?thesis
    by (auto simp: CheckedAddOp_def CheckedAddFastOp_def builtin_overflow_def promotes_def)
next
  case P: True
  let ?p = "FastIntegerArithmeticPromotion t u"
  have p: "wf_type ?p" using assms by simp
  show ?thesis
  proof (cases "in_range ?p x \<and> in_range ?p y")
    case False
    with P assms show ?thesis by (auto simp: CheckedAddOp_def promotes_def Let_def)
  next
    case r: True
    show ?thesis
    proof (cases "IsIntegerArithmeticSafe ?p t u")
      case True
      note m = safe_sum [OF p assms(1,2) True assms(4,5)]
      have "in_range ?p (x + y)"
        using r m by (intro magnitude_in_range) (auto simp: in_range_def)
      with True P r p assms arith_promoted [OF p] show ?thesis
        by (auto simp: CheckedAddOp_def promotes_def Let_def)
    next
      case False
      show ?thesis
      proof (cases "in_range ?p (x + y)")
        case True
        with False P r p assms show ?thesis
          by (auto simp: CheckedAddOp_def promotes_def Let_def CheckedAddImpl_correct)
      next
        case o: False
        with False P r p assms show ?thesis
          by (auto simp: CheckedAddOp_def promotes_def Let_def CheckedAddImpl_correct)
      qed
    qed
  qed
qed

text \<open>A difference that wrapped around in an unsigned promoted type is too big for the operand types.\<close>

lemma wrapped_difference:
  assumes "wf_type p" "wf_type v" "2 * bits v \<le> bits p" "in_range p x" "in_range p y"
    and "\<bar>x\<bar> + \<bar>y\<bar> \<le> limit_max p" "\<bar>y\<bar> < 2 ^ (bits p div 2)"
  shows "in_range v (static_cast p (x - y)) \<longleftrightarrow> in_range v (x - y) \<and> in_range p (x - y)"
proof (cases "in_range p (x - y)")
  case True
  with assms(1) show ?thesis by simp
next
  case False
  then have u: "\<not> is_signed p" "x - y < 0"
    using magnitude_in_range [of "x - y" p] assms(6) by linarith+
  have "static_cast p (x - y) = x - y + 2 ^ bits p"
  proof (rule static_cast_eqI)
    show "in_range p (x - y + 2 ^ bits p)"
      using u assms(4,5) unsigned_limits [OF u(1)] by (auto simp: in_range_def)
  qed (use assms(1) in auto)
  moreover have "(2 :: int) ^ Suc (bits p div 2) \<le> 2 ^ bits p"
    using assms(1) by (intro power_increasing) (auto simp: wf_type_def)
  then have "2 * (2 :: int) ^ (bits p div 2) \<le> 2 ^ bits p" by simp
  moreover have "(2 :: int) ^ bits v \<le> 2 ^ (bits p div 2)"
    using assms(3) by (intro power_increasing) auto
  with type_magnitude(1) [OF assms(2) limits_in_range(2)] have "limit_max v < 2 ^ (bits p div 2)"
    by linarith
  moreover have "0 \<le> x" using u(1) assms(4) by (auto simp: in_range_def)
  ultimately show ?thesis using False assms(7) by (auto simp: in_range_def)
qed

lemma CheckedSubOp_correct:
  assumes "wf_type t" "wf_type u" "v = t \<or> v = u" "in_range t x" "in_range u y"
  shows "\<exists>r. CheckedSubOp tc t u v x y
      = Some (in_range v (x - y) \<and> promotes tc (FastIntegerArithmeticPromotion t u) x y (x - y), r)
    \<and> (in_range v (x - y) \<longrightarrow> promotes tc (FastIntegerArithmeticPromotion t u) x y (x - y) \<longrightarrow> r = x - y)"
proof (cases "tc = Portable")
  case False
  with assms show ?thesis
    by (auto simp: CheckedSubOp_def CheckedSubFastOp_def builtin_overflow_def promotes_def)
next
  case P: True
  let ?p = "FastIntegerArithmeticPromotion t u"
  have p: "wf_type ?p" and v: "wf_type v" using assms by auto
  show ?thesis
  proof (cases "in_range ?p x \<and> in_range ?p y")
    case False
    with P assms v show ?thesis by (auto simp: CheckedSubOp_def promotes_def Let_def)
  next
    case r: True
    show ?thesis
    proof (cases "IsIntegerArithmeticSafe ?p t u")
      case True
      note m = safe_sum [OF p assms(1,2) True assms(4,5)]
      then have "\<bar>x - y\<bar> \<le> limit_max ?p" by linarith
      from arith_magnitude [OF p this] obtain s where
        s: "arith (integral_promotion ?p) (x - y) = Some s" "static_cast ?p s = static_cast ?p (x - y)" .
      have le: "2 * bits t \<le> bits ?p" "2 * bits u \<le> bits ?p"
        using True p assms(1,2) by (auto simp: IsIntegerArithmeticSafe_def)
      have "(2 :: int) ^ bits u \<le> 2 ^ (bits ?p div 2)" using le(2) by (intro power_increasing) auto
      with type_magnitude(1) [OF assms(2,5)] have "\<bar>y\<bar> < 2 ^ (bits ?p div 2)" by linarith
      from wrapped_difference [OF p v _ _ _ m this] le assms(3) r
      have w: "in_range v (static_cast ?p (x - y)) \<longleftrightarrow> in_range v (x - y) \<and> in_range ?p (x - y)"
        by blast
      from True P r p v assms s w show ?thesis
        by (auto simp: CheckedSubOp_def promotes_def Let_def)
    next
      case False
      with P r p v assms show ?thesis
        by (cases "in_range ?p (x - y)")
          (auto simp: CheckedSubOp_def promotes_def Let_def CheckedSubImpl_correct)
    qed
  qed
qed

lemma CheckedMulOp_correct:
  assumes "wf_type t" "wf_type u" "wf_type v" "in_range t x" "in_range u y"
  defines "p \<equiv> FastIntegerArithmeticPromotion t u"
  shows "\<exists>r ok. CheckedMulOp tc t u v x y = Some (ok, r)
    \<and> (ok \<longrightarrow> in_range v (x * y) \<and> r = x * y)
    \<and> (in_range v (x * y) \<longrightarrow> in_range p x \<longrightarrow> in_range p y \<longrightarrow> in_range p (x * y) \<longrightarrow> ok)"
proof (cases "CheckedMulFastOp_supported tc t u")
  case True
  with assms show ?thesis
    by (auto simp: CheckedMulOp_def CheckedMulFastOp_def builtin_overflow_def)
next
  case F: False
  have p: "wf_type p" using assms by simp
  show ?thesis
  proof (cases "in_range p x \<and> in_range p y \<or> x = 0 \<or> y = 0")
    case False
    with F assms p show ?thesis by (auto simp: CheckedMulOp_def Let_def)
  next
    case r: True
    then have c: "static_cast p x * static_cast p y = x * y"
      using p by (auto simp: static_cast_id limit_signs in_range_def)
    let ?R = "if CheckedMulFastOp_supported tc p p
        then Some (CheckedMulFastOp p (static_cast p x) (static_cast p y))
        else if IsIntegerArithmeticSafe p t u
        then do { s \<leftarrow> arith (usual_arithmetic p p) (static_cast p x * static_cast p y);
                  Some (True, static_cast p s) }
        else Some (CheckedMulImpl p (static_cast p x) (static_cast p y))"
    have "in_range p (x * y)" if "IsIntegerArithmeticSafe p t u"
      using safe_product [OF p assms(1,2) that assms(4,5)] Fast_sign [of t u]
      by (simp add: p_def)
    then have R: "?R = Some (in_range p (x * y), static_cast p (x * y))"
      using p c arith_promoted [OF p] CheckedMulImpl_correct [OF p, of "static_cast p x" "static_cast p y"]
      by (simp add: CheckedMulFastOp_def builtin_overflow_def)
    have "CheckedMulOp tc t u v x y
        = do { (is_valid, presult) \<leftarrow> ?R;
               Some (is_valid \<and> IsValueInRangeForNumericType v p presult, static_cast v presult) }"
      using F r assms(1,2,4,5) p unfolding CheckedMulOp_def Let_def p_def [symmetric] by auto
    then show ?thesis
      unfolding R using p assms(3) by (cases "in_range p (x * y)") auto
  qed
qed

section \<open>Division, remainder and shifts\<close>

lemma bits_BigEnough:
  assumes "wf_type t" "wf_type u"
  shows "bits t \<le> bits (BigEnoughPromotion t u)" "bits u \<le> bits (BigEnoughPromotion t u)"
  using assms
  by (auto simp: BigEnoughPromotion_def MaxExponentPromotion_def TwiceWiderInteger_def MaxExponent_def
      digits_def IntegerBitsPlusSign_def wf_type_def split: if_splits)

lemma static_cast_nonzero:
  assumes "wf_type p" "wf_type u" "bits u \<le> bits p" "in_range u y" "y \<noteq> 0"
  shows "static_cast p y \<noteq> 0"
proof
  assume "static_cast p y = 0"
  then have "y mod 2 ^ bits p = 0"
    using static_cast_eq_iff [of p y 0] assms(1) by (simp add: static_cast_id in_range_def)
  moreover have "\<bar>y\<bar> < 2 ^ bits p"
    using type_magnitude(1) [OF assms(2,4)] power_increasing [OF assms(3), of "2 :: int"] by linarith
  ultimately show False
    using assms(5) by (metis dvd_imp_le_int abs_power2 mod_0_imp_dvd not_le abs_numeral power_abs)
qed

lemma int_div_le: "0 \<le> a \<Longrightarrow> 0 \<le> b \<Longrightarrow> a div b \<le> (a :: int)"
  using zdiv_mono2 [of a 1 b] by (cases "b = 0") auto

lemma sdiv_magnitude: "\<bar>x sdiv y\<bar> \<le> \<bar>x :: int\<bar>"
proof -
  have "\<bar>x\<bar> div \<bar>y\<bar> \<le> \<bar>x\<bar>" by (simp add: int_div_le)
  moreover have "0 \<le> \<bar>x\<bar> div \<bar>y\<bar>" by (simp add: div_int_pos_iff)
  ultimately show ?thesis
    by (auto simp: signed_divide_int_def abs_mult abs_sgn_eq)
qed

lemma sdiv_in_range:
  assumes "wf_type p" "in_range p x" "in_range p y" "y \<noteq> 0" "\<not> (x = limit_lowest p \<and> y = - 1)"
  shows "in_range p (x sdiv y)"
proof (cases "is_signed p")
  case False
  with assms have "0 \<le> x" "0 \<le> y" by (auto simp: in_range_def)
  then have "x sdiv y = x div y" by (auto simp: signed_divide_int_def sgn_if)
  moreover have "0 \<le> x div y" "x div y \<le> x"
    using \<open>0 \<le> x\<close> \<open>0 \<le> y\<close> assms(4) by (auto simp: div_int_pos_iff int_div_le)
  ultimately show ?thesis using assms(2) False by (auto simp: in_range_def)
next
  case True
  note l = signed_limits [OF True]
  have le: "\<bar>x sdiv y\<bar> \<le> \<bar>x\<bar>" by (rule sdiv_magnitude)
  show ?thesis
  proof (cases "x = limit_lowest p")
    case False
    with assms(2) le l show ?thesis by (auto simp: in_range_def)
  next
    case low: True
    with assms(5) have y: "y \<noteq> - 1" by simp
    have x: "x < 0" using low l by simp
    show ?thesis
    proof (cases "0 < y")
      case pos: True
      then have "x sdiv y = - (\<bar>x\<bar> div \<bar>y\<bar>)" using x by (simp add: signed_divide_int_def)
      moreover have "0 \<le> \<bar>x\<bar> div \<bar>y\<bar>" using pos by (simp add: div_int_pos_iff)
      ultimately have "x sdiv y \<le> 0" "- \<bar>x\<bar> \<le> x sdiv y" using le by linarith+
      with low x limit_signs(2) [of p] show ?thesis unfolding in_range_def by linarith
    next
      case False
      with y assms(4) have "2 \<le> \<bar>y\<bar>" by linarith
      then have "\<bar>x\<bar> div \<bar>y\<bar> < \<bar>x\<bar>" using x by (intro int_div_less_self) auto
      moreover have "x sdiv y = \<bar>x\<bar> div \<bar>y\<bar>" using x False assms(4) by (simp add: signed_divide_int_def)
      moreover have "0 \<le> \<bar>x\<bar> div \<bar>y\<bar>" using \<open>2 \<le> \<bar>y\<bar>\<close> by (simp add: div_int_pos_iff)
      ultimately show ?thesis using low l by (auto simp: in_range_def)
    qed
  qed
qed

lemma CheckedDivOp_correct:
  assumes "wf_type t" "wf_type u" "wf_type v" "in_range t x" "in_range u y"
  shows "\<exists>ok r. CheckedDivOp t u v x y = Some (ok, r)
    \<and> (ok \<longrightarrow> y \<noteq> 0 \<and> r = x sdiv y \<and> in_range v (x sdiv y))"
proof (cases "y = 0")
  case True
  then show ?thesis by (intro exI [of _ False]) (simp add: CheckedDivOp_def)
next
  case y: False
  define p where "p = BigEnoughPromotion t u"
  have p: "wf_type p" using assms by (simp add: p_def)
  let ?guard = "is_signed t \<and> is_signed u \<and> IsTypeInRangeForNumericType t p \<and>
           static_cast p x = limit_lowest p \<and> y = static_cast u (- 1)"
  show ?thesis
  proof (cases "?guard \<or> \<not> (in_range p x \<and> in_range p y) \<and> x \<noteq> 0")
    case True
    with y p assms show ?thesis by (auto simp: CheckedDivOp_def Let_def simp flip: p_def)
  next
    case g: False
    have ny: "static_cast p y \<noteq> 0"
      using static_cast_nonzero [OF p assms(2) _ assms(5) y] bits_BigEnough(2) [OF assms(1,2)]
      by (simp add: p_def)
    have "in_range p (x sdiv y) \<and> static_cast p x sdiv static_cast p y = x sdiv y"
    proof (cases "in_range p x \<and> in_range p y")
      case r: True
      have "\<not> (x = limit_lowest p \<and> y = - 1)"
      proof
        assume low: "x = limit_lowest p \<and> y = - 1"
        then have s: "is_signed p" using r unsigned_limits [of p] by (fastforce simp: in_range_def)
        with low have "is_signed t" using assms(4) signed_limits [OF s] unsigned_limits [of t]
          by (fastforce simp: in_range_def)
        moreover have "is_signed u" using low assms(5) unsigned_limits [of u]
          by (fastforce simp: in_range_def)
        moreover have "IsTypeInRangeForNumericType t p"
        proof -
          have "(2 :: int) ^ (bits p - Suc 0) \<le> 2 ^ (bits t - Suc 0)"
            using low assms(4) signed_limits [OF s] signed_limits [OF \<open>is_signed t\<close>]
            by (auto simp: in_range_def)
          then have "bits p - Suc 0 \<le> bits t - Suc 0" by simp
          then show ?thesis using s \<open>is_signed t\<close>
            by (simp add: IsTypeInRangeForNumericType_def StaticDstRangeRelationToSrcRange_def
                MaxExponent_def digits_def)
        qed
        ultimately show False using g r low p assms(2,5) by simp
      qed
      with sdiv_in_range [OF p _ _ y] r p show ?thesis by simp
    next
      case False
      with g have "x = 0" by simp
      with p show ?thesis by (simp add: signed_divide_int_def in_range_def static_cast_id)
    qed
    then have q: "in_range p (x sdiv y)" "static_cast p x sdiv static_cast p y = x sdiv y" by auto
    have "CheckedDivOp t u v x y
        = Some (in_range v (x sdiv y), static_cast v (x sdiv y))"
      using g y p assms ny q arith_promoted [OF p q(1)]
      by (auto simp: CheckedDivOp_def Let_def div_in_def simp flip: p_def)
    with assms(3) y show ?thesis by auto
  qed
qed

text \<open>For operands and result of one type the checks are exact.\<close>

lemma Fast_same:
  assumes "wf_type t"
  shows "IsTypeInRangeForNumericType (FastIntegerArithmeticPromotion t t) t"
  using assms
  by (cases rule: wf_typeE)
    (auto simp: FastIntegerArithmeticPromotion_def BigEnoughPromotion_def big_is_max_exponent_def
      MaxExponentPromotion_def TwiceWiderInteger_def IsIntegerArithmeticSafe_def type_defs)

lemma promotes_same:
  "wf_type t \<Longrightarrow> in_range t x \<Longrightarrow> in_range t y \<Longrightarrow> in_range t z \<Longrightarrow>
     promotes tc (FastIntegerArithmeticPromotion t t) x y z"
  using type_contained [OF _ _ Fast_same] by (simp add: promotes_def)

lemma CheckedOps_same_type:
  assumes "wf_type t" "in_range t x" "in_range t y"
  shows "\<exists>r. CheckedAddOp tc t t t x y = Some (in_range t (x + y), r) \<and> (in_range t (x + y) \<longrightarrow> r = x + y)"
    "\<exists>r. CheckedSubOp tc t t t x y = Some (in_range t (x - y), r) \<and> (in_range t (x - y) \<longrightarrow> r = x - y)"
    "\<exists>r. CheckedMulOp tc t t t x y = Some (in_range t (x * y), r) \<and> (in_range t (x * y) \<longrightarrow> r = x * y)"
proof -
  show "\<exists>r. CheckedAddOp tc t t t x y = Some (in_range t (x + y), r) \<and> (in_range t (x + y) \<longrightarrow> r = x + y)"
    using CheckedAddOp_correct [OF assms(1,1,1,2,3), of tc] promotes_same [OF assms]
    by (cases "in_range t (x + y)") auto
  show "\<exists>r. CheckedSubOp tc t t t x y = Some (in_range t (x - y), r) \<and> (in_range t (x - y) \<longrightarrow> r = x - y)"
    using CheckedSubOp_correct [OF assms(1,1) _ assms(2,3), of t tc] promotes_same [OF assms]
    by (cases "in_range t (x - y)") auto
  show "\<exists>r. CheckedMulOp tc t t t x y = Some (in_range t (x * y), r) \<and> (in_range t (x * y) \<longrightarrow> r = x * y)"
    using CheckedMulOp_correct [OF assms(1,1,1,2,3), of tc] type_contained [OF _ _ Fast_same] assms
    by (cases "in_range t (x * y)") auto
qed

lemma CommonMaxOrMin_same [simp]:
  "wf_type t \<Longrightarrow> CommonMaxOrMin t t b = (if b then limit_lowest t else limit_max t)"
  by (simp add: CommonMaxOrMin_def)

lemma clamp_in_range [simp]: "in_range t v \<Longrightarrow> clamp t v = v"
  by (simp add: clamp_def in_range_def)

lemma clamp_out_of_range:
  assumes "\<not> in_range t z"
  shows "clamp t z = (if z < 0 then limit_lowest t else limit_max t)"
proof -
  have "\<not> (lo \<le> z \<and> z \<le> hi) \<Longrightarrow> lo \<le> 0 \<Longrightarrow> 0 \<le> hi \<Longrightarrow>
      (if z < lo then lo else if hi < z then hi else z) = (if z < 0 then lo else hi)" for lo hi
    by auto
  from this [OF assms [unfolded in_range_def] limit_signs] show ?thesis unfolding clamp_def .
qed

lemma ClampedOps_same_type:
  assumes "wf_type t" "in_range t x" "in_range t y"
  shows "ClampedAddOp tc t t t x y = Some (clamp t (x + y))"
    "ClampedSubOp tc t t t x y = Some (clamp t (x - y))"
    "ClampedMulOp tc t t t x y = Some (clamp t (x * y))"
proof -
  obtain r1 where 1: "CheckedAddOp tc t t t x y = Some (in_range t (x + y), r1)"
    "in_range t (x + y) \<longrightarrow> r1 = x + y" using CheckedOps_same_type(1) [OF assms] by metis
  obtain r2 where 2: "CheckedSubOp tc t t t x y = Some (in_range t (x - y), r2)"
    "in_range t (x - y) \<longrightarrow> r2 = x - y" using CheckedOps_same_type(2) [OF assms] by metis
  obtain r3 where 3: "CheckedMulOp tc t t t x y = Some (in_range t (x * y), r3)"
    "in_range t (x * y) \<longrightarrow> r3 = x * y" using CheckedOps_same_type(3) [OF assms] by metis
  have s: "0 \<le> x \<and> 0 \<le> y" if "\<not> is_signed t" using assms(2,3) that by (simp add: in_range_def)
  show "ClampedAddOp tc t t t x y = Some (clamp t (x + y))"
    using 1 assms s by (cases "in_range t (x + y)")
      (auto simp: ClampedAddOp_def IsValueNegative_def clamp_def in_range_def)
  show "ClampedSubOp tc t t t x y = Some (clamp t (x - y))"
    using 2 assms s by (cases "in_range t (x - y)")
      (auto simp: ClampedSubOp_def IsValueNegative_def clamp_def in_range_def)
  show "ClampedMulOp tc t t t x y = Some (clamp t (x * y))"
  proof (cases "in_range t (x * y)")
    case True
    with 3 show ?thesis by (simp add: ClampedMulOp_def)
  next
    case False
    then have "x * y \<noteq> 0" by (auto simp: in_range_def)
    then have "IsValueNegative t x \<noteq> IsValueNegative t y \<longleftrightarrow> x * y < 0"
      using s by (auto simp: IsValueNegative_def mult_less_0_iff)
    moreover have "clamp t (x * y) = (if x * y < 0 then limit_lowest t else limit_max t)"
      by (rule clamp_out_of_range [OF False])
    ultimately show ?thesis using 3(1) False assms(1) by (simp add: ClampedMulOp_def)
  qed
qed

lemma BigEnough_same [simp]: "wf_type t \<Longrightarrow> BigEnoughPromotion t t = t"
  by (simp add: BigEnoughPromotion_def big_is_max_exponent_def MaxExponentPromotion_def
      IsTypeInRangeForNumericType_def StaticDstRangeRelationToSrcRange_def)

lemma smod_in_range:
  assumes "in_range t x"
  shows "in_range t (x smod y)"
proof (cases "0 \<le> x")
  case True
  then have "0 \<le> x smod y" "x smod y \<le> x"
    by (cases "y = 0"; auto simp: signed_modulo_int_def sgn_if zmod_le_nonneg_dividend)+
  with assms limit_signs(1) [of t] show ?thesis unfolding in_range_def by linarith
next
  case False
  then have "x smod y \<le> 0" "x \<le> x smod y"
    using zmod_le_nonneg_dividend [of "- x" "\<bar>y\<bar>"]
    by (cases "y = 0"; auto simp: signed_modulo_int_def sgn_if)+
  with assms limit_signs(2) [of t] show ?thesis unfolding in_range_def by linarith
qed

lemma CheckedModOp_same_type:
  assumes "wf_type t" "in_range t x" "in_range t y" "y \<noteq> 0" "\<not> (x = limit_lowest t \<and> y = - 1)"
  shows "CheckedModOp t t t x y = Some (True, x smod y)"
  using assms arith_promoted [OF assms(1) sdiv_in_range [OF assms]] smod_in_range [OF assms(2), of y]
  by (simp add: CheckedModOp_def mod_in_def div_in_def)

text \<open>A left shift is accepted exactly when no bit is lost.\<close>

lemma shift_amount:
  assumes "wf_type u" "in_range u shift" "n \<le> 64"
  shows "as_unsigned u shift < int n \<longleftrightarrow> 0 \<le> shift \<and> shift < int n"
    "as_unsigned u shift = int n \<longleftrightarrow> shift = int n"
proof -
  have "64 < shift + 2 ^ bits u" if "shift < 0"
    by (cases rule: wf_typeE [OF assms(1)])
      (use that assms(2) in \<open>auto simp: in_range_def limit_lowest_def limit_max_def split: if_splits\<close>)
  then show "as_unsigned u shift < int n \<longleftrightarrow> 0 \<le> shift \<and> shift < int n"
    "as_unsigned u shift = int n \<longleftrightarrow> shift = int n"
    unfolding as_unsigned_def to_unsigned [OF assms(1,2)] using assms(3) by auto
qed

lemma push_bit_promoted:
  assumes "wf_type t" "in_range t x" "0 \<le> x" "k < digits t"
  shows "\<exists>s. arith (integral_promotion (make_unsigned t)) (x * 2 ^ k) = Some s \<and>
           static_cast t s = static_cast t (x * 2 ^ k)"
proof (cases "bits t < 32")
  case True
  then have d: "digits t \<le> 16" using assms(1) by (auto simp: wf_type_def digits_def)
  have "x < 2 ^ digits t" using assms(2) by (auto simp: in_range_def limit_max_def digits_def)
  then have "x * 2 ^ k < 2 ^ digits t * 2 ^ k" by simp
  also have "\<dots> \<le> 2 ^ 31"
    using power_increasing [of "digits t + k" 31 "2 :: int"] assms(4) d by (simp add: power_add)
  finally have "in_range int32_t (x * 2 ^ k)"
    using assms(3) by (auto simp: in_range_def limit_lowest_def limit_max_def intro: order_trans [of _ 0])
  with True show ?thesis by (simp add: integral_promotion_def arith_def)
next
  case False
  with assms(1) show ?thesis by (simp add: integral_promotion_def arith_def unsigned_arith(4))
qed

lemma shift_reversible:
  assumes "wf_type t" "0 \<le> x"
  shows "drop_bit k (static_cast t (x * 2 ^ k)) = x \<longleftrightarrow> x * 2 ^ k \<le> limit_max t"
proof (cases "x * 2 ^ k \<le> limit_max t")
  case True
  moreover have "0 \<le> x * 2 ^ k" using assms(2) by simp
  ultimately have "in_range t (x * 2 ^ k)"
    using limit_signs(1) [of t] unfolding in_range_def by linarith
  with True assms show ?thesis by (simp add: drop_bit_eq_div)
next
  case False
  have "static_cast t (x * 2 ^ k) \<le> limit_max t"
    using static_cast_in_range [of t] assms(1) by (simp add: in_range_def)
  with False have "static_cast t (x * 2 ^ k) < x * 2 ^ k" by simp
  then have "static_cast t (x * 2 ^ k) div 2 ^ k < x"
    using le_div_iff [of "2 ^ k" x "static_cast t (x * 2 ^ k)"] by simp
  with False show ?thesis by (simp add: drop_bit_eq_div)
qed

lemma drop_bit_in_range:
  assumes "in_range t r"
  shows "in_range t (drop_bit k r)"
proof (cases "0 \<le> r")
  case True
  then have "0 \<le> drop_bit k r" "drop_bit k r \<le> r"
    by (simp_all add: drop_bit_eq_div int_div_le div_int_pos_iff)
  with assms limit_signs(1) [of t] show ?thesis unfolding in_range_def by linarith
next
  case False
  then have "r \<le> drop_bit k r" "drop_bit k r \<le> 0"
    using le_div_iff [of "2 ^ k" r r] by (simp_all add: drop_bit_eq_div mult_le_cancel_left1 div_nonpos_pos_le0)
  with assms limit_signs(2) [of t] show ?thesis unfolding in_range_def by linarith
qed

lemma CheckedLshOp_correct:
  assumes "wf_type t" "wf_type u" "in_range t x" "in_range u shift"
  defines "fits \<equiv> 0 \<le> x \<and> 0 \<le> shift \<and>
     (shift < int (digits t) \<and> x * 2 ^ nat shift \<le> limit_max t \<or>
      is_signed t \<and> x = 0 \<and> shift = int (digits t))"
  shows "\<exists>r. CheckedLshOp t u t x shift = Some (fits, r) \<and> (fits \<longrightarrow> r = x * 2 ^ nat shift)"
proof -
  have d: "digits t \<le> 64" using assms(1) by (auto simp: wf_type_def digits_def)
  note sh = shift_amount [OF assms(2,4) d]
  have neg: "IsValueNegative t x \<longleftrightarrow> x < 0"
    using assms(3) by (auto simp: IsValueNegative_def in_range_def)
  show ?thesis
  proof (cases "0 \<le> x \<and> 0 \<le> shift \<and> shift < int (digits t)")
    case True
    then have k: "nat shift < digits t" by linarith
    from push_bit_promoted [OF assms(1,3) _ k] True obtain s where
      s: "arith (integral_promotion (make_unsigned t)) (x * 2 ^ nat shift) = Some s"
        "static_cast t s = static_cast t (x * 2 ^ nat shift)" by auto
    have x: "as_unsigned t x = x" using True to_unsigned [OF assms(1,3)] by (simp add: as_unsigned_def)
    have c: "static_cast (integral_promotion t) (drop_bit (nat shift) (static_cast t (x * 2 ^ nat shift)))
        = static_cast (integral_promotion t) x
      \<longleftrightarrow> drop_bit (nat shift) (static_cast t (x * 2 ^ nat shift)) = x"
      using assms(1,3) integral_promotion_range [OF assms(1)] drop_bit_in_range by simp
    have "x * 2 ^ nat shift \<le> limit_max t \<Longrightarrow> in_range t (x * 2 ^ nat shift)"
      using True limit_signs(1) [of t] order_trans [of "limit_lowest t" 0] unfolding in_range_def by simp
    with True s x c sh neg shift_reversible [OF assms(1)] assms(1) show ?thesis
      by (auto simp: CheckedLshOp_def fits_def push_bit_eq_mult)
  next
    case False
    with sh neg show ?thesis by (auto simp: CheckedLshOp_def fits_def)
  qed
qed

section \<open>Unary operations\<close>

lemma NegateWrapper_correct:
  assumes "wf_type t"
  shows "NegateWrapper t v = static_cast t (- v)"
  using assms unsigned_arith(2) [OF assms, of 0 v] unsigned_arith(4) [OF assms]
  by (simp add: NegateWrapper_def static_cast_id in_range_def)

lemma cast_negated_lowest:
  assumes "wf_type t" "is_signed t"
  shows "static_cast t (- limit_lowest t) = limit_lowest t"
proof (rule static_cast_eqI)
  show "- limit_lowest t mod 2 ^ bits t = limit_lowest t mod 2 ^ bits t"
    unfolding mod_eq_dvd_iff signed_limits [OF assms(2)] power_bits [OF assms(1)] by simp
qed (use assms in simp_all)

lemma in_range_0 [simp]: "in_range t 0"
  by (simp add: in_range_def)

lemma negate_lowest_iff:
  assumes "wf_type t" "is_signed t" "in_range t v"
  shows "static_cast t (- v) = limit_lowest t \<longleftrightarrow> v = limit_lowest t"
    "in_range t (- v) \<longleftrightarrow> v \<noteq> limit_lowest t"
proof -
  note l = signed_limits [OF assms(2)]
  show r: "in_range t (- v) \<longleftrightarrow> v \<noteq> limit_lowest t"
    using assms(3) l by (auto simp: in_range_def)
  show "static_cast t (- v) = limit_lowest t \<longleftrightarrow> v = limit_lowest t"
  proof (cases "v = limit_lowest t")
    case True
    with cast_negated_lowest [OF assms(1,2)] show ?thesis by simp
  next
    case False
    with r assms have "static_cast t (- v) = - v" by simp
    with False l assms(3) show ?thesis by (auto simp: in_range_def)
  qed
qed

lemma SaturatedNegWrapper_correct:
  assumes "wf_type t" "in_range t v"
  shows "SaturatedNegWrapper tc c t v = clamp t (- v)"
proof (cases "is_signed t")
  case True
  note l = signed_limits [OF True] and n = negate_lowest_iff [OF assms(1) True assms(2)]
  show ?thesis
  proof (cases "v = limit_lowest t")
    case low: True
    with n l assms True show ?thesis
      by (auto simp: SaturatedNegWrapper_def NegateWrapper_correct ClampedNegFastOp_def
          builtin_overflow_def clamp_def)
  next
    case False
    with n assms True show ?thesis
      by (auto simp: SaturatedNegWrapper_def NegateWrapper_correct ClampedNegFastOp_def
          builtin_overflow_def)
  qed
next
  case False
  with assms(2) limit_signs(2) [of t] show ?thesis
    by (auto simp: SaturatedNegWrapper_def clamp_def in_range_def)
qed

lemma SaturatedAbsWrapper_correct:
  assumes "wf_type t" "in_range t v"
  shows "SaturatedAbsWrapper t v = clamp t \<bar>v\<bar>"
proof (cases "in_range t \<bar>v\<bar>")
  case True
  with assms show ?thesis
    by (auto simp: SaturatedAbsWrapper_def IsValueNegative_def)
next
  case False
  then have s: "is_signed t" "v = limit_lowest t"
    using assms(2) signed_limits [of t] by (cases "is_signed t"; auto simp: in_range_def abs_if split: if_splits)+
  note l = signed_limits [OF s(1)]
  have "static_cast t \<bar>v\<bar> = limit_lowest t"
    using cast_negated_lowest [OF assms(1) s(1)] s(2) assms(1) by (simp add: abs_if)
  with assms s(1) l have "SaturatedAbsWrapper t v = static_cast t (\<bar>v\<bar> - 1)"
    by (simp add: SaturatedAbsWrapper_def IsValueNegative_def)
  also have "\<bar>v\<bar> - 1 = limit_max t" using s(2) l by simp
  finally show ?thesis
    using assms(1) clamp_out_of_range [OF False] by simp
qed

section \<open>Expressions over CheckedNumeric\<close>

lemma CheckedNumeric_same [simp]:
  "wf_type t \<Longrightarrow> in_range t v \<Longrightarrow> CheckedNumeric t t v b = \<lparr>cn_valid = b, cn_value = v\<rparr>"
  by (simp add: CheckedNumeric_def)

lemma cn_IsValid_same [simp]:
  "wf_type t \<Longrightarrow> in_range t (cn_value n) \<Longrightarrow> cn_IsValid t t n = cn_valid n"
  by (simp add: cn_IsValid_def)

lemma CheckedDivOp_same_type:
  assumes "wf_type t" "in_range t x" "in_range t y"
  shows "\<exists>r. CheckedDivOp t t t x y = Some (y \<noteq> 0 \<and> in_range t (x sdiv y), r) \<and> in_range t r \<and>
    (y \<noteq> 0 \<and> in_range t (x sdiv y) \<longrightarrow> r = x sdiv y)"
proof (cases "y = 0 \<or> x = limit_lowest t \<and> y = - 1")
  case False
  then have q: "in_range t (x sdiv y)" using sdiv_in_range [OF assms] by auto
  have "\<not> (is_signed t \<and> x = limit_lowest t \<and> y = static_cast t (- 1))"
    using False assms signed_limits [of t] by (auto simp: in_range_def)
  with False q assms arith_promoted [OF assms(1) q] show ?thesis
    by (auto simp: CheckedDivOp_def Let_def div_in_def)
next
  case True
  then consider "y = 0" | "x = limit_lowest t" "y = - 1" "y \<noteq> 0" by blast
  then show ?thesis
  proof cases
    case 1
    then show ?thesis by (simp add: CheckedDivOp_def)
  next
    case 2
    then have s: "is_signed t" using assms(3) by (auto simp: in_range_def intro: ccontr)
    with negate_lowest_iff(2) [OF assms(1) s assms(2)] 2 have "\<not> in_range t (x sdiv y)" by simp
    moreover have "IsTypeInRangeForNumericType t t"
      by (simp add: IsTypeInRangeForNumericType_def StaticDstRangeRelationToSrcRange_def)
    ultimately show ?thesis using 2 s assms by (simp add: CheckedDivOp_def Let_def)
  qed
qed

lemma CheckedOps_result_in_range:
  assumes "wf_type v"
  shows "CheckedAddOp tc t u v x y = Some (ok, r) \<Longrightarrow> in_range v r"
    "CheckedSubOp tc t u v x y = Some (ok, r) \<Longrightarrow> in_range v r"
    "CheckedMulOp tc t u v x y = Some (ok, r) \<Longrightarrow> in_range v r"
  using assms
  by (auto simp: CheckedAddOp_def CheckedSubOp_def CheckedMulOp_def CheckedAddFastOp_def
      CheckedSubFastOp_def CheckedMulFastOp_def builtin_overflow_def Let_def
      split: if_splits bind_splits prod.splits)

lemma CheckedOps_in_type:
  assumes "wf_type t" "in_range t x" "in_range t y"
  shows "\<exists>z. CheckedAddOp tc t t t x y = Some (in_range t (x + y), z) \<and> in_range t z \<and>
      (in_range t (x + y) \<longrightarrow> x + y = z)"
    "\<exists>z. CheckedSubOp tc t t t x y = Some (in_range t (x - y), z) \<and> in_range t z \<and>
      (in_range t (x - y) \<longrightarrow> x - y = z)"
    "\<exists>z. CheckedMulOp tc t t t x y = Some (in_range t (x * y), z) \<and> in_range t z \<and>
      (in_range t (x * y) \<longrightarrow> x * y = z)"
    "\<exists>z. CheckedDivOp t t t x y = Some (y \<noteq> 0 \<and> in_range t (x sdiv y), z) \<and> in_range t z \<and>
      (y \<noteq> 0 \<and> in_range t (x sdiv y) \<longrightarrow> x sdiv y = z)"
  using CheckedOps_same_type [OF assms] CheckedDivOp_same_type [OF assms]
    CheckedOps_result_in_range [OF assms(1)] by metis+

lemma agrees_op:
  assumes "wf_type t" "agrees t a l" "agrees t b r"
    and op: "\<And>x y. in_range t x \<Longrightarrow> in_range t y \<Longrightarrow>
          \<exists>z. M t t t x y = Some (has x y, z) \<and> in_range t z \<and> (has x y \<longrightarrow> f x y = z)"
    and ex: "eval_exact e = do { x \<leftarrow> eval_exact a; y \<leftarrow> eval_exact b; if g x y then None else Some (f x y) }"
    and has: "\<And>x y. has x y \<longleftrightarrow> \<not> g x y \<and> in_range t (f x y)"
    and st: "stays_in t e \<longleftrightarrow> stays_in t a \<and> stays_in t b \<and> has_value_in t e"
  shows "\<exists>n. MathOp M t t t l r = Some n \<and> agrees t e n"
proof -
  note l = assms(2)[unfolded agrees_def] and r = assms(3)[unfolded agrees_def]
  from op [of "cn_value l" "cn_value r"] l r obtain z where
    z: "M t t t (cn_value l) (cn_value r) = Some (has (cn_value l) (cn_value r), z)" "in_range t z"
      "has (cn_value l) (cn_value r) \<longrightarrow> f (cn_value l) (cn_value r) = z" by blast
  show ?thesis
  proof (cases "cn_valid l \<and> cn_valid r")
    case True
    with l r have e: "eval_exact a = Some (cn_value l)" "eval_exact b = Some (cn_value r)"
      "stays_in t a" "stays_in t b" by auto
    with True l r z assms(1) show ?thesis
      by (auto simp: MathOp_def agrees_def st ex has has_value_in_def)
  next
    case False
    with l r have "\<not> (stays_in t a \<and> stays_in t b)" by auto
    with False l r assms(1) show ?thesis
      by (auto simp: MathOp_def agrees_def st in_range_def)
  qed
qed

lemma agrees_negate:
  assumes "wf_type t" "is_signed t" "agrees t a n"
  shows "\<exists>m. cn_negate tc c t n = Some m \<and> agrees t (Neg a) m"
proof -
  note n = assms(3) [unfolded agrees_def]
  note neg = negate_lowest_iff [OF assms(1,2), of "cn_value n"]
  obtain r where r: "CheckedSubOp tc t t t 0 (cn_value n) = Some (in_range t (- cn_value n), r)"
    "in_range t (- cn_value n) \<longrightarrow> r = - cn_value n" "in_range t r"
    using CheckedOps_same_type(2) [OF assms(1) in_range_0, of "cn_value n" tc] n
      CheckedOps_result_in_range(2) [OF assms(1)] by fastforce
  have "cn_negate tc c t n
      = Some \<lparr>cn_valid = (cn_valid n \<and> in_range t (- cn_value n)),
              cn_value = (if c then static_cast t (- cn_value n) else r)\<rparr>"
    using r assms(1,2) n neg by (auto simp: cn_negate_def NegateWrapper_correct)
  with n r assms(1) show ?thesis
    by (auto simp: agrees_def has_value_in_def)
qed

lemma agrees_abs:
  assumes "wf_type t" "agrees t a n"
  shows "\<exists>m. cn_Abs tc c t n = Some m \<and> agrees t (Abs a) m"
proof (cases "IsValueNegative t (cn_value n)")
  case True
  then have s: "is_signed t" "cn_value n < 0" by (auto simp: IsValueNegative_def split: if_splits)
  from agrees_negate [OF assms(1) s(1) assms(2)] obtain m where
    m: "cn_negate tc c t n = Some m" "agrees t (Neg a) m" by blast
  have "eval_exact (Abs a) = eval_exact (Neg a)" if "stays_in t a"
    using that s(2) assms(2) by (simp add: agrees_def)
  with m(2) have "agrees t (Abs a) m" by (auto simp: agrees_def has_value_in_def)
  with m True show ?thesis by (simp add: cn_Abs_def)
next
  case False
  then have "0 \<le> cn_value n"
    using assms(2) by (auto simp: IsValueNegative_def agrees_def in_range_def split: if_splits)
  with False assms(2) show ?thesis
    by (auto simp: cn_Abs_def agrees_def has_value_in_def split: option.splits)
qed

text \<open>
  An expression over CheckedNumeric is valid exactly when no intermediate result leaves the type, and
  then it holds the exact value.
\<close>

lemma eval_checked_agrees:
  assumes "wf_type t" "is_signed t" "\<forall>v \<in> literals e. in_range intmax_t v"
  shows "\<exists>n. eval_checked tc c t e = Some n \<and> agrees t e n"
  using assms(3)
proof (induction e)
  case (Lit v)
  then have "CheckedNumeric t intmax_t v True = \<lparr>cn_valid = in_range t v, cn_value = static_cast t v\<rparr>"
    using assms(1) by (simp add: CheckedNumeric_def)
  with assms(1) show ?case by (simp add: agrees_def has_value_in_def)
next
  case (Add a b)
  then obtain l r where "eval_checked tc c t a = Some l" "agrees t a l"
    "eval_checked tc c t b = Some r" "agrees t b r" by auto
  moreover have "\<exists>n. MathOp (CheckedAddOp tc) t t t l r = Some n \<and> agrees t (Add a b) n"
    by (rule agrees_op [where has = "\<lambda>x y. in_range t (x + y)" and g = "\<lambda>_ _. False"
          and f = "(+)", OF assms(1) \<open>agrees t a l\<close> \<open>agrees t b r\<close>])
      (rule CheckedOps_in_type(1) [OF assms(1)], assumption+, simp_all)
  ultimately show ?case by simp
next
  case (Sub a b)
  then obtain l r where "eval_checked tc c t a = Some l" "agrees t a l"
    "eval_checked tc c t b = Some r" "agrees t b r" by auto
  moreover have "\<exists>n. MathOp (CheckedSubOp tc) t t t l r = Some n \<and> agrees t (Sub a b) n"
    by (rule agrees_op [where has = "\<lambda>x y. in_range t (x - y)" and g = "\<lambda>_ _. False"
          and f = "(-)", OF assms(1) \<open>agrees t a l\<close> \<open>agrees t b r\<close>])
      (rule CheckedOps_in_type(2) [OF assms(1)], assumption+, simp_all)
  ultimately show ?case by simp
next
  case (Mul a b)
  then obtain l r where "eval_checked tc c t a = Some l" "agrees t a l"
    "eval_checked tc c t b = Some r" "agrees t b r" by auto
  moreover have "\<exists>n. MathOp (CheckedMulOp tc) t t t l r = Some n \<and> agrees t (Mul a b) n"
    by (rule agrees_op [where has = "\<lambda>x y. in_range t (x * y)" and g = "\<lambda>_ _. False"
          and f = "(*)", OF assms(1) \<open>agrees t a l\<close> \<open>agrees t b r\<close>])
      (rule CheckedOps_in_type(3) [OF assms(1)], assumption+, simp_all)
  ultimately show ?case by simp
next
  case (Div a b)
  then obtain l r where "eval_checked tc c t a = Some l" "agrees t a l"
    "eval_checked tc c t b = Some r" "agrees t b r" by auto
  moreover have "\<exists>n. MathOp CheckedDivOp t t t l r = Some n \<and> agrees t (Div a b) n"
    by (rule agrees_op [where has = "\<lambda>x y. y \<noteq> 0 \<and> in_range t (x sdiv y)" and g = "\<lambda>_ y. y = 0"
          and f = "(sdiv)", OF assms(1) \<open>agrees t a l\<close> \<open>agrees t b r\<close>])
      (rule CheckedOps_in_type(4) [OF assms(1)], assumption+, simp_all)
  ultimately show ?case by simp
next
  case (Neg a)
  then obtain n where "eval_checked tc c t a = Some n" "agrees t a n" by auto
  with agrees_negate [OF assms(1,2)] show ?case by simp
next
  case (Abs a)
  then obtain n where "eval_checked tc c t a = Some n" "agrees t a n" by auto
  with agrees_abs [OF assms(1)] show ?case by simp
qed

section \<open>Properties\<close>



text \<open>
  Claim C21.  For operands of one type the overflow tests are exact: addition, subtraction and
  multiplication are reported valid if and only if the exact result fits, with the bit tricks of the
  portable code as well as with the builtins.
\<close>

theorem checked_ops_exact:
  assumes "wf_type t" "in_range t x" "in_range t y"
  shows "(\<exists>r. CheckedAddOp tc t t t x y = Some (in_range t (x + y), r) \<and> (in_range t (x + y) \<longrightarrow> r = x + y)) \<and>
    (\<exists>r. CheckedSubOp tc t t t x y = Some (in_range t (x - y), r) \<and> (in_range t (x - y) \<longrightarrow> r = x - y)) \<and>
    (\<exists>r. CheckedMulOp tc t t t x y = Some (in_range t (x * y), r) \<and> (in_range t (x * y) \<longrightarrow> r = x * y))"
  using CheckedOps_same_type [OF assms, of tc] by blast

theorem checked_ops_exact_witness:
  "\<exists>r. CheckedMulOp Portable int64_t int64_t int64_t (- (2 ^ 62)) 2 = Some (True, r) \<and> r = - (2 ^ 63)"
proof -
  have "in_range int64_t (- (2 ^ 62))" "in_range int64_t 2" "in_range int64_t (- (2 ^ 62) * 2)"
    by (simp_all add: in_range_def limit_lowest_def limit_max_def)
  with checked_ops_exact [of int64_t "- (2 ^ 62)" 2 Portable] show ?thesis by auto
qed

text \<open>
  Claim C15.  Overflow never goes unnoticed in a computation: an expression over a signed
  CheckedNumeric is valid if and only if no intermediate result leaves the type and no division by
  zero occurs, and ValueOrDie() then yields its value in unbounded arithmetic.
\<close>

theorem checked_numeric_expression:
  assumes "wf_type t" "is_signed t" "\<forall>v \<in> literals e. in_range intmax_t v"
  shows "\<exists>n. eval_checked tc c t e = Some n \<and> (cn_valid n \<longleftrightarrow> stays_in t e) \<and>
    ValueOrDie t t n = (if stays_in t e then eval_exact e else None)"
proof -
  obtain n where n: "eval_checked tc c t e = Some n" "agrees t e n"
    using eval_checked_agrees [OF assms, of tc c] by blast
  with assms(1) show ?thesis
    by (intro exI [of _ n]) (auto simp: agrees_def ValueOrDie_def)
qed

theorem checked_numeric_expression_witness:
  "\<exists>n. eval_checked Portable True int32_t (Sub (Mul (Lit 50000) (Lit 50000)) (Lit 2000000000)) = Some n
    \<and> ValueOrDie int32_t int32_t n = None"
  using checked_numeric_expression
    [of int32_t "Sub (Mul (Lit 50000) (Lit 50000)) (Lit 2000000000)" Portable True]
  by (auto simp: has_value_in_def in_range_def limit_lowest_def limit_max_def)



text \<open>
  A checked left shift is accepted exactly when the operand is not negative and no bit is
  lost (a zero may be shifted by the full width of a signed type), and yields the product with the
  power of two.
\<close>

theorem checked_shift_exact:
  assumes "wf_type t" "wf_type u" "in_range t x" "in_range u shift"
  shows "\<exists>r. CheckedLshOp t u t x shift
      = Some (0 \<le> x \<and> 0 \<le> shift \<and>
          (shift < int (digits t) \<and> x * 2 ^ nat shift \<le> limit_max t \<or>
           is_signed t \<and> x = 0 \<and> shift = int (digits t)), r) \<and>
    (0 \<le> x \<and> 0 \<le> shift \<and>
       (shift < int (digits t) \<and> x * 2 ^ nat shift \<le> limit_max t \<or>
        is_signed t \<and> x = 0 \<and> shift = int (digits t)) \<longrightarrow> r = x * 2 ^ nat shift)"
  using CheckedLshOp_correct [OF assms] .

theorem checked_shift_exact_witness:
  "\<exists>r. CheckedLshOp int32_t int32_t int32_t 1 30 = Some (True, r) \<and> r = 2 ^ 30"
proof -
  have "in_range int32_t 1" "in_range int32_t 30"
    by (simp_all add: in_range_def limit_lowest_def limit_max_def)
  with checked_shift_exact [of int32_t int32_t 1 30] show ?thesis
    by (auto simp: digits_def limit_max_def)
qed



end
