(* ===== verification/Time_Arith.thy ===== *)
theory Time_Arith
  imports Safe_Math
begin

text \<open>
  Arithmetic of TimeDelta, Time and TimeTicks (base/time/time.h, time.cc, time_conversion_posix.cc).

  The three classes wrap one 64-bit count of microseconds, which is an \<open>int\<close> here; every
  computation of the code that C++ does not define when it leaves \<open>int64_t\<close> goes through
  \<open>arith int64_t\<close> and is \<open>None\<close> there, as is a failed check.  The build has 64-bit \<open>time_t\<close> and
  \<open>long\<close>.  Conversions through \<open>double\<close> are left out.
\<close>

section \<open>Units and limits\<close>

type_synonym time_delta = int
type_synonym time_us = int

definition kMicrosecondsPerMillisecond :: int where "kMicrosecondsPerMillisecond = 1000"

definition kMicrosecondsPerSecond :: int where "kMicrosecondsPerSecond = kMicrosecondsPerMillisecond * 1000"

definition kMicrosecondsPerMinute :: int where "kMicrosecondsPerMinute = kMicrosecondsPerSecond * 60"

definition kMicrosecondsPerHour :: int where "kMicrosecondsPerHour = kMicrosecondsPerMinute * 60"

definition kMicrosecondsPerDay :: int where "kMicrosecondsPerDay = kMicrosecondsPerHour * 24"

definition kNanosecondsPerMicrosecond :: int where "kNanosecondsPerMicrosecond = 1000"

definition kTimeTToMicrosecondsOffset :: int where "kTimeTToMicrosecondsOffset = 11644473600000000"

definition td_Max :: time_delta where "td_Max = limit_max int64_t"

definition td_Min :: time_delta where "td_Min = limit_lowest int64_t"

definition td_is_max :: "time_delta \<Rightarrow> bool" where "td_is_max d \<longleftrightarrow> d = limit_max int64_t"

definition td_is_min :: "time_delta \<Rightarrow> bool" where "td_is_min d \<longleftrightarrow> d = limit_lowest int64_t"

definition td_is_zero :: "time_delta \<Rightarrow> bool" where "td_is_zero d \<longleftrightarrow> d = 0"

section \<open>TimeDelta\<close>

definition SaturatedAdd :: "toolchain \<Rightarrow> int \<Rightarrow> time_delta \<Rightarrow> int option" where
  "SaturatedAdd tc value delta =
     (if td_is_max delta then do { DCHECK (limit_lowest int64_t < value); Some (limit_max int64_t) }
      else if td_is_min delta then
        do { DCHECK (value < limit_max int64_t); Some (limit_lowest int64_t) }
      else ClampedAddOp tc int64_t int64_t int64_t value delta)"

definition SaturatedSub :: "toolchain \<Rightarrow> int \<Rightarrow> time_delta \<Rightarrow> int option" where
  "SaturatedSub tc value delta =
     (if td_is_max delta then do { DCHECK (value < limit_max int64_t); Some (limit_lowest int64_t) }
      else if td_is_min delta then
        do { DCHECK (limit_lowest int64_t < value); Some (limit_max int64_t) }
      else ClampedSubOp tc int64_t int64_t int64_t value delta)"

text \<open>The sign bit of a 64-bit number, spread over the word by an arithmetic shift.\<close>

definition td_magnitude :: "time_delta \<Rightarrow> time_delta option" where
  "td_magnitude delta =
     (let mask = drop_bit (8 * 8 - 1) delta
      in do { s \<leftarrow> arith int64_t (delta + mask); Some (xor s mask) })"

definition td_negate :: "time_delta \<Rightarrow> time_delta option" where
  "td_negate delta = arith int64_t (- delta)"

definition td_times :: "toolchain \<Rightarrow> ctype \<Rightarrow> time_delta \<Rightarrow> int \<Rightarrow> time_delta option" where
  "td_times tc ty delta a =
     do { rv \<leftarrow> MathOp (CheckedMulOp tc) int64_t int64_t ty
                   (CheckedNumeric int64_t int64_t delta True) \<lparr>cn_valid = True, cn_value = a\<rparr>;
          if cn_IsValid int64_t int64_t rv then ValueOrDie int64_t int64_t rv
          else if (delta < 0) \<noteq> (a < 0) then Some (limit_lowest int64_t)
          else Some (limit_max int64_t) }"

definition td_divide :: "ctype \<Rightarrow> time_delta \<Rightarrow> int \<Rightarrow> time_delta option" where
  "td_divide ty delta a =
     do { rv \<leftarrow> MathOp CheckedDivOp int64_t int64_t ty
                   (CheckedNumeric int64_t int64_t delta True) \<lparr>cn_valid = True, cn_value = a\<rparr>;
          if cn_IsValid int64_t int64_t rv then ValueOrDie int64_t int64_t rv
          else if (delta < 0) \<noteq> (a \<le> 0) then Some (limit_lowest int64_t)
          else Some (limit_max int64_t) }"

definition td_ratio :: "time_delta \<Rightarrow> time_delta \<Rightarrow> int option" where
  "td_ratio delta a = div_in int64_t delta a"

definition td_modulo :: "time_delta \<Rightarrow> time_delta \<Rightarrow> time_delta option" where
  "td_modulo delta a = mod_in int64_t delta a"

definition FromDays :: "int \<Rightarrow> time_delta option" where
  "FromDays days =
     (if days = limit_max int32_t then Some td_Max else arith int64_t (days * kMicrosecondsPerDay))"

definition FromHours :: "int \<Rightarrow> time_delta option" where
  "FromHours hours =
     (if hours = limit_max int32_t then Some td_Max else arith int64_t (hours * kMicrosecondsPerHour))"

definition FromMinutes :: "int \<Rightarrow> time_delta option" where
  "FromMinutes minutes =
     (if minutes = limit_max int32_t then Some td_Max
      else arith int64_t (minutes * kMicrosecondsPerMinute))"

definition FromProduct :: "int \<Rightarrow> int \<Rightarrow> time_delta option" where
  "FromProduct value positive_value =
     do { DCHECK (0 < positive_value);
          hi \<leftarrow> div_in int64_t (limit_max int64_t) positive_value;
          lo \<leftarrow> div_in int64_t (limit_lowest int64_t) positive_value;
          if hi < value then Some td_Max
          else if value < lo then Some td_Min
          else arith int64_t (value * positive_value) }"

definition FromSeconds :: "int \<Rightarrow> time_delta option" where
  "FromSeconds secs = FromProduct secs kMicrosecondsPerSecond"

definition FromMilliseconds :: "int \<Rightarrow> time_delta option" where
  "FromMilliseconds ms = FromProduct ms kMicrosecondsPerMillisecond"

definition FromNanoseconds :: "int \<Rightarrow> time_delta option" where
  "FromNanoseconds ns = div_in int64_t ns kNanosecondsPerMicrosecond"

text \<open>A conversion to \<open>int\<close> keeps the low 32 bits.\<close>

definition InDays :: "time_delta \<Rightarrow> int option" where
  "InDays delta =
     (if td_is_max delta then Some (limit_max int32_t)
      else do { q \<leftarrow> div_in int64_t delta kMicrosecondsPerDay; Some (static_cast int32_t q) })"

definition InDaysFloored :: "time_delta \<Rightarrow> int option" where
  "InDaysFloored delta =
     (if td_is_max delta then Some (limit_max int32_t)
      else do { q \<leftarrow> div_in int64_t delta kMicrosecondsPerDay;
                let result = static_cast int32_t q;
                product \<leftarrow> arith int64_t (result * kMicrosecondsPerDay);
                remainder \<leftarrow> arith int64_t (delta - product);
                if remainder < 0 then arith int32_t (result - 1) else Some result })"

definition InHours :: "time_delta \<Rightarrow> int option" where
  "InHours delta =
     (if td_is_max delta then Some (limit_max int32_t)
      else do { q \<leftarrow> div_in int64_t delta kMicrosecondsPerHour; Some (static_cast int32_t q) })"

definition InMinutes :: "time_delta \<Rightarrow> int option" where
  "InMinutes delta =
     (if td_is_max delta then Some (limit_max int32_t)
      else do { q \<leftarrow> div_in int64_t delta kMicrosecondsPerMinute; Some (static_cast int32_t q) })"

definition InSeconds :: "time_delta \<Rightarrow> int option" where
  "InSeconds delta =
     (if td_is_max delta then Some (limit_max int64_t)
      else div_in int64_t delta kMicrosecondsPerSecond)"

definition InMilliseconds :: "time_delta \<Rightarrow> int option" where
  "InMilliseconds delta =
     (if td_is_max delta then Some (limit_max int64_t)
      else div_in int64_t delta kMicrosecondsPerMillisecond)"

definition InMillisecondsRoundedUp :: "time_delta \<Rightarrow> int option" where
  "InMillisecondsRoundedUp delta =
     (if td_is_max delta then Some (limit_max int64_t)
      else do { result \<leftarrow> div_in int64_t delta kMicrosecondsPerMillisecond;
                product \<leftarrow> arith int64_t (result * kMicrosecondsPerMillisecond);
                remainder \<leftarrow> arith int64_t (delta - product);
                if 0 < remainder then arith int64_t (result + 1) else Some result })"

definition InNanoseconds :: "time_delta \<Rightarrow> int option" where
  "InNanoseconds delta =
     (if td_is_max delta then Some (limit_max int64_t)
      else arith int64_t (delta * kNanosecondsPerMicrosecond))"

section \<open>Time and TimeTicks\<close>

definition time_diff :: "time_us \<Rightarrow> time_us \<Rightarrow> time_delta option" where
  "time_diff us other = arith int64_t (us - other)"

definition time_plus :: "toolchain \<Rightarrow> time_us \<Rightarrow> time_delta \<Rightarrow> time_us option" where
  "time_plus tc us delta = SaturatedAdd tc us delta"

definition time_minus :: "toolchain \<Rightarrow> time_us \<Rightarrow> time_delta \<Rightarrow> time_us option" where
  "time_minus tc us delta = SaturatedSub tc us delta"

definition FromTimeT :: "toolchain \<Rightarrow> int \<Rightarrow> time_us option" where
  "FromTimeT tc tt =
     (if tt = 0 then Some 0
      else if tt = limit_max int64_t then Some (limit_max int64_t)
      else do { delta \<leftarrow> FromSeconds tt; time_plus tc kTimeTToMicrosecondsOffset delta })"

definition ToTimeT :: "time_us \<Rightarrow> int option" where
  "ToTimeT us =
     (if us = 0 then Some 0
      else if us = limit_max int64_t then Some (limit_max int64_t)
      else if limit_max int64_t - kTimeTToMicrosecondsOffset \<le> us then Some (limit_max int64_t)
      else do { since_epoch \<leftarrow> arith int64_t (us - kTimeTToMicrosecondsOffset);
                div_in int64_t since_epoch kMicrosecondsPerSecond })"

definition UnixEpoch :: time_us where
  "UnixEpoch = kTimeTToMicrosecondsOffset"

definition FromJavaTime :: "toolchain \<Rightarrow> int \<Rightarrow> time_us option" where
  "FromJavaTime tc ms_since_epoch =
     do { delta \<leftarrow> FromMilliseconds ms_since_epoch; time_plus tc UnixEpoch delta }"

definition ToJavaTime :: "time_us \<Rightarrow> int option" where
  "ToJavaTime us =
     (if us = 0 then Some 0
      else if us = limit_max int64_t then Some (limit_max int64_t)
      else do { since_epoch \<leftarrow> arith int64_t (us - kTimeTToMicrosecondsOffset);
                div_in int64_t since_epoch kMicrosecondsPerMillisecond })"

definition SnappedToNextTick :: "toolchain \<Rightarrow> time_us \<Rightarrow> time_us \<Rightarrow> time_delta \<Rightarrow> time_us option" where
  "SnappedToNextTick tc this tick_phase tick_interval =
     do { d \<leftarrow> time_diff tick_phase this;
          interval_offset \<leftarrow> td_modulo d tick_interval;
          interval_offset \<leftarrow>
            (if \<not> td_is_zero interval_offset \<and> tick_phase < this
             then SaturatedAdd tc interval_offset tick_interval else Some interval_offset);
          time_plus tc this interval_offset }"

section \<open>timespec and timeval\<close>

definition FromTimeSpec :: "int \<times> int \<Rightarrow> time_delta option" where
  "FromTimeSpec ts =
     do { s \<leftarrow> arith int64_t (fst ts * kMicrosecondsPerSecond);
          us \<leftarrow> div_in int64_t (snd ts) kNanosecondsPerMicrosecond;
          arith int64_t (s + us) }"

definition ToTimeSpec :: "time_delta \<Rightarrow> (int \<times> int) option" where
  "ToTimeSpec delta =
     do { (seconds, microseconds) \<leftarrow>
            (if kMicrosecondsPerSecond \<le> delta then
               do { seconds \<leftarrow> InSeconds delta;
                    product \<leftarrow> arith int64_t (seconds * kMicrosecondsPerSecond);
                    microseconds \<leftarrow> arith int64_t (delta - product);
                    Some (seconds, microseconds) }
             else Some (0, delta));
          ns \<leftarrow> arith int64_t (microseconds * kNanosecondsPerMicrosecond);
          Some (seconds, ns) }"

definition FromTimeVal :: "int \<times> int \<Rightarrow> time_us option" where
  "FromTimeVal t =
     do { DCHECK (snd t < kMicrosecondsPerSecond);
          DCHECK (0 \<le> snd t);
          if snd t = 0 \<and> fst t = 0 then Some 0
          else if snd t = kMicrosecondsPerSecond - 1 \<and> fst t = limit_max int64_t
          then Some (limit_max int64_t)
          else do { s \<leftarrow> arith int64_t (fst t * kMicrosecondsPerSecond);
                    us \<leftarrow> arith int64_t (s + snd t);
                    arith int64_t (us + kTimeTToMicrosecondsOffset) } }"

definition ToTimeVal :: "time_us \<Rightarrow> (int \<times> int) option" where
  "ToTimeVal us =
     (if us = 0 then Some (0, 0)
      else if us = limit_max int64_t then Some (limit_max int64_t, kMicrosecondsPerSecond - 1)
      else do { since_epoch \<leftarrow> arith int64_t (us - kTimeTToMicrosecondsOffset);
                tv_sec \<leftarrow> div_in int64_t since_epoch kMicrosecondsPerSecond;
                tv_usec \<leftarrow> mod_in int64_t since_epoch kMicrosecondsPerSecond;
                Some (tv_sec, tv_usec) })"

section \<open>Lemmas\<close>

named_theorems time_units \<open>the units of time as numerals\<close>

declare kMicrosecondsPerMillisecond_def [time_units] kMicrosecondsPerSecond_def [time_units]
  kMicrosecondsPerMinute_def [time_units] kMicrosecondsPerHour_def [time_units]
  kMicrosecondsPerDay_def [time_units] kNanosecondsPerMicrosecond_def [time_units]
  kTimeTToMicrosecondsOffset_def [time_units] UnixEpoch_def [time_units]

lemma int64_limits:
  "limit_lowest int64_t = - 9223372036854775808" "limit_max int64_t = 9223372036854775807"
  "limit_max int32_t = 2147483647" "limit_lowest int32_t = - 2147483648"
  by (simp_all add: limit_lowest_def limit_max_def)

lemma in_range_int64:
  "in_range int64_t v \<longleftrightarrow> - 9223372036854775808 \<le> v \<and> v \<le> 9223372036854775807"
  by (simp add: in_range_def int64_limits)

lemma arith_int64: "arith int64_t v = (if in_range int64_t v then Some v else None)"
  by (simp add: arith_def)

lemma sdiv_pos:
  fixes x c :: int
  assumes "0 < c"
  shows "x sdiv c = (if 0 \<le> x then x div c else - ((- x) div c))"
  using assms by (auto simp: signed_divide_int_def sgn_if)

lemma smod_pos:
  fixes x c :: int
  assumes "0 < c"
  shows "x smod c = (if 0 \<le> x then x mod c else - ((- x) mod c))"
  using assms by (auto simp: signed_modulo_int_def sgn_if)

lemma sdiv_int64:
  assumes "in_range int64_t x" "0 < c"
  shows "in_range int64_t (x sdiv c)"
proof -
  have "x sdiv c \<in> {- \<bar>x\<bar>..\<bar>x\<bar>}" by (rule sdiv_int_range)
  moreover have "x sdiv c \<le> 0" if "x < 0"
    using that assms(2) by (simp add: sdiv_pos pos_imp_zdiv_nonneg_iff)
  ultimately show ?thesis using assms(1) by (cases "x < 0") (auto simp: in_range_int64)
qed

lemma div_in_int64:
  assumes "in_range int64_t x" "0 < c"
  shows "div_in int64_t x c = Some (x sdiv c)"
  using sdiv_int64 [OF assms] assms(2) by (simp add: div_in_def arith_int64)

lemma mod_in_int64:
  assumes "in_range int64_t x" "0 < c"
  shows "mod_in int64_t x c = Some (x smod c)"
  using div_in_int64 [OF assms] by (simp add: mod_in_def)

text \<open>A truncated quotient differs from the floor only below zero.\<close>

lemma sdiv_pos_floor:
  fixes x c :: int
  assumes "0 < c"
  shows "x div c = (if x - (x sdiv c) * c < 0 then x sdiv c - 1 else x sdiv c)"
proof -
  have "x - (x sdiv c) * c = x smod c" by (rule minus_sdiv_mult_eq_smod)
  moreover have "x smod c < 0 \<longleftrightarrow> x < 0 \<and> \<not> c dvd x"
    using assms by (auto simp: smod_pos zmod_zminus1_eq_if dvd_eq_mod_eq_0 mod_pos_pos_trivial
        pos_mod_sign pos_mod_bound not_less split: if_splits)
  ultimately show ?thesis
    using assms by (auto simp: divide_int_eq_signed_divide_int sgn_if split: if_splits)
qed

lemma div_less_iff:
  fixes a c v :: int
  assumes "0 < c"
  shows "a div c < v \<longleftrightarrow> a < v * c"
proof -
  have "a div c < v" if "a < v * c"
  proof (rule ccontr)
    assume "\<not> a div c < v"
    then have "v * c \<le> (a div c) * c" using assms by simp
    also have "\<dots> \<le> a" using div_mult_mod_eq [of a c] pos_mod_sign [OF assms, of a] by linarith
    finally show False using that by simp
  qed
  moreover have "a < v * c" if "a div c < v"
  proof -
    have "a < (a div c + 1) * c"
      using div_mult_mod_eq [of a c] pos_mod_bound [OF assms, of a]
      unfolding distrib_right by linarith
    also have "\<dots> \<le> v * c" using that assms by (intro mult_right_mono) simp_all
    finally show ?thesis .
  qed
  ultimately show ?thesis by blast
qed

lemma FromProduct_clamp:
  assumes "0 < c" "in_range int64_t c"
  shows "FromProduct v c = Some (clamp int64_t (v * c))"
proof -
  have hi: "9223372036854775807 div c < v \<longleftrightarrow> 9223372036854775807 < v * c"
    and lo: "v < - (9223372036854775808 div c) \<longleftrightarrow> v * c < - 9223372036854775808"
    using div_less_iff [OF assms(1), of 9223372036854775807 v]
      div_less_iff [OF assms(1), of 9223372036854775808 "- v"] by (simp_all, linarith+)
  have "div_in int64_t 9223372036854775807 c = Some (9223372036854775807 div c)"
    "div_in int64_t (- 9223372036854775808) c = Some (- (9223372036854775808 div c))"
    using assms(1) by (simp_all add: div_in_int64 in_range_int64 sdiv_pos)
  with hi lo assms(1) show ?thesis
    by (simp add: FromProduct_def int64_limits arith_int64 clamp_def td_Max_def td_Min_def in_range_int64)
qed

lemma td_magnitude_abs:
  assumes "in_range int64_t d"
  shows "td_magnitude d = (if d = td_Min then None else Some \<bar>d\<bar>)"
proof (cases "d < 0")
  case True
  then have "drop_bit 63 d = - 1"
    using assms div_pos_pos_trivial [of "- d - 1" "2 ^ 63"]
    by (simp add: drop_bit_eq_div in_range_int64 div_minus1_right)
  with True assms show ?thesis
    by (auto simp: td_magnitude_def arith_int64 in_range_int64 td_Min_def int64_limits not_int_def)
next
  case False
  then have "drop_bit 63 d = 0"
    using assms by (simp add: drop_bit_eq_div in_range_int64)
  with False assms show ?thesis
    by (auto simp: td_magnitude_def arith_int64 in_range_int64 td_Min_def int64_limits)
qed

lemma SaturatedAdd_eq:
  assumes "in_range int64_t v" "in_range int64_t d"
  shows "SaturatedAdd tc v d =
    (if d = td_Max then (if v = td_Min then None else Some td_Max)
     else if d = td_Min then (if v = td_Max then None else Some td_Min)
     else Some (clamp int64_t (v + d)))"
  using assms ClampedOps_same_type(1) [of int64_t v d tc]
  by (auto simp: SaturatedAdd_def td_is_max_def td_is_min_def td_Max_def td_Min_def in_range_def DCHECK_def)

lemma SaturatedSub_eq:
  assumes "in_range int64_t v" "in_range int64_t d"
  shows "SaturatedSub tc v d =
    (if d = td_Max then (if v = td_Max then None else Some td_Min)
     else if d = td_Min then (if v = td_Min then None else Some td_Max)
     else Some (clamp int64_t (v - d)))"
  using assms ClampedOps_same_type(2) [of int64_t v d tc]
  by (auto simp: SaturatedSub_def td_is_max_def td_is_min_def td_Max_def td_Min_def in_range_def DCHECK_def)

lemma SaturatedAdd_finite:
  assumes "in_range int64_t v" "in_range int64_t d" "td_Min < d" "d < td_Max"
  shows "SaturatedAdd tc v d = Some (clamp int64_t (v + d))"
  using assms by (simp add: SaturatedAdd_eq)

lemma td_times_clamp:
  assumes "in_range int64_t d" "in_range int64_t a"
  shows "td_times tc int64_t d a = Some (clamp int64_t (d * a))"
proof -
  obtain r where r: "CheckedMulOp tc int64_t int64_t int64_t d a = Some (in_range int64_t (d * a), r)"
    "in_range int64_t (d * a) \<longrightarrow> r = d * a"
    using CheckedOps_same_type(3) [of int64_t d a tc] assms by auto
  have "in_range int64_t r" using CheckedOps_result_in_range(3) [OF _ r(1)] by simp
  moreover have "d * a < 0 \<longleftrightarrow> (d < 0) \<noteq> (a < 0)" if "d * a \<noteq> 0"
    using that by (auto simp: mult_less_0_iff)
  moreover have "d * a \<noteq> 0" if "\<not> in_range int64_t (d * a)" using that by auto
  ultimately show ?thesis
    using r assms by (auto simp: td_times_def MathOp_def cn_IsValid_def ValueOrDie_def CheckedNumeric_def
      clamp_out_of_range)
qed

lemma td_divide_clamp:
  assumes "in_range int64_t d" "in_range int64_t a"
  shows "td_divide int64_t d a
    = Some (if a = 0 then (if d < 0 then td_Max else td_Min) else clamp int64_t (d sdiv a))"
proof -
  obtain r where r: "CheckedDivOp int64_t int64_t int64_t d a
      = Some (a \<noteq> 0 \<and> in_range int64_t (d sdiv a), r)" "in_range int64_t r"
    "a \<noteq> 0 \<and> in_range int64_t (d sdiv a) \<longrightarrow> r = d sdiv a"
    using CheckedDivOp_same_type [of int64_t d a] assms by auto
  have "\<not> d sdiv a < 0 \<and> d < 0 \<and> a < 0" if "\<not> in_range int64_t (d sdiv a)" "a \<noteq> 0"
  proof -
    have "d = limit_lowest int64_t \<and> a = - 1"
      using that assms sdiv_in_range [of int64_t d a] by auto
    then show ?thesis by (simp add: int64_limits)
  qed
  then show ?thesis
    using r assms by (auto simp: td_divide_def MathOp_def cn_IsValid_def ValueOrDie_def CheckedNumeric_def
      clamp_out_of_range td_Max_def td_Min_def)
qed

lemma InDays_eq:
  assumes "in_range int64_t d"
  shows "InDays d = Some (if d = td_Max then 2147483647 else d sdiv kMicrosecondsPerDay)"
proof -
  have "in_range int32_t (d sdiv kMicrosecondsPerDay)"
    using assms by (auto simp: sdiv_pos time_units in_range_def int64_limits)
  then show ?thesis
    using assms by (simp add: InDays_def div_in_int64 time_units td_is_max_def td_Max_def int64_limits)
qed

lemma InDaysFloored_eq:
  assumes "in_range int64_t d"
  shows "InDaysFloored d = Some (if d = td_Max then 2147483647 else d div kMicrosecondsPerDay)"
proof -
  have q: "in_range int32_t (d sdiv kMicrosecondsPerDay)" "in_range int32_t (d div kMicrosecondsPerDay)"
    "in_range int64_t (d sdiv kMicrosecondsPerDay * kMicrosecondsPerDay)"
    "in_range int64_t (d - d sdiv kMicrosecondsPerDay * kMicrosecondsPerDay)"
    using assms by (auto simp: sdiv_pos time_units in_range_def int64_limits)
  from q(1) have "static_cast int32_t (d sdiv kMicrosecondsPerDay) = d sdiv kMicrosecondsPerDay" by simp
  with assms q sdiv_pos_floor [of kMicrosecondsPerDay d] show ?thesis
    by (auto simp: InDaysFloored_def div_in_int64 time_units td_is_max_def td_Max_def int64_limits arith_def)
qed

lemma InMillisecondsRoundedUp_eq:
  assumes "in_range int64_t d"
  shows "InMillisecondsRoundedUp d = Some (if d = td_Max then td_Max else - ((- d) div 1000))"
proof -
  have q: "in_range int64_t (d sdiv 1000 * 1000)" "in_range int64_t (d - d sdiv 1000 * 1000)"
    "in_range int64_t (d sdiv 1000 + 1)"
    using assms by (auto simp: sdiv_pos in_range_def int64_limits)
  moreover have "- ((- d) div 1000) = (if 0 < d - d sdiv 1000 * 1000 then d sdiv 1000 + 1 else d sdiv 1000)"
    using sdiv_pos_floor [of 1000 "- d"] by auto
  ultimately show ?thesis
    using assms by (auto simp: InMillisecondsRoundedUp_def div_in_int64 time_units td_is_max_def
      td_Max_def arith_def)
qed

lemma FromSeconds_eq: "FromSeconds s = Some (clamp int64_t (s * kMicrosecondsPerSecond))"
  by (simp add: FromSeconds_def FromProduct_clamp time_units in_range_int64)

lemma FromMilliseconds_eq: "FromMilliseconds s = Some (clamp int64_t (s * kMicrosecondsPerMillisecond))"
  by (simp add: FromMilliseconds_def FromProduct_clamp time_units in_range_int64)

text \<open>The tick that follows a time: on the lattice of the phase, not before the time, and less than
  one interval after it.\<close>

lemma SnappedToNextTick_eq:
  assumes "in_range int64_t t" "in_range int64_t phase" "in_range int64_t (phase - t)"
    and "0 < interval" "interval < td_Max" "in_range int64_t (t + interval)"
  shows "SnappedToNextTick tc t phase interval = Some (t + (phase - t) mod interval)"
proof -
  let ?o = "(phase - t) smod interval"
  have i: "in_range int64_t interval" using assms by (simp add: in_range_int64 td_Max_def int64_limits)
  have o: "\<bar>?o\<bar> < interval"
    using smod_int_range [of interval "phase - t"] assms(4) by auto
  have m: "0 \<le> (phase - t) mod interval" "(phase - t) mod interval < interval"
    using assms(4) by simp_all
  have "(phase - t) mod interval = (if ?o \<noteq> 0 \<and> phase < t then ?o + interval else ?o)"
    using assms(4) zmod_zminus1_eq_if [of "t - phase" interval]
    by (auto simp: smod_pos split: if_splits)
  with o m i assms show ?thesis
    by (auto simp: SnappedToNextTick_def time_diff_def arith_int64 td_modulo_def mod_in_int64
      td_is_zero_def time_plus_def SaturatedAdd_eq td_Max_def td_Min_def int64_limits in_range_int64)
qed

lemma FromTimeT_ToTimeT:
  assumes "tt = 0 \<or> tt = limit_max int64_t \<or> - 9223372036854 \<le> tt \<and> tt \<noteq> - 11644473600 \<and> tt < 9200083089654"
  shows "Option.bind (FromTimeT tc tt) ToTimeT = Some tt"
proof -
  consider "tt = 0" | "tt = limit_max int64_t"
    | "tt \<noteq> 0" "- 9223372036854 \<le> tt" "tt \<noteq> - 11644473600" "tt < 9200083089654" using assms by blast
  then show ?thesis
  proof cases
    case 3
    then have "in_range int64_t (tt * 1000000)" by (simp add: in_range_int64)
    with 3 have "FromTimeT tc tt = Some (11644473600000000 + tt * 1000000)"
      by (simp add: FromTimeT_def FromSeconds_eq time_plus_def time_units SaturatedAdd_eq
          in_range_int64 int64_limits td_Max_def td_Min_def)
    moreover have "in_range int64_t (tt * 1000000)" using 3 by (simp add: in_range_int64)
    ultimately show ?thesis
      using 3 by (auto simp: ToTimeT_def int64_limits time_units arith_int64 div_in_int64 sdiv_pos)
  qed (simp_all add: FromTimeT_def ToTimeT_def int64_limits)
qed

lemma FromTimeVal_ToTimeVal:
  assumes "in_range int64_t us" "kTimeTToMicrosecondsOffset < us \<or> us = 0"
  shows "Option.bind (ToTimeVal us) FromTimeVal = Some us"
proof -
  consider "us = 0" | "us = limit_max int64_t" | "us \<noteq> limit_max int64_t" "kTimeTToMicrosecondsOffset < us"
    using assms(2) by blast
  then show ?thesis
  proof cases
    case 3
    define v where "v = us - kTimeTToMicrosecondsOffset"
    have v: "0 < v" "v < 9223372036854775807" "in_range int64_t v" "us = v + kTimeTToMicrosecondsOffset"
      using 3 assms(1) by (simp_all add: v_def in_range_int64 time_units int64_limits)
    have d: "v div 1000000 * 1000000 + v mod 1000000 = v" by simp
    have m: "0 \<le> v mod 1000000" "v mod 1000000 < 1000000" by simp_all
    have e: "\<not> (v mod 1000000 = 0 \<and> v div 1000000 = 0)" using d v(1) by auto
    have "ToTimeVal us = Some (v div 1000000, v mod 1000000)"
      using 3 v by (simp add: ToTimeVal_def v_def [symmetric] arith_int64 div_in_int64 mod_in_int64
          time_units sdiv_pos smod_pos)
    moreover have "in_range int64_t (v div 1000000 * 1000000)"
      unfolding in_range_int64 using v(1,2) d m by linarith
    moreover have "v div 1000000 \<noteq> 9223372036854775807" using v by auto
    ultimately show ?thesis
      using d m e v assms(1) by (auto simp: FromTimeVal_def time_units int64_limits arith_int64)
  qed (simp_all add: FromTimeVal_def ToTimeVal_def int64_limits time_units)
qed

section \<open>Properties\<close>



text \<open>
  Claim C29.  Conversions between units round as their names say and no intermediate result leaves its
  type: InDays truncates, InDaysFloored rounds down, InMillisecondsRoundedUp rounds up, and seconds and
  milliseconds convert to the nearest representable delta.
\<close>

theorem time_units_round:
  assumes "in_range int64_t d"
  shows "InDays d = Some (if d = td_Max then 2147483647 else d sdiv 86400000000) \<and>
    InDaysFloored d = Some (if d = td_Max then 2147483647 else d div 86400000000) \<and>
    InMillisecondsRoundedUp d = Some (if d = td_Max then td_Max else - ((- d) div 1000)) \<and>
    FromSeconds d = Some (clamp int64_t (d * 1000000)) \<and>
    FromMilliseconds d = Some (clamp int64_t (d * 1000))"
  using InDays_eq [OF assms] InDaysFloored_eq [OF assms] InMillisecondsRoundedUp_eq [OF assms]
    FromSeconds_eq [of d] FromMilliseconds_eq [of d]
  by (simp add: time_units)

theorem time_units_round_witness:
  "InDaysFloored (- 1) = Some (- 1) \<and> InDays (- 1) = Some 0 \<and> InMillisecondsRoundedUp (- 1999) = Some (- 1)"
  using time_units_round [of "- 1"] time_units_round [of "- 1999"]
  by (simp add: in_range_int64 td_Max_def int64_limits sdiv_pos)

text \<open>
  Claim C30.  SnappedToNextTick returns a time of the lattice of ticks that is not before the given time
  and less than one interval after it, whether the phase lies in the past or in the future.
\<close>

theorem snapped_to_next_tick:
  assumes "in_range int64_t t" "in_range int64_t phase" "in_range int64_t (phase - t)"
    and "0 < interval" "interval < td_Max" "in_range int64_t (t + interval)"
  shows "\<exists>tick. SnappedToNextTick tc t phase interval = Some tick \<and> t \<le> tick \<and> tick < t + interval \<and>
    interval dvd (tick - phase)"
proof -
  have "interval dvd ((phase - t) mod interval - (phase - t))"
    by (metis dvd_minus_mod dvd_minus_iff minus_diff_eq)
  then show ?thesis
    using SnappedToNextTick_eq [OF assms, of tc] assms(4)
    by (intro exI [of _ "t + (phase - t) mod interval"]) (simp add: algebra_simps)
qed

theorem snapped_to_next_tick_witness:
  "\<exists>tick. SnappedToNextTick Gcc 9 1000 10 = Some tick \<and> 9 \<le> tick \<and> tick < 19 \<and> 10 dvd (tick - 1000)"
  using snapped_to_next_tick [of 9 1000 10 Gcc] by (simp add: in_range_int64 td_Max_def int64_limits)

text \<open>
  Claim C31.  Conversions to the system's types are inverse to each other: a \<open>time_t\<close> within the range of
  Time survives FromTimeT and ToTimeT, and a Time from the Unix epoch on survives ToTimeVal and
  FromTimeVal.
\<close>

theorem time_round_trips:
  assumes "tt = 0 \<or> tt = limit_max int64_t \<or>
      - 9223372036854 \<le> tt \<and> tt \<noteq> - 11644473600 \<and> tt < 9200083089654"
    and "in_range int64_t us" "kTimeTToMicrosecondsOffset < us \<or> us = 0"
  shows "Option.bind (FromTimeT tc tt) ToTimeT = Some tt \<and> Option.bind (ToTimeVal us) FromTimeVal = Some us"
  using FromTimeT_ToTimeT [OF assms(1)] FromTimeVal_ToTimeVal [OF assms(2,3)] by simp

theorem time_round_trips_witness:
  "Option.bind (FromTimeT Portable (- 86400)) ToTimeT = Some (- 86400) \<and>
   Option.bind (ToTimeVal 11644473600000001) FromTimeVal = Some 11644473600000001"
  using time_round_trips [of "- 86400" 11644473600000001 Portable]
  by (simp add: in_range_int64 time_units)


end
