(* ===== verification/Lazy_Deque.thy ===== *)
theory Lazy_Deque
  imports Deque_Spec Time_Arith
begin

text \<open>
  The LazilyDeallocatedDeque of the sequence manager
  (base/task/sequence_manager/lazily_deallocated_deque.h).

  A deque owns a chain of rings: \<open>ld_rings\<close> is \<open>head_\<close> followed along \<open>next_\<close>.  \<open>tail_\<close> is a raw
  pointer, modelled by the address of a ring; dereferencing it looks the address up in the chain and
  fails when no ring has it, so a dangling tail cannot go unnoticed.  A slot of a ring is \<open>None\<close> while it
  is raw storage.  \<open>now_source()\<close> is an argument of the operation that reads the clock.
\<close>

section \<open>Ring\<close>

record 'a ring =
  r_addr :: nat
  front_index :: nat
  back_index :: nat
  r_data :: "'a option list"

definition kMinimumRingSize :: nat where "kMinimumRingSize = 4"

definition kReclaimThreshold :: nat where "kReclaimThreshold = 16"

definition kMinimumShrinkIntervalInSeconds :: int where "kMinimumShrinkIntervalInSeconds = 5"

definition ring_new :: "nat \<Rightarrow> nat \<Rightarrow> 'a ring option" where
  "ring_new addr cap =
     do { DCHECK (kMinimumRingSize \<le> cap);
          Some \<lparr>r_addr = addr, front_index = 0, back_index = 0, r_data = replicate cap None\<rparr> }"

definition ring_capacity :: "'a ring \<Rightarrow> nat" where
  "ring_capacity r = length (r_data r)"

definition CircularDecrement :: "'a ring \<Rightarrow> nat \<Rightarrow> nat" where
  "CircularDecrement r index = (if index = 0 then ring_capacity r - 1 else index - 1)"

definition CircularIncrement :: "'a ring \<Rightarrow> nat \<Rightarrow> nat option" where
  "CircularIncrement r index =
     do { DCHECK (index < ring_capacity r);
          Some (if index + 1 = ring_capacity r then 0 else index + 1) }"

definition ring_empty :: "'a ring \<Rightarrow> bool" where
  "ring_empty r \<longleftrightarrow> back_index r = front_index r"

definition CanPush :: "'a ring \<Rightarrow> bool option" where
  "CanPush r = do { i \<leftarrow> CircularIncrement r (back_index r); Some (front_index r \<noteq> i) }"

definition CanPop :: "'a ring \<Rightarrow> bool" where
  "CanPop r \<longleftrightarrow> front_index r \<noteq> back_index r"

text \<open>Access to a slot: the index is in bounds; a read or a destructor call needs an object there.\<close>

definition ring_slot :: "'a ring \<Rightarrow> nat \<Rightarrow> 'a option" where
  "ring_slot r i = (if i < ring_capacity r then r_data r ! i else None)"

definition ring_construct :: "'a ring \<Rightarrow> nat \<Rightarrow> 'a \<Rightarrow> 'a ring option" where
  "ring_construct r i t =
     (if i < ring_capacity r then Some (r\<lparr>r_data := (r_data r)[i := Some t]\<rparr>) else None)"

definition ring_destruct :: "'a ring \<Rightarrow> nat \<Rightarrow> 'a ring option" where
  "ring_destruct r i = do { _ \<leftarrow> ring_slot r i; Some (r\<lparr>r_data := (r_data r)[i := None]\<rparr>) }"

definition ring_push_front :: "'a ring \<Rightarrow> 'a \<Rightarrow> 'a ring option" where
  "ring_push_front r t =
     do { DCHECK (CircularDecrement r (front_index r) \<noteq> back_index r);
          r \<leftarrow> ring_construct r (front_index r) t;
          Some (r\<lparr>front_index := CircularDecrement r (front_index r)\<rparr>) }"

definition ring_push_back :: "'a ring \<Rightarrow> 'a \<Rightarrow> 'a ring option" where
  "ring_push_back r t =
     do { i \<leftarrow> CircularIncrement r (back_index r);
          let r = r\<lparr>back_index := i\<rparr>;
          DCHECK (\<not> ring_empty r);
          ring_construct r (back_index r) t }"

definition ring_pop_front :: "'a ring \<Rightarrow> 'a ring option" where
  "ring_pop_front r =
     do { DCHECK (\<not> ring_empty r);
          i \<leftarrow> CircularIncrement r (front_index r);
          let r = r\<lparr>front_index := i\<rparr>;
          ring_destruct r (front_index r) }"

definition ring_front :: "'a ring \<Rightarrow> 'a option" where
  "ring_front r =
     do { DCHECK (\<not> ring_empty r);
          i \<leftarrow> CircularIncrement r (front_index r);
          ring_slot r i }"

definition ring_back :: "'a ring \<Rightarrow> 'a option" where
  "ring_back r = do { DCHECK (\<not> ring_empty r); ring_slot r (back_index r) }"

text \<open>The destructor pops until the ring is empty.\<close>

partial_function (option) ring_destroy :: "'a ring \<Rightarrow> 'a ring option" where
  "ring_destroy r = (if ring_empty r then Some r else do { r \<leftarrow> ring_pop_front r; ring_destroy r })"

declare ring_destroy.simps [code]

section \<open>LazilyDeallocatedDeque\<close>

record 'a lazy_deque =
  ld_rings :: "'a ring list"
  ld_tail :: "nat option"
  ld_size :: nat
  ld_max_size :: nat
  ld_next_resize_time :: time_us
  ld_alloc :: nat

definition ld_new :: "'a lazy_deque" where
  "ld_new = \<lparr>ld_rings = [], ld_tail = None, ld_size = 0, ld_max_size = 0,
             ld_next_resize_time = 0, ld_alloc = 0\<rparr>"

definition ld_empty :: "'a lazy_deque \<Rightarrow> bool" where
  "ld_empty d \<longleftrightarrow> ld_size d = 0"

primrec rings_capacity :: "'a ring list \<Rightarrow> nat" where
  "rings_capacity [] = 0"
| "rings_capacity (r # rs) = ring_capacity r + rings_capacity rs"

definition ld_capacity :: "'a lazy_deque \<Rightarrow> nat" where
  "ld_capacity d = rings_capacity (ld_rings d)"

text \<open>Dropping a chain runs the destructor of each of its rings.\<close>

primrec destroy_rings :: "'a ring list \<Rightarrow> unit option" where
  "destroy_rings [] = Some ()"
| "destroy_rings (r # rs) = do { _ \<leftarrow> ring_destroy r; destroy_rings rs }"

definition ld_clear :: "'a lazy_deque \<Rightarrow> 'a lazy_deque option" where
  "ld_clear d =
     do { destroy_rings (ld_rings d); Some (d\<lparr>ld_rings := [], ld_tail := None, ld_size := 0\<rparr>) }"

text \<open>Dereferencing \<open>tail_\<close>.\<close>

definition tail_ring :: "'a lazy_deque \<Rightarrow> 'a ring option" where
  "tail_ring d =
     do { a \<leftarrow> ld_tail d; find (\<lambda>r. r_addr r = a) (ld_rings d) }"

definition update_ring :: "'a ring \<Rightarrow> 'a lazy_deque \<Rightarrow> 'a lazy_deque" where
  "update_ring r d = d\<lparr>ld_rings := map (\<lambda>s. if r_addr s = r_addr r then r else s) (ld_rings d)\<rparr>"

definition head_ring :: "'a lazy_deque \<Rightarrow> 'a ring option" where
  "head_ring d = (case ld_rings d of [] \<Rightarrow> None | r # _ \<Rightarrow> Some r)"

text \<open>The first ring is allocated on demand.\<close>

definition ld_ensure_head :: "'a lazy_deque \<Rightarrow> 'a lazy_deque option" where
  "ld_ensure_head d =
     (if ld_rings d = [] then
        do { DCHECK (ld_tail d = None);
             r \<leftarrow> ring_new (ld_alloc d) kMinimumRingSize;
             Some (d\<lparr>ld_rings := [r], ld_tail := Some (r_addr r), ld_alloc := ld_alloc d + 1\<rparr>) }
      else Some d)"

definition ld_grown :: "'a lazy_deque \<Rightarrow> 'a lazy_deque" where
  "ld_grown d = d\<lparr>ld_size := ld_size d + 1, ld_max_size := max (ld_max_size d) (ld_size d + 1)\<rparr>"

definition ld_push_front :: "'a lazy_deque \<Rightarrow> 'a \<Rightarrow> 'a lazy_deque option" where
  "ld_push_front d t =
     do { d \<leftarrow> ld_ensure_head d;
          h \<leftarrow> head_ring d;
          can \<leftarrow> CanPush h;
          d \<leftarrow> (if \<not> can then
                 do { r \<leftarrow> ring_new (ld_alloc d) kMinimumRingSize;
                      Some (d\<lparr>ld_rings := r # ld_rings d, ld_alloc := ld_alloc d + 1\<rparr>) }
               else Some d);
          h \<leftarrow> head_ring d;
          h \<leftarrow> ring_push_front h t;
          Some (ld_grown (d\<lparr>ld_rings := h # tl (ld_rings d)\<rparr>)) }"

text \<open>Assigning \<open>tail_->next_\<close> drops the rings that followed the tail.\<close>

definition set_next_of_tail :: "'a lazy_deque \<Rightarrow> 'a ring \<Rightarrow> 'a ring \<Rightarrow> 'a lazy_deque option" where
  "set_next_of_tail d t r =
     do { destroy_rings (tl (dropWhile (\<lambda>s. r_addr s \<noteq> r_addr t) (ld_rings d)));
          Some (d\<lparr>ld_rings := takeWhile (\<lambda>s. r_addr s \<noteq> r_addr t) (ld_rings d) @ [t, r]\<rparr>) }"

definition ld_push_back :: "'a lazy_deque \<Rightarrow> 'a \<Rightarrow> 'a lazy_deque option" where
  "ld_push_back d t =
     do { d \<leftarrow> ld_ensure_head d;
          tl_ring \<leftarrow> tail_ring d;
          can \<leftarrow> CanPush tl_ring;
          d \<leftarrow> (if \<not> can then
                 do { r \<leftarrow> ring_new (ld_alloc d) (2 + ring_capacity tl_ring + ring_capacity tl_ring div 2);
                      d \<leftarrow> set_next_of_tail d tl_ring r;
                      Some (d\<lparr>ld_tail := Some (r_addr r), ld_alloc := ld_alloc d + 1\<rparr>) }
               else Some d);
          tl_ring \<leftarrow> tail_ring d;
          tl_ring \<leftarrow> ring_push_back tl_ring t;
          Some (ld_grown (update_ring tl_ring d)) }"

definition ld_front :: "'a lazy_deque \<Rightarrow> 'a option" where
  "ld_front d = do { h \<leftarrow> head_ring d; ring_front h }"

definition ld_back :: "'a lazy_deque \<Rightarrow> 'a option" where
  "ld_back d = do { t \<leftarrow> tail_ring d; ring_back t }"

definition ld_pop_front :: "'a lazy_deque \<Rightarrow> 'a lazy_deque option" where
  "ld_pop_front d =
     do { h \<leftarrow> head_ring d;
          DCHECK (\<not> ring_empty h);
          DCHECK (ld_tail d \<noteq> None);
          DCHECK (0 < ld_size d);
          h \<leftarrow> ring_pop_front h;
          let rs = tl (ld_rings d);
          d \<leftarrow> (if ring_empty h \<and> rs \<noteq> [] then
                 do { _ \<leftarrow> ring_destroy h; Some (d\<lparr>ld_rings := rs\<rparr>) }
               else Some (d\<lparr>ld_rings := h # rs\<rparr>));
          Some (d\<lparr>ld_size := ld_size d - 1\<rparr>) }"

definition ld_swap :: "'a lazy_deque \<Rightarrow> 'a lazy_deque \<Rightarrow> 'a lazy_deque \<times> 'a lazy_deque" where
  "ld_swap d other =
     (d\<lparr>ld_rings := ld_rings other, ld_tail := ld_tail other, ld_size := ld_size other,
        ld_max_size := ld_max_size other, ld_next_resize_time := ld_next_resize_time other,
        ld_alloc := ld_alloc other\<rparr>,
      other\<lparr>ld_rings := ld_rings d, ld_tail := ld_tail d, ld_size := ld_size d,
        ld_max_size := ld_max_size d, ld_next_resize_time := ld_next_resize_time d,
        ld_alloc := ld_alloc d\<rparr>)"

text \<open>The loop of SetCapacity moves the elements one by one.\<close>

partial_function (option) move_elements ::
  "'a ring \<Rightarrow> 'a lazy_deque \<Rightarrow> ('a ring \<times> 'a lazy_deque) option" where
  "move_elements new_ring d =
     (if ld_empty d then Some (new_ring, d)
      else do { can \<leftarrow> CanPush new_ring;
                DCHECK can;
                h \<leftarrow> head_ring d;
                x \<leftarrow> ring_front h;
                new_ring \<leftarrow> ring_push_back new_ring x;
                d \<leftarrow> ld_pop_front d;
                move_elements new_ring d })"

declare move_elements.simps [code]

definition ld_SetCapacity :: "'a lazy_deque \<Rightarrow> nat \<Rightarrow> 'a lazy_deque option" where
  "ld_SetCapacity d new_capacity =
     do { new_ring \<leftarrow> ring_new (ld_alloc d) new_capacity;
          DCHECK (ld_size d + 1 \<le> new_capacity);
          let real_size = ld_size d;
          (new_ring, d) \<leftarrow> move_elements new_ring (d\<lparr>ld_alloc := ld_alloc d + 1\<rparr>);
          let d = d\<lparr>ld_size := real_size\<rparr>;
          DCHECK (map_option r_addr (head_ring d) = ld_tail d);
          destroy_rings (ld_rings d);
          Some (d\<lparr>ld_rings := [new_ring], ld_tail := Some (r_addr new_ring)\<rparr>) }"

definition MaybeShrinkQueue :: "toolchain \<Rightarrow> time_us \<Rightarrow> 'a lazy_deque \<Rightarrow> 'a lazy_deque option" where
  "MaybeShrinkQueue tc current_time d =
     (if ld_tail d = None then Some d
      else do { DCHECK (ld_size d \<le> ld_max_size d);
                if current_time < ld_next_resize_time d then Some d
                else
                  let new_capacity = max (ld_max_size d + 1) kMinimumRingSize;
                      d = d\<lparr>ld_max_size := ld_size d\<rparr>
                  in if ld_capacity d \<le> new_capacity + kReclaimThreshold then Some d
                     else do { d \<leftarrow> ld_SetCapacity d new_capacity;
                               delta \<leftarrow> FromSeconds kMinimumShrinkIntervalInSeconds;
                               t \<leftarrow> time_plus tc current_time delta;
                               Some (d\<lparr>ld_next_resize_time := t\<rparr>) } })"

section \<open>Iteration\<close>

record ld_iterator =
  li_ring :: "nat option"
  li_index :: nat

definition find_ring :: "'a lazy_deque \<Rightarrow> nat \<Rightarrow> 'a ring option" where
  "find_ring d a = find (\<lambda>r. r_addr r = a) (ld_rings d)"

fun next_ring :: "'a ring list \<Rightarrow> nat \<Rightarrow> 'a ring option" where
  "next_ring (r # s # rs) a = (if r_addr r = a then Some s else next_ring (s # rs) a)"
| "next_ring _ a = None"

definition ld_begin :: "'a lazy_deque \<Rightarrow> ld_iterator option" where
  "ld_begin d =
     (case head_ring d of
        None \<Rightarrow> Some \<lparr>li_ring = None, li_index = 0\<rparr>
      | Some r \<Rightarrow>
          if ring_empty r then Some \<lparr>li_ring = None, li_index = 0\<rparr>
          else do { i \<leftarrow> CircularIncrement r (front_index r);
                    Some \<lparr>li_ring = Some (r_addr r), li_index = i\<rparr> })"

definition ld_deref :: "'a lazy_deque \<Rightarrow> ld_iterator \<Rightarrow> 'a option" where
  "ld_deref d it = do { a \<leftarrow> li_ring it; r \<leftarrow> find_ring d a; ring_slot r (li_index it) }"

definition ld_increment :: "'a lazy_deque \<Rightarrow> ld_iterator \<Rightarrow> ld_iterator option" where
  "ld_increment d it =
     do { a \<leftarrow> li_ring it;
          r \<leftarrow> find_ring d a;
          if li_index it = back_index r then
            (case next_ring (ld_rings d) a of
               None \<Rightarrow> Some \<lparr>li_ring = None, li_index = 0\<rparr>
             | Some s \<Rightarrow> do { i \<leftarrow> CircularIncrement s (front_index s);
                              Some \<lparr>li_ring = Some (r_addr s), li_index = i\<rparr> })
          else do { i \<leftarrow> CircularIncrement r (li_index it); Some (it\<lparr>li_index := i\<rparr>) } }"

text \<open>\<open>for (it = begin(); it; ++it)\<close>, collecting what the iterator yields.\<close>

partial_function (option) ld_collect :: "'a lazy_deque \<Rightarrow> ld_iterator \<Rightarrow> 'a list option" where
  "ld_collect d it =
     (if li_ring it = None then Some []
      else do { x \<leftarrow> ld_deref d it; it \<leftarrow> ld_increment d it; xs \<leftarrow> ld_collect d it; Some (x # xs) })"

declare ld_collect.simps [code]

definition ld_values :: "'a lazy_deque \<Rightarrow> 'a list option" where
  "ld_values d = do { it \<leftarrow> ld_begin d; ld_collect d it }"

section \<open>Specification\<close>

definition lazy_deque_ops :: "('a lazy_deque, 'a) deque_ops" where
  "lazy_deque_ops =
     \<lparr>dq_new = ld_new, dq_push_front = ld_push_front, dq_push_back = ld_push_back,
      dq_pop_front = ld_pop_front, dq_front = ld_front, dq_back = ld_back,
      dq_size = ld_size, dq_empty = ld_empty, dq_clear = ld_clear\<rparr>"

text \<open>A ring holds a sequence: its slots, read cyclically from the front index, are a raw slot, the
  elements, and raw slots.\<close>

definition ring_rep :: "'a ring \<Rightarrow> 'a list \<Rightarrow> bool" where
  "ring_rep r xs \<longleftrightarrow>
     kMinimumRingSize \<le> ring_capacity r \<and> front_index r < ring_capacity r \<and>
     length xs < ring_capacity r \<and>
     back_index r = (front_index r + length xs) mod ring_capacity r \<and>
     rotate (front_index r) (r_data r)
       = None # map Some xs @ replicate (ring_capacity r - 1 - length xs) None"

text \<open>The rings of a chain hold the parts of the sequence; only a sole ring may be empty.\<close>

definition ld_chain :: "'a lazy_deque \<Rightarrow> 'a list list \<Rightarrow> bool" where
  "ld_chain d xss \<longleftrightarrow>
     list_all2 ring_rep (ld_rings d) xss \<and>
     (1 < length xss \<longrightarrow> [] \<notin> set xss) \<and>
     distinct (map r_addr (ld_rings d)) \<and>
     (\<forall>r \<in> set (ld_rings d). r_addr r < ld_alloc d) \<and>
     ld_tail d = (if ld_rings d = [] then None else Some (r_addr (last (ld_rings d))))"

definition ld_rep :: "'a lazy_deque \<Rightarrow> 'a list \<Rightarrow> bool" where
  "ld_rep d xs \<longleftrightarrow>
     (\<exists>xss. ld_chain d xss \<and> xs = concat xss) \<and> ld_size d = length xs \<and> ld_size d \<le> ld_max_size d"

section \<open>Rings\<close>

lemma ring_repE:
  assumes "ring_rep r xs"
  obtains m where "front_index r < length (r_data r)" "length (r_data r) = Suc (length xs + m)"
    "back_index r = (front_index r + length xs) mod length (r_data r)" "4 \<le> length (r_data r)"
    "rotate (front_index r) (r_data r) = None # map Some xs @ replicate m None"
proof -
  have "length (r_data r) = Suc (length xs + (ring_capacity r - 1 - length xs))"
    using assms by (auto simp: ring_rep_def ring_capacity_def)
  with that assms show ?thesis
    by (metis (no_types, lifting) kMinimumRingSize_def ring_capacity_def ring_rep_def)
qed

lemma ring_repI:
  assumes "front_index r < length (r_data r)" "4 \<le> length (r_data r)"
    "back_index r = (front_index r + length xs) mod length (r_data r)"
    "rotate (front_index r) (r_data r) = None # map Some xs @ replicate m None"
  shows "ring_rep r xs"
proof -
  have "length (r_data r) = Suc (length xs + m)"
    using arg_cong [OF assms(4), of length] by simp
  with assms show ?thesis by (simp add: ring_rep_def kMinimumRingSize_def ring_capacity_def)
qed

lemma ring_new_rep:
  assumes "4 \<le> n"
  shows "ring_new a n = Some \<lparr>r_addr = a, front_index = 0, back_index = 0, r_data = replicate n None\<rparr>"
    "ring_rep \<lparr>r_addr = a, front_index = 0, back_index = 0, r_data = replicate n None\<rparr> []"
proof -
  show "ring_rep \<lparr>r_addr = a, front_index = 0, back_index = 0, r_data = replicate n None\<rparr> []"
    using assms by (intro ring_repI [where m = "n - 1"]) (auto simp: replicate_Suc [symmetric] simp del: replicate_Suc)
qed (use assms in \<open>simp add: ring_new_def kMinimumRingSize_def\<close>)

lemma ring_rep_empty: "ring_rep r xs \<Longrightarrow> ring_empty r \<longleftrightarrow> xs = []"
  by (auto simp: ring_rep_def ring_empty_def ring_index_eq split: if_splits)

lemma CircularIncrement_index:
  assumes "front_index r < ring_capacity r"
  shows "CircularIncrement r ((front_index r + k) mod ring_capacity r)
    = Some (Suc (front_index r + k) mod ring_capacity r)"
proof -
  let ?i = "(front_index r + k) mod ring_capacity r"
  have i: "?i < ring_capacity r" using assms by simp
  have "(if Suc ?i = ring_capacity r then 0 else Suc ?i) = (?i + 1) mod ring_capacity r"
    using ring_next [OF i, of 0] i by (auto split: if_splits)
  also have "\<dots> = Suc (front_index r + k) mod ring_capacity r" by (simp add: mod_simps)
  finally show ?thesis using i by (auto simp: CircularIncrement_def split: if_splits)
qed

lemma CanPush_rep:
  assumes "ring_rep r xs"
  shows "CanPush r = Some (Suc (length xs) < ring_capacity r)"
proof -
  have r: "front_index r < ring_capacity r" "length xs < ring_capacity r"
    "back_index r = (front_index r + length xs) mod ring_capacity r"
    using assms by (simp_all add: ring_rep_def)
  have "front_index r = (front_index r + Suc (length xs)) mod ring_capacity r
      \<longleftrightarrow> \<not> Suc (length xs) < ring_capacity r"
    using r(1,2) ring_index_inj [OF r(1), of 0 "Suc (length xs)"]
    by (cases "Suc (length xs) = ring_capacity r") (auto simp del: add_Suc_right)
  then show ?thesis using CircularIncrement_index [OF r(1), of "length xs"] r(3) by (simp add: CanPush_def)
qed

lemma ring_push_front_rep:
  assumes "ring_rep r xs" "Suc (length xs) < ring_capacity r"
  shows "\<exists>r'. ring_push_front r t = Some r' \<and> ring_rep r' (t # xs)
    \<and> r_addr r' = r_addr r \<and> ring_capacity r' = ring_capacity r"
proof -
  from assms(1) obtain m where r: "front_index r < length (r_data r)" "length (r_data r) = Suc (length xs + m)"
    "back_index r = (front_index r + length xs) mod length (r_data r)" "4 \<le> length (r_data r)"
    "rotate (front_index r) (r_data r) = None # map Some xs @ replicate m None" by (rule ring_repE)
  from assms(2) r(2) obtain k where m: "m = Suc k" by (cases m) (auto simp: ring_capacity_def)
  let ?f = "CircularDecrement r (front_index r)"
  let ?buf = "(r_data r)[front_index r := Some t]"
  let ?r = "r\<lparr>r_data := ?buf, front_index := ?f\<rparr>"
  have f: "?f < length (r_data r)" using r(1) by (auto simp: CircularDecrement_def ring_capacity_def)
  have e: "(?f + Suc n) mod length (r_data r) = (front_index r + n) mod length (r_data r)" for n
    unfolding CircularDecrement_def ring_capacity_def using ring_prev [OF r(1)] .
  have "rotate1 (rotate ?f ?buf) = rotate (front_index r) ?buf"
    unfolding CircularDecrement_def ring_capacity_def
    using rotate_prev [of "front_index r" ?buf] r(1) unfolding length_list_update by blast
  also have "\<dots> = (map Some (t # xs) @ replicate k None) @ [None]"
    using rotate_update0 [OF r(1), of "Some t"] r(5) m by (simp add: replicate_append_same)
  finally have "rotate ?f ?buf = None # map Some (t # xs) @ replicate k None"
    by (rule rotate1_cancel)
  then have "ring_rep ?r (t # xs)"
    using f r(3,4) e [of "length xs"] by (intro ring_repI) simp_all
  moreover have "?f \<noteq> back_index r"
    using e [of "length xs"] r(2,3) f m ring_index_inj [OF f, of 0 "Suc (length xs)"] by auto
  ultimately show ?thesis
    using r(1) by (auto simp: ring_push_front_def ring_construct_def ring_capacity_def CircularDecrement_def)
qed

lemma ring_push_back_rep:
  assumes "ring_rep r xs" "Suc (length xs) < ring_capacity r"
  shows "\<exists>r'. ring_push_back r t = Some r' \<and> ring_rep r' (xs @ [t])
    \<and> r_addr r' = r_addr r \<and> ring_capacity r' = ring_capacity r"
proof -
  from assms(1) obtain m where r: "front_index r < length (r_data r)" "length (r_data r) = Suc (length xs + m)"
    "back_index r = (front_index r + length xs) mod length (r_data r)" "4 \<le> length (r_data r)"
    "rotate (front_index r) (r_data r) = None # map Some xs @ replicate m None" by (rule ring_repE)
  from assms(2) r(2) obtain k where m: "m = Suc k" by (cases m) (auto simp: ring_capacity_def)
  let ?i = "Suc (front_index r + length xs) mod length (r_data r)"
  let ?r = "r\<lparr>back_index := ?i, r_data := (r_data r)[?i := Some t]\<rparr>"
  have "rotate (front_index r) (r_data r) = (None # map Some xs) @ None # replicate k None"
    using r(5) m by simp
  from rotate_update_append [OF r(1) this, of "Some t"]
  have "ring_rep ?r (xs @ [t])"
    using r(1,4) by (intro ring_repI [where m = k]) simp_all
  moreover have "?i \<noteq> front_index r"
    using ring_index_inj [OF r(1), of "Suc (length xs)" 0] r(1,2) m by auto
  moreover have "?i < length (r_data r)" using r(4) by (intro mod_less_divisor) linarith
  ultimately show ?thesis
    using CircularIncrement_index [of r "length xs"] r(1,3)
    by (auto simp: ring_push_back_def ring_construct_def ring_capacity_def ring_empty_def)
qed

lemma ring_pop_front_rep:
  assumes "ring_rep r (x # xs)"
  shows "\<exists>r'. ring_pop_front r = Some r' \<and> ring_rep r' xs
    \<and> r_addr r' = r_addr r \<and> ring_capacity r' = ring_capacity r"
proof -
  from assms(1) obtain m where r: "front_index r < length (r_data r)" "length (r_data r) = Suc (length (x # xs) + m)"
    "back_index r = (front_index r + length (x # xs)) mod length (r_data r)" "4 \<le> length (r_data r)"
    "rotate (front_index r) (r_data r) = None # map Some (x # xs) @ replicate m None" by (rule ring_repE)
  define i where "i = (if Suc (front_index r) = length (r_data r) then 0 else Suc (front_index r))"
  let ?buf = "(r_data r)[i := None]"
  let ?r = "r\<lparr>front_index := i, r_data := ?buf\<rparr>"
  have i: "i < length (r_data r)" using r(1) by (auto simp: i_def)
  have rot: "rotate i (r_data r) = Some x # map Some xs @ replicate (Suc m) None"
    using rotate_next [OF r(1)] r(5) by (simp add: i_def replicate_append_same)
  have slot: "r_data r ! i = Some x" using nth_ring0 [OF i] rot by simp
  have "ring_rep ?r xs"
    using i r(3,4) ring_next [OF r(1), of "length xs"] rotate_update0 [OF i, of None] rot
    by (intro ring_repI [where m = "Suc m"]) (simp_all add: i_def [symmetric])
  moreover have "CircularIncrement r (front_index r) = Some i"
    using r(1) by (simp add: CircularIncrement_def ring_capacity_def i_def)
  ultimately show ?thesis
    using ring_rep_empty [OF assms] i slot
    by (auto simp: ring_pop_front_def ring_destruct_def ring_slot_def ring_capacity_def)
qed

lemma ring_slot_rep:
  assumes "ring_rep r xs" "k < length xs"
  shows "ring_slot r (Suc (front_index r + k) mod ring_capacity r) = Some (xs ! k)"
proof -
  from assms(1) obtain m where r: "front_index r < length (r_data r)" "length (r_data r) = Suc (length xs + m)"
    "rotate (front_index r) (r_data r) = None # map Some xs @ replicate m None" by (rule ring_repE)
  have "Suc (front_index r + k) mod ring_capacity r < ring_capacity r"
    using r(2) by (intro mod_less_divisor) (simp add: ring_capacity_def)
  moreover have "Suc k < length (r_data r)" using assms(2) r(2) by simp
  from nth_ring [OF r(1) this] have "r_data r ! (Suc (front_index r + k) mod length (r_data r)) = Some (xs ! k)"
    using assms(2) r(3) by (simp add: nth_append)
  ultimately show ?thesis by (simp add: ring_slot_def ring_capacity_def)
qed

lemma ring_front_rep:
  assumes "ring_rep r (x # xs)"
  shows "ring_front r = Some x"
proof -
  have f: "front_index r < ring_capacity r" using assms by (simp add: ring_rep_def)
  then show ?thesis
    using ring_slot_rep [OF assms, of 0] CircularIncrement_index [OF f, of 0] ring_rep_empty [OF assms]
    by (simp add: ring_front_def)
qed

lemma ring_back_rep:
  assumes "ring_rep r (xs @ [x])"
  shows "ring_back r = Some x"
  using ring_slot_rep [OF assms, of "length xs"] ring_rep_empty [OF assms] assms
  by (simp add: ring_back_def ring_rep_def)

lemma ring_destroy_rep:
  "ring_rep r xs \<Longrightarrow> \<exists>r'. ring_destroy r = Some r' \<and> ring_rep r' []"
proof (induction xs arbitrary: r)
  case Nil
  then show ?case using ring_rep_empty [OF Nil] by (subst ring_destroy.simps) auto
next
  case (Cons x xs)
  from ring_pop_front_rep [OF Cons.prems] obtain r' where
    "ring_pop_front r = Some r'" "ring_rep r' xs" by blast
  with Cons.IH [of r'] ring_rep_empty [OF Cons.prems] show ?case
    by (subst ring_destroy.simps) auto
qed

lemma destroy_rings_rep: "list_all2 ring_rep rs xss \<Longrightarrow> destroy_rings rs = Some ()"
proof (induction rule: list_all2_induct)
  case (Cons r rs xs xss)
  from ring_destroy_rep [OF Cons(1)] Cons.IH show ?case by auto
qed simp

section \<open>The chain of rings\<close>

lemma find_addr:
  "distinct (map r_addr rs) \<Longrightarrow> r \<in> set rs \<Longrightarrow> find (\<lambda>s. r_addr s = r_addr r) rs = Some r"
  by (induction rs) force+

lemma takeWhile_addr:
  "distinct (map r_addr (rs @ [t])) \<Longrightarrow> takeWhile (\<lambda>s. r_addr s \<noteq> r_addr t) (rs @ [t]) = rs"
  "distinct (map r_addr (rs @ [t])) \<Longrightarrow> dropWhile (\<lambda>s. r_addr s \<noteq> r_addr t) (rs @ [t]) = [t]"
  by (induction rs) auto

lemma map_update_last:
  assumes "distinct (map r_addr (rs @ [t]))" "r_addr t' = r_addr t"
  shows "map (\<lambda>s. if r_addr s = r_addr t' then t' else s) (rs @ [t]) = rs @ [t']"
  using assms by (induction rs) auto

lemma ld_chain_frame [simp]:
  "ld_chain (d\<lparr>ld_size := n\<rparr>) xss = ld_chain d xss"
  "ld_chain (d\<lparr>ld_max_size := n\<rparr>) xss = ld_chain d xss"
  "ld_chain (d\<lparr>ld_next_resize_time := t\<rparr>) xss = ld_chain d xss"
  by (simp_all add: ld_chain_def)

lemma ld_chain_nil: "ld_chain d [] \<longleftrightarrow> ld_rings d = [] \<and> ld_tail d = None"
  by (auto simp: ld_chain_def)

lemma ld_chain_snocE:
  assumes "ld_chain d xss" "xss \<noteq> []"
  obtains rs t yss ys where "ld_rings d = rs @ [t]" "xss = yss @ [ys]" "list_all2 ring_rep rs yss"
    "ring_rep t ys" "ld_tail d = Some (r_addr t)" "tail_ring d = Some t"
proof -
  from assms(2) obtain yss ys where xss: "xss = yss @ [ys]" by (cases xss rule: rev_cases) auto
  with assms(1) obtain rs t where rs: "ld_rings d = rs @ [t]" "list_all2 ring_rep rs yss" "ring_rep t ys"
    by (auto simp: ld_chain_def list_all2_append2 list_all2_Cons2 length_Suc_conv)
  moreover have "ld_tail d = Some (r_addr t)" using assms(1) rs(1) by (simp add: ld_chain_def)
  moreover have "tail_ring d = Some t"
    using assms(1) rs(1) find_addr [of "ld_rings d" t] by (simp add: ld_chain_def tail_ring_def)
  ultimately show ?thesis using xss that by blast
qed

lemma ld_ensure_head_chain:
  assumes "ld_chain d xss"
  shows "\<exists>d'. ld_ensure_head d = Some d' \<and> ld_chain d' (if xss = [] then [[]] else xss)
    \<and> ld_size d' = ld_size d \<and> ld_max_size d' = ld_max_size d
    \<and> ld_next_resize_time d' = ld_next_resize_time d"
proof (cases "xss = []")
  case True
  with assms have "ld_rings d = []" "ld_tail d = None" by (simp_all add: ld_chain_nil)
  with True show ?thesis
    by (simp add: ld_ensure_head_def kMinimumRingSize_def ld_chain_def ring_new_rep)
next
  case False
  with assms show ?thesis by (auto simp: ld_ensure_head_def ld_chain_def)
qed

lemma ld_push_back_chain:
  assumes "ld_chain d xss" "xss \<noteq> []"
  shows "\<exists>d' xss'. ld_push_back d x = Some d' \<and> ld_chain d' xss' \<and> concat xss' = concat xss @ [x]
    \<and> ld_size d' = Suc (ld_size d) \<and> ld_max_size d' = max (ld_max_size d) (Suc (ld_size d))"
proof -
  from assms obtain rs t yss ys where r: "ld_rings d = rs @ [t]" "xss = yss @ [ys]"
    "list_all2 ring_rep rs yss" "ring_rep t ys" "ld_tail d = Some (r_addr t)" "tail_ring d = Some t"
    by (rule ld_chain_snocE)
  have e: "ld_ensure_head d = Some d" using r(1) by (simp add: ld_ensure_head_def)
  note can = CanPush_rep [OF r(4)]
  show ?thesis
  proof (cases "Suc (length ys) < ring_capacity t")
    case True
    from ring_push_back_rep [OF r(4) this, of x] obtain t' where
      t': "ring_push_back t x = Some t'" "ring_rep t' (ys @ [x])" "r_addr t' = r_addr t" by blast
    have u: "update_ring t' d = d\<lparr>ld_rings := rs @ [t']\<rparr>"
      using map_update_last [of rs t t'] assms(1) r(1) t'(3) by (simp add: update_ring_def ld_chain_def)
    have "ld_chain (ld_grown (d\<lparr>ld_rings := rs @ [t']\<rparr>)) (yss @ [ys @ [x]])"
      using assms(1) r t' by (auto simp: ld_chain_def ld_grown_def list_all2_appendI)
    with e can True r t' u show ?thesis
      by (auto simp: ld_push_back_def ld_grown_def intro!: exI [of _ "yss @ [ys @ [x]]"])
  next
    case False
    define n :: "'a ring" where "n = \<lparr>r_addr = ld_alloc d, front_index = 0, back_index = 0,
      r_data = replicate (2 + ring_capacity t + ring_capacity t div 2) None\<rparr>"
    have cap: "4 \<le> ring_capacity t" using r(4) by (simp add: ring_rep_def kMinimumRingSize_def)
    then have "4 \<le> 2 + ring_capacity t + ring_capacity t div 2" by linarith
    from ring_new_rep [OF this] have n: "ring_new (ld_alloc d) (2 + ring_capacity t + ring_capacity t div 2) = Some n"
      "ring_rep n []" by (simp_all add: n_def)
    have addr: "r_addr n = ld_alloc d" "Suc 0 < ring_capacity n"
      using cap by (simp_all add: n_def ring_capacity_def)
    from ring_push_back_rep [OF n(2), of x] addr(2) obtain n' where
      n': "ring_push_back n x = Some n'" "ring_rep n' [x]" "r_addr n' = r_addr n" by auto
    define d1 where "d1 = d\<lparr>ld_rings := rs @ [t, n], ld_tail := Some (r_addr n), ld_alloc := Suc (ld_alloc d)\<rparr>"
    have ds: "distinct (map r_addr (rs @ [t]))" "\<forall>r \<in> set (rs @ [t]). r_addr r < ld_alloc d"
      using assms(1) r(1) by (simp_all add: ld_chain_def)
    have dn: "distinct (map r_addr ((rs @ [t]) @ [n]))" using ds addr(1) by force
    have tl: "tail_ring d1 = Some n"
      using find_addr [OF dn, of n] by (simp add: tail_ring_def d1_def)
    have u: "update_ring n' d1 = d1\<lparr>ld_rings := rs @ [t, n']\<rparr>"
      using map_update_last [OF dn n'(3)] by (simp add: update_ring_def d1_def)
    have "set_next_of_tail d t n = Some (d\<lparr>ld_rings := rs @ [t, n]\<rparr>)"
      using takeWhile_addr [OF ds(1)] r(1) by (simp add: set_next_of_tail_def)
    then have step: "ld_push_back d x = Some (ld_grown (d1\<lparr>ld_rings := rs @ [t, n']\<rparr>))"
      using e can False r n n'(1) tl u by (simp add: ld_push_back_def d1_def)
    have ne: "[] \<notin> set yss" "ys \<noteq> []"
    proof -
      show "ys \<noteq> []" using False cap by auto
      show "[] \<notin> set yss" using assms(1) r(2) by (cases yss) (auto simp: ld_chain_def)
    qed
    have "ld_chain (ld_grown (d1\<lparr>ld_rings := rs @ [t, n']\<rparr>)) (yss @ [ys, [x]])"
      using r n' ne ds addr(1) dn
      by (auto simp: ld_chain_def ld_grown_def d1_def list_all2_appendI less_Suc_eq)
    with step r(2) show ?thesis
      by (intro exI [of _ "ld_grown (d1\<lparr>ld_rings := rs @ [t, n']\<rparr>)"] exI [of _ "yss @ [ys, [x]]"])
        (simp add: ld_grown_def d1_def)
  qed
qed

lemma head_ring_Cons [simp]: "ld_rings d = r # rs \<Longrightarrow> head_ring d = Some r"
  by (simp add: head_ring_def)

lemma ld_push_front_chain:
  assumes "ld_chain d xss" "xss \<noteq> []"
  shows "\<exists>d' xss'. ld_push_front d x = Some d' \<and> ld_chain d' xss' \<and> concat xss' = x # concat xss
    \<and> ld_size d' = Suc (ld_size d) \<and> ld_max_size d' = max (ld_max_size d) (Suc (ld_size d))"
proof -
  from assms obtain h rs ys yss where r: "ld_rings d = h # rs" "xss = ys # yss"
    "ring_rep h ys" "list_all2 ring_rep rs yss"
    by (cases xss) (auto simp: ld_chain_def list_all2_Cons2)
  have e: "ld_ensure_head d = Some d" using r(1) by (simp add: ld_ensure_head_def)
  note can = CanPush_rep [OF r(3)]
  show ?thesis
  proof (cases "Suc (length ys) < ring_capacity h")
    case True
    from ring_push_front_rep [OF r(3) this, of x] obtain h' where
      h': "ring_push_front h x = Some h'" "ring_rep h' (x # ys)" "r_addr h' = r_addr h" by blast
    have "ld_chain (ld_grown (d\<lparr>ld_rings := h' # rs\<rparr>)) ((x # ys) # yss)"
      using assms(1) r h' by (auto simp: ld_chain_def ld_grown_def)
    with e can True r h' show ?thesis
      by (auto simp: ld_push_front_def ld_grown_def intro!: exI [of _ "(x # ys) # yss"])
  next
    case False
    define n :: "'a ring" where "n = \<lparr>r_addr = ld_alloc d, front_index = 0, back_index = 0,
      r_data = replicate 4 None\<rparr>"
    have n: "ring_new (ld_alloc d) 4 = Some n" "ring_rep n []" "r_addr n = ld_alloc d" "ring_capacity n = 4"
      by (simp_all add: n_def ring_new_rep ring_capacity_def)
    from ring_push_front_rep [OF n(2), of x] n(4) obtain n' where
      n': "ring_push_front n x = Some n'" "ring_rep n' [x]" "r_addr n' = r_addr n" by auto
    define d1 where "d1 = d\<lparr>ld_rings := n # h # rs, ld_alloc := Suc (ld_alloc d)\<rparr>"
    have step: "ld_push_front d x = Some (ld_grown (d1\<lparr>ld_rings := n' # h # rs\<rparr>))"
      using e can False r n n'(1) by (simp add: ld_push_front_def d1_def kMinimumRingSize_def)
    have ne: "[] \<notin> set yss" "ys \<noteq> []"
    proof -
      show "ys \<noteq> []" using False r(3) by (auto simp: ring_rep_def kMinimumRingSize_def)
      show "[] \<notin> set yss" using assms(1) r(2) by (cases yss) (auto simp: ld_chain_def)
    qed
    have "ld_chain (ld_grown (d1\<lparr>ld_rings := n' # h # rs\<rparr>)) ([x] # ys # yss)"
      using assms(1) r n(3) n' ne by (auto simp: ld_chain_def ld_grown_def d1_def less_Suc_eq)
    with step r(2) show ?thesis
      by (intro exI [of _ "ld_grown (d1\<lparr>ld_rings := n' # h # rs\<rparr>)"] exI [of _ "[x] # ys # yss"])
        (simp add: ld_grown_def d1_def)
  qed
qed

text \<open>A nonempty deque has its first element in the first ring.\<close>

lemma ld_chain_ConsE:
  assumes "ld_chain d xss" "concat xss = x # xs"
  obtains h rs ys yss where "ld_rings d = h # rs" "xss = (x # ys) # yss" "xs = ys @ concat yss"
    "ring_rep h (x # ys)" "list_all2 ring_rep rs yss"
proof -
  from assms(2) obtain zs yss where xss: "xss = zs # yss" by (cases xss) auto
  have "zs \<noteq> []" using assms xss by (cases yss) (auto simp: ld_chain_def)
  with assms(2) xss obtain ys where "zs = x # ys" "xs = ys @ concat yss" by (cases zs) auto
  with xss assms(1) that show ?thesis by (auto simp: ld_chain_def list_all2_Cons2)
qed

lemma ld_pop_front_chain:
  assumes "ld_chain d xss" "concat xss = x # xs" "ld_size d \<noteq> 0"
  shows "\<exists>d' xss'. ld_pop_front d = Some d' \<and> ld_chain d' xss' \<and> xss' \<noteq> [] \<and> concat xss' = xs
    \<and> ld_size d' = ld_size d - 1 \<and> ld_max_size d' = ld_max_size d
    \<and> ld_next_resize_time d' = ld_next_resize_time d \<and> ld_alloc d' = ld_alloc d"
proof -
  from assms(1,2) obtain h rs ys yss where r: "ld_rings d = h # rs" "xss = (x # ys) # yss"
    "xs = ys @ concat yss" "ring_rep h (x # ys)" "list_all2 ring_rep rs yss" by (rule ld_chain_ConsE)
  from ring_pop_front_rep [OF r(4)] obtain h' where
    h': "ring_pop_front h = Some h'" "ring_rep h' ys" "r_addr h' = r_addr h" by blast
  from ring_destroy_rep [OF h'(2)] obtain g where g: "ring_destroy h' = Some g" by blast
  have t: "ld_tail d \<noteq> None" using assms(1) r(1) by (simp add: ld_chain_def)
  have len: "length rs = length yss" using r(5) by (rule list_all2_lengthD)
  show ?thesis
  proof (cases "ys = [] \<and> rs \<noteq> []")
    case True
    then have "ld_pop_front d = Some (d\<lparr>ld_rings := rs, ld_size := ld_size d - 1\<rparr>)"
      using r h' g t assms(3) ring_rep_empty [OF r(4)] ring_rep_empty [OF h'(2)]
      by (simp add: ld_pop_front_def)
    moreover have "ld_chain (d\<lparr>ld_rings := rs, ld_size := ld_size d - 1\<rparr>) yss"
      using assms(1) r True by (auto simp: ld_chain_def)
    ultimately show ?thesis using r True len by (auto intro!: exI [of _ yss])
  next
    case False
    then have "ld_pop_front d = Some (d\<lparr>ld_rings := h' # rs, ld_size := ld_size d - 1\<rparr>)"
      using r h' g t assms(3) ring_rep_empty [OF r(4)] ring_rep_empty [OF h'(2)]
      by (auto simp: ld_pop_front_def)
    moreover have "ld_chain (d\<lparr>ld_rings := h' # rs, ld_size := ld_size d - 1\<rparr>) (ys # yss)"
      using assms(1) r h' False len by (auto simp: ld_chain_def)
    ultimately show ?thesis using r by (auto intro!: exI [of _ "ys # yss"])
  qed
qed

lemma ld_ensure_head_idem:
  assumes "ld_ensure_head d = Some d'"
  shows "ld_ensure_head d' = Some d'"
  using assms by (auto simp: ld_ensure_head_def split: if_splits bind_splits)

lemma ld_push_back_rep:
  assumes "ld_rep d xs"
  shows "\<exists>d'. ld_push_back d x = Some d' \<and> ld_rep d' (xs @ [x])"
proof -
  from assms obtain xss where d: "ld_chain d xss" "xs = concat xss" "ld_size d = length xs"
    "ld_size d \<le> ld_max_size d" by (auto simp: ld_rep_def)
  from ld_ensure_head_chain [OF d(1)] obtain e where e: "ld_ensure_head d = Some e"
    "ld_chain e (if xss = [] then [[]] else xss)" "ld_size e = ld_size d" "ld_max_size e = ld_max_size d" by blast
  have "ld_push_back d x = ld_push_back e x"
    using e(1) ld_ensure_head_idem [OF e(1)] by (simp add: ld_push_back_def)
  with ld_push_back_chain [OF e(2), of x] d e(3,4) show ?thesis
    by (force simp: ld_rep_def split: if_splits)
qed

lemma ld_push_front_rep:
  assumes "ld_rep d xs"
  shows "\<exists>d'. ld_push_front d x = Some d' \<and> ld_rep d' (x # xs)"
proof -
  from assms obtain xss where d: "ld_chain d xss" "xs = concat xss" "ld_size d = length xs"
    "ld_size d \<le> ld_max_size d" by (auto simp: ld_rep_def)
  from ld_ensure_head_chain [OF d(1)] obtain e where e: "ld_ensure_head d = Some e"
    "ld_chain e (if xss = [] then [[]] else xss)" "ld_size e = ld_size d" "ld_max_size e = ld_max_size d" by blast
  have "ld_push_front d x = ld_push_front e x"
    using e(1) ld_ensure_head_idem [OF e(1)] by (simp add: ld_push_front_def)
  with ld_push_front_chain [OF e(2), of x] d e(3,4) show ?thesis
    by (force simp: ld_rep_def split: if_splits)
qed

lemma ld_pop_front_rep:
  assumes "ld_rep d (x # xs)"
  shows "\<exists>d'. ld_pop_front d = Some d' \<and> ld_rep d' xs"
proof -
  from assms obtain xss where d: "ld_chain d xss" "concat xss = x # xs" "ld_size d = Suc (length xs)"
    "ld_size d \<le> ld_max_size d" by (auto simp: ld_rep_def)
  from ld_pop_front_chain [OF d(1,2)] d(3,4) show ?thesis by (force simp: ld_rep_def)
qed

lemma ld_front_rep:
  assumes "ld_rep d (x # xs)"
  shows "ld_front d = Some x"
proof -
  from assms obtain xss where d: "ld_chain d xss" "concat xss = x # xs" by (auto simp: ld_rep_def)
  from d obtain h rs ys yss where "ld_rings d = h # rs" "ring_rep h (x # ys)" by (rule ld_chain_ConsE)
  then show ?thesis using ring_front_rep by (auto simp: ld_front_def)
qed

lemma ld_back_rep:
  assumes "ld_rep d (xs @ [x])"
  shows "ld_back d = Some x"
proof -
  from assms obtain xss where d: "ld_chain d xss" "concat xss = xs @ [x]" by (auto simp: ld_rep_def)
  then have "xss \<noteq> []" by auto
  with d(1) obtain rs t yss ys where r: "xss = yss @ [ys]" "ring_rep t ys" "tail_ring d = Some t"
    by (rule ld_chain_snocE)
  have "ys \<noteq> []" using d r(1) by (cases yss) (auto simp: ld_chain_def)
  with d(2) r(1) obtain zs where "ys = zs @ [x]" by (cases ys rule: rev_cases) auto
  with r ring_back_rep show ?thesis by (auto simp: ld_back_def)
qed

lemma ld_rep_nil:
  assumes "ld_rep d []"
  shows "ld_pop_front d = None" "ld_front d = None" "ld_back d = None"
proof -
  from assms obtain xss where d: "ld_chain d xss" "concat xss = []" by (auto simp: ld_rep_def)
  then have "xss = [] \<or> xss = [[]]"
    by (cases xss; cases "tl xss") (auto simp: ld_chain_def)
  then consider "ld_rings d = []" "ld_tail d = None"
    | r where "ld_rings d = [r]" "ring_rep r []" "tail_ring d = Some r"
    using d(1) by (auto simp: ld_chain_def list_all2_Cons2 tail_ring_def)
  then have "ld_pop_front d = None \<and> ld_front d = None \<and> ld_back d = None"
  proof cases
    case 2
    with ring_rep_empty [OF 2(2)] show ?thesis
      by (simp add: ld_pop_front_def ld_front_def ld_back_def ring_front_def ring_back_def)
  qed (simp add: ld_pop_front_def ld_front_def ld_back_def head_ring_def tail_ring_def)
  then show "ld_pop_front d = None" "ld_front d = None" "ld_back d = None" by simp_all
qed

lemma ld_clear_rep:
  assumes "ld_rep d xs"
  shows "\<exists>d'. ld_clear d = Some d' \<and> ld_rep d' []"
proof -
  from assms obtain xss where d: "ld_chain d xss" by (auto simp: ld_rep_def)
  then show ?thesis
    using destroy_rings_rep [of "ld_rings d" xss]
    by (auto simp: ld_chain_def ld_clear_def ld_rep_def intro!: exI [of _ "[]"])
qed

interpretation ld: deque_impl lazy_deque_ops ld_rep
proof (unfold_locales, simp_all add: lazy_deque_ops_def ld_push_back_rep ld_push_front_rep ld_pop_front_rep
    ld_front_rep ld_back_rep ld_rep_nil ld_clear_rep)
  show "ld_rep ld_new []"
    by (auto simp: ld_rep_def ld_chain_def ld_new_def intro!: exI [of _ "[]"])
qed (simp_all add: ld_rep_def ld_empty_def)

section \<open>Shrinking\<close>

lemma move_elements_chain:
  assumes "ld_chain d xss" "concat xss = xs" "ld_size d = length xs"
    and "ring_rep n ys" "length ys + length xs < ring_capacity n"
  shows "\<exists>n' d' yss. move_elements n d = Some (n', d') \<and> ring_rep n' (ys @ xs) \<and> r_addr n' = r_addr n
    \<and> ring_capacity n' = ring_capacity n \<and> ld_chain d' yss \<and> concat yss = []
    \<and> ld_max_size d' = ld_max_size d \<and> ld_next_resize_time d' = ld_next_resize_time d
    \<and> ld_alloc d' = ld_alloc d"
  using assms
proof (induction xs arbitrary: d xss n ys)
  case Nil
  then show ?case by (subst move_elements.simps) (auto simp: ld_empty_def)
next
  case (Cons x xs)
  from Cons.prems(1,2) obtain h rs zs zss where h: "ld_rings d = h # rs" "ring_rep h (x # zs)"
    by (rule ld_chain_ConsE)
  from ring_push_back_rep [OF Cons.prems(4), of x] Cons.prems(5) obtain n1 where
    n1: "ring_push_back n x = Some n1" "ring_rep n1 (ys @ [x])" "r_addr n1 = r_addr n"
      "ring_capacity n1 = ring_capacity n" by auto
  from ld_pop_front_chain [OF Cons.prems(1,2)] Cons.prems(3) obtain d1 xss1 where
    d1: "ld_pop_front d = Some d1" "ld_chain d1 xss1" "concat xss1 = xs" "ld_size d1 = length xs"
      "ld_max_size d1 = ld_max_size d" "ld_next_resize_time d1 = ld_next_resize_time d"
      "ld_alloc d1 = ld_alloc d" by auto
  have "length (ys @ [x]) + length xs < ring_capacity n1" using Cons.prems(5) n1(4) by simp
  from Cons.IH [OF d1(2-4) n1(2) this] obtain n' d' yss where
    "move_elements n1 d1 = Some (n', d')" "ring_rep n' ((ys @ [x]) @ xs)" "r_addr n' = r_addr n1"
    "ring_capacity n' = ring_capacity n1" "ld_chain d' yss" "concat yss = []"
    "ld_max_size d' = ld_max_size d1" "ld_next_resize_time d' = ld_next_resize_time d1"
    "ld_alloc d' = ld_alloc d1" by blast
  then show ?case
    using Cons.prems h n1 d1 CanPush_rep [OF Cons.prems(4)] ring_front_rep [OF h(2)]
    by (subst move_elements.simps) (auto simp: ld_empty_def)
qed

lemma ld_chain_empty:
  assumes "ld_chain d xss" "concat xss = []"
  shows "map_option r_addr (head_ring d) = ld_tail d"
proof -
  have "xss = [] \<or> xss = [[]]"
    using assms by (cases xss; cases "tl xss") (auto simp: ld_chain_def)
  then show ?thesis using assms(1) by (auto simp: ld_chain_def list_all2_Cons2 head_ring_def)
qed

lemma ld_SetCapacity_rep:
  assumes "ld_rep d xs" "4 \<le> n" "length xs < n"
  shows "\<exists>d'. ld_SetCapacity d n = Some d' \<and> ld_rep d' xs \<and> ld_capacity d' = n
    \<and> ld_max_size d' = ld_max_size d \<and> ld_next_resize_time d' = ld_next_resize_time d"
proof -
  from assms(1) obtain xss where d: "ld_chain d xss" "concat xss = xs" "ld_size d = length xs"
    "ld_size d \<le> ld_max_size d" by (auto simp: ld_rep_def)
  let ?n = "\<lparr>r_addr = ld_alloc d, front_index = 0, back_index = 0, r_data = replicate n None\<rparr>"
  let ?d = "d\<lparr>ld_alloc := ld_alloc d + 1\<rparr>"
  have "ld_chain ?d xss" using d(1) by (auto simp: ld_chain_def less_Suc_eq)
  from move_elements_chain [OF this d(2) _ ring_new_rep(2) [OF assms(2), of "ld_alloc d"]] d(3) assms(3)
  obtain n' d' yss where m: "move_elements ?n ?d = Some (n', d')" "ring_rep n' xs" "r_addr n' = ld_alloc d"
    "ring_capacity n' = n" "ld_chain d' yss" "concat yss = []" "ld_max_size d' = ld_max_size d"
    "ld_next_resize_time d' = ld_next_resize_time d" "ld_alloc d' = Suc (ld_alloc d)"
    by (auto simp: ring_capacity_def)
  let ?r = "d'\<lparr>ld_size := length xs, ld_rings := [n'], ld_tail := Some (r_addr n')\<rparr>"
  have "destroy_rings (ld_rings d') = Some ()"
    using m(5) destroy_rings_rep by (auto simp: ld_chain_def)
  moreover have "head_ring (d'\<lparr>ld_size := s\<rparr>) = head_ring d'" for s by (simp add: head_ring_def)
  ultimately have "ld_SetCapacity d n = Some ?r"
    using m(1) ld_chain_empty [OF m(5,6)] d(3) assms(2,3)
    by (simp add: ld_SetCapacity_def ring_new_rep)
  moreover have "ld_chain ?r [xs]" using m(2,3,9) by (simp add: ld_chain_def)
  then have "ld_rep ?r xs" using m(7) d(3,4) by (auto simp: ld_rep_def intro!: exI [of _ "[xs]"])
  ultimately show ?thesis using m(4,7,8) by (simp add: ld_capacity_def)
qed

lemma MaybeShrinkQueue_rep:
  assumes "ld_rep d xs" "in_range int64_t now"
  shows "\<exists>d'. MaybeShrinkQueue tc now d = Some d' \<and> ld_rep d' xs \<and> ld_capacity d' \<le> ld_capacity d
    \<and> (now < ld_next_resize_time d \<longrightarrow> d' = d)
    \<and> (d' \<noteq> d \<longrightarrow> ld_max_size d' = length xs)
    \<and> (ld_capacity d' \<noteq> ld_capacity d \<longrightarrow> ld_capacity d' = max (ld_max_size d + 1) 4
        \<and> ld_next_resize_time d' = clamp int64_t (now + 5000000))"
proof -
  let ?n = "max (ld_max_size d + 1) kMinimumRingSize"
  let ?d = "d\<lparr>ld_max_size := ld_size d\<rparr>"
  have s: "ld_size d = length xs" "ld_size d \<le> ld_max_size d" using assms(1) by (simp_all add: ld_rep_def)
  have c: "ld_capacity ?d = ld_capacity d" by (simp add: ld_capacity_def)
  have d: "ld_rep ?d xs" using assms(1) by (auto simp: ld_rep_def)
  show ?thesis
  proof (cases "ld_tail d = None \<or> now < ld_next_resize_time d \<or> ld_capacity d \<le> ?n + kReclaimThreshold")
    case True
    then have "MaybeShrinkQueue tc now d
        = Some (if ld_tail d = None \<or> now < ld_next_resize_time d then d else ?d)"
      using s(2) c by (auto simp: MaybeShrinkQueue_def Let_def)
    then show ?thesis using assms(1) d s(1) c by (auto split: if_splits)
  next
    case False
    have "4 \<le> ?n" "length xs < ?n" using s by (simp_all add: kMinimumRingSize_def)
    from ld_SetCapacity_rep [OF d this] obtain d' where d': "ld_SetCapacity ?d ?n = Some d'" "ld_rep d' xs"
      "ld_capacity d' = ?n" "ld_max_size d' = length xs" using s(1) by auto
    let ?t = "clamp int64_t (now + 5000000)"
    have "FromSeconds kMinimumShrinkIntervalInSeconds = Some 5000000"
      by (simp add: FromSeconds_eq kMinimumShrinkIntervalInSeconds_def time_units clamp_def int64_limits)
    moreover have "time_plus tc now 5000000 = Some ?t"
      using assms(2) by (simp add: time_plus_def SaturatedAdd_eq in_range_int64 td_Max_def td_Min_def int64_limits)
    ultimately have "MaybeShrinkQueue tc now d = Some (d'\<lparr>ld_next_resize_time := ?t\<rparr>)"
      using False s(2) c d'(1) by (auto simp: MaybeShrinkQueue_def Let_def)
    with False d' show ?thesis
      by (auto simp: ld_rep_def ld_capacity_def kMinimumRingSize_def kReclaimThreshold_def)
  qed
qed

section \<open>Iterating\<close>

lemma next_ring_split:
  assumes "distinct (map r_addr (rs1 @ r # rs2))"
  shows "next_ring (rs1 @ r # rs2) (r_addr r) = (case rs2 of [] \<Rightarrow> None | s # _ \<Rightarrow> Some s)"
  using assms
proof (induction rs1)
  case Nil
  then show ?case by (cases rs2) auto
next
  case (Cons q rs1)
  then show ?case by (cases rs1) auto
qed

lemma back_index_pos:
  assumes "ring_rep r ys" "k < length ys"
  shows "Suc (front_index r + k) mod ring_capacity r = back_index r \<longleftrightarrow> Suc k = length ys"
proof -
  have r: "front_index r < ring_capacity r" "length ys < ring_capacity r"
    "back_index r = (front_index r + length ys) mod ring_capacity r"
    using assms(1) by (simp_all add: ring_rep_def)
  from ring_index_inj [OF r(1), of "Suc k" "length ys"] r assms(2) show ?thesis by simp
qed

lemma ld_collect_end: "ld_collect d \<lparr>li_ring = None, li_index = i\<rparr> = Some []"
  by (simp add: ld_collect.simps)

lemma ld_collect_from:
  assumes "ld_chain d (xss1 @ ys # xss2)" "ld_rings d = rs1 @ r # rs2"
    and "ring_rep r ys" "list_all2 ring_rep rs2 xss2" "k < length ys"
  shows "ld_collect d \<lparr>li_ring = Some (r_addr r), li_index = Suc (front_index r + k) mod ring_capacity r\<rparr>
    = Some (drop k ys @ concat xss2)"
  using assms
proof (induction "length (drop k ys @ concat xss2)" arbitrary: xss1 ys xss2 rs1 r rs2 k rule: less_induct)
  case less
  note p = less.prems
  have ds: "distinct (map r_addr (rs1 @ r # rs2))" using p(1,2) by (simp add: ld_chain_def)
  have f: "find_ring d (r_addr r) = Some r"
    using find_addr [OF ds, of r] p(2) by (simp add: find_ring_def)
  have front: "front_index r < ring_capacity r" using p(3) by (simp add: ring_rep_def)
  note nx = next_ring_split [OF ds]
  have drp: "drop k ys = ys ! k # drop (Suc k) ys" using p(5) by (rule Cons_nth_drop_Suc [symmetric])
  note step = f ring_slot_rep [OF p(3,5)] back_index_pos [OF p(3,5)] drp
  show ?case
  proof (cases "Suc k = length ys")
    case False
    then have k: "Suc k < length ys" using p(5) by simp
    have "ld_collect d \<lparr>li_ring = Some (r_addr r), li_index = Suc (front_index r + Suc k) mod ring_capacity r\<rparr>
        = Some (drop (Suc k) ys @ concat xss2)"
      using p(5) by (intro less.hyps [OF _ p(1-4) k]) simp
    then show ?thesis
      using step False CircularIncrement_index [OF front, of "Suc k"]
      by (subst ld_collect.simps) (simp add: ld_deref_def ld_increment_def)
  next
    case True
    show ?thesis
    proof (cases rs2)
      case Nil
      then have "xss2 = []" using p(4) by simp
      then show ?thesis
        using step True nx Nil p(2)
        by (subst ld_collect.simps) (simp add: ld_deref_def ld_increment_def ld_collect_end)
    next
      case (Cons s rs3)
      with p(4) obtain zs xss3 where z: "xss2 = zs # xss3" "ring_rep s zs" "list_all2 ring_rep rs3 xss3"
        by (auto simp: list_all2_Cons1)
      have "zs \<noteq> []" using p(1) z(1) by (auto simp: ld_chain_def)
      then have "ld_collect d \<lparr>li_ring = Some (r_addr s), li_index = Suc (front_index s + 0) mod ring_capacity s\<rparr>
          = Some (drop 0 zs @ concat xss3)"
        using p(1,2,5) z Cons
        by (intro less.hyps [of 0 zs xss3 "xss1 @ [ys]" "rs1 @ [r]" s rs3]) simp_all
      moreover have "front_index s < ring_capacity s" using z(2) by (simp add: ring_rep_def)
      ultimately show ?thesis
        using step True nx Cons p(2) z(1) CircularIncrement_index [of s 0]
        by (subst ld_collect.simps) (simp add: ld_deref_def ld_increment_def)
    qed
  qed
qed

lemma ld_values_rep:
  assumes "ld_rep d xs"
  shows "ld_values d = Some xs"
proof -
  from assms obtain xss where d: "ld_chain d xss" "xs = concat xss" by (auto simp: ld_rep_def)
  show ?thesis
  proof (cases xs)
    case Nil
    then have "xss = [] \<or> xss = [[]]"
      using d by (cases xss; cases "tl xss") (auto simp: ld_chain_def)
    then have "ld_begin d = Some \<lparr>li_ring = None, li_index = 0\<rparr>"
      using d(1) by (auto simp: ld_chain_def list_all2_Cons2 ld_begin_def head_ring_def ring_rep_empty)
    then show ?thesis using Nil by (simp add: ld_values_def ld_collect_end)
  next
    case (Cons x xs')
    with d obtain h rs ys yss where h: "ld_rings d = h # rs" "xss = (x # ys) # yss"
      "ring_rep h (x # ys)" "list_all2 ring_rep rs yss" by (metis ld_chain_ConsE)
    have "front_index h < ring_capacity h" using h(3) by (simp add: ring_rep_def)
    then have "ld_begin d = Some \<lparr>li_ring = Some (r_addr h), li_index = Suc (front_index h + 0) mod ring_capacity h\<rparr>"
      using h(1) ring_rep_empty [OF h(3)] CircularIncrement_index [of h 0] by (simp add: ld_begin_def)
    moreover have "ld_collect d \<lparr>li_ring = Some (r_addr h), li_index = Suc (front_index h + 0) mod ring_capacity h\<rparr>
        = Some (drop 0 (x # ys) @ concat yss)"
      using d(1) h by (intro ld_collect_from [of d "[]" _ _ "[]" _ rs]) simp_all
    ultimately show ?thesis using d(2) h(2) by (simp add: ld_values_def)
  qed
qed

section \<open>Properties\<close>

text \<open>
  Claim C14.  A program of pushes, pops and reads observes on a LazilyDeallocatedDeque, starting from the
  empty one, exactly what it observes on a list: the chain of rings, its raw tail pointer and the growth
  of the last ring cannot be seen, and no check fires that would not fire on the list.
\<close>

theorem lazy_deque_refines_list:
  "observe lazy_deque_ops cs = observe list_deque cs"
  by (rule ld.observe_list)



text \<open>
  Iterating over a LazilyDeallocatedDeque ends and yields its elements in order, across the
  rings of the chain and around the end of each ring.
\<close>

theorem lazy_deque_iterates:
  assumes "ld_rep d xs"
  shows "ld_values d = Some xs"
  using assms by (rule ld_values_rep)

theorem lazy_deque_iterates_witness:
  "\<exists>d. ld_push_back ld_new (1 :: nat) = Some d \<and> ld_values d = Some [1]"
proof -
  have "ld_rep ld_new ([] :: nat list)" using ld.new_rep by (simp add: lazy_deque_ops_def)
  from ld_push_back_rep [OF this, of 1] obtain d where "ld_push_back ld_new (1 :: nat) = Some d" "ld_rep d [1]" by auto
  with lazy_deque_iterates [of d "[1]"] show ?thesis by blast
qed

end
