(* ===== verification/Intrusive_Heap.thy ===== *)
theory Intrusive_Heap
  imports Prelude
begin

text \<open>
  IntrusiveHeap (base/containers/intrusive_heap.h) and the adapter for the scheduler
  (base/task/common/intrusive_heap.h).

  The heap is a vector of elements.  A handle is the index of an element; the heap writes it to storage
  that belongs to the element.  That storage is a map from the identity \<open>hid x\<close> of an element to its
  current index, \<open>None\<close> being the invalid handle: this is how the elements of the scheduler keep their
  handles (in the queue that an element names).  The comparator \<open>cmp\<close> and \<open>hid\<close> are parameters of the
  class template and arguments here.  Iterators are indices.
\<close>

section \<open>The class\<close>

record ('a, 'k) intrusive_heap =
  h_heap :: "'a list"
  h_handle :: "'k \<Rightarrow> nat option"

definition heap_size :: "('a, 'k) intrusive_heap \<Rightarrow> nat" where
  "heap_size h = length (h_heap h)"

definition heap_empty :: "('a, 'k) intrusive_heap \<Rightarrow> bool" where
  "heap_empty h \<longleftrightarrow> h_heap h = []"

definition heap_at :: "('a, 'k) intrusive_heap \<Rightarrow> nat \<Rightarrow> 'a option" where
  "heap_at h pos = (if pos < heap_size h then Some (h_heap h ! pos) else None)"

definition heap_top :: "('a, 'k) intrusive_heap \<Rightarrow> 'a option" where
  "heap_top h = heap_at h 0"

definition ParentIndex :: "nat \<Rightarrow> nat option" where
  "ParentIndex i = do { DCHECK (i \<noteq> 0); Some ((i - 1) div 2) }"

definition LeftIndex :: "nat \<Rightarrow> nat" where
  "LeftIndex i = 2 * i + 1"

definition CheckInvalidOrEqualTo :: "nat option \<Rightarrow> nat \<Rightarrow> unit option" where
  "CheckInvalidOrEqualTo handle index = (case handle of None \<Rightarrow> Some () | Some i \<Rightarrow> DCHECK (index = i))"

definition GetHeapHandle :: "('a \<Rightarrow> 'k) \<Rightarrow> ('a, 'k) intrusive_heap \<Rightarrow> nat \<Rightarrow> nat option option" where
  "GetHeapHandle hid h i = do { x \<leftarrow> heap_at h i; Some (h_handle h (hid x)) }"

definition SetHeapHandle :: "('a \<Rightarrow> 'k) \<Rightarrow> ('a, 'k) intrusive_heap \<Rightarrow> nat \<Rightarrow> ('a, 'k) intrusive_heap option" where
  "SetHeapHandle hid h i =
     do { x \<leftarrow> heap_at h i;
          let h = h\<lparr>h_handle := (h_handle h)(hid x := Some i)\<rparr>;
          handle \<leftarrow> GetHeapHandle hid h i;
          CheckInvalidOrEqualTo handle i;
          Some h }"

definition ClearHeapHandle :: "('a \<Rightarrow> 'k) \<Rightarrow> ('a, 'k) intrusive_heap \<Rightarrow> nat \<Rightarrow> ('a, 'k) intrusive_heap option" where
  "ClearHeapHandle hid h i =
     do { x \<leftarrow> heap_at h i;
          let h = h\<lparr>h_handle := (h_handle h)(hid x := None)\<rparr>;
          handle \<leftarrow> GetHeapHandle hid h i;
          DCHECK (handle = None);
          Some h }"

text \<open>The three overloads of Less.\<close>

definition Less_pos_pos :: "('a \<Rightarrow> 'a \<Rightarrow> bool) \<Rightarrow> ('a, 'k) intrusive_heap \<Rightarrow> nat \<Rightarrow> nat \<Rightarrow> bool option" where
  "Less_pos_pos cmp h i j = do { x \<leftarrow> heap_at h i; y \<leftarrow> heap_at h j; Some (cmp x y) }"

definition Less_elem_pos :: "('a \<Rightarrow> 'a \<Rightarrow> bool) \<Rightarrow> ('a, 'k) intrusive_heap \<Rightarrow> 'a \<Rightarrow> nat \<Rightarrow> bool option" where
  "Less_elem_pos cmp h e i = do { x \<leftarrow> heap_at h i; Some (cmp e x) }"

definition Less_pos_elem :: "('a \<Rightarrow> 'a \<Rightarrow> bool) \<Rightarrow> ('a, 'k) intrusive_heap \<Rightarrow> nat \<Rightarrow> 'a \<Rightarrow> bool option" where
  "Less_pos_elem cmp h i e = do { x \<leftarrow> heap_at h i; Some (cmp x e) }"

definition MakeHole :: "('a \<Rightarrow> 'k) \<Rightarrow> ('a, 'k) intrusive_heap \<Rightarrow> nat \<Rightarrow> ('a, 'k) intrusive_heap option" where
  "MakeHole hid h pos = do { DCHECK (pos < heap_size h); ClearHeapHandle hid h pos }"

text \<open>Assignment to a slot of the vector, or push_back one past its end.\<close>

definition heap_put :: "('a, 'k) intrusive_heap \<Rightarrow> nat \<Rightarrow> 'a \<Rightarrow> ('a, 'k) intrusive_heap" where
  "heap_put h pos x =
     (if pos = heap_size h then h\<lparr>h_heap := h_heap h @ [x]\<rparr> else h\<lparr>h_heap := (h_heap h)[pos := x]\<rparr>)"

definition FillHole ::
  "('a \<Rightarrow> 'k) \<Rightarrow> ('a, 'k) intrusive_heap \<Rightarrow> nat \<Rightarrow> 'a \<Rightarrow> ('a, 'k) intrusive_heap option" where
  "FillHole hid h hole_pos e =
     do { DCHECK (hole_pos \<le> heap_size h); SetHeapHandle hid (heap_put h hole_pos e) hole_pos }"

definition MoveHole ::
  "('a \<Rightarrow> 'k) \<Rightarrow> ('a, 'k) intrusive_heap \<Rightarrow> nat \<Rightarrow> nat \<Rightarrow> ('a, 'k) intrusive_heap option" where
  "MoveHole hid h new_hole_pos old_hole_pos =
     do { DCHECK (new_hole_pos \<noteq> old_hole_pos);
          DCHECK (new_hole_pos < heap_size h);
          DCHECK (old_hole_pos \<le> heap_size h);
          SetHeapHandle hid (heap_put h old_hole_pos (h_heap h ! new_hole_pos)) old_hole_pos }"

function hole_up_loop ::
  "('a \<Rightarrow> 'a \<Rightarrow> bool) \<Rightarrow> ('a \<Rightarrow> 'k) \<Rightarrow> ('a, 'k) intrusive_heap \<Rightarrow> nat \<Rightarrow> 'a
     \<Rightarrow> (('a, 'k) intrusive_heap \<times> nat) option" where
  "hole_up_loop cmp hid h hole_pos e =
     (if hole_pos = 0 then Some (h, hole_pos)
      else do { parent \<leftarrow> ParentIndex hole_pos;
                l \<leftarrow> Less_pos_elem cmp h parent e;
                if \<not> l then Some (h, hole_pos)
                else do { h \<leftarrow> MoveHole hid h parent hole_pos;
                          hole_up_loop cmp hid h parent e } })"
  by pat_completeness auto

termination
  by (relation "measure (\<lambda>(_, _, _, hole_pos, _). hole_pos)") (auto simp: ParentIndex_def)

declare hole_up_loop.simps [simp del]

definition MoveHoleUpAndFill ::
  "('a \<Rightarrow> 'a \<Rightarrow> bool) \<Rightarrow> ('a \<Rightarrow> 'k) \<Rightarrow> ('a, 'k) intrusive_heap \<Rightarrow> nat \<Rightarrow> 'a
     \<Rightarrow> (('a, 'k) intrusive_heap \<times> nat) option" where
  "MoveHoleUpAndFill cmp hid h hole_pos e =
     do { DCHECK (hole_pos \<le> heap_size h);
          (h, hole_pos) \<leftarrow> hole_up_loop cmp hid h hole_pos e;
          h \<leftarrow> FillHole hid h hole_pos e;
          Some (h, hole_pos) }"

function hole_down_loop ::
  "bool \<Rightarrow> ('a \<Rightarrow> 'a \<Rightarrow> bool) \<Rightarrow> ('a \<Rightarrow> 'k) \<Rightarrow> nat \<Rightarrow> ('a, 'k) intrusive_heap \<Rightarrow> nat \<Rightarrow> 'a
     \<Rightarrow> (('a, 'k) intrusive_heap \<times> nat) option" where
  "hole_down_loop kIsLeafElement cmp hid n h hole_pos e =
     (let left = LeftIndex hole_pos
      in if n \<le> left then Some (h, hole_pos)
         else do { right_larger \<leftarrow> (if left + 1 < n then Less_pos_pos cmp h left (left + 1) else Some False);
                   let largest = (if right_larger then left + 1 else left);
                   go \<leftarrow> (if kIsLeafElement then Some True else Less_elem_pos cmp h e largest);
                   if \<not> go then Some (h, hole_pos)
                   else do { h \<leftarrow> MoveHole hid h largest hole_pos;
                             hole_down_loop kIsLeafElement cmp hid n h largest e } })"
  by pat_completeness auto

termination
  by (relation "measure (\<lambda>(_, _, _, n, _, hole_pos, _). n - hole_pos)") (auto simp: LeftIndex_def split: if_splits)

declare hole_down_loop.simps [simp del]

definition MoveHoleDownAndFill ::
  "bool \<Rightarrow> ('a \<Rightarrow> 'a \<Rightarrow> bool) \<Rightarrow> ('a \<Rightarrow> 'k) \<Rightarrow> ('a, 'k) intrusive_heap \<Rightarrow> nat \<Rightarrow> 'a
     \<Rightarrow> (('a, 'k) intrusive_heap \<times> nat) option" where
  "MoveHoleDownAndFill kIsLeafElement cmp hid h hole_pos e =
     do { DCHECK (hole_pos < heap_size h);
          let n = heap_size h - (if kIsLeafElement then 1 else 0);
          DCHECK (hole_pos < n);
          handle \<leftarrow> GetHeapHandle hid h hole_pos;
          DCHECK (handle = None);
          (h, hole_pos) \<leftarrow> hole_down_loop kIsLeafElement cmp hid n h hole_pos e;
          if kIsLeafElement then MoveHoleUpAndFill cmp hid h hole_pos e
          else do { h \<leftarrow> FillHole hid h hole_pos e; Some (h, hole_pos) } }"

definition heap_new :: "('a, 'k) intrusive_heap" where
  "heap_new = \<lparr>h_heap = [], h_handle = (\<lambda>_. None)\<rparr>"

primrec clear_handles :: "('a \<Rightarrow> 'k) \<Rightarrow> ('a, 'k) intrusive_heap \<Rightarrow> nat list \<Rightarrow> ('a, 'k) intrusive_heap option" where
  "clear_handles hid h [] = Some h"
| "clear_handles hid h (i # is) = do { h \<leftarrow> ClearHeapHandle hid h i; clear_handles hid h is }"

definition heap_clear :: "('a \<Rightarrow> 'k) \<Rightarrow> ('a, 'k) intrusive_heap \<Rightarrow> ('a, 'k) intrusive_heap option" where
  "heap_clear hid h =
     do { h \<leftarrow> clear_handles hid h [0..<heap_size h]; Some (h\<lparr>h_heap := []\<rparr>) }"

definition InsertImpl ::
  "('a \<Rightarrow> 'a \<Rightarrow> bool) \<Rightarrow> ('a \<Rightarrow> 'k) \<Rightarrow> ('a, 'k) intrusive_heap \<Rightarrow> 'a \<Rightarrow> (('a, 'k) intrusive_heap \<times> nat) option" where
  "InsertImpl cmp hid h e = MoveHoleUpAndFill cmp hid h (heap_size h) e"

primrec heap_insert_range ::
  "('a \<Rightarrow> 'a \<Rightarrow> bool) \<Rightarrow> ('a \<Rightarrow> 'k) \<Rightarrow> ('a, 'k) intrusive_heap \<Rightarrow> 'a list \<Rightarrow> ('a, 'k) intrusive_heap option" where
  "heap_insert_range cmp hid h [] = Some h"
| "heap_insert_range cmp hid h (x # xs) =
     do { (h, _) \<leftarrow> InsertImpl cmp hid h x; heap_insert_range cmp hid h xs }"

definition heap_erase ::
  "('a \<Rightarrow> 'a \<Rightarrow> bool) \<Rightarrow> ('a \<Rightarrow> 'k) \<Rightarrow> ('a, 'k) intrusive_heap \<Rightarrow> nat \<Rightarrow> ('a, 'k) intrusive_heap option" where
  "heap_erase cmp hid h pos =
     do { DCHECK (pos < heap_size h);
          h \<leftarrow> MakeHole hid h pos;
          let last_index = heap_size h - 1;
          h \<leftarrow> (if pos \<noteq> last_index then
                 do { h \<leftarrow> MakeHole hid h last_index;
                      x \<leftarrow> heap_at h last_index;
                      (h, _) \<leftarrow> MoveHoleDownAndFill True cmp hid h pos x;
                      Some h }
               else Some h);
          Some (h\<lparr>h_heap := butlast (h_heap h)\<rparr>) }"

definition heap_take ::
  "('a \<Rightarrow> 'a \<Rightarrow> bool) \<Rightarrow> ('a \<Rightarrow> 'k) \<Rightarrow> ('a, 'k) intrusive_heap \<Rightarrow> nat \<Rightarrow> ('a \<times> ('a, 'k) intrusive_heap) option" where
  "heap_take cmp hid h pos =
     do { h \<leftarrow> MakeHole hid h pos;
          val \<leftarrow> heap_at h pos;
          let last_index = heap_size h - 1;
          h \<leftarrow> (if pos \<noteq> last_index then
                 do { h \<leftarrow> MakeHole hid h last_index;
                      x \<leftarrow> heap_at h last_index;
                      (h, _) \<leftarrow> MoveHoleDownAndFill True cmp hid h pos x;
                      Some h }
               else Some h);
          Some (val, h\<lparr>h_heap := butlast (h_heap h)\<rparr>) }"

definition heap_pop ::
  "('a \<Rightarrow> 'a \<Rightarrow> bool) \<Rightarrow> ('a \<Rightarrow> 'k) \<Rightarrow> ('a, 'k) intrusive_heap \<Rightarrow> ('a, 'k) intrusive_heap option" where
  "heap_pop cmp hid h = heap_erase cmp hid h 0"

definition ReplaceImpl ::
  "('a \<Rightarrow> 'a \<Rightarrow> bool) \<Rightarrow> ('a \<Rightarrow> 'k) \<Rightarrow> ('a, 'k) intrusive_heap \<Rightarrow> nat \<Rightarrow> 'a
     \<Rightarrow> (('a, 'k) intrusive_heap \<times> nat) option" where
  "ReplaceImpl cmp hid h pos e =
     do { h \<leftarrow> MakeHole hid h pos;
          l \<leftarrow> Less_elem_pos cmp h e pos;
          if \<not> l then MoveHoleUpAndFill cmp hid h pos e
          else MoveHoleDownAndFill False cmp hid h pos e }"

definition ReplaceTopImpl ::
  "('a \<Rightarrow> 'a \<Rightarrow> bool) \<Rightarrow> ('a \<Rightarrow> 'k) \<Rightarrow> ('a, 'k) intrusive_heap \<Rightarrow> 'a
     \<Rightarrow> (('a, 'k) intrusive_heap \<times> nat) option" where
  "ReplaceTopImpl cmp hid h e =
     do { h \<leftarrow> MakeHole hid h 0; MoveHoleDownAndFill False cmp hid h 0 e }"

definition heap_Update ::
  "('a \<Rightarrow> 'a \<Rightarrow> bool) \<Rightarrow> ('a \<Rightarrow> 'k) \<Rightarrow> ('a, 'k) intrusive_heap \<Rightarrow> nat
     \<Rightarrow> (('a, 'k) intrusive_heap \<times> nat) option" where
  "heap_Update cmp hid h pos =
     do { DCHECK (pos < heap_size h);
          h \<leftarrow> MakeHole hid h pos;
          child_greater_eq_parent \<leftarrow>
            (if 0 < pos then do { i \<leftarrow> ParentIndex pos; l \<leftarrow> Less_pos_pos cmp h pos i; Some (\<not> l) }
             else Some False);
          x \<leftarrow> heap_at h pos;
          if child_greater_eq_parent then MoveHoleUpAndFill cmp hid h pos x
          else MoveHoleDownAndFill False cmp hid h pos x }"

text \<open>A client that takes the top element \<open>n\<close> times.\<close>

primrec heap_drain ::
  "('a \<Rightarrow> 'a \<Rightarrow> bool) \<Rightarrow> ('a \<Rightarrow> 'k) \<Rightarrow> nat \<Rightarrow> ('a, 'k) intrusive_heap \<Rightarrow> 'a list option" where
  "heap_drain cmp hid 0 h = Some []"
| "heap_drain cmp hid (Suc n) h =
     do { (x, h) \<leftarrow> heap_take cmp hid h 0; xs \<leftarrow> heap_drain cmp hid n h; Some (x # xs) }"

text \<open>The comparator of the scheduler's adapter, for elements ordered by \<open><=\<close> on a key.\<close>

definition GreaterUsingLessEqual :: "('a \<Rightarrow> 'b :: linorder) \<Rightarrow> 'a \<Rightarrow> 'a \<Rightarrow> bool" where
  "GreaterUsingLessEqual key t1 t2 \<longleftrightarrow> key t2 \<le> key t1"

section \<open>Specification\<close>

text \<open>
  The contents of a heap: the element that each valid handle leads to.  \<open>holes_ok\<close> says that the handles
  are right except for the slots in \<open>H\<close>, which no handle names.
\<close>

definition contents :: "('a, 'k) intrusive_heap \<Rightarrow> 'k \<Rightarrow> 'a option" where
  "contents h k = map_option (\<lambda>i. h_heap h ! i) (h_handle h k)"

definition holes_ok :: "('a \<Rightarrow> 'k) \<Rightarrow> ('a, 'k) intrusive_heap \<Rightarrow> nat set \<Rightarrow> bool" where
  "holes_ok hid h H \<longleftrightarrow>
     (\<forall>i < length (h_heap h). i \<notin> H \<longrightarrow> h_handle h (hid (h_heap h ! i)) = Some i) \<and>
     (\<forall>k i. h_handle h k = Some i \<longrightarrow> i < length (h_heap h) \<and> i \<notin> H \<and> hid (h_heap h ! i) = k)"

definition heap_upto :: "('a \<Rightarrow> 'p :: linorder) \<Rightarrow> nat \<Rightarrow> 'a list \<Rightarrow> bool" where
  "heap_upto prio n xs \<longleftrightarrow> (\<forall>i. 0 < i \<and> i < n \<longrightarrow> prio (xs ! i) \<le> prio (xs ! ((i - 1) div 2)))"

text \<open>The heap property with a hole: it holds around the hole and across it.\<close>

definition heap_except :: "('a \<Rightarrow> 'p :: linorder) \<Rightarrow> nat \<Rightarrow> 'a list \<Rightarrow> nat \<Rightarrow> bool" where
  "heap_except prio n xs hole \<longleftrightarrow>
     (\<forall>i. 0 < i \<and> i < n \<and> i \<noteq> hole \<and> (i - 1) div 2 \<noteq> hole \<longrightarrow> prio (xs ! i) \<le> prio (xs ! ((i - 1) div 2))) \<and>
     (\<forall>i. 0 < hole \<and> 0 < i \<and> i < n \<and> (i - 1) div 2 = hole \<longrightarrow> prio (xs ! i) \<le> prio (xs ! ((hole - 1) div 2)))"

definition heap_wf :: "('a \<Rightarrow> 'p :: linorder) \<Rightarrow> ('a \<Rightarrow> 'k) \<Rightarrow> ('a, 'k) intrusive_heap \<Rightarrow> bool" where
  "heap_wf prio hid h \<longleftrightarrow> holes_ok hid h {} \<and> heap_upto prio (heap_size h) (h_heap h)"

text \<open>A heap of the scheduler: the least key has the highest priority.\<close>

abbreviation min_heap_wf :: "('a \<Rightarrow> nat) \<Rightarrow> ('a \<Rightarrow> 'k) \<Rightarrow> ('a, 'k) intrusive_heap \<Rightarrow> bool" where
  "min_heap_wf key \<equiv> heap_wf (\<lambda>x. - int (key x))"

section \<open>Handles\<close>

lemma holes_okD:
  assumes "holes_ok hid h H"
  shows "i < length (h_heap h) \<Longrightarrow> i \<notin> H \<Longrightarrow> h_handle h (hid (h_heap h ! i)) = Some i"
    "h_handle h k = Some i \<Longrightarrow> i < length (h_heap h)"
    "h_handle h k = Some i \<Longrightarrow> i \<notin> H"
    "h_handle h k = Some i \<Longrightarrow> hid (h_heap h ! i) = k"
  using assms by (auto simp: holes_ok_def)

lemma SetHeapHandle_eq [simp]:
  "i < length (h_heap h) \<Longrightarrow>
     SetHeapHandle hid h i = Some (h\<lparr>h_handle := (h_handle h)(hid (h_heap h ! i) := Some i)\<rparr>)"
  by (simp add: SetHeapHandle_def heap_at_def heap_size_def GetHeapHandle_def CheckInvalidOrEqualTo_def)

lemma MakeHole_eq:
  "i < length (h_heap h) \<Longrightarrow>
     MakeHole hid h i = Some (h\<lparr>h_handle := (h_handle h)(hid (h_heap h ! i) := None)\<rparr>)"
  by (simp add: MakeHole_def ClearHeapHandle_def heap_at_def heap_size_def GetHeapHandle_def)

text \<open>A hole is made: the element loses its handle.\<close>

lemma MakeHole_ok:
  assumes "holes_ok hid h H" "i < length (h_heap h)" "i \<notin> H"
  shows "\<exists>h'. MakeHole hid h i = Some h' \<and> h_heap h' = h_heap h \<and> holes_ok hid h' (insert i H)
    \<and> contents h' = (contents h)(hid (h_heap h ! i) := None)
    \<and> h_handle h' = (h_handle h)(hid (h_heap h ! i) := None)"
proof -
  let ?h = "h\<lparr>h_handle := (h_handle h)(hid (h_heap h ! i) := None)\<rparr>"
  have "holes_ok hid ?h (insert i H)"
    unfolding holes_ok_def
  proof (intro conjI allI impI)
    fix j assume "j < length (h_heap ?h)" "j \<notin> insert i H"
    then show "h_handle ?h (hid (h_heap ?h ! j)) = Some j"
      using holes_okD(1) [OF assms(1), of j] holes_okD(1) [OF assms] by auto
  next
    fix k j assume k: "h_handle ?h k = Some j"
    then show "j < length (h_heap ?h)" "j \<notin> insert i H" "hid (h_heap ?h ! j) = k"
      using holes_okD(2-4) [OF assms(1), of k j] by (auto split: if_splits)
  qed
  moreover have "contents ?h = (contents h)(hid (h_heap h ! i) := None)"
    by (auto simp: contents_def)
  ultimately show ?thesis using MakeHole_eq [OF assms(2)] by simp
qed

text \<open>A hole moves: the contents stay.\<close>

lemma MoveHole_ok:
  assumes "holes_ok hid h H" "q < length (h_heap h)" "q \<notin> H" "p < length (h_heap h)" "p \<in> H"
  shows "\<exists>h'. MoveHole hid h q p = Some h' \<and> h_heap h' = (h_heap h)[p := h_heap h ! q]
    \<and> holes_ok hid h' (insert q (H - {p})) \<and> contents h' = contents h"
proof -
  let ?xs = "(h_heap h)[p := h_heap h ! q]"
  let ?h = "h\<lparr>h_heap := ?xs, h_handle := (h_handle h)(hid (h_heap h ! q) := Some p)\<rparr>"
  have pq: "p \<noteq> q" using assms(3,5) by auto
  have hq: "h_handle h (hid (h_heap h ! q)) = Some q" using holes_okD(1) [OF assms(1-3)] .
  have "holes_ok hid ?h (insert q (H - {p}))"
    unfolding holes_ok_def
  proof (intro conjI allI impI)
    fix i assume "i < length (h_heap ?h)" "i \<notin> insert q (H - {p})"
    then show "h_handle ?h (hid (h_heap ?h ! i)) = Some i"
      using holes_okD(1) [OF assms(1), of i] hq assms(4) by (auto simp: nth_list_update)
  next
    fix k i assume k: "h_handle ?h k = Some i"
    then show "i < length (h_heap ?h)" "i \<notin> insert q (H - {p})" "hid (h_heap ?h ! i) = k"
      using holes_okD(2-4) [OF assms(1), of k i] hq assms(3-5) pq
      by (auto simp: nth_list_update split: if_splits)
  qed
  moreover have "contents ?h = contents h"
  proof
    fix k
    have "i \<noteq> p" if "h_handle h k = Some i" for i using holes_okD(3) [OF assms(1) that] assms(5) by auto
    then show "contents ?h k = contents h k"
      using hq assms(4) by (cases "h_handle h k") (auto simp: contents_def nth_list_update)
  qed
  moreover have "MoveHole hid h q p = Some ?h"
    using assms(2,4) pq by (simp add: MoveHole_def heap_put_def heap_size_def)
  ultimately show ?thesis by force
qed

text \<open>A hole is filled with an element that has no handle yet.\<close>

lemma FillHole_ok:
  assumes "holes_ok hid h H" "p < length (h_heap h)" "p \<in> H" "h_handle h (hid e) = None"
  shows "\<exists>h'. FillHole hid h p e = Some h' \<and> h_heap h' = (h_heap h)[p := e]
    \<and> holes_ok hid h' (H - {p}) \<and> contents h' = (contents h)(hid e \<mapsto> e)"
proof -
  let ?xs = "(h_heap h)[p := e]"
  let ?h = "h\<lparr>h_heap := ?xs, h_handle := (h_handle h)(hid e := Some p)\<rparr>"
  have "holes_ok hid ?h (H - {p})"
    unfolding holes_ok_def
  proof (intro conjI allI impI)
    fix i assume "i < length (h_heap ?h)" "i \<notin> H - {p}"
    then show "h_handle ?h (hid (h_heap ?h ! i)) = Some i"
      using holes_okD(1) [OF assms(1), of i] assms(2,4) by (auto simp: nth_list_update)
  next
    fix k i assume k: "h_handle ?h k = Some i"
    then show "i < length (h_heap ?h)" "i \<notin> H - {p}" "hid (h_heap ?h ! i) = k"
      using holes_okD(2-4) [OF assms(1), of k i] assms(2,3)
      by (auto simp: nth_list_update split: if_splits)
  qed
  moreover have "contents ?h = (contents h)(hid e \<mapsto> e)"
  proof
    fix k
    have "i \<noteq> p" if "h_handle h k = Some i" for i using holes_okD(3) [OF assms(1) that] assms(3) by auto
    then show "contents ?h k = ((contents h)(hid e \<mapsto> e)) k"
      using assms(2) by (cases "h_handle h k") (auto simp: contents_def nth_list_update)
  qed
  moreover have "FillHole hid h p e = Some ?h"
    using assms(2) by (simp add: FillHole_def heap_put_def heap_size_def)
  ultimately show ?thesis by force
qed

lemma contents_None_iff: "contents h k = None \<longleftrightarrow> h_handle h k = None"
  by (simp add: contents_def)

text \<open>The last slot goes away when it is a hole.\<close>

lemma pop_back_ok:
  assumes "holes_ok hid h {length (h_heap h) - 1}" "h_heap h \<noteq> []"
  shows "holes_ok hid (h\<lparr>h_heap := butlast (h_heap h)\<rparr>) {}"
    "contents (h\<lparr>h_heap := butlast (h_heap h)\<rparr>) = contents h"
proof -
  have n: "i < length (h_heap h) - 1" if "h_handle h k = Some i" for k i
    using holes_okD(2,3) [OF assms(1) that] by simp
  show "holes_ok hid (h\<lparr>h_heap := butlast (h_heap h)\<rparr>) {}"
    using holes_okD [OF assms(1)] n by (auto simp: holes_ok_def nth_butlast)
  show "contents (h\<lparr>h_heap := butlast (h_heap h)\<rparr>) = contents h"
  proof
    fix k
    show "contents (h\<lparr>h_heap := butlast (h_heap h)\<rparr>) k = contents h k"
      using n [of k] by (cases "h_handle h k") (auto simp: contents_def nth_butlast)
  qed
qed

section \<open>The order of the heap\<close>

text \<open>Indices of a binary tree: a parent lies before its child, and the children of \<open>i\<close> are \<open>2 i + 1\<close> and \<open>2 i + 2\<close>.\<close>

lemma parent_less: "0 < i \<Longrightarrow> (i - 1) div 2 < (i :: nat)"
  by auto

lemma child_iff: "0 < i \<Longrightarrow> (i - 1) div 2 = p \<longleftrightarrow> i = 2 * p + 1 \<or> i = 2 * p + (2 :: nat)"
  by (cases i) auto

lemma heap_upto_hole: "heap_upto prio n xs \<Longrightarrow> heap_except prio n xs p"
proof -
  assume h: "heap_upto prio n xs"
  have "prio (xs ! i) \<le> prio (xs ! ((p - 1) div 2))"
    if "0 < p" "0 < i" "i < n" "(i - 1) div 2 = p" for i
  proof -
    have "prio (xs ! i) \<le> prio (xs ! p)" using h that unfolding heap_upto_def by metis
    also have "p < n" using parent_less [OF that(2)] that by simp
    then have "prio (xs ! p) \<le> prio (xs ! ((p - 1) div 2))" using h that(1) by (simp add: heap_upto_def)
    finally show ?thesis .
  qed
  with h show ?thesis by (simp add: heap_upto_def heap_except_def)
qed

lemma heap_upto_top:
  assumes "heap_upto prio n xs" "i < n"
  shows "prio (xs ! i) \<le> prio (xs ! 0)"
  using assms(2)
proof (induction i rule: less_induct)
  case (less i)
  show ?case
  proof (cases "i = 0")
    case False
    then have "prio (xs ! i) \<le> prio (xs ! ((i - 1) div 2))" using assms(1) less.prems by (simp add: heap_upto_def)
    also have "\<dots> \<le> prio (xs ! 0)" using less.IH [of "(i - 1) div 2"] less.prems False by simp
    finally show ?thesis .
  qed simp
qed

text \<open>Filling the hole restores the heap when the element fits between the parent and the children.\<close>

lemma heap_fill:
  assumes "heap_except prio n xs p" "p < length xs"
    and "0 < p \<Longrightarrow> prio e \<le> prio (xs ! ((p - 1) div 2))"
    and "\<And>i. 0 < i \<Longrightarrow> i < n \<Longrightarrow> (i - 1) div 2 = p \<Longrightarrow> prio (xs ! i) \<le> prio e"
  shows "heap_upto prio n (xs[p := e])"
  unfolding heap_upto_def
proof (intro allI impI)
  fix i assume i: "0 < i \<and> i < n"
  have "(i - 1) div 2 \<noteq> i" using parent_less [of i] i by linarith
  then consider "i = p" | "i \<noteq> p" "(i - 1) div 2 = p" | "i \<noteq> p" "(i - 1) div 2 \<noteq> p" by blast
  then show "prio (xs[p := e] ! i) \<le> prio (xs[p := e] ! ((i - 1) div 2))"
  proof cases
    case 1
    then have "(p - 1) div 2 \<noteq> p" using parent_less [of p] i by simp
    then show ?thesis using 1 assms(2,3) i by simp
  next
    case 2
    then show ?thesis using assms(2) assms(4) [of i] i by (simp add: nth_list_update)
  next
    case 3
    then show ?thesis using assms(1) i by (simp add: heap_except_def)
  qed
qed

text \<open>Moving the hole to its parent or to its larger child.\<close>

lemma heap_exceptD:
  assumes "heap_except prio n xs p" "0 < i" "i < n"
  shows "i \<noteq> p \<Longrightarrow> (i - 1) div 2 \<noteq> p \<Longrightarrow> prio (xs ! i) \<le> prio (xs ! ((i - 1) div 2))"
    "0 < p \<Longrightarrow> (i - 1) div 2 = p \<Longrightarrow> prio (xs ! i) \<le> prio (xs ! ((p - 1) div 2))"
  using assms by (auto simp: heap_except_def)

lemma heap_hole_up:
  assumes "heap_except prio n xs p" "0 < p" "p < n" "n \<le> length xs"
  shows "heap_except prio n (xs[p := xs ! ((p - 1) div 2)]) ((p - 1) div 2)"
proof -
  define q where "q = (p - 1) div 2"
  have q: "q < p" using assms(2) by (auto simp: q_def)
  let ?xs = "xs[p := xs ! q]"
  have A: "prio (?xs ! i) \<le> prio (?xs ! ((i - 1) div 2))"
    if "0 < i" "i < n" "i \<noteq> q" "(i - 1) div 2 \<noteq> q" for i
  proof -
    have "i \<noteq> p" using that(4) by (auto simp: q_def)
    then show ?thesis
      using heap_exceptD [OF assms(1) that(1,2)] assms(2-4)
      by (cases "(i - 1) div 2 = p") (simp_all add: q_def)
  qed
  have B: "prio (?xs ! i) \<le> prio (?xs ! ((q - 1) div 2))"
    if "0 < q" "0 < i" "i < n" "(i - 1) div 2 = q" for i
  proof -
    have par: "(q - 1) div 2 < q" using that(1) by (rule parent_less)
    then have top: "prio (xs ! q) \<le> prio (xs ! ((q - 1) div 2))"
      using heap_exceptD(1) [OF assms(1) that(1)] q assms(3) by simp
    have "prio (?xs ! i) \<le> prio (xs ! q)"
      using heap_exceptD(1) [OF assms(1) that(2,3)] that(4) q assms(3,4)
      by (cases "i = p") simp_all
    with top par q show ?thesis by simp
  qed
  show ?thesis unfolding heap_except_def q_def [symmetric] using A B by blast
qed

lemma heap_hole_down:
  assumes "heap_except prio n xs p" "n \<le> length xs" "q < n" "0 < q" "(q - 1) div 2 = p"
    and "\<And>i. 0 < i \<Longrightarrow> i < n \<Longrightarrow> (i - 1) div 2 = p \<Longrightarrow> prio (xs ! i) \<le> prio (xs ! q)"
  shows "heap_except prio n (xs[p := xs ! q]) q"
proof -
  have pq: "p < q" using parent_less [OF assms(4)] assms(5) by simp
  let ?xs = "xs[p := xs ! q]"
  have A: "prio (?xs ! i) \<le> prio (?xs ! ((i - 1) div 2))"
    if "0 < i" "i < n" "i \<noteq> q" "(i - 1) div 2 \<noteq> q" for i
  proof -
    have par: "(i - 1) div 2 < i" using that(1) by (rule parent_less)
    consider "i = p" | "(i - 1) div 2 = p" | "i \<noteq> p" "(i - 1) div 2 \<noteq> p" by blast
    then show ?thesis
    proof cases
      case 1
      then show ?thesis using heap_exceptD(2) [OF assms(1,4,3)] assms(2,5) that par by simp
    next
      case 2
      then show ?thesis using assms(2) assms(6) [of i] that par by simp
    next
      case 3
      then show ?thesis using heap_exceptD(1) [OF assms(1) that(1,2)] by simp
    qed
  qed
  have B: "prio (?xs ! i) \<le> prio (?xs ! ((q - 1) div 2))" if "0 < i" "i < n" "(i - 1) div 2 = q" for i
  proof -
    have "i \<noteq> p" using parent_less [OF that(1)] that(3) pq by linarith
    then show ?thesis
      using heap_exceptD(1) [OF assms(1) that(1,2)] that(3) assms(2,3,5) pq by simp
  qed
  from A B show ?thesis by (simp add: heap_except_def)
qed

lemma heap_except_update:
  "heap_except prio (length xs) xs p \<Longrightarrow> heap_except prio (length (xs[p := x])) (xs[p := x]) p"
proof -
  assume h: "heap_except prio (length xs) xs p"
  have "(i - 1) div 2 \<noteq> i" if "0 < i" for i :: nat using parent_less [OF that] by linarith
  with h show ?thesis by (auto simp: heap_except_def nth_list_update)
qed

section \<open>Moving holes\<close>

lemma sole_hole:
  fixes p n :: nat
  assumes "H \<inter> {..<n} = {p}"
  shows "p < n" "p \<in> H" "H - {p} = H - {..<n}" "q < n \<Longrightarrow> q \<noteq> p \<Longrightarrow> q \<notin> H"
  using assms by blast+

lemma sole_hole_move:
  fixes p q n :: nat
  assumes "H \<inter> {..<n} = {p}"
  shows "q < n \<Longrightarrow> insert q (H - {p}) \<inter> {..<n} = {q}" "q < n \<Longrightarrow> insert q (H - {p}) - {..<n} = H - {..<n}"
  using assms by blast+

text \<open>
  What the heap asks of the comparator: it agrees with a priority, strictly or not.  Both \<open>std::less\<close> and
  the scheduler's \<open>GreaterUsingLessEqual\<close> do.
\<close>

locale heap_order =
  fixes cmp :: "'a \<Rightarrow> 'a \<Rightarrow> bool"
    and hid :: "'a \<Rightarrow> 'k"
    and prio :: "'a \<Rightarrow> 'p :: linorder"
  assumes cmp_intro: "prio x < prio y \<Longrightarrow> cmp x y"
    and cmp_dest: "cmp x y \<Longrightarrow> prio x \<le> prio y"
begin

lemma not_cmp: "\<not> cmp x y \<Longrightarrow> prio y \<le> prio x"
  using cmp_intro [of x y] by (meson linorder_not_le)

lemma hole_up:
  assumes "holes_ok hid h H" "H \<inter> {..<n} = {p}" "n \<le> length (h_heap h)" "heap_except prio n (h_heap h) p"
    and "\<And>i. 0 < i \<Longrightarrow> i < n \<Longrightarrow> (i - 1) div 2 = p \<Longrightarrow> prio (h_heap h ! i) \<le> prio e"
    and "contents h (hid e) = None"
  shows "\<exists>h' p'. MoveHoleUpAndFill cmp hid h p e = Some (h', p') \<and> p' < n \<and> h_heap h' ! p' = e
    \<and> length (h_heap h') = length (h_heap h) \<and> holes_ok hid h' (H - {..<n})
    \<and> heap_upto prio n (h_heap h') \<and> contents h' = (contents h)(hid e \<mapsto> e)"
  using assms
proof (induction p arbitrary: h H rule: less_induct)
  case (less p)
  note a = less.prems
  note H = sole_hole [OF a(2)]
  have p: "p < n" "p \<in> H" "p < length (h_heap h)" using H(1,2) a(3) by simp_all
  note HH = H(3)
  have fill: "\<exists>h' p'. (do { h \<leftarrow> FillHole hid h p e; Some (h, p) }) = Some (h', p') \<and> p' < n \<and> h_heap h' ! p' = e
    \<and> length (h_heap h') = length (h_heap h) \<and> holes_ok hid h' (H - {..<n})
    \<and> heap_upto prio n (h_heap h') \<and> contents h' = (contents h)(hid e \<mapsto> e)"
    if top: "0 < p \<Longrightarrow> prio e \<le> prio (h_heap h ! ((p - 1) div 2))"
  proof -
    from FillHole_ok [OF a(1) p(3,2)] a(6) obtain h' where
      "FillHole hid h p e = Some h'" "h_heap h' = (h_heap h)[p := e]" "holes_ok hid h' (H - {p})"
      "contents h' = (contents h)(hid e \<mapsto> e)" by (auto simp: contents_None_iff)
    moreover have "heap_upto prio n ((h_heap h)[p := e])"
      by (rule heap_fill [OF a(4) p(3) top a(5)])
    ultimately show ?thesis using p HH by simp
  qed
  show ?case
  proof (cases "p = 0")
    case True
    then have eq: "MoveHoleUpAndFill cmp hid h p e = do { h \<leftarrow> FillHole hid h p e; Some (h, p) }"
      by (simp add: MoveHoleUpAndFill_def heap_size_def hole_up_loop.simps)
    show ?thesis unfolding eq by (rule fill) (use True in simp)
  next
    case False
    define q where "q = (p - 1) div 2"
    have q: "q < p" "q < length (h_heap h)" using False p(3) by (auto simp: q_def)
    have less_eq: "Less_pos_elem cmp h q e = Some (cmp (h_heap h ! q) e)"
      using q by (simp add: Less_pos_elem_def heap_at_def heap_size_def)
    have par: "ParentIndex p = Some q" using False by (simp add: ParentIndex_def q_def)
    show ?thesis
    proof (cases "cmp (h_heap h ! q) e")
      case c: False
      then have eq: "MoveHoleUpAndFill cmp hid h p e = do { h \<leftarrow> FillHole hid h p e; Some (h, p) }"
        using False p par less_eq
        by (simp add: MoveHoleUpAndFill_def heap_size_def hole_up_loop.simps [of _ _ _ p])
      show ?thesis unfolding eq by (rule fill) (use not_cmp [OF c] in \<open>simp add: q_def\<close>)
    next
      case c: True
      have qH: "q \<notin> H" using H(4) q(1) p(1) by simp
      from MoveHole_ok [OF a(1) q(2) qH p(3,2)] obtain h1 where
        h1: "MoveHole hid h q p = Some h1" "h_heap h1 = (h_heap h)[p := h_heap h ! q]"
          "holes_ok hid h1 (insert q (H - {p}))" "contents h1 = contents h" by blast
      have step: "MoveHoleUpAndFill cmp hid h p e = MoveHoleUpAndFill cmp hid h1 q e"
        using False p par less_eq c h1(1,2) q
        by (simp add: MoveHoleUpAndFill_def heap_size_def hole_up_loop.simps [of _ _ _ p])
      have ex: "heap_except prio n (h_heap h1) q"
        using heap_hole_up [OF a(4) _ p(1) a(3)] False h1(2) by (simp add: q_def)
      have top: "prio (h_heap h ! q) \<le> prio e" using c by (rule cmp_dest)
      have ch: "prio (h_heap h1 ! i) \<le> prio e" if "0 < i" "i < n" "(i - 1) div 2 = q" for i
      proof (cases "i = p")
        case True
        then show ?thesis using top h1(2) p(3) by simp
      next
        case i: False
        then have "prio (h_heap h ! i) \<le> prio (h_heap h ! q)"
          using heap_exceptD(1) [OF a(4) that(1,2)] that(3) q(1) by simp
        with top i h1(2) show ?thesis by simp
      qed
      note H1 = sole_hole_move [OF a(2), of q]
      have "insert q (H - {p}) - {..<n} = H - {..<n}" using H1(2) q(1) p(1) by simp
      then show ?thesis
        using less.IH [OF q(1) h1(3) H1(1) _ ex ch] q(1) p(1) a(3,6) h1(2,4) step by simp
    qed
  qed
qed

text \<open>The choice between the children of a hole.\<close>

lemma larger_child:
  assumes "2 * p + 1 < n" "n \<le> length (h_heap h)"
  shows "\<exists>r. (if 2 * p + 2 < n then Less_pos_pos cmp h (2 * p + 1) (2 * p + 2) else Some False) = Some r
    \<and> (let q = (if r then 2 * p + 2 else 2 * p + 1) in q < n \<and> 0 < q \<and> (q - 1) div 2 = p
         \<and> (\<forall>i. 0 < i \<longrightarrow> i < n \<longrightarrow> (i - 1) div 2 = p \<longrightarrow> prio (h_heap h ! i) \<le> prio (h_heap h ! q)))"
proof (cases "2 * p + 2 < n")
  case True
  let ?l = "h_heap h ! (2 * p + 1)" and ?r = "h_heap h ! (2 * p + 2)"
  have "Less_pos_pos cmp h (2 * p + 1) (2 * p + 2) = Some (cmp ?l ?r)"
    using True assms by (simp add: Less_pos_pos_def heap_at_def heap_size_def)
  moreover have "prio (h_heap h ! i) \<le> prio (if cmp ?l ?r then ?r else ?l)"
    if "0 < i" "(i - 1) div 2 = p" for i
    using child_iff [OF that(1), of p] that cmp_dest [of ?l ?r] not_cmp [of ?l ?r] by auto
  ultimately show ?thesis using True assms by (auto simp: Let_def)
next
  case False
  have "i = 2 * p + 1" if "0 < i" "i < n" "(i - 1) div 2 = p" for i
    using child_iff [OF that(1), of p] that False by auto
  then show ?thesis using False assms by (auto simp: Let_def)
qed

lemma hole_down:
  assumes "holes_ok hid h H" "H \<inter> {..<n} = {p}" "n \<le> length (h_heap h)" "heap_except prio n (h_heap h) p"
  shows "\<exists>h' p' H'. hole_down_loop leaf cmp hid n h p e = Some (h', p') \<and> contents h' = contents h
    \<and> length (h_heap h') = length (h_heap h) \<and> holes_ok hid h' H' \<and> H' \<inter> {..<n} = {p'}
    \<and> H' - {..<n} = H - {..<n} \<and> heap_except prio n (h_heap h') p'
    \<and> (\<forall>i. 0 < i \<longrightarrow> i < n \<longrightarrow> (i - 1) div 2 = p' \<longrightarrow> prio (h_heap h' ! i) \<le> prio e)
    \<and> (\<not> leaf \<longrightarrow> (0 < p \<longrightarrow> prio e \<le> prio (h_heap h ! ((p - 1) div 2)))
        \<longrightarrow> (0 < p' \<longrightarrow> prio e \<le> prio (h_heap h' ! ((p' - 1) div 2))))"
  (is "\<exists>h' p' H'. ?P h H p h' p' H'")
  using assms
proof (induction "n - p" arbitrary: h H p rule: less_induct)
  case less
  note a = less.prems
  note H = sole_hole [OF a(2)]
  have p: "p < length (h_heap h)" using H(1) a(3) by simp
  show ?case
  proof (cases "n \<le> 2 * p + 1")
    case True
    have "\<not> (0 < i \<and> i < n \<and> (i - 1) div 2 = p)" for i using child_iff [of i p] True by auto
    then have "?P h H p h p H"
      using True a by (auto simp: hole_down_loop.simps LeftIndex_def)
    then show ?thesis by blast
  next
    case False
    then have "2 * p + 1 < n" by simp
    from larger_child [OF this a(3)] obtain r where
      r: "(if 2 * p + 2 < n then Less_pos_pos cmp h (2 * p + 1) (2 * p + 2) else Some False) = Some r"
      "let q = (if r then 2 * p + 2 else 2 * p + 1) in q < n \<and> 0 < q \<and> (q - 1) div 2 = p
         \<and> (\<forall>i. 0 < i \<longrightarrow> i < n \<longrightarrow> (i - 1) div 2 = p \<longrightarrow> prio (h_heap h ! i) \<le> prio (h_heap h ! q))" by blast
    define q where "q = (if r then 2 * p + 2 else 2 * p + 1)"
    have q: "q < n" "0 < q" "(q - 1) div 2 = p" "q \<noteq> p" "q < length (h_heap h)" "q \<notin> H"
      and big: "\<And>i. 0 < i \<Longrightarrow> i < n \<Longrightarrow> (i - 1) div 2 = p \<Longrightarrow> prio (h_heap h ! i) \<le> prio (h_heap h ! q)"
      using r(2) a(3) H(4) by (auto simp: q_def Let_def)
    have lt: "Less_elem_pos cmp h e q = Some (cmp e (h_heap h ! q))"
      using q(5) by (simp add: Less_elem_pos_def heap_at_def heap_size_def)
    have unf: "hole_down_loop leaf cmp hid n h p e
        = (if \<not> leaf \<and> \<not> cmp e (h_heap h ! q) then Some (h, p)
           else do { h \<leftarrow> MoveHole hid h q p; hole_down_loop leaf cmp hid n h q e })"
      using r(1) False lt by (subst hole_down_loop.simps) (auto simp: LeftIndex_def q_def split: if_splits)
    show ?thesis
    proof (cases "\<not> leaf \<and> \<not> cmp e (h_heap h ! q)")
      case True
      then have "prio (h_heap h ! i) \<le> prio e" if "0 < i" "i < n" "(i - 1) div 2 = p" for i
        using big [OF that] not_cmp [of e "h_heap h ! q"] by simp
      then have "?P h H p h p H" using True unf a by simp
      then show ?thesis by blast
    next
      case go: False
      from MoveHole_ok [OF a(1) q(5,6) p H(2)] obtain h1 where
        h1: "MoveHole hid h q p = Some h1" "h_heap h1 = (h_heap h)[p := h_heap h ! q]"
          "holes_ok hid h1 (insert q (H - {p}))" "contents h1 = contents h" by blast
      have ex: "heap_except prio n (h_heap h1) q"
        using heap_hole_down [OF a(4,3) q(1-3) big] h1(2) by simp
      have "n - q < n - p" using q(1,3) parent_less [OF q(2)] by linarith
      from less.hyps [OF this h1(3) sole_hole_move(1) [OF a(2) q(1)] _ ex] a(3) h1(2)
      obtain h' p' H' where ih: "?P h1 (insert q (H - {p})) q h' p' H'" by auto
      have "0 < q \<longrightarrow> prio e \<le> prio (h_heap h1 ! ((q - 1) div 2))" if "\<not> leaf"
        using go that cmp_dest [of e] h1(2) p q(3) by simp
      moreover have "hole_down_loop leaf cmp hid n h p e = hole_down_loop leaf cmp hid n h1 q e"
        unfolding unf using go h1(1) by auto
      ultimately have "?P h H p h' p' H'"
        using ih h1(2,4) sole_hole_move(2) [OF a(2) q(1)] by simp
      then show ?thesis by blast
    qed
  qed
qed

section \<open>Operations\<close>

lemma down_and_fill_leaf:
  assumes "holes_ok hid h {p, n}" "length (h_heap h) = Suc n" "p < n" "heap_except prio n (h_heap h) p"
    and "h_handle h (hid (h_heap h ! p)) = None" "contents h (hid e) = None"
  shows "\<exists>h' p'. MoveHoleDownAndFill True cmp hid h p e = Some (h', p') \<and> length (h_heap h') = Suc n
    \<and> holes_ok hid h' {n} \<and> heap_upto prio n (h_heap h') \<and> contents h' = (contents h)(hid e \<mapsto> e)"
proof -
  have H: "{p, n} \<inter> {..<n} = {p}" "{p, n} - {..<n} = {n}" using assms(3) by auto
  from hole_down [OF assms(1) H(1) _ assms(4), of True e] assms(2) H(2) obtain h1 p1 H1 where
    1: "hole_down_loop True cmp hid n h p e = Some (h1, p1)" "contents h1 = contents h"
      "length (h_heap h1) = Suc n" "holes_ok hid h1 H1" "H1 \<inter> {..<n} = {p1}" "H1 - {..<n} = {n}"
      "heap_except prio n (h_heap h1) p1"
      "\<And>i. 0 < i \<Longrightarrow> i < n \<Longrightarrow> (i - 1) div 2 = p1 \<Longrightarrow> prio (h_heap h1 ! i) \<le> prio e" by auto
  from hole_up [OF 1(4,5) _ 1(7,8)] 1(2,3,6) assms(6) obtain h' p' where
    "MoveHoleUpAndFill cmp hid h1 p1 e = Some (h', p')" "length (h_heap h') = Suc n"
    "holes_ok hid h' {n}" "heap_upto prio n (h_heap h')" "contents h' = (contents h)(hid e \<mapsto> e)" by auto
  then show ?thesis
    using 1(1) assms(2,3,5)
    by (intro exI [of _ h'] exI [of _ p'])
      (simp add: MoveHoleDownAndFill_def heap_size_def GetHeapHandle_def heap_at_def)
qed

lemma down_and_fill_elem:
  assumes "holes_ok hid h {p}" "p < length (h_heap h)" "heap_except prio (length (h_heap h)) (h_heap h) p"
    and "h_handle h (hid (h_heap h ! p)) = None" "contents h (hid e) = None"
    and "0 < p \<Longrightarrow> prio e \<le> prio (h_heap h ! ((p - 1) div 2))"
  shows "\<exists>h' p'. MoveHoleDownAndFill False cmp hid h p e = Some (h', p') \<and> p' < length (h_heap h)
    \<and> h_heap h' ! p' = e \<and> heap_wf prio hid h' \<and> length (h_heap h') = length (h_heap h)
    \<and> contents h' = (contents h)(hid e \<mapsto> e)"
proof -
  let ?n = "length (h_heap h)"
  have H: "{p} \<inter> {..<?n} = {p}" "{p} - {..<?n} = {}" using assms(2) by auto
  from hole_down [OF assms(1) H(1) _ assms(3), of False e] H(2) assms(6) obtain h1 p1 H1 where
    1: "hole_down_loop False cmp hid ?n h p e = Some (h1, p1)" "contents h1 = contents h"
      "length (h_heap h1) = ?n" "holes_ok hid h1 H1" "H1 \<inter> {..<?n} = {p1}" "H1 - {..<?n} = {}"
      "heap_except prio ?n (h_heap h1) p1"
      "\<And>i. 0 < i \<Longrightarrow> i < ?n \<Longrightarrow> (i - 1) div 2 = p1 \<Longrightarrow> prio (h_heap h1 ! i) \<le> prio e"
      "0 < p1 \<Longrightarrow> prio e \<le> prio (h_heap h1 ! ((p1 - 1) div 2))" by auto
  note H1 = sole_hole [OF 1(5)]
  have p1: "p1 < length (h_heap h1)" using H1(1) 1(3) by simp
  from FillHole_ok [OF 1(4) p1 H1(2), of e] assms(5) 1(2,6) H1(3) obtain h' where
    2: "FillHole hid h1 p1 e = Some h'" "h_heap h' = (h_heap h1)[p1 := e]" "holes_ok hid h' {}"
      "contents h' = (contents h)(hid e \<mapsto> e)" by (auto simp: contents_None_iff [symmetric])
  have "heap_upto prio ?n (h_heap h')" using heap_fill [OF 1(7) p1 1(9,8)] 2(2) by simp
  with 1(1,3) 2 p1 assms(2,4) show ?thesis
    by (intro exI [of _ h'] exI [of _ p1])
      (simp add: MoveHoleDownAndFill_def heap_size_def GetHeapHandle_def heap_at_def heap_wf_def)
qed

text \<open>Inserting behaves as if the new slot were there already, as a hole.\<close>

lemma insert_as_hole:
  "InsertImpl cmp hid h e = MoveHoleUpAndFill cmp hid (h\<lparr>h_heap := h_heap h @ [e]\<rparr>) (length (h_heap h)) e"
proof -
  let ?n = "length (h_heap h)" and ?h = "h\<lparr>h_heap := h_heap h @ [e]\<rparr>"
  have fill: "FillHole hid h ?n e = FillHole hid ?h ?n e"
    by (simp add: FillHole_def heap_put_def heap_size_def)
  show ?thesis
  proof (cases "?n = 0")
    case True
    with fill show ?thesis
      by (simp add: InsertImpl_def MoveHoleUpAndFill_def heap_size_def hole_up_loop.simps)
  next
    case False
    define q where "q = (?n - 1) div 2"
    have q: "q < ?n" "ParentIndex ?n = Some q" using False parent_less [of ?n] by (simp_all add: q_def ParentIndex_def)
    have "MoveHole hid h q ?n = MoveHole hid ?h q ?n"
      using q(1) by (simp add: MoveHole_def heap_put_def heap_size_def nth_append)
    moreover have "Less_pos_elem cmp h q e = Less_pos_elem cmp ?h q e"
      using q(1) by (simp add: Less_pos_elem_def heap_at_def heap_size_def nth_append)
    ultimately have "hole_up_loop cmp hid h ?n e = hole_up_loop cmp hid ?h ?n e
        \<or> hole_up_loop cmp hid h ?n e = Some (h, ?n) \<and> hole_up_loop cmp hid ?h ?n e = Some (?h, ?n)"
      using False q by (subst (1 2) hole_up_loop.simps, subst (3 4) hole_up_loop.simps) (auto split: bind_splits)
    then show ?thesis
      using fill by (auto simp: InsertImpl_def MoveHoleUpAndFill_def heap_size_def)
  qed
qed

lemma insert_ok:
  assumes "heap_wf prio hid h" "contents h (hid e) = None"
  shows "\<exists>h' p. InsertImpl cmp hid h e = Some (h', p) \<and> heap_wf prio hid h'
    \<and> contents h' = (contents h)(hid e \<mapsto> e) \<and> length (h_heap h') = Suc (length (h_heap h))"
proof -
  let ?n = "length (h_heap h)" and ?h = "h\<lparr>h_heap := h_heap h @ [e]\<rparr>"
  have wf: "holes_ok hid h {}" "heap_upto prio ?n (h_heap h)"
    using assms(1) by (simp_all add: heap_wf_def heap_size_def)
  have ok: "holes_ok hid ?h {?n}"
    using holes_okD [OF wf(1)] by (auto simp: holes_ok_def nth_append less_Suc_eq)
  have c: "contents ?h = contents h"
  proof
    fix k show "contents ?h k = contents h k"
      using holes_okD(2) [OF wf(1), of k] by (cases "h_handle h k") (auto simp: contents_def nth_append)
  qed
  have nochild: "\<not> (0 < i \<and> i < Suc ?n \<and> (i - 1) div 2 = ?n)" for i
    using parent_less [of i] by linarith
  moreover have "heap_except prio (Suc ?n) (h_heap ?h) ?n"
    unfolding heap_except_def
  proof (intro conjI allI impI)
    fix i assume i: "0 < i \<and> i < Suc ?n \<and> i \<noteq> ?n \<and> (i - 1) div 2 \<noteq> ?n"
    then have "i < ?n" "(i - 1) div 2 < ?n" using parent_less [of i] by linarith+
    then show "prio (h_heap ?h ! i) \<le> prio (h_heap ?h ! ((i - 1) div 2))"
      using wf(2) i by (simp add: heap_upto_def nth_append)
  qed (use nochild in blast)
  ultimately obtain h' p where "MoveHoleUpAndFill cmp hid ?h ?n e = Some (h', p)" "length (h_heap h') = Suc ?n"
    "holes_ok hid h' {}" "heap_upto prio (Suc ?n) (h_heap h')" "contents h' = (contents h)(hid e \<mapsto> e)"
    using hole_up [OF ok, of "Suc ?n" ?n e] c assms(2) by (auto simp: lessThan_Suc)
  then show ?thesis
    using insert_as_hole [of h e] by (simp add: heap_wf_def heap_size_def)
qed

lemma erase_ok:
  assumes "heap_wf prio hid h" "pos < length (h_heap h)"
  shows "\<exists>h'. heap_erase cmp hid h pos = Some h' \<and> heap_wf prio hid h'
    \<and> contents h' = (contents h)(hid (h_heap h ! pos) := None)
    \<and> length (h_heap h') = length (h_heap h) - 1"
proof -
  define n where "n = length (h_heap h) - 1"
  have n: "length (h_heap h) = Suc n" "pos \<le> n" using assms(2) by (auto simp: n_def)
  have wf: "holes_ok hid h {}" "heap_upto prio (Suc n) (h_heap h)"
    using assms(1) n by (simp_all add: heap_wf_def heap_size_def)
  from MakeHole_ok [OF wf(1) assms(2)] obtain h1 where
    1: "MakeHole hid h pos = Some h1" "h_heap h1 = h_heap h" "holes_ok hid h1 {pos}"
      "contents h1 = (contents h)(hid (h_heap h ! pos) := None)"
      "h_handle h1 = (h_handle h)(hid (h_heap h ! pos) := None)" by auto
  have upto: "heap_upto prio n xs" if "heap_upto prio n xs'" "\<forall>i<n. xs ! i = xs' ! i" for xs xs' :: "'a list"
    unfolding heap_upto_def
  proof (intro allI impI)
    fix i assume i: "0 < i \<and> i < n"
    then have "(i - 1) div 2 < n" using parent_less [of i] by linarith
    then show "prio (xs ! i) \<le> prio (xs ! ((i - 1) div 2))"
      using that i by (simp add: heap_upto_def)
  qed
  show ?thesis
  proof (cases "pos = n")
    case True
    let ?h = "h1\<lparr>h_heap := butlast (h_heap h1)\<rparr>"
    have ne: "h_heap h1 \<noteq> []" using 1(2) n by auto
    have "holes_ok hid ?h {}" "contents ?h = contents h1"
      using pop_back_ok [OF _ ne] 1(2,3) True n(1) by simp_all
    moreover have "heap_upto prio n (h_heap h)" using wf(2) by (auto simp: heap_upto_def)
    then have "heap_upto prio n (butlast (h_heap h))"
      by (rule upto) (use n in \<open>simp add: nth_butlast\<close>)
    ultimately show ?thesis
      using True 1 n by (simp add: heap_erase_def heap_size_def heap_wf_def)
  next
    case False
    then have pn: "pos < n" using n by simp
    have "n < length (h_heap h1)" "n \<notin> {pos}" using 1(2) n False by auto
    from MakeHole_ok [OF 1(3) this] obtain h2 where
      2: "MakeHole hid h1 n = Some h2" "h_heap h2 = h_heap h" "holes_ok hid h2 {pos, n}"
        "contents h2 = (contents h1)(hid (h_heap h ! n) := None)"
        "h_handle h2 = (h_handle h1)(hid (h_heap h ! n) := None)"
      using 1(2) by (auto simp: insert_commute)
    let ?e = "h_heap h ! n"
    have "heap_upto prio n (h_heap h)" using wf(2) by (auto simp: heap_upto_def)
    then have ex: "heap_except prio n (h_heap h2) pos" using 2(2) by (simp add: heap_upto_hole)
    have lens: "length (h_heap h2) = Suc n" using 2(2) n by simp
    have "h_handle h2 (hid (h_heap h2 ! pos)) = None" "contents h2 (hid ?e) = None"
      using 1(5) 2(2,4,5) by simp_all
    from down_and_fill_leaf [OF 2(3) lens pn ex this] obtain h3 p3 where
      3: "MoveHoleDownAndFill True cmp hid h2 pos ?e = Some (h3, p3)" "length (h_heap h3) = Suc n"
        "holes_ok hid h3 {n}" "heap_upto prio n (h_heap h3)" "contents h3 = (contents h2)(hid ?e \<mapsto> ?e)" by blast
    let ?h = "h3\<lparr>h_heap := butlast (h_heap h3)\<rparr>"
    have ne: "h_heap h3 \<noteq> []" using 3(2) by auto
    have ok: "holes_ok hid ?h {}" "contents ?h = contents h3"
      using pop_back_ok [OF _ ne] 3(2,3) by simp_all
    have "heap_upto prio n (butlast (h_heap h3))"
      using 3(4) by (rule upto) (use 3(2) in \<open>simp add: nth_butlast\<close>)
    moreover have "contents h1 (hid ?e) = Some ?e"
    proof -
      have "h_handle h (hid ?e) = Some n" "h_handle h (hid (h_heap h ! pos)) = Some pos"
        using holes_okD(1) [OF wf(1)] n assms(2) by simp_all
      then show ?thesis using 1(4) False by (auto simp: contents_def)
    qed
    then have "contents h3 = contents h1" using 2(4) 3(5) by auto
    ultimately show ?thesis
      using False 1 2 3 ok n by (simp add: heap_erase_def heap_size_def heap_wf_def heap_at_def)
  qed
qed

lemma replace_ok:
  assumes "heap_wf prio hid h" "pos < length (h_heap h)"
    and "hid e = hid (h_heap h ! pos) \<or> contents h (hid e) = None"
  shows "\<exists>h' p. ReplaceImpl cmp hid h pos e = Some (h', p) \<and> heap_wf prio hid h'
    \<and> contents h' = (contents h)(hid (h_heap h ! pos) := None, hid e \<mapsto> e)
    \<and> length (h_heap h') = length (h_heap h)"
proof -
  let ?n = "length (h_heap h)" and ?x = "h_heap h ! pos"
  have wf: "holes_ok hid h {}" "heap_upto prio ?n (h_heap h)"
    using assms(1) by (simp_all add: heap_wf_def heap_size_def)
  from MakeHole_ok [OF wf(1) assms(2)] obtain h1 where
    1: "MakeHole hid h pos = Some h1" "h_heap h1 = h_heap h" "holes_ok hid h1 {pos}"
      "contents h1 = (contents h)(hid ?x := None)" "h_handle h1 (hid ?x) = None" by auto
  have ex: "heap_except prio ?n (h_heap h1) pos" using heap_upto_hole [OF wf(2)] 1(2) by simp
  have none: "contents h1 (hid e) = None" using assms(3) 1(4) by auto
  have l: "Less_elem_pos cmp h1 e pos = Some (cmp e ?x)"
    using assms(2) 1(2) by (simp add: Less_elem_pos_def heap_at_def heap_size_def)
  show ?thesis
  proof (cases "cmp e ?x")
    case True
    have "prio e \<le> prio (h_heap h1 ! ((pos - 1) div 2))" if "0 < pos"
    proof -
      have "prio e \<le> prio ?x" using True by (rule cmp_dest)
      also have "\<dots> \<le> prio (h_heap h ! ((pos - 1) div 2))" using wf(2) that assms(2) by (simp add: heap_upto_def)
      finally show ?thesis using 1(2) by simp
    qed
    with down_and_fill_elem [OF 1(3), of e] ex none 1(2,5) assms(2) obtain h' p where
      "MoveHoleDownAndFill False cmp hid h1 pos e = Some (h', p)" "heap_wf prio hid h'"
      "length (h_heap h') = ?n" "contents h' = (contents h1)(hid e \<mapsto> e)" by auto
    then show ?thesis using True 1 l by (intro exI [of _ h'] exI [of _ p]) (simp add: ReplaceImpl_def)
  next
    case False
    have "prio (h_heap h1 ! i) \<le> prio e" if "0 < i" "i < ?n" "(i - 1) div 2 = pos" for i
    proof -
      have "prio (h_heap h ! i) \<le> prio ?x" using wf(2) that by (auto simp: heap_upto_def)
      also have "\<dots> \<le> prio e" using False by (rule not_cmp)
      finally show ?thesis using 1(2) by simp
    qed
    moreover have "{pos} \<inter> {..<?n} = {pos}" "{pos} - {..<?n} = {}" using assms(2) by auto
    ultimately obtain h' p where
      "MoveHoleUpAndFill cmp hid h1 pos e = Some (h', p)" "length (h_heap h') = ?n" "holes_ok hid h' {}"
      "heap_upto prio ?n (h_heap h')" "contents h' = (contents h1)(hid e \<mapsto> e)"
      using hole_up [OF 1(3), of ?n pos e] ex none 1(2) by auto
    then show ?thesis using False 1 l
      by (intro exI [of _ h'] exI [of _ p]) (simp add: ReplaceImpl_def heap_wf_def heap_size_def)
  qed
qed

lemma replace_top_ok:
  assumes "heap_wf prio hid h" "h_heap h \<noteq> []"
    and "hid e = hid (h_heap h ! 0) \<or> contents h (hid e) = None"
  shows "\<exists>h' p. ReplaceTopImpl cmp hid h e = Some (h', p) \<and> heap_wf prio hid h'
    \<and> contents h' = (contents h)(hid (h_heap h ! 0) := None, hid e \<mapsto> e)
    \<and> length (h_heap h') = length (h_heap h)"
proof -
  let ?n = "length (h_heap h)"
  have n: "0 < ?n" using assms(2) by simp
  have wf: "holes_ok hid h {}" "heap_upto prio ?n (h_heap h)"
    using assms(1) by (simp_all add: heap_wf_def heap_size_def)
  from MakeHole_ok [OF wf(1) n] obtain h1 where
    1: "MakeHole hid h 0 = Some h1" "h_heap h1 = h_heap h" "holes_ok hid h1 {0}"
      "contents h1 = (contents h)(hid (h_heap h ! 0) := None)" "h_handle h1 (hid (h_heap h ! 0)) = None" by auto
  have "heap_except prio ?n (h_heap h1) 0" using heap_upto_hole [OF wf(2)] 1(2) by simp
  moreover have "contents h1 (hid e) = None" using assms(3) 1(4) by auto
  ultimately obtain h' p where
    "MoveHoleDownAndFill False cmp hid h1 0 e = Some (h', p)" "heap_wf prio hid h'"
    "length (h_heap h') = ?n" "contents h' = (contents h1)(hid e \<mapsto> e)"
    using down_and_fill_elem [OF 1(3), of e] 1(2,5) n by auto
  then show ?thesis using 1 by (intro exI [of _ h'] exI [of _ p]) (simp add: ReplaceTopImpl_def)
qed

text \<open>Update repairs a heap in which one element has changed its priority, in either direction.\<close>

lemma update_ok:
  assumes "holes_ok hid h {}" "pos < length (h_heap h)" "heap_except prio (length (h_heap h)) (h_heap h) pos"
  shows "\<exists>h' p. heap_Update cmp hid h pos = Some (h', p) \<and> heap_wf prio hid h' \<and> contents h' = contents h
    \<and> length (h_heap h') = length (h_heap h)"
proof -
  let ?n = "length (h_heap h)" and ?x = "h_heap h ! pos" and ?q = "(pos - 1) div 2"
  from MakeHole_ok [OF assms(1,2)] obtain h1 where
    1: "MakeHole hid h pos = Some h1" "h_heap h1 = h_heap h" "holes_ok hid h1 {pos}"
      "contents h1 = (contents h)(hid ?x := None)" "h_handle h1 (hid ?x) = None" by auto
  have "contents h (hid ?x) = Some ?x" using holes_okD(1) [OF assms(1,2)] by (simp add: contents_def)
  then have c: "(contents h1)(hid ?x \<mapsto> ?x) = contents h" using 1(4) by auto
  have none: "contents h1 (hid ?x) = None" using 1(4) by simp
  have ex: "heap_except prio ?n (h_heap h1) pos" using assms(3) 1(2) by simp
  have l: "Less_pos_pos cmp h1 pos ?q = Some (cmp ?x (h_heap h ! ?q))" if "0 < pos"
    using that assms(2) 1(2) by (auto simp: Less_pos_pos_def heap_at_def heap_size_def)
  show ?thesis
  proof (cases "0 < pos \<and> \<not> cmp ?x (h_heap h ! ?q)")
    case True
    have "prio (h_heap h1 ! i) \<le> prio ?x" if "0 < i" "i < ?n" "(i - 1) div 2 = pos" for i
    proof -
      have "prio (h_heap h ! i) \<le> prio (h_heap h ! ?q)" using heap_exceptD(2) [OF assms(3) that(1,2)] True that(3) by simp
      also have "\<dots> \<le> prio ?x" using True by (intro not_cmp) simp
      finally show ?thesis using 1(2) by simp
    qed
    moreover have "{pos} \<inter> {..<?n} = {pos}" "{pos} - {..<?n} = {}" using assms(2) by auto
    ultimately obtain h' p where
      "MoveHoleUpAndFill cmp hid h1 pos ?x = Some (h', p)" "length (h_heap h') = ?n" "holes_ok hid h' {}"
      "heap_upto prio ?n (h_heap h')" "contents h' = contents h"
      using hole_up [OF 1(3), of ?n pos ?x] ex none c 1(2) by auto
    then show ?thesis using True 1 l assms(2)
      by (intro exI [of _ h'] exI [of _ p])
        (simp add: heap_Update_def heap_wf_def heap_size_def heap_at_def ParentIndex_def)
  next
    case False
    then have "0 < pos \<Longrightarrow> prio ?x \<le> prio (h_heap h1 ! ?q)" using 1(2) cmp_dest by simp
    with down_and_fill_elem [OF 1(3), of ?x] ex none c 1(2,5) assms(2) obtain h' p where
      "MoveHoleDownAndFill False cmp hid h1 pos ?x = Some (h', p)" "heap_wf prio hid h'"
      "length (h_heap h') = ?n" "contents h' = contents h" by auto
    then show ?thesis using False 1 l assms(2)
      by (intro exI [of _ h'] exI [of _ p])
        (auto simp: heap_Update_def heap_size_def heap_at_def ParentIndex_def)
  qed
qed

lemma take_erase:
  "pos < length (h_heap h) \<Longrightarrow>
     heap_take cmp hid h pos = do { h' \<leftarrow> heap_erase cmp hid h pos; Some (h_heap h ! pos, h') }"
  by (simp add: heap_take_def heap_erase_def MakeHole_eq heap_at_def heap_size_def Let_def)

lemma contents_iff:
  assumes "heap_wf prio hid h"
  shows "contents h k = Some x \<longleftrightarrow> x \<in> set (h_heap h) \<and> hid x = k"
proof -
  have ok: "holes_ok hid h {}" using assms by (simp add: heap_wf_def)
  show ?thesis
    using holes_okD [OF ok] by (auto simp: contents_def in_set_conv_nth)
qed

lemma set_heap: "heap_wf prio hid h \<Longrightarrow> x \<in> set (h_heap h) \<longleftrightarrow> contents h (hid x) = Some x"
  using contents_iff by blast

lemma top_ok:
  assumes "heap_wf prio hid h" "h_heap h \<noteq> []"
  shows "heap_top h = Some (h_heap h ! 0)" "contents h (hid (h_heap h ! 0)) = Some (h_heap h ! 0)"
    "contents h k = Some y \<Longrightarrow> prio y \<le> prio (h_heap h ! 0)"
proof -
  show "heap_top h = Some (h_heap h ! 0)" using assms(2) by (simp add: heap_top_def heap_at_def heap_size_def)
  show "contents h (hid (h_heap h ! 0)) = Some (h_heap h ! 0)"
    using contents_iff [OF assms(1)] assms(2) by simp
  show "prio y \<le> prio (h_heap h ! 0)" if "contents h k = Some y"
    using that contents_iff [OF assms(1), of k y] heap_upto_top [of prio "length (h_heap h)" "h_heap h"] assms(1)
    by (auto simp: heap_wf_def heap_size_def in_set_conv_nth)
qed

lemma clear_handles_ok:
  "holes_ok hid h {..<i} \<Longrightarrow> i \<le> length (h_heap h) \<Longrightarrow>
     \<exists>h'. clear_handles hid h [i..<length (h_heap h)] = Some h' \<and> h_heap h' = h_heap h
       \<and> holes_ok hid h' {..<length (h_heap h)}"
proof (induction "length (h_heap h) - i" arbitrary: h i)
  case 0
  then show ?case by simp
next
  case (Suc n)
  then have i: "i < length (h_heap h)" by simp
  from MakeHole_ok [OF Suc.prems(1) i] obtain h1 where
    1: "MakeHole hid h i = Some h1" "h_heap h1 = h_heap h" "holes_ok hid h1 {..<Suc i}"
    by (auto simp: lessThan_Suc)
  have "ClearHeapHandle hid h i = Some h1" using 1(1) i by (simp add: MakeHole_def heap_size_def)
  moreover have "[i..<length (h_heap h)] = i # [Suc i..<length (h_heap h)]" using i by (rule upt_conv_Cons)
  ultimately show ?case using Suc.hyps(1) [of h1 "Suc i"] Suc.hyps(2) 1(2,3) i by simp
qed

lemma clear_ok:
  assumes "heap_wf prio hid h"
  shows "\<exists>h'. heap_clear hid h = Some h' \<and> heap_wf prio hid h' \<and> h_heap h' = [] \<and> contents h' = Map.empty"
proof -
  from clear_handles_ok [of h 0] assms obtain h1 where
    1: "clear_handles hid h [0..<length (h_heap h)] = Some h1" "h_heap h1 = h_heap h"
      "holes_ok hid h1 {..<length (h_heap h)}" by (auto simp: heap_wf_def)
  have "h_handle h1 k = None" for k
    using holes_okD(2,3) [OF 1(3), of k] 1(2) by (cases "h_handle h1 k") auto
  then show ?thesis
    using 1(1) by (auto simp: heap_clear_def heap_size_def heap_wf_def holes_ok_def heap_upto_def contents_def)
qed

lemma new_ok: "heap_wf prio hid heap_new" "contents heap_new = Map.empty"
  by (auto simp: heap_wf_def heap_new_def holes_ok_def heap_upto_def heap_size_def contents_def)

lemma insert_range_ok:
  assumes "heap_wf prio hid h" "distinct (map hid xs)" "\<forall>x \<in> set xs. contents h (hid x) = None"
  shows "\<exists>h'. heap_insert_range cmp hid h xs = Some h' \<and> heap_wf prio hid h'
    \<and> set (h_heap h') = set (h_heap h) \<union> set xs \<and> length (h_heap h') = length (h_heap h) + length xs"
  using assms
proof (induction xs arbitrary: h)
  case (Cons x xs)
  from insert_ok [OF Cons.prems(1), of x] Cons.prems(3) obtain h1 p where
    1: "InsertImpl cmp hid h x = Some (h1, p)" "heap_wf prio hid h1"
      "contents h1 = (contents h)(hid x \<mapsto> x)" "length (h_heap h1) = Suc (length (h_heap h))" by auto
  have "y \<in> set (h_heap h1) \<longleftrightarrow> y \<in> insert x (set (h_heap h))" for y
    unfolding insert_iff set_heap [OF 1(2)] set_heap [OF Cons.prems(1)] 1(3)
    using Cons.prems(3) by (cases "hid y = hid x") auto
  then have s: "set (h_heap h1) = insert x (set (h_heap h))" by blast
  have "hid y \<noteq> hid x" if "y \<in> set xs" for y
    using Cons.prems(2) imageI [OF that, of hid] by auto
  then have "\<forall>y \<in> set xs. contents h1 (hid y) = None" using 1(3) Cons.prems(3) by simp
  from Cons.IH [OF 1(2) _ this] Cons.prems(2) 1(1,4) s show ?case by auto
qed simp

lemma drain_ok:
  assumes "heap_wf prio hid h" "n = length (h_heap h)"
  shows "\<exists>ys. heap_drain cmp hid n h = Some ys \<and> set ys = set (h_heap h) \<and> length ys = n
    \<and> sorted_wrt (\<lambda>x y. prio y \<le> prio x) ys"
  using assms
proof (induction n arbitrary: h)
  case (Suc n)
  then have ne: "h_heap h \<noteq> []" "0 < length (h_heap h)" by auto
  let ?x = "h_heap h ! 0"
  from erase_ok [OF Suc.prems(1) ne(2)] obtain h1 where
    1: "heap_erase cmp hid h 0 = Some h1" "heap_wf prio hid h1" "contents h1 = (contents h)(hid ?x := None)"
      "length (h_heap h1) = n" using Suc.prems(2) by auto
  have "y \<in> set (h_heap h1) \<longleftrightarrow> y \<in> set (h_heap h) - {?x}" for y
    unfolding Diff_iff set_heap [OF 1(2)] set_heap [OF Suc.prems(1)] 1(3)
    using top_ok(2) [OF Suc.prems(1) ne(1)] by (cases "hid y = hid ?x") auto
  then have s: "set (h_heap h1) = set (h_heap h) - {?x}" by blast
  have x: "?x \<in> set (h_heap h)" using ne by simp
  from Suc.IH [OF 1(2)] 1(4) obtain ys where
    ys: "heap_drain cmp hid n h1 = Some ys" "set ys = set (h_heap h1)" "length ys = n"
      "sorted_wrt (\<lambda>x y. prio y \<le> prio x) ys" by auto
  have "prio y \<le> prio ?x" if "y \<in> set ys" for y
    using that ys(2) s top_ok(3) [OF Suc.prems(1) ne(1), of "hid y" y] contents_iff [OF Suc.prems(1), of "hid y" y]
    by simp
  then show ?case
    using take_erase [OF ne(2)] 1(1) ys s x by auto
qed simp

end

text \<open>The heap with \<open>std::less\<close> on a key, and the min-heap of the scheduler.\<close>

interpretation max_heap: heap_order "\<lambda>x y. key x < key y" hid key
  for key :: "'a \<Rightarrow> 'p :: linorder" and hid :: "'a \<Rightarrow> 'k"
  by unfold_locales simp_all

interpretation min_heap: heap_order "GreaterUsingLessEqual key" hid "\<lambda>x. - int (key x)"
  for key :: "'a \<Rightarrow> nat" and hid :: "'a \<Rightarrow> 'k"
  by unfold_locales (simp_all add: GreaterUsingLessEqual_def)

section \<open>Properties\<close>

text \<open>
  Claim C12.  The heap of the scheduler is a priority queue with handles: inserting, erasing at a handle,
  replacing at a handle and reading the top return on every well-formed heap, keep it well-formed, change
  the element that a handle leads to and no other, and the top is an element with the least key.
\<close>

theorem intrusive_heap_contract:
  fixes key :: "'a \<Rightarrow> nat" and hid :: "'a \<Rightarrow> 'k"
  assumes "min_heap_wf key hid h"
  shows "(contents h (hid x) = None \<longrightarrow>
      (\<exists>h' p. InsertImpl (GreaterUsingLessEqual key) hid h x = Some (h', p) \<and> min_heap_wf key hid h' \<and> contents h' = (contents h)(hid x \<mapsto> x))) \<and>
    (h_handle h k = Some i \<longrightarrow>
      (\<exists>h'. heap_erase (GreaterUsingLessEqual key) hid h i = Some h' \<and> min_heap_wf key hid h' \<and> contents h' = (contents h)(k := None))) \<and>
    (h_handle h (hid x) = Some i \<longrightarrow>
      (\<exists>h' p. ReplaceImpl (GreaterUsingLessEqual key) hid h i x = Some (h', p) \<and> min_heap_wf key hid h' \<and> contents h' = (contents h)(hid x \<mapsto> x))) \<and>
    (contents h k = Some y \<longrightarrow>
      (\<exists>m. heap_top h = Some m \<and> contents h (hid m) = Some m \<and> key m \<le> key y))"
proof (intro conjI impI)
  note wf = assms
  have ok: "holes_ok hid h {}" using wf by (simp add: heap_wf_def)
  show "\<exists>h' p. InsertImpl (GreaterUsingLessEqual key) hid h x = Some (h', p) \<and> min_heap_wf key hid h' \<and> contents h' = (contents h)(hid x \<mapsto> x)"
    if "contents h (hid x) = None"
    using min_heap.insert_ok [OF wf that]
    by blast
  show "\<exists>h'. heap_erase (GreaterUsingLessEqual key) hid h i = Some h' \<and> min_heap_wf key hid h' \<and> contents h' = (contents h)(k := None)"
    if "h_handle h k = Some i"
    using min_heap.erase_ok [OF wf holes_okD(2) [OF ok that]] holes_okD(4) [OF ok that]
    by auto
  show "\<exists>h' p. ReplaceImpl (GreaterUsingLessEqual key) hid h i x = Some (h', p) \<and> min_heap_wf key hid h' \<and> contents h' = (contents h)(hid x \<mapsto> x)"
    if "h_handle h (hid x) = Some i"
    using min_heap.replace_ok [OF wf holes_okD(2) [OF ok that], of x] holes_okD(4) [OF ok that]
    by auto
  show "\<exists>m. heap_top h = Some m \<and> contents h (hid m) = Some m \<and> key m \<le> key y" if "contents h k = Some y"
  proof -
    have "h_heap h \<noteq> []" using that min_heap.contents_iff [OF wf] by auto
    from min_heap.top_ok [OF wf this] that show ?thesis by (intro exI [of _ "h_heap h ! 0"]) force
  qed
qed

theorem intrusive_heap_contract_witness:
  "\<exists>h' p. InsertImpl (GreaterUsingLessEqual fst) snd heap_new (7 :: nat, CHR ''q'') = Some (h', p)
    \<and> contents h' (CHR ''q'') = Some (7, CHR ''q'')"
proof -
  let ?h = "heap_new :: (nat \<times> char, char) intrusive_heap"
  have "min_heap_wf fst snd ?h" by (rule min_heap.new_ok)
  note c = intrusive_heap_contract [OF this, of "(7, CHR ''q'')"]
  have "contents ?h (snd (7 :: nat, CHR ''q'')) = None" by (simp add: min_heap.new_ok(2))
  with c show ?thesis by (metis fun_upd_same snd_conv)
qed

text \<open>
  Claim C34.  Update repairs a heap in which one element has changed its key in place, whichever way: it
  returns a well-formed heap with the same elements behind the same handles.
\<close>

theorem intrusive_heap_update:
  fixes key :: "'a \<Rightarrow> nat" and hid :: "'a \<Rightarrow> 'k"
  assumes "min_heap_wf key hid h" "h_handle h (hid x) = Some i"
  shows "\<exists>h' p. heap_Update (GreaterUsingLessEqual key) hid (h\<lparr>h_heap := (h_heap h)[i := x]\<rparr>) i = Some (h', p)
    \<and> min_heap_wf key hid h' \<and> contents h' = (contents h)(hid x \<mapsto> x)"
proof -
  let ?h = "h\<lparr>h_heap := (h_heap h)[i := x]\<rparr>" and ?prio = "\<lambda>x. - int (key x)"
  have ok: "holes_ok hid h {}" and up: "heap_upto ?prio (length (h_heap h)) (h_heap h)"
    using assms(1) by (simp_all add: heap_wf_def heap_size_def)
  note i = holes_okD(2,4) [OF ok assms(2)]
  have ok': "holes_ok hid ?h {}"
    unfolding holes_ok_def
  proof (intro conjI allI impI)
    fix j assume "j < length (h_heap ?h)"
    then show "h_handle ?h (hid (h_heap ?h ! j)) = Some j"
      using holes_okD(1) [OF ok, of j] assms(2) by (cases "j = i") simp_all
  next
    fix k j assume "h_handle ?h k = Some j"
    then show "j < length (h_heap ?h)" "j \<notin> {}" "hid (h_heap ?h ! j) = k"
      using holes_okD(2,4) [OF ok, of k j] i by (cases "j = i"; simp)+
  qed
  have "heap_except ?prio (length (h_heap ?h)) (h_heap ?h) i"
    using heap_except_update [OF heap_upto_hole [OF up, of i]] by simp
  moreover have "contents ?h = (contents h)(hid x \<mapsto> x)"
  proof
    fix k show "contents ?h k = ((contents h)(hid x \<mapsto> x)) k"
      using holes_okD(4) [OF ok, of k i] i assms(2)
      by (cases "h_handle h k") (auto simp: contents_def nth_list_update)
  qed
  ultimately show ?thesis using min_heap.update_ok [OF ok', of i key] i by auto
qed

theorem intrusive_heap_update_witness:
  "\<exists>h' p. heap_Update (GreaterUsingLessEqual fst) snd
      \<lparr>h_heap = [(7 :: nat, CHR ''q'')], h_handle = [CHR ''q'' \<mapsto> 0]\<rparr> 0 = Some (h', p)
    \<and> contents h' (CHR ''q'') = Some (7, CHR ''q'')"
proof -
  let ?h = "\<lparr>h_heap = [(5 :: nat, CHR ''q'')], h_handle = [CHR ''q'' \<mapsto> 0]\<rparr>"
  have "min_heap_wf fst snd ?h" "h_handle ?h (snd (7 :: nat, CHR ''q'')) = Some 0"
    by (simp_all add: heap_wf_def holes_ok_def heap_upto_def heap_size_def)
  from intrusive_heap_update [OF this] show ?thesis by auto
qed

text \<open>
  Filling an empty heap with elements of distinct identities and taking the top until it is
  empty always returns, and yields the same elements in the order of their keys.
\<close>

theorem intrusive_heap_sorts:
  fixes key :: "'a \<Rightarrow> nat" and hid :: "'a \<Rightarrow> 'k"
  assumes "distinct (map hid xs)"
  shows "\<exists>h ys. heap_insert_range (GreaterUsingLessEqual key) hid heap_new xs = Some h \<and>
    heap_drain (GreaterUsingLessEqual key) hid (length xs) h = Some ys \<and>
    set ys = set xs \<and> length ys = length xs \<and> sorted (map key ys)"
proof -
  have "\<forall>x \<in> set xs. contents heap_new (hid x) = (None :: 'a option)" by (simp add: min_heap.new_ok(2))
  from min_heap.insert_range_ok [OF min_heap.new_ok(1) assms this, of key] obtain h where
    h: "heap_insert_range (GreaterUsingLessEqual key) hid heap_new xs = Some h"
      "min_heap_wf key hid h" "set (h_heap h) = set xs" "length (h_heap h) = length xs"
    by (auto simp: heap_new_def)
  from min_heap.drain_ok [OF h(2) h(4)[symmetric]] h(3) obtain ys where
    "heap_drain (GreaterUsingLessEqual key) hid (length xs) h = Some ys" "set ys = set xs"
    "length ys = length xs" "sorted_wrt (\<lambda>x y. key x \<le> key y) ys" by auto
  with h(1) show ?thesis by (auto simp: sorted_map)
qed

theorem intrusive_heap_sorts_witness:
  "\<exists>h ys. heap_insert_range (GreaterUsingLessEqual id) id heap_new [3, 1, 2 :: nat] = Some h
    \<and> heap_drain (GreaterUsingLessEqual id) id 3 h = Some ys \<and> set ys = {1, 2, 3} \<and> sorted ys"
  using intrusive_heap_sorts [of id "[3, 1, 2 :: nat]" id] by (auto simp: numeral_3_eq_3 insert_commute)

end
