(* ===== verification/Small_Priority_Queue.thy ===== *)
theory Small_Priority_Queue
  imports Prelude
begin

text \<open>
  SmallPriorityQueue (base/task/sequence_manager/task_queue_selector.h and .cc): the queue of the active
  priorities of the selector, three parallel arrays of kQueuePriorityCount slots.  A slot that no
  constructor has written holds \<open>None\<close>, and reading it, or any index out of range, has no result.

  The specification is the list of its (key, id) pairs in ascending order of key.
\<close>

section \<open>The class\<close>

abbreviation kQueuePriorityCount :: nat where "kQueuePriorityCount \<equiv> 7"

abbreviation kInvalidIndex :: nat where "kInvalidIndex \<equiv> 255"

definition array_get :: "'a list \<Rightarrow> nat \<Rightarrow> 'a option" where
  "array_get xs i = (if i < length xs then Some (xs ! i) else None)"

definition array_set :: "'a list \<Rightarrow> nat \<Rightarrow> 'a \<Rightarrow> 'a list option" where
  "array_set xs i v = (if i < length xs then Some (xs[i := v]) else None)"

definition slot_get :: "'a option list \<Rightarrow> nat \<Rightarrow> 'a option" where
  "slot_get xs i = do { x \<leftarrow> array_get xs i; x }"

record small_priority_queue =
  spq_size :: nat
  spq_keys :: "int option list"
  id_to_index :: "nat list"
  index_to_id :: "nat option list"

definition SmallPriorityQueue :: small_priority_queue where
  "SmallPriorityQueue =
     \<lparr>spq_size = 0, spq_keys = replicate kQueuePriorityCount None,
      id_to_index = replicate kQueuePriorityCount kInvalidIndex,
      index_to_id = replicate kQueuePriorityCount None\<rparr>"

definition spq_empty :: "small_priority_queue \<Rightarrow> bool" where
  "spq_empty q \<longleftrightarrow> spq_size q = 0"

definition min_id :: "small_priority_queue \<Rightarrow> nat option" where
  "min_id q = slot_get (index_to_id q) 0"

definition IsInQueue :: "small_priority_queue \<Rightarrow> nat \<Rightarrow> bool option" where
  "IsInQueue q ident = do { i \<leftarrow> array_get (id_to_index q) ident; Some (i \<noteq> kInvalidIndex) }"

text \<open>The assignments that the loops share: slot \<open>i\<close> receives slot \<open>j\<close>, or a key and an id.\<close>

definition spq_put :: "small_priority_queue \<Rightarrow> nat \<Rightarrow> int \<Rightarrow> nat \<Rightarrow> small_priority_queue option" where
  "spq_put q i key ident =
     do { ks \<leftarrow> array_set (spq_keys q) i (Some key);
          ids \<leftarrow> array_set (index_to_id q) i (Some ident);
          idx \<leftarrow> array_set (id_to_index q) ident i;
          Some (q\<lparr>spq_keys := ks, index_to_id := ids, id_to_index := idx\<rparr>) }"

definition spq_move :: "small_priority_queue \<Rightarrow> nat \<Rightarrow> nat \<Rightarrow> small_priority_queue option" where
  "spq_move q i j =
     do { key \<leftarrow> slot_get (spq_keys q) j;
          moved_id \<leftarrow> slot_get (index_to_id q) j;
          spq_put q i key moved_id }"

fun spq_insert_loop :: "int \<Rightarrow> small_priority_queue \<Rightarrow> nat \<Rightarrow> (small_priority_queue \<times> nat) option" where
  "spq_insert_loop key q 0 = Some (q, 0)"
| "spq_insert_loop key q (Suc i) =
     do { k \<leftarrow> slot_get (spq_keys q) i;
          if key < k then do { q \<leftarrow> spq_move q (Suc i) i; spq_insert_loop key q i } else Some (q, Suc i) }"

definition spq_insert :: "small_priority_queue \<Rightarrow> int \<Rightarrow> nat \<Rightarrow> small_priority_queue option" where
  "spq_insert q key ident =
     do { DCHECK (spq_size q \<le> kQueuePriorityCount);
          DCHECK (ident < kQueuePriorityCount);
          present \<leftarrow> IsInQueue q ident;
          DCHECK (\<not> present);
          (q, i) \<leftarrow> spq_insert_loop key q (spq_size q);
          q \<leftarrow> spq_put q i key ident;
          Some (q\<lparr>spq_size := spq_size q + 1\<rparr>) }"

primrec spq_erase_loop :: "small_priority_queue \<Rightarrow> nat list \<Rightarrow> small_priority_queue option" where
  "spq_erase_loop q [] = Some q"
| "spq_erase_loop q (i # is) = do { q \<leftarrow> spq_move q i (i + 1); spq_erase_loop q is }"

definition spq_erase :: "small_priority_queue \<Rightarrow> nat \<Rightarrow> small_priority_queue option" where
  "spq_erase q ident =
     do { DCHECK (spq_size q \<noteq> 0);
          DCHECK (ident < kQueuePriorityCount);
          present \<leftarrow> IsInQueue q ident;
          DCHECK present;
          let q = q\<lparr>spq_size := spq_size q - 1\<rparr>;
          i \<leftarrow> array_get (id_to_index q) ident;
          q \<leftarrow> spq_erase_loop q [i..<spq_size q];
          idx \<leftarrow> array_set (id_to_index q) ident kInvalidIndex;
          Some (q\<lparr>id_to_index := idx\<rparr>) }"

function spq_change_loop :: "int \<Rightarrow> nat \<Rightarrow> small_priority_queue \<Rightarrow> nat \<Rightarrow> (small_priority_queue \<times> nat) option" where
  "spq_change_loop new_key n q i =
     (if i + 1 < n then
        do { k \<leftarrow> slot_get (spq_keys q) (i + 1);
             if k < new_key then do { q \<leftarrow> spq_move q i (i + 1); spq_change_loop new_key n q (i + 1) }
             else Some (q, i) }
      else Some (q, i))"
  by pat_completeness auto

termination
  by (relation "measure (\<lambda>(_, n, _, i). n - i)") auto

declare spq_change_loop.simps [simp del]

definition ChangeMinKey :: "small_priority_queue \<Rightarrow> int \<Rightarrow> small_priority_queue option" where
  "ChangeMinKey q new_key =
     do { DCHECK (spq_size q \<noteq> 0);
          ident \<leftarrow> slot_get (index_to_id q) 0;
          (q, i) \<leftarrow> spq_change_loop new_key (spq_size q) q 0;
          spq_put q i new_key ident }"

section \<open>Specification\<close>

definition spq_at :: "small_priority_queue \<Rightarrow> int \<times> nat \<Rightarrow> nat \<Rightarrow> bool" where
  "spq_at q p j \<longleftrightarrow> spq_keys q ! j = Some (fst p) \<and> index_to_id q ! j = Some (snd p) \<and> id_to_index q ! snd p = j"

definition spq_arrays :: "small_priority_queue \<Rightarrow> bool" where
  "spq_arrays q \<longleftrightarrow> length (spq_keys q) = kQueuePriorityCount \<and> length (id_to_index q) = kQueuePriorityCount
     \<and> length (index_to_id q) = kQueuePriorityCount"

definition spq_rep :: "small_priority_queue \<Rightarrow> (int \<times> nat) list \<Rightarrow> bool" where
  "spq_rep q ps \<longleftrightarrow>
     spq_arrays q \<and> spq_size q = length ps \<and> sorted (map fst ps) \<and> distinct (map snd ps)
     \<and> snd ` set ps \<subseteq> {..<kQueuePriorityCount}
     \<and> (\<forall>j < length ps. spq_at q (ps ! j) j)
     \<and> (\<forall>ident < kQueuePriorityCount. ident \<notin> snd ` set ps \<longrightarrow> id_to_index q ! ident = kInvalidIndex)"

text \<open>A free slot between \<open>A\<close> and \<open>B\<close>, which will hold the id \<open>x\<close>.\<close>

definition spq_hole :: "nat \<Rightarrow> small_priority_queue \<Rightarrow> (int \<times> nat) list \<Rightarrow> (int \<times> nat) list \<Rightarrow> bool" where
  "spq_hole x q A B \<longleftrightarrow>
     spq_arrays q \<and> x < kQueuePriorityCount \<and> x \<notin> snd ` set (A @ B) \<and> distinct (map snd (A @ B))
     \<and> snd ` set (A @ B) \<subseteq> {..<kQueuePriorityCount}
     \<and> (\<forall>j < length A. spq_at q (A ! j) j)
     \<and> (\<forall>j < length B. spq_at q (B ! j) (length A + 1 + j))
     \<and> (\<forall>ident < kQueuePriorityCount. ident \<notin> snd ` set (A @ B) \<longrightarrow> ident \<noteq> x \<longrightarrow> id_to_index q ! ident = kInvalidIndex)"

definition pq_insert :: "int \<Rightarrow> nat \<Rightarrow> (int \<times> nat) list \<Rightarrow> (int \<times> nat) list" where
  "pq_insert key ident ps = takeWhile (\<lambda>p. fst p \<le> key) ps @ (key, ident) # dropWhile (\<lambda>p. fst p \<le> key) ps"

definition pq_change :: "int \<Rightarrow> (int \<times> nat) list \<Rightarrow> (int \<times> nat) list" where
  "pq_change key ps =
     takeWhile (\<lambda>p. fst p < key) (tl ps) @ (key, snd (hd ps)) # dropWhile (\<lambda>p. fst p < key) (tl ps)"

lemma array_get_eq [simp]: "i < length xs \<Longrightarrow> array_get xs i = Some (xs ! i)"
  by (simp add: array_get_def)

lemma array_set_eq [simp]: "i < length xs \<Longrightarrow> array_set xs i v = Some (xs[i := v])"
  by (simp add: array_set_def)

lemma slot_get_eq [simp]: "i < length xs \<Longrightarrow> slot_get xs i = xs ! i"
  by (simp add: slot_get_def)

lemma spq_hole_length:
  assumes "spq_hole x q A B"
  shows "length A + length B + 1 \<le> kQueuePriorityCount"
proof -
  from assms have "card (insert x (snd ` set (A @ B))) \<le> card {..<kQueuePriorityCount}"
    by (intro card_mono) (auto simp: spq_hole_def)
  moreover have "card (snd ` set (A @ B)) = length (A @ B)"
    using assms distinct_card [of "map snd (A @ B)"] unfolding spq_hole_def by (simp add: image_Un)
  moreover have "x \<notin> snd ` set (A @ B)" using assms by (simp add: spq_hole_def)
  ultimately show ?thesis by simp
qed

lemma spq_rep_length: "spq_rep q ps \<Longrightarrow> length ps \<le> kQueuePriorityCount"
proof -
  assume *: "spq_rep q ps"
  then have "card (snd ` set ps) \<le> card {..<kQueuePriorityCount}"
    by (intro card_mono) (auto simp: spq_rep_def)
  moreover have "card (snd ` set ps) = length ps"
    using * distinct_card [of "map snd ps"] unfolding spq_rep_def by simp
  ultimately show ?thesis by simp
qed

lemma spq_put_eq:
  assumes "spq_arrays q" "i < kQueuePriorityCount" "ident < kQueuePriorityCount"
  shows "spq_put q i key ident = Some (q\<lparr>spq_keys := (spq_keys q)[i := Some key], index_to_id := (index_to_id q)[i := Some ident],
    id_to_index := (id_to_index q)[ident := i]\<rparr>)"
  using assms by (simp add: spq_put_def spq_arrays_def)

lemma spq_at_put:
  assumes "spq_arrays q" "spq_at q p j" "j \<noteq> i" "snd p \<noteq> ident"
  shows "spq_at (q\<lparr>spq_keys := (spq_keys q)[i := Some key], index_to_id := (index_to_id q)[i := Some ident],
    id_to_index := (id_to_index q)[ident := i]\<rparr>) p j"
  using assms by (simp add: spq_at_def)

lemma spq_at_put_same:
  assumes "spq_arrays q" "i < kQueuePriorityCount" "ident < kQueuePriorityCount"
  shows "spq_at (q\<lparr>spq_keys := (spq_keys q)[i := Some key], index_to_id := (index_to_id q)[i := Some ident],
    id_to_index := (id_to_index q)[ident := i]\<rparr>) (key, ident) i"
  using assms by (simp add: spq_at_def spq_arrays_def)

lemma spq_move_eq:
  assumes "spq_arrays q" "i < kQueuePriorityCount" "j < kQueuePriorityCount" "spq_at q p j" "snd p < kQueuePriorityCount"
  shows "spq_move q i j = spq_put q i (fst p) (snd p)"
  using assms by (simp add: spq_move_def spq_arrays_def spq_at_def)

lemma snd_nth_neq: "y \<notin> snd ` set A \<Longrightarrow> j < length A \<Longrightarrow> snd (A ! j) \<noteq> y"
  by (metis image_eqI nth_mem)

lemma spq_hole_up:
  assumes "spq_hole x q (A @ [p]) B"
  shows "\<exists>q'. spq_move q (Suc (length A)) (length A) = Some q' \<and> spq_hole x q' A (p # B) \<and> spq_size q' = spq_size q"
proof -
  let ?i = "Suc (length A)"
  have len: "?i < kQueuePriorityCount" using spq_hole_length [OF assms] by simp
  have ar: "spq_arrays q" and p: "snd p < kQueuePriorityCount" and at: "spq_at q p (length A)"
    and A: "\<forall>j < length A. spq_at q (A ! j) j" and B: "\<forall>j < length B. spq_at q (B ! j) (?i + 1 + j)"
    and d: "snd p \<notin> snd ` set A" "snd p \<notin> snd ` set B" "snd p \<noteq> x"
    using assms by (auto simp: spq_hole_def nth_append split: if_splits)
  let ?q = "q\<lparr>spq_keys := (spq_keys q)[?i := Some (fst p)], index_to_id := (index_to_id q)[?i := Some (snd p)],
    id_to_index := (id_to_index q)[snd p := ?i]\<rparr>"
  have "spq_move q ?i (length A) = Some ?q"
    using spq_move_eq [OF ar len _ at p] spq_put_eq [OF ar len p] len by simp
  moreover have "spq_hole x ?q A (p # B)"
    unfolding spq_hole_def
  proof (intro conjI)
    show "\<forall>j < length A. spq_at ?q (A ! j) j"
      using A snd_nth_neq [OF d(1)] by (auto intro!: spq_at_put [OF ar])
    show "\<forall>j < length (p # B). spq_at ?q ((p # B) ! j) (length A + 1 + j)"
    proof (intro allI impI)
      fix j assume "j < length (p # B)"
      then show "spq_at ?q ((p # B) ! j) (length A + 1 + j)"
        using spq_at_put_same [OF ar len p, of "fst p"] B snd_nth_neq [OF d(2)]
        by (cases j) (auto intro!: spq_at_put [OF ar])
    qed
    show "\<forall>ident < kQueuePriorityCount. ident \<notin> snd ` set (A @ p # B) \<longrightarrow> ident \<noteq> x \<longrightarrow> id_to_index ?q ! ident = kInvalidIndex"
      using assms by (auto simp: spq_hole_def)
  qed (use assms in \<open>auto simp: spq_hole_def spq_arrays_def\<close>)
  ultimately show ?thesis by auto
qed

lemma spq_hole_down:
  assumes "spq_hole x q A (p # B)"
  shows "\<exists>q'. spq_move q (length A) (Suc (length A)) = Some q' \<and> spq_hole x q' (A @ [p]) B \<and> spq_size q' = spq_size q"
proof -
  let ?i = "length A"
  have len: "Suc ?i < kQueuePriorityCount" "?i < kQueuePriorityCount" using spq_hole_length [OF assms] by simp_all
  have ar: "spq_arrays q" and p: "snd p < kQueuePriorityCount"
    and A: "\<forall>j < length A. spq_at q (A ! j) j" and B: "\<forall>j < length (p # B). spq_at q ((p # B) ! j) (?i + 1 + j)"
    and d: "snd p \<notin> snd ` set A" "snd p \<notin> snd ` set B" "snd p \<noteq> x"
    using assms by (auto simp: spq_hole_def)
  have at: "spq_at q p (Suc ?i)" using B [rule_format, of 0] by simp
  let ?q = "q\<lparr>spq_keys := (spq_keys q)[?i := Some (fst p)], index_to_id := (index_to_id q)[?i := Some (snd p)],
    id_to_index := (id_to_index q)[snd p := ?i]\<rparr>"
  have "spq_move q ?i (Suc ?i) = Some ?q"
    using spq_move_eq [OF ar len(2,1) at p] spq_put_eq [OF ar len(2) p] by simp
  moreover have "spq_hole x ?q (A @ [p]) B"
    unfolding spq_hole_def
  proof (intro conjI)
    show "\<forall>j < length (A @ [p]). spq_at ?q ((A @ [p]) ! j) j"
      using A snd_nth_neq [OF d(1)] spq_at_put_same [OF ar len(2) p, of "fst p"]
      by (auto simp: nth_append less_Suc_eq intro!: spq_at_put [OF ar])
    show "\<forall>j < length B. spq_at ?q (B ! j) (length (A @ [p]) + 1 + j)"
      using snd_nth_neq [OF d(2)] B [rule_format, of "Suc _"] by (auto intro!: spq_at_put [OF ar])
    show "\<forall>ident < kQueuePriorityCount. ident \<notin> snd ` set ((A @ [p]) @ B) \<longrightarrow> ident \<noteq> x \<longrightarrow> id_to_index ?q ! ident = kInvalidIndex"
      using assms by (auto simp: spq_hole_def)
  qed (use assms in \<open>auto simp: spq_hole_def spq_arrays_def\<close>)
  ultimately show ?thesis by auto
qed

lemma spq_hole_fill:
  assumes "spq_hole x q A B" "spq_size q = length A + length B + 1" "sorted (map fst (A @ (key, x) # B))"
  shows "\<exists>q'. spq_put q (length A) key x = Some q' \<and> spq_rep q' (A @ (key, x) # B) \<and> spq_size q' = spq_size q"
proof -
  let ?i = "length A"
  let ?q = "q\<lparr>spq_keys := (spq_keys q)[?i := Some key], index_to_id := (index_to_id q)[?i := Some x],
    id_to_index := (id_to_index q)[x := ?i]\<rparr>"
  have len: "?i < kQueuePriorityCount" using spq_hole_length [OF assms(1)] by simp
  have ar: "spq_arrays q" and x: "x < kQueuePriorityCount" "x \<notin> snd ` set A" "x \<notin> snd ` set B"
    and A: "\<And>j. j < length A \<Longrightarrow> spq_at q (A ! j) j" and B: "\<And>j. j < length B \<Longrightarrow> spq_at q (B ! j) (length A + 1 + j)"
    using assms(1) by (auto simp: spq_hole_def)
  have "spq_rep ?q (A @ (key, x) # B)"
    unfolding spq_rep_def
  proof (intro conjI)
    show "\<forall>j < length (A @ (key, x) # B). spq_at ?q ((A @ (key, x) # B) ! j) j"
    proof (intro allI impI)
      fix j assume j: "j < length (A @ (key, x) # B)"
      consider "j < ?i" | "j = ?i" | k where "j = ?i + 1 + k" "k < length B"
        using j by (metis Suc_eq_plus1 add_diff_inverse_nat add_less_cancel_left length_Cons length_append
          less_antisym not_less_eq plus_nat.simps(2) add_Suc_right)
      then show "spq_at ?q ((A @ (key, x) # B) ! j) j"
      proof cases
        case 1
        with A [of j] snd_nth_neq [OF x(2), of j] show ?thesis
          by (simp add: nth_append) (auto intro!: spq_at_put [OF ar])
      next
        case 2
        with spq_at_put_same [OF ar len x(1)] show ?thesis by (simp add: nth_append)
      next
        case 3
        with B [of k] snd_nth_neq [OF x(3), of k] show ?thesis
          by (simp add: nth_append) (auto intro!: spq_at_put [OF ar])
      qed
    qed
  qed (use assms in \<open>auto simp: spq_hole_def spq_arrays_def\<close>)
  then show ?thesis using spq_put_eq [OF ar len x(1)] by auto
qed

lemma spq_rep_hole_end: "spq_rep q ps \<Longrightarrow> x < kQueuePriorityCount \<Longrightarrow> x \<notin> snd ` set ps \<Longrightarrow> spq_hole x q ps []"
  by (simp add: spq_rep_def spq_hole_def)

lemma spq_rep_hole:
  assumes "spq_rep q (A @ p # B)"
  shows "spq_hole (snd p) q A B"
  unfolding spq_hole_def
proof (intro conjI)
  from assms have at: "\<And>j. j < length (A @ p # B) \<Longrightarrow> spq_at q ((A @ p # B) ! j) j" by (auto simp: spq_rep_def)
  show "\<forall>j < length A. spq_at q (A ! j) j"
  proof (intro allI impI)
    fix j assume "j < length A" then show "spq_at q (A ! j) j" using at [of j] by (simp add: nth_append)
  qed
  show "\<forall>j < length B. spq_at q (B ! j) (length A + 1 + j)"
  proof (intro allI impI)
    fix j assume "j < length B"
    then show "spq_at q (B ! j) (length A + 1 + j)" using at [of "length A + 1 + j"] by (simp add: nth_append)
  qed
qed (use assms in \<open>auto simp: spq_rep_def\<close>)

lemma while_snoc:
  "\<not> P p \<Longrightarrow> takeWhile P (A @ [p]) = takeWhile P A" "\<not> P p \<Longrightarrow> dropWhile P (A @ [p]) = dropWhile P A @ [p]"
  by (induction A) auto

lemma insert_loop_ok:
  assumes "spq_hole x q A B" "sorted (map fst A)"
  shows "\<exists>q'. spq_insert_loop key q (length A) = Some (q', length (takeWhile (\<lambda>p. fst p \<le> key) A))
    \<and> spq_hole x q' (takeWhile (\<lambda>p. fst p \<le> key) A) (dropWhile (\<lambda>p. fst p \<le> key) A @ B) \<and> spq_size q' = spq_size q"
  using assms
proof (induction A arbitrary: q B rule: rev_induct)
  case (snoc p A)
  from spq_hole_length [OF snoc.prems(1)] have len: "length A < kQueuePriorityCount" by simp
  have "spq_at q p (length A)" "spq_arrays q"
    using snoc.prems(1) by (auto simp: spq_hole_def nth_append split: if_splits)
  then have key: "slot_get (spq_keys q) (length A) = Some (fst p)"
    using len by (simp add: spq_arrays_def spq_at_def)
  show ?case
  proof (cases "key < fst p")
    case True
    obtain q1 where q1: "spq_move q (Suc (length A)) (length A) = Some q1" "spq_hole x q1 A (p # B)" "spq_size q1 = spq_size q"
      using spq_hole_up [OF snoc.prems(1)] by auto
    with snoc.IH [OF q1(2)] snoc.prems(2) key True show ?thesis
      by (auto simp: sorted_append while_snoc)
  next
    case False
    then have all: "\<forall>r \<in> set (A @ [p]). fst r \<le> key"
      using snoc.prems(2) by (fastforce simp: sorted_append)
    then have "takeWhile (\<lambda>p. fst p \<le> key) (A @ [p]) = A @ [p]" "dropWhile (\<lambda>p. fst p \<le> key) (A @ [p]) = []"
      by (simp_all only: takeWhile_eq_all_conv dropWhile_eq_Nil_conv)
    then show ?thesis using snoc.prems(1) key False by simp
  qed
qed simp

lemma sorted_pq_insert: "sorted (map fst ps) \<Longrightarrow> sorted (map fst (pq_insert key x ps))"
proof (induction ps)
  case (Cons p ps)
  then show ?case by (auto simp: pq_insert_def dest: set_takeWhileD set_dropWhileD)
qed (simp add: pq_insert_def)

lemma spq_insert_ok:
  assumes "spq_rep q ps" "x < kQueuePriorityCount" "x \<notin> snd ` set ps"
  shows "\<exists>q'. spq_insert q key x = Some q' \<and> spq_rep q' (pq_insert key x ps)"
proof -
  let ?A = "takeWhile (\<lambda>p. fst p \<le> key) ps" and ?B = "dropWhile (\<lambda>p. fst p \<le> key) ps"
  have srt: "sorted (map fst ps)" and sz: "spq_size q = length ps" using assms(1) by (auto simp: spq_rep_def)
  obtain q1 where q1: "spq_insert_loop key q (length ps) = Some (q1, length ?A)" "spq_hole x q1 ?A ?B" "spq_size q1 = spq_size q"
    using insert_loop_ok [OF spq_rep_hole_end [OF assms] srt, of key] by auto
  have "spq_hole x (q1\<lparr>spq_size := spq_size q1 + 1\<rparr>) ?A ?B"
    using q1(2) by (simp add: spq_hole_def spq_at_def spq_arrays_def)
  moreover have "length ?A + length ?B = length ps"
    by (metis length_append takeWhile_dropWhile_id)
  ultimately obtain q2 where q2: "spq_put (q1\<lparr>spq_size := spq_size q1 + 1\<rparr>) (length ?A) key x = Some q2"
      "spq_rep q2 (pq_insert key x ps)"
    using spq_hole_fill [of x "q1\<lparr>spq_size := spq_size q1 + 1\<rparr>" ?A ?B key] sorted_pq_insert [OF srt, of key x] q1(3) sz
    by (auto simp: pq_insert_def)
  have "spq_put q1 (length ?A) key x = Some (q2\<lparr>spq_size := spq_size q1\<rparr>)"
    using q2(1) by (auto simp: spq_put_def split: bind_splits)
  moreover have "q2\<lparr>spq_size := spq_size q1 + 1\<rparr> = q2"
    using q2(1) by (auto simp: spq_put_def split: bind_splits)
  moreover have "IsInQueue q x = Some False"
    using assms by (auto simp: IsInQueue_def spq_rep_def spq_arrays_def)
  ultimately show ?thesis
    using q1 q2 assms(2) sz spq_rep_length [OF assms(1)] by (simp add: spq_insert_def)
qed

lemma erase_loop_ok:
  assumes "spq_hole x q A B"
  shows "\<exists>q'. spq_erase_loop q [length A..<length A + length B] = Some q' \<and> spq_hole x q' (A @ B) [] \<and> spq_size q' = spq_size q"
  using assms
proof (induction B arbitrary: q A)
  case (Cons p B)
  obtain q1 where q1: "spq_move q (length A) (Suc (length A)) = Some q1" "spq_hole x q1 (A @ [p]) B" "spq_size q1 = spq_size q"
    using spq_hole_down [OF Cons.prems] by auto
  have "[length A..<length A + length (p # B)] = length A # [length (A @ [p])..<length (A @ [p]) + length B]"
    by (simp add: upt_conv_Cons del: upt_Suc)
  with q1 Cons.IH [OF q1(2)] show ?case by (auto simp del: upt_Suc)
qed simp

lemma spq_rep_split:
  assumes "spq_rep q ps" "x \<in> snd ` set ps"
  obtains A k B where "ps = A @ (k, x) # B" "filter (\<lambda>p. snd p \<noteq> x) ps = A @ B"
    "id_to_index q ! x = length A"
proof -
  obtain k where "(k, x) \<in> set ps" using assms(2) by auto
  then obtain A B where ps: "ps = A @ (k, x) # B" by (meson split_list)
  moreover from assms(1) ps have "x \<notin> snd ` set A" "x \<notin> snd ` set B" by (auto simp: spq_rep_def)
  moreover from assms(1) ps have "spq_at q (k, x) (length A)"
    unfolding spq_rep_def by (metis length_append length_Cons less_add_Suc1 nth_append_length add_Suc_right)
  moreover from calculation have "filter (\<lambda>p. snd p \<noteq> x) A = A" "filter (\<lambda>p. snd p \<noteq> x) B = B"
    by (force simp: filter_id_conv)+
  ultimately show ?thesis using that [of A k B] by (simp add: spq_at_def)
qed

lemma spq_erase_ok:
  assumes "spq_rep q ps" "x \<in> snd ` set ps"
  shows "\<exists>q'. spq_erase q x = Some q' \<and> spq_rep q' (filter (\<lambda>p. snd p \<noteq> x) ps)"
proof -
  obtain A k B where ps: "ps = A @ (k, x) # B" "filter (\<lambda>p. snd p \<noteq> x) ps = A @ B" "id_to_index q ! x = length A"
    using spq_rep_split [OF assms] by metis
  let ?q = "q\<lparr>spq_size := spq_size q - 1\<rparr>"
  have "spq_hole x ?q A B"
    using spq_rep_hole [of q A "(k, x)" B] assms(1) ps(1) by (simp add: spq_hole_def spq_at_def spq_arrays_def)
  from erase_loop_ok [OF this] obtain q1 where q1: "spq_erase_loop ?q [length A..<length A + length B] = Some q1"
      "spq_hole x q1 (A @ B) []" "spq_size q1 = length A + length B"
    using assms(1) ps(1) by (auto simp: spq_rep_def)
  have x: "x < kQueuePriorityCount" "length (id_to_index q) = kQueuePriorityCount" "spq_size q = Suc (length A + length B)"
    and srt: "sorted (map fst (A @ B))" using assms(1) ps(1) by (auto simp: spq_rep_def spq_arrays_def sorted_append)
  let ?q1 = "q1\<lparr>id_to_index := (id_to_index q1)[x := kInvalidIndex]\<rparr>"
  have "spq_rep ?q1 (A @ B)"
    unfolding spq_rep_def
  proof (intro conjI)
    show "\<forall>j < length (A @ B). spq_at ?q1 ((A @ B) ! j) j"
      using q1(2) snd_nth_neq [of x "A @ B", THEN not_sym] by (auto simp: spq_hole_def spq_at_def)
    show "\<forall>i < kQueuePriorityCount. i \<notin> snd ` set (A @ B) \<longrightarrow> id_to_index ?q1 ! i = kInvalidIndex"
      using q1(2) by (auto simp: spq_hole_def spq_arrays_def nth_list_update)
  qed (use q1(2,3) srt in \<open>auto simp: spq_hole_def spq_arrays_def\<close>)
  moreover have "length A < kQueuePriorityCount" using spq_hole_length [OF q1(2)] x(3) spq_rep_length [OF assms(1)] ps(1) by simp
  ultimately show ?thesis
    using q1 x ps(2,3) by (auto simp: spq_erase_def IsInQueue_def spq_hole_def spq_arrays_def)
qed

lemma change_loop_ok:
  assumes "spq_hole x q A B" "n = length A + length B + 1"
  shows "\<exists>q'. spq_change_loop key n q (length A) = Some (q', length (A @ takeWhile (\<lambda>p. fst p < key) B))
    \<and> spq_hole x q' (A @ takeWhile (\<lambda>p. fst p < key) B) (dropWhile (\<lambda>p. fst p < key) B) \<and> spq_size q' = spq_size q"
  using assms
proof (induction B arbitrary: q A)
  case (Cons p B)
  have "spq_at q p (Suc (length A))" "spq_arrays q"
    using Cons.prems(1) by (auto simp: spq_hole_def dest: spec [of _ 0])
  then have key: "slot_get (spq_keys q) (Suc (length A)) = Some (fst p)"
    using spq_hole_length [OF Cons.prems(1)] by (simp add: spq_arrays_def spq_at_def)
  obtain q1 where q1: "spq_move q (length A) (Suc (length A)) = Some q1" "spq_hole x q1 (A @ [p]) B" "spq_size q1 = spq_size q"
    using spq_hole_down [OF Cons.prems(1)] by auto
  show ?case
    using Cons.IH [OF q1(2)] Cons.prems key q1 by (subst spq_change_loop.simps) auto
qed (simp add: spq_change_loop.simps)

lemma sorted_pq_change: "sorted (map fst ps) \<Longrightarrow> sorted (map fst (pq_change key ps))"
proof -
  have *: "sorted (map fst (takeWhile (\<lambda>p. fst p < key) qs @ (key, x) # dropWhile (\<lambda>p. fst p < key) qs))"
    if "sorted (map fst qs)" for x and qs :: "(int \<times> nat) list"
    using that by (induction qs) (auto dest: set_takeWhileD set_dropWhileD)
  assume "sorted (map fst ps)"
  then have "sorted (map fst (tl ps))" by (cases ps) auto
  from * [OF this] show ?thesis by (simp add: pq_change_def)
qed

lemma ChangeMinKey_ok:
  assumes "spq_rep q ps" "ps \<noteq> []"
  shows "\<exists>q'. ChangeMinKey q key = Some q' \<and> spq_rep q' (pq_change key ps)"
proof -
  obtain k x B where ps: "ps = (k, x) # B" using assms(2) by (cases ps) auto
  let ?A = "takeWhile (\<lambda>p. fst p < key) B" and ?B = "dropWhile (\<lambda>p. fst p < key) B"
  have sz: "spq_size q = length B + 1" using assms(1) ps by (simp add: spq_rep_def)
  obtain q1 where q1: "spq_change_loop key (length B + 1) q 0 = Some (q1, length ?A)" "spq_hole x q1 ?A ?B" "spq_size q1 = length B + 1"
    using change_loop_ok [of x q "[]" B "length B + 1" key] spq_rep_hole [of q "[]" "(k, x)" B] assms(1) ps sz by auto
  have "length ?A + length ?B = length B" by (metis length_append takeWhile_dropWhile_id)
  then obtain q2 where "spq_put q1 (length ?A) key x = Some q2" "spq_rep q2 (pq_change key ps)"
    using spq_hole_fill [OF q1(2), of key] q1(3) sorted_pq_change [of ps key] assms(1) ps
    by (auto simp: pq_change_def spq_rep_def)
  moreover have "slot_get (index_to_id q) 0 = Some x"
    using assms(1) ps by (auto simp: spq_rep_def spq_arrays_def spq_at_def dest: spec [of _ 0])
  ultimately show ?thesis using q1 sz by (simp add: ChangeMinKey_def)
qed

lemma spq_new_ok: "spq_rep SmallPriorityQueue []"
  by (simp add: spq_rep_def SmallPriorityQueue_def spq_arrays_def)

lemma spq_empty_iff: "spq_rep q ps \<Longrightarrow> spq_empty q \<longleftrightarrow> ps = []"
  by (simp add: spq_empty_def spq_rep_def)

lemma min_id_ok: "spq_rep q ps \<Longrightarrow> ps \<noteq> [] \<Longrightarrow> min_id q = Some (snd (hd ps))"
  by (cases ps) (auto simp: min_id_def spq_rep_def spq_arrays_def spq_at_def dest: spec [of _ 0])

lemma IsInQueue_ok:
  assumes "spq_rep q ps" "x < kQueuePriorityCount"
  shows "IsInQueue q x = Some (x \<in> snd ` set ps)"
proof (cases "x \<in> snd ` set ps")
  case True
  then obtain A k B where ps: "ps = A @ (k, x) # B" "id_to_index q ! x = length A"
    using spq_rep_split [OF assms(1)] by metis
  with spq_rep_length [OF assms(1)] assms True show ?thesis by (auto simp: IsInQueue_def spq_rep_def spq_arrays_def)
qed (use assms in \<open>auto simp: IsInQueue_def spq_rep_def spq_arrays_def\<close>)

end
