(* ===== verification/Atomic_Flag_Set.thy ===== *)
theory Atomic_Flag_Set
  imports Small_Priority_Queue "HOL-Library.Word"
begin

text \<open>
  AtomicFlagSet (base/task/sequence_manager/atomic_flag_set.h and .cc): flags that any thread may set, 64 to a word, and
  the callbacks of the flags that are set.  The sequence manager keeps one flag per task queue that asks to be reloaded.

  Groups live in a store indexed by addresses; a dangling pointer has no group there, and following it has no
  result.  \<open>fs_alloc\<close> is the address of the next allocation.  \<open>std::unique_ptr\<close> next and the three raw pointers are
  addresses.  An atomic operation on the word of a group is one step.  A callback is a value of the client's type; running
  it records it.  Callbacks do not create or release flags.
\<close>

unbundle bit_operations_syntax

section \<open>Groups\<close>

definition CountTrailingZeroBits :: "64 word \<Rightarrow> nat" where
  "CountTrailingZeroBits x = length (takeWhile (\<lambda>i. \<not> bit x i) [0..<64])"

record 'c flag_group =
  g_flags :: "64 word"
  g_allocated :: "64 word"
  g_callbacks :: "'c option list"
  g_prev :: "nat option"
  g_next :: "nat option"
  g_pf_prev :: "nat option"
  g_pf_next :: "nat option"

abbreviation kNumFlags :: nat where "kNumFlags \<equiv> 64"

definition new_group :: "'c flag_group" where
  "new_group = \<lparr>g_flags = 0, g_allocated = 0, g_callbacks = replicate kNumFlags None, g_prev = None, g_next = None,
     g_pf_prev = None, g_pf_next = None\<rparr>"

definition group_IsFull :: "'c flag_group \<Rightarrow> bool" where
  "group_IsFull g \<longleftrightarrow> NOT (g_allocated g) = 0"

definition group_IsEmpty :: "'c flag_group \<Rightarrow> bool" where
  "group_IsEmpty g \<longleftrightarrow> g_allocated g = 0"

definition IndexOfFirstFlagSet :: "64 word \<Rightarrow> nat option" where
  "IndexOfFirstFlagSet flag = do { DCHECK (flag \<noteq> 0); Some (CountTrailingZeroBits flag) }"

definition FindFirstUnallocatedFlag :: "'c flag_group \<Rightarrow> nat option" where
  "FindFirstUnallocatedFlag g =
     do { let unallocated_flags = NOT (g_allocated g);
          DCHECK (unallocated_flags \<noteq> 0);
          index \<leftarrow> IndexOfFirstFlagSet unallocated_flags;
          DCHECK (index < kNumFlags);
          Some index }"

section \<open>The set\<close>

record 'c flag_set =
  fs_groups :: "nat \<Rightarrow> 'c flag_group option"
  fs_alloc :: nat
  alloc_list_head :: "nat option"
  partially_free_list_head :: "nat option"

definition AtomicFlagSet :: "'c flag_set" where
  "AtomicFlagSet = \<lparr>fs_groups = (\<lambda>_. None), fs_alloc = 0, alloc_list_head = None, partially_free_list_head = None\<rparr>"

definition AtomicFlagSet_delete :: "'c flag_set \<Rightarrow> unit option" where
  "AtomicFlagSet_delete s = do { DCHECK (alloc_list_head s = None); DCHECK (partially_free_list_head s = None) }"

text \<open>Writing through a pointer, and through one that may be null.\<close>

definition put :: "nat \<Rightarrow> ('c flag_group \<Rightarrow> 'c flag_group) \<Rightarrow> 'c flag_set \<Rightarrow> 'c flag_set option" where
  "put a f s = do { g \<leftarrow> fs_groups s a; Some (s\<lparr>fs_groups := (fs_groups s)(a \<mapsto> f g)\<rparr>) }"

definition put_if :: "nat option \<Rightarrow> ('c flag_group \<Rightarrow> 'c flag_group) \<Rightarrow> 'c flag_set \<Rightarrow> 'c flag_set option" where
  "put_if p f s = (case p of None \<Rightarrow> Some s | Some a \<Rightarrow> put a f s)"

definition Group_delete :: "nat \<Rightarrow> 'c flag_set \<Rightarrow> 'c flag_set option" where
  "Group_delete a s =
     do { g \<leftarrow> fs_groups s a;
          DCHECK (g_allocated g = 0);
          DCHECK (g_pf_prev g = None);
          DCHECK (g_pf_next g = None);
          Some (s\<lparr>fs_groups := (fs_groups s)(a := None)\<rparr>) }"

definition AddToAllocList :: "nat \<Rightarrow> 'c flag_set \<Rightarrow> 'c flag_set option" where
  "AddToAllocList a s =
     do { s \<leftarrow> put_if (alloc_list_head s) (\<lambda>g. g\<lparr>g_prev := Some a\<rparr>) s;
          s \<leftarrow> put a (\<lambda>g. g\<lparr>g_next := alloc_list_head s\<rparr>) s;
          Some (s\<lparr>alloc_list_head := Some a\<rparr>) }"

text \<open>Moving next of the group away and assigning it to its owner deletes the group.\<close>

definition RemoveFromAllocList :: "nat \<Rightarrow> 'c flag_set \<Rightarrow> 'c flag_set option" where
  "RemoveFromAllocList a s =
     do { group \<leftarrow> fs_groups s a;
          s \<leftarrow> put_if (g_next group) (\<lambda>g. g\<lparr>g_prev := g_prev group\<rparr>) s;
          s \<leftarrow> put a (\<lambda>g. g\<lparr>g_next := None\<rparr>) s;
          s \<leftarrow> (case g_prev group of
                 Some p \<Rightarrow> put p (\<lambda>g. g\<lparr>g_next := g_next group\<rparr>) s
               | None \<Rightarrow> Some (s\<lparr>alloc_list_head := g_next group\<rparr>));
          Group_delete a s }"

definition AddToPartiallyFreeList :: "nat \<Rightarrow> 'c flag_set \<Rightarrow> 'c flag_set option" where
  "AddToPartiallyFreeList a s =
     do { DCHECK (partially_free_list_head s \<noteq> Some a);
          group \<leftarrow> fs_groups s a;
          DCHECK (g_pf_prev group = None);
          DCHECK (g_pf_next group = None);
          s \<leftarrow> put_if (partially_free_list_head s) (\<lambda>g. g\<lparr>g_pf_prev := Some a\<rparr>) s;
          s \<leftarrow> put a (\<lambda>g. g\<lparr>g_pf_next := partially_free_list_head s\<rparr>) s;
          Some (s\<lparr>partially_free_list_head := Some a\<rparr>) }"

definition RemoveFromPartiallyFreeList :: "nat \<Rightarrow> 'c flag_set \<Rightarrow> 'c flag_set option" where
  "RemoveFromPartiallyFreeList a s =
     do { DCHECK (partially_free_list_head s \<noteq> None);
          group \<leftarrow> fs_groups s a;
          DCHECK (partially_free_list_head s = Some a \<or> g_pf_prev group \<noteq> None);
          s \<leftarrow> put_if (g_pf_next group) (\<lambda>g. g\<lparr>g_pf_prev := g_pf_prev group\<rparr>) s;
          s \<leftarrow> (case g_pf_prev group of
                 Some p \<Rightarrow> put p (\<lambda>g. g\<lparr>g_pf_next := g_pf_next group\<rparr>) s
               | None \<Rightarrow> Some (s\<lparr>partially_free_list_head := g_pf_next group\<rparr>));
          put a (\<lambda>g. g\<lparr>g_pf_prev := None, g_pf_next := None\<rparr>) s }"

section \<open>Flags\<close>

text \<open>The pointer outer is the set that the flag is used with.\<close>

record atomic_flag =
  af_group :: "nat option"
  af_bit :: "64 word"

definition SetActive :: "atomic_flag \<Rightarrow> bool \<Rightarrow> 'c flag_set \<Rightarrow> 'c flag_set option" where
  "SetActive f active s =
     do { DCHECK (af_group f \<noteq> None);
          a \<leftarrow> af_group f;
          put a (\<lambda>g. g\<lparr>g_flags := (if active then g_flags g OR af_bit f else g_flags g AND NOT (af_bit f))\<rparr>) s }"

definition ReleaseAtomicFlag :: "atomic_flag \<Rightarrow> 'c flag_set \<Rightarrow> (atomic_flag \<times> 'c flag_set) option" where
  "ReleaseAtomicFlag f s =
     (case af_group f of
        None \<Rightarrow> Some (f, s)
      | Some a \<Rightarrow>
          do { s \<leftarrow> SetActive f False s;
               group \<leftarrow> fs_groups s a;
               s \<leftarrow> (if group_IsFull group then AddToPartiallyFreeList a s else Some s);
               index \<leftarrow> IndexOfFirstFlagSet (af_bit f);
               group \<leftarrow> fs_groups s a;
               callback \<leftarrow> array_get (g_callbacks group) index;
               DCHECK (callback \<noteq> None);
               callbacks \<leftarrow> array_set (g_callbacks group) index None;
               s \<leftarrow> put a (\<lambda>g. g\<lparr>g_callbacks := callbacks, g_allocated := g_allocated g AND NOT (af_bit f)\<rparr>) s;
               group \<leftarrow> fs_groups s a;
               s \<leftarrow> (if group_IsEmpty group
                    then do { s \<leftarrow> RemoveFromPartiallyFreeList a s; RemoveFromAllocList a s }
                    else Some s);
               Some (f\<lparr>af_group := None\<rparr>, s) })"

definition AddFlag :: "'c \<Rightarrow> 'c flag_set \<Rightarrow> (atomic_flag \<times> 'c flag_set) option" where
  "AddFlag callback s =
     do { s \<leftarrow> (if partially_free_list_head s = None
               then do { let a = fs_alloc s;
                         let s = s\<lparr>fs_groups := (fs_groups s)(a \<mapsto> new_group), fs_alloc := a + 1\<rparr>;
                         s \<leftarrow> AddToAllocList a s;
                         h \<leftarrow> alloc_list_head s;
                         AddToPartiallyFreeList h s }
               else Some s);
          DCHECK (partially_free_list_head s \<noteq> None);
          a \<leftarrow> partially_free_list_head s;
          group \<leftarrow> fs_groups s a;
          first_unoccupied_index \<leftarrow> FindFirstUnallocatedFlag group;
          old \<leftarrow> array_get (g_callbacks group) first_unoccupied_index;
          DCHECK (old = None);
          callbacks \<leftarrow> array_set (g_callbacks group) first_unoccupied_index (Some callback);
          let flag_bit = push_bit first_unoccupied_index 1;
          s \<leftarrow> put a (\<lambda>g. g\<lparr>g_callbacks := callbacks, g_allocated := g_allocated g OR flag_bit\<rparr>) s;
          group \<leftarrow> fs_groups s a;
          s \<leftarrow> (if group_IsFull group then RemoveFromPartiallyFreeList a s else Some s);
          Some (\<lparr>af_group = Some a, af_bit = flag_bit\<rparr>, s) }"

section \<open>Running the callbacks\<close>

text \<open>The loop over the flags of one group; a null callback has no result.\<close>

lemma CountTrailingZeroBits_bit:
  assumes "x \<noteq> 0"
  shows "bit x (CountTrailingZeroBits x)" "CountTrailingZeroBits x < 64" "i < CountTrailingZeroBits x \<Longrightarrow> \<not> bit x i"
proof -
  obtain j where "bit x j" using assms by (auto simp: bit_eq_iff)
  then have "j \<in> set [0..<64]" "bit x j" using bit_imp_le_length [of x j] by auto
  then have "\<exists>j \<in> set [0..<64]. \<not> \<not> bit x j" by blast
  then have less: "length (takeWhile (\<lambda>i. \<not> bit x i) [0..<64]) < length [0..<64::nat]"
    by (metis length_takeWhile_le nat_less_le takeWhile_eq_all_conv takeWhile_eq_take take_all_iff)
  then show "CountTrailingZeroBits x < 64" by (simp add: CountTrailingZeroBits_def)
  show "bit x (CountTrailingZeroBits x)"
    using nth_length_takeWhile [OF less] less by (simp add: CountTrailingZeroBits_def)
  show "\<not> bit x i" if "i < CountTrailingZeroBits x"
    using that set_takeWhileD [of i "\<lambda>i. \<not> bit x i" "[0..<64]"] takeWhile_nth [of i "\<lambda>i. \<not> bit x i" "[0..<64]"] less nth_mem [of i "takeWhile (\<lambda>i. \<not> bit x i) [0..<64]"]
    by (auto simp: CountTrailingZeroBits_def)
qed

lemma bit_flip: "n < 64 \<Longrightarrow> bit (x XOR 2 ^ n) i \<longleftrightarrow> (if i = n then \<not> bit x i else bit x i)" for x :: "64 word"
  by (auto simp: bit_simps)

function run_flags :: "64 word \<Rightarrow> 'c flag_group \<Rightarrow> 'c list option" where
  "run_flags active_flags g =
     (if active_flags = 0 then Some []
      else do { index \<leftarrow> IndexOfFirstFlagSet active_flags;
                let active_flags = active_flags XOR push_bit index 1;
                callback \<leftarrow> Option.bind (array_get (g_callbacks g) index) id;
                callbacks \<leftarrow> run_flags active_flags g;
                Some (callback # callbacks) })"
  by pat_completeness auto
termination
proof (relation "measure (\<lambda>(x, _). card {i. i < 64 \<and> bit x i})"; clarsimp simp: IndexOfFirstFlagSet_def)
  fix x :: "64 word"
  assume "x \<noteq> 0"
  let ?n = "CountTrailingZeroBits x"
  note n = CountTrailingZeroBits_bit(1,2) [OF \<open>x \<noteq> 0\<close>]
  have "{i. i < 64 \<and> bit (x XOR 2 ^ ?n) i} = {i. i < 64 \<and> bit x i} - {?n}" using n by (auto simp: bit_flip)
  then show "card {i. i < 64 \<and> bit (x XOR 2 ^ ?n) i} < card {i. i < 64 \<and> bit x i}" 
    using n card_Diff1_less [of "{i. i < 64 \<and> bit x i}" ?n] by simp
qed

text \<open>
  The loop over the groups.  Before each atomic exchange other threads may have set and cleared flags; \<open>others\<close> lists what
  they did.  What remains of it happens after the last exchange.
\<close>

primrec set_all :: "(atomic_flag \<times> bool) list \<Rightarrow> 'c flag_set \<Rightarrow> 'c flag_set option" where
  "set_all [] s = Some s"
| "set_all (x # xs) s = do { s \<leftarrow> SetActive (fst x) (snd x) s; set_all xs s }"

partial_function (option) run_groups ::
  "nat option \<Rightarrow> (atomic_flag \<times> bool) list list \<Rightarrow> 'c flag_set \<Rightarrow> ('c list \<times> 'c flag_set) option" where
  "run_groups iter others s =
     (case iter of
        None \<Rightarrow> do { s \<leftarrow> set_all (concat others) s; Some ([], s) }
      | Some a \<Rightarrow>
          do { s \<leftarrow> (case others of [] \<Rightarrow> Some s | now # _ \<Rightarrow> set_all now s);
               group \<leftarrow> fs_groups s a;
               let active_flags = g_flags group;
               s \<leftarrow> put a (\<lambda>g. g\<lparr>g_flags := 0\<rparr>) s;
               callbacks \<leftarrow> run_flags active_flags group;
               (rest, s) \<leftarrow> run_groups (g_next group) (tl others) s;
               Some (callbacks @ rest, s) })"

declare run_groups.simps [code]

definition RunActiveCallbacks :: "(atomic_flag \<times> bool) list list \<Rightarrow> 'c flag_set \<Rightarrow> ('c list \<times> 'c flag_set) option" where
  "RunActiveCallbacks others s = run_groups (alloc_list_head s) others s"

section \<open>Doubly linked lists\<close>

text \<open>What the pointers of the nodes of a list should be.\<close>

definition first :: "nat list \<Rightarrow> nat option" where
  "first xs = (case xs of [] \<Rightarrow> None | x # _ \<Rightarrow> Some x)"

primrec next_in :: "nat list \<Rightarrow> nat \<Rightarrow> nat option" where
  "next_in [] a = None"
| "next_in (x # xs) a = (if x = a then first xs else next_in xs a)"

definition prev_in :: "nat list \<Rightarrow> nat \<Rightarrow> nat option" where
  "prev_in xs a = next_in (rev xs) a"

lemma first_simps [simp]: "first [] = None" "first (x # xs) = Some x"
  by (auto simp: first_def)

lemma next_in_append: "next_in (xs @ ys) a = (if a \<in> set xs then (case next_in xs a of None \<Rightarrow> first ys | Some b \<Rightarrow> Some b) else next_in ys a)"
  by (induction xs) (auto simp: first_def split: list.splits)

lemma next_in_notin [simp]: "a \<notin> set xs \<Longrightarrow> next_in xs a = None"
  by (induction xs) auto

lemma next_in_last: "distinct xs \<Longrightarrow> a \<in> set xs \<Longrightarrow> next_in xs a = None \<longleftrightarrow> a = last xs"
proof (induction xs)
  case (Cons x xs)
  then show ?case by (cases xs) auto
qed simp

lemma next_in_set: "next_in xs a = Some b \<Longrightarrow> b \<in> set xs"
  by (induction xs) (auto simp: first_def split: list.splits if_splits)

lemma next_in_mid: "distinct (us @ a # vs) \<Longrightarrow> next_in (us @ a # vs) a = first vs"
  by (simp add: next_in_append)

lemma first_hd: "first xs = Some x \<longleftrightarrow> xs \<noteq> [] \<and> x = hd xs"
  by (auto simp: first_def split: list.splits)

lemma next_in_remove:
  assumes "distinct (us @ a # vs)" "b \<noteq> a"
  shows "next_in (us @ vs) b = (if first (rev us) = Some b then first vs else next_in (us @ a # vs) b)"
  using assms next_in_last [of us b] by (cases "b \<in> set us") (auto simp: next_in_append first_hd hd_rev split: option.splits)

lemma prev_in_mid: "distinct (us @ a # vs) \<Longrightarrow> prev_in (us @ a # vs) a = first (rev us)"
  using next_in_mid [of "rev vs" a "rev us"] by (auto simp: prev_in_def)

lemma prev_in_remove:
  assumes "distinct (us @ a # vs)" "b \<noteq> a"
  shows "prev_in (us @ vs) b = (if first vs = Some b then first (rev us) else prev_in (us @ a # vs) b)"
  using next_in_remove [of "rev vs" a "rev us" b] assms by (simp add: prev_in_def Int_commute)

lemma prev_in_Cons: "distinct (a # xs) \<Longrightarrow> prev_in (a # xs) b = (if b = a then None else if first xs = Some b then Some a else prev_in xs b)"
  using next_in_last [of "rev xs" b] by (cases "b \<in> set xs") (auto simp: prev_in_def next_in_append first_hd last_rev split: option.splits)

lemma prev_in_notin [simp]: "a \<notin> set xs \<Longrightarrow> prev_in xs a = None"
  by (simp add: prev_in_def)

lemma prev_in_set: "prev_in xs a = Some b \<Longrightarrow> b \<in> set xs"
  using next_in_set [of "rev xs" a b] by (simp add: prev_in_def)

section \<open>The pointers of a set\<close>

definition content :: "'c flag_group \<Rightarrow> 64 word \<times> 64 word \<times> 'c option list" where
  "content g = (g_flags g, g_allocated g, g_callbacks g)"

definition contents :: "'c flag_set \<Rightarrow> nat \<Rightarrow> (64 word \<times> 64 word \<times> 'c option list) option" where
  "contents s a = map_option content (fs_groups s a)"

definition linked :: "nat list \<Rightarrow> nat list \<Rightarrow> nat \<Rightarrow> 'c flag_group \<Rightarrow> bool" where
  "linked L P a g \<longleftrightarrow> g_next g = next_in L a \<and> g_prev g = prev_in L a \<and> g_pf_next g = next_in P a \<and> g_pf_prev g = prev_in P a"

definition links_ok :: "'c flag_set \<Rightarrow> nat list \<Rightarrow> nat list \<Rightarrow> bool" where
  "links_ok s L P \<longleftrightarrow>
     dom (fs_groups s) = set L \<and> (\<forall>a \<in> set L. a < fs_alloc s) \<and> distinct L \<and> distinct P \<and> set P \<subseteq> set L
     \<and> alloc_list_head s = first L \<and> partially_free_list_head s = first P
     \<and> (\<forall>a g. fs_groups s a = Some g \<longrightarrow> linked L P a g)"

lemma links_group: "links_ok s L P \<Longrightarrow> a \<in> set L \<Longrightarrow> \<exists>g. fs_groups s a = Some g \<and> linked L P a g"
  unfolding links_ok_def by (metis domD)

lemma put_ok: "fs_groups s a = Some g \<Longrightarrow> put a f s = Some (s\<lparr>fs_groups := (fs_groups s)(a \<mapsto> f g)\<rparr>)"
  by (simp add: put_def)

lemma put_content:
  assumes "links_ok s L P" "fs_groups s a = Some g"
    and "g_next (f g) = g_next g" "g_prev (f g) = g_prev g" "g_pf_next (f g) = g_pf_next g" "g_pf_prev (f g) = g_pf_prev g"
  shows "\<exists>s'. put a f s = Some s' \<and> links_ok s' L P \<and> contents s' = (contents s)(a \<mapsto> content (f g)) \<and> fs_alloc s' = fs_alloc s"
proof -
  have "linked L P a (f g)" using assms by (auto simp: links_ok_def linked_def)
  then show ?thesis using assms(1,2) put_ok [OF assms(2), of f] by (auto simp: links_ok_def contents_def fun_eq_iff)
qed

lemma AddToPartiallyFreeList_ok:
  assumes ok: "links_ok s L P" and a: "a \<in> set L" "a \<notin> set P"
  shows "\<exists>s'. AddToPartiallyFreeList a s = Some s' \<and> links_ok s' L (a # P) \<and> contents s' = contents s \<and> fs_alloc s' = fs_alloc s"
proof -
  obtain g where g: "fs_groups s a = Some g" "linked L P a g" using links_group [OF ok a(1)] by blast
  have null: "g_pf_prev g = None" "g_pf_next g = None" "partially_free_list_head s \<noteq> Some a" "distinct (a # P)"
    using g(2) a ok by (auto simp: linked_def links_ok_def first_def split: list.splits)
  show ?thesis
  proof (cases P)
    case Nil
    then show ?thesis
      using g null ok a by (auto simp: AddToPartiallyFreeList_def put_if_def put_def links_ok_def linked_def contents_def content_def fun_eq_iff prev_in_Cons)
  next
    case (Cons p ps)
    obtain h where h: "fs_groups s p = Some h" using links_group [OF ok, of p] Cons ok by (auto simp: links_ok_def)
    have "p \<noteq> a" using Cons a by auto
    then show ?thesis
      using g h null ok a Cons
      by (auto simp: AddToPartiallyFreeList_def put_if_def put_def links_ok_def linked_def contents_def content_def fun_eq_iff prev_in_Cons)
  qed
qed

lemma first_rev: "first (rev us) = None \<longleftrightarrow> us = []" "first (rev us) = Some p \<Longrightarrow> p \<in> set us" "first us = Some n \<Longrightarrow> n \<in> set us"
  using hd_in_set [of "rev us"] hd_in_set [of us] by (auto simp: first_def split: list.splits)

lemma first_append: "us \<noteq> [] \<Longrightarrow> first (us @ vs) = first us"
  by (cases us) simp_all

text \<open>The neighbours of a node in the middle of a list, and what becomes of the pointers when it is taken out.\<close>

lemma unlinked:
  assumes "distinct (us @ a # vs)" "x \<noteq> a"
  shows "first (rev us) = Some x \<Longrightarrow> next_in (us @ vs) x = first vs" "first vs = Some x \<Longrightarrow> prev_in (us @ vs) x = first (rev us)"
    "first (rev us) \<noteq> Some x \<Longrightarrow> next_in (us @ vs) x = next_in (us @ a # vs) x" "first vs \<noteq> Some x \<Longrightarrow> prev_in (us @ vs) x = prev_in (us @ a # vs) x"
  using next_in_remove [OF assms] prev_in_remove [OF assms] by simp_all

lemma RemoveFromPartiallyFreeList_ok:
  assumes ok: "links_ok s L P" and a: "a \<in> set P"
  shows "\<exists>s' P'. RemoveFromPartiallyFreeList a s = Some s' \<and> links_ok s' L P' \<and> set P' = set P - {a} \<and> contents s' = contents s
    \<and> fs_alloc s' = fs_alloc s"
proof -
  obtain us vs where P: "P = us @ a # vs" using a by (auto simp: in_set_conv_decomp)
  have d: "distinct (us @ a # vs)" and sub: "set (us @ a # vs) \<subseteq> set L" using ok P by (auto simp: links_ok_def)
  obtain g where g: "fs_groups s a = Some g" "linked L (us @ a # vs) a g" using links_group [OF ok, of a] P sub by auto
  then have pf: "g_pf_next g = first vs" "g_pf_prev g = first (rev us)" using next_in_mid [OF d] prev_in_mid [OF d] by (auto simp: linked_def)
  have nbr: "\<exists>h. fs_groups s x = Some h \<and> linked L (us @ a # vs) x h \<and> x \<noteq> a" if "first (rev us) = Some x \<or> first vs = Some x" for x
    using links_group [OF ok, of x] that first_rev(2) [of us x] first_rev(3) [of vs x] d sub P by auto
  have apart: "first (rev us) = Some x \<Longrightarrow> first vs \<noteq> Some x" for x using d first_rev(2) [of us x] first_rev(3) [of vs x] by auto
  have head: "partially_free_list_head s = first (us @ a # vs)" using ok P by (simp add: links_ok_def)
  have some: "first (us @ a # vs) \<noteq> None" by (cases us) auto
  note u = unlinked [OF d]
  have "\<exists>s'. RemoveFromPartiallyFreeList a s = Some s' \<and> links_ok s' L (us @ vs) \<and> contents s' = contents s \<and> fs_alloc s' = fs_alloc s"
  proof (cases "first (rev us)")
    case None
    then have us: "us = []" by (simp add: first_rev)
    show ?thesis
    proof (cases "first vs")
      case n: None
      then show ?thesis
        using g(1) pf head ok us u d by (auto simp: RemoveFromPartiallyFreeList_def put_if_def put_def links_ok_def linked_def contents_def content_def fun_eq_iff P)
    next
      case (Some n)
      then obtain h where "fs_groups s n = Some h" "n \<noteq> a" using nbr [of n] by auto
      then show ?thesis
        using g(1) pf head ok us u d Some
        by (auto simp: RemoveFromPartiallyFreeList_def put_if_def put_def links_ok_def linked_def contents_def content_def fun_eq_iff P)
    qed
  next
    case (Some p)
    then obtain k where k: "fs_groups s p = Some k" "p \<noteq> a" using nbr [of p] by auto
    have us: "us \<noteq> []" using Some by auto
    then have us: "us \<noteq> []" "first (us @ vs) = first (us @ a # vs)" by (simp_all add: first_append)
    show ?thesis
    proof (cases "first vs")
      case n: None
      then show ?thesis
        using g(1) pf head ok us u d Some k some
        by (auto simp: RemoveFromPartiallyFreeList_def put_if_def put_def links_ok_def linked_def contents_def content_def fun_eq_iff P)
    next
      case n: (Some n)
      then obtain h where "fs_groups s n = Some h" "n \<noteq> a" "n \<noteq> p" using nbr [of n] apart [of p] Some by auto
      then show ?thesis
        using g(1) pf head ok us u d Some k some n apart
        by (auto simp: RemoveFromPartiallyFreeList_def put_if_def put_def links_ok_def linked_def contents_def content_def fun_eq_iff P)
    qed
  qed
  moreover have "set (us @ vs) = set P - {a}" using d P by auto
  ultimately show ?thesis by blast
qed

lemma RemoveFromAllocList_ok:
  assumes ok: "links_ok s L P" and a: "a \<in> set L" "a \<notin> set P" and e: "fs_groups s a = Some g" "g_allocated g = 0"
  shows "\<exists>s' L'. RemoveFromAllocList a s = Some s' \<and> links_ok s' L' P \<and> set L' = set L - {a} \<and> contents s' = (contents s)(a := None)
    \<and> fs_alloc s' = fs_alloc s"
proof -
  obtain us vs where L: "L = us @ a # vs" using a(1) by (auto simp: in_set_conv_decomp)
  have d: "distinct (us @ a # vs)" using ok L by (auto simp: links_ok_def)
  have g: "linked (us @ a # vs) P a g" using ok e(1) L by (auto simp: links_ok_def)
  then have pf: "g_next g = first vs" "g_prev g = first (rev us)" "g_pf_next g = None" "g_pf_prev g = None"
    using next_in_mid [OF d] prev_in_mid [OF d] a(2) by (auto simp: linked_def)
  have nbr: "\<exists>h. fs_groups s x = Some h \<and> x \<noteq> a" if "first (rev us) = Some x \<or> first vs = Some x" for x
    using links_group [OF ok, of x] that first_rev(2) [of us x] first_rev(3) [of vs x] d L by auto
  have apart: "first (rev us) = Some x \<Longrightarrow> first vs \<noteq> Some x" for x using d first_rev(2) [of us x] first_rev(3) [of vs x] by auto
  have head: "alloc_list_head s = first (us @ a # vs)" using ok L by (simp add: links_ok_def)
  have P: "set P \<subseteq> set (us @ vs)" using ok a(2) L by (auto simp: links_ok_def)
  note u = unlinked [OF d]
  have "\<exists>s'. RemoveFromAllocList a s = Some s' \<and> links_ok s' (us @ vs) P \<and> contents s' = (contents s)(a := None) \<and> fs_alloc s' = fs_alloc s"
  proof (cases "first (rev us)")
    case None
    then have us: "us = []" by (simp add: first_rev)
    show ?thesis
    proof (cases "first vs")
      case n: None
      then show ?thesis
        using e pf head ok us u d P
        by (auto simp: RemoveFromAllocList_def Group_delete_def put_if_def put_def links_ok_def linked_def contents_def content_def fun_eq_iff L)
    next
      case (Some n)
      then obtain h where "fs_groups s n = Some h" "n \<noteq> a" using nbr [of n] by auto
      then show ?thesis
        using e pf head ok us u d Some P
        by (auto simp: RemoveFromAllocList_def Group_delete_def put_if_def put_def links_ok_def linked_def contents_def content_def fun_eq_iff L)
    qed
  next
    case (Some p)
    then obtain k where k: "fs_groups s p = Some k" "p \<noteq> a" using nbr [of p] by auto
    have us: "us \<noteq> []" using Some by auto
    then have us: "us \<noteq> []" "first (us @ vs) = first (us @ a # vs)" by (simp_all add: first_append)
    show ?thesis
    proof (cases "first vs")
      case n: None
      then show ?thesis
        using e pf head ok us u d Some k P
        by (auto simp: RemoveFromAllocList_def Group_delete_def put_if_def put_def links_ok_def linked_def contents_def content_def fun_eq_iff L)
    next
      case n: (Some n)
      then obtain h where "fs_groups s n = Some h" "n \<noteq> a" "n \<noteq> p" using nbr [of n] apart [of p] Some by auto
      then show ?thesis
        using e pf head ok us u d Some k n apart P
        by (auto simp: RemoveFromAllocList_def Group_delete_def put_if_def put_def links_ok_def linked_def contents_def content_def fun_eq_iff L)
    qed
  qed
  moreover have "set (us @ vs) = set L - {a}" using d L by auto
  ultimately show ?thesis by blast
qed

lemma AddToAllocList_ok:
  assumes ok: "links_ok s L P"
  defines "a \<equiv> fs_alloc s"
  shows "\<exists>s'. AddToAllocList a (s\<lparr>fs_groups := (fs_groups s)(a \<mapsto> new_group), fs_alloc := a + 1\<rparr>) = Some s' \<and> links_ok s' (a # L) P
    \<and> contents s' = (contents s)(a \<mapsto> content new_group) \<and> fs_alloc s' = a + 1"
proof -
  have a: "a \<notin> set L" "a \<notin> set P" "fs_groups s a = None" using ok by (auto simp: links_ok_def a_def)
  then have d: "distinct (a # L)" using ok by (simp add: links_ok_def)
  show ?thesis
  proof (cases L)
    case Nil
    then show ?thesis
      using a ok d by (auto simp: AddToAllocList_def put_if_def put_def links_ok_def linked_def contents_def content_def fun_eq_iff new_group_def prev_in_Cons a_def)
  next
    case (Cons p ps)
    obtain h where h: "fs_groups s p = Some h" using links_group [OF ok, of p] Cons by auto
    have "p \<noteq> a" using Cons a by auto
    then show ?thesis
      using a h ok d Cons
      by (auto simp: AddToAllocList_def put_if_def put_def links_ok_def linked_def contents_def content_def fun_eq_iff new_group_def prev_in_Cons a_def less_Suc_eq)
  qed
qed

section \<open>The flags of a set\<close>

definition content_ok :: "64 word \<times> 64 word \<times> 'c option list \<Rightarrow> bool" where
  "content_ok c \<longleftrightarrow>
     (case c of (flags, allocated, callbacks) \<Rightarrow>
        length callbacks = kNumFlags \<and> allocated \<noteq> 0 \<and> (\<forall>i < kNumFlags. callbacks ! i \<noteq> None \<longleftrightarrow> bit allocated i)
        \<and> (\<forall>i. bit flags i \<longrightarrow> bit allocated i))"

definition room_in :: "'c flag_set \<Rightarrow> nat set" where
  "room_in s = {a. \<exists>flags allocated callbacks. contents s a = Some (flags, allocated, callbacks) \<and> NOT allocated \<noteq> 0}"

definition set_rep :: "'c flag_set \<Rightarrow> nat list \<Rightarrow> nat list \<Rightarrow> bool" where
  "set_rep s L P \<longleftrightarrow> links_ok s L P \<and> (\<forall>a c. contents s a = Some c \<longrightarrow> content_ok c) \<and> set P = room_in s"

definition set_inv :: "'c flag_set \<Rightarrow> bool" where
  "set_inv s \<longleftrightarrow> (\<exists>L P. set_rep s L P)"

text \<open>A flag is named by its group and index; it has a callback and is active or not.\<close>

definition flags_of :: "'c flag_set \<Rightarrow> nat \<times> nat \<Rightarrow> ('c \<times> bool) option" where
  "flags_of s k =
     (case contents s (fst k) of
        None \<Rightarrow> None
      | Some (flags, allocated, callbacks) \<Rightarrow>
          if snd k < kNumFlags \<and> bit allocated (snd k) then Some (the (callbacks ! snd k), bit flags (snd k)) else None)"

definition flag_at :: "nat \<times> nat \<Rightarrow> atomic_flag" where
  "flag_at k = \<lparr>af_group = Some (fst k), af_bit = push_bit (snd k) 1\<rparr>"

lemma contents_group: "contents s a = Some (f, al, cbs) \<longleftrightarrow> (\<exists>g. fs_groups s a = Some g \<and> g_flags g = f \<and> g_allocated g = al \<and> g_callbacks g = cbs)"
  by (auto simp: contents_def content_def)

lemma flagE:
  assumes "k \<in> dom (flags_of s)"
  obtains g where "fs_groups s (fst k) = Some g" "contents s (fst k) = Some (g_flags g, g_allocated g, g_callbacks g)"
    "snd k < 64" "bit (g_allocated g) (snd k)" "flags_of s k = Some (the (g_callbacks g ! snd k), bit (g_flags g) (snd k))"
  using assms by (auto simp: flags_of_def contents_def content_def split: option.splits if_splits)

lemma set_inv_new: "set_inv AtomicFlagSet" "flags_of AtomicFlagSet = Map.empty"
proof -
  have "set_rep AtomicFlagSet [] []" by (auto simp: set_rep_def links_ok_def AtomicFlagSet_def contents_def room_in_def)
  then show "set_inv AtomicFlagSet" by (auto simp: set_inv_def)
  show "flags_of AtomicFlagSet = Map.empty" by (auto simp: flags_of_def contents_def AtomicFlagSet_def)
qed

lemma single_bit: "i < 64 \<Longrightarrow> bit (push_bit i 1 :: 64 word) j \<longleftrightarrow> j = i"
  by (auto simp: bit_simps)

lemma single_ctz: "i < 64 \<Longrightarrow> IndexOfFirstFlagSet (push_bit i 1) = Some i"
proof -
  assume i: "i < 64"
  have "(push_bit i 1 :: 64 word) \<noteq> 0" using single_bit [OF i, of i] i by auto
  then show ?thesis using CountTrailingZeroBits_bit(1) [of "push_bit i 1"] single_bit [OF i] i by (auto simp: IndexOfFirstFlagSet_def)
qed

text \<open>A step that writes only the flags of a group.\<close>

lemma set_flags_ok:
  assumes rep: "set_rep s L P" and g: "fs_groups s a = Some g" and f: "f g = g\<lparr>g_flags := x\<rparr>" "\<And>i. bit x i \<Longrightarrow> bit (g_allocated g) i"
  shows "\<exists>s'. put a f s = Some s' \<and> set_rep s' L P \<and> fs_alloc s' = fs_alloc s
    \<and> flags_of s' = (\<lambda>k. if fst k = a then map_option (\<lambda>(c, _). (c, bit x (snd k))) (flags_of s k) else flags_of s k)"
proof -
  have links: "links_ok s L P" using rep by (simp add: set_rep_def)
  from put_content [OF links g, of f] f(1) obtain s' where s': "put a f s = Some s'" "links_ok s' L P"
    "contents s' = (contents s)(a \<mapsto> (x, g_allocated g, g_callbacks g))" "fs_alloc s' = fs_alloc s" by (auto simp: content_def)
  have c: "contents s a = Some (g_flags g, g_allocated g, g_callbacks g)" using g by (simp add: contents_def content_def)
  then have "content_ok (x, g_allocated g, g_callbacks g)" using rep f(2) by (auto simp: set_rep_def content_ok_def)
  moreover have "room_in s' = room_in s" using s'(3) c by (auto simp: room_in_def)
  ultimately have "set_rep s' L P" using rep s'(2,3) by (auto simp: set_rep_def)
  moreover have "flags_of s' = (\<lambda>k. if fst k = a then map_option (\<lambda>(c, _). (c, bit x (snd k))) (flags_of s k) else flags_of s k)"
    using s'(3) c by (auto simp: flags_of_def fun_eq_iff)
  ultimately show ?thesis using s'(1,4) by blast
qed

lemma SetActive_ok:
  assumes rep: "set_rep s L P" and k: "flags_of s k = Some (c, b)"
  shows "\<exists>s'. SetActive (flag_at k) active s = Some s' \<and> set_rep s' L P \<and> flags_of s' = (flags_of s)(k \<mapsto> (c, active))"
proof -
  obtain g where g: "fs_groups s (fst k) = Some g" "contents s (fst k) = Some (g_flags g, g_allocated g, g_callbacks g)" "snd k < 64" "bit (g_allocated g) (snd k)"
    by (rule flagE [of k s]) (use k in auto)
  have sub: "\<And>i. bit (g_flags g) i \<Longrightarrow> bit (g_allocated g) i" using rep g(2) by (auto simp: set_rep_def content_ok_def)
  let ?x = "if active then g_flags g OR af_bit (flag_at k) else g_flags g AND NOT (af_bit (flag_at k))"
  have x: "bit ?x i \<longleftrightarrow> (if i = snd k then active else bit (g_flags g) i)" if "i < 64" for i
    using that single_bit [OF g(3)] by (auto simp: flag_at_def bit_or_iff bit_and_iff bit_not_iff)
  have "bit (g_allocated g) i" if "bit ?x i" for i using that x [of i] sub [of i] g(4) bit_imp_le_length [OF that] by (auto split: if_splits)
  from set_flags_ok [OF rep g(1), of "\<lambda>g. g\<lparr>g_flags := (if active then g_flags g OR af_bit (flag_at k) else g_flags g AND NOT (af_bit (flag_at k)))\<rparr>", OF refl this]
  obtain s' where s': "put (fst k) (\<lambda>g. g\<lparr>g_flags := (if active then g_flags g OR af_bit (flag_at k) else g_flags g AND NOT (af_bit (flag_at k)))\<rparr>) s = Some s'"
    "set_rep s' L P" "flags_of s' = (\<lambda>j. if fst j = fst k then map_option (\<lambda>(c, _). (c, bit ?x (snd j))) (flags_of s j) else flags_of s j)" by blast
  have "flags_of s' j = ((flags_of s)(k \<mapsto> (c, active))) j" for j
  proof (cases "fst j = fst k \<and> j \<noteq> k")
    case True
    then have "snd j \<noteq> snd k" by (auto simp: prod_eq_iff)
    then have "map_option (\<lambda>(c, _). (c, bit ?x (snd j))) (flags_of s j) = flags_of s j"
      using True x [of "snd j"] g(2) by (auto simp: flags_of_def)
    then show ?thesis using s'(3) True by simp
  next
    case False
    then show ?thesis using s'(3) k x [OF g(3)] by (cases "j = k") simp_all
  qed
  then have "flags_of s' = (flags_of s)(k \<mapsto> (c, active))" by (rule ext)
  moreover have "af_group (flag_at k) = Some (fst k)" by (simp add: flag_at_def)
  ultimately show ?thesis using s'(1,2) by (simp add: SetActive_def)
qed

section \<open>Adding and releasing flags\<close>

lemma set_repD:
  assumes "set_rep s L P"
  shows "links_ok s L P" "contents s a = Some c \<Longrightarrow> content_ok c" "set P = room_in s" "a \<in> set L \<longleftrightarrow> contents s a \<noteq> None" "set P \<subseteq> set L"
    "partially_free_list_head s = first P" "alloc_list_head s = first L"
proof -
  show "links_ok s L P" "contents s a = Some c \<Longrightarrow> content_ok c" "set P = room_in s" using assms unfolding set_rep_def by blast+
  then have l: "links_ok s L P" by simp
  show "a \<in> set L \<longleftrightarrow> contents s a \<noteq> None" using l by (auto simp: links_ok_def contents_def)
  show "set P \<subseteq> set L" "partially_free_list_head s = first P" "alloc_list_head s = first L" using l by (simp_all add: links_ok_def)
qed

lemma flags_of_cong: "contents s' = contents s \<Longrightarrow> flags_of s' = flags_of s"
  by (simp add: flags_of_def fun_eq_iff)

text \<open>Changing what one group holds, in terms of the flags.\<close>

lemma flags_of_upd:
  assumes "contents s' = (contents s)(a := c)"
  shows "flags_of s' k = (if fst k = a then (case c of None \<Rightarrow> None | Some (flags, allocated, callbacks) \<Rightarrow>
     if snd k < kNumFlags \<and> bit allocated (snd k) then Some (the (callbacks ! snd k), bit flags (snd k)) else None) else flags_of s k)"
  using assms by (simp add: flags_of_def)

lemma full_iff: "NOT x = 0 \<longleftrightarrow> (\<forall>i < 64. bit x i)" for x :: "64 word"
  by (auto simp: bit_eq_iff bit_not_iff)

lemma grow_ok:
  assumes "set_inv s"
  shows "\<exists>s1 L P a g. (if partially_free_list_head s = None
               then do { let a = fs_alloc s;
                         let s = s\<lparr>fs_groups := (fs_groups s)(a \<mapsto> new_group), fs_alloc := a + 1\<rparr>;
                         s \<leftarrow> AddToAllocList a s;
                         h \<leftarrow> alloc_list_head s;
                         AddToPartiallyFreeList h s }
               else Some s) = Some s1
    \<and> links_ok s1 L P \<and> partially_free_list_head s1 = Some a \<and> a \<in> set P \<and> fs_groups s1 a = Some g \<and> NOT (g_allocated g) \<noteq> 0
    \<and> set P = room_in s1 \<and> (\<forall>b c. b \<noteq> a \<and> contents s1 b = Some c \<longrightarrow> content_ok c) \<and> flags_of s1 = flags_of s
    \<and> length (g_callbacks g) = 64 \<and> (\<forall>i < 64. g_callbacks g ! i \<noteq> None \<longleftrightarrow> bit (g_allocated g) i) \<and> (\<forall>i. bit (g_flags g) i \<longrightarrow> bit (g_allocated g) i)"
proof -
  obtain L P where rep: "set_rep s L P" using assms by (auto simp: set_inv_def)
  note r = set_repD [OF rep]
  show ?thesis
  proof (cases P)
    case (Cons a ps)
    then have a: "a \<in> room_in s" "partially_free_list_head s = Some a" using r(3,6) by auto
    then obtain g where g: "fs_groups s a = Some g" "NOT (g_allocated g) \<noteq> 0" by (auto simp: room_in_def contents_group)
    then have "content_ok (g_flags g, g_allocated g, g_callbacks g)" using r(2) [of a "(g_flags g, g_allocated g, g_callbacks g)"] by (simp add: contents_group)
    then have "length (g_callbacks g) = 64" "\<forall>i < 64. g_callbacks g ! i \<noteq> None \<longleftrightarrow> bit (g_allocated g) i" "\<forall>i. bit (g_flags g) i \<longrightarrow> bit (g_allocated g) i"
      by (simp_all add: content_ok_def)
    then show ?thesis using g a r Cons by (intro exI [of _ s] exI [of _ L] exI [of _ P] exI [of _ a] exI [of _ g]) auto
  next
    case Nil
    let ?a = "fs_alloc s"
    have none: "contents s ?a = None" using r(1,4) by (auto simp: links_ok_def)
    from AddToAllocList_ok [OF r(1)] obtain s1 where
      s1: "AddToAllocList ?a (s\<lparr>fs_groups := (fs_groups s)(?a \<mapsto> new_group), fs_alloc := ?a + 1\<rparr>) = Some s1" "links_ok s1 (?a # L) P"
        "contents s1 = (contents s)(?a \<mapsto> content new_group)" by blast
    from AddToPartiallyFreeList_ok [OF s1(2), of ?a] Nil obtain s2 where
      s2: "AddToPartiallyFreeList ?a s1 = Some s2" "links_ok s2 (?a # L) [?a]" "contents s2 = contents s1" by auto
    have c: "contents s2 = (contents s)(?a \<mapsto> (0, 0, replicate 64 None))" using s1(3) s2(3) by (simp add: content_def new_group_def)
    then obtain g where g: "fs_groups s2 ?a = Some g" "g_flags g = 0" "g_allocated g = 0" "g_callbacks g = replicate 64 None"
      using contents_group [of s2 ?a 0 0 "replicate 64 None"] by auto
    have "flags_of s2 = flags_of s"
      using flags_of_upd [OF c] none by (auto simp: fun_eq_iff flags_of_def)
    moreover have "room_in s2 = {?a}" using r(3) Nil c by (auto simp: room_in_def)
    moreover have "alloc_list_head s1 = Some ?a" "partially_free_list_head s2 = Some ?a" using s1(2) s2(2) by (auto simp: links_ok_def)
    ultimately show ?thesis
      using s1(1) s2(1,2) g c r(2,6) Nil by (intro exI [of _ s2] exI [of _ "?a # L"] exI [of _ "[?a]"] exI [of _ ?a] exI [of _ g]) (auto split: if_splits)
  qed
qed

lemma AddFlag_ok:
  assumes "set_inv s"
  shows "\<exists>k s'. AddFlag callback s = Some (flag_at k, s') \<and> set_inv s' \<and> k \<notin> dom (flags_of s) \<and> flags_of s' = (flags_of s)(k \<mapsto> (callback, False))"
proof -
  from grow_ok [OF assms] obtain s1 L P a g where
    grow: "(if partially_free_list_head s = None
               then do { let a = fs_alloc s;
                         let s = s\<lparr>fs_groups := (fs_groups s)(a \<mapsto> new_group), fs_alloc := a + 1\<rparr>;
                         s \<leftarrow> AddToAllocList a s;
                         h \<leftarrow> alloc_list_head s;
                         AddToPartiallyFreeList h s }
               else Some s) = Some s1"
    and s1: "links_ok s1 L P" "partially_free_list_head s1 = Some a" "a \<in> set P" "fs_groups s1 a = Some g" "NOT (g_allocated g) \<noteq> 0"
      "set P = room_in s1" "\<forall>b c. b \<noteq> a \<and> contents s1 b = Some c \<longrightarrow> content_ok c" "flags_of s1 = flags_of s"
      "length (g_callbacks g) = 64" "\<forall>i < 64. g_callbacks g ! i \<noteq> None \<longleftrightarrow> bit (g_allocated g) i" "\<forall>i. bit (g_flags g) i \<longrightarrow> bit (g_allocated g) i"
    by (elim exE conjE) blast
  let ?i = "CountTrailingZeroBits (NOT (g_allocated g))"
  have i: "?i < 64" "\<not> bit (g_allocated g) ?i" using CountTrailingZeroBits_bit(1,2) [OF s1(5)] by (auto simp: bit_not_iff)
  let ?cbs = "(g_callbacks g)[?i := Some callback]" and ?al = "g_allocated g OR push_bit ?i 1"
  let ?f = "\<lambda>g. g\<lparr>g_callbacks := ?cbs, g_allocated := g_allocated g OR push_bit ?i 1\<rparr>"
  from put_content [OF s1(1,4), of ?f] obtain s2 where s2: "put a ?f s1 = Some s2" "links_ok s2 L P"
    "contents s2 = (contents s1)(a \<mapsto> (g_flags g, ?al, ?cbs))" by (auto simp: content_def)
  obtain g2 where g2: "fs_groups s2 a = Some g2" "g_allocated g2 = ?al" using contents_group [of s2 a "g_flags g" ?al ?cbs] s2(3) by auto
  have al: "bit ?al j \<longleftrightarrow> j = ?i \<or> bit (g_allocated g) j" for j using single_bit [OF i(1)] by (auto simp: bit_or_iff)
  have "?al \<noteq> 0" using al [of ?i] by (metis bit_0_eq bot_apply bot_bool_def)
  then have ok: "content_ok (g_flags g, ?al, ?cbs)"
    using s1(9-11) i al by (auto simp: content_ok_def nth_list_update)
  have oks: "\<forall>b c. contents s2 b = Some c \<longrightarrow> content_ok c" using s1(7) s2(3) ok by auto
  have room: "room_in s2 = (if NOT ?al = 0 then room_in s1 - {a} else room_in s1)"
    using s2(3) s1(3,6) by (auto simp: room_in_def)
  have fl: "flags_of s2 = (flags_of s)((a, ?i) \<mapsto> (callback, False))"
  proof
    fix k
    have "contents s1 a = Some (g_flags g, g_allocated g, g_callbacks g)" using s1(4) by (simp add: contents_group)
    then have "flags_of s k = (if snd k < 64 \<and> bit (g_allocated g) (snd k) then Some (the (g_callbacks g ! snd k), bit (g_flags g) (snd k)) else None)"
      if "fst k = a" using that unfolding s1(8) [symmetric] by (simp add: flags_of_def)
    then show "flags_of s2 k = ((flags_of s)((a, ?i) \<mapsto> (callback, False))) k"
      using flags_of_upd [OF s2(3), of k] s1(8,9,11) i al by (cases k) auto
  qed
  have "\<exists>s' P'. (if group_IsFull g2 then RemoveFromPartiallyFreeList a s2 else Some s2) = Some s' \<and> set_rep s' L P' \<and> contents s' = contents s2"
  proof (cases "group_IsFull g2")
    case True
    then have "set P - {a} = room_in s2" using room g2(2) s1(6) by (simp add: group_IsFull_def)
    with RemoveFromPartiallyFreeList_ok [OF s2(2) s1(3)] oks True show ?thesis
      by (auto simp: set_rep_def room_in_def)
  next
    case False
    then have "set P = room_in s2" using room g2(2) s1(6) by (simp add: group_IsFull_def)
    then show ?thesis using False s2(2) oks by (auto simp: set_rep_def)
  qed
  then obtain s' P' where s': "(if group_IsFull g2 then RemoveFromPartiallyFreeList a s2 else Some s2) = Some s'" "set_rep s' L P'" "contents s' = contents s2" by blast
  have "AddFlag callback s = Some (flag_at (a, ?i), s')"
    unfolding AddFlag_def grow using s1(2,4,5,9,10) s2(1) g2(1) s'(1) i
    by (simp add: FindFirstUnallocatedFlag_def IndexOfFirstFlagSet_def array_get_def array_set_def flag_at_def Let_def)
  moreover have "(a, ?i) \<notin> dom (flags_of s)" unfolding s1(8) [symmetric] using s1(4) i by (auto simp: flags_of_def contents_def content_def)
  moreover have "set_inv s'" using s'(2) by (auto simp: set_inv_def)
  ultimately show ?thesis using fl flags_of_cong [OF s'(3)] by (intro exI [of _ "(a, ?i)"] exI [of _ s']) simp
qed

lemma ReleaseAtomicFlag_ok:
  assumes rep: "set_rep s L P" and k: "flags_of s k = Some (c, b)"
  shows "\<exists>f s'. ReleaseAtomicFlag (flag_at k) s = Some (f, s') \<and> af_group f = None \<and> set_inv s' \<and> flags_of s' = (flags_of s)(k := None)"
proof -
  let ?a = "fst k" and ?i = "snd k"
  from SetActive_ok [OF rep k, of False] obtain s1 where s1: "SetActive (flag_at k) False s = Some s1" "set_rep s1 L P"
    "flags_of s1 = (flags_of s)(k \<mapsto> (c, False))" by blast
  note r = set_repD [OF s1(2)]
  obtain g where g: "fs_groups s1 ?a = Some g" "contents s1 ?a = Some (g_flags g, g_allocated g, g_callbacks g)" "?i < 64" "bit (g_allocated g) ?i"
    "flags_of s1 k = Some (the (g_callbacks g ! ?i), bit (g_flags g) ?i)"
    by (rule flagE [of k s1]) (use s1(3) in auto)
  have inL: "?a \<in> set L" using r(4) g(2) by simp
  have okg: "length (g_callbacks g) = 64" "\<forall>i < 64. g_callbacks g ! i \<noteq> None \<longleftrightarrow> bit (g_allocated g) i" "\<forall>i. bit (g_flags g) i \<longrightarrow> bit (g_allocated g) i"
    using r(2) [OF g(2)] by (simp_all add: content_ok_def)
  have off: "\<not> bit (g_flags g) ?i" using g(5) s1(3) by simp
  have inP: "?a \<in> set P \<longleftrightarrow> \<not> group_IsFull g" using r(3) g(2) by (auto simp: room_in_def group_IsFull_def)
  obtain s2 P2 where s2: "(if group_IsFull g then AddToPartiallyFreeList ?a s1 else Some s1) = Some s2" "links_ok s2 L P2" "contents s2 = contents s1"
    "set P2 = insert ?a (room_in s1)"
  proof (cases "group_IsFull g")
    case True
    with AddToPartiallyFreeList_ok [OF r(1) inL] inP r(3) that show ?thesis by auto
  next
    case False
    with r(1,3) inP that [of s1 P] show ?thesis by auto
  qed
  obtain g2 where g2: "fs_groups s2 ?a = Some g2" "g_flags g2 = g_flags g" "g_allocated g2 = g_allocated g" "g_callbacks g2 = g_callbacks g"
    using g(2) s2(3) contents_group [of s2 ?a "g_flags g" "g_allocated g" "g_callbacks g"] by auto
  let ?cbs = "(g_callbacks g)[?i := None]" and ?al = "g_allocated g AND NOT (push_bit ?i 1)"
  let ?f = "\<lambda>g. g\<lparr>g_callbacks := ?cbs, g_allocated := g_allocated g AND NOT (af_bit (flag_at k))\<rparr>"
  from put_content [OF s2(2) g2(1), of ?f] g2 obtain s3 where s3: "put ?a ?f s2 = Some s3" "links_ok s3 L P2"
    "contents s3 = (contents s1)(?a \<mapsto> (g_flags g, ?al, ?cbs))" using s2(3) by (auto simp: content_def flag_at_def)
  obtain g3 where g3: "fs_groups s3 ?a = Some g3" "g_allocated g3 = ?al" using contents_group [of s3 ?a "g_flags g" ?al ?cbs] s3(3) by auto
  have al: "bit ?al j \<longleftrightarrow> j \<noteq> ?i \<and> bit (g_allocated g) j" if "j < 64" for j using that single_bit [OF g(3)] by (auto simp: bit_and_iff bit_not_iff)
  have sub: "bit ?al j" if "bit (g_flags g) j" for j
  proof -
    have "j < 64" "j \<noteq> ?i" using bit_imp_le_length [OF that] off that by auto
    then show ?thesis using al okg(3) that by blast
  qed
  have "NOT ?al \<noteq> 0" using full_iff [of ?al] al [OF g(3)] g(3) by auto
  then have room: "room_in s3 = set P2" unfolding s2(4) using s3(3) by (auto simp: room_in_def)
  have fl: "flags_of s3 = (flags_of s)(k := None)"
  proof
    fix j
    have "flags_of s1 j = (if snd j < 64 \<and> bit (g_allocated g) (snd j) then Some (the (g_callbacks g ! snd j), bit (g_flags g) (snd j)) else None)"
      if "fst j = ?a" using that g(2) by (simp add: flags_of_def)
    then show "flags_of s3 j = ((flags_of s)(k := None)) j"
      using flags_of_upd [OF s3(3), of j] s1(3) al [of "snd j"] by (cases "j = k"; cases "fst j = ?a") (auto simp: prod_eq_iff)
  qed
  have oks: "content_ok x" if "contents s3 d = Some x" "d \<noteq> ?a \<or> ?al \<noteq> 0" for d x
  proof (cases "d = ?a")
    case True
    then show ?thesis using that s3(3) okg sub al g(3) by (auto simp: content_ok_def nth_list_update split: if_splits)
  next
    case False
    then show ?thesis using that s3(3) r(2) [of d x] by simp
  qed
  have "\<exists>s'. (if group_IsEmpty g3 then do { s \<leftarrow> RemoveFromPartiallyFreeList ?a s3; RemoveFromAllocList ?a s } else Some s3) = Some s' \<and> set_inv s'
      \<and> flags_of s' = flags_of s3"
  proof (cases "group_IsEmpty g3")
    case False
    then have "set_rep s3 L P2" using s3(2) room oks g3(2) unfolding set_rep_def group_IsEmpty_def by auto
    then show ?thesis using False by (auto simp: set_inv_def)
  next
    case True
    from RemoveFromPartiallyFreeList_ok [OF s3(2), of ?a] s2(4) obtain s4 P4 where
      s4: "RemoveFromPartiallyFreeList ?a s3 = Some s4" "links_ok s4 L P4" "set P4 = set P2 - {?a}" "contents s4 = contents s3" by auto
    obtain g4 where g4: "fs_groups s4 ?a = Some g4" "g_allocated g4 = ?al"
      using contents_group [of s4 ?a "g_flags g" ?al ?cbs] s3(3) s4(4) by auto
    then have z: "g_allocated g4 = 0" using True g3(2) by (simp add: group_IsEmpty_def)
    from RemoveFromAllocList_ok [OF s4(2) inL _ g4(1) z] s4(3) obtain s5 L5 where
      s5: "RemoveFromAllocList ?a s4 = Some s5" "links_ok s5 L5 P4" "contents s5 = (contents s3)(?a := None)" using s4(4) by auto
    have "room_in s5 = room_in s3 - {?a}" using s5(3) by (auto simp: room_in_def)
    then have "room_in s5 = set P4" using s4(3) room by simp
    moreover have "content_ok x" if "contents s5 d = Some x" for d x using oks [of d x] that s5(3) by (auto split: if_splits)
    ultimately have "set_rep s5 L5 P4" using s5(2) by (auto simp: set_rep_def)
    moreover have "flags_of s5 = flags_of s3"
    proof
      fix j show "flags_of s5 j = flags_of s3 j"
        using flags_of_upd [OF s5(3), of j] True g3(2) s3(3) by (auto simp: flags_of_def group_IsEmpty_def)
    qed
    ultimately show ?thesis using True s4(1) s5(1) by (auto simp: set_inv_def)
  qed
  then obtain s' where s': "(if group_IsEmpty g3 then do { s \<leftarrow> RemoveFromPartiallyFreeList ?a s3; RemoveFromAllocList ?a s } else Some s3) = Some s'"
    "set_inv s'" "flags_of s' = flags_of s3" by blast
  have fk: "af_group (flag_at k) = Some ?a" "IndexOfFirstFlagSet (af_bit (flag_at k)) = Some ?i" using single_ctz [OF g(3)] by (simp_all add: flag_at_def)
  have "ReleaseAtomicFlag (flag_at k) s = Some (flag_at k\<lparr>af_group := None\<rparr>, s')"
    unfolding ReleaseAtomicFlag_def using fk s1(1) g(1,3,4) s2(1) g2(1,4) okg(1,2) s3(1) g3(1) s'(1)
    by (simp add: array_get_def array_set_def)
  then show ?thesis using s'(2,3) fl by simp
qed

section \<open>Running callbacks\<close>

lemma first_flag:
  assumes "x \<noteq> 0"
  shows "filter (bit x) [0..<64] = CountTrailingZeroBits x # filter (bit (x XOR push_bit (CountTrailingZeroBits x) 1)) [0..<64]"
proof -
  let ?n = "CountTrailingZeroBits x"
  note n = CountTrailingZeroBits_bit [OF assms]
  have split: "[0..<64] = [0..<?n] @ ?n # [Suc ?n..<64]"
    using n(2) upt_add_eq_append [of 0 ?n "64 - ?n"] by (simp add: upt_conv_Cons)
  have low: "filter (bit x) [0..<?n] = []" "filter (bit (x XOR push_bit ?n 1)) [0..<?n] = []"
    using n by (auto simp: filter_empty_conv bit_flip)
  have "filter (bit (x XOR push_bit ?n 1)) [Suc ?n..<64] = filter (bit x) [Suc ?n..<64]"
    using n(2) by (intro filter_cong) (auto simp: bit_flip)
  then show ?thesis unfolding split using low n(1,2) by (simp add: bit_flip)
qed

lemma run_flags_ok:
  assumes "length (g_callbacks g) = 64" "\<And>i. bit x i \<Longrightarrow> g_callbacks g ! i \<noteq> None"
  shows "run_flags x g = Some (map (\<lambda>i. the (g_callbacks g ! i)) (filter (bit x) [0..<64]))"
  using assms
proof (induction x g rule: run_flags.induct)
  case (1 x g)
  show ?case
  proof (cases "x = 0")
    case True
    then show ?thesis by (simp del: upt_rec_numeral)
  next
    case False
    let ?n = "CountTrailingZeroBits x" and ?y = "x XOR push_bit (CountTrailingZeroBits x) 1"
    note n = CountTrailingZeroBits_bit [OF False]
    have i: "IndexOfFirstFlagSet x = Some ?n" using False by (simp add: IndexOfFirstFlagSet_def)
    obtain c where c: "g_callbacks g ! ?n = Some c" using "1.prems"(2) n(1) by blast
    have "run_flags ?y g = Some (map (\<lambda>i. the (g_callbacks g ! i)) (filter (bit ?y) [0..<64]))"
    proof (rule "1.IH" [OF False i refl])
      show "Option.bind (array_get (g_callbacks g) ?n) id = Some c" using c n(2) "1.prems"(1) by (simp add: array_get_def)
      show "g_callbacks g ! i \<noteq> None" if "bit ?y i" for i using "1.prems"(2) that n(1,2) by (auto simp: bit_flip split: if_splits)
    qed (use "1.prems"(1) in simp)
    then show ?thesis
      using False i c n(2) "1.prems"(1) first_flag [OF False] by (subst run_flags.simps) (simp add: array_get_def Let_def del: upt_rec_numeral)
  qed
qed

text \<open>What other threads may do to the flags while callbacks run, in terms of the keys of the flags.\<close>

definition active :: "'c flag_set \<Rightarrow> nat \<times> nat \<Rightarrow> bool" where
  "active s k \<longleftrightarrow> (\<exists>c. flags_of s k = Some (c, True))"

definition callback_of :: "'c flag_set \<Rightarrow> nat \<times> nat \<Rightarrow> 'c option" where
  "callback_of s k = map_option fst (flags_of s k)"

definition tampered :: "((nat \<times> nat) \<times> bool) list \<Rightarrow> 'c flag_set \<Rightarrow> 'c flag_set \<Rightarrow> bool" where
  "tampered xs s s' \<longleftrightarrow>
     callback_of s' = callback_of s
     \<and> (\<forall>k. (active s' k \<longrightarrow> active s k \<or> (k, True) \<in> set xs)
          \<and> ((active s k \<or> (k, True) \<in> set xs) \<and> (k, False) \<notin> set xs \<longrightarrow> active s' k))"

lemma dom_callback: "dom (callback_of s) = dom (flags_of s)"
  by (auto simp: callback_of_def dom_def)

lemma callback_dom: "callback_of s' = callback_of s \<Longrightarrow> dom (flags_of s') = dom (flags_of s)"
  by (simp add: dom_callback [symmetric])

lemma set_all_ok:
  assumes "set_rep s L P" "fst ` set xs \<subseteq> dom (flags_of s)"
  shows "\<exists>s'. set_all (map (apfst flag_at) xs) s = Some s' \<and> set_rep s' L P \<and> tampered xs s s'"
  using assms
proof (induction xs arbitrary: s)
  case Nil
  then show ?case by (simp add: tampered_def)
next
  case (Cons x xs)
  obtain k b where x: "x = (k, b)" by (cases x)
  obtain c b' where k: "flags_of s k = Some (c, b')" using Cons.prems(2) x by auto
  from SetActive_ok [OF Cons.prems(1) k, of b] obtain t where
    t: "SetActive (flag_at k) b s = Some t" "set_rep t L P" "flags_of t = (flags_of s)(k \<mapsto> (c, b))" by blast
  have cb: "callback_of t = callback_of s" using t(3) k by (auto simp: callback_of_def fun_eq_iff)
  have dom: "fst ` set xs \<subseteq> dom (flags_of t)" using Cons.prems(2) callback_dom [OF cb] by simp
  from Cons.IH [OF t(2) dom] obtain s' where s': "set_all (map (apfst flag_at) xs) t = Some s'" "set_rep s' L P" "tampered xs t s'" by blast
  have act: "active t j \<longleftrightarrow> (if j = k then b else active s j)" for j using t(3) by (auto simp: active_def)
  have h: "(active s' j \<longrightarrow> active t j \<or> (j, True) \<in> set xs) \<and> ((active t j \<or> (j, True) \<in> set xs) \<and> (j, False) \<notin> set xs \<longrightarrow> active s' j)" for j
    using s'(3) unfolding tampered_def by blast
  have "(active s' j \<longrightarrow> active s j \<or> (j, True) \<in> set (x # xs)) \<and> ((active s j \<or> (j, True) \<in> set (x # xs)) \<and> (j, False) \<notin> set (x # xs) \<longrightarrow> active s' j)" for j
    using h [of j] act [of j] x by (cases "j = k"; cases b) auto
  moreover have "callback_of s' = callback_of s" using s'(3) cb by (simp add: tampered_def)
  ultimately have "tampered (x # xs) s s'" unfolding tampered_def by blast
  then show ?case using t(1) s'(1,2) x by auto
qed

text \<open>The exchange of one group and its callbacks.\<close>

lemma exchange_ok:
  assumes rep: "set_rep s L P" and a: "a \<in> set L"
  defines "ks \<equiv> map (Pair a) (filter (\<lambda>i. active s (a, i)) [0..<64])"
  shows "\<exists>g s'. fs_groups s a = Some g \<and> g_next g = next_in L a \<and> put a (\<lambda>g. g\<lparr>g_flags := 0\<rparr>) s = Some s'
    \<and> run_flags (g_flags g) g = Some (map (the \<circ> callback_of s) ks) \<and> set_rep s' L P \<and> callback_of s' = callback_of s
    \<and> (\<forall>k. active s' k \<longleftrightarrow> active s k \<and> fst k \<noteq> a)"
proof -
  note r = set_repD [OF rep]
  obtain g where g: "fs_groups s a = Some g" "linked L P a g" using links_group [OF r(1) a] by blast
  then have c: "contents s a = Some (g_flags g, g_allocated g, g_callbacks g)" by (simp add: contents_group)
  then have ok: "length (g_callbacks g) = 64" "\<forall>i < 64. g_callbacks g ! i \<noteq> None \<longleftrightarrow> bit (g_allocated g) i" "\<forall>i. bit (g_flags g) i \<longrightarrow> bit (g_allocated g) i"
    using r(2) [OF c] by (simp_all add: content_ok_def)
  from set_flags_ok [OF rep g(1), of "\<lambda>g. g\<lparr>g_flags := 0\<rparr>" 0] obtain s' where
    s': "put a (\<lambda>g. g\<lparr>g_flags := 0\<rparr>) s = Some s'" "set_rep s' L P"
      "flags_of s' = (\<lambda>k. if fst k = a then map_option (\<lambda>(c, _). (c, bit (0 :: 64 word) (snd k))) (flags_of s k) else flags_of s k)" by auto
  have act: "active s (a, i) \<longleftrightarrow> bit (g_flags g) i" if "i < 64" for i using c ok(3) that by (auto simp: active_def flags_of_def)
  have "g_callbacks g ! i \<noteq> None" if "bit (g_flags g) i" for i using that ok(2,3) bit_imp_le_length [OF that] by auto
  from run_flags_ok [OF ok(1) this] have run: "run_flags (g_flags g) g = Some (map (\<lambda>i. the (g_callbacks g ! i)) (filter (bit (g_flags g)) [0..<64]))" .
  have fl: "filter (\<lambda>i. active s (a, i)) [0..<64] = filter (bit (g_flags g)) [0..<64]" using act by (intro filter_cong) auto
  have "(the \<circ> callback_of s) (a, i) = the (g_callbacks g ! i)" if "i \<in> set (filter (bit (g_flags g)) [0..<64])" for i
    using that c ok(3) by (simp add: callback_of_def flags_of_def)
  then have "map (the \<circ> callback_of s) ks = map (\<lambda>i. the (g_callbacks g ! i)) (filter (bit (g_flags g)) [0..<64])"
    unfolding ks_def fl by (simp del: upt_rec_numeral)
  moreover have "callback_of s' = callback_of s" using s'(3) by (auto simp: callback_of_def fun_eq_iff option.map_comp o_def split_def)
  moreover have "active s' k \<longleftrightarrow> active s k \<and> fst k \<noteq> a" for k using s'(3) by (auto simp: active_def)
  ultimately show ?thesis using g s'(1,2) run by (intro exI [of _ g] exI [of _ s']) (simp add: linked_def)
qed

lemma run_groups_step:
  assumes "set_all (case others of [] \<Rightarrow> [] | now # _ \<Rightarrow> now) s = Some t" "fs_groups t a = Some g" "put a (\<lambda>g. g\<lparr>g_flags := 0\<rparr>) t = Some u"
    "run_flags (g_flags g) g = Some cs" "run_groups (g_next g) (tl others) u = Some (ds, s')"
  shows "run_groups (Some a) others s = Some (cs @ ds, s')"
  using assms by (cases others) (simp_all add: run_groups.simps [of "Some a"] Let_def)

lemma run_groups_ok:
  assumes "set_rep s L P" "L = us @ rest" "fst ` set (concat others) \<subseteq> dom (flags_of s)"
  shows "\<exists>ks s'. run_groups (first rest) (map (map (apfst flag_at)) others) s = Some (map (the \<circ> callback_of s) ks, s') \<and> set_rep s' L P
    \<and> callback_of s' = callback_of s \<and> distinct ks \<and> fst ` set ks \<subseteq> set rest \<and> set ks \<subseteq> dom (flags_of s)
    \<and> (\<forall>k. (k \<in> set ks \<longrightarrow> active s k \<or> (k, True) \<in> set (concat others))
         \<and> (active s' k \<longrightarrow> active s k \<and> fst k \<notin> set rest \<or> (k, True) \<in> set (concat others))
         \<and> ((active s k \<or> (k, True) \<in> set (concat others)) \<and> (k, False) \<notin> set (concat others) \<longrightarrow> k \<in> set ks \<or> active s' k))"
  using assms
proof (induction rest arbitrary: us s others)
  case Nil
  from set_all_ok [OF Nil.prems(1,3)] obtain s' where
    "set_all (map (apfst flag_at) (concat others)) s = Some s'" "set_rep s' L P" "tampered (concat others) s s'" by blast
  then show ?case
    by (intro exI [of _ "[]"] exI [of _ s']) (simp add: run_groups.simps [of None] map_concat tampered_def)
next
  case (Cons a rest)
  let ?now = "case others of [] \<Rightarrow> [] | now # _ \<Rightarrow> now"
  have T: "set (concat others) = set ?now \<union> set (concat (tl others))" by (cases others) auto
  have "fst ` set ?now \<subseteq> dom (flags_of s)" using Cons.prems(3) unfolding T image_Un by simp
  from set_all_ok [OF Cons.prems(1) this] obtain t where t: "set_all (map (apfst flag_at) ?now) s = Some t" "set_rep t L P" "tampered ?now s t" by blast
  have a: "a \<in> set L" "next_in L a = first rest" using Cons.prems(1,2) next_in_mid [of us a rest] by (auto simp: set_rep_def links_ok_def)
  define K where "K = map (Pair a) (filter (\<lambda>i. active t (a, i)) [0..<64])"
  from exchange_ok [OF t(2) a(1)] obtain g u where
    u: "fs_groups t a = Some g" "g_next g = next_in L a" "put a (\<lambda>g. g\<lparr>g_flags := 0\<rparr>) t = Some u" "run_flags (g_flags g) g = Some (map (the \<circ> callback_of t) K)"
      "set_rep u L P" "callback_of u = callback_of t" "\<forall>k. active u k \<longleftrightarrow> active t k \<and> fst k \<noteq> a" unfolding K_def by blast
  have cb: "callback_of t = callback_of s" using t(3) by (simp add: tampered_def)
  have dom: "dom (flags_of u) = dom (flags_of s)" using callback_dom [of u s] u(6) cb by simp
  then have sub: "fst ` set (concat (tl others)) \<subseteq> dom (flags_of u)" using Cons.prems(3) unfolding T image_Un dom by simp
  have "L = (us @ [a]) @ rest" using Cons.prems(2) by simp
  from Cons.IH [OF u(5) this sub] obtain ks s' where
    s': "run_groups (first rest) (map (map (apfst flag_at)) (tl others)) u = Some (map (the \<circ> callback_of u) ks, s')" "set_rep s' L P"
      "callback_of s' = callback_of u" "distinct ks" "fst ` set ks \<subseteq> set rest" "set ks \<subseteq> dom (flags_of u)"
    and h: "\<forall>k. (k \<in> set ks \<longrightarrow> active u k \<or> (k, True) \<in> set (concat (tl others)))
         \<and> (active s' k \<longrightarrow> active u k \<and> fst k \<notin> set rest \<or> (k, True) \<in> set (concat (tl others)))
         \<and> ((active u k \<or> (k, True) \<in> set (concat (tl others))) \<and> (k, False) \<notin> set (concat (tl others)) \<longrightarrow> k \<in> set ks \<or> active s' k)"
    by (elim exE conjE)
  have in_ks: "k \<in> set K \<longleftrightarrow> fst k = a \<and> active t k" for k
    by (cases k) (auto simp: K_def active_def flags_of_def split: option.splits if_splits simp del: upt_rec_numeral)
  have ks: "set K \<subseteq> dom (flags_of s)" using callback_dom [OF cb] in_ks by (auto simp: active_def)
  have "a \<notin> set rest" using Cons.prems(1,2) by (auto simp: set_rep_def links_ok_def)
  then have "distinct (K @ ks)" using s'(4,5) by (auto simp: K_def distinct_map inj_on_def simp del: upt_rec_numeral)
  moreover have "(k \<in> set (K @ ks) \<longrightarrow> active s k \<or> (k, True) \<in> set (concat others))
       \<and> (active s' k \<longrightarrow> active s k \<and> fst k \<notin> set (a # rest) \<or> (k, True) \<in> set (concat others))
       \<and> ((active s k \<or> (k, True) \<in> set (concat others)) \<and> (k, False) \<notin> set (concat others) \<longrightarrow> k \<in> set (K @ ks) \<or> active s' k)" for k
  proof -
    have tk: "(active t k \<longrightarrow> active s k \<or> (k, True) \<in> set ?now) \<and> ((active s k \<or> (k, True) \<in> set ?now) \<and> (k, False) \<notin> set ?now \<longrightarrow> active t k)"
      using t(3) unfolding tampered_def by blast
    show ?thesis using h [rule_format, of k] tk u(7) [rule_format, of k] in_ks [of k]
      unfolding T set_append Un_iff list.set(2) insert_iff by argo
  qed
  moreover have "run_groups (first (a # rest)) (map (map (apfst flag_at)) others) s = Some (map (the \<circ> callback_of s) (K @ ks), s')"
  proof -
    have now: "set_all (case map (map (apfst flag_at)) others of [] \<Rightarrow> [] | now # _ \<Rightarrow> now) s = Some t" using t(1) by (cases others) simp_all
    have "run_groups (g_next g) (tl (map (map (apfst flag_at)) others)) u = Some (map (the \<circ> callback_of u) ks, s')"
      unfolding u(2) a(2) map_tl [symmetric] by (rule s'(1))
    from run_groups_step [OF now u(1,3,4) this] show ?thesis unfolding u(6) cb first_simps map_append .
  qed
  moreover have "fst ` set (K @ ks) \<subseteq> set (a # rest)" "set (K @ ks) \<subseteq> dom (flags_of s)" "callback_of s' = callback_of s"
    using in_ks s'(3,5,6) ks dom u(6) cb by auto
  ultimately show ?case using s'(2) by blast
qed

section \<open>Reachable sets\<close>

text \<open>A client holds the flags that it added and did not release.\<close>

inductive reachable_set :: "'c flag_set \<Rightarrow> bool" where
  new: "reachable_set AtomicFlagSet"
| add: "reachable_set s \<Longrightarrow> AddFlag c s = Some (f, s') \<Longrightarrow> reachable_set s'"
| release: "reachable_set s \<Longrightarrow> k \<in> dom (flags_of s) \<Longrightarrow> ReleaseAtomicFlag (flag_at k) s = Some (f, s') \<Longrightarrow> reachable_set s'"
| set_active: "reachable_set s \<Longrightarrow> k \<in> dom (flags_of s) \<Longrightarrow> SetActive (flag_at k) b s = Some s' \<Longrightarrow> reachable_set s'"
| run: "reachable_set s \<Longrightarrow> fst ` set (concat others) \<subseteq> dom (flags_of s) \<Longrightarrow>
    RunActiveCallbacks (map (map (apfst flag_at)) others) s = Some (cs, s') \<Longrightarrow> reachable_set s'"

lemma RunActiveCallbacks_ok:
  assumes "set_inv s" "fst ` set (concat others) \<subseteq> dom (flags_of s)"
  shows "\<exists>ks s'. RunActiveCallbacks (map (map (apfst flag_at)) others) s = Some (map (the \<circ> callback_of s) ks, s') \<and> set_inv s'
    \<and> callback_of s' = callback_of s \<and> distinct ks \<and> set ks \<subseteq> dom (flags_of s)
    \<and> (\<forall>k. (k \<in> set ks \<longrightarrow> active s k \<or> (k, True) \<in> set (concat others))
         \<and> (active s' k \<longrightarrow> (k, True) \<in> set (concat others))
         \<and> ((active s k \<or> (k, True) \<in> set (concat others)) \<and> (k, False) \<notin> set (concat others) \<longrightarrow> k \<in> set ks \<or> active s' k))"
proof -
  obtain L P where rep: "set_rep s L P" using assms(1) by (auto simp: set_inv_def)
  have inL: "active s k \<Longrightarrow> fst k \<in> set L" for k using set_repD(4) [OF rep, of "fst k"] by (auto simp: active_def flags_of_def split: option.splits)
  have head: "alloc_list_head s = first L" using set_repD(7) [OF rep] .
  from run_groups_ok [OF rep _ assms(2), of "[]" L] obtain ks s' where
    r: "run_groups (first L) (map (map (apfst flag_at)) others) s = Some (map (the \<circ> callback_of s) ks, s')" "set_rep s' L P"
      "callback_of s' = callback_of s" "distinct ks" "set ks \<subseteq> dom (flags_of s)"
    and h: "\<forall>k. (k \<in> set ks \<longrightarrow> active s k \<or> (k, True) \<in> set (concat others))
         \<and> (active s' k \<longrightarrow> active s k \<and> fst k \<notin> set L \<or> (k, True) \<in> set (concat others))
         \<and> ((active s k \<or> (k, True) \<in> set (concat others)) \<and> (k, False) \<notin> set (concat others) \<longrightarrow> k \<in> set ks \<or> active s' k)"
    by (auto simp del: set_concat)
  have "RunActiveCallbacks (map (map (apfst flag_at)) others) s = Some (map (the \<circ> callback_of s) ks, s')" "set_inv s'"
    using r(1,2) head by (auto simp: RunActiveCallbacks_def set_inv_def)
  moreover have "\<forall>k. active s' k \<longrightarrow> (k, True) \<in> set (concat others)" using h inL by blast
  ultimately show ?thesis using r(3-5) h by blast
qed

lemma reachable_set_inv: "reachable_set s \<Longrightarrow> set_inv s"
proof (induction rule: reachable_set.induct)
  case new
  then show ?case by (rule set_inv_new)
next
  case (add s c f s')
  then show ?case using AddFlag_ok [OF add.IH, of c] by auto
next
  case (release s k f s')
  then obtain L P c b where "set_rep s L P" "flags_of s k = Some (c, b)" by (auto simp: set_inv_def)
  from ReleaseAtomicFlag_ok [OF this] release.hyps(3) show ?case by auto
next
  case (set_active s k b s')
  then obtain L P c b' where "set_rep s L P" "flags_of s k = Some (c, b')" by (auto simp: set_inv_def)
  from SetActive_ok [OF this, of b] set_active.hyps(3) show ?case by (auto simp: set_inv_def)
next
  case (run s others cs s')
  then show ?case using RunActiveCallbacks_ok [OF run.IH run.hyps(2)] by auto
qed

text \<open>Two flags, the first of them active.\<close>

definition demo_set :: "nat flag_set option" where
  "demo_set = do { (f, s) \<leftarrow> AddFlag 7 AtomicFlagSet; (_, s) \<leftarrow> AddFlag 8 s; SetActive f True s }"

lemma demo_set_run: "map_option (\<lambda>s. map_option fst (RunActiveCallbacks [] s)) demo_set = Some (Some [7])"
  by code_simp

lemma demo_set_reachable: "demo_set = Some s \<Longrightarrow> reachable_set s"
proof -
  assume s: "demo_set = Some s"
  obtain k s1 where 1: "AddFlag (7 :: nat) AtomicFlagSet = Some (flag_at k, s1)" "flags_of s1 = [k \<mapsto> (7, False)]"
    using AddFlag_ok [OF set_inv_new(1), of "7 :: nat"] by (auto simp: set_inv_new(2))
  obtain f s2 where 2: "AddFlag 8 s1 = Some (f, s2)" "SetActive (flag_at k) True s2 = Some s"
    using s 1(1) by (auto simp: demo_set_def split: bind_splits)
  have r1: "reachable_set s1" by (rule reachable_set.add [OF reachable_set.new 1(1)])
  have "k \<in> dom (flags_of s2)" using AddFlag_ok [OF reachable_set_inv [OF r1], of 8] 1(2) 2(1) by auto
  from reachable_set.set_active [OF reachable_set.add [OF r1 2(1)] this 2(2)] show ?thesis .
qed

section \<open>Properties\<close>

text \<open>
  Claim C11.  The set of atomic flags is a map from flags to callbacks with an active bit.  In every reachable set, adding a flag returns a
  new inactive flag, setting and releasing a flag change only that flag, and no operation follows a dangling pointer or fails a
  check, whether groups are allocated, fill up, or become empty and are deleted.  Running the active callbacks while other threads
  set and clear flags runs a flag at most once, only if it was active or became so; a flag that was active or is set
  and not cleared meanwhile is run or still active afterwards, so no activation is lost.
\<close>

theorem atomic_flag_set_refines:
  assumes "reachable_set s"
  shows "(\<forall>callback. \<exists>k s'. AddFlag callback s = Some (flag_at k, s') \<and> reachable_set s'
        \<and> k \<notin> dom (flags_of s) \<and> flags_of s' = (flags_of s)(k \<mapsto> (callback, False)))
    \<and> (\<forall>k c b. flags_of s k = Some (c, b) \<longrightarrow>
        (\<forall>new. \<exists>s'. SetActive (flag_at k) new s = Some s' \<and> reachable_set s' \<and> flags_of s' = (flags_of s)(k \<mapsto> (c, new)))
        \<and> (\<exists>f s'. ReleaseAtomicFlag (flag_at k) s = Some (f, s') \<and> reachable_set s' \<and> flags_of s' = (flags_of s)(k := None)))
    \<and> (\<forall>others. fst ` set (concat others) \<subseteq> dom (flags_of s) \<longrightarrow>
        (\<exists>ks s'. RunActiveCallbacks (map (map (apfst flag_at)) others) s = Some (map (the \<circ> callback_of s) ks, s') \<and> reachable_set s'
           \<and> callback_of s' = callback_of s \<and> distinct ks \<and> set ks \<subseteq> dom (flags_of s)
           \<and> (\<forall>k. (k \<in> set ks \<longrightarrow> active s k \<or> (k, True) \<in> set (concat others))
                \<and> (active s' k \<longrightarrow> (k, True) \<in> set (concat others))
                \<and> ((active s k \<or> (k, True) \<in> set (concat others)) \<and> (k, False) \<notin> set (concat others) \<longrightarrow> k \<in> set ks \<or> active s' k))))"
proof -
  have inv: "set_inv s" using reachable_set_inv [OF assms] .
  then obtain L P where rep: "set_rep s L P" by (auto simp: set_inv_def)
  have "\<exists>k s'. AddFlag callback s = Some (flag_at k, s') \<and> reachable_set s' \<and> k \<notin> dom (flags_of s) \<and> flags_of s' = (flags_of s)(k \<mapsto> (callback, False))" for callback
    using AddFlag_ok [OF inv, of callback] reachable_set.add [OF assms, of callback] by blast
  moreover have "\<exists>s'. SetActive (flag_at k) new s = Some s' \<and> reachable_set s' \<and> flags_of s' = (flags_of s)(k \<mapsto> (c, new))"
    if "flags_of s k = Some (c, b)" for k c b new
    using SetActive_ok [OF rep that, of new] reachable_set.set_active [OF assms, of k new] that by blast
  moreover have "\<exists>f s'. ReleaseAtomicFlag (flag_at k) s = Some (f, s') \<and> reachable_set s' \<and> flags_of s' = (flags_of s)(k := None)"
    if "flags_of s k = Some (c, b)" for k c b
    using ReleaseAtomicFlag_ok [OF rep that] reachable_set.release [OF assms, of k] that by blast
  moreover note RunActiveCallbacks_ok [OF inv] reachable_set.run [OF assms]
  ultimately show ?thesis by (intro conjI allI impI) (blast, blast, blast, metis)
qed

theorem atomic_flag_set_refines_witness:
  "\<exists>s s'. demo_set = Some s \<and> RunActiveCallbacks [] s = Some ([7], s') \<and> reachable_set s' \<and> (\<forall>k. \<not> active s' k)"
proof -
  obtain s where s: "demo_set = Some s" "map_option fst (RunActiveCallbacks [] s) = Some [7]" using demo_set_run by auto
  from atomic_flag_set_refines [OF demo_set_reachable [OF s(1)]] have
    "\<exists>ks s'. RunActiveCallbacks (map (map (apfst flag_at)) []) s = Some (map (the \<circ> callback_of s) ks, s') \<and> reachable_set s'
       \<and> (\<forall>k. active s' k \<longrightarrow> (k, True) \<in> set (concat []))" by (elim conjE allE [of _ "[]"]) auto
  then show ?thesis using s by auto
qed

end
