(* ===== verification/Shared_Heap.thy ===== *)
theory Shared_Heap
  imports Intrusive_Heap
begin

text \<open>
  Intrusive heaps that share the storage of their handles.

  The element of a scheduler's heap keeps its handle in the queue that it names, and all heaps of the
  scheduler write to the same queues.  The theorems on one heap (theory \<open>Intrusive_Heap\<close>) are about a heap
  that owns all handles.  Here they are extended to a heap that finds the handles of other heaps in the
  storage: an operation neither reads nor writes the handle of an element that is not in the heap.
\<close>

section \<open>Handles of other heaps\<close>

definition graft :: "('k \<Rightarrow> nat option) \<Rightarrow> ('a, 'k) intrusive_heap \<Rightarrow> ('a, 'k) intrusive_heap" where
  "graft F h = h\<lparr>h_handle := h_handle h ++ F\<rparr>"

definition apart :: "('k \<Rightarrow> nat option) \<Rightarrow> ('a \<Rightarrow> 'k) \<Rightarrow> 'a list \<Rightarrow> bool" where
  "apart F hid xs \<longleftrightarrow> (\<forall>x \<in> set xs. hid x \<notin> dom F)"

definition own :: "('a \<Rightarrow> 'k) \<Rightarrow> ('a, 'k) intrusive_heap \<Rightarrow> ('a, 'k) intrusive_heap" where
  "own hid h = h\<lparr>h_handle := h_handle h |` (hid ` set (h_heap h))\<rparr>"

definition foreign :: "('a \<Rightarrow> 'k) \<Rightarrow> ('a, 'k) intrusive_heap \<Rightarrow> 'k \<Rightarrow> nat option" where
  "foreign hid h = h_handle h |` (- hid ` set (h_heap h))"

definition shared_wf :: "('a \<Rightarrow> 'p :: linorder) \<Rightarrow> ('a \<Rightarrow> 'k) \<Rightarrow> ('a, 'k) intrusive_heap \<Rightarrow> bool" where
  "shared_wf prio hid h \<longleftrightarrow> heap_wf prio hid (own hid h)"

lemma graft_simps [simp]:
  "h_heap (graft F h) = h_heap h" "h_handle (graft F h) = h_handle h ++ F"
  "graft F (h\<lparr>h_heap := xs\<rparr>) = (graft F h)\<lparr>h_heap := xs\<rparr>"
  "heap_size (graft F h) = heap_size h" "heap_at (graft F h) i = heap_at h i"
  "heap_put (graft F h) p x = graft F (heap_put h p x)"
  by (simp_all add: graft_def heap_size_def heap_at_def heap_put_def)

lemma graft_update: "k \<notin> dom F \<Longrightarrow> (m ++ F)(k := v) = (m(k := v)) ++ F"
  by (auto simp: fun_eq_iff map_add_def split: option.splits)

lemma apart_nth: "apart F hid xs \<Longrightarrow> i < length xs \<Longrightarrow> hid (xs ! i) \<notin> dom F"
  by (simp add: apart_def)

lemma apart_mono: "apart F hid ys \<Longrightarrow> set xs \<subseteq> set ys \<Longrightarrow> apart F hid xs"
  by (auto simp: apart_def)

lemma own_simps [simp]:
  "h_heap (own hid h) = h_heap h"
  "h_handle (own hid h) k = (if k \<in> hid ` set (h_heap h) then h_handle h k else None)"
  by (auto simp: own_def restrict_map_def)

lemma own_foreign: "graft (foreign hid h) (own hid h) = h"
proof -
  have "h_handle h |` S ++ h_handle h |` (- S) = h_handle h" for S
    by (auto simp: fun_eq_iff map_add_def restrict_map_def split: option.splits)
  then show ?thesis by (simp add: graft_def own_def foreign_def)
qed

lemma apart_foreign: "apart (foreign hid h) hid (h_heap h)"
  by (auto simp: apart_def foreign_def restrict_map_def split: if_splits)

lemma graft_SetHeapHandle:
  assumes "apart F hid (h_heap h)"
  shows "SetHeapHandle hid (graft F h) i = map_option (graft F) (SetHeapHandle hid h i)"
proof (cases "i < length (h_heap h)")
  case True
  then show ?thesis using graft_update [OF apart_nth [OF assms True]] by (simp add: graft_def)
qed (simp add: SetHeapHandle_def heap_at_def heap_size_def)

lemma graft_MakeHole:
  assumes "apart F hid (h_heap h)"
  shows "MakeHole hid (graft F h) i = map_option (graft F) (MakeHole hid h i)"
proof (cases "i < length (h_heap h)")
  case True
  then show ?thesis using graft_update [OF apart_nth [OF assms True]] by (simp add: MakeHole_eq graft_def)
qed (simp add: MakeHole_def heap_at_def heap_size_def)

lemma apart_put: "apart F hid (h_heap h) \<Longrightarrow> hid x \<notin> dom F \<Longrightarrow> apart F hid (h_heap (heap_put h p x))"
  by (auto simp: apart_def heap_put_def dest: set_update_subset_insert [THEN subsetD])

lemma graft_FillHole:
  assumes "apart F hid (h_heap h)" "hid e \<notin> dom F"
  shows "FillHole hid (graft F h) p e = map_option (graft F) (FillHole hid h p e)"
  using graft_SetHeapHandle [OF apart_put [OF assms]] by (simp add: FillHole_def)

lemma graft_MoveHole:
  assumes "apart F hid (h_heap h)"
  shows "MoveHole hid (graft F h) i j = map_option (graft F) (MoveHole hid h i j)"
proof (cases "i < length (h_heap h)")
  case True
  show ?thesis using graft_SetHeapHandle [OF apart_put [OF assms apart_nth [OF assms True]]] by (simp add: MoveHole_def)
qed (simp add: MoveHole_def heap_size_def)

lemma MakeHole_heap: "MakeHole hid h i = Some h' \<Longrightarrow> h_heap h' = h_heap h"
  by (auto simp: MakeHole_def ClearHeapHandle_def Let_def split: bind_splits if_splits)

lemma SetHeapHandle_heap: "SetHeapHandle hid h i = Some h' \<Longrightarrow> h_heap h' = h_heap h"
  by (auto simp: SetHeapHandle_def Let_def split: bind_splits if_splits)

lemma MoveHole_apart:
  assumes "MoveHole hid h i j = Some h'" "apart F hid (h_heap h)"
  shows "apart F hid (h_heap h')"
proof -
  have "i < length (h_heap h)" "SetHeapHandle hid (heap_put h j (h_heap h ! i)) j = Some h'"
    using assms(1) by (auto simp: MoveHole_def heap_size_def split: if_splits)
  then show ?thesis using apart_put [OF assms(2) apart_nth [OF assms(2)]] SetHeapHandle_heap by metis
qed

lemma graft_up_loop:
  "apart F hid (h_heap h) \<Longrightarrow>
     hole_up_loop cmp hid (graft F h) p e = map_option (map_prod (graft F) (\<lambda>i. i)) (hole_up_loop cmp hid h p e)
     \<and> (\<forall>h' p'. hole_up_loop cmp hid h p e = Some (h', p') \<longrightarrow> apart F hid (h_heap h'))"
proof (induction cmp hid h p e rule: hole_up_loop.induct)
  case (1 cmp hid h p e)
  show ?case
  proof (cases "p = 0 \<or> \<not> (p - 1) div 2 < length (h_heap h)")
    case True
    then show ?thesis using "1.prems"
      by (auto simp: hole_up_loop.simps [of _ _ _ p] ParentIndex_def Less_pos_elem_def heap_at_def heap_size_def)
  next
    case False
    then show ?thesis
      using 1 graft_MoveHole [OF "1.prems"] MoveHole_apart [OF _ "1.prems"]
      by (auto simp: hole_up_loop.simps [of _ _ _ p] ParentIndex_def Less_pos_elem_def heap_at_def heap_size_def
          split: bind_splits option.splits)
  qed
qed

lemma graft_down_loop:
  "apart F hid (h_heap h) \<Longrightarrow>
     hole_down_loop leaf cmp hid n (graft F h) p e
       = map_option (map_prod (graft F) (\<lambda>i. i)) (hole_down_loop leaf cmp hid n h p e)
     \<and> (\<forall>h' p'. hole_down_loop leaf cmp hid n h p e = Some (h', p') \<longrightarrow> apart F hid (h_heap h'))"
proof (induction leaf cmp hid n h p e rule: hole_down_loop.induct)
  case (1 leaf cmp hid n h p e)
  have less: "Less_pos_pos cmp (graft F h) i j = Less_pos_pos cmp h i j"
    "Less_elem_pos cmp (graft F h) e i = Less_elem_pos cmp h e i" for i j
    by (simp_all add: Less_pos_pos_def Less_elem_pos_def)
  show ?case
  proof (cases "n \<le> LeftIndex p")
    case True
    then show ?thesis using "1.prems" by (simp add: hole_down_loop.simps [of _ _ _ _ _ p] Let_def)
  next
    case False
    let ?r = "if LeftIndex p + 1 < n then Less_pos_pos cmp h (LeftIndex p) (LeftIndex p + 1) else Some False"
    show ?thesis
    proof (cases ?r)
      case None
      then show ?thesis
        by (simp only: hole_down_loop.simps [of _ _ _ _ _ p] Let_def False less if_False Option.bind.simps) simp
    next
      case (Some r)
      let ?l = "if r then LeftIndex p + 1 else LeftIndex p"
      let ?g = "if leaf then Some True else Less_elem_pos cmp h e ?l"
      have eq: "hole_down_loop leaf cmp hid n h p e = do { go \<leftarrow> ?g;
          if \<not> go then Some (h, p) else do { h \<leftarrow> MoveHole hid h ?l p; hole_down_loop leaf cmp hid n h ?l e } }"
        by (subst hole_down_loop.simps) (simp only: Let_def False Some if_False Option.bind.simps)
      have eq': "hole_down_loop leaf cmp hid n (graft F h) p e = do { go \<leftarrow> ?g;
          if \<not> go then Some (graft F h, p)
          else do { h \<leftarrow> MoveHole hid (graft F h) ?l p; hole_down_loop leaf cmp hid n h ?l e } }"
        by (subst hole_down_loop.simps) (simp only: Let_def False Some if_False Option.bind.simps less)
      have IH: "hole_down_loop leaf cmp hid n (graft F h1) ?l e
          = map_option (map_prod (graft F) (\<lambda>i. i)) (hole_down_loop leaf cmp hid n h1 ?l e)
        \<and> (\<forall>h' p'. hole_down_loop leaf cmp hid n h1 ?l e = Some (h', p') \<longrightarrow> apart F hid (h_heap h'))"
        if "?g = Some True" "MoveHole hid h ?l p = Some h1" for h1
        using "1.IH" [OF refl False Some refl that(1) _ that(2) MoveHole_apart [OF that(2) "1.prems"]] by simp
      show ?thesis
        unfolding eq eq' graft_MoveHole [OF "1.prems"]
        using "1.prems" IH by (cases ?g; cases "MoveHole hid h ?l p") auto
    qed
  qed
qed

lemma map_option_bind: "map_option f (Option.bind x g) = Option.bind x (\<lambda>y. map_option f (g y))"
  by (cases x) simp_all

lemma bind_map: "Option.bind (map_option f x) g = Option.bind x (\<lambda>y. g (f y))"
  by (cases x) simp_all

lemma graft_up_fill:
  assumes "apart F hid (h_heap h)" "hid e \<notin> dom F"
  shows "MoveHoleUpAndFill cmp hid (graft F h) p e
    = map_option (map_prod (graft F) (\<lambda>i. i)) (MoveHoleUpAndFill cmp hid h p e)"
  using graft_up_loop [OF assms(1), of cmp p e] graft_FillHole [of F hid _ e, OF _ assms(2)]
  by (cases "hole_up_loop cmp hid h p e")
    (auto simp: MoveHoleUpAndFill_def map_option_bind bind_map)

lemma graft_down_fill:
  assumes "apart F hid (h_heap h)" "hid e \<notin> dom F"
  shows "MoveHoleDownAndFill leaf cmp hid (graft F h) p e
    = map_option (map_prod (graft F) (\<lambda>i. i)) (MoveHoleDownAndFill leaf cmp hid h p e)"
proof (cases "p < length (h_heap h)")
  case True
  let ?n = "heap_size h - (if leaf then 1 else 0)"
  have "GetHeapHandle hid (graft F h) p = GetHeapHandle hid h p"
    using apart_nth [OF assms(1) True] True
    by (simp add: GetHeapHandle_def heap_at_def heap_size_def map_add_dom_app_simps(3))
  then show ?thesis
    using graft_down_loop [OF assms(1), of leaf cmp ?n p e] graft_FillHole [of F hid _ e, OF _ assms(2)] graft_up_fill [of F hid _ e, OF _ assms(2)]
    by (cases "hole_down_loop leaf cmp hid ?n h p e"; cases "GetHeapHandle hid h p")
      (auto simp: MoveHoleDownAndFill_def Let_def map_option_bind bind_map)
qed (simp add: MoveHoleDownAndFill_def heap_size_def)

lemma graft_insert:
  "apart F hid (h_heap h) \<Longrightarrow> hid e \<notin> dom F \<Longrightarrow>
     InsertImpl cmp hid (graft F h) e = map_option (map_prod (graft F) (\<lambda>i. i)) (InsertImpl cmp hid h e)"
  by (simp add: InsertImpl_def graft_up_fill)

lemma graft_erase:
  assumes "apart F hid (h_heap h)"
  shows "heap_erase cmp hid (graft F h) p = map_option (graft F) (heap_erase cmp hid h p)"
proof (cases "MakeHole hid h p")
  case None
  then show ?thesis using graft_MakeHole [OF assms] by (simp add: heap_erase_def)
next
  case (Some h1)
  have ap: "apart F hid (h_heap h1)" using MakeHole_heap [OF Some] assms by simp
  show ?thesis
  proof (cases "MakeHole hid h1 (heap_size h1 - 1)")
    case None
    then show ?thesis
      using Some graft_MakeHole [OF assms] graft_MakeHole [OF ap] by (simp add: heap_erase_def Let_def)
  next
    case (Some h2)
    have ap2: "apart F hid (h_heap h2)" using MakeHole_heap [OF Some] ap by simp
    have "hid x \<notin> dom F" if "heap_at h2 i = Some x" for i x
      using apart_nth [OF ap2, of i] that by (auto simp: heap_at_def heap_size_def split: if_splits)
    with graft_down_fill [OF ap2] show ?thesis
      using Some \<open>MakeHole hid h p = Some h1\<close> graft_MakeHole [OF assms] graft_MakeHole [OF ap]
      by (cases "heap_at h2 (heap_size h1 - 1)")
        (auto simp: heap_erase_def Let_def map_option_bind bind_map split_beta)
  qed
qed

lemma graft_replace:
  assumes "apart F hid (h_heap h)" "hid e \<notin> dom F"
  shows "ReplaceImpl cmp hid (graft F h) p e = map_option (map_prod (graft F) (\<lambda>i. i)) (ReplaceImpl cmp hid h p e)"
    "ReplaceTopImpl cmp hid (graft F h) e = map_option (map_prod (graft F) (\<lambda>i. i)) (ReplaceTopImpl cmp hid h e)"
proof -
  have ap: "apart F hid (h_heap h')" if "MakeHole hid h i = Some h'" for h' i
    using MakeHole_heap [OF that] assms(1) by simp
  have less: "Less_elem_pos cmp (graft F h') e i = Less_elem_pos cmp h' e i" for h' i
    by (simp add: Less_elem_pos_def)
  show "ReplaceImpl cmp hid (graft F h) p e = map_option (map_prod (graft F) (\<lambda>i. i)) (ReplaceImpl cmp hid h p e)"
    using graft_MakeHole [OF assms(1)] graft_up_fill [OF ap assms(2)] graft_down_fill [OF ap assms(2)]
    by (cases "MakeHole hid h p"; cases "Less_elem_pos cmp (the (MakeHole hid h p)) e p")
      (auto simp: ReplaceImpl_def less map_option_bind bind_map)
  show "ReplaceTopImpl cmp hid (graft F h) e = map_option (map_prod (graft F) (\<lambda>i. i)) (ReplaceTopImpl cmp hid h e)"
    using graft_MakeHole [OF assms(1)] graft_down_fill [OF ap assms(2)]
    by (cases "MakeHole hid h 0") (auto simp: ReplaceTopImpl_def map_option_bind bind_map)
qed

section \<open>The contract with shared handles\<close>

text \<open>
  A heap is well-formed among others if it is well-formed with the handles of its own elements.  The contract
  is on the set of its elements: an operation changes that set, keeps every handle that belongs to
  no element of the heap, and keeps it known which elements have a valid handle.
\<close>

lemma shared_wf_cong:
  assumes "\<And>x. x \<in> set (h_heap h) \<Longrightarrow> h_handle h' (hid x) = h_handle h (hid x)" "h_heap h' = h_heap h"
  shows "shared_wf prio hid h' = shared_wf prio hid h"
proof -
  have "own hid h' = own hid h"
    using assms by (cases h, cases h') (auto simp: own_def restrict_map_def fun_eq_iff)
  then show ?thesis by (simp add: shared_wf_def)
qed

lemma shared_empty [simp]: "h_heap h = [] \<Longrightarrow> shared_wf prio hid h"
  by (simp add: shared_wf_def heap_wf_def holes_ok_def heap_upto_def heap_size_def)

definition kept :: "('a \<Rightarrow> 'k) \<Rightarrow> ('a, 'k) intrusive_heap \<Rightarrow> 'k \<Rightarrow> ('a, 'k) intrusive_heap \<Rightarrow> bool" where
  "kept hid h k h' \<longleftrightarrow>
     (\<forall>j. j \<noteq> k \<longrightarrow> j \<notin> hid ` set (h_heap h) \<longrightarrow> h_handle h' j = h_handle h j)
     \<and> (\<forall>j. j \<noteq> k \<longrightarrow> (h_handle h' j = None \<longleftrightarrow> h_handle h j = None))"

context heap_order
begin

lemma shared_handle:
  assumes "shared_wf prio hid h" "x \<in> set (h_heap h)"
  shows "\<exists>p. h_handle h (hid x) = Some p \<and> p < length (h_heap h) \<and> h_heap h ! p = x"
proof -
  have "contents (own hid h) (hid x) = Some x"
    using set_heap [of "own hid h" x] assms by (simp add: shared_wf_def)
  then obtain p where p: "h_handle (own hid h) (hid x) = Some p" "h_heap h ! p = x"
    by (auto simp: contents_def)
  moreover have "p < length (h_heap h)"
    using holes_okD(2) [of hid "own hid h" "{}", OF _ p(1)] assms(1) by (simp add: shared_wf_def heap_wf_def)
  ultimately show ?thesis using assms(2) by (auto split: if_splits)
qed

lemma shared_inj:
  assumes "shared_wf prio hid h" "x \<in> set (h_heap h)" "y \<in> set (h_heap h)" "hid x = hid y"
  shows "x = y"
proof -
  obtain p q where "h_handle h (hid x) = Some p" "h_heap h ! p = x" "h_handle h (hid y) = Some q" "h_heap h ! q = y"
    using shared_handle [OF assms(1,2)] shared_handle [OF assms(1,3)] by blast
  then show ?thesis using assms(4) by simp
qed

lemma shared_valid: "shared_wf prio hid h \<Longrightarrow> k \<in> hid ` set (h_heap h) \<Longrightarrow> h_handle h k \<noteq> None"
  using shared_handle by fastforce

lemma graft_ok:
  assumes wf: "heap_wf prio hid h'" and ap: "apart F hid (h_heap h')"
  shows "shared_wf prio hid (graft F h')" "k \<in> hid ` set (h_heap h') \<Longrightarrow> h_handle (graft F h') k \<noteq> None"
    "k \<notin> hid ` set (h_heap h') \<Longrightarrow> h_handle (graft F h') k = F k"
proof -
  have none: "h_handle h' k = None \<longleftrightarrow> k \<notin> hid ` set (h_heap h')" for k
  proof (cases "contents h' k")
    case None
    then show ?thesis using contents_iff [OF wf, of k] contents_None_iff [of h' k] by auto
  next
    case (Some x)
    then show ?thesis using contents_iff [OF wf, of k x] contents_None_iff [of h' k] by auto
  qed
  have "(h_handle h' ++ F) |` (hid ` set (h_heap h')) = h_handle h'"
  proof
    fix k show "((h_handle h' ++ F) |` (hid ` set (h_heap h'))) k = h_handle h' k"
      using none [of k] ap by (cases "k \<in> hid ` set (h_heap h')") (auto simp: apart_def map_add_dom_app_simps(3))
  qed
  then have eq: "own hid (graft F h') = h'" by (simp add: own_def graft_def)
  show "shared_wf prio hid (graft F h')" using wf by (simp add: shared_wf_def eq)
  show "h_handle (graft F h') k \<noteq> None" if "k \<in> hid ` set (h_heap h')"
    using none [of k] that by (auto simp: map_add_def split: option.splits)
  show "h_handle (graft F h') k = F k" if "k \<notin> hid ` set (h_heap h')"
    using none [of k] that by (auto simp: map_add_def split: option.splits)
qed

lemma graft_kept:
  assumes "shared_wf prio hid h" "heap_wf prio hid h1" "apart (foreign hid h) hid (h_heap h1)"
    and ids: "insert k (hid ` set (h_heap h1)) = insert k (hid ` set (h_heap h))"
  shows "kept hid h k (graft (foreign hid h) h1)"
  unfolding kept_def
proof (intro conjI allI impI)
  fix j assume j: "j \<noteq> k"
  with ids have iff: "j \<in> hid ` set (h_heap h1) \<longleftrightarrow> j \<in> hid ` set (h_heap h)" by blast
  show *: "h_handle (graft (foreign hid h) h1) j = h_handle h j" if "j \<notin> hid ` set (h_heap h)"
    using graft_ok(3) [OF assms(2,3), of j] iff that by (simp add: foreign_def restrict_map_def)
  show "h_handle (graft (foreign hid h) h1) j = None \<longleftrightarrow> h_handle h j = None"
  proof (cases "j \<in> hid ` set (h_heap h)")
    case True
    then show ?thesis using graft_ok(2) [OF assms(2,3), of j] shared_valid [OF assms(1), of j] iff by blast
  next
    case False
    then show ?thesis using * by simp
  qed
qed

lemma shared_insert:
  assumes "shared_wf prio hid h" "h_handle h (hid e) = None"
  shows "\<exists>h' p. InsertImpl cmp hid h e = Some (h', p) \<and> shared_wf prio hid h'
    \<and> set (h_heap h') = insert e (set (h_heap h)) \<and> h_handle h' (hid e) \<noteq> None \<and> kept hid h (hid e) h'"
proof -
  have new: "hid e \<notin> hid ` set (h_heap h)" using shared_handle [OF assms(1)] assms(2) by force
  let ?o = "own hid h" and ?F = "foreign hid h"
  have wf: "heap_wf prio hid ?o" using assms(1) by (simp add: shared_wf_def)
  have "contents ?o (hid e) = None" using new by (simp add: contents_def)
  from insert_ok [OF wf this] obtain h1 p where
    1: "InsertImpl cmp hid ?o e = Some (h1, p)" "heap_wf prio hid h1" "contents h1 = (contents ?o)(hid e \<mapsto> e)" by auto
  have "y \<in> set (h_heap h1) \<longleftrightarrow> y \<in> insert e (set (h_heap h))" for y
    using set_heap [OF 1(2), of y] set_heap [OF wf, of y] imageI [of y _ hid] new 1(3) by (cases "hid y = hid e") auto
  then have s: "set (h_heap h1) = insert e (set (h_heap h))" by blast
  have F: "hid e \<notin> dom ?F" using assms(2) by (simp add: foreign_def restrict_map_def domIff)
  with s have ap: "apart ?F hid (h_heap h1)" using apart_foreign [of hid h] by (auto simp: apart_def)
  have "InsertImpl cmp hid h e = Some (graft ?F h1, p)"
    using graft_insert [of ?F hid ?o e cmp] apart_foreign [of hid h] F 1(1) own_foreign [of hid h] by simp
  moreover have "kept hid h (hid e) (graft ?F h1)"
    using s by (intro graft_kept [OF assms(1) 1(2) ap]) simp
  ultimately show ?thesis
    using graft_ok [OF 1(2) ap] s by (intro exI [of _ "graft ?F h1"] exI [of _ p]) simp
qed

lemma shared_erase:
  assumes "shared_wf prio hid h" "x \<in> set (h_heap h)" "h_handle h (hid x) = Some pos"
  shows "\<exists>h'. heap_erase cmp hid h pos = Some h' \<and> shared_wf prio hid h'
    \<and> set (h_heap h') = set (h_heap h) - {x} \<and> h_handle h' (hid x) = None \<and> kept hid h (hid x) h'"
proof -
  let ?o = "own hid h" and ?F = "foreign hid h"
  have wf: "heap_wf prio hid ?o" using assms(1) by (simp add: shared_wf_def)
  have pos: "pos < length (h_heap h)" "h_heap h ! pos = x" using shared_handle [OF assms(1,2)] assms(3) by simp_all
  from erase_ok [OF wf, of pos] pos obtain h1 where
    1: "heap_erase cmp hid ?o pos = Some h1" "heap_wf prio hid h1" "contents h1 = (contents ?o)(hid x := None)" by auto
  have "y \<in> set (h_heap h1) \<longleftrightarrow> y \<in> set (h_heap h) - {x}" for y
  proof (cases "hid y = hid x")
    case True
    then have "y \<notin> set (h_heap h1)" using set_heap [OF 1(2), of y] 1(3) by simp
    moreover have "y \<in> set (h_heap h) \<Longrightarrow> y = x" using shared_inj [OF assms(1) _ assms(2)] True by blast
    ultimately show ?thesis by blast
  next
    case False
    then show ?thesis using set_heap [OF 1(2), of y] set_heap [OF wf, of y] 1(3) by auto
  qed
  then have s: "set (h_heap h1) = set (h_heap h) - {x}" by blast
  have ap: "apart ?F hid (h_heap h1)" using apart_mono [OF apart_foreign [of hid h]] s by auto
  have "heap_erase cmp hid h pos = Some (graft ?F h1)"
    using graft_erase [of ?F hid ?o cmp pos] apart_foreign [of hid h] 1(1) own_foreign [of hid h] by simp
  moreover have x: "hid x \<notin> hid ` set (h_heap h1)" using s shared_inj [OF assms(1,2)] by (metis Diff_iff imageE singletonI)
  moreover have "h_handle (graft ?F h1) (hid x) = None"
    using graft_ok(3) [OF 1(2) ap x] assms(2) by (simp add: foreign_def restrict_map_def)
  moreover have "kept hid h (hid x) (graft ?F h1)"
    using s assms(2) by (intro graft_kept [OF assms(1) 1(2) ap]) auto
  ultimately show ?thesis using graft_ok(1) [OF 1(2) ap] s by auto
qed

lemma shared_rekey:
  assumes "shared_wf prio hid h" "x \<in> set (h_heap h)" "h_handle h (hid x) = Some pos" "hid e = hid x"
    and op: "op = ReplaceImpl cmp hid h pos e \<or> (pos = 0 \<and> op = ReplaceTopImpl cmp hid h e)"
  shows "\<exists>h' p. op = Some (h', p) \<and> shared_wf prio hid h'
    \<and> set (h_heap h') = insert e (set (h_heap h) - {x}) \<and> h_handle h' (hid x) \<noteq> None \<and> kept hid h (hid x) h'"
proof -
  let ?o = "own hid h" and ?F = "foreign hid h"
  have wf: "heap_wf prio hid ?o" using assms(1) by (simp add: shared_wf_def)
  have pos: "pos < length (h_heap h)" "h_heap h ! pos = x" using shared_handle [OF assms(1,2)] assms(3) by simp_all
  have F: "hid e \<notin> dom ?F" using assms(2,4) by (auto simp: foreign_def restrict_map_def)
  have "\<exists>h1 p. op = Some (graft ?F h1, p) \<and> heap_wf prio hid h1 \<and> contents h1 = (contents ?o)(hid x \<mapsto> e)"
    using op
  proof
    assume "op = ReplaceImpl cmp hid h pos e"
    then show ?thesis
      using replace_ok [OF wf, of pos e] pos assms(4) graft_replace(1) [of ?F hid ?o e, OF _ F] apart_foreign [of hid h]
        own_foreign [of hid h] by auto
  next
    assume "pos = 0 \<and> op = ReplaceTopImpl cmp hid h e"
    then show ?thesis
      using replace_top_ok [OF wf, of e] pos assms(4) graft_replace(2) [of ?F hid ?o e, OF _ F] apart_foreign [of hid h]
        own_foreign [of hid h] by auto
  qed
  then obtain h1 p where
    1: "op = Some (graft ?F h1, p)" "heap_wf prio hid h1" "contents h1 = (contents ?o)(hid x \<mapsto> e)" by blast
  have "y \<in> set (h_heap h1) \<longleftrightarrow> y \<in> insert e (set (h_heap h) - {x})" for y
  proof (cases "hid y = hid x")
    case True
    then have "y \<in> set (h_heap h1) \<longleftrightarrow> y = e" using set_heap [OF 1(2), of y] 1(3) by auto
    moreover have "y \<in> set (h_heap h) \<Longrightarrow> y = x" using shared_inj [OF assms(1) _ assms(2)] True by blast
    ultimately show ?thesis by blast
  next
    case False
    then show ?thesis using set_heap [OF 1(2), of y] set_heap [OF wf, of y] 1(3) assms(4) by auto
  qed
  then have s: "set (h_heap h1) = insert e (set (h_heap h) - {x})" by blast
  then have ids: "hid ` set (h_heap h1) = hid ` set (h_heap h)" using assms(2,4) by auto
  have ap: "apart ?F hid (h_heap h1)" using F s apart_foreign [of hid h] by (auto simp: apart_def)
  have "kept hid h (hid x) (graft ?F h1)"
    using ids by (intro graft_kept [OF assms(1) 1(2) ap]) simp
  moreover have "h_handle (graft ?F h1) (hid x) \<noteq> None"
    using graft_ok(2) [OF 1(2) ap, of "hid x"] ids assms(2) by simp
  ultimately show ?thesis
    using graft_ok(1) [OF 1(2) ap] s 1(1) by (intro exI [of _ "graft ?F h1"] exI [of _ p]) simp
qed

lemma shared_top:
  assumes "shared_wf prio hid h" "h_heap h \<noteq> []"
  shows "\<exists>x. heap_top h = Some x \<and> x \<in> set (h_heap h) \<and> h_handle h (hid x) = Some 0
    \<and> (\<forall>y \<in> set (h_heap h). prio y \<le> prio x)"
proof -
  have wf: "heap_wf prio hid (own hid h)" using assms(1) by (simp add: shared_wf_def)
  let ?x = "h_heap h ! 0"
  have "h_handle h (hid ?x) = Some 0"
    using holes_okD(1) [of hid "own hid h" "{}" 0] wf assms(2) by (simp add: heap_wf_def)
  moreover have "\<forall>y \<in> set (h_heap h). prio y \<le> prio ?x"
    using top_ok(3) [OF wf] set_heap [OF wf] assms(2) by auto
  ultimately show ?thesis
    using assms(2) by (intro exI [of _ ?x]) (simp add: heap_top_def heap_at_def heap_size_def)
qed

end

end
