(* ===== verification/Work_Queue.thy ===== *)
theory Work_Queue
  imports Small_Priority_Queue Shared_Heap Safe_Conversions "HOL-Library.Word"
begin

text \<open>
  The work queues of the task scheduler: WorkQueue, WorkQueueSets and the part of TaskQueueSelector that
  observes the sets (base/task/sequence_manager/work_queue.cc, work_queue_sets.cc, task_queue_selector.cc).

  Objects live in one state.  A WorkQueue is named by the TaskQueueImpl that owns it and its type, so
  \<open>queues\<close> is the store that the pointers of the code lead to; the two WorkQueueSets of the
  selector are the values of \<open>set_id\<close>.  A heap of a set is a view on the state: its vector belongs to
  the set and its handles are the fields \<open>heap_handle\<close> of the queues.  A LazilyDeallocatedDeque of tasks
  is the list that it refines (theory \<open>Lazy_Deque\<close>).  The state is a record that later theories extend,
  so every operation is polymorphic in the rest of the scheduler.

  An EnqueueOrder is a natural number: 0 is none, 1 the blocking fence, and the code assumes that its
  64-bit counter never wraps.
\<close>

unbundle bit_operations_syntax

section \<open>Tasks and queues\<close>

text \<open>
  PendingTask and Task.  The callback is a value of a type \<open>'c\<close>; None is the null callback.  Fields that only
  tracing reads (posted_from, task_type, ipc_hash) are left out.
\<close>

record 'c task =
  callback :: "'c option"
  delayed_run_time :: int
  nestable :: bool
  sequence_num :: int
  is_high_res :: bool
  enqueue_order_set_to :: nat

definition enqueue_order_set :: "'c task \<Rightarrow> bool" where
  "enqueue_order_set t \<longleftrightarrow> enqueue_order_set_to t \<noteq> 0"

definition enqueue_order :: "'c task \<Rightarrow> nat option" where
  "enqueue_order t = do { DCHECK (enqueue_order_set_to t \<noteq> 0); Some (enqueue_order_set_to t) }"

definition set_enqueue_order :: "'c task \<Rightarrow> nat \<Rightarrow> 'c task option" where
  "set_enqueue_order t k = do { DCHECK (enqueue_order_set_to t = 0); Some (t\<lparr>enqueue_order_set_to := k\<rparr>) }"

text \<open>
  A callback is a closure of a client, or the one that posts a delayed task from its own thread
  (TaskQueueImpl::ScheduleDelayedWorkTask bound to the delayed task).
\<close>

datatype closure = Client nat | ScheduleDelayedWorkTask "nat task"

definition enqueue_order_none :: nat where "enqueue_order_none = 0"

definition blocking_fence :: nat where "blocking_fence = 1"

definition enqueue_order_first :: nat where "enqueue_order_first = 2"

datatype queue_type = kImmediate | kDelayed

type_synonym wq_ptr = "nat \<times> queue_type"

datatype set_id = delayed_sets | immediate_sets

record work_queue =
  wq_tasks :: "closure task list"
  wq_sets :: "set_id option"
  wq_set_index :: nat
  wq_heap_handle :: "nat option"
  wq_fence :: nat

definition WorkQueue :: work_queue where
  "WorkQueue = \<lparr>wq_tasks = [], wq_sets = None, wq_set_index = 0, wq_heap_handle = None, wq_fence = enqueue_order_none\<rparr>"

definition GetFrontTask :: "work_queue \<Rightarrow> closure task option" where
  "GetFrontTask q = (if wq_tasks q = [] then None else Some (hd (wq_tasks q)))"

definition GetBackTask :: "work_queue \<Rightarrow> closure task option" where
  "GetBackTask q = (if wq_tasks q = [] then None else Some (last (wq_tasks q)))"

definition wq_BlockedByFence :: "work_queue \<Rightarrow> bool option" where
  "wq_BlockedByFence q =
     (if wq_fence q = 0 then Some False
      else if wq_tasks q = [] then Some True
      else do { k \<leftarrow> enqueue_order (hd (wq_tasks q)); Some (wq_fence q \<le> k) })"

text \<open>\<open>Some None\<close> is the result false, \<open>Some (Some k)\<close> true with \<open>k\<close> written to the output parameter.\<close>

definition GetFrontTaskEnqueueOrder :: "work_queue \<Rightarrow> nat option option" where
  "GetFrontTaskEnqueueOrder q =
     (if wq_tasks q = [] then Some None
      else do { blocked \<leftarrow> wq_BlockedByFence q;
                if blocked then Some None
                else do { front \<leftarrow> enqueue_order (hd (wq_tasks q));
                          tail \<leftarrow> enqueue_order (last (wq_tasks q));
                          DCHECK (front \<le> tail);
                          Some (Some front) } })"

definition ShouldRunBefore :: "work_queue \<Rightarrow> work_queue \<Rightarrow> bool option" where
  "ShouldRunBefore q other_queue =
     do { DCHECK (wq_tasks q \<noteq> []);
          DCHECK (wq_tasks other_queue \<noteq> []);
          have_task \<leftarrow> GetFrontTaskEnqueueOrder q;
          have_other_task \<leftarrow> GetFrontTaskEnqueueOrder other_queue;
          k \<leftarrow> have_task;
          other_k \<leftarrow> have_other_task;
          Some (k < other_k) }"

primrec CollectTasksOlderThan :: "nat \<Rightarrow> closure task list \<Rightarrow> closure task list \<Rightarrow> closure task list option" where
  "CollectTasksOlderThan reference [] result = Some result"
| "CollectTasksOlderThan reference (t # ts) result =
     do { k \<leftarrow> enqueue_order t;
          if reference \<le> k then Some result else CollectTasksOlderThan reference ts (result @ [t]) }"

section \<open>The selector as observer\<close>

record selector =
  active_priorities :: small_priority_queue
  non_empty_set_counts :: "int list"
  selection_count :: int
  immediate_starvation_count :: nat
  anti_starvation_disabled :: bool
  random_task_selection :: bool

abbreviation (input) kControlPriority :: nat where "kControlPriority \<equiv> 0"
abbreviation (input) kHighestPriority :: nat where "kHighestPriority \<equiv> 1"
abbreviation (input) kVeryHighPriority :: nat where "kVeryHighPriority \<equiv> 2"
abbreviation (input) kHighPriority :: nat where "kHighPriority \<equiv> 3"
abbreviation (input) kNormalPriority :: nat where "kNormalPriority \<equiv> 4"
abbreviation (input) kLowPriority :: nat where "kLowPriority \<equiv> 5"
abbreviation (input) kBestEffortPriority :: nat where "kBestEffortPriority \<equiv> 6"

definition per_priority_starvation_tolerance :: "int list" where
  "per_priority_starvation_tolerance = [limit_lowest int64_t, 0, 3, 5, 10, 15, limit_max int64_t]"

definition GetSortKeyForPriority :: "selector \<Rightarrow> nat \<Rightarrow> int option" where
  "GetSortKeyForPriority sel p =
     (if p = kControlPriority then Some (limit_lowest int64_t)
      else if p = kBestEffortPriority then Some (limit_max int64_t)
      else do { tolerance \<leftarrow> array_get per_priority_starvation_tolerance p;
                if anti_starvation_disabled sel then Some tolerance
                else arith int64_t (selection_count sel + tolerance) })"

abbreviation (input) kMaxNonEmptySetCount :: int where "kMaxNonEmptySetCount \<equiv> 2"

definition WorkQueueSetBecameEmpty :: "nat \<Rightarrow> selector \<Rightarrow> selector option" where
  "WorkQueueSetBecameEmpty set_index sel =
     do { n \<leftarrow> array_get (non_empty_set_counts sel) set_index;
          counts \<leftarrow> array_set (non_empty_set_counts sel) set_index (n - 1);
          let sel = sel\<lparr>non_empty_set_counts := counts\<rparr>;
          DCHECK (0 \<le> n - 1);
          if n - 1 = 0
          then do { q \<leftarrow> spq_erase (active_priorities sel) set_index; Some (sel\<lparr>active_priorities := q\<rparr>) }
          else Some sel }"

definition WorkQueueSetBecameNonEmpty :: "nat \<Rightarrow> selector \<Rightarrow> selector option" where
  "WorkQueueSetBecameNonEmpty set_index sel =
     do { n \<leftarrow> array_get (non_empty_set_counts sel) set_index;
          counts \<leftarrow> array_set (non_empty_set_counts sel) set_index (n + 1);
          let sel = sel\<lparr>non_empty_set_counts := counts\<rparr>;
          DCHECK (n + 1 \<le> kMaxNonEmptySetCount);
          if n + 1 = 1
          then do { key \<leftarrow> GetSortKeyForPriority sel set_index;
                    q \<leftarrow> spq_insert (active_priorities sel) key set_index;
                    Some (sel\<lparr>active_priorities := q\<rparr>) }
          else Some sel }"

section \<open>The state\<close>

type_synonym oldest = "nat \<times> wq_ptr"

record work_state =
  queues :: "wq_ptr \<Rightarrow> work_queue"
  heaps :: "set_id \<Rightarrow> oldest list list"
  last_rand :: "set_id \<Rightarrow> 64 word"
  sel :: selector

definition set_queue :: "wq_ptr \<Rightarrow> work_queue \<Rightarrow> 'z work_state_scheme \<Rightarrow> 'z work_state_scheme" where
  "set_queue w q s = s\<lparr>queues := (queues s)(w := q)\<rparr>"

definition heap_view :: "'z work_state_scheme \<Rightarrow> set_id \<Rightarrow> nat \<Rightarrow> (oldest, wq_ptr) intrusive_heap" where
  "heap_view s sid i = \<lparr>h_heap = heaps s sid ! i, h_handle = (\<lambda>w. wq_heap_handle (queues s w))\<rparr>"

definition heap_store ::
  "'z work_state_scheme \<Rightarrow> set_id \<Rightarrow> nat \<Rightarrow> (oldest, wq_ptr) intrusive_heap \<Rightarrow> 'z work_state_scheme" where
  "heap_store s sid i h =
     s\<lparr>heaps := (heaps s)(sid := (heaps s sid)[i := h_heap h]),
       queues := (\<lambda>w. (queues s w)\<lparr>wq_heap_handle := h_handle h w\<rparr>)\<rparr>"

text \<open>
  The operations of the heap adapter (base/task/common/intrusive_heap.h) on heap \<open>i\<close> of a set, whose elements
  are ordered by \<open><=\<close> on the key of OldestTaskEnqueueOrder.
\<close>

abbreviation older :: "oldest \<Rightarrow> oldest \<Rightarrow> bool" where "older \<equiv> GreaterUsingLessEqual fst"

definition set_heap_insert :: "set_id \<Rightarrow> nat \<Rightarrow> oldest \<Rightarrow> 'z work_state_scheme \<Rightarrow> 'z work_state_scheme option" where
  "set_heap_insert sid i e s =
     do { (h, _) \<leftarrow> InsertImpl older snd (heap_view s sid i) e; Some (heap_store s sid i h) }"

definition set_heap_erase :: "set_id \<Rightarrow> nat \<Rightarrow> nat option \<Rightarrow> 'z work_state_scheme \<Rightarrow> 'z work_state_scheme option" where
  "set_heap_erase sid i handle s =
     do { pos \<leftarrow> handle; h \<leftarrow> heap_erase older snd (heap_view s sid i) pos; Some (heap_store s sid i h) }"

definition set_heap_ChangeKey ::
  "set_id \<Rightarrow> nat \<Rightarrow> nat option \<Rightarrow> oldest \<Rightarrow> 'z work_state_scheme \<Rightarrow> 'z work_state_scheme option" where
  "set_heap_ChangeKey sid i handle e s =
     do { pos \<leftarrow> handle;
          (h, _) \<leftarrow> ReplaceImpl older snd (heap_view s sid i) pos e;
          Some (heap_store s sid i h) }"

definition set_heap_ReplaceMin :: "set_id \<Rightarrow> nat \<Rightarrow> oldest \<Rightarrow> 'z work_state_scheme \<Rightarrow> 'z work_state_scheme option" where
  "set_heap_ReplaceMin sid i e s =
     do { (h, _) \<leftarrow> ReplaceTopImpl older snd (heap_view s sid i) e; Some (heap_store s sid i h) }"

definition set_heap_Pop :: "set_id \<Rightarrow> nat \<Rightarrow> 'z work_state_scheme \<Rightarrow> 'z work_state_scheme option" where
  "set_heap_Pop sid i s =
     do { h \<leftarrow> heap_pop older snd (heap_view s sid i); Some (heap_store s sid i h) }"

definition set_heap_Min :: "set_id \<Rightarrow> nat \<Rightarrow> 'z work_state_scheme \<Rightarrow> oldest option" where
  "set_heap_Min sid i s = heap_top (heap_view s sid i)"

definition set_heap_empty :: "set_id \<Rightarrow> nat \<Rightarrow> 'z work_state_scheme \<Rightarrow> bool" where
  "set_heap_empty sid i s = heap_empty (heap_view s sid i)"

definition notify_empty :: "nat \<Rightarrow> 'z work_state_scheme \<Rightarrow> 'z work_state_scheme option" where
  "notify_empty i s = do { obs \<leftarrow> WorkQueueSetBecameEmpty i (sel s); Some (s\<lparr>sel := obs\<rparr>) }"

definition notify_non_empty :: "nat \<Rightarrow> 'z work_state_scheme \<Rightarrow> 'z work_state_scheme option" where
  "notify_non_empty i s = do { obs \<leftarrow> WorkQueueSetBecameNonEmpty i (sel s); Some (s\<lparr>sel := obs\<rparr>) }"

section \<open>WorkQueueSets\<close>

definition AssignToWorkQueueSets :: "wq_ptr \<Rightarrow> set_id option \<Rightarrow> 'z work_state_scheme \<Rightarrow> 'z work_state_scheme" where
  "AssignToWorkQueueSets w work_queue_sets s = set_queue w ((queues s w)\<lparr>wq_sets := work_queue_sets\<rparr>) s"

definition AssignSetIndex :: "wq_ptr \<Rightarrow> nat \<Rightarrow> 'z work_state_scheme \<Rightarrow> 'z work_state_scheme" where
  "AssignSetIndex w i s = set_queue w ((queues s w)\<lparr>wq_set_index := i\<rparr>) s"

definition sets_AddQueue :: "set_id \<Rightarrow> wq_ptr \<Rightarrow> nat \<Rightarrow> 'z work_state_scheme \<Rightarrow> 'z work_state_scheme option" where
  "sets_AddQueue sid w set_index s =
     do { DCHECK (wq_sets (queues s w) = None);
          DCHECK (set_index < kQueuePriorityCount);
          DCHECK (wq_heap_handle (queues s w) = None);
          order \<leftarrow> GetFrontTaskEnqueueOrder (queues s w);
          let s = AssignToWorkQueueSets w (Some sid) s;
          let s = AssignSetIndex w set_index s;
          case order of
            None \<Rightarrow> Some s
          | Some k \<Rightarrow>
              do { let was_empty = set_heap_empty sid set_index s;
                   s \<leftarrow> set_heap_insert sid set_index (k, w) s;
                   if was_empty then notify_non_empty set_index s else Some s } }"

definition sets_RemoveQueue :: "set_id \<Rightarrow> wq_ptr \<Rightarrow> 'z work_state_scheme \<Rightarrow> 'z work_state_scheme option" where
  "sets_RemoveQueue sid w s =
     do { DCHECK (wq_sets (queues s w) = Some sid);
          let s = AssignToWorkQueueSets w None s;
          if wq_heap_handle (queues s w) = None then Some s
          else do { let set_index = wq_set_index (queues s w);
                    DCHECK (set_index < kQueuePriorityCount);
                    s \<leftarrow> set_heap_erase sid set_index (wq_heap_handle (queues s w)) s;
                    s \<leftarrow> (if set_heap_empty sid set_index s then notify_empty set_index s else Some s);
                    DCHECK (wq_heap_handle (queues s w) = None);
                    Some s } }"

definition sets_ChangeSetIndex :: "set_id \<Rightarrow> wq_ptr \<Rightarrow> nat \<Rightarrow> 'z work_state_scheme \<Rightarrow> 'z work_state_scheme option" where
  "sets_ChangeSetIndex sid w set_index s =
     do { DCHECK (wq_sets (queues s w) = Some sid);
          DCHECK (set_index < kQueuePriorityCount);
          order \<leftarrow> GetFrontTaskEnqueueOrder (queues s w);
          let old_set = wq_set_index (queues s w);
          DCHECK (old_set < kQueuePriorityCount);
          DCHECK (old_set \<noteq> set_index);
          let s = AssignSetIndex w set_index s;
          DCHECK ((order \<noteq> None) = (wq_heap_handle (queues s w) \<noteq> None));
          case order of
            None \<Rightarrow> Some s
          | Some k \<Rightarrow>
              do { s \<leftarrow> set_heap_erase sid old_set (wq_heap_handle (queues s w)) s;
                   let was_empty = set_heap_empty sid set_index s;
                   s \<leftarrow> set_heap_insert sid set_index (k, w) s;
                   s \<leftarrow> (if set_heap_empty sid old_set s then notify_empty old_set s else Some s);
                   if was_empty then notify_non_empty set_index s else Some s } }"

definition OnQueuesFrontTaskChanged :: "set_id \<Rightarrow> wq_ptr \<Rightarrow> 'z work_state_scheme \<Rightarrow> 'z work_state_scheme option" where
  "OnQueuesFrontTaskChanged sid w s =
     do { let set_index = wq_set_index (queues s w);
          DCHECK (wq_sets (queues s w) = Some sid);
          DCHECK (set_index < kQueuePriorityCount);
          DCHECK (wq_heap_handle (queues s w) \<noteq> None);
          DCHECK (\<not> set_heap_empty sid set_index s);
          order \<leftarrow> GetFrontTaskEnqueueOrder (queues s w);
          case order of
            Some k \<Rightarrow> set_heap_ChangeKey sid set_index (wq_heap_handle (queues s w)) (k, w) s
          | None \<Rightarrow>
              do { s \<leftarrow> set_heap_erase sid set_index (wq_heap_handle (queues s w)) s;
                   DCHECK (wq_heap_handle (queues s w) = None);
                   if set_heap_empty sid set_index s then notify_empty set_index s else Some s } }"

definition OnTaskPushedToEmptyQueue :: "set_id \<Rightarrow> wq_ptr \<Rightarrow> 'z work_state_scheme \<Rightarrow> 'z work_state_scheme option" where
  "OnTaskPushedToEmptyQueue sid w s =
     do { DCHECK (wq_sets (queues s w) = Some sid);
          order \<leftarrow> GetFrontTaskEnqueueOrder (queues s w);
          k \<leftarrow> order;
          let set_index = wq_set_index (queues s w);
          DCHECK (set_index < kQueuePriorityCount);
          DCHECK (wq_heap_handle (queues s w) = None);
          let was_empty = set_heap_empty sid set_index s;
          s \<leftarrow> set_heap_insert sid set_index (k, w) s;
          if was_empty then notify_non_empty set_index s else Some s }"

definition OnPopMinQueueInSet :: "set_id \<Rightarrow> wq_ptr \<Rightarrow> 'z work_state_scheme \<Rightarrow> 'z work_state_scheme option" where
  "OnPopMinQueueInSet sid w s =
     do { let set_index = wq_set_index (queues s w);
          DCHECK (wq_sets (queues s w) = Some sid);
          DCHECK (set_index < kQueuePriorityCount);
          DCHECK (\<not> set_heap_empty sid set_index s);
          m \<leftarrow> set_heap_Min sid set_index s;
          DCHECK (snd m = w);
          DCHECK (wq_heap_handle (queues s w) \<noteq> None);
          order \<leftarrow> GetFrontTaskEnqueueOrder (queues s w);
          case order of
            Some k \<Rightarrow> set_heap_ReplaceMin sid set_index (k, w) s
          | None \<Rightarrow>
              do { s \<leftarrow> set_heap_Pop sid set_index s;
                   DCHECK (wq_heap_handle (queues s w) = None);
                   other \<leftarrow> (if set_heap_empty sid set_index s then Some True
                            else do { m \<leftarrow> set_heap_Min sid set_index s; Some (snd m \<noteq> w) });
                   DCHECK other;
                   if set_heap_empty sid set_index s then notify_empty set_index s else Some s } }"

definition OnQueueBlocked :: "set_id \<Rightarrow> wq_ptr \<Rightarrow> 'z work_state_scheme \<Rightarrow> 'z work_state_scheme option" where
  "OnQueueBlocked sid w s =
     do { DCHECK (wq_sets (queues s w) = Some sid);
          let heap_handle = wq_heap_handle (queues s w);
          if heap_handle = None then Some s
          else do { let set_index = wq_set_index (queues s w);
                    DCHECK (set_index < kQueuePriorityCount);
                    s \<leftarrow> set_heap_erase sid set_index heap_handle s;
                    if set_heap_empty sid set_index s then notify_empty set_index s else Some s } }"

text \<open>A null result is \<open>Some None\<close>.\<close>

definition GetOldestQueueInSet :: "set_id \<Rightarrow> nat \<Rightarrow> 'z work_state_scheme \<Rightarrow> wq_ptr option option" where
  "GetOldestQueueInSet sid set_index s =
     do { DCHECK (set_index < kQueuePriorityCount);
          if set_heap_empty sid set_index s then Some None
          else do { m \<leftarrow> set_heap_Min sid set_index s;
                    let queue = snd m;
                    DCHECK (set_index = wq_set_index (queues s queue));
                    DCHECK (wq_heap_handle (queues s queue) \<noteq> None);
                    Some (Some queue) } }"

definition GetOldestQueueAndEnqueueOrderInSet :: "set_id \<Rightarrow> nat \<Rightarrow> 'z work_state_scheme \<Rightarrow> (wq_ptr \<times> nat) option option" where
  "GetOldestQueueAndEnqueueOrderInSet sid set_index s =
     do { DCHECK (set_index < kQueuePriorityCount);
          if set_heap_empty sid set_index s then Some None
          else do { (key, w) \<leftarrow> set_heap_Min sid set_index s;
                    DCHECK (wq_heap_handle (queues s w) \<noteq> None);
                    order \<leftarrow> GetFrontTaskEnqueueOrder (queues s w);
                    DCHECK (order = Some key);
                    Some (Some (w, key)) } }"

definition MurmurHash3 :: "64 word \<Rightarrow> 64 word" where
  "MurmurHash3 value =
     (let value = value XOR drop_bit 33 value;
          value = value * 0xFF51AFD7ED558CCD;
          value = value XOR drop_bit 33 value;
          value = value * 0xC4CEB9FE1A85EC53
      in value XOR drop_bit 33 value)"

definition sets_Random :: "set_id \<Rightarrow> 'z work_state_scheme \<Rightarrow> 64 word \<times> 'z work_state_scheme" where
  "sets_Random sid s =
     (let r = MurmurHash3 (last_rand s sid) in (r, s\<lparr>last_rand := (last_rand s)(sid := r)\<rparr>))"

definition GetRandomQueueInSet ::
  "set_id \<Rightarrow> nat \<Rightarrow> 'z work_state_scheme \<Rightarrow> (wq_ptr option \<times> 'z work_state_scheme) option" where
  "GetRandomQueueInSet sid set_index s =
     do { DCHECK (set_index < kQueuePriorityCount);
          if set_heap_empty sid set_index s then Some (None, s)
          else do { let (r, s) = sets_Random sid s;
                    let h = heap_view s sid set_index;
                    e \<leftarrow> heap_at h (unat r mod heap_size h);
                    let queue = snd e;
                    DCHECK (set_index = wq_set_index (queues s queue));
                    DCHECK (wq_heap_handle (queues s queue) \<noteq> None);
                    Some (Some queue, s) } }"

definition GetRandomQueueAndEnqueueOrderInSet ::
  "set_id \<Rightarrow> nat \<Rightarrow> 'z work_state_scheme \<Rightarrow> ((wq_ptr \<times> nat) option \<times> 'z work_state_scheme) option" where
  "GetRandomQueueAndEnqueueOrderInSet sid set_index s =
     do { DCHECK (set_index < kQueuePriorityCount);
          if set_heap_empty sid set_index s then Some (None, s)
          else do { let (r, s) = sets_Random sid s;
                    let h = heap_view s sid set_index;
                    (key, w) \<leftarrow> heap_at h (unat r mod heap_size h);
                    order \<leftarrow> GetFrontTaskEnqueueOrder (queues s w);
                    DCHECK (order = Some key);
                    Some (Some (w, key), s) } }"

definition IsSetEmpty :: "set_id \<Rightarrow> nat \<Rightarrow> 'z work_state_scheme \<Rightarrow> bool option" where
  "IsSetEmpty sid set_index s =
     do { DCHECK (set_index < kQueuePriorityCount); Some (set_heap_empty sid set_index s) }"

definition ContainsWorkQueueForTest :: "set_id \<Rightarrow> wq_ptr \<Rightarrow> 'z work_state_scheme \<Rightarrow> bool option" where
  "ContainsWorkQueueForTest sid w s =
     do { order \<leftarrow> GetFrontTaskEnqueueOrder (queues s w);
          case find (\<lambda>e. snd e = w) (concat (heaps s sid)) of
            Some (key, _) \<Rightarrow>
              do { DCHECK (order = Some key); DCHECK (wq_sets (queues s w) = Some sid); Some True }
          | None \<Rightarrow>
              if wq_sets (queues s w) = Some sid then do { DCHECK (order = None); Some True } else Some False }"

primrec collect_from_pairs ::
  "nat \<Rightarrow> (wq_ptr \<Rightarrow> work_queue) \<Rightarrow> oldest list \<Rightarrow> closure task list \<Rightarrow> closure task list option" where
  "collect_from_pairs k qs [] result = Some result"
| "collect_from_pairs k qs (p # ps) result =
     do { result \<leftarrow> CollectTasksOlderThan k (wq_tasks (qs (snd p))) result;
          collect_from_pairs k qs ps result }"

definition sets_CollectSkippedOverLowerPriorityTasks ::
  "set_id \<Rightarrow> wq_ptr \<Rightarrow> 'z work_state_scheme \<Rightarrow> closure task list \<Rightarrow> closure task list option" where
  "sets_CollectSkippedOverLowerPriorityTasks sid selected s result =
     do { order \<leftarrow> GetFrontTaskEnqueueOrder (queues s selected);
          k \<leftarrow> order;
          collect_from_pairs k (queues s)
            (concat (map (\<lambda>i. heaps s sid ! i) [wq_set_index (queues s selected) + 1..<kQueuePriorityCount])) result }"

section \<open>WorkQueue\<close>

definition wq_Push :: "wq_ptr \<Rightarrow> closure task \<Rightarrow> 'z work_state_scheme \<Rightarrow> 'z work_state_scheme option" where
  "wq_Push w task s =
     do { let q = queues s w;
          let was_empty = (wq_tasks q = []);
          DCHECK (enqueue_order_set task);
          increasing \<leftarrow> (if was_empty then Some True
                        else do { b \<leftarrow> enqueue_order (last (wq_tasks q)); k \<leftarrow> enqueue_order task; Some (b < k) });
          DCHECK increasing;
          let q = q\<lparr>wq_tasks := wq_tasks q @ [task]\<rparr>;
          let s = set_queue w q s;
          if \<not> was_empty then Some s
          else case wq_sets q of
            None \<Rightarrow> Some s
          | Some sid \<Rightarrow> do { blocked \<leftarrow> wq_BlockedByFence q;
                           if \<not> blocked then OnTaskPushedToEmptyQueue sid w s else Some s } }"

record task_pusher =
  tp_work_queue :: "wq_ptr option"
  tp_was_empty :: bool

definition CreateTaskPusher :: "wq_ptr \<Rightarrow> 'z work_state_scheme \<Rightarrow> task_pusher" where
  "CreateTaskPusher w s = \<lparr>tp_work_queue = Some w, tp_was_empty = (wq_tasks (queues s w) = [])\<rparr>"

definition TaskPusher_Push :: "task_pusher \<Rightarrow> closure task \<Rightarrow> 'z work_state_scheme \<Rightarrow> 'z work_state_scheme option" where
  "TaskPusher_Push tp task s =
     do { w \<leftarrow> tp_work_queue tp;
          DCHECK (enqueue_order_set task);
          let q = queues s w;
          increasing \<leftarrow> (if wq_tasks q = [] then Some True
                        else do { b \<leftarrow> enqueue_order (last (wq_tasks q)); k \<leftarrow> enqueue_order task; Some (b < k) });
          DCHECK increasing;
          Some (set_queue w (q\<lparr>wq_tasks := wq_tasks q @ [task]\<rparr>) s) }"

text \<open>The destructor of the pusher.\<close>

definition TaskPusher_delete :: "task_pusher \<Rightarrow> 'z work_state_scheme \<Rightarrow> 'z work_state_scheme option" where
  "TaskPusher_delete tp s =
     (case tp_work_queue tp of
        None \<Rightarrow> Some s
      | Some w \<Rightarrow>
          if tp_was_empty tp \<and> wq_tasks (queues s w) \<noteq> [] then
            (case wq_sets (queues s w) of
               None \<Rightarrow> Some s
             | Some sid \<Rightarrow> do { blocked \<leftarrow> wq_BlockedByFence (queues s w);
                              if \<not> blocked then OnTaskPushedToEmptyQueue sid w s else Some s })
          else Some s)"

definition PushNonNestableTaskToFront ::
  "wq_ptr \<Rightarrow> closure task \<Rightarrow> 'z work_state_scheme \<Rightarrow> 'z work_state_scheme option" where
  "PushNonNestableTaskToFront w task s =
     do { DCHECK (\<not> nestable task);
          let q = queues s w;
          let was_empty = (wq_tasks q = []);
          was_blocked \<leftarrow> wq_BlockedByFence q;
          DCHECK (enqueue_order_set task);
          ordered \<leftarrow> (if was_empty then Some True
                     else do { k \<leftarrow> enqueue_order task; f \<leftarrow> enqueue_order (hd (wq_tasks q)); Some (k \<le> f) });
          DCHECK ordered;
          let q = q\<lparr>wq_tasks := task # wq_tasks q\<rparr>;
          let s = set_queue w q s;
          case wq_sets q of
            None \<Rightarrow> Some s
          | Some sid \<Rightarrow>
              do { blocked \<leftarrow> wq_BlockedByFence q;
                   if blocked then Some s
                   else if was_empty \<or> was_blocked then OnTaskPushedToEmptyQueue sid w s
                   else OnQueuesFrontTaskChanged sid w s } }"

definition InsertFenceImpl :: "nat \<Rightarrow> work_queue \<Rightarrow> (bool \<times> work_queue) option" where
  "InsertFenceImpl fence q =
     do { DCHECK (fence \<noteq> 0);
          DCHECK (wq_fence q \<le> fence \<or> fence = blocking_fence);
          was_blocked_by_fence \<leftarrow> wq_BlockedByFence q;
          Some (was_blocked_by_fence, q\<lparr>wq_fence := fence\<rparr>) }"

definition InsertFenceSilently :: "wq_ptr \<Rightarrow> nat \<Rightarrow> 'z work_state_scheme \<Rightarrow> 'z work_state_scheme option" where
  "InsertFenceSilently w fence s =
     do { let q = queues s w;
          DCHECK (wq_fence q = 0 \<or> wq_fence q = blocking_fence);
          (_, q) \<leftarrow> InsertFenceImpl fence q;
          Some (set_queue w q s) }"

definition wq_InsertFence :: "wq_ptr \<Rightarrow> nat \<Rightarrow> 'z work_state_scheme \<Rightarrow> (bool \<times> 'z work_state_scheme) option" where
  "wq_InsertFence w fence s =
     do { (was_blocked_by_fence, q) \<leftarrow> InsertFenceImpl fence (queues s w);
          let s = set_queue w q s;
          case wq_sets q of
            None \<Rightarrow> Some (False, s)
          | Some sid \<Rightarrow>
              do { blocked \<leftarrow> wq_BlockedByFence q;
                   if wq_tasks q \<noteq> [] \<and> was_blocked_by_fence \<and> \<not> blocked
                   then do { s \<leftarrow> OnTaskPushedToEmptyQueue sid w s; Some (True, s) }
                   else if blocked then do { s \<leftarrow> OnQueueBlocked sid w s; Some (False, s) }
                   else Some (False, s) } }"

definition wq_RemoveFence :: "wq_ptr \<Rightarrow> 'z work_state_scheme \<Rightarrow> (bool \<times> 'z work_state_scheme) option" where
  "wq_RemoveFence w s =
     do { was_blocked_by_fence \<leftarrow> wq_BlockedByFence (queues s w);
          let q = (queues s w)\<lparr>wq_fence := enqueue_order_none\<rparr>;
          let s = set_queue w q s;
          case wq_sets q of
            None \<Rightarrow> Some (False, s)
          | Some sid \<Rightarrow>
              if wq_tasks q \<noteq> [] \<and> was_blocked_by_fence
              then do { s \<leftarrow> OnTaskPushedToEmptyQueue sid w s; Some (True, s) }
              else Some (False, s) }"

definition wq_DeletePendingTasks :: "wq_ptr \<Rightarrow> 'z work_state_scheme \<Rightarrow> 'z work_state_scheme option" where
  "wq_DeletePendingTasks w s =
     do { let q = (queues s w)\<lparr>wq_tasks := []\<rparr>;
          let s = set_queue w q s;
          s \<leftarrow> (case wq_sets q of
                  None \<Rightarrow> Some s
                | Some sid \<Rightarrow> if wq_heap_handle q \<noteq> None then OnQueuesFrontTaskChanged sid w s else Some s);
          DCHECK (wq_heap_handle (queues s w) = None);
          Some s }"

section \<open>Runs\<close>

text \<open>The state after construction of the selector, with all queues new and unassigned.\<close>

definition TaskQueueSelector :: "bool \<Rightarrow> 64 word \<Rightarrow> selector" where
  "TaskQueueSelector anti_starvation_logic_for_priorities_disabled random_task_selection_seed =
     \<lparr>active_priorities = SmallPriorityQueue, non_empty_set_counts = replicate kQueuePriorityCount 0,
      selection_count = 0, immediate_starvation_count = 0,
      anti_starvation_disabled = anti_starvation_logic_for_priorities_disabled,
      random_task_selection = (random_task_selection_seed \<noteq> 0)\<rparr>"

definition initial_work_state :: "bool \<Rightarrow> 64 word \<Rightarrow> work_state" where
  "initial_work_state anti_starvation_logic_for_priorities_disabled seed =
     \<lparr>queues = (\<lambda>_. WorkQueue), heaps = (\<lambda>_. replicate kQueuePriorityCount []), last_rand = (\<lambda>_. seed),
      sel = TaskQueueSelector anti_starvation_logic_for_priorities_disabled seed\<rparr>"

text \<open>The operations of the two classes that change a queue, with the calls that their contracts allow.\<close>

datatype work_op =
  Op_Push wq_ptr "closure task"
| Op_PushBatch wq_ptr "closure task list"
| Op_PushFront wq_ptr "closure task"
| Op_InsertFence wq_ptr nat
| Op_RemoveFence wq_ptr
| Op_DeleteTasks wq_ptr
| Op_AddQueue set_id wq_ptr nat
| Op_RemoveQueue set_id wq_ptr
| Op_ChangeSetIndex set_id wq_ptr nat

text \<open>A batch of tasks goes through a TaskPusher.\<close>

primrec pusher_push_all :: "task_pusher \<Rightarrow> closure task list \<Rightarrow> 'z work_state_scheme \<Rightarrow> 'z work_state_scheme option" where
  "pusher_push_all tp [] s = Some s"
| "pusher_push_all tp (t # ts) s = do { s \<leftarrow> TaskPusher_Push tp t s; pusher_push_all tp ts s }"

definition push_batch :: "wq_ptr \<Rightarrow> closure task list \<Rightarrow> 'z work_state_scheme \<Rightarrow> 'z work_state_scheme option" where
  "push_batch w ts s =
     do { let tp = CreateTaskPusher w s;
          s \<leftarrow> pusher_push_all tp ts s;
          TaskPusher_delete tp s }"

fun run_op :: "work_op \<Rightarrow> 'z work_state_scheme \<Rightarrow> 'z work_state_scheme option" where
  "run_op (Op_Push w t) s = wq_Push w t s"
| "run_op (Op_PushBatch w ts) s = push_batch w ts s"
| "run_op (Op_PushFront w t) s = PushNonNestableTaskToFront w t s"
| "run_op (Op_InsertFence w k) s = map_option snd (wq_InsertFence w k s)"
| "run_op (Op_RemoveFence w) s = map_option snd (wq_RemoveFence w s)"
| "run_op (Op_DeleteTasks w) s = wq_DeletePendingTasks w s"
| "run_op (Op_AddQueue sid w i) s = sets_AddQueue sid w i s"
| "run_op (Op_RemoveQueue sid w) s = sets_RemoveQueue sid w s"
| "run_op (Op_ChangeSetIndex sid w i) s = sets_ChangeSetIndex sid w i s"

fun op_target :: "work_op \<Rightarrow> wq_ptr" where
  "op_target (Op_Push w _) = w"
| "op_target (Op_PushBatch w _) = w"
| "op_target (Op_PushFront w _) = w"
| "op_target (Op_InsertFence w _) = w"
| "op_target (Op_RemoveFence w) = w"
| "op_target (Op_DeleteTasks w) = w"
| "op_target (Op_AddQueue _ w _) = w"
| "op_target (Op_RemoveQueue _ w) = w"
| "op_target (Op_ChangeSetIndex _ w _) = w"

section \<open>Specification\<close>

text \<open>
  What the sets should hold: a queue that is assigned to sets, has a task and is not blocked by its fence is
  registered under its set index with the order of its first task (\<open>ready\<close>).  \<open>sets_rep s reg\<close> says
  that the heaps of the state hold exactly the queues that \<open>reg\<close> names.
\<close>

abbreviation orders :: "work_queue \<Rightarrow> nat list" where
  "orders q \<equiv> map enqueue_order_set_to (wq_tasks q)"

definition queue_ok :: "work_queue \<Rightarrow> bool" where
  "queue_ok q \<longleftrightarrow> sorted (orders q) \<and> 0 \<notin> set (orders q) \<and> wq_set_index q < kQueuePriorityCount"

definition blocked :: "work_queue \<Rightarrow> bool" where
  "blocked q \<longleftrightarrow> wq_fence q \<noteq> 0 \<and> (wq_tasks q = [] \<or> wq_fence q \<le> hd (orders q))"

definition front :: "work_queue \<Rightarrow> nat option" where
  "front q = (if wq_tasks q = [] \<or> blocked q then None else Some (hd (orders q)))"

definition ready :: "work_queue \<Rightarrow> (set_id \<times> nat \<times> nat) option" where
  "ready q = (case wq_sets q of
                None \<Rightarrow> None
              | Some sid \<Rightarrow> map_option (\<lambda>k. (sid, wq_set_index q, k)) (front q))"

abbreviation oldest_wf :: "(oldest, wq_ptr) intrusive_heap \<Rightarrow> bool" where
  "oldest_wf \<equiv> shared_wf (\<lambda>x. - int (fst x)) snd"

definition sets_rep :: "'z work_state_scheme \<Rightarrow> (wq_ptr \<Rightarrow> (set_id \<times> nat \<times> nat) option) \<Rightarrow> bool" where
  "sets_rep s reg \<longleftrightarrow>
     (\<forall>sid. length (heaps s sid) = kQueuePriorityCount)
     \<and> (\<forall>sid. \<forall>i < kQueuePriorityCount. oldest_wf (heap_view s sid i)
          \<and> set (heaps s sid ! i) = {(k, w). reg w = Some (sid, i, k)})
     \<and> (\<forall>w sid i k. reg w = Some (sid, i, k) \<longrightarrow> i < kQueuePriorityCount)
     \<and> (\<forall>w. wq_heap_handle (queues s w) = None \<longleftrightarrow> reg w = None)"

text \<open>
  What the selector has been told: \<open>f sid i\<close> says that set \<open>i\<close> of \<open>sid\<close> is non-empty.
\<close>

definition key_ok :: "selector \<Rightarrow> int \<times> nat \<Rightarrow> bool" where
  "key_ok c p \<longleftrightarrow>
     (snd p = kControlPriority \<longrightarrow> fst p = limit_lowest int64_t)
     \<and> (snd p = kBestEffortPriority \<longrightarrow> fst p = limit_max int64_t)
     \<and> (snd p \<in> {kHighestPriority..kLowPriority} \<longrightarrow>
          (if anti_starvation_disabled c then fst p = per_priority_starvation_tolerance ! snd p
           else 0 \<le> fst p \<and> fst p \<le> selection_count c + per_priority_starvation_tolerance ! snd p))"

definition active_rep :: "selector \<Rightarrow> (int \<times> nat) list \<Rightarrow> bool" where
  "active_rep c ps \<longleftrightarrow> spq_rep (active_priorities c) ps \<and> (\<forall>p \<in> set ps. key_ok c p)"

definition count_ok :: "selector \<Rightarrow> bool" where
  "count_ok c \<longleftrightarrow> 0 \<le> selection_count c \<and> selection_count c + 15 \<le> limit_max int64_t"

definition sel_rep :: "(set_id \<Rightarrow> nat \<Rightarrow> bool) \<Rightarrow> selector \<Rightarrow> bool" where
  "sel_rep f c \<longleftrightarrow>
     count_ok c \<and> length (non_empty_set_counts c) = kQueuePriorityCount
     \<and> (\<forall>i < kQueuePriorityCount.
          non_empty_set_counts c ! i = of_bool (f delayed_sets i) + of_bool (f immediate_sets i))
     \<and> (\<exists>ps. active_rep c ps \<and> snd ` set ps = {i. i < kQueuePriorityCount \<and> (\<exists>sid. f sid i)})"

abbreviation non_empty :: "'z work_state_scheme \<Rightarrow> set_id \<Rightarrow> nat \<Rightarrow> bool" where
  "non_empty s \<equiv> (\<lambda>sid i. heaps s sid ! i \<noteq> [])"

definition work_ok :: "'z work_state_scheme \<Rightarrow> bool" where
  "work_ok s \<longleftrightarrow>
     (\<forall>w. queue_ok (queues s w)) \<and> sets_rep s (\<lambda>w. ready (queues s w)) \<and> sel_rep (non_empty s) (sel s)"

text \<open>
  The contract of an operation: what the caller must respect (\<open>op_allowed\<close>) and the queue that it
  leaves (\<open>op_effect\<close>).
\<close>

definition increasing_after :: "work_queue \<Rightarrow> closure task list \<Rightarrow> bool" where
  "increasing_after q ts \<longleftrightarrow>
     sorted_wrt (<) (map enqueue_order_set_to ts) \<and> 0 \<notin> set (map enqueue_order_set_to ts)
     \<and> (\<forall>t \<in> set ts. \<forall>k \<in> set (orders q). k < enqueue_order_set_to t)"

fun op_allowed :: "work_op \<Rightarrow> work_queue \<Rightarrow> bool" where
  "op_allowed (Op_Push _ t) q = increasing_after q [t]"
| "op_allowed (Op_PushBatch _ ts) q = increasing_after q ts"
| "op_allowed (Op_PushFront _ t) q =
     (\<not> nestable t \<and> enqueue_order_set_to t \<noteq> 0 \<and> (\<forall>k \<in> set (orders q). enqueue_order_set_to t \<le> k))"
| "op_allowed (Op_InsertFence _ k) q = (k \<noteq> 0 \<and> (wq_fence q \<le> k \<or> k = blocking_fence))"
| "op_allowed (Op_RemoveFence _) q = True"
| "op_allowed (Op_DeleteTasks _) q = True"
| "op_allowed (Op_AddQueue _ _ i) q = (wq_sets q = None \<and> i < kQueuePriorityCount)"
| "op_allowed (Op_RemoveQueue sid _) q = (wq_sets q = Some sid)"
| "op_allowed (Op_ChangeSetIndex sid _ i) q = (wq_sets q = Some sid \<and> i < kQueuePriorityCount \<and> i \<noteq> wq_set_index q)"

fun op_effect :: "work_op \<Rightarrow> work_queue \<Rightarrow> work_queue" where
  "op_effect (Op_Push _ t) q = q\<lparr>wq_tasks := wq_tasks q @ [t]\<rparr>"
| "op_effect (Op_PushBatch _ ts) q = q\<lparr>wq_tasks := wq_tasks q @ ts\<rparr>"
| "op_effect (Op_PushFront _ t) q = q\<lparr>wq_tasks := t # wq_tasks q\<rparr>"
| "op_effect (Op_InsertFence _ k) q = q\<lparr>wq_fence := k\<rparr>"
| "op_effect (Op_RemoveFence _) q = q\<lparr>wq_fence := enqueue_order_none\<rparr>"
| "op_effect (Op_DeleteTasks _) q = q\<lparr>wq_tasks := []\<rparr>"
| "op_effect (Op_AddQueue sid _ i) q = q\<lparr>wq_sets := Some sid, wq_set_index := i\<rparr>"
| "op_effect (Op_RemoveQueue _ _) q = q\<lparr>wq_sets := None\<rparr>"
| "op_effect (Op_ChangeSetIndex _ _ i) q = q\<lparr>wq_set_index := i\<rparr>"

text \<open>A run of allowed operations, and the states that runs reach.\<close>

primrec run_ops :: "work_op list \<Rightarrow> 'z work_state_scheme \<Rightarrow> 'z work_state_scheme option" where
  "run_ops [] s = Some s"
| "run_ops (op # ops) s =
     do { DCHECK (op_allowed op (queues s (op_target op))); s \<leftarrow> run_op op s; run_ops ops s }"

inductive work_reachable :: "work_state \<Rightarrow> bool" where
  start: "work_reachable (initial_work_state b seed)"
| step: "work_reachable s \<Longrightarrow> op_allowed op (queues s (op_target op)) \<Longrightarrow> run_op op s = Some s' \<Longrightarrow> work_reachable s'"

section \<open>Queues\<close>

lemma sorted_hd_last: "sorted xs \<Longrightarrow> xs \<noteq> [] \<Longrightarrow> hd xs \<le> (last xs :: nat)"
  by (cases xs) auto

lemma BlockedByFence_ok [simp]: "queue_ok q \<Longrightarrow> wq_BlockedByFence q = Some (blocked q)"
  by (cases "wq_tasks q") (auto simp: wq_BlockedByFence_def blocked_def queue_ok_def enqueue_order_def)

lemma GetFrontTaskEnqueueOrder_ok [simp]:
  assumes "queue_ok q"
  shows "GetFrontTaskEnqueueOrder q = Some (front q)"
proof (cases "wq_tasks q = []")
  case False
  then have "enqueue_order (hd (wq_tasks q)) = Some (hd (orders q))" "enqueue_order (last (wq_tasks q)) = Some (last (orders q))"
    using assms hd_in_set [OF False] last_in_set [OF False]
    by (auto simp: enqueue_order_def queue_ok_def hd_map last_map simp del: hd_in_set last_in_set)
  moreover have "hd (orders q) \<le> last (orders q)" using sorted_hd_last [of "orders q"] assms False by (simp add: queue_ok_def)
  ultimately show ?thesis using assms False by (simp add: GetFrontTaskEnqueueOrder_def front_def)
qed (simp add: GetFrontTaskEnqueueOrder_def front_def)

lemma queue_update_simps [simp]:
  "queue_ok (q\<lparr>wq_heap_handle := h\<rparr>) = queue_ok q" "queue_ok (q\<lparr>wq_sets := r\<rparr>) = queue_ok q"
  "front (q\<lparr>wq_heap_handle := h\<rparr>) = front q" "front (q\<lparr>wq_sets := r\<rparr>) = front q"
  "front (q\<lparr>wq_set_index := i\<rparr>) = front q" "blocked (q\<lparr>wq_heap_handle := h\<rparr>) = blocked q"
  "ready (q\<lparr>wq_heap_handle := h\<rparr>) = ready q"
  "queue_ok (q\<lparr>wq_fence := k\<rparr>) = queue_ok q" "i < kQueuePriorityCount \<Longrightarrow> queue_ok q \<Longrightarrow> queue_ok (q\<lparr>wq_set_index := i\<rparr>)"
  by (simp_all add: queue_ok_def front_def blocked_def ready_def split: option.split)

section \<open>The observer\<close>

lemma sort_key_ok:
  assumes "count_ok c" "p < kQueuePriorityCount"
  shows "\<exists>k. GetSortKeyForPriority c p = Some k \<and> key_ok c (k, p)"
proof -
  have "p \<in> {0, 1, 2, 3, 4, 5, 6}" using assms(2) by auto
  then show ?thesis
    using assms(1)
    by (cases "anti_starvation_disabled c")
      (auto simp: GetSortKeyForPriority_def key_ok_def count_ok_def per_priority_starvation_tolerance_def arith_def
        in_range_def limit_lowest_def)
qed

lemma key_ok_counts [simp]:
  "key_ok (c\<lparr>non_empty_set_counts := n\<rparr>) p = key_ok c p" "key_ok (c\<lparr>active_priorities := q\<rparr>) p = key_ok c p"
  "count_ok (c\<lparr>non_empty_set_counts := n\<rparr>) = count_ok c" "count_ok (c\<lparr>active_priorities := q\<rparr>) = count_ok c"
  by (simp_all add: key_ok_def count_ok_def)

lemma set_pq_insert [simp]: "set (pq_insert key x ps) = insert (key, x) (set ps)"
proof -
  have "set ps = set (takeWhile P ps) \<union> set (dropWhile P ps)" for P
    by (metis set_append takeWhile_dropWhile_id)
  then show ?thesis unfolding pq_insert_def by auto
qed

lemma sel_repI:
  assumes "count_ok c" "length (non_empty_set_counts c) = kQueuePriorityCount"
    "\<forall>i < kQueuePriorityCount. non_empty_set_counts c ! i = of_bool (f delayed_sets i) + of_bool (f immediate_sets i)"
    "spq_rep (active_priorities c) ps" "\<forall>p \<in> set ps. key_ok c p"
    "snd ` set ps = {i. i < kQueuePriorityCount \<and> (\<exists>sid. f sid i)}"
  shows "sel_rep f c"
  using assms unfolding sel_rep_def active_rep_def by blast

lemma set_id_ex: "(\<exists>sid. P sid) \<longleftrightarrow> P delayed_sets \<or> P immediate_sets"
  by (metis set_id.exhaust)

definition tell :: "(set_id \<Rightarrow> nat \<Rightarrow> bool) \<Rightarrow> set_id \<Rightarrow> nat \<Rightarrow> bool \<Rightarrow> set_id \<Rightarrow> nat \<Rightarrow> bool" where
  "tell f sid i b = f(sid := (f sid)(i := b))"

lemma tell_counts:
  assumes "sel_rep f c" "i < kQueuePriorityCount" "f sid i \<noteq> b"
  shows "\<forall>j < kQueuePriorityCount. (non_empty_set_counts c)[i := non_empty_set_counts c ! i + (if b then 1 else - 1)] ! j
    = of_bool (tell f sid i b delayed_sets j) + of_bool (tell f sid i b immediate_sets j)"
  using assms by (cases sid) (auto simp: sel_rep_def tell_def nth_list_update)

lemma BecameNonEmpty_ok:
  assumes "sel_rep f c" "i < kQueuePriorityCount" "\<not> f sid i"
  shows "\<exists>c'. WorkQueueSetBecameNonEmpty i c = Some c' \<and> sel_rep (tell f sid i True) c'
    \<and> selection_count c' = selection_count c"
proof -
  obtain ps where ps: "active_rep c ps" "snd ` set ps = {i. i < kQueuePriorityCount \<and> (\<exists>sid. f sid i)}"
    using assms(1) by (auto simp: sel_rep_def)
  let ?n = "non_empty_set_counts c ! i" and ?c = "c\<lparr>non_empty_set_counts := (non_empty_set_counts c)[i := non_empty_set_counts c ! i + 1]\<rparr>"
  have n: "?n = of_bool (f delayed_sets i) + of_bool (f immediate_sets i)" "length (non_empty_set_counts c) = kQueuePriorityCount" "count_ok c"
    using assms by (auto simp: sel_rep_def)
  have cnt: "\<forall>j < kQueuePriorityCount. non_empty_set_counts ?c ! j
      = of_bool (tell f sid i True delayed_sets j) + of_bool (tell f sid i True immediate_sets j)"
    using tell_counts [OF assms(1,2), of sid True] assms(3) by simp
  show ?thesis
  proof (cases "\<exists>sid. f sid i")
    case True
    then have "?n = 1" using n(1) assms(3) by (cases sid) (auto simp: set_id_ex)
    moreover have "{j. j < kQueuePriorityCount \<and> (\<exists>r. tell f sid i True r j)} = snd ` set ps"
      using True ps(2) assms(2) by (auto simp: tell_def)
    then have "sel_rep (tell f sid i True) ?c"
      using n cnt ps(1) by (auto simp: sel_rep_def active_rep_def intro!: exI [of _ ps])
    ultimately show ?thesis using n(2) assms(2) by (simp add: WorkQueueSetBecameNonEmpty_def)
  next
    case False
    then have "?n = 0" using n(1) by (simp add: set_id_ex)
    have new: "i \<notin> snd ` set ps" using False ps(2) by auto
    obtain k where k: "GetSortKeyForPriority ?c i = Some k" "key_ok c (k, i)"
      using sort_key_ok [of ?c i] n(3) assms(2) by auto
    obtain q where q: "spq_insert (active_priorities c) k i = Some q" "spq_rep q (pq_insert k i ps)"
      using spq_insert_ok [OF _ assms(2) new, of "active_priorities c" k] ps(1) by (auto simp: active_rep_def)
    have "{j. j < kQueuePriorityCount \<and> (\<exists>r. tell f sid i True r j)} = snd ` set (pq_insert k i ps)"
      using ps(2) assms(2) by (auto simp: tell_def)
    then have "sel_rep (tell f sid i True) (?c\<lparr>active_priorities := q\<rparr>)"
      using n cnt q(2) k(2) ps(1) by (auto simp: sel_rep_def active_rep_def intro!: exI [of _ "pq_insert k i ps"])
    then show ?thesis using n(2) assms(2) q(1) k(1) \<open>?n = 0\<close> by (simp add: WorkQueueSetBecameNonEmpty_def)
  qed
qed

lemma BecameEmpty_ok:
  assumes "sel_rep f c" "i < kQueuePriorityCount" "f sid i"
  shows "\<exists>c'. WorkQueueSetBecameEmpty i c = Some c' \<and> sel_rep (tell f sid i False) c'
    \<and> selection_count c' = selection_count c"
proof -
  obtain ps where ps: "active_rep c ps" "snd ` set ps = {i. i < kQueuePriorityCount \<and> (\<exists>sid. f sid i)}"
    using assms(1) by (auto simp: sel_rep_def)
  let ?n = "non_empty_set_counts c ! i" and ?c = "c\<lparr>non_empty_set_counts := (non_empty_set_counts c)[i := non_empty_set_counts c ! i - 1]\<rparr>"
  have n: "?n = of_bool (f delayed_sets i) + of_bool (f immediate_sets i)" "length (non_empty_set_counts c) = kQueuePriorityCount" "count_ok c"
    using assms by (auto simp: sel_rep_def)
  have cnt: "\<forall>j < kQueuePriorityCount. non_empty_set_counts ?c ! j
      = of_bool (tell f sid i False delayed_sets j) + of_bool (tell f sid i False immediate_sets j)"
    using tell_counts [OF assms(1,2), of sid False] assms(3) by simp
  show ?thesis
  proof (cases "\<exists>r. tell f sid i False r i")
    case True
    then have "?n = 2" using n(1) assms(3) by (cases sid) (auto simp: set_id_ex tell_def split: if_splits)
    moreover have "{j. j < kQueuePriorityCount \<and> (\<exists>r. tell f sid i False r j)} = snd ` set ps"
      using True ps(2) assms(2) unfolding set_id_ex by (cases sid) (auto simp: tell_def)
    then have "sel_rep (tell f sid i False) ?c"
      using n cnt ps(1) by (auto simp: sel_rep_def active_rep_def intro!: exI [of _ ps])
    ultimately show ?thesis using n(2) assms(2) by (simp add: WorkQueueSetBecameEmpty_def)
  next
    case False
    then have "?n = 1" using n(1) assms(3) unfolding set_id_ex by (cases sid) (auto simp: tell_def)
    have old: "i \<in> snd ` set ps" using assms(2,3) ps(2) by auto
    obtain q where q: "spq_erase (active_priorities c) i = Some q" "spq_rep q (filter (\<lambda>p. snd p \<noteq> i) ps)"
      using spq_erase_ok [OF _ old, of "active_priorities c"] ps(1) by (auto simp: active_rep_def)
    have "snd ` set (filter (\<lambda>p. snd p \<noteq> i) ps) = snd ` set ps - {i}" by auto
    also have "\<dots> = {j. j < kQueuePriorityCount \<and> (\<exists>r. tell f sid i False r j)}"
      using False ps(2) unfolding set_id_ex by (cases sid) (auto simp: tell_def split: if_splits)
    finally have "sel_rep (tell f sid i False) (?c\<lparr>active_priorities := q\<rparr>)"
      using n(2,3) cnt q(2) ps(1) by (intro sel_repI [where ps = "filter (\<lambda>p. snd p \<noteq> i) ps"]) (auto simp: active_rep_def)
    then show ?thesis using n(2) assms(2) q(1) \<open>?n = 1\<close> by (simp add: WorkQueueSetBecameEmpty_def)
  qed
qed

section \<open>The heaps of the sets\<close>

lemma view_simps [simp]:
  "h_heap (heap_view s sid i) = heaps s sid ! i" "h_handle (heap_view s sid i) w = wq_heap_handle (queues s w)"
  by (simp_all add: heap_view_def)

lemma store_simps [simp]:
  "heaps (heap_store s sid i h) = (heaps s)(sid := (heaps s sid)[i := h_heap h])"
  "queues (heap_store s sid i h) w = (queues s w)\<lparr>wq_heap_handle := h_handle h w\<rparr>"
  "sel (heap_store s sid i h) = sel s"
  by (simp_all add: heap_store_def)

lemma set_heap_empty_iff [simp]: "set_heap_empty sid i s \<longleftrightarrow> heaps s sid ! i = []"
  by (simp add: set_heap_empty_def heap_empty_def)

text \<open>Nothing but heaps, handles and the bookkeeping of the observer changes.\<close>

definition sets_only :: "'z work_state_scheme \<Rightarrow> 'z work_state_scheme \<Rightarrow> bool" where
  "sets_only s s' \<longleftrightarrow>
     (\<exists>hs hn a n. s' = s\<lparr>heaps := hs, queues := (\<lambda>w. (queues s w)\<lparr>wq_heap_handle := hn w\<rparr>),
        sel := (sel s)\<lparr>active_priorities := a, non_empty_set_counts := n\<rparr>\<rparr>)"

lemma sets_onlyI [intro]:
  "s' = s\<lparr>heaps := hs, queues := (\<lambda>w. (queues s w)\<lparr>wq_heap_handle := hn w\<rparr>),
     sel := (sel s)\<lparr>active_priorities := a, non_empty_set_counts := n\<rparr>\<rparr> \<Longrightarrow> sets_only s s'"
  unfolding sets_only_def by blast

lemma sets_onlyE:
  assumes "sets_only s s'"
  obtains hs hn a n where "s' = s\<lparr>heaps := hs, queues := (\<lambda>w. (queues s w)\<lparr>wq_heap_handle := hn w\<rparr>),
     sel := (sel s)\<lparr>active_priorities := a, non_empty_set_counts := n\<rparr>\<rparr>"
  using assms unfolding sets_only_def by blast

lemma sets_onlyD:
  assumes "sets_only s s'"
  shows "ready (queues s' w) = ready (queues s w)" "queue_ok (queues s' w) = queue_ok (queues s w)"
    "front (queues s' w) = front (queues s w)" "wq_sets (queues s' w) = wq_sets (queues s w)"
    "wq_set_index (queues s' w) = wq_set_index (queues s w)" "wq_tasks (queues s' w) = wq_tasks (queues s w)"
    "wq_fence (queues s' w) = wq_fence (queues s w)" "work_state.more s' = work_state.more s"
    "last_rand s' = last_rand s" "selection_count (sel s') = selection_count (sel s)"
    "anti_starvation_disabled (sel s') = anti_starvation_disabled (sel s)"
    "immediate_starvation_count (sel s') = immediate_starvation_count (sel s)"
    "random_task_selection (sel s') = random_task_selection (sel s)"
  by (rule sets_onlyE [OF assms]; simp)+

lemma sets_only_refl [simp]: "sets_only s s"
  by (rule sets_onlyI [where hn = "\<lambda>w. wq_heap_handle (queues s w)" and hs = "heaps s"
        and a = "active_priorities (sel s)" and n = "non_empty_set_counts (sel s)"]) simp

lemma sets_only_store [simp]: "sets_only s (heap_store s sid i h)"
  by (rule sets_onlyI [where hn = "h_handle h" and hs = "heaps (heap_store s sid i h)"
        and a = "active_priorities (sel s)" and n = "non_empty_set_counts (sel s)"]) (simp add: heap_store_def)

lemma sets_only_trans:
  assumes "sets_only s t" "sets_only t u"
  shows "sets_only s u"
  by (rule sets_onlyE [OF assms(1)], rule sets_onlyE [OF assms(2)]) (rule sets_onlyI, simp)

text \<open>A change of one heap, which adds, moves or removes one queue.\<close>

lemma sets_repD:
  assumes "sets_rep s reg"
  shows "length (heaps s sid) = kQueuePriorityCount"
    "i < kQueuePriorityCount \<Longrightarrow> oldest_wf (heap_view s sid i)"
    "i < kQueuePriorityCount \<Longrightarrow> set (heaps s sid ! i) = {(k, w). reg w = Some (sid, i, k)}"
    "reg w = Some (sid, i, k) \<Longrightarrow> i < kQueuePriorityCount"
    "wq_heap_handle (queues s w) = None \<longleftrightarrow> reg w = None"
  using assms unfolding sets_rep_def by blast+

lemma reg_non_empty: "sets_rep s reg \<Longrightarrow> reg w = Some (sid, i, k) \<Longrightarrow> heaps s sid ! i \<noteq> []"
  using sets_repD(3,4) [of s reg] by (metis (mono_tags, lifting) case_prodI empty_iff list.set(1) mem_Collect_eq)

lemma keptD:
  assumes "kept hid h k h'" "j \<noteq> k"
  shows "j \<notin> hid ` set (h_heap h) \<Longrightarrow> h_handle h' j = h_handle h j" "h_handle h' j = None \<longleftrightarrow> h_handle h j = None"
  using assms by (simp_all add: kept_def)

lemma store_rep:
  assumes "sets_rep s reg" "i < kQueuePriorityCount" "oldest_wf h"
    and set: "set (h_heap h) = {(k, v). (reg(w := r)) v = Some (sid, i, k)}"
    and kept: "kept snd (heap_view s sid i) w h" and hd: "h_handle h w = None \<longleftrightarrow> r = None"
    and old: "reg w = None \<or> (\<exists>k. reg w = Some (sid, i, k))" and new: "r = None \<or> (\<exists>k. r = Some (sid, i, k))"
  shows "sets_rep (heap_store s sid i h) (reg(w := r))"
  unfolding sets_rep_def
proof (intro conjI allI impI)
  note rep = sets_repD [OF assms(1)]
  fix tid j assume j: "j < kQueuePriorityCount"
  show "oldest_wf (heap_view (heap_store s sid i h) tid j)"
  proof (cases "tid = sid \<and> j = i")
    case True
    then have "heap_view (heap_store s sid i h) tid j = h"
      using rep(1) assms(2) by (simp add: heap_view_def)
    then show ?thesis using assms(3) by simp
  next
    case False
    have "h_handle h (snd x) = wq_heap_handle (queues s (snd x))" if "x \<in> set (heaps s tid ! j)" for x
    proof -
      from that rep(3) [OF j] have "reg (snd x) = Some (tid, j, fst x)" by auto
      with old False have "snd x \<noteq> w" by auto
      moreover have "snd x \<notin> snd ` set (heaps s sid ! i)"
        using rep(3) [OF assms(2), of sid] \<open>reg (snd x) = _\<close> False by auto
      ultimately show ?thesis using keptD(1) [OF kept] by simp
    qed
    then have "oldest_wf (heap_view (heap_store s sid i h) tid j) = oldest_wf (heap_view s tid j)"
      using False by (intro shared_wf_cong) auto
    then show ?thesis using rep(2) [OF j] by simp
  qed
  show "set (heaps (heap_store s sid i h) tid ! j) = {(k, v). (reg(w := r)) v = Some (tid, j, k)}"
  proof (cases "tid = sid \<and> j = i")
    case True
    then show ?thesis using set rep(1) [of sid] assms(2) by simp
  next
    case False
    then show ?thesis using rep(3) [OF j, of tid] old new by auto
  qed
next
  note rep = sets_repD [OF assms(1)]
  show "length (heaps (heap_store s sid i h) tid) = kQueuePriorityCount" for tid using rep(1) by simp
  show "j < kQueuePriorityCount" if "(reg(w := r)) v = Some (tid, j, k)" for v tid j k
    using that rep(4) [of v tid j k] new assms(2) by (auto split: if_splits)
  show "wq_heap_handle (queues (heap_store s sid i h) v) = None \<longleftrightarrow> (reg(w := r)) v = None" for v
    using keptD(2) [OF kept, of v] hd rep(5) [of v] by (cases "v = w") auto
qed

lemma insert_rep:
  assumes "sets_rep s reg" "i < kQueuePriorityCount" "reg w = None"
  shows "\<exists>h. set_heap_insert sid i (k, w) s = Some (heap_store s sid i h)
    \<and> sets_rep (heap_store s sid i h) (reg(w \<mapsto> (sid, i, k))) \<and> h_heap h \<noteq> []"
proof -
  note rep = sets_repD [OF assms(1)]
  have "h_handle (heap_view s sid i) (snd (k, w)) = None" using rep(5) assms(3) by simp
  from min_heap.shared_insert [OF rep(2) [OF assms(2)] this] obtain h p where
    h: "InsertImpl older snd (heap_view s sid i) (k, w) = Some (h, p)" "oldest_wf h"
      "set (h_heap h) = insert (k, w) (set (heaps s sid ! i))" "h_handle h w \<noteq> None" "kept snd (heap_view s sid i) w h" by auto
  have "set (h_heap h) = {(m, v). (reg(w \<mapsto> (sid, i, k))) v = Some (sid, i, m)}"
    unfolding h(3) rep(3) [OF assms(2)] using assms(3) by auto
  from store_rep [OF assms(1,2) h(2) this h(5)] h(1,3,4) assms(3) show ?thesis
    by (intro exI [of _ h]) (auto simp: set_heap_insert_def)
qed

lemma erase_rep:
  assumes "sets_rep s reg" "reg w = Some (sid, i, k)"
  shows "\<exists>h. set_heap_erase sid i (wq_heap_handle (queues s w)) s = Some (heap_store s sid i h)
    \<and> sets_rep (heap_store s sid i h) (reg(w := None)) \<and> h_handle h w = None"
proof -
  note rep = sets_repD [OF assms(1)]
  have i: "i < kQueuePriorityCount" using rep(4) [OF assms(2)] .
  obtain p where p: "wq_heap_handle (queues s w) = Some p" using rep(5) [of w] assms(2) by auto
  have "(k, w) \<in> set (h_heap (heap_view s sid i))" using rep(3) [OF i, of sid] assms(2) by simp
  from min_heap.shared_erase [OF rep(2) [OF i] this, of p] p obtain h where
    h: "heap_erase older snd (heap_view s sid i) p = Some h" "oldest_wf h"
      "set (h_heap h) = set (heaps s sid ! i) - {(k, w)}" "h_handle h w = None" "kept snd (heap_view s sid i) w h" by auto
  have "set (h_heap h) = {(m, v). (reg(w := None)) v = Some (sid, i, m)}"
    unfolding h(3) rep(3) [OF i] using assms(2) by auto
  from store_rep [OF assms(1) i h(2) this h(5)] h(1,4) assms(2) p show ?thesis
    by (intro exI [of _ h]) (auto simp: set_heap_erase_def)
qed

lemma rekey_rep:
  assumes "sets_rep s reg" "reg w = Some (sid, i, k)"
    and op: "op = set_heap_ChangeKey sid i (wq_heap_handle (queues s w)) (m, w) s
      \<or> (wq_heap_handle (queues s w) = Some 0 \<and> op = set_heap_ReplaceMin sid i (m, w) s)"
  shows "\<exists>h. op = Some (heap_store s sid i h)
    \<and> sets_rep (heap_store s sid i h) (reg(w \<mapsto> (sid, i, m))) \<and> h_heap h \<noteq> []"
proof -
  note rep = sets_repD [OF assms(1)]
  have i: "i < kQueuePriorityCount" using rep(4) [OF assms(2)] .
  obtain p where p: "wq_heap_handle (queues s w) = Some p" using rep(5) [of w] assms(2) by auto
  have "(k, w) \<in> set (h_heap (heap_view s sid i))" using rep(3) [OF i, of sid] assms(2) by simp
  note rk = min_heap.shared_rekey [OF rep(2) [OF i] this, of p "(m, w)", simplified, OF p]
  obtain h where h: "op = Some (heap_store s sid i h)" "oldest_wf h"
      "set (h_heap h) = insert (m, w) (set (heaps s sid ! i) - {(k, w)})" "h_handle h w \<noteq> None" "kept snd (heap_view s sid i) w h"
    using op
  proof
    assume *: "op = set_heap_ChangeKey sid i (wq_heap_handle (queues s w)) (m, w) s"
    show ?thesis
      using rk [of "ReplaceImpl older snd (heap_view s sid i) p (m, w)"] * p that
      by (auto simp: set_heap_ChangeKey_def)
  next
    assume *: "wq_heap_handle (queues s w) = Some 0 \<and> op = set_heap_ReplaceMin sid i (m, w) s"
    show ?thesis
      using rk [of "ReplaceTopImpl older snd (heap_view s sid i) (m, w)"] * p that
      by (auto simp: set_heap_ReplaceMin_def)
  qed
  have "set (h_heap h) = {(j, v). (reg(w \<mapsto> (sid, i, m))) v = Some (sid, i, j)}"
    unfolding h(3) rep(3) [OF i] using assms(2) by auto
  from store_rep [OF assms(1) i h(2) this h(5)] h(1,3,4) assms(2) show ?thesis
    by (intro exI [of _ h]) auto
qed

section \<open>The operations of the sets\<close>

definition consistent :: "'z work_state_scheme \<Rightarrow> (wq_ptr \<Rightarrow> (set_id \<times> nat \<times> nat) option) \<Rightarrow> bool" where
  "consistent s reg \<longleftrightarrow> sets_rep s reg \<and> sel_rep (non_empty s) (sel s)"

lemma sel_rep_cong: "(\<And>sid i. i < kQueuePriorityCount \<Longrightarrow> f sid i = g sid i) \<Longrightarrow> sel_rep f c = sel_rep g c"
  unfolding sel_rep_def by (simp cong: conj_cong)

lemma sets_rep_cong: "heaps s' = heaps s \<Longrightarrow> queues s' = queues s \<Longrightarrow> sets_rep s' reg = sets_rep s reg"
  by (simp add: sets_rep_def heap_view_def)

lemma tell_same: "f sid i = b \<Longrightarrow> tell f sid i b = f"
  by (auto simp: tell_def fun_eq_iff)

lemma sel_fields:
  "WorkQueueSetBecameEmpty i c = Some c' \<Longrightarrow> \<exists>a n. c' = c\<lparr>active_priorities := a, non_empty_set_counts := n\<rparr>"
  "WorkQueueSetBecameNonEmpty i c = Some c' \<Longrightarrow> \<exists>a n. c' = c\<lparr>active_priorities := a, non_empty_set_counts := n\<rparr>"
  by (auto simp: WorkQueueSetBecameEmpty_def WorkQueueSetBecameNonEmpty_def Let_def split: bind_splits if_splits
      intro!: exI [of _ "active_priorities c'"] exI [of _ "non_empty_set_counts c'"])

lemma sets_only_sel:
  "c' = (sel s)\<lparr>active_priorities := a, non_empty_set_counts := n\<rparr> \<Longrightarrow> sets_only s (s\<lparr>sel := c'\<rparr>)"
  by (rule sets_onlyI [where hn = "\<lambda>w. wq_heap_handle (queues s w)" and hs = "heaps s" and a = a and n = n]) simp

lemma notify_non_empty_ok:
  assumes "sel_rep f (sel s)" "i < kQueuePriorityCount" "b \<longleftrightarrow> \<not> f sid i"
  shows "\<exists>s'. (if b then notify_non_empty i s else Some s) = Some s' \<and> sel_rep (tell f sid i True) (sel s')
    \<and> heaps s' = heaps s \<and> queues s' = queues s \<and> sets_only s s'"
proof (cases "f sid i")
  case True
  then show ?thesis using assms tell_same [of f sid i True] by auto
next
  case False
  from BecameNonEmpty_ok [OF assms(1,2) False] obtain c where
    c: "WorkQueueSetBecameNonEmpty i (sel s) = Some c" "sel_rep (tell f sid i True) c" by auto
  then show ?thesis
    using False assms(3) sel_fields(2) [OF c(1)] sets_only_sel [of c] by (auto simp: notify_non_empty_def)
qed

lemma notify_empty_ok:
  assumes "sel_rep f (sel s)" "i < kQueuePriorityCount" "f sid i"
  shows "\<exists>s'. (if b then notify_empty i s else Some s) = Some s' \<and> sel_rep (tell f sid i (\<not> b)) (sel s')
    \<and> heaps s' = heaps s \<and> queues s' = queues s \<and> sets_only s s'"
proof (cases b)
  case False
  then show ?thesis using assms tell_same [of f sid i True] by auto
next
  case True
  from BecameEmpty_ok [OF assms] obtain c where
    c: "WorkQueueSetBecameEmpty i (sel s) = Some c" "sel_rep (tell f sid i False) c" by auto
  then show ?thesis
    using True sel_fields(1) [OF c(1)] sets_only_sel [of c] by (auto simp: notify_empty_def)
qed

lemma consistent_inserted:
  assumes "consistent s reg" "i < kQueuePriorityCount" "sets_rep (heap_store s sid i h) reg'" "h_heap h \<noteq> []"
  shows "\<exists>s'. (if heaps s sid ! i = [] then notify_non_empty i (heap_store s sid i h) else Some (heap_store s sid i h)) = Some s'
    \<and> consistent s' reg' \<and> sets_only s s'"
proof -
  let ?s = "heap_store s sid i h"
  have "length (heaps s sid) = kQueuePriorityCount" using assms(1) sets_repD(1) unfolding consistent_def by blast
  then have eq: "sel_rep (tell (non_empty s) sid i True) c = sel_rep (non_empty ?s) c" for c
    using assms(2,4) by (intro sel_rep_cong) (auto simp: tell_def nth_list_update)
  obtain s' where "(if heaps s sid ! i = [] then notify_non_empty i ?s else Some ?s) = Some s'"
    "sel_rep (non_empty ?s) (sel s')" "heaps s' = heaps ?s" "queues s' = queues ?s" "sets_only ?s s'"
    using notify_non_empty_ok [of "non_empty s" ?s i _ sid] assms(1,2) unfolding eq by (auto simp: consistent_def)
  then show ?thesis
    using assms(3) sets_only_trans [OF sets_only_store] sets_rep_cong [of s' ?s reg'] by (auto simp: consistent_def)
qed

lemma consistent_erased:
  assumes "consistent s reg" "reg w = Some (sid, i, k)" "sets_rep (heap_store s sid i h) reg'"
  shows "\<exists>s'. (if h_heap h = [] then notify_empty i (heap_store s sid i h) else Some (heap_store s sid i h)) = Some s'
    \<and> consistent s' reg' \<and> sets_only s s' \<and> wq_heap_handle (queues s' w) = h_handle h w"
proof -
  let ?s = "heap_store s sid i h"
  have rep: "sets_rep s reg" using assms(1) by (simp add: consistent_def)
  have i: "i < kQueuePriorityCount" using sets_repD(4) [OF rep assms(2)] .
  have ne: "heaps s sid ! i \<noteq> []" using reg_non_empty [OF rep assms(2)] .
  have "length (heaps s sid) = kQueuePriorityCount" using sets_repD(1) [OF rep] .
  then have eq: "sel_rep (tell (non_empty s) sid i (h_heap h \<noteq> [])) c = sel_rep (non_empty ?s) c" for c
    using i by (intro sel_rep_cong) (auto simp: tell_def nth_list_update)
  obtain s' where "(if h_heap h = [] then notify_empty i ?s else Some ?s) = Some s'"
    "sel_rep (non_empty ?s) (sel s')" "heaps s' = heaps ?s" "queues s' = queues ?s" "sets_only ?s s'"
    using notify_empty_ok [of "non_empty s" ?s i sid "h_heap h = []"] assms(1) i ne unfolding eq by (auto simp: consistent_def)
  then show ?thesis
    using assms(3) sets_only_trans [OF sets_only_store] sets_rep_cong [of s' ?s reg'] by (auto simp: consistent_def)
qed

lemma consistent_rekeyed:
  assumes "consistent s reg" "reg w = Some (sid, i, k)" "sets_rep (heap_store s sid i h) reg'" "h_heap h \<noteq> []"
  shows "consistent (heap_store s sid i h) reg'"
proof -
  have rep: "sets_rep s reg" using assms(1) by (simp add: consistent_def)
  have i: "i < kQueuePriorityCount" using sets_repD(4) [OF rep assms(2)] .
  have ne: "heaps s sid ! i \<noteq> []" using reg_non_empty [OF rep assms(2)] .
  have "length (heaps s sid) = kQueuePriorityCount" using sets_repD(1) [OF rep] .
  then have "sel_rep (non_empty s) c = sel_rep (non_empty (heap_store s sid i h)) c" for c
    using i ne assms(4) by (intro sel_rep_cong) (auto simp: nth_list_update)
  with assms show ?thesis by (simp add: consistent_def)
qed

lemma OnTaskPushedToEmptyQueue_ok:
  assumes "consistent s reg" "queue_ok (queues s w)" "wq_sets (queues s w) = Some sid"
    "front (queues s w) = Some k" "reg w = None"
  shows "\<exists>s'. OnTaskPushedToEmptyQueue sid w s = Some s'
    \<and> consistent s' (reg(w := ready (queues s w))) \<and> sets_only s s'"
proof -
  let ?i = "wq_set_index (queues s w)"
  have rep: "sets_rep s reg" and i: "?i < kQueuePriorityCount"
    using assms(1,2) by (auto simp: consistent_def queue_ok_def)
  have r: "ready (queues s w) = Some (sid, ?i, k)" using assms(3,4) by (simp add: ready_def)
  from insert_rep [OF rep i assms(5), of sid k] obtain h where
    h: "set_heap_insert sid ?i (k, w) s = Some (heap_store s sid ?i h)"
      "sets_rep (heap_store s sid ?i h) (reg(w := ready (queues s w)))" "h_heap h \<noteq> []" by (auto simp: r)
  from consistent_inserted [OF assms(1) i h(2,3)] h(1) assms i sets_repD(5) [OF rep, of w] show ?thesis
    by (auto simp: OnTaskPushedToEmptyQueue_def)
qed

lemma OnQueuesFrontTaskChanged_ok:
  assumes "consistent s reg" "queue_ok (queues s w)" "wq_sets (queues s w) = Some sid"
    "reg w = Some (sid, wq_set_index (queues s w), k)"
  shows "\<exists>s'. OnQueuesFrontTaskChanged sid w s = Some s'
    \<and> consistent s' (reg(w := ready (queues s w))) \<and> sets_only s s'"
proof -
  let ?i = "wq_set_index (queues s w)"
  have rep: "sets_rep s reg" and i: "?i < kQueuePriorityCount"
    using assms(1,2) by (auto simp: consistent_def queue_ok_def)
  have ne: "heaps s sid ! ?i \<noteq> []" using reg_non_empty [OF rep assms(4)] .
  have hd: "wq_heap_handle (queues s w) \<noteq> None" using sets_repD(5) [OF rep, of w] assms(4) by simp
  show ?thesis
  proof (cases "front (queues s w)")
    case None
    then have r: "ready (queues s w) = None" using assms(3) by (simp add: ready_def)
    from erase_rep [OF rep assms(4)] obtain h where
      h: "set_heap_erase sid ?i (wq_heap_handle (queues s w)) s = Some (heap_store s sid ?i h)"
        "sets_rep (heap_store s sid ?i h) (reg(w := ready (queues s w)))" "h_handle h w = None" by (auto simp: r)
    from consistent_erased [OF assms(1,4) h(2)] h(1,3) assms(2,3) i hd ne None sets_repD(1) [OF rep, of sid] show ?thesis
      by (auto simp: OnQueuesFrontTaskChanged_def)
  next
    case (Some m)
    then have r: "ready (queues s w) = Some (sid, ?i, m)" using assms(3) by (simp add: ready_def)
    from rekey_rep [OF rep assms(4), of _ m] obtain h where
      h: "set_heap_ChangeKey sid ?i (wq_heap_handle (queues s w)) (m, w) s = Some (heap_store s sid ?i h)"
        "sets_rep (heap_store s sid ?i h) (reg(w := ready (queues s w)))" "h_heap h \<noteq> []" by (auto simp: r)
    from consistent_rekeyed [OF assms(1,4) h(2,3)] h(1) assms(2,3) i hd ne Some show ?thesis
      by (auto simp: OnQueuesFrontTaskChanged_def)
  qed
qed

lemma OnQueueBlocked_ok:
  assumes "consistent s reg" "queue_ok (queues s w)" "wq_sets (queues s w) = Some sid"
    "reg w = None \<or> (\<exists>k. reg w = Some (sid, wq_set_index (queues s w), k))"
  shows "\<exists>s'. OnQueueBlocked sid w s = Some s' \<and> consistent s' (reg(w := None)) \<and> sets_only s s'"
proof -
  let ?i = "wq_set_index (queues s w)"
  have rep: "sets_rep s reg" and i: "?i < kQueuePriorityCount"
    using assms(1,2) by (auto simp: consistent_def queue_ok_def)
  show ?thesis
  proof (cases "reg w")
    case None
    then have "reg(w := None) = reg" by (rule fun_upd_idem)
    then show ?thesis using assms(1,3) None sets_repD(5) [OF rep, of w] by (simp add: OnQueueBlocked_def)
  next
    case (Some x)
    then obtain k where k: "reg w = Some (sid, ?i, k)" using assms(4) by auto
    from erase_rep [OF rep k] obtain h where
      h: "set_heap_erase sid ?i (wq_heap_handle (queues s w)) s = Some (heap_store s sid ?i h)"
        "sets_rep (heap_store s sid ?i h) (reg(w := None))" by auto
    from consistent_erased [OF assms(1) k h(2)] h(1) assms(3) i Some sets_repD(5) [OF rep, of w] sets_repD(1) [OF rep, of sid]
    show ?thesis by (auto simp: OnQueueBlocked_def)
  qed
qed

lemma set_queue_simps [simp]:
  "queues (set_queue w q s) = (queues s)(w := q)" "heaps (set_queue w q s) = heaps s" "sel (set_queue w q s) = sel s"
  by (simp_all add: set_queue_def)

lemma consistent_set_queue:
  assumes "wq_heap_handle q = wq_heap_handle (queues s w)"
  shows "consistent (set_queue w q s) reg = consistent s reg"
proof -
  have "heap_view (set_queue w q s) sid i = heap_view s sid i" for sid i
    using assms by (auto simp: heap_view_def fun_eq_iff)
  moreover have "wq_heap_handle (queues (set_queue w q s) v) = wq_heap_handle (queues s v)" for v
    using assms by simp
  ultimately show ?thesis unfolding consistent_def sets_rep_def by (simp del: set_queue_simps(1))
qed

lemma sets_AddQueue_ok:
  fixes sid :: set_id
  assumes "consistent s reg" "queue_ok (queues s w)" "wq_sets (queues s w) = None" "reg w = None" "i < kQueuePriorityCount"
  defines "q \<equiv> (queues s w)\<lparr>wq_sets := Some sid, wq_set_index := i\<rparr>"
  shows "\<exists>s'. sets_AddQueue sid w i s = Some s' \<and> consistent s' (reg(w := ready q)) \<and> sets_only (set_queue w q s) s'"
proof -
  let ?s = "set_queue w q s"
  have s: "AssignSetIndex w i (AssignToWorkQueueSets w (Some sid) s) = ?s"
    by (simp add: AssignSetIndex_def AssignToWorkQueueSets_def set_queue_def q_def)
  have c: "consistent ?s reg" and hd: "wq_heap_handle (queues s w) = None"
    using assms(1,4) consistent_set_queue [of q s w reg] sets_repD(5) [of s reg w] by (auto simp: consistent_def q_def)
  show ?thesis
  proof (cases "front (queues s w)")
    case None
    then have "reg(w := ready q) = reg" using assms(4) by (auto simp: ready_def q_def intro!: fun_upd_idem)
    then show ?thesis using c None assms(2,3,5) hd s by (simp add: sets_AddQueue_def Let_def)
  next
    case (Some k)
    then have r: "ready q = Some (sid, i, k)" by (simp add: ready_def q_def)
    have "sets_rep ?s reg" using c by (simp add: consistent_def)
    from insert_rep [OF this assms(5,4), of sid k] obtain h where
      h: "set_heap_insert sid i (k, w) ?s = Some (heap_store ?s sid i h)"
        "sets_rep (heap_store ?s sid i h) (reg(w := ready q))" "h_heap h \<noteq> []" by (auto simp: r)
    from consistent_inserted [OF c assms(5) h(2,3)] h(1) Some assms(2,3,5) hd s show ?thesis
      by (auto simp: sets_AddQueue_def Let_def)
  qed
qed

lemma sets_RemoveQueue_ok:
  assumes "consistent s reg" "queue_ok (queues s w)" "wq_sets (queues s w) = Some sid"
    "reg w = None \<or> (\<exists>k. reg w = Some (sid, wq_set_index (queues s w), k))"
  defines "q \<equiv> (queues s w)\<lparr>wq_sets := None\<rparr>"
  shows "\<exists>s'. sets_RemoveQueue sid w s = Some s' \<and> consistent s' (reg(w := ready q)) \<and> sets_only (set_queue w q s) s'"
proof -
  let ?s = "set_queue w q s" and ?i = "wq_set_index (queues s w)"
  have s: "AssignToWorkQueueSets w None s = ?s" by (simp add: AssignToWorkQueueSets_def q_def)
  have c: "consistent ?s reg" using assms(1) consistent_set_queue [of q s w reg] by (simp add: q_def)
  then have rep: "sets_rep ?s reg" by (simp add: consistent_def)
  have r: "ready q = None" by (simp add: ready_def q_def)
  have i: "?i < kQueuePriorityCount" using assms(2) by (simp add: queue_ok_def)
  show ?thesis
  proof (cases "reg w")
    case None
    then have "reg(w := ready q) = reg" using r by (simp add: fun_upd_idem)
    then show ?thesis using c None assms(3) s sets_repD(5) [OF rep, of w] by (simp add: sets_RemoveQueue_def Let_def)
  next
    case (Some x)
    then obtain k where k: "reg w = Some (sid, ?i, k)" using assms(4) by auto
    from erase_rep [OF rep k] obtain h where
      h: "set_heap_erase sid ?i (wq_heap_handle q) ?s = Some (heap_store ?s sid ?i h)"
        "sets_rep (heap_store ?s sid ?i h) (reg(w := ready q))" "h_handle h w = None" by (auto simp: r)
    have "wq_heap_handle q \<noteq> None" "wq_set_index q = ?i" using sets_repD(5) [OF rep, of w] k by (simp_all add: q_def)
    with consistent_erased [OF c k h(2)] h(1,3) assms(3) i s sets_repD(1) [OF rep, of sid] show ?thesis
      by (auto simp: sets_RemoveQueue_def Let_def)
  qed
qed

lemma sets_ChangeSetIndex_ok:
  assumes "consistent s reg" "queue_ok (queues s w)" "wq_sets (queues s w) = Some sid" "reg w = ready (queues s w)"
    "i < kQueuePriorityCount" "i \<noteq> wq_set_index (queues s w)"
  defines "q \<equiv> (queues s w)\<lparr>wq_set_index := i\<rparr>"
  shows "\<exists>s'. sets_ChangeSetIndex sid w i s = Some s' \<and> consistent s' (reg(w := ready q)) \<and> sets_only (set_queue w q s) s'"
proof -
  let ?s = "set_queue w q s" and ?j = "wq_set_index (queues s w)"
  have s: "AssignSetIndex w i s = ?s" by (simp add: AssignSetIndex_def q_def)
  have c: "consistent ?s reg" using assms(1) consistent_set_queue [of q s w reg] by (simp add: q_def)
  then have rep: "sets_rep ?s reg" and sr: "sel_rep (non_empty ?s) (sel ?s)" by (simp_all add: consistent_def)
  have j: "?j < kQueuePriorityCount" using assms(2) by (simp add: queue_ok_def)
  have hd: "wq_heap_handle q = None \<longleftrightarrow> front (queues s w) = None"
    using sets_repD(5) [OF rep, of w] assms(3,4) by (simp add: ready_def)
  show ?thesis
  proof (cases "front (queues s w)")
    case None
    then have "reg(w := ready q) = reg" using assms(3,4) by (auto simp: ready_def q_def intro!: fun_upd_idem)
    then show ?thesis using c None assms(2,3,5,6) j hd s by (simp add: sets_ChangeSetIndex_def Let_def)
  next
    case (Some k)
    then have k: "reg w = Some (sid, ?j, k)" and r: "ready q = Some (sid, i, k)"
      using assms(3,4) by (simp_all add: ready_def q_def)
    from erase_rep [OF rep k] obtain h where
      h: "set_heap_erase sid ?j (wq_heap_handle q) ?s = Some (heap_store ?s sid ?j h)"
        "sets_rep (heap_store ?s sid ?j h) (reg(w := None))" by auto
    let ?t = "heap_store ?s sid ?j h"
    from insert_rep [OF h(2) assms(5), of w sid k] obtain g where
      g: "set_heap_insert sid i (k, w) ?t = Some (heap_store ?t sid i g)"
        "sets_rep (heap_store ?t sid i g) (reg(w := ready q))" "h_heap g \<noteq> []" by (auto simp: r)
    let ?u = "heap_store ?t sid i g"
    have len: "length (heaps s sid) = kQueuePriorityCount" using sets_repD(1) [OF rep, of sid] by simp
    have old: "heaps ?u sid ! ?j = h_heap h" "heaps ?t sid ! i = heaps s sid ! i" using len j assms(5,6) by simp_all
    obtain v where v: "(if h_heap h = [] then notify_empty ?j ?u else Some ?u) = Some v"
      "sel_rep (tell (non_empty ?s) sid ?j (h_heap h \<noteq> [])) (sel v)" "heaps v = heaps ?u" "queues v = queues ?u" "sets_only ?u v"
      using notify_empty_ok [of "non_empty ?s" ?u ?j sid "h_heap h = []"] sr j reg_non_empty [OF rep k] by auto
    obtain x where x: "(if heaps s sid ! i = [] then notify_non_empty i v else Some v) = Some x"
      "sel_rep (tell (tell (non_empty ?s) sid ?j (h_heap h \<noteq> [])) sid i True) (sel x)" "heaps x = heaps v" "queues x = queues v" "sets_only v x"
      using notify_non_empty_ok [OF v(2) assms(5), of "heaps s sid ! i = []" sid] assms(6) by (auto simp: tell_def)
    have "sel_rep (tell (tell (non_empty ?s) sid ?j (h_heap h \<noteq> [])) sid i True) (sel x) = sel_rep (non_empty x) (sel x)"
      using x(3) v(3) len j assms(5,6) g(3) by (intro sel_rep_cong) (auto simp: tell_def nth_list_update)
    then have "consistent x (reg(w := ready q))"
      using x v g(2) sets_rep_cong [of x ?u] by (simp add: consistent_def)
    moreover have "sets_only ?s x"
      using sets_only_trans [OF sets_only_trans [OF sets_only_trans [OF sets_only_store sets_only_store] v(5)] x(5)] .
    ultimately show ?thesis
      using h(1) g(1) v(1) x(1) Some assms(2,3,5,6) j hd s old by (auto simp: sets_ChangeSetIndex_def Let_def)
  qed
qed

section \<open>The operations of a queue\<close>

lemma work_okD:
  assumes "work_ok s"
  shows "queue_ok (queues s w)" "consistent s (\<lambda>w. ready (queues s w))"
    "wq_heap_handle (queues s w) = None \<longleftrightarrow> ready (queues s w) = None"
  using assms sets_repD(5) [of s "\<lambda>w. ready (queues s w)" w] unfolding work_ok_def consistent_def by blast+

text \<open>
  Queue \<open>w\<close> becomes \<open>q\<close> and the sets are told: the state is well-formed again when they hold what
  they should hold for \<open>q\<close>.
\<close>

lemma work_ok_change:
  assumes "work_ok s" "queue_ok q" "consistent s' ((\<lambda>v. ready (queues s v))(w := ready q))" "sets_only (set_queue w q s) s'"
  shows "work_ok s'"
proof -
  have "(\<lambda>v. ready (queues s' v)) = (\<lambda>v. ready (queues s v))(w := ready q)"
    by (rule ext) (simp add: sets_onlyD(1) [OF assms(4)])
  moreover have "queue_ok (queues s' v)" for v
    using assms(2) work_okD(1) [OF assms(1)] by (simp add: sets_onlyD(2) [OF assms(4)])
  ultimately show ?thesis using assms(3) by (simp add: work_ok_def consistent_def)
qed

lemma work_ok_silent:
  assumes "work_ok s" "queue_ok q" "wq_heap_handle q = wq_heap_handle (queues s w)" "ready q = ready (queues s w)"
  shows "work_ok (set_queue w q s)"
proof (rule work_ok_change [OF assms(1,2), of _ w])
  have "(\<lambda>v. ready (queues s v))(w := ready q) = (\<lambda>v. ready (queues s v))" using assms(4) by auto
  then show "consistent (set_queue w q s) ((\<lambda>v. ready (queues s v))(w := ready q))"
    using work_okD(2) [OF assms(1)] consistent_set_queue [OF assms(3)] by simp
qed simp

lemma work_ok_pushed:
  assumes "work_ok s" "queue_ok q" "wq_heap_handle q = wq_heap_handle (queues s w)" "wq_sets q = Some sid"
    "front q \<noteq> None" "ready (queues s w) = None"
  shows "\<exists>s'. OnTaskPushedToEmptyQueue sid w (set_queue w q s) = Some s' \<and> work_ok s' \<and> sets_only (set_queue w q s) s'"
proof -
  have "consistent (set_queue w q s) (\<lambda>v. ready (queues s v))"
    using work_okD(2) [OF assms(1)] consistent_set_queue [OF assms(3)] by simp
  from OnTaskPushedToEmptyQueue_ok [OF this, of w sid] assms obtain s' where
    "OnTaskPushedToEmptyQueue sid w (set_queue w q s) = Some s'"
    "consistent s' ((\<lambda>v. ready (queues s v))(w := ready q))" "sets_only (set_queue w q s) s'" by auto
  with work_ok_change [OF assms(1,2)] show ?thesis by blast
qed

lemma work_ok_front_changed:
  assumes "work_ok s" "queue_ok q" "wq_heap_handle q = wq_heap_handle (queues s w)"
    "wq_sets q = Some sid" "ready (queues s w) = Some (sid, wq_set_index q, k)"
  shows "\<exists>s'. OnQueuesFrontTaskChanged sid w (set_queue w q s) = Some s' \<and> work_ok s' \<and> sets_only (set_queue w q s) s'"
proof -
  have "consistent (set_queue w q s) (\<lambda>v. ready (queues s v))"
    using work_okD(2) [OF assms(1)] consistent_set_queue [OF assms(3)] by simp
  from OnQueuesFrontTaskChanged_ok [OF this, of w sid k] assms obtain s' where
    "OnQueuesFrontTaskChanged sid w (set_queue w q s) = Some s'"
    "consistent s' ((\<lambda>v. ready (queues s v))(w := ready q))" "sets_only (set_queue w q s) s'" by auto
  with work_ok_change [OF assms(1,2)] show ?thesis by blast
qed

lemma work_ok_blocked:
  assumes "work_ok s" "queue_ok q" "wq_heap_handle q = wq_heap_handle (queues s w)"
    "wq_sets q = Some sid" "wq_sets (queues s w) = Some sid" "wq_set_index q = wq_set_index (queues s w)" "front q = None"
  shows "\<exists>s'. OnQueueBlocked sid w (set_queue w q s) = Some s' \<and> work_ok s' \<and> sets_only (set_queue w q s) s'"
proof -
  have "consistent (set_queue w q s) (\<lambda>v. ready (queues s v))"
    using work_okD(2) [OF assms(1)] consistent_set_queue [OF assms(3)] by simp
  moreover have "ready (queues s w) = None \<or> (\<exists>k. ready (queues s w) = Some (sid, wq_set_index q, k))"
    using assms(5,6) by (auto simp: ready_def)
  moreover have "ready q = None" using assms(4,7) by (simp add: ready_def)
  ultimately obtain s' where
    "OnQueueBlocked sid w (set_queue w q s) = Some s'"
    "consistent s' ((\<lambda>v. ready (queues s v))(w := ready q))" "sets_only (set_queue w q s) s'"
    using OnQueueBlocked_ok [of "set_queue w q s" "\<lambda>v. ready (queues s v)" w sid] assms(2,4) by auto
  with work_ok_change [OF assms(1,2)] show ?thesis by blast
qed

abbreviation with_tasks :: "wq_ptr \<Rightarrow> closure task list \<Rightarrow> 'z work_state_scheme \<Rightarrow> 'z work_state_scheme" where
  "with_tasks w ts s \<equiv> set_queue w ((queues s w)\<lparr>wq_tasks := ts\<rparr>) s"

lemma queue_ok_tasks:
  "queue_ok q \<Longrightarrow> sorted (map enqueue_order_set_to ts) \<Longrightarrow> 0 \<notin> set (map enqueue_order_set_to ts) \<Longrightarrow> queue_ok (q\<lparr>wq_tasks := ts\<rparr>)"
  by (simp add: queue_ok_def)

lemma wq_Push_ok:
  assumes "work_ok s" "enqueue_order_set_to task \<noteq> 0" "\<forall>k \<in> set (orders (queues s w)). k < enqueue_order_set_to task"
  shows "\<exists>s'. wq_Push w task s = Some s' \<and> work_ok s' \<and> sets_only (with_tasks w (wq_tasks (queues s w) @ [task]) s) s'"
proof -
  let ?q = "(queues s w)\<lparr>wq_tasks := wq_tasks (queues s w) @ [task]\<rparr>"
  have ok: "queue_ok (queues s w)" using work_okD(1) [OF assms(1)] .
  have q: "queue_ok ?q"
    using ok assms(2,3) by (intro queue_ok_tasks) (auto simp: queue_ok_def sorted_append)
  have new: "enqueue_order task = Some (enqueue_order_set_to task)" using assms(2) by (simp add: enqueue_order_def)
  show ?thesis
  proof (cases "wq_tasks (queues s w) = []")
    case False
    then have last: "enqueue_order (last (wq_tasks (queues s w))) = Some (last (orders (queues s w)))"
        "last (orders (queues s w)) < enqueue_order_set_to task"
      using ok assms(3) last_in_set [OF False] by (auto simp: enqueue_order_def queue_ok_def last_map simp del: last_in_set)
    have "ready ?q = ready (queues s w)"
      using False by (cases "wq_tasks (queues s w)") (auto simp: ready_def front_def blocked_def split: option.split)
    from work_ok_silent [OF assms(1) q _ this] show ?thesis
      using False last new assms(2) by (simp add: wq_Push_def Let_def enqueue_order_set_def)
  next
    case True
    have r: "ready (queues s w) = None" using True by (auto simp: ready_def front_def split: option.split)
    show ?thesis
    proof (cases "wq_sets (queues s w)")
      case None
      then have "ready ?q = ready (queues s w)" by (simp add: ready_def)
      from work_ok_silent [OF assms(1) q _ this] show ?thesis
        using True None assms(2) by (simp add: wq_Push_def Let_def enqueue_order_set_def)
    next
      case (Some sid)
      show ?thesis
      proof (cases "blocked ?q")
        case True
        then have "ready ?q = ready (queues s w)" using r by (auto simp: ready_def front_def split: option.split)
        from work_ok_silent [OF assms(1) q _ this] show ?thesis
          using \<open>wq_tasks (queues s w) = []\<close> True Some q assms(2) by (simp add: wq_Push_def Let_def enqueue_order_set_def)
      next
        case False
        then have "front ?q \<noteq> None" by (simp add: front_def)
        from work_ok_pushed [OF assms(1) q _ _ this r, of sid] show ?thesis
          using \<open>wq_tasks (queues s w) = []\<close> False Some q assms(2) by (simp add: wq_Push_def Let_def enqueue_order_set_def)
      qed
    qed
  qed
qed

lemma ready_None: "wq_sets q = None \<Longrightarrow> ready q = None" "front q = None \<Longrightarrow> ready q = None"
  by (auto simp: ready_def split: option.split)

lemma ready_Some: "wq_sets q = Some sid \<Longrightarrow> front q = Some k \<Longrightarrow> ready q = Some (sid, wq_set_index q, k)"
  by (simp add: ready_def)

lemma ready_cong: "wq_sets q = wq_sets p \<Longrightarrow> wq_set_index q = wq_set_index p \<Longrightarrow> front q = front p \<Longrightarrow> ready q = ready p"
  by (simp add: ready_def split: option.split)

lemma front_None: "wq_tasks q = [] \<Longrightarrow> front q = None" "blocked q \<Longrightarrow> front q = None"
  by (simp_all add: front_def)

lemma front_Some: "wq_tasks q \<noteq> [] \<Longrightarrow> \<not> blocked q \<Longrightarrow> front q = Some (hd (orders q))"
  by (simp add: front_def)

lemma PushNonNestableTaskToFront_ok:
  assumes "work_ok s" "\<not> nestable task" "enqueue_order_set_to task \<noteq> 0"
    "\<forall>k \<in> set (orders (queues s w)). enqueue_order_set_to task \<le> k"
  shows "\<exists>s'. PushNonNestableTaskToFront w task s = Some s' \<and> work_ok s'
    \<and> sets_only (with_tasks w (task # wq_tasks (queues s w)) s) s'"
proof -
  let ?p = "queues s w" and ?q = "(queues s w)\<lparr>wq_tasks := task # wq_tasks (queues s w)\<rparr>"
  have ok: "queue_ok ?p" using work_okD(1) [OF assms(1)] .
  have q: "queue_ok ?q" using ok assms(3,4) by (intro queue_ok_tasks) (auto simp: queue_ok_def)
  have k: "enqueue_order task = Some (enqueue_order_set_to task)" using assms(3) by (simp add: enqueue_order_def)
  have f: "enqueue_order (hd (wq_tasks ?p)) = Some (hd (orders ?p)) \<and> enqueue_order_set_to task \<le> hd (orders ?p)" if "wq_tasks ?p \<noteq> []"
    using ok assms(4) hd_in_set [OF that] that by (cases "wq_tasks ?p") (auto simp: enqueue_order_def queue_ok_def)
  define r where "r = (case wq_sets ?p of None \<Rightarrow> Some (set_queue w ?q s) | Some sid \<Rightarrow>
    if blocked ?q then Some (set_queue w ?q s)
    else if wq_tasks ?p = [] \<or> blocked ?p then OnTaskPushedToEmptyQueue sid w (set_queue w ?q s)
    else OnQueuesFrontTaskChanged sid w (set_queue w ?q s))"
  have "PushNonNestableTaskToFront w task s = r"
    unfolding r_def using assms(2,3) ok q k f
    by (cases "wq_tasks ?p = []") (simp_all add: PushNonNestableTaskToFront_def Let_def enqueue_order_set_def split: option.split)
  moreover have "\<exists>s'. r = Some s' \<and> work_ok s' \<and> sets_only (set_queue w ?q s) s'"
  proof (cases "wq_sets ?p")
    case None
    then have "ready ?q = ready ?p" by (simp add: ready_None)
    from work_ok_silent [OF assms(1) q _ this] None show ?thesis by (simp add: r_def)
  next
    case (Some sid)
    show ?thesis
    proof (cases "blocked ?q")
      case True
      then have "wq_tasks ?p = [] \<or> blocked ?p" using f by (cases "wq_tasks ?p = []") (auto simp: blocked_def)
      with True have "ready ?q = ready ?p" by (auto simp: ready_None front_None)
      from work_ok_silent [OF assms(1) q _ this] Some True show ?thesis by (simp add: r_def)
    next
      case False
      then have fr: "front ?q \<noteq> None" by (simp add: front_def)
      show ?thesis
      proof (cases "wq_tasks ?p = [] \<or> blocked ?p")
        case True
        then have "ready ?p = None" by (auto simp: ready_None front_None)
        from work_ok_pushed [OF assms(1) q _ _ fr this, of sid] Some False True show ?thesis by (simp add: r_def)
      next
        case f': False
        then have "ready ?p = Some (sid, wq_set_index ?q, hd (orders ?p))" using ready_Some [OF Some] by (simp add: front_Some)
        from work_ok_front_changed [OF assms(1) q _ _ this] Some False f' show ?thesis by (simp add: r_def)
      qed
    qed
  qed
  ultimately show ?thesis by simp
qed

lemma wq_InsertFence_ok:
  assumes "work_ok s" "fence \<noteq> 0" "wq_fence (queues s w) \<le> fence \<or> fence = blocking_fence"
  defines "q \<equiv> (queues s w)\<lparr>wq_fence := fence\<rparr>"
  shows "\<exists>s'. wq_InsertFence w fence s = Some (ready (queues s w) = None \<and> ready q \<noteq> None, s') \<and> work_ok s'
    \<and> sets_only (set_queue w q s) s'"
proof -
  let ?p = "queues s w"
  have ok: "queue_ok ?p" using work_okD(1) [OF assms(1)] .
  then have q: "queue_ok q" by (simp add: q_def)
  have hd: "wq_heap_handle q = wq_heap_handle ?p" and tasks: "wq_tasks q = wq_tasks ?p" "wq_sets q = wq_sets ?p"
    "wq_set_index q = wq_set_index ?p" by (simp_all add: q_def)
  have impl: "InsertFenceImpl fence ?p = Some (blocked ?p, q)"
    using assms(2,3) ok by (simp add: InsertFenceImpl_def q_def)
  have empty: "wq_tasks ?p = [] \<Longrightarrow> blocked q" using assms(2) by (simp add: blocked_def q_def)
  show ?thesis
  proof (cases "wq_sets ?p")
    case None
    then have "ready q = None" "ready ?p = None" using tasks by (simp_all add: ready_None)
    with work_ok_silent [OF assms(1) q hd] None impl tasks show ?thesis
      by (simp add: wq_InsertFence_def)
  next
    case (Some sid)
    have sid: "wq_sets q = Some sid" using Some tasks by simp
    consider "wq_tasks ?p \<noteq> []" "blocked ?p" "\<not> blocked q" | "blocked q" | "\<not> blocked ?p" "\<not> blocked q" "wq_tasks ?p \<noteq> []"
      using empty by blast
    then show ?thesis
    proof cases
      case 1
      then have r: "ready ?p = None" "front q \<noteq> None" using tasks by (simp_all add: ready_None front_None front_Some)
      have "ready q \<noteq> None" using r(2) sid by (auto simp: ready_def)
      with work_ok_pushed [OF assms(1) q hd sid r(2,1)] 1 impl sid tasks q r show ?thesis
        by (auto simp: wq_InsertFence_def)
    next
      case 2
      then have "front q = None" "ready q = None" by (simp_all add: front_None ready_None)
      with work_ok_blocked [OF assms(1) q hd sid Some tasks(3)] 2 impl sid q show ?thesis
        by (auto simp: wq_InsertFence_def)
    next
      case 3
      then have "front q = front ?p" by (simp add: front_def q_def)
      then have eq: "ready q = ready ?p" using tasks by (intro ready_cong)
      with work_ok_silent [OF assms(1) q hd] 3 impl sid q show ?thesis by (auto simp: wq_InsertFence_def)
    qed
  qed
qed

lemma wq_RemoveFence_ok:
  fixes w :: wq_ptr
  assumes "work_ok s"
  defines "q \<equiv> (queues s w)\<lparr>wq_fence := enqueue_order_none\<rparr>"
  shows "\<exists>s'. wq_RemoveFence w s = Some (ready (queues s w) = None \<and> ready q \<noteq> None, s') \<and> work_ok s'
    \<and> sets_only (set_queue w q s) s'"
proof -
  let ?p = "queues s w"
  have ok: "queue_ok ?p" using work_okD(1) [OF assms(1)] .
  then have q: "queue_ok q" by (simp add: q_def)
  have hd: "wq_heap_handle q = wq_heap_handle ?p" and tasks: "wq_tasks q = wq_tasks ?p" "wq_sets q = wq_sets ?p"
    "wq_set_index q = wq_set_index ?p" "\<not> blocked q" by (simp_all add: q_def blocked_def enqueue_order_none_def)
  have un: "wq_RemoveFence w s = (case wq_sets q of None \<Rightarrow> Some (False, set_queue w q s) | Some sid \<Rightarrow>
      if wq_tasks q \<noteq> [] \<and> blocked ?p then do { s \<leftarrow> OnTaskPushedToEmptyQueue sid w (set_queue w q s); Some (True, s) }
      else Some (False, set_queue w q s))"
    using ok by (simp add: wq_RemoveFence_def q_def Let_def split: option.split)
  show ?thesis
  proof (cases "wq_sets q = None \<or> wq_tasks q = [] \<or> \<not> blocked ?p")
    case True
    have "ready q = ready ?p"
    proof (cases "wq_sets q = None \<or> wq_tasks q = []")
      case True
      then show ?thesis using tasks by (auto simp: ready_None front_None)
    next
      case False
      then have "front q = front ?p" using tasks True by (auto simp: front_def)
      then show ?thesis using tasks by (intro ready_cong)
    qed
    with work_ok_silent [OF assms(1) q hd] True show ?thesis unfolding un by (auto split: option.split)
  next
    case False
    then obtain sid where sid: "wq_sets q = Some sid" by auto
    have r: "ready ?p = None" "front q \<noteq> None" using False tasks by (auto simp: ready_None front_None front_Some)
    have "ready q \<noteq> None" using r(2) sid by (auto simp: ready_def)
    with work_ok_pushed [OF assms(1) q hd sid r(2,1)] False sid r(1) show ?thesis unfolding un by auto
  qed
qed

lemma wq_DeletePendingTasks_ok:
  assumes "work_ok s"
  shows "\<exists>s'. wq_DeletePendingTasks w s = Some s' \<and> work_ok s' \<and> sets_only (with_tasks w [] s) s'"
proof -
  let ?p = "queues s w" and ?q = "(queues s w)\<lparr>wq_tasks := []\<rparr>"
  have q: "queue_ok ?q" using work_okD(1) [OF assms, of w] by (simp add: queue_ok_def)
  have r: "ready ?q = None" by (simp add: ready_None front_None)
  have gone: "wq_heap_handle (queues s' w) = None" if "work_ok s'" "sets_only (set_queue w ?q s) s'" for s'
    using work_okD(3) [OF that(1), of w] sets_onlyD(1) [OF that(2), of w] r by simp
  show ?thesis
  proof (cases "ready ?p")
    case None
    then have "wq_heap_handle ?p = None" using work_okD(3) [OF assms] by simp
    moreover have "work_ok (set_queue w ?q s)" using work_ok_silent [OF assms q] None r by simp
    ultimately show ?thesis using gone by (auto simp: wq_DeletePendingTasks_def Let_def split: option.split)
  next
    case (Some x)
    then obtain sid k where sid: "wq_sets ?p = Some sid" and k: "ready ?p = Some (sid, wq_set_index ?p, k)"
      by (auto simp: ready_def split: option.splits)
    have "wq_heap_handle ?p \<noteq> None" using work_okD(3) [OF assms, of w] Some by simp
    with work_ok_front_changed [OF assms q, of w sid k] sid k gone show ?thesis
      by (auto simp: wq_DeletePendingTasks_def Let_def)
  qed
qed

section \<open>Queries and batches\<close>

lemma oldest_ok:
  assumes "work_ok s" "i < kQueuePriorityCount"
  shows "heaps s sid ! i = [] \<longleftrightarrow> (\<forall>w k. ready (queues s w) \<noteq> Some (sid, i, k))"
    and "heaps s sid ! i \<noteq> [] \<Longrightarrow> \<exists>k w. set_heap_Min sid i s = Some (k, w) \<and> ready (queues s w) = Some (sid, i, k)
      \<and> wq_heap_handle (queues s w) = Some 0 \<and> (\<forall>v m. ready (queues s v) = Some (sid, i, m) \<longrightarrow> k \<le> m)"
proof -
  have rep: "sets_rep s (\<lambda>w. ready (queues s w))" using assms(1) by (simp add: work_ok_def)
  note els = sets_repD(3) [OF rep assms(2), of sid]
  show "heaps s sid ! i = [] \<longleftrightarrow> (\<forall>w k. ready (queues s w) \<noteq> Some (sid, i, k))"
    using els by (metis (mono_tags, lifting) case_prodI case_prodE empty_iff list.set(1) list.set_intros(1) mem_Collect_eq neq_Nil_conv)
  assume "heaps s sid ! i \<noteq> []"
  with min_heap.shared_top [OF sets_repD(2) [OF rep assms(2)], of sid] obtain k w where
    x: "heap_top (heap_view s sid i) = Some (k, w)" "(k, w) \<in> set (heaps s sid ! i)" "wq_heap_handle (queues s w) = Some 0"
      "\<forall>y \<in> set (heaps s sid ! i). k \<le> fst y" by auto
  then show "\<exists>k w. set_heap_Min sid i s = Some (k, w) \<and> ready (queues s w) = Some (sid, i, k)
      \<and> wq_heap_handle (queues s w) = Some 0 \<and> (\<forall>v m. ready (queues s v) = Some (sid, i, m) \<longrightarrow> k \<le> m)"
    using els by (intro exI [of _ k] exI [of _ w]) (auto simp: set_heap_Min_def)
qed

lemma readyD:
  assumes "ready q = Some (sid, i, k)"
  shows "wq_sets q = Some sid" "wq_set_index q = i" "front q = Some k" "wq_tasks q \<noteq> []" "\<not> blocked q" "k = hd (orders q)"
  using assms by (auto simp: ready_def front_def split: option.splits if_splits)

lemma GetOldest_ok:
  assumes "work_ok s" "i < kQueuePriorityCount"
  shows "GetOldestQueueAndEnqueueOrderInSet sid i s
    = Some (if heaps s sid ! i = [] then None else map_option (\<lambda>(k, w). (w, k)) (set_heap_Min sid i s))"
    "GetOldestQueueInSet sid i s
    = Some (if heaps s sid ! i = [] then None else map_option snd (set_heap_Min sid i s))"
proof -
  have "heaps s sid ! i = [] \<or> (\<exists>k w. set_heap_Min sid i s = Some (k, w) \<and> wq_set_index (queues s w) = i
      \<and> front (queues s w) = Some k \<and> wq_heap_handle (queues s w) = Some 0)"
    using oldest_ok(2) [OF assms, of sid] readyD(2,3) by blast
  then show "GetOldestQueueAndEnqueueOrderInSet sid i s
    = Some (if heaps s sid ! i = [] then None else map_option (\<lambda>(k, w). (w, k)) (set_heap_Min sid i s))"
    "GetOldestQueueInSet sid i s
    = Some (if heaps s sid ! i = [] then None else map_option snd (set_heap_Min sid i s))"
    using assms(2) work_okD(1) [OF assms(1)]
    by (auto simp: GetOldestQueueAndEnqueueOrderInSet_def GetOldestQueueInSet_def Let_def)
qed

text \<open>Popping the oldest queue has the effect of announcing that its first task changed.\<close>

lemma OnPopMinQueueInSet_ok:
  assumes "consistent s reg" "queue_ok (queues s w)" "wq_sets (queues s w) = Some sid"
    "reg w = Some (sid, wq_set_index (queues s w), k)" "set_heap_Min sid (wq_set_index (queues s w)) s = Some (m, w)"
  shows "\<exists>s'. OnPopMinQueueInSet sid w s = Some s'
    \<and> consistent s' (reg(w := ready (queues s w))) \<and> sets_only s s'"
proof -
  let ?i = "wq_set_index (queues s w)"
  have rep: "sets_rep s reg" and i: "?i < kQueuePriorityCount"
    using assms(1,2) by (auto simp: consistent_def queue_ok_def)
  have ne: "heaps s sid ! ?i \<noteq> []" using reg_non_empty [OF rep assms(4)] .
  have hd: "wq_heap_handle (queues s w) = Some 0"
    using min_heap.shared_top [OF sets_repD(2) [OF rep i], of sid] ne assms(5) by (auto simp: set_heap_Min_def)
  show ?thesis
  proof (cases "front (queues s w)")
    case None
    then have r: "ready (queues s w) = None" using assms(3) by (simp add: ready_def)
    from erase_rep [OF rep assms(4)] obtain h where
      h: "set_heap_erase sid ?i (wq_heap_handle (queues s w)) s = Some (heap_store s sid ?i h)"
        "sets_rep (heap_store s sid ?i h) (reg(w := ready (queues s w)))" "h_handle h w = None" by (auto simp: r)
    have pop: "set_heap_Pop sid ?i s = Some (heap_store s sid ?i h)"
      using h(1) hd by (simp add: set_heap_Pop_def set_heap_erase_def heap_pop_def)
    have len: "length (heaps s sid) = kQueuePriorityCount" using sets_repD(1) [OF rep] .
    have min: "\<exists>x. set_heap_Min sid ?i (heap_store s sid ?i h) = Some x \<and> snd x \<noteq> w" if "h_heap h \<noteq> []"
      using min_heap.shared_top [OF sets_repD(2) [OF h(2) i], of sid] sets_repD(3) [OF h(2) i, of sid] that len i r
      by (auto simp: set_heap_Min_def)
    obtain s' where s': "(if h_heap h = [] then notify_empty ?i (heap_store s sid ?i h) else Some (heap_store s sid ?i h)) = Some s'"
      "consistent s' (reg(w := ready (queues s w)))" "sets_only s s'"
      using consistent_erased [OF assms(1,4) h(2)] by auto
    have "OnPopMinQueueInSet sid w s = Some s'"
      using s'(1) pop h(3) assms(2,3,5) i hd ne None len min
      by (cases "h_heap h = []") (auto simp: OnPopMinQueueInSet_def Let_def)
    with s' show ?thesis by blast
  next
    case (Some m)
    then have r: "ready (queues s w) = Some (sid, ?i, m)" using assms(3) by (simp add: ready_def)
    from rekey_rep [OF rep assms(4), of "set_heap_ReplaceMin sid ?i (m, w) s" m] hd obtain h where
      h: "set_heap_ReplaceMin sid ?i (m, w) s = Some (heap_store s sid ?i h)"
        "sets_rep (heap_store s sid ?i h) (reg(w := ready (queues s w)))" "h_heap h \<noteq> []" by (auto simp: r)
    from consistent_rekeyed [OF assms(1,4) h(2,3)] h(1) assms(2,3,5) i hd ne Some show ?thesis
      by (auto simp: OnPopMinQueueInSet_def)
  qed
qed

lemma set_concat_nth: "x \<in> set (concat xss) \<longleftrightarrow> (\<exists>i < length xss. x \<in> set (xss ! i))"
  unfolding set_concat by (metis UN_iff in_set_conv_nth)

lemma ContainsWorkQueueForTest_ok:
  assumes "work_ok s"
  shows "ContainsWorkQueueForTest sid w s = Some (wq_sets (queues s w) = Some sid)"
proof -
  have rep: "sets_rep s (\<lambda>w. ready (queues s w))" using assms by (simp add: work_ok_def)
  have mem: "(k, v) \<in> set (concat (heaps s sid)) \<longleftrightarrow> (\<exists>i. ready (queues s v) = Some (sid, i, k))" for k v
  proof
    assume "(k, v) \<in> set (concat (heaps s sid))"
    then obtain i where "i < kQueuePriorityCount" "(k, v) \<in> set (heaps s sid ! i)"
      unfolding set_concat_nth sets_repD(1) [OF rep] by blast
    then show "\<exists>i. ready (queues s v) = Some (sid, i, k)" using sets_repD(3) [OF rep] by auto
  next
    assume "\<exists>i. ready (queues s v) = Some (sid, i, k)"
    then obtain i where i: "ready (queues s v) = Some (sid, i, k)" ..
    then have "i < kQueuePriorityCount" using sets_repD(4) [OF rep] by blast
    with i show "(k, v) \<in> set (concat (heaps s sid))"
      unfolding set_concat_nth sets_repD(1) [OF rep] using sets_repD(3) [OF rep, of i sid] by blast
  qed
  show ?thesis
  proof (cases "find (\<lambda>e. snd e = w) (concat (heaps s sid))")
    case None
    then have "\<forall>i k. ready (queues s w) \<noteq> Some (sid, i, k)"
      unfolding find_None_iff by (metis mem snd_conv)
    then have "front (queues s w) = None" if "wq_sets (queues s w) = Some sid"
      using that by (cases "front (queues s w)") (auto simp: ready_def)
    with None show ?thesis using work_okD(1) [OF assms, of w] by (auto simp: ContainsWorkQueueForTest_def)
  next
    case (Some e)
    then have "e \<in> set (concat (heaps s sid))" "snd e = w"
      by (auto simp: find_Some_iff simp del: set_concat intro: nth_mem)
    then obtain i where "ready (queues s w) = Some (sid, i, fst e)" using mem [of "fst e" w] by auto
    with Some show ?thesis
      using work_okD(1) [OF assms, of w] readyD(1,3) by (auto simp: ContainsWorkQueueForTest_def split: prod.split)
  qed
qed

text \<open>
  A batch of tasks through a TaskPusher, and the same tasks pushed one at a time.
\<close>

primrec push_each :: "wq_ptr \<Rightarrow> closure task list \<Rightarrow> 'z work_state_scheme \<Rightarrow> 'z work_state_scheme option" where
  "push_each w [] s = Some s"
| "push_each w (t # ts) s = do { s \<leftarrow> wq_Push w t s; push_each w ts s }"

definition add_tasks :: "wq_ptr \<Rightarrow> closure task list \<Rightarrow> 'z work_state_scheme \<Rightarrow> 'z work_state_scheme" where
  "add_tasks w ts s = with_tasks w (wq_tasks (queues s w) @ ts) s"

lemma add_tasks_add [simp]: "add_tasks w us (add_tasks w ts s) = add_tasks w (ts @ us) s"
  by (simp add: add_tasks_def set_queue_def)

lemma add_tasks_Nil [simp]: "add_tasks w [] s = s"
  by (simp add: add_tasks_def set_queue_def)

lemma increasing_after_Cons:
  "increasing_after q (t # ts) \<Longrightarrow> increasing_after (q\<lparr>wq_tasks := wq_tasks q @ [t]\<rparr>) ts"
  by (auto simp: increasing_after_def)

lemma pusher_push_all_eq:
  assumes "queue_ok (queues s w)" "increasing_after (queues s w) ts" "tp_work_queue tp = Some w"
  shows "pusher_push_all tp ts s = Some (add_tasks w ts s)"
  using assms(1,2)
proof (induction ts arbitrary: s)
  case (Cons t ts)
  let ?s = "add_tasks w [t] s" and ?q = "queues s w"
  have ok: "queue_ok (queues ?s w)"
    using Cons.prems by (auto simp: add_tasks_def increasing_after_def queue_ok_def sorted_append)
  have "increasing_after (queues ?s w) ts" using increasing_after_Cons [OF Cons.prems(2)] by (simp add: add_tasks_def)
  from Cons.IH [OF ok this] have rest: "pusher_push_all tp ts ?s = Some (add_tasks w (t # ts) s)" by simp
  have t: "enqueue_order t = Some (enqueue_order_set_to t)" "enqueue_order_set_to t \<noteq> 0"
    using Cons.prems(2) by (auto simp: increasing_after_def enqueue_order_def)
  have "enqueue_order (last (wq_tasks ?q)) = Some (last (orders ?q)) \<and> last (orders ?q) < enqueue_order_set_to t" if ne: "wq_tasks ?q \<noteq> []"
    using Cons.prems last_in_set [OF ne] ne
    by (auto simp: enqueue_order_def queue_ok_def last_map increasing_after_def simp del: last_in_set)
  with t rest show ?case
    using assms(3) by (auto simp: TaskPusher_Push_def enqueue_order_set_def Let_def add_tasks_def)
qed simp

text \<open>What the sets do when a queue gets its first task does not depend on the tasks behind it.\<close>

lemma add_tasks_store:
  "heap_view (add_tasks w ts s) sid i = heap_view s sid i"
  "heap_store (add_tasks w ts s) sid i h = add_tasks w ts (heap_store s sid i h)"
  "sel (add_tasks w ts s) = sel s" "heaps (add_tasks w ts s) = heaps s" "(add_tasks w ts s)\<lparr>sel := c\<rparr> = add_tasks w ts (s\<lparr>sel := c\<rparr>)"
  by (auto simp: add_tasks_def heap_view_def heap_store_def set_queue_def fun_eq_iff intro!: work_state.equality)

lemma add_tasks_notify: "notify_non_empty i (add_tasks w ts s) = map_option (add_tasks w ts) (notify_non_empty i s)"
  by (simp add: notify_non_empty_def add_tasks_store map_option_bind)

lemma add_tasks_insert: "set_heap_insert sid i e (add_tasks w ts s) = map_option (add_tasks w ts) (set_heap_insert sid i e s)"
  by (cases "InsertImpl older snd (heap_view s sid i) e") (auto simp: set_heap_insert_def add_tasks_store)

lemma add_tasks_pushed:
  assumes "queue_ok (queues s w)" "queue_ok (queues (add_tasks w ts s) w)" "wq_tasks (queues s w) \<noteq> []"
  shows "OnTaskPushedToEmptyQueue sid w (add_tasks w ts s) = map_option (add_tasks w ts) (OnTaskPushedToEmptyQueue sid w s)"
proof -
  have q: "wq_sets (queues (add_tasks w ts s) w) = wq_sets (queues s w)"
    "wq_set_index (queues (add_tasks w ts s) w) = wq_set_index (queues s w)"
    "wq_heap_handle (queues (add_tasks w ts s) w) = wq_heap_handle (queues s w)"
    "front (queues (add_tasks w ts s) w) = front (queues s w)"
    using assms(3) by (auto simp: add_tasks_def front_def blocked_def hd_append)
  show ?thesis
    using assms(1,2) q
    by (auto simp: OnTaskPushedToEmptyQueue_def Let_def map_option_bind bind_map add_tasks_insert add_tasks_notify
        set_heap_empty_def add_tasks_store split: bind_splits option.splits)
qed

lemma push_each_non_empty:
  assumes "queue_ok (queues s w)" "increasing_after (queues s w) ts" "wq_tasks (queues s w) \<noteq> []"
  shows "push_each w ts s = Some (add_tasks w ts s)"
  using assms
proof (induction ts arbitrary: s)
  case (Cons t ts)
  let ?s = "add_tasks w [t] s" and ?q = "queues s w"
  have ok: "queue_ok (queues ?s w)" "wq_tasks (queues ?s w) \<noteq> []"
    using Cons.prems by (auto simp: add_tasks_def increasing_after_def queue_ok_def sorted_append)
  have "increasing_after (queues ?s w) ts" using increasing_after_Cons [OF Cons.prems(2)] by (simp add: add_tasks_def)
  from Cons.IH [OF ok(1) this ok(2)] have rest: "push_each w ts ?s = Some (add_tasks w (t # ts) s)" by simp
  have "enqueue_order t = Some (enqueue_order_set_to t)" "enqueue_order_set_to t \<noteq> 0"
    using Cons.prems(2) by (auto simp: increasing_after_def enqueue_order_def)
  moreover have "enqueue_order (last (wq_tasks ?q)) = Some (last (orders ?q)) \<and> last (orders ?q) < enqueue_order_set_to t"
    using Cons.prems last_in_set [OF Cons.prems(3)]
    by (auto simp: enqueue_order_def queue_ok_def last_map increasing_after_def simp del: last_in_set)
  ultimately show ?case
    using rest Cons.prems(3) by (auto simp: wq_Push_def enqueue_order_set_def Let_def add_tasks_def)
qed simp

lemma increasing_cong: "wq_tasks q = wq_tasks p \<Longrightarrow> increasing_after q ts = increasing_after p ts"
  by (simp add: increasing_after_def)

lemma queue_ok_add:
  "queue_ok (queues s w) \<Longrightarrow> increasing_after (queues s w) ts \<Longrightarrow> queue_ok (queues (add_tasks w ts s) w)"
  by (force simp: add_tasks_def increasing_after_def queue_ok_def sorted_append strict_sorted_iff)

definition announce :: "wq_ptr \<Rightarrow> 'z work_state_scheme \<Rightarrow> 'z work_state_scheme option" where
  "announce w s = (case wq_sets (queues s w) of
     None \<Rightarrow> Some s
   | Some sid \<Rightarrow> do { blocked \<leftarrow> wq_BlockedByFence (queues s w);
                     if \<not> blocked then OnTaskPushedToEmptyQueue sid w s else Some s })"

lemma announce_add:
  assumes "queue_ok (queues s w)" "queue_ok (queues (add_tasks w ts s) w)" "wq_tasks (queues s w) \<noteq> []"
  shows "announce w (add_tasks w ts s) = map_option (add_tasks w ts) (announce w s)"
proof -
  have "wq_sets (queues (add_tasks w ts s) w) = wq_sets (queues s w)" "blocked (queues (add_tasks w ts s) w) = blocked (queues s w)"
    using assms(3) by (auto simp: add_tasks_def blocked_def hd_append)
  then show ?thesis
    using assms add_tasks_pushed [OF assms] by (auto simp: announce_def split: option.split)
qed

lemma sets_only_add:
  assumes "sets_only s t"
  shows "sets_only (add_tasks w ts s) (add_tasks w ts t)"
proof -
  obtain hs hn a n where t: "t = s\<lparr>heaps := hs, queues := (\<lambda>w. (queues s w)\<lparr>wq_heap_handle := hn w\<rparr>),
     sel := (sel s)\<lparr>active_priorities := a, non_empty_set_counts := n\<rparr>\<rparr>"
    by (rule sets_onlyE [OF assms])
  let ?f = "\<lambda>s. (queues s)(w := (queues s w)\<lparr>wq_tasks := wq_tasks (queues s w) @ ts\<rparr>)"
  have "?f t = (\<lambda>v. (?f s v)\<lparr>wq_heap_handle := hn v\<rparr>)" by (rule ext) (simp add: t)
  then have "add_tasks w ts t = (add_tasks w ts s)\<lparr>heaps := hs, queues := (\<lambda>v. (queues (add_tasks w ts s) v)\<lparr>wq_heap_handle := hn v\<rparr>),
     sel := (sel (add_tasks w ts s))\<lparr>active_priorities := a, non_empty_set_counts := n\<rparr>\<rparr>"
    unfolding add_tasks_def set_queue_def by (simp add: t)
  then show ?thesis by (rule sets_onlyI)
qed

lemma push_batch_ok:
  assumes "work_ok s" "increasing_after (queues s w) ts"
  shows "push_batch w ts s = push_each w ts s"
    and "\<exists>s'. push_each w ts s = Some s' \<and> work_ok s' \<and> sets_only (add_tasks w ts s) s'"
proof -
  have ok: "queue_ok (queues s w)" using work_okD(1) [OF assms(1)] .
  have all: "pusher_push_all (CreateTaskPusher w s) ts s = Some (add_tasks w ts s)"
    using pusher_push_all_eq [OF ok assms(2)] by (simp add: CreateTaskPusher_def)
  show "push_batch w ts s = push_each w ts s"
  proof (cases "wq_tasks (queues s w) = []")
    case False
    then show ?thesis
      using all push_each_non_empty [OF ok assms(2)] by (simp add: push_batch_def TaskPusher_delete_def CreateTaskPusher_def)
  next
    case True
    show ?thesis
    proof (cases ts)
      case Nil
      then show ?thesis using True by (simp add: push_batch_def TaskPusher_delete_def CreateTaskPusher_def)
    next
      case (Cons t us)
      let ?s = "add_tasks w [t] s"
      have t: "enqueue_order_set_to t \<noteq> 0" and inc: "increasing_after (queues ?s w) us"
        using assms(2) increasing_after_Cons [of "queues s w" t us] by (auto simp: Cons increasing_after_def add_tasks_def)
      have ok1: "queue_ok (queues ?s w)" and ne: "wq_tasks (queues ?s w) \<noteq> []"
        using queue_ok_add [OF ok, of "[t]"] assms(2) by (auto simp: Cons increasing_after_def add_tasks_def)
      have push: "wq_Push w t s = announce w ?s"
        unfolding wq_Push_def announce_def add_tasks_def Let_def True set_queue_simps fun_upd_same
        using t by (simp add: enqueue_order_set_def)
      obtain s1 where s1: "wq_Push w t s = Some s1" "work_ok s1" "sets_only ?s s1"
        using wq_Push_ok [OF assms(1) t, of w] True by (auto simp: add_tasks_def)
      have "push_each w us s1 = Some (add_tasks w us s1)"
        using inc ne increasing_cong [OF sets_onlyD(6) [OF s1(3)]] sets_onlyD(6) [OF s1(3), of w]
        by (intro push_each_non_empty work_okD(1) [OF s1(2)]) simp_all
      moreover have "announce w (add_tasks w us ?s) = Some (add_tasks w us s1)"
        using announce_add [OF ok1 queue_ok_add [OF ok1 inc] ne] s1(1) by (simp add: push [symmetric])
      moreover have "push_batch w ts s = announce w (add_tasks w ts s)"
      proof -
        have "wq_tasks (queues (add_tasks w ts s) w) \<noteq> []" using Cons by (simp add: add_tasks_def)
        then have "TaskPusher_delete (CreateTaskPusher w s) (add_tasks w ts s) = announce w (add_tasks w ts s)"
          using True by (simp add: TaskPusher_delete_def CreateTaskPusher_def announce_def)
        then show ?thesis by (simp only: push_batch_def Let_def all Option.bind.simps)
      qed
      ultimately show ?thesis using s1(1) Cons by simp
    qed
  qed
  show "\<exists>s'. push_each w ts s = Some s' \<and> work_ok s' \<and> sets_only (add_tasks w ts s) s'"
    using assms
  proof (induction ts arbitrary: s)
    case (Cons t us)
    have t: "enqueue_order_set_to t \<noteq> 0" "\<forall>k \<in> set (orders (queues s w)). k < enqueue_order_set_to t"
      using Cons.prems(2) by (auto simp: increasing_after_def)
    obtain s1 where s1: "wq_Push w t s = Some s1" "work_ok s1" "sets_only (add_tasks w [t] s) s1"
      using wq_Push_ok [OF Cons.prems(1) t] by (auto simp: add_tasks_def)
    have "increasing_after (queues s1 w) us"
      using increasing_after_Cons [OF Cons.prems(2)] increasing_cong [OF sets_onlyD(6) [OF s1(3)]] by (simp add: add_tasks_def)
    from Cons.IH [OF s1(2) this] obtain s' where s': "push_each w us s1 = Some s'" "work_ok s'" "sets_only (add_tasks w us s1) s'" by auto
    moreover have "sets_only (add_tasks w us (add_tasks w [t] s)) (add_tasks w us s1)"
      by (rule sets_only_add [OF s1(3)])
    ultimately show ?case using s1(1) sets_only_trans by auto
  qed simp
qed

section \<open>Properties\<close>

lemma initial_ok: "work_ok (initial_work_state b seed)"
proof -
  have q: "ready WorkQueue = None" "queue_ok WorkQueue" "wq_heap_handle WorkQueue = None"
    by (simp_all add: ready_def WorkQueue_def queue_ok_def)
  have "sel_rep (non_empty (initial_work_state b seed)) (TaskQueueSelector b seed)"
  proof (rule sel_repI [where ps = "[]"])
    show "count_ok (TaskQueueSelector b seed)" by (simp add: count_ok_def TaskQueueSelector_def limit_max_def)
    show "spq_rep (active_priorities (TaskQueueSelector b seed)) []" by (simp add: TaskQueueSelector_def spq_new_ok)
  qed (auto simp: TaskQueueSelector_def initial_work_state_def)
  moreover have "sets_rep (initial_work_state b seed) (\<lambda>_. None)"
    using q(3) by (simp add: sets_rep_def initial_work_state_def heap_view_def)
  ultimately show ?thesis using q(1,2) by (simp add: work_ok_def) (simp add: initial_work_state_def)
qed

lemma run_op_ok:
  assumes "work_ok s" "op_allowed op (queues s (op_target op))"
  shows "\<exists>s'. run_op op s = Some s' \<and> work_ok s'
    \<and> sets_only (set_queue (op_target op) (op_effect op (queues s (op_target op))) s) s'"
proof (cases op)
  case (Op_Push w t)
  then show ?thesis using wq_Push_ok [OF assms(1), of t w] assms(2) by (auto simp: increasing_after_def)
next
  case (Op_PushBatch w ts)
  then show ?thesis using push_batch_ok [OF assms(1), of w ts] assms(2) by (auto simp: add_tasks_def)
next
  case (Op_PushFront w t)
  then show ?thesis using PushNonNestableTaskToFront_ok [OF assms(1), of t w] assms(2) by auto
next
  case (Op_InsertFence w k)
  then show ?thesis using wq_InsertFence_ok [OF assms(1), of k w] assms(2) by auto
next
  case (Op_RemoveFence w)
  then show ?thesis using wq_RemoveFence_ok [OF assms(1), of w] by auto
next
  case (Op_DeleteTasks w)
  then show ?thesis using wq_DeletePendingTasks_ok [OF assms(1), of w] by auto
next
  case (Op_AddQueue sid w i)
  have "ready (queues s w) = None" using assms(2) Op_AddQueue by (simp add: ready_None)
  then show ?thesis
    using sets_AddQueue_ok [OF work_okD(2,1) [OF assms(1)], of w i sid] assms(2) Op_AddQueue
      work_ok_change [OF assms(1), of "op_effect op (queues s w)" _ w] work_okD(1) [OF assms(1), of w]
    by (auto simp: queue_ok_def)
next
  case (Op_RemoveQueue sid w)
  have "ready (queues s w) = None \<or> (\<exists>k. ready (queues s w) = Some (sid, wq_set_index (queues s w), k))"
    using assms(2) Op_RemoveQueue by (auto simp: ready_def)
  then show ?thesis
    using sets_RemoveQueue_ok [OF work_okD(2,1) [OF assms(1)], of w sid] assms(2) Op_RemoveQueue
      work_ok_change [OF assms(1), of "op_effect op (queues s w)" _ w] work_okD(1) [OF assms(1), of w]
    by (auto simp: queue_ok_def)
next
  case (Op_ChangeSetIndex sid w i)
  then show ?thesis
    using sets_ChangeSetIndex_ok [OF work_okD(2,1) [OF assms(1)], of w sid i] assms(2)
      work_ok_change [OF assms(1), of "op_effect op (queues s w)" _ w] work_okD(1) [OF assms(1), of w]
    by (auto simp: queue_ok_def)
qed

lemma reachable_ok: "work_reachable s \<Longrightarrow> work_ok s"
proof (induction rule: work_reachable.induct)
  case (start b seed)
  show ?case by (rule initial_ok)
next
  case (step s op s')
  with run_op_ok [OF step.IH step.hyps(2)] show ?case by auto
qed

lemma run_ops_reachable: "run_ops ops s = Some s' \<Longrightarrow> work_reachable s \<Longrightarrow> work_reachable s'"
  by (induction ops arbitrary: s) (auto split: bind_splits if_splits intro: work_reachable.step)

text \<open>
  Claim C10.  Whatever allowed operations run on work queues and their sets, starting from the constructors:
  the sets hold exactly the queues that have a task before their fence, each under its priority with
  the order of its first task; the selector's active priorities are exactly those with such a queue; and
  every operation that is allowed next returns (no check of the code fails), has its effect on the one queue
  it names, and leaves all other queues and their tasks alone.
\<close>

theorem work_queue_sets_invariant:
  assumes "work_reachable s" "op_allowed op (queues s (op_target op))"
  shows "(\<forall>sid i. i < kQueuePriorityCount \<longrightarrow> set (heaps s sid ! i) = {(k, w). ready (queues s w) = Some (sid, i, k)})
    \<and> (\<forall>i < kQueuePriorityCount. IsInQueue (active_priorities (sel s)) i = Some (\<exists>sid w k. ready (queues s w) = Some (sid, i, k)))
    \<and> (\<exists>s'. run_op op s = Some s' \<and> work_reachable s' \<and> (\<forall>v. queues s' v =
         ((queues s)(op_target op := op_effect op (queues s (op_target op)))) v\<lparr>wq_heap_handle := wq_heap_handle (queues s' v)\<rparr>))"
proof (intro conjI allI impI)
  have ok: "work_ok s" using reachable_ok [OF assms(1)] .
  then have rep: "sets_rep s (\<lambda>w. ready (queues s w))" and sr: "sel_rep (non_empty s) (sel s)" by (auto simp: work_ok_def)
  show "set (heaps s sid ! i) = {(k, w). ready (queues s w) = Some (sid, i, k)}" if "i < kQueuePriorityCount" for sid i
    using sets_repD(3) [OF rep that] .
  show "IsInQueue (active_priorities (sel s)) i = Some (\<exists>sid w k. ready (queues s w) = Some (sid, i, k))"
    if "i < kQueuePriorityCount" for i
  proof -
    from sr obtain ps where "spq_rep (active_priorities (sel s)) ps"
      "snd ` set ps = {i. i < kQueuePriorityCount \<and> (\<exists>sid. heaps s sid ! i \<noteq> [])}"
      by (auto simp: sel_rep_def active_rep_def)
    with IsInQueue_ok [of _ ps i] that oldest_ok(1) [OF ok that] show ?thesis by simp
  qed
  obtain s' where s': "run_op op s = Some s'" "sets_only (set_queue (op_target op) (op_effect op (queues s (op_target op))) s) s'"
    using run_op_ok [OF ok assms(2)] by auto
  moreover have "work_reachable s'" using work_reachable.step [OF assms s'(1)] .
  moreover have "queues s' v = ((queues s)(op_target op := op_effect op (queues s (op_target op)))) v\<lparr>wq_heap_handle := wq_heap_handle (queues s' v)\<rparr>" for v
    by (rule sets_onlyE [OF s'(2)]) simp
  ultimately show "\<exists>s'. run_op op s = Some s' \<and> work_reachable s' \<and> (\<forall>v. queues s' v =
      ((queues s)(op_target op := op_effect op (queues s (op_target op)))) v\<lparr>wq_heap_handle := wq_heap_handle (queues s' v)\<rparr>)"
    by blast
qed

definition demo_task :: "nat \<Rightarrow> closure task" where
  "demo_task k = \<lparr>callback = Some (Client k), delayed_run_time = 0, nestable = True, sequence_num = int k,
     is_high_res = False, enqueue_order_set_to = k\<rparr>"

definition demo_ops :: "work_op list" where
  "demo_ops =
     [Op_AddQueue immediate_sets (1, kImmediate) kNormalPriority, Op_AddQueue immediate_sets (2, kImmediate) kNormalPriority,
      Op_Push (1, kImmediate) (demo_task 7), Op_PushBatch (2, kImmediate) [demo_task 5, demo_task 9],
      Op_AddQueue immediate_sets (3, kImmediate) kHighPriority, Op_Push (3, kImmediate) (demo_task 6),
      Op_InsertFence (3, kImmediate) 6]"

lemma demo_run:
  "map_option (\<lambda>s. (GetOldestQueueAndEnqueueOrderInSet immediate_sets kNormalPriority s,
      GetOldestQueueInSet immediate_sets kHighPriority s, wq_fence (queues s (3, kImmediate)), wq_tasks (queues s (4, kDelayed))))
    (run_ops demo_ops (initial_work_state False 0)) = Some (Some (Some ((2, kImmediate), 5)), Some None, 6, [])"
  by code_simp

definition demo_state :: work_state where
  "demo_state = the (run_ops demo_ops (initial_work_state False 0))"

lemma demo_reachable: "work_reachable demo_state"
proof -
  have "run_ops demo_ops (initial_work_state False 0) = Some demo_state"
    using demo_run by (auto simp: demo_state_def)
  then show ?thesis using run_ops_reachable work_reachable.start by blast
qed

lemma demo_queries:
  "GetOldestQueueAndEnqueueOrderInSet immediate_sets kNormalPriority demo_state = Some (Some ((2, kImmediate), 5))"
  "GetOldestQueueInSet immediate_sets kHighPriority demo_state = Some None"
  using demo_run by (auto simp: demo_state_def)

theorem work_queue_sets_invariant_witness:
  "work_reachable demo_state
    \<and> op_allowed (Op_RemoveFence (3, kImmediate)) (queues demo_state (op_target (Op_RemoveFence (3, kImmediate))))
    \<and> (\<exists>s'. run_op (Op_RemoveFence (3, kImmediate)) demo_state = Some s' \<and> work_reachable s')"
  using demo_reachable work_queue_sets_invariant [OF demo_reachable, of "Op_RemoveFence (3, kImmediate)"] by auto

text \<open>
  Claim C35.  The sets serve the oldest task: on every reachable state a query for a priority returns, it
  returns no queue exactly if no queue of that priority has a task before its fence, and otherwise it returns
  a queue of that priority together with the order of its first task, and no other queue of
  the priority has an older first task that may run.
\<close>

theorem oldest_queue_is_oldest:
  assumes "work_reachable s" "i < kQueuePriorityCount"
  shows "\<exists>r. GetOldestQueueAndEnqueueOrderInSet sid i s = Some r \<and> GetOldestQueueInSet sid i s = Some (map_option fst r)
    \<and> IsSetEmpty sid i s = Some (r = None)
    \<and> (r = None \<longleftrightarrow> (\<forall>w k. ready (queues s w) \<noteq> Some (sid, i, k)))
    \<and> (\<forall>w k. r = Some (w, k) \<longrightarrow> ready (queues s w) = Some (sid, i, k) \<and> GetFrontTaskEnqueueOrder (queues s w) = Some (Some k)
        \<and> (\<forall>v m. ready (queues s v) = Some (sid, i, m) \<longrightarrow> k \<le> m))"
proof -
  have ok: "work_ok s" using reachable_ok [OF assms(1)] .
  show ?thesis
  proof (cases "heaps s sid ! i = []")
    case True
    then show ?thesis
      using GetOldest_ok [OF ok assms(2), of sid] oldest_ok(1) [OF ok assms(2), of sid] assms(2) by (simp add: IsSetEmpty_def)
  next
    case False
    from oldest_ok(2) [OF ok assms(2) this] obtain k w where
      m: "set_heap_Min sid i s = Some (k, w)" "ready (queues s w) = Some (sid, i, k)"
        "\<forall>v m. ready (queues s v) = Some (sid, i, m) \<longrightarrow> k \<le> m" by blast
    then show ?thesis
      using GetOldest_ok [OF ok assms(2), of sid] False assms(2) readyD(3) [OF m(2)] work_okD(1) [OF ok, of w]
        oldest_ok(1) [OF ok assms(2), of sid]
      by (intro exI [of _ "Some (w, k)"]) (simp add: IsSetEmpty_def)
  qed
qed

theorem oldest_queue_is_oldest_witness:
  "work_reachable demo_state \<and> kNormalPriority < kQueuePriorityCount
    \<and> ready (queues demo_state (2, kImmediate)) = Some (immediate_sets, kNormalPriority, 5)"
  using demo_reachable demo_queries oldest_queue_is_oldest [OF demo_reachable, of kNormalPriority immediate_sets] by auto

text \<open>
  Claim C36.  A TaskPusher is an optimisation and nothing else: pushing a batch of tasks through it leaves the
  same state as pushing them one at a time, which returns, keeps the state well-formed and appends the
  tasks in order.
\<close>

theorem task_pusher_equivalent:
  assumes "work_reachable s" "increasing_after (queues s w) ts"
  shows "push_batch w ts s = push_each w ts s
    \<and> (\<exists>s'. push_batch w ts s = Some s' \<and> wq_tasks (queues s' w) = wq_tasks (queues s w) @ ts
        \<and> (\<forall>v. v \<noteq> w \<longrightarrow> wq_tasks (queues s' v) = wq_tasks (queues s v)))"
proof -
  have ok: "work_ok s" using reachable_ok [OF assms(1)] .
  obtain s' where "push_each w ts s = Some s'" "sets_only (add_tasks w ts s) s'"
    using push_batch_ok(2) [OF ok assms(2)] by blast
  with push_batch_ok(1) [OF ok assms(2)] show ?thesis by (auto simp: sets_onlyD(6) add_tasks_def)
qed

theorem task_pusher_equivalent_witness:
  "work_reachable demo_state \<and> increasing_after (queues demo_state (4, kDelayed)) [demo_task 11, demo_task 12]
    \<and> push_batch (4, kDelayed) [demo_task 11, demo_task 12] demo_state = push_each (4, kDelayed) [demo_task 11, demo_task 12] demo_state"
proof -
  have "wq_tasks (queues demo_state (4, kDelayed)) = []"
    using demo_run by (auto simp: demo_state_def)
  then have "increasing_after (queues demo_state (4, kDelayed)) [demo_task 11, demo_task 12]"
    by (simp add: increasing_after_def demo_task_def)
  then show ?thesis using demo_reachable task_pusher_equivalent [OF demo_reachable] by blast
qed

text \<open>
  Claim C37.  Fences: a work queue offers its first task only if its order is below the fence.  Inserting or
  removing a fence on a queue answers true exactly if it makes a blocked queue offer a task, and then
  the sets learn of it; after removal nothing is held back.
\<close>

theorem fences_block_and_unblock:
  assumes "work_reachable s" "fence \<noteq> 0" "wq_fence (queues s w) \<le> fence \<or> fence = blocking_fence"
  shows "\<exists>b s' c t. wq_InsertFence w fence s = Some (b, s') \<and> wq_RemoveFence w s = Some (c, t)
    \<and> work_ok s' \<and> work_ok t
    \<and> (b \<longleftrightarrow> ready (queues s w) = None \<and> ready (queues s' w) \<noteq> None)
    \<and> (c \<longleftrightarrow> ready (queues s w) = None \<and> ready (queues t w) \<noteq> None)
    \<and> (\<forall>sid i k. ready (queues s' w) = Some (sid, i, k) \<longrightarrow> k < fence)
    \<and> (ready (queues t w) = None \<longleftrightarrow> wq_sets (queues s w) = None \<or> wq_tasks (queues s w) = [])"
proof -
  have ok: "work_ok s" using reachable_ok [OF assms(1)] .
  let ?q = "(queues s w)\<lparr>wq_fence := fence\<rparr>" and ?r = "(queues s w)\<lparr>wq_fence := enqueue_order_none\<rparr>"
  obtain s' where s': "wq_InsertFence w fence s = Some (ready (queues s w) = None \<and> ready ?q \<noteq> None, s')" "work_ok s'"
    "sets_only (set_queue w ?q s) s'" using wq_InsertFence_ok [OF ok assms(2,3)] by blast
  obtain t where t: "wq_RemoveFence w s = Some (ready (queues s w) = None \<and> ready ?r \<noteq> None, t)" "work_ok t"
    "sets_only (set_queue w ?r s) t" using wq_RemoveFence_ok [OF ok, of w] by blast
  have eq: "ready (queues s' w) = ready ?q" "ready (queues t w) = ready ?r"
    using sets_onlyD(1) [OF s'(3), of w] sets_onlyD(1) [OF t(3), of w] by simp_all
  have "\<forall>sid i k. ready ?q = Some (sid, i, k) \<longrightarrow> k < fence"
  proof (intro allI impI)
    fix sid i k assume "ready ?q = Some (sid, i, k)"
    from readyD(5,6) [OF this] assms(2) show "k < fence" by (simp add: blocked_def)
  qed
  moreover have "ready ?r = None \<longleftrightarrow> wq_sets (queues s w) = None \<or> wq_tasks (queues s w) = []"
    by (auto simp: ready_def front_def blocked_def enqueue_order_none_def split: option.split)
  ultimately show ?thesis
    using s'(1,2) t(1,2) unfolding eq [symmetric]
    by (intro exI [of _ "ready (queues s w) = None \<and> ready (queues s' w) \<noteq> None"] exI [of _ s']
        exI [of _ "ready (queues s w) = None \<and> ready (queues t w) \<noteq> None"] exI [of _ t]) simp
qed

theorem fences_block_and_unblock_witness:
  "work_reachable demo_state \<and> (8 :: nat) \<noteq> 0 \<and> wq_fence (queues demo_state (3, kImmediate)) \<le> 8
    \<and> (\<exists>b s'. wq_InsertFence (3, kImmediate) 8 demo_state = Some (b, s') \<and> work_ok s')"
proof -
  have "wq_fence (queues demo_state (3, kImmediate)) = 6"
    using demo_run by (auto simp: demo_state_def)
  then show ?thesis using demo_reachable fences_block_and_unblock [OF demo_reachable, of 8 "(3, kImmediate)"] by auto
qed

end
