(* ===== verification/Task_Queue_Selector.thy ===== *)
theory Task_Queue_Selector
  imports Work_Queue
begin

text \<open>
  TaskQueueSelector (base/task/sequence_manager/task_queue_selector.h and .cc): which work queue runs next.

  The state is that of theory \<open>Work_Queue\<close>.  A TaskQueueImpl is a number; its two work queues are
  registered with the two sets.  Whether a queue is enabled is asked of the TaskQueueImpl and an
  argument here.  The checks that a call is on the right thread are not modelled.
\<close>

section \<open>Queues\<close>

abbreviation delayed_work_queue :: "nat \<Rightarrow> wq_ptr" where "delayed_work_queue q \<equiv> (q, kDelayed)"

abbreviation immediate_work_queue :: "nat \<Rightarrow> wq_ptr" where "immediate_work_queue q \<equiv> (q, kImmediate)"

definition CheckContainsQueueForTest :: "nat \<Rightarrow> 'z work_state_scheme \<Rightarrow> bool option" where
  "CheckContainsQueueForTest q s =
     do { contains_delayed_work_queue \<leftarrow> ContainsWorkQueueForTest delayed_sets (delayed_work_queue q) s;
          contains_immediate_work_queue \<leftarrow> ContainsWorkQueueForTest immediate_sets (immediate_work_queue q) s;
          DCHECK (contains_delayed_work_queue = contains_immediate_work_queue);
          Some contains_delayed_work_queue }"

definition AddQueueImpl :: "nat \<Rightarrow> nat \<Rightarrow> 'z work_state_scheme \<Rightarrow> 'z work_state_scheme option" where
  "AddQueueImpl q priority s =
     do { present \<leftarrow> CheckContainsQueueForTest q s;
          DCHECK (\<not> present);
          s \<leftarrow> sets_AddQueue delayed_sets (delayed_work_queue q) priority s;
          s \<leftarrow> sets_AddQueue immediate_sets (immediate_work_queue q) priority s;
          present \<leftarrow> CheckContainsQueueForTest q s;
          DCHECK present;
          Some s }"

definition selector_ChangeSetIndex :: "nat \<Rightarrow> nat \<Rightarrow> 'z work_state_scheme \<Rightarrow> 'z work_state_scheme option" where
  "selector_ChangeSetIndex q priority s =
     do { present \<leftarrow> CheckContainsQueueForTest q s;
          DCHECK present;
          s \<leftarrow> sets_ChangeSetIndex delayed_sets (delayed_work_queue q) priority s;
          s \<leftarrow> sets_ChangeSetIndex immediate_sets (immediate_work_queue q) priority s;
          present \<leftarrow> CheckContainsQueueForTest q s;
          DCHECK present;
          Some s }"

definition RemoveQueueImpl :: "nat \<Rightarrow> 'z work_state_scheme \<Rightarrow> 'z work_state_scheme option" where
  "RemoveQueueImpl q s =
     do { present \<leftarrow> CheckContainsQueueForTest q s;
          DCHECK present;
          s \<leftarrow> sets_RemoveQueue delayed_sets (delayed_work_queue q) s;
          s \<leftarrow> sets_RemoveQueue immediate_sets (immediate_work_queue q) s;
          present \<leftarrow> CheckContainsQueueForTest q s;
          DCHECK (\<not> present);
          Some s }"

definition GetQueuePriority :: "nat \<Rightarrow> 'z work_state_scheme \<Rightarrow> nat option" where
  "GetQueuePriority q s =
     do { let set_index = wq_set_index (queues s (immediate_work_queue q));
          DCHECK (set_index = wq_set_index (queues s (delayed_work_queue q)));
          Some set_index }"

definition selector_AddQueue :: "bool \<Rightarrow> nat \<Rightarrow> 'z work_state_scheme \<Rightarrow> 'z work_state_scheme option" where
  "selector_AddQueue is_enabled q s = do { DCHECK is_enabled; AddQueueImpl q kNormalPriority s }"

definition selector_RemoveQueue :: "bool \<Rightarrow> nat \<Rightarrow> 'z work_state_scheme \<Rightarrow> 'z work_state_scheme option" where
  "selector_RemoveQueue is_enabled q s = (if is_enabled then RemoveQueueImpl q s else Some s)"

definition EnableQueue :: "bool \<Rightarrow> nat \<Rightarrow> 'z work_state_scheme \<Rightarrow> 'z work_state_scheme option" where
  "EnableQueue is_enabled q s =
     do { DCHECK is_enabled; priority \<leftarrow> GetQueuePriority q s; AddQueueImpl q priority s }"

definition DisableQueue :: "bool \<Rightarrow> nat \<Rightarrow> 'z work_state_scheme \<Rightarrow> 'z work_state_scheme option" where
  "DisableQueue is_enabled q s = do { DCHECK (\<not> is_enabled); RemoveQueueImpl q s }"

definition selector_SetQueuePriority :: "bool \<Rightarrow> nat \<Rightarrow> nat \<Rightarrow> 'z work_state_scheme \<Rightarrow> 'z work_state_scheme option" where
  "selector_SetQueuePriority is_enabled q priority s =
     do { DCHECK (priority < kQueuePriorityCount);
          s \<leftarrow> (if is_enabled then selector_ChangeSetIndex q priority s
               else Some (AssignSetIndex (immediate_work_queue q) priority (AssignSetIndex (delayed_work_queue q) priority s)));
          p \<leftarrow> GetQueuePriority q s;
          DCHECK (priority = p);
          Some s }"

section \<open>Selection\<close>

definition kMaxDelayedStarvationTasks :: nat where "kMaxDelayedStarvationTasks = 3"

datatype set_operation = SetOperationOldest | SetOperationRandom

fun GetWithPriority ::
  "set_operation \<Rightarrow> set_id \<Rightarrow> nat \<Rightarrow> 'z work_state_scheme \<Rightarrow> (wq_ptr option \<times> 'z work_state_scheme) option" where
  "GetWithPriority SetOperationOldest sid priority s =
     do { queue \<leftarrow> GetOldestQueueInSet sid priority s; Some (queue, s) }"
| "GetWithPriority SetOperationRandom sid priority s = GetRandomQueueInSet sid priority s"

fun GetWithPriorityAndEnqueueOrder ::
  "set_operation \<Rightarrow> set_id \<Rightarrow> nat \<Rightarrow> 'z work_state_scheme \<Rightarrow> ((wq_ptr \<times> nat) option \<times> 'z work_state_scheme) option" where
  "GetWithPriorityAndEnqueueOrder SetOperationOldest sid priority s =
     do { r \<leftarrow> GetOldestQueueAndEnqueueOrderInSet sid priority s; Some (r, s) }"
| "GetWithPriorityAndEnqueueOrder SetOperationRandom sid priority s =
     GetRandomQueueAndEnqueueOrderInSet sid priority s"

text \<open>The results are the queue, whether a delayed queue was chosen over an immediate one, and the state.\<close>

definition ChooseImmediateOrDelayedTaskWithPriority ::
  "set_operation \<Rightarrow> nat \<Rightarrow> 'z work_state_scheme \<Rightarrow> (wq_ptr option \<times> bool \<times> 'z work_state_scheme) option" where
  "ChooseImmediateOrDelayedTaskWithPriority SetOperation priority s =
     do { (immediate, s) \<leftarrow> GetWithPriorityAndEnqueueOrder SetOperation immediate_sets priority s;
          case immediate of
            Some (immediate_queue, immediate_enqueue_order) \<Rightarrow>
              do { (delayed, s) \<leftarrow> GetWithPriorityAndEnqueueOrder SetOperation delayed_sets priority s;
                   case delayed of
                     None \<Rightarrow> Some (Some immediate_queue, False, s)
                   | Some (delayed_queue, delayed_enqueue_order) \<Rightarrow>
                       if immediate_enqueue_order < delayed_enqueue_order
                       then Some (Some immediate_queue, False, s)
                       else Some (Some delayed_queue, True, s) }
          | None \<Rightarrow>
              do { (queue, s) \<leftarrow> GetWithPriority SetOperation delayed_sets priority s; Some (queue, False, s) } }"

definition ChooseWithPriority ::
  "set_operation \<Rightarrow> nat \<Rightarrow> 'z work_state_scheme \<Rightarrow> (wq_ptr option \<times> bool \<times> 'z work_state_scheme) option" where
  "ChooseWithPriority SetOperation priority s =
     (if kMaxDelayedStarvationTasks \<le> immediate_starvation_count (sel s)
      then do { (queue, s) \<leftarrow> GetWithPriority SetOperation immediate_sets priority s;
                case queue of
                  Some q \<Rightarrow> Some (Some q, False, s)
                | None \<Rightarrow> do { (queue, s) \<leftarrow> GetWithPriority SetOperation delayed_sets priority s;
                              Some (queue, False, s) } }
      else ChooseImmediateOrDelayedTaskWithPriority SetOperation priority s)"

definition SelectWorkQueueToService :: "'z work_state_scheme \<Rightarrow> (wq_ptr option \<times> 'z work_state_scheme) option" where
  "SelectWorkQueueToService s =
     (if spq_empty (active_priorities (sel s)) then Some (None, s)
      else do { priority \<leftarrow> min_id (active_priorities (sel s));
                s \<leftarrow> (if priority \<noteq> kControlPriority
                     then do { n \<leftarrow> arith int64_t (selection_count (sel s) + 1);
                               Some (s\<lparr>sel := (sel s)\<lparr>selection_count := n\<rparr>\<rparr>) }
                     else Some s);
                (queue, chose_delayed_over_immediate, s) \<leftarrow>
                  ChooseWithPriority (if random_task_selection (sel s) then SetOperationRandom else SetOperationOldest)
                    priority s;
                active \<leftarrow> IsInQueue (active_priorities (sel s)) priority;
                s \<leftarrow> (if active
                     then do { key \<leftarrow> GetSortKeyForPriority (sel s) priority;
                               a \<leftarrow> ChangeMinKey (active_priorities (sel s)) key;
                               Some (s\<lparr>sel := (sel s)\<lparr>active_priorities := a\<rparr>\<rparr>) }
                     else Some s);
                let n = (if chose_delayed_over_immediate then immediate_starvation_count (sel s) + 1 else 0);
                Some (queue, s\<lparr>sel := (sel s)\<lparr>immediate_starvation_count := n\<rparr>\<rparr>) })"

definition GetHighestPendingPriority :: "'z work_state_scheme \<Rightarrow> nat option option" where
  "GetHighestPendingPriority s =
     (if spq_empty (active_priorities (sel s)) then Some None
      else do { p \<leftarrow> min_id (active_priorities (sel s)); Some (Some p) })"

definition HasTasksWithPriority :: "nat \<Rightarrow> 'z work_state_scheme \<Rightarrow> bool option" where
  "HasTasksWithPriority priority s =
     do { delayed_empty \<leftarrow> IsSetEmpty delayed_sets priority s;
          if \<not> delayed_empty then Some True
          else do { immediate_empty \<leftarrow> IsSetEmpty immediate_sets priority s; Some (\<not> immediate_empty) } }"

definition NextPriority :: "nat \<Rightarrow> nat option" where
  "NextPriority priority = do { DCHECK (priority < kQueuePriorityCount); Some (priority + 1) }"

definition CollectSkippedOverLowerPriorityTasks ::
  "wq_ptr \<Rightarrow> 'z work_state_scheme \<Rightarrow> closure task list \<Rightarrow> closure task list option" where
  "CollectSkippedOverLowerPriorityTasks selected_work_queue s result =
     do { result \<leftarrow> sets_CollectSkippedOverLowerPriorityTasks delayed_sets selected_work_queue s result;
          sets_CollectSkippedOverLowerPriorityTasks immediate_sets selected_work_queue s result }"

lemma spq_rep_unique:
  assumes "spq_rep q ps" "spq_rep q qs"
  shows "ps = qs"
proof (rule nth_equalityI)
  show "length ps = length qs" using assms by (simp add: spq_rep_def)
  fix i assume "i < length ps"
  then have "spq_at q (ps ! i) i" "spq_at q (qs ! i) i" using assms by (auto simp: spq_rep_def)
  then show "ps ! i = qs ! i" by (simp add: spq_at_def prod_eq_iff)
qed

section \<open>The chosen queue\<close>

definition waiting :: "'z work_state_scheme \<Rightarrow> set_id \<Rightarrow> nat \<Rightarrow> bool" where
  "waiting s sid p \<longleftrightarrow> (\<exists>w k. ready (queues s w) = Some (sid, p, k))"

text \<open>Queue \<open>w\<close> with first order \<open>k\<close> is one of the queues of a set, and the oldest if the operation says so.\<close>

definition offered :: "set_operation \<Rightarrow> 'z work_state_scheme \<Rightarrow> set_id \<Rightarrow> nat \<Rightarrow> wq_ptr \<Rightarrow> nat \<Rightarrow> bool" where
  "offered SetOperation s sid p w k \<longleftrightarrow>
     ready (queues s w) = Some (sid, p, k)
     \<and> (SetOperation = SetOperationOldest \<longrightarrow> (\<forall>v m. ready (queues s v) = Some (sid, p, m) \<longrightarrow> k \<le> m))"

lemma work_ok_last_rand [simp]: "work_ok (s\<lparr>last_rand := l\<rparr>) = work_ok s"
  by (simp add: work_ok_def sets_rep_def heap_view_def)

lemma waiting_iff: "work_ok s \<Longrightarrow> p < kQueuePriorityCount \<Longrightarrow> waiting s sid p \<longleftrightarrow> heaps s sid ! p \<noteq> []"
  using oldest_ok(1) [of s p sid] by (auto simp: waiting_def)

lemma random_element:
  assumes "work_ok s" "p < kQueuePriorityCount" "heaps s sid ! p \<noteq> []"
  shows "\<exists>w k. heap_at (heap_view s sid p) (n mod heap_size (heap_view s sid p)) = Some (k, w)
    \<and> ready (queues s w) = Some (sid, p, k)"
proof -
  have rep: "sets_rep s (\<lambda>w. ready (queues s w))" using assms(1) by (simp add: work_ok_def)
  let ?i = "n mod length (heaps s sid ! p)"
  have i: "?i < length (heaps s sid ! p)" using assms(3) by simp
  then have "heaps s sid ! p ! ?i \<in> {(k, w). ready (queues s w) = Some (sid, p, k)}"
    unfolding sets_repD(3) [OF rep assms(2), symmetric] by (rule nth_mem)
  then show ?thesis using i by (auto simp: heap_at_def heap_size_def)
qed

lemma get_order_ok:
  assumes "work_ok s" "p < kQueuePriorityCount"
  shows "\<exists>r l. GetWithPriorityAndEnqueueOrder SetOperation sid p s = Some (r, s\<lparr>last_rand := l\<rparr>)
    \<and> (r = None \<longleftrightarrow> \<not> waiting s sid p) \<and> (\<forall>w k. r = Some (w, k) \<longrightarrow> offered SetOperation s sid p w k)"
proof (cases "heaps s sid ! p = []")
  case True
  then show ?thesis
    using GetOldest_ok(1) [OF assms, of sid] waiting_iff [OF assms, of sid] assms(2)
    by (cases SetOperation) (auto simp: GetRandomQueueAndEnqueueOrderInSet_def intro!: exI [of _ "last_rand s"])
next
  case False
  show ?thesis
  proof (cases SetOperation)
    case SetOperationOldest
    obtain k w where "set_heap_Min sid p s = Some (k, w)" "offered SetOperation s sid p w k"
      using oldest_ok(2) [OF assms False] by (auto simp: offered_def)
    then show ?thesis
      using GetOldest_ok(1) [OF assms, of sid] False SetOperationOldest waiting_iff [OF assms, of sid]
      by (intro exI [of _ "Some (w, k)"] exI [of _ "last_rand s"]) auto
  next
    case SetOperationRandom
    let ?r = "MurmurHash3 (last_rand s sid)"
    let ?s = "s\<lparr>last_rand := (last_rand s)(sid := ?r)\<rparr>"
    obtain w k where w: "heap_at (heap_view ?s sid p) (unat ?r mod heap_size (heap_view ?s sid p)) = Some (k, w)"
      "ready (queues s w) = Some (sid, p, k)" using random_element [of ?s p sid "unat ?r"] assms False by auto
    then show ?thesis
      using False assms(2) SetOperationRandom waiting_iff [OF assms, of sid] work_okD(1) [OF assms(1), of w] readyD(3) [OF w(2)]
      by (intro exI [of _ "Some (w, k)"] exI [of _ "(last_rand s)(sid := ?r)"])
        (auto simp: GetRandomQueueAndEnqueueOrderInSet_def sets_Random_def Let_def offered_def)
  qed
qed

lemma get_ok:
  assumes "work_ok s" "p < kQueuePriorityCount"
  shows "\<exists>r l. GetWithPriority SetOperation sid p s = Some (r, s\<lparr>last_rand := l\<rparr>)
    \<and> (r = None \<longleftrightarrow> \<not> waiting s sid p) \<and> (\<forall>w. r = Some w \<longrightarrow> (\<exists>k. offered SetOperation s sid p w k))"
proof (cases "heaps s sid ! p = []")
  case True
  then show ?thesis
    using GetOldest_ok(2) [OF assms, of sid] waiting_iff [OF assms, of sid] assms(2)
    by (cases SetOperation) (auto simp: GetRandomQueueInSet_def intro!: exI [of _ "last_rand s"])
next
  case False
  show ?thesis
  proof (cases SetOperation)
    case SetOperationOldest
    obtain k w where "set_heap_Min sid p s = Some (k, w)" "offered SetOperation s sid p w k"
      using oldest_ok(2) [OF assms False] by (auto simp: offered_def)
    then show ?thesis
      using GetOldest_ok(2) [OF assms, of sid] False SetOperationOldest waiting_iff [OF assms, of sid]
      by (intro exI [of _ "Some w"] exI [of _ "last_rand s"]) auto
  next
    case SetOperationRandom
    let ?r = "MurmurHash3 (last_rand s sid)"
    let ?s = "s\<lparr>last_rand := (last_rand s)(sid := ?r)\<rparr>"
    obtain w k where w: "heap_at (heap_view ?s sid p) (unat ?r mod heap_size (heap_view ?s sid p)) = Some (k, w)"
      "ready (queues s w) = Some (sid, p, k)" using random_element [of ?s p sid "unat ?r"] assms False by auto
    then show ?thesis
      using False assms(2) SetOperationRandom waiting_iff [OF assms, of sid] work_okD(3) [OF assms(1), of w] readyD(2) [OF w(2)]
      by (intro exI [of _ "Some w"] exI [of _ "(last_rand s)(sid := ?r)"])
        (auto simp: GetRandomQueueInSet_def sets_Random_def Let_def offered_def)
  qed
qed

text \<open>
  The outcome of a choice within priority \<open>p\<close>: the queue, its set and first order, and whether an immediate queue
  was passed over.
\<close>

definition choice :: "set_operation \<Rightarrow> 'z work_state_scheme \<Rightarrow> nat \<Rightarrow> wq_ptr \<Rightarrow> bool \<Rightarrow> bool" where
  "choice SetOperation s p w b \<longleftrightarrow>
     (\<exists>sid k. offered SetOperation s sid p w k
        \<and> (b \<longleftrightarrow> sid = delayed_sets \<and> waiting s immediate_sets p)
        \<and> (b \<longrightarrow> immediate_starvation_count (sel s) < kMaxDelayedStarvationTasks)
        \<and> (SetOperation = SetOperationOldest \<and> immediate_starvation_count (sel s) < kMaxDelayedStarvationTasks \<longrightarrow>
             (\<forall>tid v m. ready (queues s v) = Some (tid, p, m) \<longrightarrow> k \<le> m)))"

lemma offered_last_rand [simp]: "offered SetOperation (s\<lparr>last_rand := l\<rparr>) = offered SetOperation s"
  by (simp add: offered_def fun_eq_iff)

lemma waiting_last_rand [simp]: "waiting (s\<lparr>last_rand := l\<rparr>) = waiting s"
  by (simp add: waiting_def fun_eq_iff)

lemma ChooseWithPriority_ok:
  assumes "work_ok s" "p < kQueuePriorityCount" "\<exists>sid. waiting s sid p"
  shows "\<exists>w b l. ChooseWithPriority SetOperation p s = Some (Some w, b, s\<lparr>last_rand := l\<rparr>) \<and> choice SetOperation s p w b"
proof (cases "kMaxDelayedStarvationTasks \<le> immediate_starvation_count (sel s)")
  case True
  obtain r l where r: "GetWithPriority SetOperation immediate_sets p s = Some (r, s\<lparr>last_rand := l\<rparr>)"
    "r = None \<longleftrightarrow> \<not> waiting s immediate_sets p" "\<forall>w. r = Some w \<longrightarrow> (\<exists>k. offered SetOperation s immediate_sets p w k)"
    using get_ok [OF assms(1,2), of SetOperation immediate_sets] by (elim exE conjE)
  obtain d m where d: "GetWithPriority SetOperation delayed_sets p (s\<lparr>last_rand := l\<rparr>) = Some (d, s\<lparr>last_rand := m\<rparr>)"
    "d = None \<longleftrightarrow> \<not> waiting s delayed_sets p" "\<forall>w. d = Some w \<longrightarrow> (\<exists>k. offered SetOperation s delayed_sets p w k)"
    using get_ok [of "s\<lparr>last_rand := l\<rparr>" p SetOperation delayed_sets] assms(1,2) by auto
  show ?thesis
  proof (cases r)
    case None
    then obtain w where "d = Some w" using assms(3) r(2) d(2) by (auto simp: set_id_ex)
    with None r d True show ?thesis by (auto simp: ChooseWithPriority_def choice_def)
  next
    case (Some w)
    with r True show ?thesis by (auto simp: ChooseWithPriority_def choice_def)
  qed
next
  case False
  obtain r l where r: "GetWithPriorityAndEnqueueOrder SetOperation immediate_sets p s = Some (r, s\<lparr>last_rand := l\<rparr>)"
    "r = None \<longleftrightarrow> \<not> waiting s immediate_sets p" "\<forall>w k. r = Some (w, k) \<longrightarrow> offered SetOperation s immediate_sets p w k"
    using get_order_ok [OF assms(1,2), of SetOperation immediate_sets] by (elim exE conjE)
  have s1: "work_ok (s\<lparr>last_rand := l\<rparr>)" using assms(1) by simp
  obtain d m where d: "GetWithPriorityAndEnqueueOrder SetOperation delayed_sets p (s\<lparr>last_rand := l\<rparr>) = Some (d, s\<lparr>last_rand := m\<rparr>)"
    "d = None \<longleftrightarrow> \<not> waiting s delayed_sets p" "\<forall>w k. d = Some (w, k) \<longrightarrow> offered SetOperation s delayed_sets p w k"
    using get_order_ok [OF s1 assms(2), of SetOperation delayed_sets] by auto
  obtain e n where e: "GetWithPriority SetOperation delayed_sets p (s\<lparr>last_rand := l\<rparr>) = Some (e, s\<lparr>last_rand := n\<rparr>)"
    "e = None \<longleftrightarrow> \<not> waiting s delayed_sets p" "\<forall>w. e = Some w \<longrightarrow> (\<exists>k. offered SetOperation s delayed_sets p w k)"
    using get_ok [OF s1 assms(2), of SetOperation delayed_sets] by auto
  have two: "(\<forall>tid v m. ready (queues s v) = Some (tid, p, m) \<longrightarrow> k \<le> m)"
    if "\<And>v m. ready (queues s v) = Some (delayed_sets, p, m) \<Longrightarrow> k \<le> m"
      "\<And>v m. ready (queues s v) = Some (immediate_sets, p, m) \<Longrightarrow> k \<le> m" for k
  proof (intro allI impI)
    fix tid v m assume "ready (queues s v) = Some (tid, p, m)"
    then show "k \<le> m" using that [of v m] by (cases tid) simp_all
  qed
  show ?thesis
  proof (cases r)
    case None
    then obtain w k where w: "e = Some w" "offered SetOperation s delayed_sets p w k"
      using assms(3) r(2) e(2,3) by (auto simp: set_id_ex)
    have "choice SetOperation s p w False"
      unfolding choice_def
      using w(2) None r(2) two [of k]
      by (intro exI [of _ delayed_sets] exI [of _ k]) (auto simp: offered_def waiting_def)
    with None r(1) e(1) w(1) False show ?thesis
      by (auto simp: ChooseWithPriority_def ChooseImmediateOrDelayedTaskWithPriority_def)
  next
    case (Some x)
    then obtain w k where w: "r = Some (w, k)" "offered SetOperation s immediate_sets p w k" using r(3) by (cases x) auto
    show ?thesis
    proof (cases d)
      case None
      have "choice SetOperation s p w False"
        unfolding choice_def using w(2) None d(2) two [of k]
        by (intro exI [of _ immediate_sets] exI [of _ k]) (auto simp: offered_def waiting_def)
      with w(1) r(1) d(1) None False show ?thesis
        by (auto simp: ChooseWithPriority_def ChooseImmediateOrDelayedTaskWithPriority_def)
    next
      case (Some y)
      then obtain v m where v: "d = Some (v, m)" "offered SetOperation s delayed_sets p v m" using d(3) by (cases y) auto
      show ?thesis
      proof (cases "k < m")
        case True
        have "choice SetOperation s p w False"
          unfolding choice_def using w(2) v(2) True two [of k]
          by (intro exI [of _ immediate_sets] exI [of _ k]) (auto simp: offered_def, meson less_imp_le order_trans)
        with w(1) v(1) r(1) d(1) True False show ?thesis
          by (auto simp: ChooseWithPriority_def ChooseImmediateOrDelayedTaskWithPriority_def)
      next
        case f: False
        have "choice SetOperation s p v True"
          unfolding choice_def using w v(2) f two [of m] False r(2)
          by (intro exI [of _ delayed_sets] exI [of _ m]) (auto simp: offered_def, meson not_le order_trans less_imp_le)
        with w(1) v(1) r(1) d(1) f False show ?thesis
          by (auto simp: ChooseWithPriority_def ChooseImmediateOrDelayedTaskWithPriority_def)
      qed
    qed
  qed
qed

section \<open>Selecting\<close>

abbreviation room :: "'z work_state_scheme \<Rightarrow> bool" where
  "room s \<equiv> selection_count (sel s) + 16 \<le> limit_max int64_t"

abbreviation selected_count :: "'z work_state_scheme \<Rightarrow> nat \<Rightarrow> int" where
  "selected_count s p \<equiv> (if p = kControlPriority then selection_count (sel s) else selection_count (sel s) + 1)"

abbreviation operation_of :: "'z work_state_scheme \<Rightarrow> set_operation" where
  "operation_of s \<equiv> (if random_task_selection (sel s) then SetOperationRandom else SetOperationOldest)"

lemma key_ok_mono:
  "key_ok c p \<Longrightarrow> selection_count c \<le> n \<Longrightarrow> key_ok (c\<lparr>selection_count := n\<rparr>) p"
  by (auto simp: key_ok_def split: if_splits)

lemma key_ok_starvation [simp]:
  "key_ok (c\<lparr>immediate_starvation_count := m\<rparr>) p = key_ok c p" "count_ok (c\<lparr>immediate_starvation_count := m\<rparr>) = count_ok c"
  by (simp_all add: key_ok_def count_ok_def)

lemma set_pq_change: "set (pq_change key ps) = insert (key, snd (hd ps)) (set (tl ps))"
proof -
  have "set xs = set (takeWhile P xs) \<union> set (dropWhile P xs)" for P and xs :: "(int \<times> nat) list"
    by (metis set_append takeWhile_dropWhile_id)
  then show ?thesis unfolding pq_change_def by auto
qed

lemma sel_repD:
  assumes "sel_rep f c"
  obtains ps where "spq_rep (active_priorities c) ps" "\<forall>p \<in> set ps. key_ok c p"
    "snd ` set ps = {i. i < kQueuePriorityCount \<and> (\<exists>sid. f sid i)}" "count_ok c"
  using assms by (auto simp: sel_rep_def active_rep_def)

lemma sel_rep_change:
  assumes "sel_rep f c" "spq_rep (active_priorities c) ps" "ps \<noteq> []" "selection_count c \<le> n" "n + 15 \<le> limit_max int64_t"
    "GetSortKeyForPriority (c\<lparr>selection_count := n\<rparr>) (snd (hd ps)) = Some key" "spq_rep a (pq_change key ps)"
  shows "sel_rep f (c\<lparr>active_priorities := a, selection_count := n, immediate_starvation_count := m\<rparr>)"
proof -
  obtain qs where qs: "spq_rep (active_priorities c) qs" "\<forall>p \<in> set qs. key_ok c p"
    "snd ` set qs = {i. i < kQueuePriorityCount \<and> (\<exists>sid. f sid i)}" "count_ok c" by (rule sel_repD [OF assms(1)])
  have eq: "qs = ps" using spq_rep_unique [OF qs(1) assms(2)] .
  have c: "count_ok (c\<lparr>selection_count := n\<rparr>)" using qs(4) assms(4,5) by (simp add: count_ok_def)
  have p: "snd (hd ps) < kQueuePriorityCount" using qs(3) eq assms(3) by (auto dest: equalityD1 simp: subset_iff)
  have key: "key_ok (c\<lparr>selection_count := n\<rparr>) (key, snd (hd ps))" using sort_key_ok [OF c p] assms(6) by simp
  let ?c = "c\<lparr>active_priorities := a, selection_count := n, immediate_starvation_count := m\<rparr>"
  have c': "?c = (c\<lparr>selection_count := n\<rparr>)\<lparr>active_priorities := a\<rparr>\<lparr>immediate_starvation_count := m\<rparr>" by simp
  show ?thesis
  proof (rule sel_repI [where ps = "pq_change key ps"])
    show "\<forall>p \<in> set (pq_change key ps). key_ok ?c p"
      unfolding set_pq_change c' using key qs(2) assms(3,4) eq
      by (cases ps) (auto intro: key_ok_mono)
    show "count_ok ?c" unfolding c' using c by simp
    show "snd ` set (pq_change key ps) = {i. i < kQueuePriorityCount \<and> (\<exists>sid. f sid i)}"
      unfolding set_pq_change qs(3) [symmetric] eq using assms(3) by (cases ps) auto
  qed (use assms(1,7) in \<open>auto simp: sel_rep_def\<close>)
qed

lemma SelectWorkQueueToService_ok:
  assumes "work_ok s" "spq_rep (active_priorities (sel s)) ps" "ps \<noteq> []" "room s"
  defines "p \<equiv> snd (hd ps)"
  shows "\<exists>w b l a key. SelectWorkQueueToService s = Some (Some w, s\<lparr>last_rand := l,
      sel := (sel s)\<lparr>active_priorities := a, selection_count := selected_count s p,
        immediate_starvation_count := (if b then immediate_starvation_count (sel s) + 1 else 0)\<rparr>\<rparr>)
    \<and> choice (operation_of s) s p w b
    \<and> GetSortKeyForPriority ((sel s)\<lparr>selection_count := selected_count s p\<rparr>) p = Some key \<and> spq_rep a (pq_change key ps)"
proof -
  let ?n = "selected_count s p"
  let ?s = "s\<lparr>sel := (sel s)\<lparr>selection_count := ?n\<rparr>\<rparr>"
  have sr: "sel_rep (non_empty s) (sel s)" using assms(1) by (simp add: work_ok_def)
  obtain qs where qs: "spq_rep (active_priorities (sel s)) qs" "\<forall>p \<in> set qs. key_ok (sel s) p"
    "snd ` set qs = {i. i < kQueuePriorityCount \<and> (\<exists>sid. non_empty s sid i)}" "count_ok (sel s)"
    by (rule sel_repD [OF sr])
  have eq: "qs = ps" using spq_rep_unique [OF qs(1) assms(2)] .
  have "p \<in> snd ` set ps" using assms(3) by (simp add: p_def)
  then have p: "p < kQueuePriorityCount" "\<exists>sid. non_empty s sid p" using qs(3) eq by auto
  have cnt: "0 \<le> selection_count (sel s)" using qs(4) by (simp add: count_ok_def)
  have srt: "sel_rep (non_empty s) ((sel s)\<lparr>selection_count := ?n\<rparr>)"
  proof (rule sel_repI [where ps = ps])
    show "\<forall>p \<in> set ps. key_ok ((sel s)\<lparr>selection_count := ?n\<rparr>) p" using qs(2) eq by (auto intro: key_ok_mono)
  qed (use sr assms(2,4) qs(3) eq cnt in \<open>auto simp: sel_rep_def count_ok_def\<close>)
  then have ok: "work_ok ?s" using assms(1) by (simp add: work_ok_def sets_rep_def heap_view_def)
  have "\<exists>sid. waiting ?s sid p" using p waiting_iff [OF ok p(1)] by simp
  from ChooseWithPriority_ok [OF ok p(1) this, of "operation_of s"] obtain w b l where
    w: "ChooseWithPriority (operation_of s) p ?s = Some (Some w, b, ?s\<lparr>last_rand := l\<rparr>)" "choice (operation_of s) ?s p w b"
    by (elim exE conjE)
  have ch: "choice (operation_of s) s p w b" using w(2) by (simp add: choice_def offered_def waiting_def)
  have "count_ok ((sel s)\<lparr>selection_count := ?n\<rparr>)" using srt by (simp add: sel_rep_def)
  from sort_key_ok [OF this p(1)] obtain key where
    key: "GetSortKeyForPriority ((sel s)\<lparr>selection_count := ?n\<rparr>) p = Some key" by blast
  obtain a where a: "ChangeMinKey (active_priorities (sel s)) key = Some a" "spq_rep a (pq_change key ps)"
    using ChangeMinKey_ok [OF assms(2,3)] by blast
  have in_q: "IsInQueue (active_priorities (sel s)) p = Some True"
    using IsInQueue_ok [OF assms(2) p(1)] \<open>p \<in> snd ` set ps\<close> by simp
  have mn: "min_id (active_priorities (sel s)) = Some p" "\<not> spq_empty (active_priorities (sel s))"
    using min_id_ok [OF assms(2,3)] spq_empty_iff [OF assms(2)] assms(3) by (simp_all add: p_def)
  have add: "arith int64_t (selection_count (sel s) + 1) = Some (selection_count (sel s) + 1)"
    using assms(4) cnt by (simp add: arith_def in_range_def limit_lowest_def)
  have "SelectWorkQueueToService s = Some (Some w, s\<lparr>last_rand := l,
      sel := (sel s)\<lparr>active_priorities := a, selection_count := ?n,
        immediate_starvation_count := (if b then immediate_starvation_count (sel s) + 1 else 0)\<rparr>\<rparr>)"
    using mn w(1) in_q key a(1) add by (cases "p = 0") (simp_all add: SelectWorkQueueToService_def Let_def)
  with ch key a(2) show ?thesis by blast
qed

lemma Select_keeps:
  assumes "work_ok s" "room s" "SelectWorkQueueToService s = Some (r, s')"
  shows "work_ok s'" "queues s' = queues s" "heaps s' = heaps s" "work_state.more s' = work_state.more s"
proof -
  have sr: "sel_rep (non_empty s) (sel s)" using assms(1) by (simp add: work_ok_def)
  obtain ps where ps: "spq_rep (active_priorities (sel s)) ps" "count_ok (sel s)" by (rule sel_repD [OF sr])
  have "work_ok s' \<and> queues s' = queues s \<and> heaps s' = heaps s \<and> work_state.more s' = work_state.more s"
  proof (cases "ps = []")
    case True
    then show ?thesis using assms spq_empty_iff [OF ps(1)] by (simp add: SelectWorkQueueToService_def)
  next
    case False
    from SelectWorkQueueToService_ok [OF assms(1) ps(1) False assms(2)] obtain w b l a key where
      r: "SelectWorkQueueToService s = Some (Some w, s\<lparr>last_rand := l,
        sel := (sel s)\<lparr>active_priorities := a, selection_count := selected_count s (snd (hd ps)),
          immediate_starvation_count := (if b then immediate_starvation_count (sel s) + 1 else 0)\<rparr>\<rparr>)"
      "GetSortKeyForPriority ((sel s)\<lparr>selection_count := selected_count s (snd (hd ps))\<rparr>) (snd (hd ps)) = Some key"
      "spq_rep a (pq_change key ps)" by (elim exE conjE)
    from sel_rep_change [OF sr ps(1) False _ _ r(2,3)] assms(2)
    have "sel_rep (non_empty s) (sel s')" using r(1) assms(3) by auto
    then show ?thesis using r(1) assms(1,3) by (auto simp: work_ok_def sets_rep_def heap_view_def)
  qed
  then show "work_ok s'" "queues s' = queues s" "heaps s' = heaps s" "work_state.more s' = work_state.more s" by auto
qed

section \<open>What the observer is told\<close>

text \<open>
  One operation of a queue or of the sets tells the selector nothing, or that a set became empty, or that a set
  became non-empty, or both of two different sets (when a queue changes its priority).
\<close>

definition told :: "selector \<Rightarrow> selector \<Rightarrow> bool" where
  "told c c' \<longleftrightarrow> c' = c \<or> (\<exists>i. WorkQueueSetBecameEmpty i c = Some c') \<or> (\<exists>i. WorkQueueSetBecameNonEmpty i c = Some c')
     \<or> (\<exists>i j d. i \<noteq> j \<and> WorkQueueSetBecameEmpty i c = Some d \<and> WorkQueueSetBecameNonEmpty j d = Some c')"

lemma heap_op_sel:
  "set_heap_insert sid i e s = Some s' \<Longrightarrow> sel s' = sel s" "set_heap_erase sid i h s = Some s' \<Longrightarrow> sel s' = sel s"
  "set_heap_ChangeKey sid i h e s = Some s' \<Longrightarrow> sel s' = sel s"
  by (auto simp: set_heap_insert_def set_heap_erase_def set_heap_ChangeKey_def split: bind_splits)

lemma notify_sel:
  "notify_empty i s = Some s' \<Longrightarrow> WorkQueueSetBecameEmpty i (sel s) = Some (sel s')"
  "notify_non_empty i s = Some s' \<Longrightarrow> WorkQueueSetBecameNonEmpty i (sel s) = Some (sel s')"
  by (auto simp: notify_empty_def notify_non_empty_def split: bind_splits)

lemma Assign_sel [simp]:
  "sel (AssignToWorkQueueSets w r s) = sel s" "sel (AssignSetIndex w i s) = sel s"
  by (simp_all add: AssignToWorkQueueSets_def AssignSetIndex_def)

lemma told_simps [simp]:
  "told c c" "WorkQueueSetBecameEmpty i c = Some c' \<Longrightarrow> told c c'" "WorkQueueSetBecameNonEmpty i c = Some c' \<Longrightarrow> told c c'"
  by (auto simp: told_def)

lemma OnTaskPushed_told: "OnTaskPushedToEmptyQueue sid w s = Some s' \<Longrightarrow> told (sel s) (sel s')"
  by (auto simp: OnTaskPushedToEmptyQueue_def Let_def split: bind_splits if_splits dest!: heap_op_sel notify_sel)

lemma OnFrontChanged_told: "OnQueuesFrontTaskChanged sid w s = Some s' \<Longrightarrow> told (sel s) (sel s')"
  by (auto simp: OnQueuesFrontTaskChanged_def Let_def split: bind_splits if_splits option.splits dest!: heap_op_sel notify_sel)

lemma OnQueueBlocked_told: "OnQueueBlocked sid w s = Some s' \<Longrightarrow> told (sel s) (sel s')"
  by (auto simp: OnQueueBlocked_def Let_def split: bind_splits if_splits dest!: heap_op_sel notify_sel)

lemma sets_op_told:
  "sets_AddQueue sid w i s = Some s' \<Longrightarrow> told (sel s) (sel s')"
  "sets_RemoveQueue sid w s = Some s' \<Longrightarrow> told (sel s) (sel s')"
  "sets_ChangeSetIndex sid w i s = Some s' \<Longrightarrow> told (sel s) (sel s')"
proof -
  show "told (sel s) (sel s')" if "sets_AddQueue sid w i s = Some s'"
    using that
    by (auto simp: sets_AddQueue_def Let_def split: bind_splits if_splits option.splits dest!: heap_op_sel notify_sel)
  show "told (sel s) (sel s')" if "sets_RemoveQueue sid w s = Some s'"
    using that
    by (auto simp: sets_RemoveQueue_def Let_def split: bind_splits if_splits dest!: heap_op_sel notify_sel)
  show "told (sel s) (sel s')" if "sets_ChangeSetIndex sid w i s = Some s'"
    using that
    by (auto simp: sets_ChangeSetIndex_def Let_def split: bind_splits if_splits option.splits dest!: heap_op_sel notify_sel)
      (force simp: told_def)
qed

lemma pusher_sel: "pusher_push_all tp ts s = Some s' \<Longrightarrow> sel s' = sel s"
  by (induction ts arbitrary: s) (auto simp: TaskPusher_Push_def Let_def split: bind_splits if_splits)

lemma run_op_told:
  assumes "run_op op s = Some s'"
  shows "told (sel s) (sel s')"
proof (cases op)
  case (Op_Push w t)
  then show ?thesis
    using assms by (auto simp: wq_Push_def Let_def split: bind_splits if_splits option.splits dest!: OnTaskPushed_told)
next
  case (Op_PushBatch w ts)
  then show ?thesis
    using assms
    by (auto simp: push_batch_def TaskPusher_delete_def Let_def split: bind_splits if_splits option.splits
        dest!: OnTaskPushed_told pusher_sel)
next
  case (Op_PushFront w t)
  then show ?thesis
    using assms
    by (auto simp: PushNonNestableTaskToFront_def Let_def split: bind_splits if_splits option.splits
        dest!: OnTaskPushed_told OnFrontChanged_told)
next
  case (Op_InsertFence w k)
  then show ?thesis
    using assms
    by (auto simp: wq_InsertFence_def Let_def split: bind_splits if_splits option.splits
        dest!: OnTaskPushed_told OnQueueBlocked_told)
next
  case (Op_RemoveFence w)
  then show ?thesis
    using assms
    by (auto simp: wq_RemoveFence_def Let_def split: bind_splits if_splits option.splits dest!: OnTaskPushed_told)
next
  case (Op_DeleteTasks w)
  then show ?thesis
    using assms
    by (auto simp: wq_DeletePendingTasks_def Let_def split: bind_splits if_splits option.splits dest!: OnFrontChanged_told)
qed (use assms sets_op_told in auto)

section \<open>No starvation\<close>

text \<open>How the active priorities and their keys change when the selector is told something.\<close>

lemma sort_key_cong:
  "selection_count c' = selection_count c \<Longrightarrow> anti_starvation_disabled c' = anti_starvation_disabled c \<Longrightarrow>
     GetSortKeyForPriority c' = GetSortKeyForPriority c"
  by (rule ext) (simp only: GetSortKeyForPriority_def)

lemma spq_insert_rep:
  assumes "spq_rep q ps" "spq_insert q k i = Some q'"
  shows "i \<notin> snd ` set ps \<and> spq_rep q' (pq_insert k i ps)"
proof -
  have i: "i < kQueuePriorityCount" "IsInQueue q i = Some False"
    using assms(2) by (auto simp: spq_insert_def split: bind_splits if_splits)
  then have "i \<notin> snd ` set ps" using IsInQueue_ok [OF assms(1) i(1)] by simp
  with spq_insert_ok [OF assms(1) i(1), of k] assms(2) show ?thesis by auto
qed

lemma spq_erase_rep:
  assumes "spq_rep q ps" "spq_erase q i = Some q'"
  shows "spq_rep q' (filter (\<lambda>p. snd p \<noteq> i) ps)"
proof -
  have i: "i < kQueuePriorityCount" "IsInQueue q i = Some True"
    using assms(2) by (auto simp: spq_erase_def split: bind_splits if_splits)
  then have "i \<in> snd ` set ps" using IsInQueue_ok [OF assms(1) i(1)] by simp
  with spq_erase_ok [OF assms(1), of i] assms(2) show ?thesis by auto
qed

definition rekeyed :: "selector \<Rightarrow> (int \<times> nat) list \<Rightarrow> (int \<times> nat) list \<Rightarrow> bool" where
  "rekeyed c ps ps' \<longleftrightarrow>
     (\<forall>p \<in> set ps'. p \<in> set ps \<or> (snd p \<notin> snd ` set ps \<and> GetSortKeyForPriority c (snd p) = Some (fst p)))"

lemma rekeyedD:
  "rekeyed c ps ps' \<Longrightarrow> (k, r) \<in> set ps' \<Longrightarrow> (k, r) \<in> set ps \<or> (r \<notin> snd ` set ps \<and> GetSortKeyForPriority c r = Some k)"
  unfolding rekeyed_def by force

lemma BecameEmpty_keys:
  assumes "WorkQueueSetBecameEmpty i c = Some c'" "spq_rep (active_priorities c) ps"
  shows "\<exists>ps'. spq_rep (active_priorities c') ps' \<and> set ps' \<subseteq> set ps \<and> (\<forall>p \<in> set ps. snd p \<noteq> i \<longrightarrow> p \<in> set ps')"
proof -
  have "active_priorities c' = active_priorities c \<or> spq_erase (active_priorities c) i = Some (active_priorities c')"
    using assms(1) by (auto simp: WorkQueueSetBecameEmpty_def Let_def split: bind_splits if_splits)
  then show ?thesis
  proof
    assume "active_priorities c' = active_priorities c"
    then show ?thesis using assms(2) by auto
  next
    assume "spq_erase (active_priorities c) i = Some (active_priorities c')"
    from spq_erase_rep [OF assms(2) this] show ?thesis by auto
  qed
qed

lemma BecameNonEmpty_keys:
  assumes "WorkQueueSetBecameNonEmpty i c = Some c'" "spq_rep (active_priorities c) ps"
  shows "\<exists>ps'. spq_rep (active_priorities c') ps' \<and> (\<forall>p \<in> set ps'. p \<in> set ps
      \<or> snd p = i \<and> i \<notin> snd ` set ps \<and> GetSortKeyForPriority c i = Some (fst p))"
proof -
  have "GetSortKeyForPriority (c\<lparr>non_empty_set_counts := n\<rparr>) = GetSortKeyForPriority c" for n
    by (rule sort_key_cong) simp_all
  then have "active_priorities c' = active_priorities c
      \<or> (\<exists>k. GetSortKeyForPriority c i = Some k \<and> spq_insert (active_priorities c) k i = Some (active_priorities c'))"
    using assms(1) by (auto simp: WorkQueueSetBecameNonEmpty_def Let_def split: bind_splits if_splits)
  then show ?thesis
  proof
    assume "active_priorities c' = active_priorities c"
    then show ?thesis using assms(2) by auto
  next
    assume "\<exists>k. GetSortKeyForPriority c i = Some k \<and> spq_insert (active_priorities c) k i = Some (active_priorities c')"
    then obtain k where k: "GetSortKeyForPriority c i = Some k" "spq_insert (active_priorities c) k i = Some (active_priorities c')" by blast
    from spq_insert_rep [OF assms(2) k(2)] k(1) show ?thesis by (intro exI [of _ "pq_insert k i ps"]) auto
  qed
qed

lemma told_keys:
  assumes "told c c'" "spq_rep (active_priorities c) ps"
  shows "\<exists>ps'. spq_rep (active_priorities c') ps' \<and> rekeyed c ps ps'"
proof -
  consider "c' = c" | i where "WorkQueueSetBecameEmpty i c = Some c'" | i where "WorkQueueSetBecameNonEmpty i c = Some c'"
    | i j d where "i \<noteq> j" "WorkQueueSetBecameEmpty i c = Some d" "WorkQueueSetBecameNonEmpty j d = Some c'"
    using assms(1) unfolding told_def by blast
  then show ?thesis
  proof cases
    case 1
    then show ?thesis using assms(2) by (auto simp: rekeyed_def)
  next
    case 2
    then show ?thesis using BecameEmpty_keys [OF 2 assms(2)] unfolding rekeyed_def by blast
  next
    case 3
    then show ?thesis using BecameNonEmpty_keys [OF 3 assms(2)] unfolding rekeyed_def by metis
  next
    case 4
    obtain qs where qs: "spq_rep (active_priorities d) qs" "set qs \<subseteq> set ps" "\<forall>p \<in> set ps. snd p \<noteq> i \<longrightarrow> p \<in> set qs"
      using BecameEmpty_keys [OF 4(2) assms(2)] by blast
    have "GetSortKeyForPriority d = GetSortKeyForPriority c"
      using sel_fields(1) [OF 4(2)] by (intro sort_key_cong) auto
    moreover have "j \<notin> snd ` set qs \<Longrightarrow> j \<notin> snd ` set ps" using qs(3) 4(1) by force
    ultimately show ?thesis
      using BecameNonEmpty_keys [OF 4(3) qs(1)] qs(2) unfolding rekeyed_def by (metis subsetD)
  qed
qed

text \<open>
  The measure of a starving priority \<open>p\<close> with key \<open>K\<close>: the selections left before the counter passes
  \<open>K\<close>, and after that the priorities that are still in front of it.
\<close>

definition in_front :: "(int \<times> nat) list \<Rightarrow> nat \<Rightarrow> int \<Rightarrow> nat set" where
  "in_front ps p K = {r. r \<noteq> p \<and> (\<exists>k \<le> K. (k, r) \<in> set ps)}"

definition hunger :: "selector \<Rightarrow> (int \<times> nat) list \<Rightarrow> nat \<Rightarrow> int \<Rightarrow> nat" where
  "hunger c ps p K =
     (if selection_count c \<le> K then nat (K + 1 - selection_count c) + 4 else card (in_front ps p K))"

lemma in_front_middle:
  assumes "\<forall>q \<in> set ps. key_ok c q" "snd ` set ps \<subseteq> {1..<kQueuePriorityCount}" "K < limit_max int64_t"
  shows "in_front ps p K \<subseteq> {1..5} - {p}"
proof
  fix r assume "r \<in> in_front ps p K"
  then obtain k where r: "r \<noteq> p" "k \<le> K" "(k, r) \<in> set ps" by (auto simp: in_front_def)
  then have "r \<in> {1..<kQueuePriorityCount}" "key_ok c (k, r)" using assms(1,2) by auto
  moreover have "r \<noteq> kBestEffortPriority" using calculation(2) r(2) assms(3) by (auto simp: key_ok_def)
  ultimately show "r \<in> {1..5} - {p}" using r(1) by auto
qed

lemma in_front_card:
  assumes "in_front ps p K \<subseteq> {1..5} - {p}" "p \<in> {1..5}"
  shows "finite (in_front ps p K)" "card (in_front ps p K) \<le> 4"
proof -
  show "finite (in_front ps p K)" using finite_subset [OF assms(1)] by simp
  have "card (in_front ps p K) \<le> card ({1..5} - {p})" using assms(1) by (intro card_mono) auto
  also have "\<dots> = 4" using assms(2) by simp
  finally show "card (in_front ps p K) \<le> 4" .
qed

lemma sort_key_late:
  assumes "r \<in> {1..<kQueuePriorityCount}" "\<not> anti_starvation_disabled c" "GetSortKeyForPriority c r = Some k"
  shows "selection_count c \<le> k \<or> k = limit_max int64_t"
proof -
  have "r \<in> {1, 2, 3, 4, 5, 6}" using assms(1) by auto
  then show ?thesis
    using assms(2,3)
    by (auto simp: GetSortKeyForPriority_def per_priority_starvation_tolerance_def arith_def split: if_splits)
qed

text \<open>The invariant of a starving priority, and that neither kind of step breaks it.\<close>

definition starving :: "'z work_state_scheme \<Rightarrow> (int \<times> nat) list \<Rightarrow> nat \<Rightarrow> int \<Rightarrow> bool" where
  "starving s ps p K \<longleftrightarrow>
     work_ok s \<and> spq_rep (active_priorities (sel s)) ps \<and> (K, p) \<in> set ps \<and> K < limit_max int64_t
     \<and> p \<in> {1..5} \<and> \<not> anti_starvation_disabled (sel s) \<and> snd ` set ps \<subseteq> {1..<kQueuePriorityCount}"

lemma work_ok_active:
  assumes "work_ok s" "spq_rep (active_priorities (sel s)) ps"
  shows "\<forall>q \<in> set ps. key_ok (sel s) q" "snd ` set ps = {i. i < kQueuePriorityCount \<and> (\<exists>sid. waiting s sid i)}" "count_ok (sel s)"
proof -
  have sr: "sel_rep (non_empty s) (sel s)" using assms(1) by (simp add: work_ok_def)
  obtain qs where qs: "spq_rep (active_priorities (sel s)) qs" "\<forall>p \<in> set qs. key_ok (sel s) p"
    "snd ` set qs = {i. i < kQueuePriorityCount \<and> (\<exists>sid. non_empty s sid i)}" "count_ok (sel s)"
    by (rule sel_repD [OF sr])
  have eq: "qs = ps" using spq_rep_unique [OF qs(1) assms(2)] .
  show "\<forall>q \<in> set ps. key_ok (sel s) q" "count_ok (sel s)" using qs eq by simp_all
  show "snd ` set ps = {i. i < kQueuePriorityCount \<and> (\<exists>sid. waiting s sid i)}"
    using qs(3) eq waiting_iff [OF assms(1)] by (simp cong: conj_cong)
qed

lemma starving_told:
  assumes "starving s ps p K" "told (sel s) (sel s')" "work_ok s'" "\<exists>sid. waiting s' sid p" "\<forall>sid. \<not> waiting s' sid kControlPriority"
  shows "\<exists>ps'. starving s' ps' p K \<and> hunger (sel s') ps' p K \<le> hunger (sel s) ps p K"
proof -
  have st: "work_ok s" "spq_rep (active_priorities (sel s)) ps" "(K, p) \<in> set ps" "K < limit_max int64_t" "p \<in> {1..5}"
    "\<not> anti_starvation_disabled (sel s)" "snd ` set ps \<subseteq> {1..<kQueuePriorityCount}" using assms(1) by (auto simp: starving_def)
  obtain ps' where ps': "spq_rep (active_priorities (sel s')) ps'" "rekeyed (sel s) ps ps'"
    using told_keys [OF assms(2) st(2)] by blast
  have same: "selection_count (sel s') = selection_count (sel s)" "anti_starvation_disabled (sel s') = anti_starvation_disabled (sel s)"
    using assms(2) by (auto simp: told_def dest!: sel_fields)
  have ids: "snd ` set ps' = {i. i < kQueuePriorityCount \<and> (\<exists>sid. waiting s' sid i)}" using work_ok_active(2) [OF assms(3) ps'(1)] .
  have mid: "snd ` set ps' \<subseteq> {1..<kQueuePriorityCount}"
  proof
    fix i assume "i \<in> snd ` set ps'"
    then have "i < kQueuePriorityCount" "i \<noteq> 0" using ids assms(5) by auto
    then show "i \<in> {1..<kQueuePriorityCount}" by simp
  qed
  have "p \<in> snd ` set ps'" using ids assms(4) st(5) by auto
  then obtain k where k: "(k, p) \<in> set ps'" by auto
  moreover have "p \<in> snd ` set ps" using st(3) by force
  ultimately have "(k, p) \<in> set ps" using rekeyedD [OF ps'(2)] by blast
  moreover have "distinct (map snd ps)" using st(2) by (simp add: spq_rep_def)
  ultimately have "k = K" using st(3) by (metis (no_types, lifting) eq_key_imp_eq_value distinct_map inj_on_def snd_conv prod.inject)
  then have sv: "starving s' ps' p K" using k st same mid ps'(1) assms(3) by (simp add: starving_def)
  have "in_front ps' p K \<subseteq> in_front ps p K" if "K < selection_count (sel s)"
  proof
    fix r assume "r \<in> in_front ps' p K"
    then obtain k where r: "r \<noteq> p" "k \<le> K" "(k, r) \<in> set ps'" by (auto simp: in_front_def)
    have "r \<in> {1..<kQueuePriorityCount}" using mid r(3) by force
    from sort_key_late [OF this st(6), of k] have "GetSortKeyForPriority (sel s) r \<noteq> Some k"
      using r(2) that st(4) by auto
    then have "(k, r) \<in> set ps" using rekeyedD [OF ps'(2) r(3)] by blast
    then show "r \<in> in_front ps p K" using r by (auto simp: in_front_def)
  qed
  then have "hunger (sel s') ps' p K \<le> hunger (sel s) ps p K"
    using in_front_card(1) [OF in_front_middle [OF work_ok_active(1) [OF st(1,2)] st(7,4)] st(5)]
    by (auto simp: hunger_def same intro: card_mono)
  with sv show ?thesis by blast
qed

lemma starving_selected:
  assumes "starving s ps p K" "room s" "SelectWorkQueueToService s = Some (Some w, s')" "wq_set_index (queues s w) \<noteq> p"
  shows "\<exists>ps'. starving s' ps' p K \<and> hunger (sel s') ps' p K < hunger (sel s) ps p K"
proof -
  have st: "work_ok s" "spq_rep (active_priorities (sel s)) ps" "(K, p) \<in> set ps" "K < limit_max int64_t" "p \<in> {1..5}"
    "\<not> anti_starvation_disabled (sel s)" "snd ` set ps \<subseteq> {1..<kQueuePriorityCount}" using assms(1) by (auto simp: starving_def)
  have ne: "ps \<noteq> []" using st(3) by auto
  let ?r = "snd (hd ps)" and ?n = "selection_count (sel s) + 1"
  have hd: "hd ps \<in> set ps" using ne by simp
  then have r: "?r \<in> {1..<kQueuePriorityCount}" using st(7) by auto
  then have n: "selected_count s ?r = ?n" by auto
  from SelectWorkQueueToService_ok [OF st(1,2) ne assms(2)] obtain v b l a key where
    v: "SelectWorkQueueToService s = Some (Some v, s\<lparr>last_rand := l,
      sel := (sel s)\<lparr>active_priorities := a, selection_count := selected_count s ?r,
        immediate_starvation_count := (if b then immediate_starvation_count (sel s) + 1 else 0)\<rparr>\<rparr>)"
    "choice (operation_of s) s ?r v b"
    "GetSortKeyForPriority ((sel s)\<lparr>selection_count := selected_count s ?r\<rparr>) ?r = Some key" "spq_rep a (pq_change key ps)"
    by (elim exE conjE)
  have s': "s' = s\<lparr>last_rand := l, sel := (sel s)\<lparr>active_priorities := a, selection_count := ?n,
        immediate_starvation_count := (if b then immediate_starvation_count (sel s) + 1 else 0)\<rparr>\<rparr>" and "v = w"
    using v(1) assms(3) n by simp_all
  have "wq_set_index (queues s v) = ?r" using v(2) readyD(2) by (auto simp: choice_def offered_def)
  then have rp: "?r \<noteq> p" using assms(4) \<open>v = w\<close> by simp
  obtain qs where qs: "ps = hd ps # qs" using ne by (cases ps) auto
  have set': "set (pq_change key ps) = insert (key, ?r) (set qs)" using set_pq_change [of key ps] qs by (metis list.sel(3))
  have Kq: "(K, p) \<in> set qs" using st(3) qs rp by (metis set_ConsD snd_conv)
  have le: "fst (hd ps) \<le> K"
  proof -
    have "sorted (map fst ps)" using st(2) by (simp add: spq_rep_def)
    then have "sorted (fst (hd ps) # map fst qs)" by (subst (asm) qs) simp
    with Kq show ?thesis by force
  qed
  have late: "?n \<le> key \<or> key = limit_max int64_t"
    using sort_key_late [OF r, of "(sel s)\<lparr>selection_count := selected_count s ?r\<rparr>" key] v(3) st(6) n by simp
  have sub: "snd ` set (pq_change key ps) \<subseteq> {1..<kQueuePriorityCount}"
    using st(7) r qs unfolding set' by (metis image_insert image_mono insert_subset list.set(2) order_trans set_subset_Cons snd_conv)
  have sv: "starving s' (pq_change key ps) p K"
    using st Kq v(4) set' sub Select_keeps(1) [OF st(1) assms(2,3)] by (simp add: starving_def s')
  have fr: "in_front ps p K \<subseteq> {1..5} - {p}" using in_front_middle [OF work_ok_active(1) [OF st(1,2)] st(7,4)] .
  have "in_front (pq_change key ps) p K \<subseteq> {1..5} - {p}"
    using sv unfolding starving_def by (intro in_front_middle [OF work_ok_active(1), of s']) simp_all
  note fr' = in_front_card [OF this st(5)]
  have "hunger (sel s') (pq_change key ps) p K < hunger (sel s) ps p K"
  proof (cases "selection_count (sel s) \<le> K")
    case True
    then show ?thesis using fr'(2) by (auto simp: hunger_def s')
  next
    case False
    have "in_front (pq_change key ps) p K \<subseteq> in_front ps p K - {?r}"
    proof
      fix x assume "x \<in> in_front (pq_change key ps) p K"
      then obtain k where x: "x \<noteq> p" "k \<le> K" "(k, x) \<in> set (pq_change key ps)" by (auto simp: in_front_def)
      then have "(k, x) \<in> set qs" using late False st(4) unfolding set' by auto
      moreover have "?r \<notin> snd ` set qs"
        using st(2) by (subst (asm) qs) (simp add: spq_rep_def)
      ultimately have "x \<noteq> ?r" by (metis image_eqI snd_conv)
      moreover have "(k, x) \<in> set ps" using qs \<open>(k, x) \<in> set qs\<close> by (metis list.set_intros(2))
      ultimately show "x \<in> in_front ps p K - {?r}" using x by (auto simp: in_front_def)
    qed
    moreover have "?r \<in> in_front ps p K"
      using rp le hd unfolding in_front_def by (metis (mono_tags, lifting) mem_Collect_eq prod.collapse)
    ultimately have "in_front (pq_change key ps) p K \<subset> in_front ps p K" by blast
    then have "card (in_front (pq_change key ps) p K) < card (in_front ps p K)"
      using in_front_card(1) [OF fr st(5)] by (rule psubset_card_mono [rotated])
    then show ?thesis using False by (simp add: hunger_def s')
  qed
  with sv show ?thesis by blast
qed

text \<open>
  A run of the scheduler during which priority \<open>p\<close> always has a task that may run and no control
  task is waiting; \<open>n\<close> counts the selections, none of which chooses \<open>p\<close>.
\<close>

inductive starving_run :: "nat \<Rightarrow> 'z work_state_scheme \<Rightarrow> nat \<Rightarrow> 'z work_state_scheme \<Rightarrow> bool" for p s where
  start: "\<exists>sid. waiting s sid p \<Longrightarrow> \<forall>sid. \<not> waiting s sid kControlPriority \<Longrightarrow> starving_run p s 0 s"
| other: "starving_run p s n t \<Longrightarrow> told (sel t) (sel u) \<Longrightarrow> work_ok u \<Longrightarrow> \<exists>sid. waiting u sid p \<Longrightarrow>
    \<forall>sid. \<not> waiting u sid kControlPriority \<Longrightarrow> starving_run p s n u"
| select: "starving_run p s n t \<Longrightarrow> room t \<Longrightarrow> SelectWorkQueueToService t = Some (Some w, u) \<Longrightarrow>
    wq_set_index (queues t w) \<noteq> p \<Longrightarrow> starving_run p s (Suc n) u"

lemma starving_run_hunger:
  assumes "starving_run p s n t" "starving s ps p K"
  shows "\<exists>ps'. starving t ps' p K \<and> n + hunger (sel t) ps' p K \<le> hunger (sel s) ps p K"
  using assms
proof (induction rule: starving_run.induct)
  case start
  then show ?case by auto
next
  case (other n t u)
  then obtain ps' where ps': "starving t ps' p K" "n + hunger (sel t) ps' p K \<le> hunger (sel s) ps p K" by blast
  from starving_told [OF ps'(1) other.hyps(2-5)] ps'(2) show ?case by force
next
  case (select n t w u)
  then obtain ps' where ps': "starving t ps' p K" "n + hunger (sel t) ps' p K \<le> hunger (sel s) ps p K" by blast
  from starving_selected [OF ps'(1) select.hyps(2-4)] ps'(2) show ?case by force
qed

section \<open>Properties\<close>

lemma active_order:
  assumes "work_ok s" "spq_rep (active_priorities (sel s)) ps" "ps \<noteq> []" "room s \<or> anti_starvation_disabled (sel s)"
  defines "p \<equiv> snd (hd ps)"
  shows "waiting s sid q \<Longrightarrow> q < kQueuePriorityCount \<Longrightarrow> p = kControlPriority \<or> q \<noteq> kControlPriority"
    "waiting s sid q \<Longrightarrow> q < kQueuePriorityCount \<Longrightarrow> p \<noteq> kBestEffortPriority \<or> q = kBestEffortPriority"
    "waiting s sid q \<Longrightarrow> q < kQueuePriorityCount \<Longrightarrow> anti_starvation_disabled (sel s) \<Longrightarrow> p \<le> q"
proof -
  note act = work_ok_active [OF assms(1,2)]
  let ?k = "fst (hd ps)"
  have hd: "(?k, p) \<in> set ps" using assms(3) by (simp add: p_def)
  then have p: "key_ok (sel s) (?k, p)" "p < kQueuePriorityCount" using act(1,2) by force+
  have cnt: "0 \<le> selection_count (sel s)" using act(3) by (simp add: count_ok_def)
  have least: "\<exists>k \<ge> ?k. key_ok (sel s) (k, q)" if "waiting s sid q" "q < kQueuePriorityCount" for q
  proof -
    have "q \<in> snd ` set ps" using act(2) that by auto
    then obtain k where k: "(k, q) \<in> set ps" by auto
    obtain qs where qs: "ps = hd ps # qs" using assms(3) by (cases ps) auto
    have "sorted (map fst ps)" using assms(2) by (simp add: spq_rep_def)
    then have "sorted (?k # map fst qs)" by (subst (asm) qs) simp
    then have "?k \<le> k" using k qs by (metis fst_conv image_eqI list.set_map order_refl set_ConsD sorted_simps(2))
    then show ?thesis using act(1) k by auto
  qed
  have mid: "0 \<le> k \<and> k < limit_max int64_t" if "key_ok (sel s) (k, r)" "r \<in> {1..5}" for k r
  proof -
    have "r \<in> {1, 2, 3, 4, 5}" using that(2) by auto
    then show ?thesis
      using that(1) assms(4) cnt
      by (auto simp: key_ok_def per_priority_starvation_tolerance_def limit_max_def split: if_splits)
  qed
  have keys: "(r = 0 \<longrightarrow> k = limit_lowest int64_t) \<and> (r = 6 \<longrightarrow> k = limit_max int64_t)
      \<and> (anti_starvation_disabled (sel s) \<and> r \<in> {1..5} \<longrightarrow> k = per_priority_starvation_tolerance ! r)" if "key_ok (sel s) (k, r)" for k r
    using that by (auto simp: key_ok_def)
  have rng: "q = 0 \<or> q \<in> {1..5} \<or> q = 6" if "q < kQueuePriorityCount" for q :: nat using that by auto
  show "p = kControlPriority \<or> q \<noteq> kControlPriority" if "waiting s sid q" "q < kQueuePriorityCount"
  proof (rule ccontr)
    assume "\<not> (p = kControlPriority \<or> q \<noteq> kControlPriority)"
    with least [OF that] keys have "?k \<le> limit_lowest int64_t" "p \<noteq> 0" by auto
    with mid [OF p(1)] rng [OF p(2)] keys [OF p(1)] show False by (auto simp: limit_lowest_def limit_max_def)
  qed
  show "p \<noteq> kBestEffortPriority \<or> q = kBestEffortPriority" if wq: "waiting s sid q" "q < kQueuePriorityCount"
  proof (rule ccontr)
    assume a: "\<not> (p \<noteq> kBestEffortPriority \<or> q = kBestEffortPriority)"
    with keys [OF p(1)] have "?k = limit_max int64_t" by auto
    with least [OF wq] obtain k where k: "limit_max int64_t \<le> k" "key_ok (sel s) (k, q)" by auto
    with mid [OF k(2)] keys [OF k(2)] rng [OF wq(2)] a show False by (auto simp: limit_lowest_def limit_max_def)
  qed
  show "p \<le> q" if wq: "waiting s sid q" "q < kQueuePriorityCount" "anti_starvation_disabled (sel s)"
  proof (rule ccontr)
    assume a: "\<not> p \<le> q"
    obtain k where k: "?k \<le> k" "key_ok (sel s) (k, q)" using least [OF wq(1,2)] by blast
    have "q \<noteq> 6" "p \<noteq> 0" using a p(2) by auto
    then have "q = 0 \<or> q \<in> {1..5}" "p \<in> {1..5} \<or> p = 6" using rng [OF wq(2)] rng [OF p(2)] by blast+
    moreover have "per_priority_starvation_tolerance ! q < per_priority_starvation_tolerance ! p" if "q \<in> {1..5}" "p \<in> {1..5}"
    proof -
      have "q \<in> {1, 2, 3, 4, 5}" "p \<in> {1, 2, 3, 4, 5}" using that by auto
      then show ?thesis using a by (auto simp: per_priority_starvation_tolerance_def)
    qed
    ultimately show False
      using a k(1) keys [OF p(1)] keys [OF k(2)] wq(3) mid [OF p(1)] mid [OF k(2)]
      by (auto simp: limit_lowest_def limit_max_def)
  qed
qed


lemma demo_select:
  "map_option (\<lambda>s. (selection_count (sel s), map_option fst (SelectWorkQueueToService s)))
    (run_ops demo_ops (initial_work_state False 0)) = Some (0, Some (Some (2, kImmediate)))"
  by code_simp


end
