(* ===== verification/Task_Queue.thy ===== *)
theory Task_Queue
  imports Task_Queue_Selector Time_Arith
begin

text \<open>
  TaskQueueImpl and TimeDomain (base/task/sequence_manager/task_queue_impl.h and .cc, time_domain.h and .cc),
  with the operations of WorkQueue that reload from a TaskQueueImpl.

  The record \<open>scheduler\<close> extends the state of the work queues by the TaskQueueImpl objects, the time domains, the
  generator of enqueue orders and a log of the calls that leave the modelled part (the thread controller and
  the observer of a queue).  A task queue and a time domain are named by numbers.  Every operation is one step
  of the state: the code holds any_thread_lock while it touches what other threads may touch.  A LazyNow is the
  time that it yields.  Handlers and observers of tasks, tracing and crash keys are not modelled.
\<close>

section \<open>Delayed tasks\<close>

datatype wake_up_resolution = kLow | kHigh

record delayed_wake_up =
  wu_time :: int
  wu_sequence_num :: int

text \<open>
  DelayedWakeUp::operator<=.  The difference is one of int, so it may overflow.  The DCHECK exempts an object that
  is compared with itself; the only caller compares for equality before.
\<close>

definition delayed_wake_up_le :: "delayed_wake_up \<Rightarrow> delayed_wake_up \<Rightarrow> bool option" where
  "delayed_wake_up_le w other =
     (if wu_time w = wu_time other
      then do { DCHECK (wu_sequence_num w \<noteq> wu_sequence_num other);
                d \<leftarrow> arith int32_t (wu_sequence_num w - wu_sequence_num other);
                Some (d \<le> 0) }
      else Some (wu_time w < wu_time other))"

definition task_delayed_wake_up :: "'c task \<Rightarrow> delayed_wake_up" where
  "task_delayed_wake_up t = \<lparr>wu_time = delayed_run_time t, wu_sequence_num = sequence_num t\<rparr>"

record 'c posted_task =
  pt_callback :: "'c option"
  pt_delay :: int
  pt_nestable :: bool

definition Task :: "'c posted_task \<Rightarrow> int \<Rightarrow> nat \<Rightarrow> nat \<Rightarrow> wake_up_resolution \<Rightarrow> 'c task" where
  "Task posted desired_run_time sequence_order order res =
     \<lparr>callback = pt_callback posted, delayed_run_time = desired_run_time, nestable = pt_nestable posted,
      sequence_num = static_cast int32_t (int sequence_order), is_high_res = (res = kHigh),
      enqueue_order_set_to = order\<rparr>"

text \<open>
  PendingTask::operator<, by which std::priority_queue orders the delayed tasks: the greatest task is the
  one to run first.
\<close>

definition task_less :: "closure task \<Rightarrow> closure task \<Rightarrow> bool option" where
  "task_less t other =
     (if delayed_run_time t < delayed_run_time other then Some False
      else if delayed_run_time other < delayed_run_time t then Some True
      else do { d \<leftarrow> arith int32_t (sequence_num t - sequence_num other); Some (0 < d) })"

text \<open>
  The std::priority_queue is the list of its elements from the top; sequence numbers of tasks
  differ, so the order of extraction determines it.  Which elements the library compares depends on how it arranges
  them, so an operation fails if the comparison of any two elements overflows.
\<close>

definition orderable :: "closure task list \<Rightarrow> bool" where
  "orderable ts = list_all (\<lambda>t. list_all (\<lambda>u. task_less t u \<noteq> None) ts) ts"

primrec priority_push :: "closure task \<Rightarrow> closure task list \<Rightarrow> closure task list" where
  "priority_push t [] = [t]"
| "priority_push t (x # xs) = (if task_less x t = Some True then t # x # xs else x # priority_push t xs)"

definition make_heap :: "closure task list \<Rightarrow> closure task list option" where
  "make_heap c = do { DCHECK (orderable c); Some (foldr priority_push c []) }"

record delayed_incoming_queue =
  dq_tasks :: "closure task list"
  dq_high_res :: int

definition DelayedIncomingQueue :: delayed_incoming_queue where
  "DelayedIncomingQueue = \<lparr>dq_tasks = [], dq_high_res = 0\<rparr>"

definition dq_push :: "closure task \<Rightarrow> delayed_incoming_queue \<Rightarrow> delayed_incoming_queue option" where
  "dq_push t dq =
     do { let n = dq_high_res dq + (if is_high_res t then 1 else 0);
          DCHECK (orderable (t # dq_tasks dq));
          Some (dq\<lparr>dq_high_res := n, dq_tasks := priority_push t (dq_tasks dq)\<rparr>) }"

definition dq_top :: "delayed_incoming_queue \<Rightarrow> closure task option" where
  "dq_top dq = (case dq_tasks dq of [] \<Rightarrow> None | t # _ \<Rightarrow> Some t)"

definition dq_pop :: "delayed_incoming_queue \<Rightarrow> delayed_incoming_queue option" where
  "dq_pop dq =
     do { t \<leftarrow> dq_top dq;
          let n = (if is_high_res t then dq_high_res dq - 1 else dq_high_res dq);
          DCHECK (\<not> is_high_res t \<or> 0 \<le> n);
          Some (dq\<lparr>dq_tasks := tl (dq_tasks dq), dq_high_res := n\<rparr>) }"

text \<open>Whether a callback is cancelled is up to the client; the argument \<open>canc\<close> says which callbacks are.\<close>

fun closure_IsCancelled :: "(nat \<Rightarrow> bool) \<Rightarrow> closure \<Rightarrow> bool" where
  "closure_IsCancelled canc (Client n) = canc n"
| "closure_IsCancelled canc (ScheduleDelayedWorkTask t) = False"

definition task_IsCancelled :: "(nat \<Rightarrow> bool) \<Rightarrow> closure task \<Rightarrow> bool option" where
  "task_IsCancelled canc t = do { c \<leftarrow> callback t; Some (closure_IsCancelled canc c) }"

function sweep_loop ::
  "(nat \<Rightarrow> bool) \<Rightarrow> nat \<Rightarrow> closure task list \<Rightarrow> int \<Rightarrow> bool \<Rightarrow> (closure task list \<times> int \<times> bool) option" where
  "sweep_loop canc it c n task_deleted =
     (if it < length c
      then do { b \<leftarrow> task_IsCancelled canc (c ! it);
                if b then sweep_loop canc it (butlast (c[it := last c])) (if is_high_res (c ! it) then n - 1 else n) True
                else sweep_loop canc (it + 1) c n task_deleted }
      else Some (c, n, task_deleted))"
  by pat_completeness auto

termination by (relation "measure (\<lambda>(canc, it, c, n, d). length c - it)") auto

definition SweepCancelledTasks :: "(nat \<Rightarrow> bool) \<Rightarrow> delayed_incoming_queue \<Rightarrow> delayed_incoming_queue option" where
  "SweepCancelledTasks canc dq =
     do { (c, n, task_deleted) \<leftarrow> sweep_loop canc 0 (dq_tasks dq) (dq_high_res dq) False;
          c \<leftarrow> (if task_deleted then make_heap c else Some c);
          Some (dq\<lparr>dq_tasks := c, dq_high_res := n\<rparr>) }"

section \<open>The state\<close>

text \<open>
  The fields of AnyThread and MainThreadOnly.  \<open>tq_work_queues\<close> says that the two unique_ptr to the work queues are
  not null; \<open>tq_reload_flag\<close> is the flag of the queue in empty_queues_to_reload.
\<close>

record task_queue_impl =
  tq_any_time_domain :: "nat option"
  tq_immediate_incoming_queue :: "closure task list"
  tq_immediate_work_queue_empty :: bool
  tq_should_schedule_work :: bool
  tq_unregistered :: bool
  tq_queue_set_index :: nat
  tq_tracing_is_enabled :: bool
  tq_tracing_disabled_time :: "int option"
  tq_tracing_should_report :: bool
  tq_time_domain :: "nat option"
  tq_observer :: bool
  tq_work_queues :: bool
  tq_delayed_incoming_queue :: delayed_incoming_queue
  tq_heap_handle :: "nat option"
  tq_is_enabled :: bool
  tq_current_fence :: nat
  tq_delayed_fence :: "int option"
  tq_last_unblocked :: nat
  tq_scheduled_wake_up :: "delayed_wake_up option"
  tq_disabled_time :: "int option"
  tq_should_report :: bool
  tq_reload_flag :: bool
  tq_delayed_fence_allowed :: bool

record scheduled_wake_up =
  sw_wake_up :: delayed_wake_up
  sw_resolution :: wake_up_resolution
  sw_queue :: nat

definition resolution_le :: "wake_up_resolution \<Rightarrow> wake_up_resolution \<Rightarrow> bool" where
  "resolution_le r other \<longleftrightarrow> (r = kLow \<or> other = kHigh)"

definition scheduled_wake_up_le :: "scheduled_wake_up \<Rightarrow> scheduled_wake_up \<Rightarrow> bool option" where
  "scheduled_wake_up_le e other =
     (if sw_wake_up e = sw_wake_up other then Some (resolution_le (sw_resolution e) (sw_resolution other))
      else delayed_wake_up_le (sw_wake_up e) (sw_wake_up other))"

record time_domain =
  td_wake_ups :: "scheduled_wake_up list"
  td_high_res :: int
  td_now :: int

datatype event = ScheduleWork | SetNextDelayedDoWork int int | OnQueueNextWakeUpChanged nat int

record scheduler = work_state +
  task_queues :: "nat \<Rightarrow> task_queue_impl"
  time_domains :: "nat \<Rightarrow> time_domain"
  order_counter :: nat
  is_cancelled :: "nat \<Rightarrow> bool"
  event_log :: "event list"
  cross_thread_task_delay :: "int list"
  same_thread_task_delay :: "int list"
  add_queue_time_to_tasks :: bool

definition upd :: "nat \<Rightarrow> (task_queue_impl \<Rightarrow> task_queue_impl) \<Rightarrow> scheduler \<Rightarrow> scheduler" where
  "upd q f s = s\<lparr>task_queues := (task_queues s)(q := f (task_queues s q))\<rparr>"

definition emit :: "event \<Rightarrow> scheduler \<Rightarrow> scheduler" where
  "emit e s = s\<lparr>event_log := event_log s @ [e]\<rparr>"

definition GetNextSequenceNumber :: "scheduler \<Rightarrow> nat \<times> scheduler" where
  "GetNextSequenceNumber s = (order_counter s, s\<lparr>order_counter := order_counter s + 1\<rparr>)"

text \<open>The work queues behind the two unique_ptr.\<close>

abbreviation imm :: "scheduler \<Rightarrow> nat \<Rightarrow> work_queue" where "imm s q \<equiv> queues s (q, kImmediate)"

abbreviation del :: "scheduler \<Rightarrow> nat \<Rightarrow> work_queue" where "del s q \<equiv> queues s (q, kDelayed)"

definition work_queues_of :: "nat \<Rightarrow> scheduler \<Rightarrow> unit option" where
  "work_queues_of q s = DCHECK (tq_work_queues (task_queues s q))"

section \<open>TimeDomain\<close>

text \<open>
  The heap of a time domain; its elements keep their handles in the task queues.  The heap calls the comparator as a
  total function, so the value of a comparison that overflows is fixed here (by the sequence numbers), and an
  operation of the heap fails before if any two elements that it may compare have no comparison.
\<close>

definition wake_cmp :: "scheduled_wake_up \<Rightarrow> scheduled_wake_up \<Rightarrow> bool" where
  "wake_cmp a b =
     (case scheduled_wake_up_le b a of
        Some r \<Rightarrow> r
      | None \<Rightarrow> wu_sequence_num (sw_wake_up b) \<le> wu_sequence_num (sw_wake_up a))"

definition wakes_orderable :: "scheduled_wake_up list \<Rightarrow> bool" where
  "wakes_orderable es = list_all (\<lambda>a. list_all (\<lambda>b. scheduled_wake_up_le b a \<noteq> None) es) es"

definition wake_view :: "scheduler \<Rightarrow> nat \<Rightarrow> (scheduled_wake_up, nat) intrusive_heap" where
  "wake_view s d = \<lparr>h_heap = td_wake_ups (time_domains s d), h_handle = (\<lambda>q. tq_heap_handle (task_queues s q))\<rparr>"

definition wake_store :: "scheduler \<Rightarrow> nat \<Rightarrow> (scheduled_wake_up, nat) intrusive_heap \<Rightarrow> scheduler" where
  "wake_store s d h =
     s\<lparr>time_domains := (time_domains s)(d := (time_domains s d)\<lparr>td_wake_ups := h_heap h\<rparr>),
       task_queues := (\<lambda>q. (task_queues s q)\<lparr>tq_heap_handle := h_handle h q\<rparr>)\<rparr>"

definition wake_insert :: "nat \<Rightarrow> scheduled_wake_up \<Rightarrow> scheduler \<Rightarrow> scheduler option" where
  "wake_insert d e s =
     do { DCHECK (wakes_orderable (e # td_wake_ups (time_domains s d)));
          (h, _) \<leftarrow> InsertImpl wake_cmp sw_queue (wake_view s d) e;
          Some (wake_store s d h) }"

definition wake_ChangeKey :: "nat \<Rightarrow> nat \<Rightarrow> scheduled_wake_up \<Rightarrow> scheduler \<Rightarrow> scheduler option" where
  "wake_ChangeKey d pos e s =
     do { DCHECK (wakes_orderable (e # td_wake_ups (time_domains s d)));
          (h, _) \<leftarrow> ReplaceImpl wake_cmp sw_queue (wake_view s d) pos e;
          Some (wake_store s d h) }"

definition wake_erase :: "nat \<Rightarrow> nat \<Rightarrow> scheduler \<Rightarrow> scheduler option" where
  "wake_erase d pos s =
     do { DCHECK (wakes_orderable (td_wake_ups (time_domains s d)));
          h \<leftarrow> heap_erase wake_cmp sw_queue (wake_view s d) pos;
          Some (wake_store s d h) }"

definition NextScheduledRunTime :: "nat \<Rightarrow> scheduler \<Rightarrow> int option option" where
  "NextScheduledRunTime d s =
     (if heap_empty (wake_view s d) then Some None
      else do { e \<leftarrow> heap_top (wake_view s d); Some (Some (wu_time (sw_wake_up e))) })"

definition SetNextWakeUpForQueue ::
  "nat \<Rightarrow> nat \<Rightarrow> delayed_wake_up option \<Rightarrow> wake_up_resolution \<Rightarrow> int \<Rightarrow> scheduler \<Rightarrow> scheduler option" where
  "SetNextWakeUpForQueue d q wake_up resolution lazy_now s =
     do { DCHECK (tq_time_domain (task_queues s q) = Some d);
          DCHECK (tq_is_enabled (task_queues s q) \<or> wake_up = None);
          let handle = tq_heap_handle (task_queues s q);
          previous_wake_up \<leftarrow> NextScheduledRunTime d s;
          previous_queue_resolution \<leftarrow>
            (case handle of None \<Rightarrow> Some None
             | Some pos \<Rightarrow> do { e \<leftarrow> heap_at (wake_view s d) pos; Some (Some (sw_resolution e)) });
          s \<leftarrow> (case wake_up of
                 Some w \<Rightarrow>
                   let e = \<lparr>sw_wake_up = w, sw_resolution = resolution, sw_queue = q\<rparr> in
                   (case handle of Some pos \<Rightarrow> wake_ChangeKey d pos e s | None \<Rightarrow> wake_insert d e s)
               | None \<Rightarrow> (case handle of Some pos \<Rightarrow> wake_erase d pos s | None \<Rightarrow> Some s));
          new_wake_up \<leftarrow> NextScheduledRunTime d s;
          let n = td_high_res (time_domains s d);
          let n = (if previous_queue_resolution = Some kHigh then n - 1 else n);
          let n = (if wake_up \<noteq> None \<and> resolution = kHigh then n + 1 else n);
          DCHECK (0 \<le> n);
          let s = s\<lparr>time_domains := (time_domains s)(d := (time_domains s d)\<lparr>td_high_res := n\<rparr>)\<rparr>;
          if new_wake_up = previous_wake_up then Some s
          else
            let t = (case new_wake_up of None \<Rightarrow> limit_max int64_t | Some t \<Rightarrow> t) in
            if t \<le> lazy_now then Some (emit ScheduleWork s) else Some (emit (SetNextDelayedDoWork lazy_now t) s) }"

definition UnregisterQueue :: "nat \<Rightarrow> nat \<Rightarrow> scheduler \<Rightarrow> scheduler option" where
  "UnregisterQueue d q s =
     do { DCHECK (tq_time_domain (task_queues s q) = Some d);
          SetNextWakeUpForQueue d q None kLow (td_now (time_domains s d)) s }"

definition td_HasPendingHighResolutionTasks :: "nat \<Rightarrow> scheduler \<Rightarrow> bool" where
  "td_HasPendingHighResolutionTasks d s \<longleftrightarrow> td_high_res (time_domains s d) \<noteq> 0"

section \<open>Queries of TaskQueueImpl\<close>

definition HasPendingImmediateWork :: "nat \<Rightarrow> scheduler \<Rightarrow> bool option" where
  "HasPendingImmediateWork q s =
     do { work_queues_of q s;
          Some (wq_tasks (del s q) \<noteq> [] \<or> wq_tasks (imm s q) \<noteq> []
                \<or> tq_immediate_incoming_queue (task_queues s q) \<noteq> []) }"

definition HasTasks :: "nat \<Rightarrow> scheduler \<Rightarrow> bool option" where
  "HasTasks q s =
     do { work_queues_of q s;
          Some (wq_tasks (del s q) \<noteq> [] \<or> wq_tasks (imm s q) \<noteq> []
                \<or> dq_tasks (tq_delayed_incoming_queue (task_queues s q)) \<noteq> []
                \<or> tq_immediate_incoming_queue (task_queues s q) \<noteq> []) }"

definition tq_IsEmpty :: "nat \<Rightarrow> scheduler \<Rightarrow> bool option" where
  "tq_IsEmpty q s =
     do { work_queues_of q s;
          if wq_tasks (del s q) \<noteq> [] \<or> dq_tasks (tq_delayed_incoming_queue (task_queues s q)) \<noteq> []
             \<or> wq_tasks (imm s q) \<noteq> []
          then Some False else Some (tq_immediate_incoming_queue (task_queues s q) = []) }"

definition GetNumberOfPendingTasks :: "nat \<Rightarrow> scheduler \<Rightarrow> nat option" where
  "GetNumberOfPendingTasks q s =
     do { work_queues_of q s;
          Some (length (wq_tasks (del s q)) + length (dq_tasks (tq_delayed_incoming_queue (task_queues s q)))
                + length (wq_tasks (imm s q)) + length (tq_immediate_incoming_queue (task_queues s q))) }"

definition HasTaskToRunImmediately :: "nat \<Rightarrow> scheduler \<Rightarrow> bool option" where
  "HasTaskToRunImmediately q s =
     do { work_queues_of q s;
          if wq_tasks (del s q) \<noteq> [] \<or> wq_tasks (imm s q) \<noteq> [] then Some True
          else do {
            due \<leftarrow> (case dq_top (tq_delayed_incoming_queue (task_queues s q)) of
                      None \<Rightarrow> Some False
                    | Some t \<Rightarrow> do { d \<leftarrow> tq_time_domain (task_queues s q);
                                    Some (delayed_run_time t \<le> td_now (time_domains s d)) });
            if due then Some True else Some (tq_immediate_incoming_queue (task_queues s q) \<noteq> []) } }"

definition tq_BlockedByFence :: "nat \<Rightarrow> scheduler \<Rightarrow> bool option" where
  "tq_BlockedByFence q s =
     (let i = task_queues s q in
      if tq_current_fence i = 0 then Some False
      else do { work_queues_of q s;
                b \<leftarrow> wq_BlockedByFence (imm s q);
                if \<not> b then Some False
                else do { b \<leftarrow> wq_BlockedByFence (del s q);
                          if \<not> b then Some False
                          else case tq_immediate_incoming_queue i of
                            [] \<Rightarrow> Some True
                          | t # _ \<Rightarrow> do { k \<leftarrow> enqueue_order t; Some (tq_current_fence i < k) } } })"

definition HasActiveFence :: "nat \<Rightarrow> scheduler \<Rightarrow> bool option" where
  "HasActiveFence q s =
     (let i = task_queues s q in
      do { over \<leftarrow> (case tq_delayed_fence i of
                     None \<Rightarrow> Some False
                   | Some f \<Rightarrow> do { d \<leftarrow> tq_time_domain i; Some (f < td_now (time_domains s d)) });
           if over then Some True else Some (tq_current_fence i \<noteq> 0) })"

definition CouldTaskRun :: "nat \<Rightarrow> nat \<Rightarrow> scheduler \<Rightarrow> bool" where
  "CouldTaskRun q order s \<longleftrightarrow>
     (let i = task_queues s q in
      if \<not> tq_is_enabled i then False
      else if tq_current_fence i = 0 then True else order < tq_current_fence i)"

definition GetNextScheduledWakeUpImpl :: "nat \<Rightarrow> scheduler \<Rightarrow> delayed_wake_up option" where
  "GetNextScheduledWakeUpImpl q s =
     (let i = task_queues s q in
      if dq_tasks (tq_delayed_incoming_queue i) = [] \<or> \<not> tq_is_enabled i then None
      else map_option task_delayed_wake_up (dq_top (tq_delayed_incoming_queue i)))"

definition ShouldReportIpcTaskQueuedFromMainThread :: "nat \<Rightarrow> scheduler \<Rightarrow> bool" where
  "ShouldReportIpcTaskQueuedFromMainThread q s \<longleftrightarrow>
     (let i = task_queues s q in
      tq_disabled_time i \<noteq> None \<and> \<not> (tq_is_enabled i \<or> \<not> tq_should_report i))"

definition ShouldReportIpcTaskQueuedFromAnyThreadLocked :: "nat \<Rightarrow> scheduler \<Rightarrow> bool" where
  "ShouldReportIpcTaskQueuedFromAnyThreadLocked q s \<longleftrightarrow>
     (let i = task_queues s q in
      tq_tracing_disabled_time i \<noteq> None \<and> \<not> (tq_tracing_is_enabled i \<or> tq_tracing_should_report i))"

section \<open>Updates of TaskQueueImpl\<close>

definition UpdateCrossThreadQueueStateLocked :: "nat \<Rightarrow> scheduler \<Rightarrow> scheduler option" where
  "UpdateCrossThreadQueueStateLocked q s =
     do { work_queues_of q s;
          Some (upd q (\<lambda>i. i\<lparr>tq_immediate_work_queue_empty := (wq_tasks (imm s q) = []),
            tq_should_schedule_work :=
              (if tq_observer i then tq_is_enabled i else tq_is_enabled i \<and> tq_current_fence i = 0),
            tq_queue_set_index := wq_set_index (imm s q)\<rparr>) s) }"

definition UpdateDelayedWakeUpImpl :: "nat \<Rightarrow> int \<Rightarrow> delayed_wake_up option \<Rightarrow> scheduler \<Rightarrow> scheduler option" where
  "UpdateDelayedWakeUpImpl q lazy_now wake_up s =
     (if tq_scheduled_wake_up (task_queues s q) = wake_up then Some s
      else do {
        let s = upd q (\<lambda>i. i\<lparr>tq_scheduled_wake_up := wake_up\<rparr>) s;
        s \<leftarrow> (case wake_up of
               Some w \<Rightarrow>
                 if tq_observer (task_queues s q)
                 then do { b \<leftarrow> HasPendingImmediateWork q s;
                           Some (if \<not> b then emit (OnQueueNextWakeUpChanged q (wu_time w)) s else s) }
                 else Some s
             | None \<Rightarrow> Some s);
        let resolution = (if dq_high_res (tq_delayed_incoming_queue (task_queues s q)) \<noteq> 0 then kHigh else kLow);
        d \<leftarrow> tq_time_domain (task_queues s q);
        SetNextWakeUpForQueue d q wake_up resolution lazy_now s })"

definition UpdateDelayedWakeUp :: "nat \<Rightarrow> int \<Rightarrow> scheduler \<Rightarrow> scheduler option" where
  "UpdateDelayedWakeUp q lazy_now s = UpdateDelayedWakeUpImpl q lazy_now (GetNextScheduledWakeUpImpl q s) s"

section \<open>Fences\<close>

datatype insert_fence_position = kNow | kBeginningOfTime

text \<open>The front of the immediate incoming queue lies after the previous fence and before \<open>limit\<close>, if there is one.\<close>

definition incoming_unblocked :: "nat \<Rightarrow> nat option \<Rightarrow> closure task list \<Rightarrow> bool option" where
  "incoming_unblocked previous_fence limit incoming =
     (case incoming of
        [] \<Rightarrow> Some False
      | t # _ \<Rightarrow> do { k \<leftarrow> enqueue_order t;
                     Some (previous_fence < k \<and> (case limit of None \<Rightarrow> True | Some f \<Rightarrow> k < f)) })"

definition note_unblocked :: "nat \<Rightarrow> bool \<Rightarrow> scheduler \<Rightarrow> scheduler" where
  "note_unblocked q front_task_unblocked s =
     (if tq_is_enabled (task_queues s q) \<and> front_task_unblocked
      then let (order, s) = GetNextSequenceNumber s
           in emit ScheduleWork (upd q (\<lambda>i. i\<lparr>tq_last_unblocked := order\<rparr>) s)
      else s)"

definition tq_InsertFence :: "nat \<Rightarrow> insert_fence_position \<Rightarrow> scheduler \<Rightarrow> scheduler option" where
  "tq_InsertFence q position s =
     do { work_queues_of q s;
          let s = upd q (\<lambda>i. i\<lparr>tq_delayed_fence := None\<rparr>) s;
          let previous_fence = tq_current_fence (task_queues s q);
          let (current_fence, s) = (if position = kNow then GetNextSequenceNumber s else (blocking_fence, s));
          let s = upd q (\<lambda>i. i\<lparr>tq_current_fence := current_fence\<rparr>) s;
          (b1, s) \<leftarrow> wq_InsertFence (q, kImmediate) current_fence s;
          (b2, s) \<leftarrow> wq_InsertFence (q, kDelayed) current_fence s;
          front_task_unblocked \<leftarrow>
            (if \<not> (b1 \<or> b2) \<and> previous_fence \<noteq> 0 \<and> previous_fence < current_fence
             then incoming_unblocked previous_fence (Some current_fence) (tq_immediate_incoming_queue (task_queues s q))
             else Some (b1 \<or> b2));
          s \<leftarrow> UpdateCrossThreadQueueStateLocked q s;
          Some (note_unblocked q front_task_unblocked s) }"

definition tq_RemoveFence :: "nat \<Rightarrow> scheduler \<Rightarrow> scheduler option" where
  "tq_RemoveFence q s =
     do { work_queues_of q s;
          let previous_fence = tq_current_fence (task_queues s q);
          let s = upd q (\<lambda>i. i\<lparr>tq_current_fence := enqueue_order_none, tq_delayed_fence := None\<rparr>) s;
          (b1, s) \<leftarrow> wq_RemoveFence (q, kImmediate) s;
          (b2, s) \<leftarrow> wq_RemoveFence (q, kDelayed) s;
          front_task_unblocked \<leftarrow>
            (if \<not> (b1 \<or> b2) \<and> previous_fence \<noteq> 0
             then incoming_unblocked previous_fence None (tq_immediate_incoming_queue (task_queues s q))
             else Some (b1 \<or> b2));
          s \<leftarrow> UpdateCrossThreadQueueStateLocked q s;
          Some (note_unblocked q front_task_unblocked s) }"

definition InsertFenceAt :: "nat \<Rightarrow> int \<Rightarrow> scheduler \<Rightarrow> scheduler option" where
  "InsertFenceAt q time s =
     do { DCHECK (tq_delayed_fence_allowed (task_queues s q));
          s \<leftarrow> tq_RemoveFence q s;
          Some (upd q (\<lambda>i. i\<lparr>tq_delayed_fence := Some time\<rparr>) s) }"

definition ActivateDelayedFenceIfNeeded :: "nat \<Rightarrow> int \<Rightarrow> scheduler \<Rightarrow> scheduler option" where
  "ActivateDelayedFenceIfNeeded q now s =
     (case tq_delayed_fence (task_queues s q) of
        None \<Rightarrow> Some s
      | Some f \<Rightarrow>
          if now < f then Some s
          else do { s \<leftarrow> tq_InsertFence q kNow s;
                    Some (upd q (\<lambda>i. i\<lparr>tq_delayed_fence := None\<rparr>) s) })"

section \<open>Reloading\<close>

definition impl_TakeImmediateIncomingQueueTasks :: "nat \<Rightarrow> scheduler \<Rightarrow> scheduler option" where
  "impl_TakeImmediateIncomingQueueTasks q s =
     do { DCHECK (wq_tasks (imm s q) = []);
          let incoming = tq_immediate_incoming_queue (task_queues s q);
          let s = set_queue (q, kImmediate) ((imm s q)\<lparr>wq_tasks := incoming\<rparr>) s;
          let s = upd q (\<lambda>i. i\<lparr>tq_immediate_incoming_queue := []\<rparr>) s;
          s \<leftarrow> (case tq_delayed_fence (task_queues s q) of
                 None \<Rightarrow> Some s
               | Some f \<Rightarrow>
                   (case find (\<lambda>t. f \<le> delayed_run_time t) incoming of
                      None \<Rightarrow> Some s
                    | Some t \<Rightarrow>
                        do { let s = upd q (\<lambda>i. i\<lparr>tq_delayed_fence := None\<rparr>) s;
                             DCHECK (tq_current_fence (task_queues s q) = 0);
                             k \<leftarrow> enqueue_order t;
                             let s = upd q (\<lambda>i. i\<lparr>tq_current_fence := k\<rparr>) s;
                             s \<leftarrow> InsertFenceSilently (q, kImmediate) k s;
                             InsertFenceSilently (q, kDelayed) k s }));
          UpdateCrossThreadQueueStateLocked q s }"

definition wq_TakeImmediateIncomingQueueTasks :: "nat \<Rightarrow> scheduler \<Rightarrow> scheduler option" where
  "wq_TakeImmediateIncomingQueueTasks q s =
     do { DCHECK (wq_tasks (imm s q) = []);
          s \<leftarrow> impl_TakeImmediateIncomingQueueTasks q s;
          if wq_tasks (imm s q) = [] then Some s
          else case wq_sets (imm s q) of
            None \<Rightarrow> Some s
          | Some sid \<Rightarrow> do { b \<leftarrow> wq_BlockedByFence (imm s q);
                           if \<not> b then OnTaskPushedToEmptyQueue sid (q, kImmediate) s else Some s } }"

definition ReloadEmptyImmediateWorkQueue :: "nat \<Rightarrow> scheduler \<Rightarrow> scheduler option" where
  "ReloadEmptyImmediateWorkQueue q s =
     do { work_queues_of q s;
          DCHECK (wq_tasks (imm s q) = []);
          s \<leftarrow> wq_TakeImmediateIncomingQueueTasks q s;
          Some (if tq_observer (task_queues s q) \<and> tq_is_enabled (task_queues s q)
                then emit (OnQueueNextWakeUpChanged q 0) s else s) }"

text \<open>The callback that AtomicFlagSet runs for a queue whose flag is set; the flag is cleared before.\<close>

definition run_reload_callback :: "nat \<Rightarrow> scheduler \<Rightarrow> scheduler option" where
  "run_reload_callback q s = ReloadEmptyImmediateWorkQueue q (upd q (\<lambda>i. i\<lparr>tq_reload_flag := False\<rparr>) s)"

definition reload_if_empty :: "wq_ptr \<Rightarrow> scheduler \<Rightarrow> scheduler option" where
  "reload_if_empty w s =
     (if wq_tasks (queues s w) = [] \<and> snd w = kImmediate
      then impl_TakeImmediateIncomingQueueTasks (fst w) s else Some s)"

definition TakeTaskFromWorkQueue :: "wq_ptr \<Rightarrow> scheduler \<Rightarrow> (closure task \<times> scheduler) option" where
  "TakeTaskFromWorkQueue w s =
     do { sid \<leftarrow> wq_sets (queues s w);
          DCHECK (wq_tasks (queues s w) \<noteq> []);
          let pending_task = hd (wq_tasks (queues s w));
          let s = set_queue w ((queues s w)\<lparr>wq_tasks := tl (wq_tasks (queues s w))\<rparr>) s;
          s \<leftarrow> reload_if_empty w s;
          s \<leftarrow> OnQueuesFrontTaskChanged sid w s;
          Some (pending_task, s) }"

text \<open>The condition under which the loops drop a task: no callback, or a cancelled one.\<close>

definition dropped :: "(nat \<Rightarrow> bool) \<Rightarrow> closure task \<Rightarrow> bool" where
  "dropped canc t \<longleftrightarrow> (case callback t of None \<Rightarrow> True | Some c \<Rightarrow> closure_IsCancelled canc c)"

definition RemoveAllCanceledTasksFromFront :: "wq_ptr \<Rightarrow> scheduler \<Rightarrow> (bool \<times> scheduler) option" where
  "RemoveAllCanceledTasksFromFront w s =
     (case wq_sets (queues s w) of
        None \<Rightarrow> Some (False, s)
      | Some sid \<Rightarrow>
          let rest = dropWhile (dropped (is_cancelled s)) (wq_tasks (queues s w)) in
          if length rest = length (wq_tasks (queues s w)) then Some (False, s)
          else do { let s = set_queue w ((queues s w)\<lparr>wq_tasks := rest\<rparr>) s;
                    s \<leftarrow> reload_if_empty w s;
                    s \<leftarrow> (if wq_heap_handle (queues s w) \<noteq> None then OnQueuesFrontTaskChanged sid w s else Some s);
                    Some (True, s) })"

section \<open>Posting\<close>

datatype current_thread = kMainThread | kNotMainThread

definition MaybeAdjustTaskDelay :: "nat \<Rightarrow> int \<Rightarrow> current_thread \<Rightarrow> scheduler \<Rightarrow> int option" where
  "MaybeAdjustTaskDelay q delay thread s =
     (case thread of
        kNotMainThread \<Rightarrow>
          do { x \<leftarrow> array_get (cross_thread_task_delay s) (tq_queue_set_index (task_queues s q));
               SaturatedAdd Clang delay x }
      | kMainThread \<Rightarrow>
          do { work_queues_of q s;
               x \<leftarrow> array_get (same_thread_task_delay s) (wq_set_index (imm s q));
               SaturatedAdd Clang delay x })"

definition PostImmediateTaskImpl :: "nat \<Rightarrow> closure posted_task \<Rightarrow> scheduler \<Rightarrow> scheduler option" where
  "PostImmediateTaskImpl q task s =
     do { DCHECK (pt_callback task \<noteq> None);
          d \<leftarrow> tq_any_time_domain (task_queues s q);
          let (sequence_number, s) = GetNextSequenceNumber s;
          let was_empty = (tq_immediate_incoming_queue (task_queues s q) = []);
          let run_time = (if tq_delayed_fence_allowed (task_queues s q) \<or> add_queue_time_to_tasks s
                          then td_now (time_domains s d) else 0);
          let t = Task task run_time sequence_number sequence_number kLow;
          let s = upd q (\<lambda>i. i\<lparr>tq_immediate_incoming_queue := tq_immediate_incoming_queue i @ [t]\<rparr>) s;
          if was_empty \<and> tq_immediate_work_queue_empty (task_queues s q)
          then do { let s = upd q (\<lambda>i. i\<lparr>tq_reload_flag := True\<rparr>) s;
                    Some (if tq_should_schedule_work (task_queues s q) then emit ScheduleWork s else s) }
          else Some s }"

definition PushOntoDelayedIncomingQueueFromMainThread :: "nat \<Rightarrow> closure task \<Rightarrow> int \<Rightarrow> scheduler \<Rightarrow> scheduler option" where
  "PushOntoDelayedIncomingQueueFromMainThread q task now s =
     do { dq \<leftarrow> dq_push task (tq_delayed_incoming_queue (task_queues s q));
          UpdateDelayedWakeUp q now (upd q (\<lambda>i. i\<lparr>tq_delayed_incoming_queue := dq\<rparr>) s) }"

text \<open>The delayed task travels in the callback of a non-nestable immediate task.\<close>

definition PushOntoDelayedIncomingQueue :: "nat \<Rightarrow> nat task \<Rightarrow> scheduler \<Rightarrow> scheduler option" where
  "PushOntoDelayedIncomingQueue q task s =
     PostImmediateTaskImpl q
       \<lparr>pt_callback = Some (ScheduleDelayedWorkTask task), pt_delay = 0, pt_nestable = False\<rparr> s"

definition of_client :: "nat posted_task \<Rightarrow> closure posted_task" where
  "of_client p = \<lparr>pt_callback = map_option Client (pt_callback p), pt_delay = pt_delay p, pt_nestable = pt_nestable p\<rparr>"

definition client_task :: "nat task \<Rightarrow> closure task" where
  "client_task t =
     \<lparr>callback = map_option Client (callback t), delayed_run_time = delayed_run_time t, nestable = nestable t,
      sequence_num = sequence_num t, is_high_res = is_high_res t, enqueue_order_set_to = enqueue_order_set_to t\<rparr>"

definition PostDelayedTaskImpl :: "nat \<Rightarrow> nat posted_task \<Rightarrow> current_thread \<Rightarrow> scheduler \<Rightarrow> scheduler option" where
  "PostDelayedTaskImpl q task thread s =
     do { DCHECK (pt_callback task \<noteq> None);
          DCHECK (0 < pt_delay task);
          let resolution = kLow;
          let (sequence_number, s) = GetNextSequenceNumber s;
          case thread of
            kMainThread \<Rightarrow>
              do { d \<leftarrow> tq_time_domain (task_queues s q);
                   let now = td_now (time_domains s d);
                   run_time \<leftarrow> time_plus Clang now (pt_delay task);
                   PushOntoDelayedIncomingQueueFromMainThread q
                     (client_task (Task task run_time sequence_number enqueue_order_none resolution)) now s }
          | kNotMainThread \<Rightarrow>
              do { d \<leftarrow> tq_any_time_domain (task_queues s q);
                   let now = td_now (time_domains s d);
                   run_time \<leftarrow> time_plus Clang now (pt_delay task);
                   PushOntoDelayedIncomingQueue q (Task task run_time sequence_number enqueue_order_none resolution) s } }"

definition PostTask :: "nat \<Rightarrow> nat posted_task \<Rightarrow> current_thread \<Rightarrow> scheduler \<Rightarrow> scheduler option" where
  "PostTask q task thread s =
     do { delay \<leftarrow> MaybeAdjustTaskDelay q (pt_delay task) thread s;
          let task = task\<lparr>pt_delay := delay\<rparr>;
          if td_is_zero delay then PostImmediateTaskImpl q (of_client task) s
          else PostDelayedTaskImpl q task thread s }"

text \<open>The task poster refuses a task once the queue is unregistered.\<close>

definition GuardedTaskPoster_PostTask :: "nat \<Rightarrow> nat posted_task \<Rightarrow> current_thread \<Rightarrow> scheduler \<Rightarrow> (bool \<times> scheduler) option" where
  "GuardedTaskPoster_PostTask q task thread s =
     (if tq_unregistered (task_queues s q) then Some (False, s)
      else do { s \<leftarrow> PostTask q task thread s; Some (True, s) })"

section \<open>Delayed tasks that become ready\<close>

primrec move_ready_loop :: "nat \<Rightarrow> nat \<Rightarrow> int \<Rightarrow> task_pusher \<Rightarrow> scheduler \<Rightarrow> scheduler option" where
  "move_ready_loop 0 q lazy_now pusher s = None"
| "move_ready_loop (Suc fuel) q lazy_now pusher s =
     (let dq = tq_delayed_incoming_queue (task_queues s q) in
      case dq_top dq of
        None \<Rightarrow> Some s
      | Some task \<Rightarrow>
          if dropped (is_cancelled s) task
          then do { dq \<leftarrow> dq_pop dq;
                    move_ready_loop fuel q lazy_now pusher (upd q (\<lambda>i. i\<lparr>tq_delayed_incoming_queue := dq\<rparr>) s) }
          else if lazy_now < delayed_run_time task then Some s
          else do { s \<leftarrow> ActivateDelayedFenceIfNeeded q (delayed_run_time task) s;
                    DCHECK (\<not> enqueue_order_set task);
                    let (order, s) = GetNextSequenceNumber s;
                    t \<leftarrow> set_enqueue_order task order;
                    s \<leftarrow> TaskPusher_Push pusher t s;
                    dq \<leftarrow> dq_pop (tq_delayed_incoming_queue (task_queues s q));
                    move_ready_loop fuel q lazy_now pusher (upd q (\<lambda>i. i\<lparr>tq_delayed_incoming_queue := dq\<rparr>) s) })"

text \<open>
  Every iteration removes a task from the delayed incoming queue, so the length of the queue bounds the
  iterations.  The task pusher is destroyed at the end of the scope.
\<close>

definition MoveReadyDelayedTasksToWorkQueue :: "nat \<Rightarrow> int \<Rightarrow> scheduler \<Rightarrow> scheduler option" where
  "MoveReadyDelayedTasksToWorkQueue q lazy_now s =
     do { work_queues_of q s;
          let pusher = CreateTaskPusher (q, kDelayed) s;
          s \<leftarrow> move_ready_loop (length (dq_tasks (tq_delayed_incoming_queue (task_queues s q))) + 1) q lazy_now pusher s;
          s \<leftarrow> UpdateDelayedWakeUp q lazy_now s;
          TaskPusher_delete pusher s }"

definition run_ScheduleDelayedWorkTask :: "nat \<Rightarrow> nat task \<Rightarrow> scheduler \<Rightarrow> scheduler option" where
  "run_ScheduleDelayedWorkTask q pending_task s =
     do { d \<leftarrow> tq_time_domain (task_queues s q);
          let now = td_now (time_domains s d);
          if delayed_run_time pending_task \<le> now
          then do { let t = (client_task pending_task)\<lparr>delayed_run_time := now\<rparr>;
                    dq \<leftarrow> dq_push t (tq_delayed_incoming_queue (task_queues s q));
                    MoveReadyDelayedTasksToWorkQueue q now (upd q (\<lambda>i. i\<lparr>tq_delayed_incoming_queue := dq\<rparr>) s) }
          else PushOntoDelayedIncomingQueueFromMainThread q (client_task pending_task) now s }"

section \<open>Configuration of a queue\<close>

definition tq_SetQueuePriority :: "nat \<Rightarrow> nat \<Rightarrow> scheduler \<Rightarrow> scheduler option" where
  "tq_SetQueuePriority q priority s =
     do { work_queues_of q s;
          p \<leftarrow> GetQueuePriority q s;
          if priority = p then Some s
          else selector_SetQueuePriority (tq_is_enabled (task_queues s q)) q priority s }"

definition OnTaskQueueEnabled :: "nat \<Rightarrow> scheduler \<Rightarrow> scheduler option" where
  "OnTaskQueueEnabled q s =
     do { DCHECK (tq_is_enabled (task_queues s q));
          now \<leftarrow> HasTaskToRunImmediately q s;
          if now then do { b \<leftarrow> tq_BlockedByFence q s; Some (if \<not> b then emit ScheduleWork s else s) }
          else Some s }"

definition SetQueueEnabled :: "nat \<Rightarrow> bool \<Rightarrow> scheduler \<Rightarrow> scheduler option" where
  "SetQueueEnabled q enabled s =
     (if tq_is_enabled (task_queues s q) = enabled then Some s
      else do {
        d \<leftarrow> tq_time_domain (task_queues s q);
        let now = td_now (time_domains s d);
        let s = upd q (\<lambda>i. i\<lparr>tq_is_enabled := enabled, tq_disabled_time := (if enabled then None else Some now),
                  tq_should_report := (if enabled then False else tq_should_report i)\<rparr>) s;
        s \<leftarrow> UpdateDelayedWakeUp q now s;
        s \<leftarrow> UpdateCrossThreadQueueStateLocked q s;
        has_pending_immediate_work \<leftarrow> HasPendingImmediateWork q s;
        let s = upd q (\<lambda>i. i\<lparr>tq_tracing_is_enabled := enabled, tq_tracing_disabled_time := tq_disabled_time i,
                  tq_tracing_should_report := tq_should_report i\<rparr>) s;
        if enabled
        then do { let s = (if has_pending_immediate_work \<and> tq_observer (task_queues s q)
                           then emit (OnQueueNextWakeUpChanged q 0) s else s);
                  s \<leftarrow> EnableQueue (tq_is_enabled (task_queues s q)) q s;
                  s \<leftarrow> OnTaskQueueEnabled q s;
                  b \<leftarrow> tq_BlockedByFence q s;
                  if \<not> b then let (order, s) = GetNextSequenceNumber s in Some (upd q (\<lambda>i. i\<lparr>tq_last_unblocked := order\<rparr>) s)
                  else Some s }
        else DisableQueue (tq_is_enabled (task_queues s q)) q s })"

definition SetShouldReportPostedTasksWhenDisabled :: "bool \<Rightarrow> nat \<Rightarrow> bool \<Rightarrow> scheduler \<Rightarrow> scheduler" where
  "SetShouldReportPostedTasksWhenDisabled tracing_enabled q should_report s =
     (if tq_should_report (task_queues s q) = should_report \<or> should_report \<and> \<not> tracing_enabled then s
      else upd q (\<lambda>i. i\<lparr>tq_should_report := should_report, tq_tracing_should_report := should_report\<rparr>) s)"

definition SetObserver :: "nat \<Rightarrow> bool \<Rightarrow> scheduler \<Rightarrow> scheduler option" where
  "SetObserver q observer s =
     do { DCHECK (\<not> observer \<or> \<not> tq_observer (task_queues s q));
          Some (upd q (\<lambda>i. i\<lparr>tq_observer := observer\<rparr>) s) }"

definition SetTimeDomain :: "nat \<Rightarrow> nat \<Rightarrow> scheduler \<Rightarrow> scheduler option" where
  "SetTimeDomain q time_domain s =
     do { DCHECK (\<not> tq_unregistered (task_queues s q));
          if Some time_domain = tq_time_domain (task_queues s q) then Some s
          else do {
            let s = upd q (\<lambda>i. i\<lparr>tq_any_time_domain := Some time_domain\<rparr>) s;
            d \<leftarrow> tq_time_domain (task_queues s q);
            s \<leftarrow> UnregisterQueue d q s;
            let s = upd q (\<lambda>i. i\<lparr>tq_time_domain := Some time_domain, tq_scheduled_wake_up := None\<rparr>) s;
            UpdateDelayedWakeUp q (td_now (time_domains s time_domain)) s } }"

definition ReclaimMemory :: "nat \<Rightarrow> int \<Rightarrow> scheduler \<Rightarrow> scheduler option" where
  "ReclaimMemory q now s =
     (if dq_tasks (tq_delayed_incoming_queue (task_queues s q)) = [] then Some s
      else do { dq \<leftarrow> SweepCancelledTasks (is_cancelled s) (tq_delayed_incoming_queue (task_queues s q));
                work_queues_of q s;
                UpdateDelayedWakeUp q now (upd q (\<lambda>i. i\<lparr>tq_delayed_incoming_queue := dq\<rparr>) s) })"

definition RequeueDeferredNonNestableTask :: "nat \<Rightarrow> queue_type \<Rightarrow> closure task \<Rightarrow> scheduler \<Rightarrow> scheduler option" where
  "RequeueDeferredNonNestableTask q work_queue_type task s =
     do { DCHECK (\<not> nestable task);
          work_queues_of q s;
          case work_queue_type of
            kDelayed \<Rightarrow> PushNonNestableTaskToFront (q, kDelayed) task s
          | kImmediate \<Rightarrow>
              PushNonNestableTaskToFront (q, kImmediate) task
                (if wq_tasks (imm s q) = []
                 then upd q (\<lambda>i. i\<lparr>tq_reload_flag := False, tq_immediate_work_queue_empty := False\<rparr>) s else s) }"

definition tq_DeletePendingTasks :: "nat \<Rightarrow> scheduler \<Rightarrow> scheduler option" where
  "tq_DeletePendingTasks q s =
     do { work_queues_of q s;
          s \<leftarrow> wq_DeletePendingTasks (q, kDelayed) s;
          s \<leftarrow> wq_DeletePendingTasks (q, kImmediate) s;
          let s = upd q (\<lambda>i. i\<lparr>tq_delayed_incoming_queue := DelayedIncomingQueue, tq_immediate_incoming_queue := [],
                    tq_immediate_work_queue_empty := True, tq_reload_flag := False\<rparr>) s;
          d \<leftarrow> tq_time_domain (task_queues s q);
          UpdateDelayedWakeUp q (td_now (time_domains s d)) s }"

definition new_task_queue_impl :: "nat \<Rightarrow> bool \<Rightarrow> task_queue_impl" where
  "new_task_queue_impl d delayed_fence_allowed =
     \<lparr>tq_any_time_domain = Some d, tq_immediate_incoming_queue = [], tq_immediate_work_queue_empty = True,
      tq_should_schedule_work = True, tq_unregistered = False, tq_queue_set_index = 0, tq_tracing_is_enabled = True,
      tq_tracing_disabled_time = None, tq_tracing_should_report = False, tq_time_domain = Some d, tq_observer = False,
      tq_work_queues = True, tq_delayed_incoming_queue = DelayedIncomingQueue, tq_heap_handle = None,
      tq_is_enabled = True, tq_current_fence = enqueue_order_none, tq_delayed_fence = None,
      tq_last_unblocked = enqueue_order_none, tq_scheduled_wake_up = None, tq_disabled_time = None,
      tq_should_report = False, tq_reload_flag = False, tq_delayed_fence_allowed = delayed_fence_allowed\<rparr>"

definition TaskQueueImpl :: "nat \<Rightarrow> nat \<Rightarrow> bool \<Rightarrow> scheduler \<Rightarrow> scheduler option" where
  "TaskQueueImpl q d delayed_fence_allowed s =
     UpdateCrossThreadQueueStateLocked q
       (upd q (\<lambda>_. new_task_queue_impl d delayed_fence_allowed)
         (set_queue (q, kImmediate) WorkQueue (set_queue (q, kDelayed) WorkQueue s)))"

text \<open>The destructor of a WorkQueue, when the local unique_ptr goes out of scope.\<close>

definition WorkQueue_delete :: "wq_ptr \<Rightarrow> scheduler \<Rightarrow> scheduler option" where
  "WorkQueue_delete w s = do { DCHECK (wq_sets (queues s w) = None); Some (set_queue w WorkQueue s) }"

definition UnregisterTaskQueue :: "nat \<Rightarrow> scheduler \<Rightarrow> scheduler option" where
  "UnregisterTaskQueue q s =
     do { let s = upd q (\<lambda>i. i\<lparr>tq_unregistered := True, tq_any_time_domain := None, tq_immediate_incoming_queue := []\<rparr>) s;
          s \<leftarrow> (case tq_time_domain (task_queues s q) of None \<Rightarrow> Some s | Some d \<Rightarrow> UnregisterQueue d q s);
          let s = upd q (\<lambda>i. i\<lparr>tq_time_domain := None, tq_observer := False, tq_reload_flag := False,
                    tq_delayed_incoming_queue := DelayedIncomingQueue, tq_work_queues := False\<rparr>) s;
          s \<leftarrow> WorkQueue_delete (q, kDelayed) s;
          WorkQueue_delete (q, kImmediate) s }"

end
