(* ===== verification/Task_Queue_Invariant.thy ===== *)
theory Task_Queue_Invariant
  imports Task_Queue "HOL-Library.Product_Lexorder" "HOL-Library.Sublist"
begin

text \<open>
  The invariant of the task queues: the heaps of the time domains hold the next wake-up of every queue, the
  work queues and the sets agree, the enqueue orders of a queue grow, and what a posting thread reads of a queue
  mirrors its work queue.  Then the steps that insert and remove fences, take tasks and reload work queues,
  and post immediate tasks.
\<close>

section \<open>Sequence numbers\<close>

text \<open>The numbers from which differences do not overflow: those of the first \<open>2 ^ 31\<close> enqueue orders.\<close>

definition seq_num_ok :: "int \<Rightarrow> bool" where
  "seq_num_ok n \<longleftrightarrow> 0 \<le> n \<and> n < 2 ^ 31"

lemma seq_num_diff: "seq_num_ok m \<Longrightarrow> seq_num_ok n \<Longrightarrow> arith int32_t (m - n) = Some (m - n)"
  by (simp add: seq_num_ok_def arith_def in_range_def limit_lowest_def limit_max_def)

lemma seq_num_of_order: "int n < 2 ^ 31 \<Longrightarrow> seq_num_ok (static_cast int32_t (int n))"
  by (simp add: seq_num_ok_def static_cast_def)

lemma wakes_orderableI:
  assumes "\<forall>e \<in> set es. seq_num_ok (wu_sequence_num (sw_wake_up e))"
  shows "wakes_orderable es"
proof -
  have "scheduled_wake_up_le b a \<noteq> None" if "a \<in> set es" "b \<in> set es" for a b
    using assms that seq_num_diff by (auto simp: scheduled_wake_up_le_def delayed_wake_up_le_def)
  then show ?thesis by (auto simp: wakes_orderable_def list_all_iff)
qed

section \<open>The heaps of the time domains\<close>

definition wake_prio :: "scheduled_wake_up \<Rightarrow> int \<times> int \<times> int" where
  "wake_prio e = (- wu_time (sw_wake_up e), - wu_sequence_num (sw_wake_up e), if sw_resolution e = kHigh then - 1 else 0)"

interpretation wake_heap: heap_order wake_cmp sw_queue wake_prio
proof
  have eq: "v = w \<longleftrightarrow> wu_time v = wu_time w \<and> wu_sequence_num v = wu_sequence_num w" for v w :: delayed_wake_up
    by (cases v, cases w) auto
  note defs = wake_cmp_def scheduled_wake_up_le_def delayed_wake_up_le_def resolution_le_def wake_prio_def eq
  show "wake_cmp x y" if "wake_prio x < wake_prio y" for x y
    using that by (cases "sw_resolution y") (auto simp: defs arith_def split: if_splits)
  show "wake_prio x \<le> wake_prio y" if "wake_cmp x y" for x y
    using that by (cases "sw_resolution x") (auto simp: defs arith_def split: if_splits)
qed

text \<open>
  \<open>wake_rep s reg\<close>: the heaps of the time domains hold exactly the wake-ups that \<open>reg\<close> gives for
  each queue, and the counts of high resolution wake-ups are right.
\<close>

abbreviation wake_wf :: "(scheduled_wake_up, nat) intrusive_heap \<Rightarrow> bool" where
  "wake_wf \<equiv> shared_wf wake_prio sw_queue"

definition high_res_entries :: "scheduled_wake_up list \<Rightarrow> scheduled_wake_up set" where
  "high_res_entries es = {e \<in> set es. sw_resolution e = kHigh}"

definition heaps_rep :: "scheduler \<Rightarrow> (nat \<Rightarrow> (nat \<times> scheduled_wake_up) option) \<Rightarrow> bool" where
  "heaps_rep s reg \<longleftrightarrow>
     (\<forall>d. wake_wf (wake_view s d) \<and> set (td_wake_ups (time_domains s d)) = {e. reg (sw_queue e) = Some (d, e)})
     \<and> (\<forall>q. tq_heap_handle (task_queues s q) = None \<longleftrightarrow> reg q = None)
     \<and> (\<forall>q d e. reg q = Some (d, e) \<longrightarrow> sw_queue e = q \<and> seq_num_ok (wu_sequence_num (sw_wake_up e)))"

definition wake_rep :: "scheduler \<Rightarrow> (nat \<Rightarrow> (nat \<times> scheduled_wake_up) option) \<Rightarrow> bool" where
  "wake_rep s reg \<longleftrightarrow>
     heaps_rep s reg \<and> (\<forall>d. td_high_res (time_domains s d) = int (card (high_res_entries (td_wake_ups (time_domains s d)))))"

lemma heaps_repD:
  assumes "heaps_rep s reg"
  shows "wake_wf (wake_view s d)" "set (td_wake_ups (time_domains s d)) = {e. reg (sw_queue e) = Some (d, e)}"
    "tq_heap_handle (task_queues s q) = None \<longleftrightarrow> reg q = None" "reg q = Some (d, e) \<Longrightarrow> sw_queue e = q"
    "reg q = Some (d, e) \<Longrightarrow> seq_num_ok (wu_sequence_num (sw_wake_up e))"
  using assms unfolding heaps_rep_def by blast+

lemma heaps_orderable:
  assumes "heaps_rep s reg"
  shows "wakes_orderable (td_wake_ups (time_domains s d))"
    "seq_num_ok (wu_sequence_num (sw_wake_up e)) \<Longrightarrow> wakes_orderable (e # td_wake_ups (time_domains s d))"
  using heaps_repD(2,5) [OF assms] by (auto intro!: wakes_orderableI)

lemma wake_view_simps [simp]:
  "h_heap (wake_view s d) = td_wake_ups (time_domains s d)" "h_handle (wake_view s d) q = tq_heap_handle (task_queues s q)"
  by (simp_all add: wake_view_def)

lemma wake_store_simps [simp]:
  "td_wake_ups (time_domains (wake_store s d h) d') = (if d' = d then h_heap h else td_wake_ups (time_domains s d'))"
  "tq_heap_handle (task_queues (wake_store s d h) q) = h_handle h q"
  "td_high_res (time_domains (wake_store s d h) d') = td_high_res (time_domains s d')"
  "td_now (time_domains (wake_store s d h) d') = td_now (time_domains s d')"
  by (simp_all add: wake_store_def)

lemma wake_store_rep:
  assumes "heaps_rep s reg" "wake_wf h"
    and set: "set (h_heap h) = {e. (reg(q := r)) (sw_queue e) = Some (d, e)}"
    and kept: "kept sw_queue (wake_view s d) q h" and hn: "h_handle h q = None \<longleftrightarrow> r = None"
    and old: "reg q = None \<or> (\<exists>e. reg q = Some (d, e))" and new: "r = None \<or> (\<exists>e. r = Some (d, e) \<and> sw_queue e = q \<and> seq_num_ok (wu_sequence_num (sw_wake_up e)))"
  shows "heaps_rep (wake_store s d h) (reg(q := r))"
  unfolding heaps_rep_def
proof (intro conjI allI impI)
  note rep = heaps_repD [OF assms(1)]
  fix d'
  show "wake_wf (wake_view (wake_store s d h) d')"
  proof (cases "d' = d")
    case True
    then have "wake_view (wake_store s d h) d' = h" by (simp add: wake_view_def)
    then show ?thesis using assms(2) by simp
  next
    case False
    have "h_handle h (sw_queue x) = tq_heap_handle (task_queues s (sw_queue x))" if "x \<in> set (td_wake_ups (time_domains s d'))" for x
    proof -
      from that rep(2) have x: "reg (sw_queue x) = Some (d', x)" by auto
      with old False have "sw_queue x \<noteq> q" by auto
      moreover have "sw_queue x \<notin> sw_queue ` set (h_heap (wake_view s d))" using rep(2) [of d] x False by auto
      ultimately show ?thesis using keptD(1) [OF kept] by simp
    qed
    then have "wake_wf (wake_view (wake_store s d h) d') = wake_wf (wake_view s d')"
      using False by (intro shared_wf_cong) auto
    then show ?thesis using rep(1) by simp
  qed
  show "set (td_wake_ups (time_domains (wake_store s d h) d')) = {e. (reg(q := r)) (sw_queue e) = Some (d', e)}"
  proof (cases "d' = d")
    case False
    then show ?thesis using rep(2) [of d'] old new by auto
  qed (simp add: set)
next
  note rep = heaps_repD [OF assms(1)]
  fix p
  show "tq_heap_handle (task_queues (wake_store s d h) p) = None \<longleftrightarrow> (reg(q := r)) p = None"
    using keptD(2) [OF kept, of p] hn rep(3) [of p] by (cases "p = q") auto
  show "sw_queue e = p" "seq_num_ok (wu_sequence_num (sw_wake_up e))" if "(reg(q := r)) p = Some (d', e)" for d' e
    using that rep(4,5) [of p d' e] new by (auto split: if_splits)
qed

lemma wake_insert_ok:
  assumes "heaps_rep s reg" "reg (sw_queue e) = None" "seq_num_ok (wu_sequence_num (sw_wake_up e))"
  shows "\<exists>h. wake_insert d e s = Some (wake_store s d h) \<and> heaps_rep (wake_store s d h) (reg(sw_queue e \<mapsto> (d, e)))"
proof -
  note rep = heaps_repD [OF assms(1)]
  have "h_handle (wake_view s d) (sw_queue e) = None" using rep(3) assms(2) by simp
  from wake_heap.shared_insert [OF rep(1) this] obtain h p where
    h: "InsertImpl wake_cmp sw_queue (wake_view s d) e = Some (h, p)" "wake_wf h"
      "set (h_heap h) = insert e (set (td_wake_ups (time_domains s d)))" "h_handle h (sw_queue e) \<noteq> None"
      "kept sw_queue (wake_view s d) (sw_queue e) h" by auto
  have "set (h_heap h) = {x. (reg(sw_queue e \<mapsto> (d, e))) (sw_queue x) = Some (d, x)}"
    unfolding h(3) rep(2) using assms(2) by auto
  from wake_store_rep [OF assms(1) h(2) this h(5)] h(1,4) assms(2,3) heaps_orderable(2) [OF assms(1,3)] show ?thesis
    by (intro exI [of _ h]) (auto simp: wake_insert_def)
qed

lemma wake_erase_ok:
  assumes "heaps_rep s reg" "reg q = Some (d, e)"
  shows "\<exists>p h. tq_heap_handle (task_queues s q) = Some p \<and> heap_at (wake_view s d) p = Some e
    \<and> wake_erase d p s = Some (wake_store s d h) \<and> heaps_rep (wake_store s d h) (reg(q := None))"
proof -
  note rep = heaps_repD [OF assms(1)]
  have q: "sw_queue e = q" using rep(4) [OF assms(2)] .
  then have e: "e \<in> set (h_heap (wake_view s d))" using rep(2) assms(2) by auto
  from wake_heap.shared_handle [OF rep(1) e] obtain p where
    p: "tq_heap_handle (task_queues s q) = Some p" "p < length (td_wake_ups (time_domains s d))"
      "td_wake_ups (time_domains s d) ! p = e" using q by auto
  from wake_heap.shared_erase [OF rep(1) e, of p] p(1) q obtain h where
    h: "heap_erase wake_cmp sw_queue (wake_view s d) p = Some h" "wake_wf h"
      "set (h_heap h) = set (td_wake_ups (time_domains s d)) - {e}" "h_handle h q = None" "kept sw_queue (wake_view s d) q h" by auto
  have "set (h_heap h) = {x. (reg(q := None)) (sw_queue x) = Some (d, x)}"
    unfolding h(3) rep(2) using assms(2) q by auto
  from wake_store_rep [OF assms(1) h(2) this h(5)] h(1,4) assms(2) p heaps_orderable(1) [OF assms(1)] show ?thesis
    by (intro exI [of _ p] exI [of _ h]) (auto simp: wake_erase_def heap_at_def heap_size_def)
qed

lemma wake_ChangeKey_ok:
  assumes "heaps_rep s reg" "reg q = Some (d, e)" "sw_queue e' = q" "seq_num_ok (wu_sequence_num (sw_wake_up e'))"
  shows "\<exists>p h. tq_heap_handle (task_queues s q) = Some p \<and> heap_at (wake_view s d) p = Some e
    \<and> wake_ChangeKey d p e' s = Some (wake_store s d h) \<and> heaps_rep (wake_store s d h) (reg(q \<mapsto> (d, e')))"
proof -
  note rep = heaps_repD [OF assms(1)]
  have q: "sw_queue e = q" using rep(4) [OF assms(2)] .
  then have e: "e \<in> set (h_heap (wake_view s d))" using rep(2) assms(2) by auto
  from wake_heap.shared_handle [OF rep(1) e] obtain p where
    p: "tq_heap_handle (task_queues s q) = Some p" "p < length (td_wake_ups (time_domains s d))"
      "td_wake_ups (time_domains s d) ! p = e" using q by auto
  have "\<exists>h' p'. ReplaceImpl wake_cmp sw_queue (wake_view s d) p e' = Some (h', p') \<and> wake_wf h'
    \<and> set (h_heap h') = insert e' (set (h_heap (wake_view s d)) - {e}) \<and> h_handle h' (sw_queue e) \<noteq> None
    \<and> kept sw_queue (wake_view s d) (sw_queue e) h'"
    using p(1) q assms(3) by (intro wake_heap.shared_rekey [OF rep(1) e]) auto
  then obtain h p' where
    h: "ReplaceImpl wake_cmp sw_queue (wake_view s d) p e' = Some (h, p')" "wake_wf h"
      "set (h_heap h) = insert e' (set (td_wake_ups (time_domains s d)) - {e})" "h_handle h q \<noteq> None"
      "kept sw_queue (wake_view s d) q h" using q by auto
  have "set (h_heap h) = {x. (reg(q \<mapsto> (d, e'))) (sw_queue x) = Some (d, x)}"
    unfolding h(3) rep(2) using assms(2,3) q by auto
  from wake_store_rep [OF assms(1) h(2) this h(5)] h(1,4) assms(2-4) p heaps_orderable(2) [OF assms(1,4)] show ?thesis
    by (intro exI [of _ p] exI [of _ h]) (auto simp: wake_ChangeKey_def heap_at_def heap_size_def)
qed

lemma NextScheduledRunTime_ok:
  assumes "heaps_rep s reg"
  shows "\<exists>r. NextScheduledRunTime d s = Some r \<and> (r = None \<longleftrightarrow> (\<forall>q e. reg q \<noteq> Some (d, e)))
    \<and> (\<forall>t. r = Some t \<longrightarrow> (\<exists>q e. reg q = Some (d, e) \<and> wu_time (sw_wake_up e) = t
        \<and> heap_top (wake_view s d) = Some e \<and> (\<forall>q' e'. reg q' = Some (d, e') \<longrightarrow> t \<le> wu_time (sw_wake_up e'))))"
proof -
  note rep = heaps_repD [OF assms]
  show ?thesis
  proof (cases "td_wake_ups (time_domains s d) = []")
    case True
    then have "reg q \<noteq> Some (d, e)" for q e using rep(2) [of d] rep(4) [of q d e] by auto
    then show ?thesis using True by (simp add: NextScheduledRunTime_def heap_empty_def)
  next
    case False
    from wake_heap.shared_top [OF rep(1)] False obtain e where
      e: "heap_top (wake_view s d) = Some e" "e \<in> set (td_wake_ups (time_domains s d))"
        "\<forall>y \<in> set (td_wake_ups (time_domains s d)). wake_prio y \<le> wake_prio e" by auto
    have r: "reg (sw_queue e) = Some (d, e)" using e(2) rep(2) by auto
    have "wu_time (sw_wake_up e) \<le> wu_time (sw_wake_up e')" if "reg q' = Some (d, e')" for q' e'
    proof -
      have "e' \<in> set (td_wake_ups (time_domains s d))" using rep(2) rep(4) [OF that] that by auto
      then show ?thesis using e(3) by (auto simp: wake_prio_def less_eq_prod_def)
    qed
    then show ?thesis
      using False e(1) r by (intro exI [of _ "Some (wu_time (sw_wake_up e))"]) (auto simp: NextScheduledRunTime_def heap_empty_def)
  qed
qed

text \<open>The next wake-up that is announced lies in the future.\<close>

definition event_ok :: "event \<Rightarrow> bool" where
  "event_ok e \<longleftrightarrow> (case e of SetNextDelayedDoWork lazy_now t \<Rightarrow> lazy_now < t | _ \<Rightarrow> True)"

definition log_ok :: "scheduler \<Rightarrow> bool" where
  "log_ok s \<longleftrightarrow> list_all event_ok (event_log s)"

lemma event_ok_simps [simp]:
  "event_ok ScheduleWork" "event_ok (OnQueueNextWakeUpChanged q t)" "event_ok (SetNextDelayedDoWork n t) \<longleftrightarrow> n < t"
  by (simp_all add: event_ok_def)

text \<open>What an operation of a time domain leaves alone.\<close>

definition wake_only :: "scheduler \<Rightarrow> scheduler \<Rightarrow> bool" where
  "wake_only s s' \<longleftrightarrow>
     (\<exists>tds hn ev. s' = s\<lparr>time_domains := tds, task_queues := (\<lambda>q. (task_queues s q)\<lparr>tq_heap_handle := hn q\<rparr>), event_log := ev\<rparr>
        \<and> (\<forall>d. td_now (tds d) = td_now (time_domains s d)) \<and> (log_ok s \<longrightarrow> list_all event_ok ev))"

lemma wake_onlyE:
  assumes "wake_only s s'"
  obtains tds hn ev where
    "s' = s\<lparr>time_domains := tds, task_queues := (\<lambda>q. (task_queues s q)\<lparr>tq_heap_handle := hn q\<rparr>), event_log := ev\<rparr>"
    "\<forall>d. td_now (tds d) = td_now (time_domains s d)" "log_ok s \<longrightarrow> list_all event_ok ev"
  using assms unfolding wake_only_def by blast

lemma wake_onlyI:
  "s' = s\<lparr>time_domains := tds, task_queues := (\<lambda>q. (task_queues s q)\<lparr>tq_heap_handle := hn q\<rparr>), event_log := ev\<rparr> \<Longrightarrow>
     (\<And>d. td_now (tds d) = td_now (time_domains s d)) \<Longrightarrow> (log_ok s \<Longrightarrow> list_all event_ok ev) \<Longrightarrow> wake_only s s'"
  unfolding wake_only_def by blast

lemma wake_only_refl [simp]: "wake_only s s"
  unfolding wake_only_def
  by (intro exI [of _ "time_domains s"] exI [of _ "\<lambda>q. tq_heap_handle (task_queues s q)"] exI [of _ "event_log s"]) (simp add: log_ok_def)

lemma wake_only_store [simp]: "wake_only s (wake_store s d h)"
  unfolding wake_only_def
  by (intro exI [of _ "time_domains (wake_store s d h)"] exI [of _ "h_handle h"] exI [of _ "event_log s"])
    (simp add: wake_store_def log_ok_def)

lemma wake_only_trans:
  assumes "wake_only s t" "wake_only t u"
  shows "wake_only s u"
  by (rule wake_onlyE [OF assms(1)], rule wake_onlyE [OF assms(2)]) (rule wake_onlyI, simp, simp, simp add: log_ok_def)

lemma wake_only_emit [simp]: "event_ok e \<Longrightarrow> wake_only s (emit e s)"
  by (rule wake_onlyI [where tds = "time_domains s" and hn = "\<lambda>q. tq_heap_handle (task_queues s q)" and ev = "event_log s @ [e]"])
    (simp_all add: emit_def log_ok_def)

lemma wake_only_high_res [simp]:
  "wake_only s (s\<lparr>time_domains := (time_domains s)(d := (time_domains s d)\<lparr>td_high_res := n\<rparr>)\<rparr>)"
  by (rule wake_onlyI [where hn = "\<lambda>q. tq_heap_handle (task_queues s q)" and ev = "event_log s"
        and tds = "(time_domains s)(d := (time_domains s d)\<lparr>td_high_res := n\<rparr>)"]) (simp_all add: log_ok_def)

lemma heaps_rep_cong:
  assumes "\<And>d. td_wake_ups (time_domains s' d) = td_wake_ups (time_domains s d)"
    "\<And>q. tq_heap_handle (task_queues s' q) = tq_heap_handle (task_queues s q)"
  shows "heaps_rep s' reg = heaps_rep s reg"
proof -
  have "wake_view s' d = wake_view s d" for d using assms by (simp add: wake_view_def)
  then show ?thesis using assms by (simp add: heaps_rep_def)
qed

lemma wake_rep_cong:
  assumes "time_domains s' = time_domains s" "\<And>q. tq_heap_handle (task_queues s' q) = tq_heap_handle (task_queues s q)"
  shows "wake_rep s' reg = wake_rep s reg"
  using heaps_rep_cong [of s' s reg] assms by (simp add: wake_rep_def)

lemma high_res_changed:
  assumes "heaps_rep s reg" "heaps_rep s' (reg(q := r))" "reg q = None \<or> (\<exists>e. reg q = Some (d, e))"
    "r = None \<or> (\<exists>e. r = Some (d, e))"
  defines "n \<equiv> (\<lambda>s d. int (card (high_res_entries (td_wake_ups (time_domains s d)))))"
  shows "d' \<noteq> d \<Longrightarrow> n s' d' = n s d'"
    and "n s' d = n s d - (case reg q of Some (_, e) \<Rightarrow> of_bool (sw_resolution e = kHigh) | None \<Rightarrow> 0)
      + (case r of Some (_, e) \<Rightarrow> of_bool (sw_resolution e = kHigh) | None \<Rightarrow> 0)"
proof -
  note rep = heaps_repD [OF assms(1)] and rep' = heaps_repD [OF assms(2)]
  show "n s' d' = n s d'" if "d' \<noteq> d"
  proof -
    have "set (td_wake_ups (time_domains s' d')) = set (td_wake_ups (time_domains s d'))"
      unfolding rep(2) rep'(2) using assms(3,4) that by auto
    then show ?thesis by (simp add: n_def high_res_entries_def)
  qed
  let ?S = "{e \<in> set (td_wake_ups (time_domains s d)). sw_resolution e = kHigh \<and> sw_queue e \<noteq> q}"
  have fin: "finite ?S" by simp
  have S: "card (high_res_entries (td_wake_ups (time_domains t d))) = card ?S + (case f q of Some (_, e) \<Rightarrow> of_bool (sw_resolution e = kHigh) | None \<Rightarrow> 0)"
    if t: "heaps_rep t f" and f: "f q = None \<or> (\<exists>e. f q = Some (d, e))" and same: "\<forall>p. p \<noteq> q \<longrightarrow> f p = reg p" for t f
  proof -
    note trep = heaps_repD [OF t]
    have eq: "f (sw_queue e) = reg (sw_queue e)" if "sw_queue e \<noteq> q" for e using same that by simp
    have "high_res_entries (td_wake_ups (time_domains t d)) = ?S \<union> {e. f q = Some (d, e) \<and> sw_resolution e = kHigh}"
      (is "?L = ?S \<union> ?R")
    proof (intro equalityI subsetI)
      fix e assume "e \<in> ?L"
      then show "e \<in> ?S \<union> ?R" using eq [of e] unfolding high_res_entries_def trep(2) rep(2) by (cases "sw_queue e = q") auto
    next
      fix e assume "e \<in> ?S \<union> ?R"
      then show "e \<in> ?L" using eq [of e] trep(4) [of q d e] unfolding high_res_entries_def trep(2) rep(2) by auto
    qed
    moreover have "?S \<inter> ?R = {}" using trep(4) [of q d] by auto
    moreover have R: "?R = (case f q of Some (_, e) \<Rightarrow> if sw_resolution e = kHigh then {e} else {} | None \<Rightarrow> {})"
      using f by (auto split: option.splits)
    have "card ?R = (case f q of Some (_, e) \<Rightarrow> of_bool (sw_resolution e = kHigh) | None \<Rightarrow> 0)" "finite ?R"
      unfolding R by (auto split: option.splits)
    ultimately show ?thesis using fin by (simp only: card_Un_disjoint)
  qed
  show "n s' d = n s d - (case reg q of Some (_, e) \<Rightarrow> of_bool (sw_resolution e = kHigh) | None \<Rightarrow> 0)
      + (case r of Some (_, e) \<Rightarrow> of_bool (sw_resolution e = kHigh) | None \<Rightarrow> 0)"
    using S [OF assms(1,3)] S [OF assms(2)] assms(4) by (auto simp: n_def split: option.splits)
qed

text \<open>
  SetNextWakeUpForQueue on a state whose heaps agree with \<open>reg\<close>: the entry of the queue becomes the new wake-up.
\<close>

lemma change_wake_up_ok:
  fixes q d :: nat and res :: wake_up_resolution and wake_up :: "delayed_wake_up option"
  assumes "heaps_rep s reg" "reg q = None \<or> (\<exists>e. reg q = Some (d, e))"
    "pred_option (\<lambda>w. seq_num_ok (wu_sequence_num w)) wake_up"
  defines "r \<equiv> map_option (\<lambda>w. (d, \<lparr>sw_wake_up = w, sw_resolution = res, sw_queue = q\<rparr>)) wake_up"
    and "handle \<equiv> tq_heap_handle (task_queues s q)"
  shows "\<exists>s'. (case wake_up of
         Some w \<Rightarrow>
           let e = \<lparr>sw_wake_up = w, sw_resolution = res, sw_queue = q\<rparr> in
           (case handle of Some pos \<Rightarrow> wake_ChangeKey d pos e s | None \<Rightarrow> wake_insert d e s)
       | None \<Rightarrow> (case handle of Some pos \<Rightarrow> wake_erase d pos s | None \<Rightarrow> Some s)) = Some s'
    \<and> heaps_rep s' (reg(q := r)) \<and> wake_only s s' \<and> (\<forall>d. td_high_res (time_domains s' d) = td_high_res (time_domains s d))"
proof (cases "reg q")
  case None
  then have h: "handle = None" using heaps_repD(3) [OF assms(1)] by (simp add: handle_def)
  show ?thesis
  proof (cases wake_up)
    case None
    then show ?thesis using h \<open>reg q = None\<close> assms(1) by (auto simp: r_def fun_upd_idem)
  next
    case (Some w)
    from wake_insert_ok [OF assms(1), of "\<lparr>sw_wake_up = w, sw_resolution = res, sw_queue = q\<rparr>" d] Some h \<open>reg q = None\<close> assms(3)
    show ?thesis by (auto simp: r_def)
  qed
next
  case (Some x)
  then obtain e where e: "reg q = Some (d, e)" using assms(2) by auto
  show ?thesis
  proof (cases wake_up)
    case None
    then show ?thesis using wake_erase_ok [OF assms(1) e] by (auto simp: r_def handle_def)
  next
    case (Some w)
    from wake_ChangeKey_ok [OF assms(1) e, of "\<lparr>sw_wake_up = w, sw_resolution = res, sw_queue = q\<rparr>"] Some assms(3) show ?thesis
      by (auto simp: r_def handle_def)
  qed
qed

lemma SetNextWakeUpForQueue_ok:
  fixes q d :: nat and res :: wake_up_resolution and wake_up :: "delayed_wake_up option"
  assumes "wake_rep s reg" "tq_time_domain (task_queues s q) = Some d" "tq_is_enabled (task_queues s q) \<or> wake_up = None"
    "reg q = None \<or> (\<exists>e. reg q = Some (d, e))" "pred_option (\<lambda>w. seq_num_ok (wu_sequence_num w)) wake_up"
  defines "r \<equiv> map_option (\<lambda>w. (d, \<lparr>sw_wake_up = w, sw_resolution = res, sw_queue = q\<rparr>)) wake_up"
  shows "\<exists>s'. SetNextWakeUpForQueue d q wake_up res now s = Some s' \<and> wake_rep s' (reg(q := r)) \<and> wake_only s s'"
proof -
  have rep: "heaps_rep s reg" and cnt: "\<And>d. td_high_res (time_domains s d) = int (card (high_res_entries (td_wake_ups (time_domains s d))))"
    using assms(1) by (auto simp: wake_rep_def)
  from change_wake_up_ok [OF rep assms(4,5), of res] obtain s1 where
    1: "(case wake_up of
         Some w \<Rightarrow>
           let e = \<lparr>sw_wake_up = w, sw_resolution = res, sw_queue = q\<rparr> in
           (case tq_heap_handle (task_queues s q) of Some pos \<Rightarrow> wake_ChangeKey d pos e s | None \<Rightarrow> wake_insert d e s)
       | None \<Rightarrow> (case tq_heap_handle (task_queues s q) of Some pos \<Rightarrow> wake_erase d pos s | None \<Rightarrow> Some s)) = Some s1"
      "heaps_rep s1 (reg(q := r))" "wake_only s s1" "\<forall>d. td_high_res (time_domains s1 d) = td_high_res (time_domains s d)"
    unfolding r_def by blast
  obtain t0 where t0: "NextScheduledRunTime d s = Some t0" using NextScheduledRunTime_ok [OF rep] by blast
  obtain t1 where t1: "NextScheduledRunTime d s1 = Some t1" using NextScheduledRunTime_ok [OF 1(2)] by blast
  let ?prev = "case tq_heap_handle (task_queues s q) of None \<Rightarrow> Some None
      | Some pos \<Rightarrow> do { e \<leftarrow> heap_at (wake_view s d) pos; Some (Some (sw_resolution e)) }"
  have prev: "?prev = Some (map_option (\<lambda>x. sw_resolution (snd x)) (reg q))"
  proof (cases "reg q")
    case None
    then show ?thesis using heaps_repD(3) [OF rep, of q] by simp
  next
    case (Some x)
    then obtain e where "reg q = Some (d, e)" using assms(4) by auto
    with wake_erase_ok [OF rep this] show ?thesis by auto
  qed
  let ?n = "td_high_res (time_domains s d) - (case reg q of Some (_, e) \<Rightarrow> of_bool (sw_resolution e = kHigh) | None \<Rightarrow> 0)
      + (case r of Some (_, e) \<Rightarrow> of_bool (sw_resolution e = kHigh) | None \<Rightarrow> 0)"
  have r: "r = None \<or> (\<exists>e. r = Some (d, e))" by (cases wake_up) (auto simp: r_def)
  note hi = high_res_changed [OF rep 1(2) assms(4) r]
  have n: "?n = int (card (high_res_entries (td_wake_ups (time_domains s1 d))))" using hi(2) cnt by simp
  have n': "(let n = td_high_res (time_domains s1 d);
      n = (if map_option (\<lambda>x. sw_resolution (snd x)) (reg q) = Some kHigh then n - 1 else n)
      in if wake_up \<noteq> None \<and> res = kHigh then n + 1 else n) = ?n"
    using 1(4) by (cases "reg q"; cases wake_up) (auto simp: r_def)
  let ?s = "s1\<lparr>time_domains := (time_domains s1)(d := (time_domains s1 d)\<lparr>td_high_res := ?n\<rparr>)\<rparr>"
  have "heaps_rep ?s (reg(q := r))" using 1(2) heaps_rep_cong [of ?s s1] by simp
  moreover have "td_high_res (time_domains ?s d') = int (card (high_res_entries (td_wake_ups (time_domains ?s d'))))" for d'
    using n hi(1) [of d'] 1(4) cnt by simp
  ultimately have "wake_rep ?s (reg(q := r))" by (simp add: wake_rep_def)
  moreover have "wake_only s ?s" using wake_only_trans [OF 1(3) wake_only_high_res] .
  moreover have "wake_rep (emit e ?s) (reg(q := r)) = wake_rep ?s (reg(q := r))" for e
    by (rule wake_rep_cong) (simp_all add: emit_def)
  moreover have "wake_only s (emit e ?s)" if "event_ok e" for e using wake_only_trans [OF calculation(2) wake_only_emit] that .
  moreover have "SetNextWakeUpForQueue d q wake_up res now s = (if t1 = t0 then Some ?s
      else let t = (case t1 of None \<Rightarrow> limit_max int64_t | Some t \<Rightarrow> t) in
        if t \<le> now then Some (emit ScheduleWork ?s) else Some (emit (SetNextDelayedDoWork now t) ?s))"
    using assms(2,3) t0 t1 prev 1(1) n n' unfolding SetNextWakeUpForQueue_def Let_def by simp
  ultimately show ?thesis by (auto simp: Let_def)
qed

section \<open>The invariant\<close>

text \<open>
  The invariant of one task queue, of its fields \<open>i\<close>, its immediate work queue \<open>a\<close>, its delayed work queue
  \<open>b\<close> and its entry \<open>r\<close> in a time domain; \<open>n\<close> is the next enqueue order.  It is stated for
  queues without delayed fences; the theorem \<open>delayed_fence_race\<close> shows what goes wrong with them.
\<close>

definition run_key :: "'c task \<Rightarrow> int \<times> int" where
  "run_key t = (delayed_run_time t, sequence_num t)"

definition delayed_ok :: "delayed_incoming_queue \<Rightarrow> bool" where
  "delayed_ok dq \<longleftrightarrow>
     sorted (map run_key (dq_tasks dq)) \<and> (\<forall>t \<in> set (dq_tasks dq). callback t \<noteq> None \<and> enqueue_order_set_to t = 0 \<and> seq_num_ok (sequence_num t))
     \<and> dq_high_res dq = int (length (filter is_high_res (dq_tasks dq)))"

abbreviation incoming_orders :: "task_queue_impl \<Rightarrow> nat list" where
  "incoming_orders i \<equiv> map enqueue_order_set_to (tq_immediate_incoming_queue i)"

abbreviation task_orders :: "closure task list \<Rightarrow> nat list" where
  "task_orders ts \<equiv> map enqueue_order_set_to ts"

definition orders_ok :: "nat \<Rightarrow> task_queue_impl \<Rightarrow> closure task list \<Rightarrow> closure task list \<Rightarrow> bool" where
  "orders_ok n i ts us \<longleftrightarrow>
     sorted (task_orders ts @ incoming_orders i) \<and> sorted_wrt (<) (incoming_orders i) \<and> 0 \<notin> set (incoming_orders i)
     \<and> (\<forall>k \<in> set (task_orders ts) \<union> set (incoming_orders i) \<union> set (task_orders us). k < n)"

definition mirror_ok :: "task_queue_impl \<Rightarrow> closure task list \<Rightarrow> bool" where
  "mirror_ok i ts \<longleftrightarrow>
     (tq_immediate_work_queue_empty i \<longleftrightarrow> ts = []) \<and> (tq_reload_flag i \<longrightarrow> ts = [])
     \<and> (ts = [] \<longrightarrow> tq_reload_flag i \<or> tq_immediate_incoming_queue i = [])
     \<and> (tq_is_enabled i \<and> tq_current_fence i = 0 \<longrightarrow> tq_should_schedule_work i)"

definition fence_ok :: "nat \<Rightarrow> task_queue_impl \<Rightarrow> nat \<Rightarrow> nat \<Rightarrow> bool" where
  "fence_ok n i f g \<longleftrightarrow>
     f = tq_current_fence i \<and> g = tq_current_fence i \<and> tq_current_fence i < n
     \<and> tq_delayed_fence i = None \<and> \<not> tq_delayed_fence_allowed i"

definition assigned_ok :: "task_queue_impl \<Rightarrow> set_id option \<Rightarrow> set_id option \<Rightarrow> nat \<Rightarrow> nat \<Rightarrow> bool" where
  "assigned_ok i sa sb ia ib \<longleftrightarrow>
     sa = (if tq_is_enabled i then Some immediate_sets else None)
     \<and> sb = (if tq_is_enabled i then Some delayed_sets else None) \<and> ib = ia \<and> tq_queue_set_index i < kQueuePriorityCount"

definition linked :: "task_queue_impl \<Rightarrow> (nat \<times> scheduled_wake_up) option \<Rightarrow> bool" where
  "linked i r \<longleftrightarrow>
     (case r of
        None \<Rightarrow> tq_scheduled_wake_up i = None
      | Some (d, e) \<Rightarrow> tq_time_domain i = Some d \<and> tq_scheduled_wake_up i = Some (sw_wake_up e))"

definition next_wake_up :: "task_queue_impl \<Rightarrow> delayed_wake_up option" where
  "next_wake_up i =
     (if dq_tasks (tq_delayed_incoming_queue i) = [] \<or> \<not> tq_is_enabled i then None
      else Some (task_delayed_wake_up (hd (dq_tasks (tq_delayed_incoming_queue i)))))"

definition domain_ok :: "task_queue_impl \<Rightarrow> bool" where
  "domain_ok i \<longleftrightarrow> tq_time_domain i \<noteq> None \<and> tq_any_time_domain i = tq_time_domain i \<and> \<not> tq_unregistered i \<and> tq_work_queues i"

definition wake_ok :: "task_queue_impl \<Rightarrow> (nat \<times> scheduled_wake_up) option \<Rightarrow> bool" where
  "wake_ok i r \<longleftrightarrow> linked i r \<and> tq_scheduled_wake_up i = next_wake_up i"

definition live :: "nat \<Rightarrow> task_queue_impl \<Rightarrow> work_queue \<Rightarrow> work_queue \<Rightarrow> (nat \<times> scheduled_wake_up) option \<Rightarrow> bool" where
  "live n i a b r \<longleftrightarrow>
     domain_ok i \<and> orders_ok n i (wq_tasks a) (wq_tasks b) \<and> mirror_ok i (wq_tasks a)
     \<and> fence_ok n i (wq_fence a) (wq_fence b) \<and> assigned_ok i (wq_sets a) (wq_sets b) (wq_set_index a) (wq_set_index b)
     \<and> delayed_ok (tq_delayed_incoming_queue i) \<and> wake_ok i r"

definition gone :: "task_queue_impl \<Rightarrow> work_queue \<Rightarrow> work_queue \<Rightarrow> (nat \<times> scheduled_wake_up) option \<Rightarrow> bool" where
  "gone i a b r \<longleftrightarrow>
     tq_unregistered i \<and> \<not> tq_work_queues i \<and> tq_time_domain i = None \<and> \<not> tq_reload_flag i
     \<and> wq_tasks a = [] \<and> wq_tasks b = [] \<and> wq_sets a = None \<and> wq_sets b = None \<and> r = None"

definition queue_inv :: "nat \<Rightarrow> task_queue_impl \<Rightarrow> work_queue \<Rightarrow> work_queue \<Rightarrow> (nat \<times> scheduled_wake_up) option \<Rightarrow> bool" where
  "queue_inv n i a b r \<longleftrightarrow> live n i a b r \<or> gone i a b r"

abbreviation inv_of :: "scheduler \<Rightarrow> (nat \<Rightarrow> (nat \<times> scheduled_wake_up) option) \<Rightarrow> nat \<Rightarrow> bool" where
  "inv_of s reg q \<equiv> queue_inv (order_counter s) (task_queues s q) (imm s q) (del s q) (reg q)"

definition env_ok :: "scheduler \<Rightarrow> bool" where
  "env_ok s \<longleftrightarrow>
     2 \<le> order_counter s
     \<and> length (cross_thread_task_delay s) = kQueuePriorityCount \<and> length (same_thread_task_delay s) = kQueuePriorityCount
     \<and> (\<forall>x \<in> set (cross_thread_task_delay s) \<union> set (same_thread_task_delay s). 0 \<le> x \<and> x \<le> limit_max int64_t)
     \<and> (\<forall>d. 0 \<le> td_now (time_domains s d) \<and> td_now (time_domains s d) \<le> limit_max int64_t)
     \<and> log_ok s"

definition sched_inv :: "scheduler \<Rightarrow> (nat \<Rightarrow> (nat \<times> scheduled_wake_up) option) \<Rightarrow> bool" where
  "sched_inv s reg \<longleftrightarrow> work_ok s \<and> env_ok s \<and> wake_rep s reg \<and> (\<forall>q. inv_of s reg q)"

definition sched_ok :: "scheduler \<Rightarrow> bool" where
  "sched_ok s \<longleftrightarrow> (\<exists>reg. sched_inv s reg)"

text \<open>
  A step on queue \<open>q\<close> leaves the other queues alone but for heap handles, and the clocks and settings.
\<close>

definition same_queue :: "work_queue \<Rightarrow> work_queue \<Rightarrow> bool" where
  "same_queue a b \<longleftrightarrow> (\<exists>h. b = a\<lparr>wq_heap_handle := h\<rparr>)"

definition same_impl :: "task_queue_impl \<Rightarrow> task_queue_impl \<Rightarrow> bool" where
  "same_impl i j \<longleftrightarrow> (\<exists>h. j = i\<lparr>tq_heap_handle := h\<rparr>)"

definition others :: "nat \<Rightarrow> scheduler \<Rightarrow> scheduler \<Rightarrow> bool" where
  "others q s s' \<longleftrightarrow>
     (\<forall>p. p \<noteq> q \<longrightarrow> same_impl (task_queues s p) (task_queues s' p) \<and> same_queue (imm s p) (imm s' p) \<and> same_queue (del s p) (del s' p))
     \<and> order_counter s \<le> order_counter s' \<and> (\<forall>d. td_now (time_domains s' d) = td_now (time_domains s d))
     \<and> cross_thread_task_delay s' = cross_thread_task_delay s \<and> same_thread_task_delay s' = same_thread_task_delay s
     \<and> is_cancelled s' = is_cancelled s \<and> (log_ok s \<longrightarrow> log_ok s')"

text \<open>A step on a queue that keeps its work queues and its time domain.\<close>

definition step_on :: "nat \<Rightarrow> scheduler \<Rightarrow> scheduler \<Rightarrow> bool" where
  "step_on q s s' \<longleftrightarrow>
     others q s s' \<and> tq_work_queues (task_queues s' q) = tq_work_queues (task_queues s q)
     \<and> tq_time_domain (task_queues s' q) = tq_time_domain (task_queues s q)"

text \<open>The queue is enabled and fenced as before.\<close>

definition same_gate :: "task_queue_impl \<Rightarrow> task_queue_impl \<Rightarrow> bool" where
  "same_gate i j \<longleftrightarrow> tq_is_enabled j = tq_is_enabled i \<and> tq_current_fence j = tq_current_fence i"

text \<open>A step that also leaves the request to reload the queue, its gate and its priority as they are.\<close>

definition calm_on :: "nat \<Rightarrow> scheduler \<Rightarrow> scheduler \<Rightarrow> bool" where
  "calm_on q s s' \<longleftrightarrow>
     step_on q s s' \<and> tq_reload_flag (task_queues s' q) = tq_reload_flag (task_queues s q)
     \<and> same_gate (task_queues s q) (task_queues s' q) \<and> wq_set_index (imm s' q) = wq_set_index (imm s q)"

lemma same_refl [simp]: "same_queue a a" "same_impl i i"
  unfolding same_queue_def same_impl_def
  by (rule exI [of _ "wq_heap_handle a"], simp, rule exI [of _ "tq_heap_handle i"], simp)

lemma same_trans:
  "same_queue a b \<Longrightarrow> same_queue b c \<Longrightarrow> same_queue a c" "same_impl i j \<Longrightarrow> same_impl j k \<Longrightarrow> same_impl i k"
  unfolding same_queue_def same_impl_def by auto

lemma others_refl [simp]: "others q s s"
  by (simp add: others_def)

lemma others_trans: "others q s t \<Longrightarrow> others q t u \<Longrightarrow> others q s u"
  unfolding others_def by (auto intro: same_trans)

lemma step_onI:
  "others q s s' \<Longrightarrow> tq_work_queues (task_queues s' q) = tq_work_queues (task_queues s q) \<Longrightarrow>
    tq_time_domain (task_queues s' q) = tq_time_domain (task_queues s q) \<Longrightarrow> step_on q s s'"
  by (simp add: step_on_def)

lemma step_onD: "step_on q s s' \<Longrightarrow> others q s s'"
  by (simp add: step_on_def)

lemma step_on_refl [simp]: "step_on q s s"
  by (simp add: step_on_def)

lemma step_on_trans: "step_on q s t \<Longrightarrow> step_on q t u \<Longrightarrow> step_on q s u"
  unfolding step_on_def using others_trans by auto

lemma same_gate_refl [simp]: "same_gate i i"
  by (simp add: same_gate_def)

lemma calm_onI:
  "others q s s' \<Longrightarrow> tq_work_queues (task_queues s' q) = tq_work_queues (task_queues s q) \<Longrightarrow>
    tq_time_domain (task_queues s' q) = tq_time_domain (task_queues s q) \<Longrightarrow>
    tq_reload_flag (task_queues s' q) = tq_reload_flag (task_queues s q) \<Longrightarrow> same_gate (task_queues s q) (task_queues s' q) \<Longrightarrow>
    wq_set_index (imm s' q) = wq_set_index (imm s q) \<Longrightarrow> calm_on q s s'"
  by (simp add: calm_on_def step_on_def)

lemma calm_onD: "calm_on q s s' \<Longrightarrow> step_on q s s'"
  by (simp add: calm_on_def)

lemma calm_on_refl [simp]: "calm_on q s s"
  by (simp add: calm_on_def)

lemma same_queue_sub:
  assumes "same_queue a a'"
  shows "wq_tasks a' = wq_tasks a" "wq_sets a' = wq_sets a" "wq_set_index a' = wq_set_index a" "wq_fence a' = wq_fence a"
    "ready a' = ready a" "front a' = front a" "blocked a' = blocked a" "queue_ok a' = queue_ok a"
proof -
  obtain h where "a' = a\<lparr>wq_heap_handle := h\<rparr>" using assms by (auto simp: same_queue_def)
  then show "wq_tasks a' = wq_tasks a" "wq_sets a' = wq_sets a" "wq_set_index a' = wq_set_index a" "wq_fence a' = wq_fence a"
    "ready a' = ready a" "front a' = front a" "blocked a' = blocked a" "queue_ok a' = queue_ok a" by simp_all
qed

text \<open>The parts of the invariant depend on few fields.\<close>

lemma domain_ok_upd [simp]:
  "domain_ok (i\<lparr>tq_immediate_incoming_queue := x1\<rparr>) = domain_ok i"
  "domain_ok (i\<lparr>tq_immediate_work_queue_empty := x2\<rparr>) = domain_ok i"
  "domain_ok (i\<lparr>tq_should_schedule_work := x3\<rparr>) = domain_ok i"
  "domain_ok (i\<lparr>tq_queue_set_index := x4\<rparr>) = domain_ok i"
  "domain_ok (i\<lparr>tq_tracing_is_enabled := x5\<rparr>) = domain_ok i"
  "domain_ok (i\<lparr>tq_tracing_disabled_time := x6\<rparr>) = domain_ok i"
  "domain_ok (i\<lparr>tq_tracing_should_report := x7\<rparr>) = domain_ok i"
  "domain_ok (i\<lparr>tq_observer := x8\<rparr>) = domain_ok i"
  "domain_ok (i\<lparr>tq_delayed_incoming_queue := x9\<rparr>) = domain_ok i"
  "domain_ok (i\<lparr>tq_heap_handle := x10\<rparr>) = domain_ok i"
  "domain_ok (i\<lparr>tq_is_enabled := x11\<rparr>) = domain_ok i"
  "domain_ok (i\<lparr>tq_current_fence := x12\<rparr>) = domain_ok i"
  "domain_ok (i\<lparr>tq_delayed_fence := x13\<rparr>) = domain_ok i"
  "domain_ok (i\<lparr>tq_last_unblocked := x14\<rparr>) = domain_ok i"
  "domain_ok (i\<lparr>tq_scheduled_wake_up := x15\<rparr>) = domain_ok i"
  "domain_ok (i\<lparr>tq_disabled_time := x16\<rparr>) = domain_ok i"
  "domain_ok (i\<lparr>tq_should_report := x17\<rparr>) = domain_ok i"
  "domain_ok (i\<lparr>tq_reload_flag := x18\<rparr>) = domain_ok i"
  by (simp_all add: domain_ok_def)

lemma orders_ok_upd [simp]:
  "orders_ok n (i\<lparr>tq_immediate_work_queue_empty := x2\<rparr>) ts us = orders_ok n i ts us"
  "orders_ok n (i\<lparr>tq_should_schedule_work := x3\<rparr>) ts us = orders_ok n i ts us"
  "orders_ok n (i\<lparr>tq_queue_set_index := x4\<rparr>) ts us = orders_ok n i ts us"
  "orders_ok n (i\<lparr>tq_tracing_is_enabled := x5\<rparr>) ts us = orders_ok n i ts us"
  "orders_ok n (i\<lparr>tq_tracing_disabled_time := x6\<rparr>) ts us = orders_ok n i ts us"
  "orders_ok n (i\<lparr>tq_tracing_should_report := x7\<rparr>) ts us = orders_ok n i ts us"
  "orders_ok n (i\<lparr>tq_observer := x8\<rparr>) ts us = orders_ok n i ts us"
  "orders_ok n (i\<lparr>tq_delayed_incoming_queue := x9\<rparr>) ts us = orders_ok n i ts us"
  "orders_ok n (i\<lparr>tq_heap_handle := x10\<rparr>) ts us = orders_ok n i ts us"
  "orders_ok n (i\<lparr>tq_is_enabled := x11\<rparr>) ts us = orders_ok n i ts us"
  "orders_ok n (i\<lparr>tq_current_fence := x12\<rparr>) ts us = orders_ok n i ts us"
  "orders_ok n (i\<lparr>tq_delayed_fence := x13\<rparr>) ts us = orders_ok n i ts us"
  "orders_ok n (i\<lparr>tq_last_unblocked := x14\<rparr>) ts us = orders_ok n i ts us"
  "orders_ok n (i\<lparr>tq_scheduled_wake_up := x15\<rparr>) ts us = orders_ok n i ts us"
  "orders_ok n (i\<lparr>tq_disabled_time := x16\<rparr>) ts us = orders_ok n i ts us"
  "orders_ok n (i\<lparr>tq_should_report := x17\<rparr>) ts us = orders_ok n i ts us"
  "orders_ok n (i\<lparr>tq_reload_flag := x18\<rparr>) ts us = orders_ok n i ts us"
  "orders_ok n (i\<lparr>tq_time_domain := x19\<rparr>) ts us = orders_ok n i ts us"
  "orders_ok n (i\<lparr>tq_any_time_domain := x20\<rparr>) ts us = orders_ok n i ts us"
  by (simp_all add: orders_ok_def)

lemma mirror_ok_upd [simp]:
  "mirror_ok (i\<lparr>tq_queue_set_index := x4\<rparr>) ts = mirror_ok i ts"
  "mirror_ok (i\<lparr>tq_tracing_is_enabled := x5\<rparr>) ts = mirror_ok i ts"
  "mirror_ok (i\<lparr>tq_tracing_disabled_time := x6\<rparr>) ts = mirror_ok i ts"
  "mirror_ok (i\<lparr>tq_tracing_should_report := x7\<rparr>) ts = mirror_ok i ts"
  "mirror_ok (i\<lparr>tq_observer := x8\<rparr>) ts = mirror_ok i ts"
  "mirror_ok (i\<lparr>tq_delayed_incoming_queue := x9\<rparr>) ts = mirror_ok i ts"
  "mirror_ok (i\<lparr>tq_heap_handle := x10\<rparr>) ts = mirror_ok i ts"
  "mirror_ok (i\<lparr>tq_delayed_fence := x13\<rparr>) ts = mirror_ok i ts"
  "mirror_ok (i\<lparr>tq_last_unblocked := x14\<rparr>) ts = mirror_ok i ts"
  "mirror_ok (i\<lparr>tq_scheduled_wake_up := x15\<rparr>) ts = mirror_ok i ts"
  "mirror_ok (i\<lparr>tq_disabled_time := x16\<rparr>) ts = mirror_ok i ts"
  "mirror_ok (i\<lparr>tq_should_report := x17\<rparr>) ts = mirror_ok i ts"
  "mirror_ok (i\<lparr>tq_time_domain := x19\<rparr>) ts = mirror_ok i ts"
  "mirror_ok (i\<lparr>tq_any_time_domain := x20\<rparr>) ts = mirror_ok i ts"
  by (simp_all add: mirror_ok_def)

lemma fence_ok_upd [simp]:
  "fence_ok n (i\<lparr>tq_immediate_incoming_queue := x1\<rparr>) f g = fence_ok n i f g"
  "fence_ok n (i\<lparr>tq_immediate_work_queue_empty := x2\<rparr>) f g = fence_ok n i f g"
  "fence_ok n (i\<lparr>tq_should_schedule_work := x3\<rparr>) f g = fence_ok n i f g"
  "fence_ok n (i\<lparr>tq_queue_set_index := x4\<rparr>) f g = fence_ok n i f g"
  "fence_ok n (i\<lparr>tq_tracing_is_enabled := x5\<rparr>) f g = fence_ok n i f g"
  "fence_ok n (i\<lparr>tq_tracing_disabled_time := x6\<rparr>) f g = fence_ok n i f g"
  "fence_ok n (i\<lparr>tq_tracing_should_report := x7\<rparr>) f g = fence_ok n i f g"
  "fence_ok n (i\<lparr>tq_observer := x8\<rparr>) f g = fence_ok n i f g"
  "fence_ok n (i\<lparr>tq_delayed_incoming_queue := x9\<rparr>) f g = fence_ok n i f g"
  "fence_ok n (i\<lparr>tq_heap_handle := x10\<rparr>) f g = fence_ok n i f g"
  "fence_ok n (i\<lparr>tq_is_enabled := x11\<rparr>) f g = fence_ok n i f g"
  "fence_ok n (i\<lparr>tq_last_unblocked := x14\<rparr>) f g = fence_ok n i f g"
  "fence_ok n (i\<lparr>tq_scheduled_wake_up := x15\<rparr>) f g = fence_ok n i f g"
  "fence_ok n (i\<lparr>tq_disabled_time := x16\<rparr>) f g = fence_ok n i f g"
  "fence_ok n (i\<lparr>tq_should_report := x17\<rparr>) f g = fence_ok n i f g"
  "fence_ok n (i\<lparr>tq_reload_flag := x18\<rparr>) f g = fence_ok n i f g"
  "fence_ok n (i\<lparr>tq_time_domain := x19\<rparr>) f g = fence_ok n i f g"
  "fence_ok n (i\<lparr>tq_any_time_domain := x20\<rparr>) f g = fence_ok n i f g"
  by (simp_all add: fence_ok_def)

lemma assigned_ok_upd [simp]:
  "assigned_ok (i\<lparr>tq_immediate_incoming_queue := x1\<rparr>) sa sb ia ib = assigned_ok i sa sb ia ib"
  "assigned_ok (i\<lparr>tq_immediate_work_queue_empty := x2\<rparr>) sa sb ia ib = assigned_ok i sa sb ia ib"
  "assigned_ok (i\<lparr>tq_should_schedule_work := x3\<rparr>) sa sb ia ib = assigned_ok i sa sb ia ib"
  "assigned_ok (i\<lparr>tq_tracing_is_enabled := x5\<rparr>) sa sb ia ib = assigned_ok i sa sb ia ib"
  "assigned_ok (i\<lparr>tq_tracing_disabled_time := x6\<rparr>) sa sb ia ib = assigned_ok i sa sb ia ib"
  "assigned_ok (i\<lparr>tq_tracing_should_report := x7\<rparr>) sa sb ia ib = assigned_ok i sa sb ia ib"
  "assigned_ok (i\<lparr>tq_observer := x8\<rparr>) sa sb ia ib = assigned_ok i sa sb ia ib"
  "assigned_ok (i\<lparr>tq_delayed_incoming_queue := x9\<rparr>) sa sb ia ib = assigned_ok i sa sb ia ib"
  "assigned_ok (i\<lparr>tq_heap_handle := x10\<rparr>) sa sb ia ib = assigned_ok i sa sb ia ib"
  "assigned_ok (i\<lparr>tq_current_fence := x12\<rparr>) sa sb ia ib = assigned_ok i sa sb ia ib"
  "assigned_ok (i\<lparr>tq_delayed_fence := x13\<rparr>) sa sb ia ib = assigned_ok i sa sb ia ib"
  "assigned_ok (i\<lparr>tq_last_unblocked := x14\<rparr>) sa sb ia ib = assigned_ok i sa sb ia ib"
  "assigned_ok (i\<lparr>tq_scheduled_wake_up := x15\<rparr>) sa sb ia ib = assigned_ok i sa sb ia ib"
  "assigned_ok (i\<lparr>tq_disabled_time := x16\<rparr>) sa sb ia ib = assigned_ok i sa sb ia ib"
  "assigned_ok (i\<lparr>tq_should_report := x17\<rparr>) sa sb ia ib = assigned_ok i sa sb ia ib"
  "assigned_ok (i\<lparr>tq_reload_flag := x18\<rparr>) sa sb ia ib = assigned_ok i sa sb ia ib"
  "assigned_ok (i\<lparr>tq_time_domain := x19\<rparr>) sa sb ia ib = assigned_ok i sa sb ia ib"
  "assigned_ok (i\<lparr>tq_any_time_domain := x20\<rparr>) sa sb ia ib = assigned_ok i sa sb ia ib"
  by (simp_all add: assigned_ok_def)

lemma linked_upd [simp]:
  "linked (i\<lparr>tq_immediate_incoming_queue := x1\<rparr>) r = linked i r"
  "linked (i\<lparr>tq_immediate_work_queue_empty := x2\<rparr>) r = linked i r"
  "linked (i\<lparr>tq_should_schedule_work := x3\<rparr>) r = linked i r"
  "linked (i\<lparr>tq_queue_set_index := x4\<rparr>) r = linked i r"
  "linked (i\<lparr>tq_tracing_is_enabled := x5\<rparr>) r = linked i r"
  "linked (i\<lparr>tq_tracing_disabled_time := x6\<rparr>) r = linked i r"
  "linked (i\<lparr>tq_tracing_should_report := x7\<rparr>) r = linked i r"
  "linked (i\<lparr>tq_observer := x8\<rparr>) r = linked i r"
  "linked (i\<lparr>tq_delayed_incoming_queue := x9\<rparr>) r = linked i r"
  "linked (i\<lparr>tq_heap_handle := x10\<rparr>) r = linked i r"
  "linked (i\<lparr>tq_is_enabled := x11\<rparr>) r = linked i r"
  "linked (i\<lparr>tq_current_fence := x12\<rparr>) r = linked i r"
  "linked (i\<lparr>tq_delayed_fence := x13\<rparr>) r = linked i r"
  "linked (i\<lparr>tq_last_unblocked := x14\<rparr>) r = linked i r"
  "linked (i\<lparr>tq_disabled_time := x16\<rparr>) r = linked i r"
  "linked (i\<lparr>tq_should_report := x17\<rparr>) r = linked i r"
  "linked (i\<lparr>tq_reload_flag := x18\<rparr>) r = linked i r"
  "linked (i\<lparr>tq_any_time_domain := x20\<rparr>) r = linked i r"
  by (simp_all add: linked_def split: option.split)

lemma next_wake_up_upd [simp]:
  "next_wake_up (i\<lparr>tq_immediate_incoming_queue := x1\<rparr>) = next_wake_up i"
  "next_wake_up (i\<lparr>tq_immediate_work_queue_empty := x2\<rparr>) = next_wake_up i"
  "next_wake_up (i\<lparr>tq_should_schedule_work := x3\<rparr>) = next_wake_up i"
  "next_wake_up (i\<lparr>tq_queue_set_index := x4\<rparr>) = next_wake_up i"
  "next_wake_up (i\<lparr>tq_tracing_is_enabled := x5\<rparr>) = next_wake_up i"
  "next_wake_up (i\<lparr>tq_tracing_disabled_time := x6\<rparr>) = next_wake_up i"
  "next_wake_up (i\<lparr>tq_tracing_should_report := x7\<rparr>) = next_wake_up i"
  "next_wake_up (i\<lparr>tq_observer := x8\<rparr>) = next_wake_up i"
  "next_wake_up (i\<lparr>tq_heap_handle := x10\<rparr>) = next_wake_up i"
  "next_wake_up (i\<lparr>tq_current_fence := x12\<rparr>) = next_wake_up i"
  "next_wake_up (i\<lparr>tq_delayed_fence := x13\<rparr>) = next_wake_up i"
  "next_wake_up (i\<lparr>tq_last_unblocked := x14\<rparr>) = next_wake_up i"
  "next_wake_up (i\<lparr>tq_scheduled_wake_up := x15\<rparr>) = next_wake_up i"
  "next_wake_up (i\<lparr>tq_disabled_time := x16\<rparr>) = next_wake_up i"
  "next_wake_up (i\<lparr>tq_should_report := x17\<rparr>) = next_wake_up i"
  "next_wake_up (i\<lparr>tq_reload_flag := x18\<rparr>) = next_wake_up i"
  "next_wake_up (i\<lparr>tq_time_domain := x19\<rparr>) = next_wake_up i"
  "next_wake_up (i\<lparr>tq_any_time_domain := x20\<rparr>) = next_wake_up i"
  by (simp_all add: next_wake_up_def)

lemma wake_ok_upd [simp]:
  "wake_ok (i\<lparr>tq_immediate_incoming_queue := x1\<rparr>) r = wake_ok i r"
  "wake_ok (i\<lparr>tq_immediate_work_queue_empty := x2\<rparr>) r = wake_ok i r"
  "wake_ok (i\<lparr>tq_should_schedule_work := x3\<rparr>) r = wake_ok i r"
  "wake_ok (i\<lparr>tq_queue_set_index := x4\<rparr>) r = wake_ok i r"
  "wake_ok (i\<lparr>tq_tracing_is_enabled := x5\<rparr>) r = wake_ok i r"
  "wake_ok (i\<lparr>tq_tracing_disabled_time := x6\<rparr>) r = wake_ok i r"
  "wake_ok (i\<lparr>tq_tracing_should_report := x7\<rparr>) r = wake_ok i r"
  "wake_ok (i\<lparr>tq_observer := x8\<rparr>) r = wake_ok i r"
  "wake_ok (i\<lparr>tq_heap_handle := x10\<rparr>) r = wake_ok i r"
  "wake_ok (i\<lparr>tq_current_fence := x12\<rparr>) r = wake_ok i r"
  "wake_ok (i\<lparr>tq_delayed_fence := x13\<rparr>) r = wake_ok i r"
  "wake_ok (i\<lparr>tq_last_unblocked := x14\<rparr>) r = wake_ok i r"
  "wake_ok (i\<lparr>tq_disabled_time := x16\<rparr>) r = wake_ok i r"
  "wake_ok (i\<lparr>tq_should_report := x17\<rparr>) r = wake_ok i r"
  "wake_ok (i\<lparr>tq_reload_flag := x18\<rparr>) r = wake_ok i r"
  "wake_ok (i\<lparr>tq_any_time_domain := x20\<rparr>) r = wake_ok i r"
  by (simp_all add: wake_ok_def)

lemma orders_ok_mono: "orders_ok n i ts us \<Longrightarrow> n \<le> m \<Longrightarrow> orders_ok m i ts us"
  unfolding orders_ok_def by (meson less_le_trans)

lemma fence_ok_mono: "fence_ok n i f g \<Longrightarrow> n \<le> m \<Longrightarrow> fence_ok m i f g"
  by (simp add: fence_ok_def)

lemma live_mono: "live n i a b r \<Longrightarrow> n \<le> m \<Longrightarrow> live m i a b r"
  unfolding live_def using orders_ok_mono fence_ok_mono by blast

lemma live_same:
  assumes "same_impl i i'" "same_queue a a'" "same_queue b b'"
  shows "live n i' a' b' r = live n i a b r" "gone i' a' b' r = gone i a b r"
proof -
  obtain h where i': "i' = i\<lparr>tq_heap_handle := h\<rparr>" using assms(1) by (auto simp: same_impl_def)
  note sub = same_queue_sub [OF assms(2)] same_queue_sub [OF assms(3)]
  show "live n i' a' b' r = live n i a b r" using sub by (simp add: live_def i' wake_ok_def)
  show "gone i' a' b' r = gone i a b r" using sub by (simp add: gone_def i')
qed

lemma queue_inv_same:
  assumes "queue_inv n i a b r" "same_impl i i'" "same_queue a a'" "same_queue b b'" "n \<le> n'"
  shows "queue_inv n' i' a' b' r"
  using assms(1,5) live_mono live_same [OF assms(2-4)] unfolding queue_inv_def by blast

text \<open>The invariant after a step on queue \<open>q\<close>.\<close>

lemma sched_inv_step:
  assumes "sched_inv s reg" "others q s s'" "work_ok s'" "wake_rep s' reg'" "\<forall>p. p \<noteq> q \<longrightarrow> reg' p = reg p" "inv_of s' reg' q"
  shows "sched_inv s' reg'"
proof -
  have "inv_of s' reg' p" if "p \<noteq> q" for p
    using assms(1,2,5) that queue_inv_same [of "order_counter s" "task_queues s p" "imm s p" "del s p" "reg p"]
    by (simp add: sched_inv_def others_def)
  moreover have "env_ok s'" using assms(1,2) by (auto simp: sched_inv_def env_ok_def others_def)
  ultimately show ?thesis using assms(3,4,6) unfolding sched_inv_def by metis
qed

lemma upd_simps [simp]:
  "task_queues (upd q f s) = (task_queues s)(q := f (task_queues s q))" "queues (upd q f s) = queues s" "heaps (upd q f s) = heaps s"
  "sel (upd q f s) = sel s" "last_rand (upd q f s) = last_rand s" "time_domains (upd q f s) = time_domains s"
  "order_counter (upd q f s) = order_counter s" "is_cancelled (upd q f s) = is_cancelled s" "event_log (upd q f s) = event_log s"
  "cross_thread_task_delay (upd q f s) = cross_thread_task_delay s" "same_thread_task_delay (upd q f s) = same_thread_task_delay s"
  "add_queue_time_to_tasks (upd q f s) = add_queue_time_to_tasks s"
  by (simp_all add: upd_def)

lemma emit_simps [simp]:
  "task_queues (emit e s) = task_queues s" "queues (emit e s) = queues s" "heaps (emit e s) = heaps s" "sel (emit e s) = sel s"
  "last_rand (emit e s) = last_rand s" "time_domains (emit e s) = time_domains s" "order_counter (emit e s) = order_counter s"
  "is_cancelled (emit e s) = is_cancelled s" "cross_thread_task_delay (emit e s) = cross_thread_task_delay s"
  "same_thread_task_delay (emit e s) = same_thread_task_delay s" "add_queue_time_to_tasks (emit e s) = add_queue_time_to_tasks s"
  "event_log (emit e s) = event_log s @ [e]"
  by (simp_all add: emit_def)

lemma set_queue_simps2 [simp]:
  "task_queues (set_queue w x s) = task_queues s" "time_domains (set_queue w x s) = time_domains s"
  "order_counter (set_queue w x s) = order_counter s" "is_cancelled (set_queue w x s) = is_cancelled s"
  "event_log (set_queue w x s) = event_log s" "cross_thread_task_delay (set_queue w x s) = cross_thread_task_delay s"
  "same_thread_task_delay (set_queue w x s) = same_thread_task_delay s" "add_queue_time_to_tasks (set_queue w x s) = add_queue_time_to_tasks s"
  by (simp_all add: set_queue_def)

lemma log_ok_simps [simp]:
  "log_ok (upd q f s) = log_ok s" "log_ok (emit e s) \<longleftrightarrow> log_ok s \<and> event_ok e" "log_ok (set_queue w x s) = log_ok s"
  "log_ok (s\<lparr>order_counter := n\<rparr>) = log_ok s" "log_ok (s\<lparr>is_cancelled := c\<rparr>) = log_ok s" "log_ok (s\<lparr>time_domains := td\<rparr>) = log_ok s"
  "log_ok (s\<lparr>sel := se\<rparr>) = log_ok s"
  by (simp_all add: log_ok_def)

lemma work_ok_cong:
  fixes s s' :: "'z work_state_scheme"
  assumes "queues s' = queues s" "heaps s' = heaps s" "sel s' = sel s"
  shows "work_ok s' = work_ok s"
proof -
  have "heap_view s' = heap_view s" using assms by (simp add: heap_view_def fun_eq_iff)
  then show ?thesis using assms by (simp add: work_ok_def sets_rep_def)
qed

lemma work_ok_simps [simp]: "work_ok (upd q f s) = work_ok s" "work_ok (emit e s) = work_ok s"
  "work_ok (s\<lparr>order_counter := n\<rparr>) = work_ok s"
  by (rule work_ok_cong; simp)+

lemma wake_rep_simps [simp]:
  "wake_rep (emit e s) reg = wake_rep s reg" "wake_rep (s\<lparr>order_counter := n\<rparr>) reg = wake_rep s reg"
  "wake_rep (set_queue w x s) reg = wake_rep s reg"
  by (rule wake_rep_cong; simp)+

lemma wake_rep_upd: "(\<And>i. tq_heap_handle (f i) = tq_heap_handle i) \<Longrightarrow> wake_rep (upd q f s) reg = wake_rep s reg"
  by (rule wake_rep_cong) simp_all

lemma others_simps [simp]:
  "others q s (upd q f s)" "event_ok e \<Longrightarrow> others q s (emit e s)" "order_counter s \<le> n \<Longrightarrow> others q s (s\<lparr>order_counter := n\<rparr>)"
  "others q s (set_queue (q, ty) x s)"
  by (simp_all add: others_def log_ok_def)

lemma sets_only_others:
  fixes s :: scheduler
  assumes "sets_only s s'"
  shows "others q s s'" "task_queues s' = task_queues s" "time_domains s' = time_domains s" "order_counter s' = order_counter s"
    "event_log s' = event_log s" "same_queue (queues s w) (queues s' w)" "is_cancelled s' = is_cancelled s"
    "add_queue_time_to_tasks s' = add_queue_time_to_tasks s" "wake_rep s' reg = wake_rep s reg"
proof -
  obtain hs hn a n where s': "s' = s\<lparr>heaps := hs, queues := (\<lambda>w. (queues s w)\<lparr>wq_heap_handle := hn w\<rparr>),
     sel := (sel s)\<lparr>active_priorities := a, non_empty_set_counts := n\<rparr>\<rparr>" by (rule sets_onlyE [OF assms])
  show t: "task_queues s' = task_queues s" "time_domains s' = time_domains s" "order_counter s' = order_counter s"
    "event_log s' = event_log s" "is_cancelled s' = is_cancelled s" "add_queue_time_to_tasks s' = add_queue_time_to_tasks s"
    by (simp_all add: s')
  show same: "same_queue (queues s w) (queues s' w)" for w by (auto simp: s' same_queue_def)
  show "others q s s'" using same by (auto simp: others_def log_ok_def s')
  show "wake_rep s' reg = wake_rep s reg" by (rule wake_rep_cong) (simp_all add: t)
qed

lemma wake_only_others:
  assumes "wake_only s s'"
  shows "others q s s'" "queues s' = queues s" "heaps s' = heaps s" "sel s' = sel s" "order_counter s' = order_counter s"
    "same_impl (task_queues s p) (task_queues s' p)" "is_cancelled s' = is_cancelled s" "work_ok s' = work_ok s"
    "td_now (time_domains s' d) = td_now (time_domains s d)" "add_queue_time_to_tasks s' = add_queue_time_to_tasks s"
proof -
  obtain tds hn ev where s':
    "s' = s\<lparr>time_domains := tds, task_queues := (\<lambda>q. (task_queues s q)\<lparr>tq_heap_handle := hn q\<rparr>), event_log := ev\<rparr>"
    "\<forall>d. td_now (tds d) = td_now (time_domains s d)" "log_ok s \<longrightarrow> list_all event_ok ev" by (rule wake_onlyE [OF assms])
  show t: "queues s' = queues s" "heaps s' = heaps s" "sel s' = sel s" "order_counter s' = order_counter s"
    "is_cancelled s' = is_cancelled s" "td_now (time_domains s' d) = td_now (time_domains s d)"
    "add_queue_time_to_tasks s' = add_queue_time_to_tasks s" for d
    using s' by simp_all
  show same: "same_impl (task_queues s p) (task_queues s' p)" for p by (auto simp: s'(1) same_impl_def)
  have "log_ok s \<longrightarrow> log_ok s'" using s'(1,3) by (simp add: log_ok_def)
  then show "others q s s'" using s'(2) same by (auto simp: others_def s'(1))
  show "work_ok s' = work_ok s" by (rule work_ok_cong) (simp_all add: t)
qed

section \<open>Wake-ups and mirrored state\<close>

lemma GetNextScheduledWakeUpImpl_eq [simp]: "GetNextScheduledWakeUpImpl q s = next_wake_up (task_queues s q)"
  by (auto simp: GetNextScheduledWakeUpImpl_def next_wake_up_def dq_top_def Let_def split: list.split)

lemma upd_idem: "f (task_queues s q) = task_queues s q \<Longrightarrow> upd q f s = s"
  by (simp add: upd_def fun_upd_idem)

lemma work_queues_of_ok [simp]: "tq_work_queues (task_queues s q) \<Longrightarrow> work_queues_of q s = Some ()"
  by (simp add: work_queues_of_def)

lemma UpdateDelayedWakeUp_ok:
  assumes "wake_rep s reg" "domain_ok (task_queues s q)" "linked (task_queues s q) (reg q)"
    "delayed_ok (tq_delayed_incoming_queue (task_queues s q))"
  shows "\<exists>s' r. UpdateDelayedWakeUp q now s = Some s' \<and> wake_rep s' (reg(q := r)) \<and> wake_ok (task_queues s' q) r
    \<and> wake_only (upd q (\<lambda>i. i\<lparr>tq_scheduled_wake_up := next_wake_up (task_queues s q)\<rparr>) s) s'"
proof (cases "tq_scheduled_wake_up (task_queues s q) = next_wake_up (task_queues s q)")
  case True
  then have "UpdateDelayedWakeUp q now s = Some s" by (simp add: UpdateDelayedWakeUp_def UpdateDelayedWakeUpImpl_def)
  moreover have "upd q (\<lambda>i. i\<lparr>tq_scheduled_wake_up := next_wake_up (task_queues s q)\<rparr>) s = s"
    using True by (intro upd_idem) simp
  ultimately show ?thesis
    using True assms by (intro exI [of _ s] exI [of _ "reg q"]) (simp add: wake_ok_def)
next
  case False
  let ?i = "task_queues s q" and ?w = "next_wake_up (task_queues s q)"
  let ?s = "upd q (\<lambda>i. i\<lparr>tq_scheduled_wake_up := ?w\<rparr>) s"
  let ?res = "if dq_high_res (tq_delayed_incoming_queue ?i) \<noteq> 0 then kHigh else kLow"
  obtain d where d: "tq_time_domain ?i = Some d" using assms(2) by (auto simp: domain_ok_def)
  have lk: "reg q = None \<or> (\<exists>e. reg q = Some (d, e))"
    using assms(3) d by (auto simp: linked_def split: option.splits)
  have en: "tq_is_enabled ?i \<or> ?w = None" by (simp add: next_wake_up_def)
  have num: "pred_option (\<lambda>w. seq_num_ok (wu_sequence_num w)) ?w"
    using assms(4) by (auto simp: next_wake_up_def delayed_ok_def task_delayed_wake_up_def)
  have rep: "wake_rep ?s reg" using assms(1) by (simp add: wake_rep_upd)
  define t where "t = (if ?w \<noteq> None \<and> tq_observer ?i \<and> wq_tasks (del s q) = [] \<and> wq_tasks (imm s q) = []
      \<and> tq_immediate_incoming_queue ?i = [] then emit (OnQueueNextWakeUpChanged q (wu_time (the ?w))) ?s else ?s)"
  have t: "wake_rep t reg" "task_queues t = task_queues ?s" "wake_only ?s t" using rep by (simp_all add: t_def)
  have "UpdateDelayedWakeUp q now s = SetNextWakeUpForQueue d q ?w ?res now t"
    using False d assms(2)
    by (auto simp: UpdateDelayedWakeUp_def UpdateDelayedWakeUpImpl_def t_def HasPendingImmediateWork_def domain_ok_def Let_def
        split: option.splits)
  moreover from SetNextWakeUpForQueue_ok [OF t(1) _ _ lk num, of ?res now] obtain s' where
    "SetNextWakeUpForQueue d q ?w ?res now t = Some s'"
    "wake_rep s' (reg(q := map_option (\<lambda>w. (d, \<lparr>sw_wake_up = w, sw_resolution = ?res, sw_queue = q\<rparr>)) ?w))" "wake_only t s'"
    using d en t(2) by auto
  moreover have "wake_ok (task_queues s' q) (map_option (\<lambda>w. (d, \<lparr>sw_wake_up = w, sw_resolution = ?res, sw_queue = q\<rparr>)) ?w)"
  proof -
    have "same_impl (task_queues ?s q) (task_queues s' q)" using wake_only_others(6) [OF calculation(4), of q] t(2) by simp
    moreover have "wake_ok (task_queues ?s q) (map_option (\<lambda>w. (d, \<lparr>sw_wake_up = w, sw_resolution = ?res, sw_queue = q\<rparr>)) ?w)"
      using d by (auto simp: wake_ok_def linked_def next_wake_up_def)
    ultimately show ?thesis by (auto simp: same_impl_def wake_ok_def)
  qed
  ultimately show ?thesis using wake_only_trans [OF t(3)] by metis
qed

definition mirrored :: "scheduler \<Rightarrow> nat \<Rightarrow> task_queue_impl \<Rightarrow> task_queue_impl" where
  "mirrored s q i = i\<lparr>tq_immediate_work_queue_empty := (wq_tasks (imm s q) = []),
     tq_should_schedule_work := (if tq_observer i then tq_is_enabled i else tq_is_enabled i \<and> tq_current_fence i = 0),
     tq_queue_set_index := wq_set_index (imm s q)\<rparr>"

lemma UpdateCross_ok [simp]:
  "tq_work_queues (task_queues s q) \<Longrightarrow> UpdateCrossThreadQueueStateLocked q s = Some (upd q (mirrored s q) s)"
  by (simp add: UpdateCrossThreadQueueStateLocked_def upd_def mirrored_def)

lemma mirrored_simps [simp]:
  "tq_heap_handle (mirrored s q i) = tq_heap_handle i" "domain_ok (mirrored s q i) = domain_ok i"
  "orders_ok n (mirrored s q i) ts us = orders_ok n i ts us" "fence_ok n (mirrored s q i) f g = fence_ok n i f g"
  "tq_delayed_incoming_queue (mirrored s q i) = tq_delayed_incoming_queue i" "wake_ok (mirrored s q i) r = wake_ok i r"
  "tq_is_enabled (mirrored s q i) = tq_is_enabled i" "tq_immediate_incoming_queue (mirrored s q i) = tq_immediate_incoming_queue i"
  "tq_reload_flag (mirrored s q i) = tq_reload_flag i" "tq_current_fence (mirrored s q i) = tq_current_fence i"
  "tq_observer (mirrored s q i) = tq_observer i" "tq_work_queues (mirrored s q i) = tq_work_queues i"
  "tq_time_domain (mirrored s q i) = tq_time_domain i"
  by (simp_all add: mirrored_def wake_ok_def)

lemma liveD:
  assumes "live n i a b r"
  shows "domain_ok i" "orders_ok n i (wq_tasks a) (wq_tasks b)" "mirror_ok i (wq_tasks a)" "fence_ok n i (wq_fence a) (wq_fence b)"
    "assigned_ok i (wq_sets a) (wq_sets b) (wq_set_index a) (wq_set_index b)"
    "delayed_ok (tq_delayed_incoming_queue i)" "wake_ok i r" "tq_work_queues i"
  using assms by (simp_all add: live_def domain_ok_def)

lemma liveI:
  assumes "domain_ok i" "orders_ok n i (wq_tasks a) (wq_tasks b)" "mirror_ok i (wq_tasks a)" "fence_ok n i (wq_fence a) (wq_fence b)"
    "assigned_ok i (wq_sets a) (wq_sets b) (wq_set_index a) (wq_set_index b)" "delayed_ok (tq_delayed_incoming_queue i)" "wake_ok i r"
  shows "live n i a b r"
  using assms by (simp only: live_def)

lemma live_iff: "queue_inv n i a b r \<Longrightarrow> tq_work_queues i \<Longrightarrow> live n i a b r"
  by (auto simp: queue_inv_def gone_def)

section \<open>Steps on one queue\<close>

text \<open>
  The tasks of a queue: the immediate ones in the order of posting, the delayed ones that are ready, and
  those that are not.
\<close>

definition pending_immediate :: "scheduler \<Rightarrow> nat \<Rightarrow> closure task list" where
  "pending_immediate s q = wq_tasks (imm s q) @ tq_immediate_incoming_queue (task_queues s q)"

definition tasks_of :: "scheduler \<Rightarrow> nat \<Rightarrow> closure task list \<times> closure task list \<times> closure task list" where
  "tasks_of s q = (pending_immediate s q, wq_tasks (del s q), dq_tasks (tq_delayed_incoming_queue (task_queues s q)))"

lemma changed_queue:
  fixes s :: scheduler
  assumes "sets_only (set_queue (q, ty) x s) s'"
  shows "others q s s'" "task_queues s' = task_queues s" "order_counter s' = order_counter s" "is_cancelled s' = is_cancelled s"
    "wake_rep s' reg = wake_rep s reg" "same_queue x (queues s' (q, ty))"
    "ty' \<noteq> ty \<Longrightarrow> same_queue (queues s (q, ty')) (queues s' (q, ty'))" "time_domains s' = time_domains s"
proof -
  note so = sets_only_others [OF assms]
  show "others q s s'" using others_trans [OF others_simps(4) so(1)] .
  show "task_queues s' = task_queues s" "order_counter s' = order_counter s" "is_cancelled s' = is_cancelled s" "time_domains s' = time_domains s"
    using so(2,3,4,7) by simp_all
  show "wake_rep s' reg = wake_rep s reg" using so(9) by simp
  show "same_queue x (queues s' (q, ty))" using so(6) [of "(q, ty)"] by simp
  show "same_queue (queues s (q, ty')) (queues s' (q, ty'))" if "ty' \<noteq> ty" using so(6) [of "(q, ty')"] that by simp
qed

lemma GetNext_simps [simp]:
  "GetNextSequenceNumber s = (order_counter s, s\<lparr>order_counter := order_counter s + 1\<rparr>)"
  by (simp add: GetNextSequenceNumber_def)

lemma incoming_unblocked_ok: "0 \<notin> set (incoming_orders i) \<Longrightarrow> \<exists>b. incoming_unblocked f l (tq_immediate_incoming_queue i) = Some b"
  by (cases "tq_immediate_incoming_queue i") (auto simp: incoming_unblocked_def enqueue_order_def)

lemma note_unblocked_simps [simp]:
  "queues (note_unblocked q b s) = queues s" "work_ok (note_unblocked q b s) = work_ok s" "wake_rep (note_unblocked q b s) reg = wake_rep s reg"
  "others q s (note_unblocked q b s)" "order_counter s \<le> order_counter (note_unblocked q b s)"
  "heaps (note_unblocked q b s) = heaps s" "sel (note_unblocked q b s) = sel s"
  "tq_delayed_incoming_queue (task_queues (note_unblocked q b s) q) = tq_delayed_incoming_queue (task_queues s q)"
  "tq_immediate_incoming_queue (task_queues (note_unblocked q b s) q) = tq_immediate_incoming_queue (task_queues s q)"
  by (auto simp: note_unblocked_def Let_def wake_rep_upd others_def intro!: work_ok_cong)

lemma live_unblocked:
  assumes "live n (task_queues s q) a b r" "n \<le> m"
  shows "live m (task_queues (note_unblocked q u s) q) a b r"
  using live_mono [OF assms] by (simp add: note_unblocked_def Let_def live_def wake_ok_def)

text \<open>A fence: both work queues get it, and the rest of the queue follows.\<close>

lemma fence_step:
  fixes b :: bool
  assumes inv: "sched_inv s reg" and wq: "tq_work_queues (task_queues s q)" and n: "order_counter s \<le> n" "f < n"
    and 1: "sets_only (set_queue (q, kImmediate) ((imm s q)\<lparr>wq_fence := f\<rparr>)
      (upd q (\<lambda>i. i\<lparr>tq_current_fence := f, tq_delayed_fence := None\<rparr>) (s\<lparr>order_counter := n\<rparr>))) t"
    and 2: "sets_only (set_queue (q, kDelayed) ((del t q)\<lparr>wq_fence := f\<rparr>) t) u" and ok: "work_ok u"
  defines "v \<equiv> note_unblocked q b (upd q (mirrored u q) u)"
  shows "UpdateCrossThreadQueueStateLocked q u = Some (upd q (mirrored u q) u)" "sched_inv v reg" "step_on q s v" "tasks_of v q = tasks_of s q"
proof -
  let ?s = "upd q (\<lambda>i. i\<lparr>tq_current_fence := f, tq_delayed_fence := None\<rparr>) (s\<lparr>order_counter := n\<rparr>)"
  note c1 = changed_queue [OF 1] and c2 = changed_queue [OF 2]
  have i: "task_queues u q = (task_queues s q)\<lparr>tq_current_fence := f, tq_delayed_fence := None\<rparr>" using c1(2) c2(2) by simp
  show "UpdateCrossThreadQueueStateLocked q u = Some (upd q (mirrored u q) u)" using i wq by simp
  have a: "same_queue ((imm s q)\<lparr>wq_fence := f\<rparr>) (imm u q)" using c1(6) c2(7) [of kImmediate] same_trans(1) by blast
  have "same_queue (del s q) (del t q)" using c1(7) [of kDelayed] by simp
  then have b: "same_queue ((del s q)\<lparr>wq_fence := f\<rparr>) (del u q)"
    using c2(6) by (auto simp: same_queue_def)
  have l: "live (order_counter s) (task_queues s q) (imm s q) (del s q) (reg q)"
    using inv wq live_iff by (simp add: sched_inv_def)
  have rep: "wake_rep u reg" using inv c1(5) [of reg] c2(5) [of reg] by (simp add: sched_inv_def wake_rep_upd)
  have cnt: "order_counter u = n" using c1(3) c2(3) by simp
  have idx: "wq_set_index (imm s q) < kQueuePriorityCount" using inv work_okD(1) [of s "(q, kImmediate)"] by (simp add: sched_inv_def queue_ok_def)
  have "live n (mirrored u q (task_queues u q)) (imm u q) (del u q) (reg q)"
    (is "live n ?i ?a ?b ?r")
  proof (rule liveI)
    note q = same_queue_sub(1-4) [OF a] same_queue_sub(1-4) [OF b]
    show "domain_ok ?i" using liveD(1) [OF l] by (simp add: i)
    show "orders_ok n ?i (wq_tasks ?a) (wq_tasks ?b)" using orders_ok_mono [OF liveD(2) [OF l] n(1)] q by (simp add: i)
    show "mirror_ok ?i (wq_tasks ?a)" using liveD(3) [OF l] q(1) by (auto simp: i mirror_ok_def mirrored_def)
    show "fence_ok n ?i (wq_fence ?a) (wq_fence ?b)" using liveD(4) [OF l] q n(2) by (simp add: i fence_ok_def mirrored_def)
    show "assigned_ok ?i (wq_sets ?a) (wq_sets ?b) (wq_set_index ?a) (wq_set_index ?b)"
      using liveD(5) [OF l] q idx by (simp add: i assigned_ok_def mirrored_def)
    show "delayed_ok (tq_delayed_incoming_queue ?i)" using liveD(6) [OF l] by (simp add: i)
    show "wake_ok ?i ?r" using liveD(7) [OF l] by (simp add: i)
  qed
  then have "live (order_counter v) (task_queues v q) (imm v q) (del v q) (reg q)"
    unfolding v_def using live_unblocked [of n "upd q (mirrored u q) u" q] note_unblocked_simps(5) [of "upd q (mirrored u q) u" q b] cnt by simp
  moreover have oth: "others q s v"
  proof -
    have "others q s ?s" using n(1) others_trans [OF others_simps(3) others_simps(1)] by blast
    then show ?thesis
      unfolding v_def using c1(1) c2(1) others_trans others_simps(1) note_unblocked_simps(4) by metis
  qed
  moreover have "work_ok v" "wake_rep v reg" using ok rep by (simp_all add: v_def wake_rep_upd)
  ultimately show "sched_inv v reg" using sched_inv_step [OF inv] by (simp add: queue_inv_def)
  show "step_on q s v" using oth i by (intro step_onI) (simp_all add: v_def note_unblocked_def Let_def)
  show "tasks_of v q = tasks_of s q"
    using same_queue_sub(1) [OF a] same_queue_sub(1) [OF b] i by (simp add: tasks_of_def pending_immediate_def v_def)
qed

lemma sched_invD:
  assumes "sched_inv s reg"
  shows "work_ok s" "env_ok s" "wake_rep s reg" "inv_of s reg q"
    "tq_work_queues (task_queues s q) \<Longrightarrow> live (order_counter s) (task_queues s q) (imm s q) (del s q) (reg q)"
    "wq_set_index (queues s w) < kQueuePriorityCount" "queue_ok (queues s w)"
  using assms live_iff work_okD(1) [of s w] by (auto simp: sched_inv_def queue_ok_def)

lemma fence_fields: "i\<lparr>tq_delayed_fence := d, tq_current_fence := f\<rparr> = i\<lparr>tq_current_fence := f, tq_delayed_fence := d\<rparr>"
  for i :: task_queue_impl
  by (cases i) simp

lemma tq_InsertFence_eq:
  fixes position q s
  defines "f \<equiv> (if position = kNow then order_counter s else blocking_fence)"
    and "n \<equiv> (if position = kNow then order_counter s + 1 else order_counter s)"
  shows "tq_InsertFence q position s =
     do { work_queues_of q s;
          (b1, s') \<leftarrow> wq_InsertFence (q, kImmediate) f (upd q (\<lambda>i. i\<lparr>tq_current_fence := f, tq_delayed_fence := None\<rparr>) (s\<lparr>order_counter := n\<rparr>));
          (b2, s') \<leftarrow> wq_InsertFence (q, kDelayed) f s';
          front_task_unblocked \<leftarrow>
            (if \<not> (b1 \<or> b2) \<and> tq_current_fence (task_queues s q) \<noteq> 0 \<and> tq_current_fence (task_queues s q) < f
             then incoming_unblocked (tq_current_fence (task_queues s q)) (Some f) (tq_immediate_incoming_queue (task_queues s' q))
             else Some (b1 \<or> b2));
          s' \<leftarrow> UpdateCrossThreadQueueStateLocked q s';
          Some (note_unblocked q front_task_unblocked s') }"
proof (cases "position = kNow")
  case True
  then show ?thesis unfolding f_def n_def tq_InsertFence_def Let_def by (simp add: upd_def fence_fields cong: if_cong)
next
  case False
  then show ?thesis unfolding f_def n_def tq_InsertFence_def Let_def by (simp add: upd_def fence_fields cong: if_cong)
qed

lemma tq_InsertFence_ok:
  assumes "sched_inv s reg" "tq_work_queues (task_queues s q)"
  shows "\<exists>s'. tq_InsertFence q position s = Some s' \<and> sched_inv s' reg \<and> step_on q s s' \<and> tasks_of s' q = tasks_of s q
    \<and> tq_current_fence (task_queues s' q) = (if position = kNow then order_counter s else blocking_fence)"
proof -
  note l = sched_invD(5) [OF assms]
  let ?n = "if position = kNow then order_counter s + 1 else order_counter s"
  let ?f = "if position = kNow then order_counter s else blocking_fence"
  let ?s = "upd q (\<lambda>i. i\<lparr>tq_current_fence := ?f, tq_delayed_fence := None\<rparr>) (s\<lparr>order_counter := ?n\<rparr>)"
  have two: "2 \<le> order_counter s" using sched_invD(2) [OF assms(1)] by (simp add: env_ok_def)
  have n: "order_counter s \<le> ?n" "?f < ?n" "?f \<noteq> 0" using two by (auto simp: blocking_fence_def)
  have old: "wq_fence (imm s q) \<le> ?f \<or> ?f = blocking_fence" "wq_fence (del s q) \<le> ?f \<or> ?f = blocking_fence"
    using liveD(4) [OF l] by (auto simp: fence_ok_def)
  have "work_ok ?s" using sched_invD(1) [OF assms(1)] by simp
  from wq_InsertFence_ok [OF this n(3), of "(q, kImmediate)"] old obtain b1 t where
    t: "wq_InsertFence (q, kImmediate) ?f ?s = Some (b1, t)" "work_ok t"
      "sets_only (set_queue (q, kImmediate) ((imm s q)\<lparr>wq_fence := ?f\<rparr>) ?s) t" by auto
  note c = changed_queue [OF t(3)]
  have "wq_fence (del t q) = wq_fence (del s q)" using same_queue_sub(4) [OF c(7) [of kDelayed]] by simp
  with wq_InsertFence_ok [OF t(2) n(3), of "(q, kDelayed)"] old obtain b2 u where
    u: "wq_InsertFence (q, kDelayed) ?f t = Some (b2, u)" "work_ok u"
      "sets_only (set_queue (q, kDelayed) ((del t q)\<lparr>wq_fence := ?f\<rparr>) t) u" by auto
  note c2 = changed_queue [OF u(3)]
  have iq: "task_queues u q = (task_queues s q)\<lparr>tq_current_fence := ?f, tq_delayed_fence := None\<rparr>" using c(2) c2(2) by simp
  let ?p = "tq_current_fence (task_queues s q)"
  obtain b3 where b3: "incoming_unblocked ?p (Some ?f) (tq_immediate_incoming_queue (task_queues u q)) = Some b3"
    using incoming_unblocked_ok [of "task_queues u q" ?p "Some ?f"] liveD(2) [OF l] iq by (auto simp: orders_ok_def)
  let ?b = "if \<not> (b1 \<or> b2) \<and> ?p \<noteq> 0 \<and> ?p < ?f then b3 else b1 \<or> b2"
  note st1 = fence_step(1) [OF assms n(1,2) t(3) u(3,2)] and st = fence_step(2-4) [OF assms n(1,2) t(3) u(3,2), of ?b]
  have "tq_InsertFence q position s = Some (note_unblocked q ?b (upd q (mirrored u q) u))"
    unfolding tq_InsertFence_eq t(1) using u(1) b3 st1 assms(2) by simp
  moreover have "tq_current_fence (task_queues (note_unblocked q ?b (upd q (mirrored u q) u)) q) = ?f"
    using iq by (simp add: note_unblocked_def Let_def)
  ultimately show ?thesis using st by blast
qed

lemma tq_RemoveFence_ok:
  assumes "sched_inv s reg" "tq_work_queues (task_queues s q)"
  shows "\<exists>s'. tq_RemoveFence q s = Some s' \<and> sched_inv s' reg \<and> step_on q s s' \<and> tasks_of s' q = tasks_of s q
    \<and> tq_current_fence (task_queues s' q) = 0"
proof -
  note l = sched_invD(5) [OF assms]
  let ?s = "upd q (\<lambda>i. i\<lparr>tq_current_fence := enqueue_order_none, tq_delayed_fence := None\<rparr>) (s\<lparr>order_counter := order_counter s\<rparr>)"
  have n: "enqueue_order_none < order_counter s" using sched_invD(2) [OF assms(1)] by (simp add: env_ok_def enqueue_order_none_def)
  have "work_ok ?s" using sched_invD(1) [OF assms(1)] by simp
  from wq_RemoveFence_ok [OF this, of "(q, kImmediate)"] obtain b1 t where
    t: "wq_RemoveFence (q, kImmediate) ?s = Some (b1, t)" "work_ok t"
      "sets_only (set_queue (q, kImmediate) ((imm s q)\<lparr>wq_fence := enqueue_order_none\<rparr>) ?s) t" by auto
  note c = changed_queue [OF t(3)]
  from wq_RemoveFence_ok [OF t(2), of "(q, kDelayed)"] obtain b2 u where
    u: "wq_RemoveFence (q, kDelayed) t = Some (b2, u)" "work_ok u"
      "sets_only (set_queue (q, kDelayed) ((del t q)\<lparr>wq_fence := enqueue_order_none\<rparr>) t) u" by auto
  note c2 = changed_queue [OF u(3)]
  have iq: "task_queues u q = (task_queues s q)\<lparr>tq_current_fence := enqueue_order_none, tq_delayed_fence := None\<rparr>" using c(2) c2(2) by simp
  let ?p = "tq_current_fence (task_queues s q)"
  obtain b3 where b3: "incoming_unblocked ?p None (tq_immediate_incoming_queue (task_queues u q)) = Some b3"
    using incoming_unblocked_ok [of "task_queues u q" ?p None] liveD(2) [OF l] iq by (auto simp: orders_ok_def)
  let ?b = "if \<not> (b1 \<or> b2) \<and> ?p \<noteq> 0 then b3 else b1 \<or> b2"
  note st1 = fence_step(1) [OF assms order_refl n t(3) u(3,2)] and st = fence_step(2-4) [OF assms order_refl n t(3) u(3,2), of ?b]
  have "tq_RemoveFence q s = Some (note_unblocked q ?b (upd q (mirrored u q) u))"
    using t(1) u(1) b3 st1 assms(2) unfolding tq_RemoveFence_def by (auto simp: Let_def split: if_splits)
  moreover have "tq_current_fence (task_queues (note_unblocked q ?b (upd q (mirrored u q) u)) q) = 0"
    using iq by (simp add: note_unblocked_def Let_def enqueue_order_none_def)
  ultimately show ?thesis using st by blast
qed

text \<open>A step that changes the fields of the queue, one of its work queues and the counter.\<close>

lemma queue_step:
  assumes inv: "sched_inv s reg" and F: "\<And>i. tq_heap_handle (F i) = tq_heap_handle i" and n: "order_counter s \<le> n"
    and so: "sets_only (set_queue (q, ty) x (upd q F (s\<lparr>order_counter := n\<rparr>))) s'" and ok: "work_ok s'"
    and lv: "live n (F (task_queues s q)) (if ty = kImmediate then x else imm s q) (if ty = kDelayed then x else del s q) (reg q)"
  shows "sched_inv s' reg" "others q s s'" "task_queues s' q = F (task_queues s q)" "same_queue x (queues s' (q, ty))"
    "ty' \<noteq> ty \<Longrightarrow> same_queue (queues s (q, ty')) (queues s' (q, ty'))" "order_counter s' = n" "time_domains s' = time_domains s"
proof -
  let ?s = "upd q F (s\<lparr>order_counter := n\<rparr>)"
  note c = changed_queue [OF so]
  have base: "others q s ?s" using others_trans [OF others_simps(3) [OF n] others_simps(1)] .
  show oth: "others q s s'" using others_trans [OF base c(1)] .
  show iq: "task_queues s' q = F (task_queues s q)" and cnt: "order_counter s' = n" using c(2,3) by simp_all
  show x: "same_queue x (queues s' (q, ty))" using c(6) .
  show y: "same_queue (queues s (q, ty')) (queues s' (q, ty'))" if "ty' \<noteq> ty" for ty' using c(7) [OF that] by simp
  show "time_domains s' = time_domains s" using c(8) by simp
  have rep: "wake_rep s' reg" using sched_invD(3) [OF inv] c(5) [of reg] F by (simp add: wake_rep_upd)
  have "same_queue (if ty = kImmediate then x else imm s q) (imm s' q)" "same_queue (if ty = kDelayed then x else del s q) (del s' q)"
    using x y [of kImmediate] y [of kDelayed] by (cases ty; simp)+
  from live_same(1) [OF same_refl(2) this] have "live n (F (task_queues s q)) (imm s' q) (del s' q) (reg q)" using lv by simp
  then show "sched_inv s' reg" using sched_inv_step [OF inv oth ok rep] iq cnt by (simp add: queue_inv_def)
qed

section \<open>Reloading\<close>

lemma upd_set_queue: "upd q F (set_queue w x s) = set_queue w x (upd q F s)"
  by (simp add: upd_def set_queue_def)

lemma upd_upd: "upd q F (upd q G s) = upd q (\<lambda>i. F (G i)) s"
  by (simp add: upd_def)

lemma set_queue_twice [simp]: "set_queue w x (set_queue w y s) = set_queue w x s"
  by (simp add: set_queue_def)

text \<open>The fields and the tasks after the immediate work queue is left with \<open>ts\<close> and reloaded if that is empty.\<close>

definition reloaded_tasks :: "task_queue_impl \<Rightarrow> closure task list \<Rightarrow> closure task list" where
  "reloaded_tasks i ts = (if ts = [] then tq_immediate_incoming_queue i else ts)"

definition reloaded :: "nat \<Rightarrow> closure task list \<Rightarrow> task_queue_impl \<Rightarrow> task_queue_impl" where
  "reloaded idx ts i =
     (if ts = []
      then i\<lparr>tq_immediate_incoming_queue := [], tq_immediate_work_queue_empty := (tq_immediate_incoming_queue i = []),
             tq_should_schedule_work := (if tq_observer i then tq_is_enabled i else tq_is_enabled i \<and> tq_current_fence i = 0),
             tq_queue_set_index := idx\<rparr>
      else i)"

lemma reloaded_simps [simp]:
  "tq_heap_handle (reloaded idx ts i) = tq_heap_handle i"
  "reloaded_tasks i ts @ tq_immediate_incoming_queue (reloaded idx ts i) = ts @ tq_immediate_incoming_queue i"
  "tq_delayed_incoming_queue (reloaded idx ts i) = tq_delayed_incoming_queue i" "tq_observer (reloaded idx ts i) = tq_observer i"
  "tq_is_enabled (reloaded idx ts i) = tq_is_enabled i" "tq_work_queues (reloaded idx ts i) = tq_work_queues i"
  "tq_time_domain (reloaded idx ts i) = tq_time_domain i"
  by (simp_all add: reloaded_def reloaded_tasks_def)

lemma reloaded_keeps_flag: "tq_reload_flag (reloaded idx ts i) = tq_reload_flag i"
  by (simp add: reloaded_def)

lemma reloaded_gate [simp]: "same_gate i (reloaded idx ts i)"
  by (simp add: reloaded_def same_gate_def)

lemma reloaded_flag: "reloaded idx ts (i\<lparr>tq_reload_flag := g\<rparr>) = (reloaded idx ts i)\<lparr>tq_reload_flag := g\<rparr>"
  by (cases i) (simp add: reloaded_def)

lemma impl_Take_ok:
  assumes "tq_delayed_fence (task_queues s q) = None" "tq_work_queues (task_queues s q)" "wq_tasks (imm s q) = []"
  shows "impl_TakeImmediateIncomingQueueTasks q s = Some (set_queue (q, kImmediate)
    ((imm s q)\<lparr>wq_tasks := reloaded_tasks (task_queues s q) []\<rparr>) (upd q (reloaded (wq_set_index (imm s q)) []) s))"
  using assms
  by (simp add: impl_TakeImmediateIncomingQueueTasks_def upd_set_queue upd_upd reloaded_tasks_def)
    (simp add: set_queue_def upd_def reloaded_def mirrored_def Let_def)

text \<open>Taking away tasks from the front keeps the invariant of the queue.\<close>

lemma live_shorter:
  assumes "live n i a b r" "suffix ts (wq_tasks a)" "wq_tasks a \<noteq> [] \<or> ts = []" "idx < kQueuePriorityCount"
    "wq_tasks a = [] \<longrightarrow> \<not> tq_reload_flag i \<or> g = False" "wq_tasks a \<noteq> [] \<longrightarrow> g = tq_reload_flag i"
  shows "live n ((reloaded idx ts i)\<lparr>tq_reload_flag := g\<rparr>) (a\<lparr>wq_tasks := reloaded_tasks i ts\<rparr>) b r"
    "queue_ok a \<Longrightarrow> queue_ok (a\<lparr>wq_tasks := reloaded_tasks i ts\<rparr>)"
proof -
  note l = liveD [OF assms(1)]
  obtain zs where zs: "wq_tasks a = zs @ ts" using assms(2) by (auto simp: suffix_def)
  have o: "orders_ok n (reloaded idx ts i) (reloaded_tasks i ts) (wq_tasks b)"
    using l(2) by (auto simp: orders_ok_def reloaded_def reloaded_tasks_def zs sorted_append)
  have "mirror_ok ((reloaded idx ts i)\<lparr>tq_reload_flag := g\<rparr>) (reloaded_tasks i ts)"
  proof (cases "ts = []")
    case True
    then show ?thesis using l(3) assms(5,6) by (auto simp: mirror_ok_def reloaded_def reloaded_tasks_def)
  next
    case False
    then show ?thesis using l(3) assms(3,6) by (auto simp: mirror_ok_def reloaded_def reloaded_tasks_def)
  qed
  then show "live n ((reloaded idx ts i)\<lparr>tq_reload_flag := g\<rparr>) (a\<lparr>wq_tasks := reloaded_tasks i ts\<rparr>) b r"
    using l o assms(4) by (simp add: live_def reloaded_def wake_ok_def assigned_ok_def)
  show "queue_ok (a\<lparr>wq_tasks := reloaded_tasks i ts\<rparr>)" if "queue_ok a"
    using that l(2) by (auto simp: queue_ok_def reloaded_tasks_def orders_ok_def zs sorted_append)
qed

lemma reload_if_empty_ok:
  fixes ts :: "closure task list"
  assumes "live n (task_queues s q) a b r" "w = (q, ty)"
  defines "s' \<equiv> set_queue w ((queues s w)\<lparr>wq_tasks := ts\<rparr>) s"
  shows "reload_if_empty w s' = Some (if ty = kImmediate
    then set_queue w ((queues s w)\<lparr>wq_tasks := reloaded_tasks (task_queues s q) ts\<rparr>) (upd q (reloaded (wq_set_index (queues s w)) ts) s)
    else s')"
proof (cases "ty = kImmediate \<and> ts = []")
  case True
  have "tq_delayed_fence (task_queues s' q) = None" "tq_work_queues (task_queues s' q)" "wq_tasks (imm s' q) = []"
    using liveD(4,8) [OF assms(1)] True assms(2) by (auto simp: s'_def fence_ok_def)
  from impl_Take_ok [OF this] True assms(2) show ?thesis
    by (simp add: reload_if_empty_def s'_def upd_set_queue) 
next
  case False
  then show ?thesis
    using assms(2) upd_idem [of "\<lambda>i. i" s q] by (auto simp: reload_if_empty_def s'_def reloaded_def reloaded_tasks_def upd_def)
qed

lemma wq_sets_live:
  assumes "sched_inv s reg" "wq_sets (queues s (q, ty)) \<noteq> None"
  shows "live (order_counter s) (task_queues s q) (imm s q) (del s q) (reg q)"
  using assms sched_invD(4) [OF assms(1), of q] by (cases ty) (auto simp: queue_inv_def gone_def)

text \<open>Tasks leave the front of a work queue that the sets offer, and the sets are told.\<close>

lemma take_step:
  assumes inv: "sched_inv s reg" and rd: "ready (queues s w) = Some (sid, p, k)" and w: "w = (q, ty)"
    and ts: "suffix ts (wq_tasks (queues s w))"
  shows "\<exists>t s'. reload_if_empty w (set_queue w ((queues s w)\<lparr>wq_tasks := ts\<rparr>) s) = Some t
    \<and> wq_heap_handle (queues t w) = wq_heap_handle (queues s w) \<and> OnQueuesFrontTaskChanged sid w t = Some s' \<and> sched_inv s' reg \<and> calm_on q s s'
    \<and> tasks_of s' q = (if ty = kImmediate then ts @ tq_immediate_incoming_queue (task_queues s q) else pending_immediate s q,
        if ty = kImmediate then wq_tasks (del s q) else ts, dq_tasks (tq_delayed_incoming_queue (task_queues s q)))
    \<and> told (sel s) (sel s')"
proof -
  have l: "live (order_counter s) (task_queues s q) (imm s q) (del s q) (reg q)" using wq_sets_live [OF inv, of q ty] readyD(1) [OF rd] w by simp
  have ok: "work_ok s" using sched_invD(1) [OF inv] .
  have idx: "wq_set_index (queues s w) < kQueuePriorityCount" and qok: "queue_ok (queues s w)" using sched_invD(6,7) [OF inv] by simp_all
  show ?thesis
  proof (cases ty)
    case kImmediate
    let ?F = "reloaded (wq_set_index (queues s w)) ts" and ?x = "(queues s w)\<lparr>wq_tasks := reloaded_tasks (task_queues s q) ts\<rparr>"
    have ne: "wq_tasks (imm s q) \<noteq> []" using readyD(4) [OF rd] w kImmediate by simp
    have fl: "(?F (task_queues s q))\<lparr>tq_reload_flag := tq_reload_flag (task_queues s q)\<rparr> = ?F (task_queues s q)"
      by (simp add: reloaded_def)
    have lv: "live (order_counter s) (?F (task_queues s q)) ?x (del s q) (reg q)" and q: "queue_ok ?x"
      using live_shorter [OF l, of ts "wq_set_index (queues s w)" "tq_reload_flag (task_queues s q)"] ts ne idx qok w kImmediate fl by auto
    have "work_ok (upd q ?F s)" using ok by simp
    from work_ok_front_changed [OF this q, of w sid k] rd readyD(1,2) [OF rd] obtain s' where
      s': "OnQueuesFrontTaskChanged sid w (set_queue w ?x (upd q ?F s)) = Some s'" "work_ok s'" "sets_only (set_queue w ?x (upd q ?F s)) s'" by auto
    have so: "sets_only (set_queue (q, kImmediate) ?x (upd q ?F (s\<lparr>order_counter := order_counter s\<rparr>))) s'" using s'(3) w kImmediate by simp
    have lv': "live (order_counter s) (?F (task_queues s q)) (if kImmediate = kImmediate then ?x else imm s q)
        (if kImmediate = kDelayed then ?x else del s q) (reg q)" using lv by simp
    note st = queue_step [OF inv reloaded_simps(1) order_refl so s'(2) lv']
    show ?thesis
      using reload_if_empty_ok [OF l w, of ts] kImmediate s'(1) st(1-3) same_queue_sub(1,3) [OF st(4)] same_queue_sub(1) [OF st(5) [of kDelayed]]
        OnFrontChanged_told [OF s'(1)]
      by (auto simp: tasks_of_def pending_immediate_def w reloaded_keeps_flag intro!: calm_onI)
  next
    case kDelayed
    let ?x = "(queues s w)\<lparr>wq_tasks := ts\<rparr>"
    obtain zs where zs: "wq_tasks (del s q) = zs @ ts" using ts w kDelayed by (auto simp: suffix_def)
    have q: "queue_ok ?x" using qok zs w kDelayed by (simp add: queue_ok_def sorted_append)
    have "orders_ok (order_counter s) (task_queues s q) (wq_tasks (imm s q)) ts"
      using liveD(2) [OF l] zs by (auto simp: orders_ok_def)
    then have lv: "live (order_counter s) (task_queues s q) (imm s q) ?x (reg q)" using liveD [OF l] w kDelayed by (simp add: live_def)
    from work_ok_front_changed [OF ok q, of w sid k] rd readyD(1,2) [OF rd] obtain s' where
      s': "OnQueuesFrontTaskChanged sid w (set_queue w ?x s) = Some s'" "work_ok s'" "sets_only (set_queue w ?x s) s'" by auto
    have so: "sets_only (set_queue (q, kDelayed) ?x (upd q (\<lambda>i. i) (s\<lparr>order_counter := order_counter s\<rparr>))) s'"
      using s'(3) w kDelayed by (simp add: upd_idem)
    have lv': "live (order_counter s) (task_queues s q) (if kDelayed = kImmediate then ?x else imm s q)
        (if kDelayed = kDelayed then ?x else del s q) (reg q)" using lv by simp
    note st = queue_step [OF inv _ order_refl so s'(2) lv']
    show ?thesis
      using reload_if_empty_ok [OF l w, of ts] kDelayed s'(1) st(1-3) same_queue_sub(1) [OF st(4)] same_queue_sub(1,3) [OF st(5) [of kImmediate]]
        OnFrontChanged_told [OF s'(1)]
      by (auto simp: tasks_of_def pending_immediate_def w reloaded_keeps_flag intro!: calm_onI)
  qed
qed

text \<open>The tasks of queue \<open>q\<close> after its work queue of type \<open>ty\<close> keeps the tasks \<open>ts\<close>.\<close>

definition tasks_left :: "scheduler \<Rightarrow> nat \<Rightarrow> queue_type \<Rightarrow> closure task list \<Rightarrow> closure task list \<times> closure task list \<times> closure task list" where
  "tasks_left s q ty ts =
     (if ty = kImmediate then ts @ tq_immediate_incoming_queue (task_queues s q) else pending_immediate s q,
      if ty = kImmediate then wq_tasks (del s q) else ts, dq_tasks (tq_delayed_incoming_queue (task_queues s q)))"

lemma TakeTaskFromWorkQueue_ok:
  assumes "sched_inv s reg" "ready (queues s (q, ty)) = Some (sid, p, k)"
  shows "\<exists>s'. TakeTaskFromWorkQueue (q, ty) s = Some (hd (wq_tasks (queues s (q, ty))), s') \<and> sched_inv s' reg \<and> calm_on q s s'
    \<and> tasks_of s' q = tasks_left s q ty (tl (wq_tasks (queues s (q, ty)))) \<and> told (sel s) (sel s')"
proof -
  have "suffix (tl (wq_tasks (queues s (q, ty)))) (wq_tasks (queues s (q, ty)))" by (simp add: suffix_tl)
  from take_step [OF assms(1,2) refl this] readyD(1,4) [OF assms(2)] show ?thesis
    by (auto simp: TakeTaskFromWorkQueue_def tasks_left_def)
qed

text \<open>A work queue that is blocked stays blocked when tasks leave its front.\<close>

lemma blocked_shorter:
  assumes "live n i a b r" "blocked a" "suffix ts (wq_tasks a)" "wq_tasks a \<noteq> []"
  shows "ready (a\<lparr>wq_tasks := reloaded_tasks i ts\<rparr>) = None"
proof (cases "reloaded_tasks i ts")
  case Nil
  then show ?thesis by (simp add: ready_None front_None)
next
  case (Cons t us)
  obtain zs where zs: "wq_tasks a = zs @ ts" using assms(3) by (auto simp: suffix_def)
  have "sorted (orders a @ incoming_orders i)" using liveD(2) [OF assms(1)] by (simp add: orders_ok_def)
  moreover have "t = hd (wq_tasks a) \<or> t \<in> set (tl (wq_tasks a) @ tq_immediate_incoming_queue i)"
    using Cons zs assms(4) by (cases zs) (auto simp: reloaded_tasks_def split: if_splits)
  ultimately have "hd (orders a) \<le> enqueue_order_set_to t" using assms(4) by (cases "wq_tasks a") auto
  then have "blocked (a\<lparr>wq_tasks := reloaded_tasks i ts\<rparr>)" using assms(2,4) Cons by (auto simp: blocked_def)
  then show ?thesis by (simp add: ready_None front_None)
qed

lemma silent_step:
  assumes inv: "sched_inv s reg" and rd: "ready (queues s w) = None" and w: "w = (q, ty)"
    and ts: "suffix ts (wq_tasks (queues s w))" and sid: "wq_sets (queues s w) = Some sid" and ne: "wq_tasks (queues s w) \<noteq> []"
  shows "\<exists>s'. reload_if_empty w (set_queue w ((queues s w)\<lparr>wq_tasks := ts\<rparr>) s) = Some s' \<and> wq_heap_handle (queues s' w) = None
    \<and> sched_inv s' reg \<and> calm_on q s s' \<and> tasks_of s' q = tasks_left s q ty ts \<and> sel s' = sel s"
proof -
  have l: "live (order_counter s) (task_queues s q) (imm s q) (del s q) (reg q)" using wq_sets_live [OF inv, of q ty] sid w by simp
  have ok: "work_ok s" using sched_invD(1) [OF inv] .
  have idx: "wq_set_index (queues s w) < kQueuePriorityCount" and qok: "queue_ok (queues s w)" using sched_invD(6,7) [OF inv] by simp_all
  have bl: "blocked (queues s w)" using rd sid ne by (auto simp: ready_def front_def split: if_splits)
  have hn: "wq_heap_handle (queues s w) = None" using work_okD(3) [OF ok, of w] rd by simp
  show ?thesis
  proof (cases ty)
    case kImmediate
    let ?F = "reloaded (wq_set_index (queues s w)) ts" and ?x = "(queues s w)\<lparr>wq_tasks := reloaded_tasks (task_queues s q) ts\<rparr>"
    have fl: "(?F (task_queues s q))\<lparr>tq_reload_flag := tq_reload_flag (task_queues s q)\<rparr> = ?F (task_queues s q)"
      by (simp add: reloaded_def)
    have lv: "live (order_counter s) (?F (task_queues s q)) ?x (del s q) (reg q)" and q: "queue_ok ?x"
      using live_shorter [OF l, of ts "wq_set_index (queues s w)" "tq_reload_flag (task_queues s q)"] ts ne idx qok w kImmediate fl by auto
    have r: "ready ?x = ready (queues s w)" using blocked_shorter [OF l, of ts] bl ts ne w kImmediate rd by simp
    let ?s = "set_queue w ?x (upd q ?F s)"
    have ok': "work_ok ?s" using work_ok_silent [of "upd q ?F s" ?x w] ok q r by simp
    have so: "sets_only (set_queue (q, kImmediate) ?x (upd q ?F (s\<lparr>order_counter := order_counter s\<rparr>))) ?s" using w kImmediate by simp
    have lv': "live (order_counter s) (?F (task_queues s q)) (if kImmediate = kImmediate then ?x else imm s q)
        (if kImmediate = kDelayed then ?x else del s q) (reg q)" using lv by simp
    note st = queue_step [OF inv reloaded_simps(1) order_refl so ok' lv']
    show ?thesis
      using reload_if_empty_ok [OF l w, of ts] kImmediate hn st(1-3)
      by (auto simp: tasks_of_def pending_immediate_def w tasks_left_def reloaded_keeps_flag intro!: calm_onI)
  next
    case kDelayed
    let ?x = "(queues s w)\<lparr>wq_tasks := ts\<rparr>" and ?s = "set_queue w ((queues s w)\<lparr>wq_tasks := ts\<rparr>) s"
    obtain zs where zs: "wq_tasks (queues s w) = zs @ ts" using ts by (auto simp: suffix_def)
    have q: "queue_ok ?x" using qok zs by (simp add: queue_ok_def sorted_append)
    have "orders_ok (order_counter s) (task_queues s q) (wq_tasks (imm s q)) ts"
      using liveD(2) [OF l] zs w kDelayed by (auto simp: orders_ok_def)
    then have lv: "live (order_counter s) (task_queues s q) (imm s q) ?x (reg q)" using liveD [OF l] w kDelayed by (simp add: live_def)
    have "blocked ?x \<or> ts = []"
    proof (cases ts)
      case (Cons t us)
      then have "hd (orders (queues s w)) \<le> enqueue_order_set_to t" using qok zs by (cases zs) (auto simp: queue_ok_def)
      then show ?thesis using bl ne Cons by (auto simp: blocked_def)
    qed simp
    then have r: "ready ?x = ready (queues s w)" using rd by (auto simp: ready_None front_None)
    have ok': "work_ok ?s" using work_ok_silent [of s ?x w] ok q r by simp
    have so: "sets_only (set_queue (q, kDelayed) ?x (upd q (\<lambda>i. i) (s\<lparr>order_counter := order_counter s\<rparr>))) ?s"
      using w kDelayed by (simp add: upd_idem)
    have lv': "live (order_counter s) (task_queues s q) (if kDelayed = kImmediate then ?x else imm s q)
        (if kDelayed = kDelayed then ?x else del s q) (reg q)" using lv by simp
    note st = queue_step [OF inv _ order_refl so ok' lv']
    show ?thesis
      using reload_if_empty_ok [OF l w, of ts] kDelayed hn st(1-3)
      by (auto simp: tasks_of_def pending_immediate_def w tasks_left_def reloaded_keeps_flag intro!: calm_onI)
  qed
qed

lemma RemoveAllCanceledTasksFromFront_ok:
  assumes "sched_inv s reg" "wq_sets (queues s (q, ty)) \<noteq> None"
  defines "ts \<equiv> dropWhile (dropped (is_cancelled s)) (wq_tasks (queues s (q, ty)))"
  shows "\<exists>s'. RemoveAllCanceledTasksFromFront (q, ty) s = Some (ts \<noteq> wq_tasks (queues s (q, ty)), s') \<and> sched_inv s' reg \<and> calm_on q s s'
    \<and> tasks_of s' q = tasks_left s q ty ts \<and> told (sel s) (sel s') \<and> (ts = wq_tasks (queues s (q, ty)) \<longrightarrow> s' = s)"
proof (cases "ts = wq_tasks (queues s (q, ty))")
  case True
  then show ?thesis
    using assms by (auto simp: RemoveAllCanceledTasksFromFront_def tasks_of_def tasks_left_def pending_immediate_def Let_def split: queue_type.splits)
      (metis queue_type.exhaust)+
next
  case False
  let ?w = "(q, ty)"
  have suf: "suffix ts (wq_tasks (queues s ?w))" by (simp add: ts_def suffix_dropWhile)
  with False have len: "length ts \<noteq> length (wq_tasks (queues s ?w))" by (auto simp: suffix_def)
  have ne: "wq_tasks (queues s ?w) \<noteq> []" using False by (auto simp: ts_def)
  obtain sid where sid: "wq_sets (queues s ?w) = Some sid" using assms(2) by auto
  have hn: "wq_heap_handle (queues s ?w) = None \<longleftrightarrow> ready (queues s ?w) = None" using work_okD(3) [OF sched_invD(1) [OF assms(1)]] .
  show ?thesis
  proof (cases "ready (queues s ?w)")
    case None
    from silent_step [OF assms(1) None refl suf sid ne] sid len False show ?thesis
      by (auto simp: RemoveAllCanceledTasksFromFront_def ts_def [symmetric] Let_def)
  next
    case (Some x)
    then obtain p k where "ready (queues s ?w) = Some (sid, p, k)" using sid readyD(1) by (cases x) fastforce
    from take_step [OF assms(1) this refl suf] sid len False hn this show ?thesis
      by (auto simp: RemoveAllCanceledTasksFromFront_def ts_def [symmetric] Let_def tasks_left_def)
  qed
qed

text \<open>A work queue that was not offered gets tasks, and the sets are told if it may run now.\<close>

lemma announce_step:
  fixes s :: scheduler
  assumes "work_ok s" "queue_ok x" "wq_heap_handle x = wq_heap_handle (queues s w)" "ready (queues s w) = None" "wq_tasks x \<noteq> []"
  shows "\<exists>s'. announce w (set_queue w x s) = Some s' \<and> work_ok s' \<and> sets_only (set_queue w x s) s' \<and> told (sel s) (sel s')"
proof (cases "ready x")
  case None
  then have "announce w (set_queue w x s) = Some (set_queue w x s)"
    using assms(2,5) by (auto simp: announce_def ready_def front_def split: option.splits if_splits)
  then show ?thesis using None work_ok_silent [OF assms(1,2,3)] assms(4) by simp
next
  case (Some r)
  then obtain sid p k where r: "ready x = Some (sid, p, k)" by (cases r) auto
  from work_ok_pushed [OF assms(1-3) readyD(1) [OF r] _ assms(4)] readyD(3) [OF r] obtain s' where
    s': "OnTaskPushedToEmptyQueue sid w (set_queue w x s) = Some s'" "work_ok s'" "sets_only (set_queue w x s) s'" by auto
  have "announce w (set_queue w x s) = Some s'" using s'(1) readyD(1,5) [OF r] assms(2) by (simp add: announce_def)
  then show ?thesis using s' OnTaskPushed_told [OF s'(1)] by auto
qed

lemma sched_inv_emit [simp]: "event_ok e \<Longrightarrow> sched_inv (emit e s) reg = sched_inv s reg"
  by (simp add: sched_inv_def env_ok_def)

lemma run_reload_callback_ok:
  assumes inv: "sched_inv s reg" and fl: "tq_reload_flag (task_queues s q)"
  shows "\<exists>s'. run_reload_callback q s = Some s' \<and> sched_inv s' reg \<and> step_on q s s' \<and> tasks_of s' q = tasks_of s q
    \<and> told (sel s) (sel s') \<and> \<not> tq_reload_flag (task_queues s' q) \<and> tq_immediate_incoming_queue (task_queues s' q) = []"
proof -
  let ?i = "task_queues s q" and ?w = "(q, kImmediate)"
  have l: "live (order_counter s) ?i (imm s q) (del s q) (reg q)" using sched_invD(4) [OF inv, of q] fl by (auto simp: queue_inv_def gone_def)
  have e: "wq_tasks (imm s q) = []" using liveD(3) [OF l] fl by (simp add: mirror_ok_def)
  have ok: "work_ok s" using sched_invD(1) [OF inv] .
  have idx: "wq_set_index (imm s q) < kQueuePriorityCount" and qok: "queue_ok (imm s q)" using sched_invD(6,7) [OF inv] by simp_all
  define F where "F i = (reloaded (wq_set_index (imm s q)) [] i)\<lparr>tq_reload_flag := False\<rparr>" for i
  let ?x = "(imm s q)\<lparr>wq_tasks := reloaded_tasks ?i []\<rparr>" and ?s0 = "upd q (\<lambda>i. i\<lparr>tq_reload_flag := False\<rparr>) s"
  have F: "tq_heap_handle (F i) = tq_heap_handle i" for i by (simp add: F_def)
  have lv: "live (order_counter s) (F ?i) ?x (del s q) (reg q)" and x: "queue_ok ?x"
    using live_shorter [OF l, of "[]" "wq_set_index (imm s q)" False] idx qok e by (simp_all add: F_def)
  have take: "impl_TakeImmediateIncomingQueueTasks q ?s0 = Some (set_queue ?w ?x (upd q F s))"
  proof -
    have "upd q (reloaded (wq_set_index (imm s q)) []) ?s0 = upd q F s"
      unfolding upd_upd by (simp add: upd_def F_def reloaded_flag)
    then show ?thesis
      using impl_Take_ok [of ?s0 q] liveD(4,8) [OF l] e by (simp add: fence_ok_def reloaded_tasks_def)
  qed
  have rd: "ready (imm s q) = None" using e by (simp add: ready_None front_None)
  have ok': "work_ok (upd q F s)" using ok by simp
  obtain t where t: "wq_TakeImmediateIncomingQueueTasks q ?s0 = Some t" "work_ok t" "sets_only (set_queue ?w ?x (upd q F s)) t" "told (sel s) (sel t)"
  proof (cases "reloaded_tasks ?i [] = []")
    case True
    have "work_ok (set_queue ?w ?x (upd q F s))" using work_ok_silent [OF ok' x] True e rd by (simp add: ready_None front_None)
    then show ?thesis using that take True e by (simp add: wq_TakeImmediateIncomingQueueTasks_def)
  next
    case False
    from announce_step [OF ok' x, of ?w] rd False obtain t where
      "announce ?w (set_queue ?w ?x (upd q F s)) = Some t" "work_ok t" "sets_only (set_queue ?w ?x (upd q F s)) t" "told (sel s) (sel t)" by auto
    then show ?thesis using that take False e by (simp add: wq_TakeImmediateIncomingQueueTasks_def announce_def)
  qed
  have so: "sets_only (set_queue (q, kImmediate) ?x (upd q F (s\<lparr>order_counter := order_counter s\<rparr>))) t" using t(3) by simp
  have lv': "live (order_counter s) (F ?i) (if kImmediate = kImmediate then ?x else imm s q)
      (if kImmediate = kDelayed then ?x else del s q) (reg q)" using lv by simp
  note st = queue_step [OF inv F order_refl so t(2) lv']
  let ?t = "if tq_observer (task_queues t q) \<and> tq_is_enabled (task_queues t q) then emit (OnQueueNextWakeUpChanged q 0) t else t"
  have run: "run_reload_callback q s = Some ?t"
    using t(1) liveD(8) [OF l] e by (simp add: run_reload_callback_def ReloadEmptyImmediateWorkQueue_def)
  have tasks: "tasks_of t q = tasks_of s q"
    using st(3) same_queue_sub(1) [OF st(4)] same_queue_sub(1) [OF st(5) [of kDelayed]] e
    by (simp add: tasks_of_def pending_immediate_def F_def reloaded_def reloaded_tasks_def)
  have fields: "\<not> tq_reload_flag (task_queues t q)" "tq_immediate_incoming_queue (task_queues t q) = []"
    using st(3) by (simp_all add: F_def reloaded_def)
  have owner: "tq_work_queues (task_queues t q) = tq_work_queues ?i" "tq_time_domain (task_queues t q) = tq_time_domain ?i"
    using st(3) by (simp_all add: F_def)
  show ?thesis
  proof (cases "tq_observer (task_queues t q) \<and> tq_is_enabled (task_queues t q)")
    case True
    have "sched_inv ?t reg" using st(1) by simp
    moreover have "others q s ?t" using others_trans [OF st(2) others_simps(2)] True by simp
    ultimately show ?thesis using run tasks fields owner t(4) True by (simp add: tasks_of_def pending_immediate_def step_onI)
  next
    case False
    with run have "run_reload_callback q s = Some t" by (simp only: if_not_P if_False)
    then show ?thesis using tasks fields owner t(4) st(1,2) by (simp add: step_onI)
  qed
qed

section \<open>Posting\<close>

lemma PostImmediateTaskImpl_ok:
  assumes inv: "sched_inv s reg" and wq: "tq_work_queues (task_queues s q)" and cb: "pt_callback task \<noteq> None"
  defines "run_time \<equiv> (if add_queue_time_to_tasks s then td_now (time_domains s (the (tq_time_domain (task_queues s q)))) else 0)"
  defines "t \<equiv> Task task run_time (order_counter s) (order_counter s) kLow"
  shows "\<exists>s'. PostImmediateTaskImpl q task s = Some s' \<and> sched_inv s' reg \<and> step_on q s s'
    \<and> tasks_of s' q = (pending_immediate s q @ [t], snd (tasks_of s q)) \<and> sel s' = sel s
    \<and> same_gate (task_queues s q) (task_queues s' q)
    \<and> event_log s' = event_log s @ (if pending_immediate s q = [] \<and> tq_should_schedule_work (task_queues s q) then [ScheduleWork] else [])"
proof -
  let ?i = "task_queues s q" and ?n = "order_counter s"
  have l: "live ?n ?i (imm s q) (del s q) (reg q)" using sched_invD(5) [OF inv wq] .
  obtain d where d: "tq_any_time_domain ?i = Some d" "tq_time_domain ?i = Some d" using liveD(1) [OF l] by (auto simp: domain_ok_def)
  let ?go = "tq_immediate_incoming_queue ?i = [] \<and> tq_immediate_work_queue_empty ?i"
  define F where "F i = (if ?go then i\<lparr>tq_immediate_incoming_queue := tq_immediate_incoming_queue i @ [t], tq_reload_flag := True\<rparr>
      else i\<lparr>tq_immediate_incoming_queue := tq_immediate_incoming_queue i @ [t]\<rparr>)" for i :: task_queue_impl
  let ?s = "upd q F (s\<lparr>order_counter := ?n + 1\<rparr>)"
  let ?s' = "if ?go \<and> tq_should_schedule_work ?i then emit ScheduleWork ?s else ?s"
  have run: "PostImmediateTaskImpl q task s = Some ?s'"
  proof -
    have t: "t = Task task (if tq_delayed_fence_allowed ?i \<or> add_queue_time_to_tasks s then td_now (time_domains s d) else 0) ?n ?n kLow"
      using liveD(4) [OF l] d by (simp add: t_def run_time_def fence_ok_def)
    let ?f = "upd q (\<lambda>i. i\<lparr>tq_reload_flag := True\<rparr>)"
    let ?s1 = "upd q (\<lambda>i. i\<lparr>tq_immediate_incoming_queue := tq_immediate_incoming_queue i @ [t]\<rparr>) (s\<lparr>order_counter := ?n + 1\<rparr>)"
    have "PostImmediateTaskImpl q task s =
        (if ?go then Some (if tq_should_schedule_work ?i then emit ScheduleWork (?f ?s1) else ?f ?s1) else Some ?s1)"
      unfolding t using cb d by (simp add: PostImmediateTaskImpl_def Let_def)
    moreover have "(if ?go then ?f ?s1 else ?s1) = ?s" by (simp add: upd_upd) (simp add: upd_def F_def)
    ultimately show ?thesis by (cases ?go) auto
  qed
  have ord: "enqueue_order_set_to t = ?n" by (simp add: t_def Task_def)
  have two: "2 \<le> ?n" using sched_invD(2) [OF inv] by (simp add: env_ok_def)
  have "live (?n + 1) (F ?i) (imm s q) (del s q) (reg q)"
  proof (rule liveI)
    show "orders_ok (?n + 1) (F ?i) (wq_tasks (imm s q)) (wq_tasks (del s q))"
      using liveD(2) [OF l] two ord by (auto simp: orders_ok_def F_def sorted_append sorted_wrt_append less_Suc_eq intro: less_imp_le)
    show "mirror_ok (F ?i) (wq_tasks (imm s q))" using liveD(3) [OF l] by (auto simp: mirror_ok_def F_def)
    show "fence_ok (?n + 1) (F ?i) (wq_fence (imm s q)) (wq_fence (del s q))" using liveD(4) [OF l] by (simp add: fence_ok_def F_def)
  qed (use liveD [OF l] in \<open>simp_all add: F_def\<close>)
  moreover have "wake_rep ?s reg" using sched_invD(3) [OF inv] by (simp add: wake_rep_upd F_def)
  moreover have oth: "others q s ?s" using others_trans [OF others_simps(3) others_simps(1)] by simp
  ultimately have "sched_inv ?s reg" using sched_inv_step [OF inv oth] sched_invD(1) [OF inv] by (simp add: queue_inv_def)
  then have "sched_inv ?s' reg" by simp
  moreover have "others q s ?s'" using oth others_trans [OF oth others_simps(2)] by simp
  then have "step_on q s ?s'" by (rule step_onI) (simp_all add: F_def)
  moreover have "tasks_of ?s' q = (pending_immediate s q @ [t], snd (tasks_of s q))"
    by (simp add: tasks_of_def pending_immediate_def F_def)
  moreover have "pending_immediate s q = [] \<longleftrightarrow> ?go" using liveD(3) [OF l] by (auto simp: pending_immediate_def mirror_ok_def)
  then have "event_log ?s' = event_log s @ (if pending_immediate s q = [] \<and> tq_should_schedule_work ?i then [ScheduleWork] else [])" by simp
  moreover have "same_gate ?i (task_queues ?s' q)" by (simp add: same_gate_def F_def)
  ultimately show ?thesis using run by (intro exI [of _ ?s']) auto
qed

end
