(* ===== verification/Task_Queue_Steps.thy ===== *)
theory Task_Queue_Steps
  imports Task_Queue_Invariant "HOL-Library.Multiset"
begin

text \<open>
  The remaining steps of the task queues keep the invariant: delayed tasks that are posted and that become
  ready, the configuration of a queue, its creation and its end.
\<close>

section \<open>The delayed incoming queue\<close>

lemma task_less_iff:
  assumes "seq_num_ok (sequence_num t)" "seq_num_ok (sequence_num u)"
  shows "task_less t u = Some (run_key u < run_key t)"
  using seq_num_diff [OF assms] by (auto simp: task_less_def run_key_def)

lemma orderableI: "\<forall>t \<in> set ts. seq_num_ok (sequence_num t) \<Longrightarrow> orderable ts"
  by (auto simp: orderable_def list_all_iff task_less_iff)

lemma set_priority_push [simp]: "set (priority_push t ts) = insert t (set ts)"
  by (induction ts) auto

lemma sorted_priority_push:
  assumes "sorted (map run_key ts)" "\<forall>u \<in> insert t (set ts). seq_num_ok (sequence_num u)"
  shows "sorted (map run_key (priority_push t ts))"
  using assms by (induction ts) (auto simp: task_less_iff not_less)

lemma count_priority_push: "length (filter P (priority_push t ts)) = length (filter P ts) + of_bool (P t)"
  by (induction ts) auto

lemma delayed_ok_push:
  assumes "delayed_ok dq" "callback t \<noteq> None" "enqueue_order_set_to t = 0" "seq_num_ok (sequence_num t)"
  shows "\<exists>n. dq_push t dq = Some (dq\<lparr>dq_high_res := n, dq_tasks := priority_push t (dq_tasks dq)\<rparr>)
    \<and> delayed_ok (dq\<lparr>dq_high_res := n, dq_tasks := priority_push t (dq_tasks dq)\<rparr>)"
  using assms orderableI [of "t # dq_tasks dq"] by (auto simp: delayed_ok_def dq_push_def sorted_priority_push count_priority_push)

lemma delayed_ok_pop:
  assumes "delayed_ok dq" "dq_tasks dq = t # ts"
  shows "\<exists>n. dq_pop dq = Some (dq\<lparr>dq_tasks := ts, dq_high_res := n\<rparr>) \<and> delayed_ok (dq\<lparr>dq_tasks := ts, dq_high_res := n\<rparr>)"
  using assms by (auto simp: delayed_ok_def dq_pop_def dq_top_def Let_def)

section \<open>Steps that end with the wake-up of the queue\<close>

text \<open>The invariant of a queue but for the wake-up that its time domain knows.\<close>

definition almost_live :: "nat \<Rightarrow> task_queue_impl \<Rightarrow> work_queue \<Rightarrow> work_queue \<Rightarrow> (nat \<times> scheduled_wake_up) option \<Rightarrow> bool" where
  "almost_live n i a b r \<longleftrightarrow>
     domain_ok i \<and> orders_ok n i (wq_tasks a) (wq_tasks b) \<and> mirror_ok i (wq_tasks a)
     \<and> fence_ok n i (wq_fence a) (wq_fence b) \<and> assigned_ok i (wq_sets a) (wq_sets b) (wq_set_index a) (wq_set_index b)
     \<and> delayed_ok (tq_delayed_incoming_queue i) \<and> linked i r"

lemma almost_liveI:
  assumes "domain_ok i" "orders_ok n i (wq_tasks a) (wq_tasks b)" "mirror_ok i (wq_tasks a)" "fence_ok n i (wq_fence a) (wq_fence b)"
    "assigned_ok i (wq_sets a) (wq_sets b) (wq_set_index a) (wq_set_index b)" "delayed_ok (tq_delayed_incoming_queue i)" "linked i r"
  shows "almost_live n i a b r"
  using assms by (simp only: almost_live_def)

lemma live_almost: "live n i a b r \<Longrightarrow> almost_live n i a b r"
  by (simp add: live_def almost_live_def wake_ok_def)

text \<open>What UpdateDelayedWakeUp changes of a queue.\<close>

definition rescheduled :: "task_queue_impl \<Rightarrow> task_queue_impl \<Rightarrow> bool" where
  "rescheduled i j \<longleftrightarrow> (\<exists>h. j = i\<lparr>tq_scheduled_wake_up := next_wake_up i, tq_heap_handle := h\<rparr>)"

lemma rescheduled_simps:
  assumes "rescheduled i j"
  shows "tq_immediate_incoming_queue j = tq_immediate_incoming_queue i" "tq_delayed_incoming_queue j = tq_delayed_incoming_queue i"
    "tq_is_enabled j = tq_is_enabled i" "tq_observer j = tq_observer i" "tq_work_queues j = tq_work_queues i"
    "tq_current_fence j = tq_current_fence i" "tq_time_domain j = tq_time_domain i" "tq_reload_flag j = tq_reload_flag i"
  using assms by (auto simp: rescheduled_def)

lemma wake_up_step:
  assumes inv: "sched_inv s reg" and oth: "step_on q s t" and ok: "work_ok t" and rep: "wake_rep t reg"
    and lv: "almost_live (order_counter t) (task_queues t q) (imm t q) (del t q) (reg q)"
  shows "\<exists>s' r. UpdateDelayedWakeUp q now t = Some s' \<and> sched_inv s' (reg(q := r)) \<and> step_on q s s' \<and> tasks_of s' q = tasks_of t q
    \<and> rescheduled (task_queues t q) (task_queues s' q) \<and> queues s' = queues t \<and> heaps s' = heaps t \<and> sel s' = sel t
    \<and> order_counter s' = order_counter t"
proof -
  let ?i = "task_queues t q"
  have dl: "domain_ok ?i" "linked ?i (reg q)" "delayed_ok (tq_delayed_incoming_queue ?i)" using lv by (simp_all add: almost_live_def)
  obtain s' r where s': "UpdateDelayedWakeUp q now t = Some s'" "wake_rep s' (reg(q := r))" "wake_ok (task_queues s' q) r"
    "wake_only (upd q (\<lambda>i. i\<lparr>tq_scheduled_wake_up := next_wake_up ?i\<rparr>) t) s'" using UpdateDelayedWakeUp_ok [OF rep dl] by metis
  note w = wake_only_others [OF s'(4)]
  obtain h where h: "task_queues s' q = ?i\<lparr>tq_scheduled_wake_up := next_wake_up ?i, tq_heap_handle := h\<rparr>"
    using w(6) [of q] by (auto simp: same_impl_def)
  have qs: "queues s' = queues t" "heaps s' = heaps t" "sel s' = sel t" "order_counter s' = order_counter t" using w(2-5) by simp_all
  have o: "others q s s'" using others_trans [OF step_onD [OF oth] others_trans [OF others_simps(1) w(1)]] .
  have so: "step_on q s s'" using o oth by (simp add: step_on_def h)
  have "live (order_counter s') (task_queues s' q) (imm s' q) (del s' q) r"
    using lv s'(3) by (simp add: almost_live_def live_def qs h)
  then have "sched_inv s' (reg(q := r))"
    using sched_inv_step [OF inv o _ s'(2)] ok w(8) by (simp add: queue_inv_def)
  then show ?thesis using s'(1) so h qs by (auto simp: tasks_of_def pending_immediate_def rescheduled_def)
qed

section \<open>Delayed tasks\<close>

lemma PushOntoDelayedIncomingQueueFromMainThread_ok:
  assumes inv: "sched_inv s reg" and wq: "tq_work_queues (task_queues s q)" and n: "order_counter s \<le> n"
    and t: "callback t \<noteq> None" "enqueue_order_set_to t = 0" "seq_num_ok (sequence_num t)"
  shows "\<exists>s' r. PushOntoDelayedIncomingQueueFromMainThread q t now (s\<lparr>order_counter := n\<rparr>) = Some s' \<and> sched_inv s' (reg(q := r)) \<and> step_on q s s'
    \<and> tasks_of s' q = (pending_immediate s q, wq_tasks (del s q), priority_push t (dq_tasks (tq_delayed_incoming_queue (task_queues s q))))
    \<and> sel s' = sel s"
proof -
  note l = sched_invD(5) [OF inv wq]
  let ?i = "task_queues s q"
  obtain m where m: "dq_push t (tq_delayed_incoming_queue ?i) = Some ((tq_delayed_incoming_queue ?i)\<lparr>dq_high_res := m,
      dq_tasks := priority_push t (dq_tasks (tq_delayed_incoming_queue ?i))\<rparr>)"
    "delayed_ok ((tq_delayed_incoming_queue ?i)\<lparr>dq_high_res := m, dq_tasks := priority_push t (dq_tasks (tq_delayed_incoming_queue ?i))\<rparr>)"
    using delayed_ok_push [OF liveD(6) [OF l] t] by blast
  let ?dq = "(tq_delayed_incoming_queue ?i)\<lparr>dq_high_res := m, dq_tasks := priority_push t (dq_tasks (tq_delayed_incoming_queue ?i))\<rparr>"
  let ?s = "upd q (\<lambda>i. i\<lparr>tq_delayed_incoming_queue := ?dq\<rparr>) (s\<lparr>order_counter := n\<rparr>)"
  have "almost_live n (?i\<lparr>tq_delayed_incoming_queue := ?dq\<rparr>) (imm s q) (del s q) (reg q)"
    using live_almost [OF live_mono [OF l n]] m(2) by (simp add: almost_live_def)
  moreover have "others q s ?s" using others_trans [OF others_simps(3) [OF n] others_simps(1)] .
  then have "step_on q s ?s" by (rule step_onI) simp_all
  moreover have "wake_rep ?s reg" using sched_invD(3) [OF inv] by (simp add: wake_rep_upd)
  ultimately obtain s' r where "UpdateDelayedWakeUp q now ?s = Some s'" "sched_inv s' (reg(q := r))" "step_on q s s'" "tasks_of s' q = tasks_of ?s q"
    "sel s' = sel s" using wake_up_step [OF inv, of q ?s now] sched_invD(1) [OF inv] by auto
  then show ?thesis
    using m(1) by (intro exI [of _ s'] exI [of _ r])
      (auto simp: PushOntoDelayedIncomingQueueFromMainThread_def tasks_of_def pending_immediate_def)
qed

lemma delay_ok:
  assumes "0 \<le> v" "v \<le> limit_max int64_t" "0 \<le> d" "d \<le> limit_max int64_t"
  shows "SaturatedAdd Clang v d = Some (min (v + d) (limit_max int64_t))"
proof -
  have lim: "limit_lowest int64_t = - 9223372036854775808" "limit_max int64_t = 9223372036854775807"
    by (simp_all add: limit_lowest_def limit_max_def)
  then have "in_range int64_t v" "in_range int64_t d" using assms by (auto simp: in_range_def)
  then show ?thesis using assms by (auto simp: SaturatedAdd_eq td_Max_def td_Min_def clamp_def lim)
qed

lemma sched_inv_counter:
  assumes "sched_inv s reg" "order_counter s \<le> n"
  shows "sched_inv (s\<lparr>order_counter := n\<rparr>) reg"
proof -
  have "queue_inv n (task_queues s q) (imm s q) (del s q) (reg q)" for q
    using queue_inv_same [OF sched_invD(4) [OF assms(1)] same_refl(2) same_refl(1) same_refl(1) assms(2)] .
  then show ?thesis using assms by (simp add: sched_inv_def env_ok_def)
qed

text \<open>The delay after the adjustment of PostTask.\<close>

definition adjusted_delay :: "nat \<Rightarrow> int \<Rightarrow> current_thread \<Rightarrow> scheduler \<Rightarrow> int" where
  "adjusted_delay q delay thread s =
     min (limit_max int64_t) (delay + (case thread of
       kNotMainThread \<Rightarrow> cross_thread_task_delay s ! tq_queue_set_index (task_queues s q)
     | kMainThread \<Rightarrow> same_thread_task_delay s ! wq_set_index (imm s q)))"

lemma MaybeAdjustTaskDelay_ok:
  assumes inv: "sched_inv s reg" and wq: "tq_work_queues (task_queues s q)" and d: "0 \<le> delay" "delay \<le> limit_max int64_t"
  shows "MaybeAdjustTaskDelay q delay thread s = Some (adjusted_delay q delay thread s)" "0 \<le> adjusted_delay q delay thread s"
    "adjusted_delay q delay thread s \<le> limit_max int64_t"
proof -
  have env: "length (cross_thread_task_delay s) = kQueuePriorityCount" "length (same_thread_task_delay s) = kQueuePriorityCount"
    "\<forall>x \<in> set (cross_thread_task_delay s) \<union> set (same_thread_task_delay s). 0 \<le> x \<and> x \<le> limit_max int64_t"
    using sched_invD(2) [OF inv] by (auto simp: env_ok_def)
  have idx: "tq_queue_set_index (task_queues s q) < kQueuePriorityCount" "wq_set_index (imm s q) < kQueuePriorityCount"
    using liveD(5) [OF sched_invD(5) [OF inv wq]] sched_invD(6) [OF inv] by (simp_all add: assigned_ok_def)
  let ?x = "cross_thread_task_delay s ! tq_queue_set_index (task_queues s q)" and ?y = "same_thread_task_delay s ! wq_set_index (imm s q)"
  have "?x \<in> set (cross_thread_task_delay s)" "?y \<in> set (same_thread_task_delay s)" using env idx by simp_all
  then have x: "0 \<le> ?x" "?x \<le> limit_max int64_t" and y: "0 \<le> ?y" "?y \<le> limit_max int64_t" using env(3) by blast+
  show "0 \<le> adjusted_delay q delay thread s" "adjusted_delay q delay thread s \<le> limit_max int64_t"
    using x y d by (auto simp: adjusted_delay_def split: current_thread.split)
  show "MaybeAdjustTaskDelay q delay thread s = Some (adjusted_delay q delay thread s)"
    using env idx wq delay_ok [OF d x] delay_ok [OF d y]
    by (cases thread) (simp_all add: MaybeAdjustTaskDelay_def adjusted_delay_def array_get_def min.commute)
qed

text \<open>A task with a delay takes a sequence number, which is compared with those of the other delayed tasks.\<close>

definition number_left :: "nat \<Rightarrow> nat posted_task \<Rightarrow> current_thread \<Rightarrow> scheduler \<Rightarrow> bool" where
  "number_left q task thread s \<longleftrightarrow> adjusted_delay q (pt_delay task) thread s = 0 \<or> int (order_counter s) < 2 ^ 31"

text \<open>The tasks of the queue after a task has been posted with delay \<open>delay\<close>.\<close>

definition queue_now :: "nat \<Rightarrow> scheduler \<Rightarrow> int" where
  "queue_now q s = td_now (time_domains s (the (tq_time_domain (task_queues s q))))"

definition enqueued :: "nat \<Rightarrow> closure posted_task \<Rightarrow> nat \<Rightarrow> scheduler \<Rightarrow> closure task" where
  "enqueued q task n s = Task task (if add_queue_time_to_tasks s then queue_now q s else 0) n n kLow"

definition deferred :: "nat \<Rightarrow> nat posted_task \<Rightarrow> int \<Rightarrow> scheduler \<Rightarrow> nat task" where
  "deferred q task delay s = Task task (min (queue_now q s + delay) (limit_max int64_t)) (order_counter s) 0 kLow"

definition tasks_posted :: "nat \<Rightarrow> nat posted_task \<Rightarrow> current_thread \<Rightarrow> int \<Rightarrow> scheduler
    \<Rightarrow> closure task list \<times> closure task list \<times> closure task list" where
  "tasks_posted q task thread delay s =
     (let imm_tasks = pending_immediate s q; dq = dq_tasks (tq_delayed_incoming_queue (task_queues s q)) in
      if delay = 0 then (imm_tasks @ [enqueued q (of_client task) (order_counter s) s], wq_tasks (del s q), dq)
      else case thread of
        kMainThread \<Rightarrow> (imm_tasks, wq_tasks (del s q), priority_push (client_task (deferred q task delay s)) dq)
      | kNotMainThread \<Rightarrow>
          (imm_tasks @ [enqueued q \<lparr>pt_callback = Some (ScheduleDelayedWorkTask (deferred q task delay s)), pt_delay = 0, pt_nestable = False\<rparr>
             (order_counter s + 1) s], wq_tasks (del s q), dq))"

lemma PostDelayedTaskImpl_ok:
  assumes inv: "sched_inv s reg" and wq: "tq_work_queues (task_queues s q)" and cb: "pt_callback task \<noteq> None"
    and d: "0 < pt_delay task" "pt_delay task \<le> limit_max int64_t" and num: "int (order_counter s) < 2 ^ 31"
  shows "\<exists>s' r. PostDelayedTaskImpl q task thread s = Some s' \<and> sched_inv s' (reg(q := r)) \<and> step_on q s s'
    \<and> tasks_of s' q = tasks_posted q task thread (pt_delay task) s \<and> sel s' = sel s"
proof -
  note l = sched_invD(5) [OF inv wq]
  obtain dm where dm: "tq_any_time_domain (task_queues s q) = Some dm" "tq_time_domain (task_queues s q) = Some dm"
    using liveD(1) [OF l] by (auto simp: domain_ok_def)
  have now: "0 \<le> td_now (time_domains s dm)" "td_now (time_domains s dm) \<le> limit_max int64_t"
    using sched_invD(2) [OF inv] by (simp_all add: env_ok_def)
  have plus: "time_plus Clang (td_now (time_domains s dm)) (pt_delay task) = Some (min (queue_now q s + pt_delay task) (limit_max int64_t))"
    using delay_ok [OF now less_imp_le [OF d(1)] d(2)] dm by (simp add: time_plus_def queue_now_def)
  let ?t = "deferred q task (pt_delay task) s" and ?n = "order_counter s + 1"
  show ?thesis
  proof (cases thread)
    case kMainThread
    have "callback (client_task ?t) \<noteq> None" "enqueue_order_set_to (client_task ?t) = 0" "seq_num_ok (sequence_num (client_task ?t))"
      using cb seq_num_of_order [OF num] by (simp_all add: client_task_def deferred_def Task_def)
    from PushOntoDelayedIncomingQueueFromMainThread_ok [OF inv wq _ this, of ?n "td_now (time_domains s dm)"] kMainThread show ?thesis
      using cb d(1) dm plus
      by (simp add: PostDelayedTaskImpl_def GetNextSequenceNumber_def tasks_posted_def deferred_def enqueue_order_none_def Let_def)
  next
    case kNotMainThread
    let ?p = "\<lparr>pt_callback = Some (ScheduleDelayedWorkTask ?t), pt_delay = 0, pt_nestable = False\<rparr>" and ?s = "s\<lparr>order_counter := ?n\<rparr>"
    have "sched_inv ?s reg" using sched_inv_counter [OF inv] by simp
    from PostImmediateTaskImpl_ok [OF this, of q ?p] wq obtain s' where
      s': "PostImmediateTaskImpl q ?p ?s = Some s'" "sched_inv s' reg" "step_on q ?s s'" "sel s' = sel s"
        "tasks_of s' q = (pending_immediate ?s q @ [enqueued q ?p ?n ?s], snd (tasks_of ?s q))"
      by (auto simp: enqueued_def queue_now_def)
    have "step_on q s ?s" by (rule step_onI) simp_all
    then have "step_on q s s'" using step_on_trans s'(3) by blast
    moreover have "PostDelayedTaskImpl q task thread s = Some s'"
      using cb d(1) dm plus s'(1) kNotMainThread
      by (simp add: PostDelayedTaskImpl_def GetNextSequenceNumber_def PushOntoDelayedIncomingQueue_def deferred_def enqueue_order_none_def Let_def)
    moreover have "tasks_of s' q = tasks_posted q task thread (pt_delay task) s"
      using s'(5) kNotMainThread d(1)
      by (simp add: tasks_posted_def tasks_of_def pending_immediate_def enqueued_def queue_now_def Let_def)
    ultimately show ?thesis using s'(2,4) by (intro exI [of _ s'] exI [of _ "reg q"]) simp
  qed
qed

lemma PostTask_ok:
  assumes inv: "sched_inv s reg" and wq: "tq_work_queues (task_queues s q)" and cb: "pt_callback task \<noteq> None"
    and d: "0 \<le> pt_delay task" "pt_delay task \<le> limit_max int64_t" and num: "number_left q task thread s"
  shows "\<exists>s' r. PostTask q task thread s = Some s' \<and> sched_inv s' (reg(q := r)) \<and> step_on q s s'
    \<and> tasks_of s' q = tasks_posted q task thread (adjusted_delay q (pt_delay task) thread s) s \<and> sel s' = sel s"
proof -
  let ?d = "adjusted_delay q (pt_delay task) thread s"
  let ?task = "task\<lparr>pt_delay := ?d\<rparr>"
  note a = MaybeAdjustTaskDelay_ok [OF inv wq d, of thread]
  show ?thesis
  proof (cases "?d = 0")
    case True
    have cb': "pt_callback (of_client ?task) \<noteq> None" using cb by (simp add: of_client_def)
    have t: "enqueued q (of_client ?task) n s = enqueued q (of_client task) n s" for n by (simp add: enqueued_def Task_def of_client_def)
    from PostImmediateTaskImpl_ok [OF inv wq cb'] obtain s' where
      s': "PostImmediateTaskImpl q (of_client ?task) s = Some s'" "sched_inv s' reg" "step_on q s s'" "sel s' = sel s"
        "tasks_of s' q = (pending_immediate s q @ [enqueued q (of_client ?task) (order_counter s) s], snd (tasks_of s q))"
      unfolding enqueued_def queue_now_def by metis
    have "PostTask q task thread s = Some s'" using s'(1) a(1) True by (simp add: PostTask_def td_is_zero_def)
    moreover have "tasks_of s' q = tasks_posted q task thread ?d s" using s'(5) True t by (simp add: tasks_posted_def tasks_of_def Let_def)
    ultimately show ?thesis using s'(2-4) by (intro exI [of _ s'] exI [of _ "reg q"]) simp
  next
    case False
    have "tasks_posted q ?task thread ?d s = tasks_posted q task thread ?d s"
      using False by (simp add: tasks_posted_def deferred_def Task_def Let_def split: current_thread.split)
    then show ?thesis
      using PostDelayedTaskImpl_ok [OF inv wq, of ?task thread] cb a False num by (auto simp: PostTask_def td_is_zero_def number_left_def)
  qed
qed

section \<open>Tasks that become ready\<close>

text \<open>
  What MoveReadyDelayedTasksToWorkQueue does to the list of delayed tasks: the tasks that are moved, and the
  tasks that stay.  Moved tasks get the next enqueue orders.
\<close>

fun move_ready :: "(nat \<Rightarrow> bool) \<Rightarrow> int \<Rightarrow> closure task list \<Rightarrow> closure task list \<times> closure task list" where
  "move_ready canc now [] = ([], [])"
| "move_ready canc now (t # ts) =
     (if dropped canc t then move_ready canc now ts
      else if now < delayed_run_time t then ([], t # ts)
      else let (moved, rest) = move_ready canc now ts in (t # moved, rest))"

primrec stamped :: "nat \<Rightarrow> closure task list \<Rightarrow> closure task list" where
  "stamped n [] = []"
| "stamped n (t # ts) = t\<lparr>enqueue_order_set_to := n\<rparr> # stamped (Suc n) ts"

lemma stamped_orders [simp]: "map enqueue_order_set_to (stamped n ts) = [n..<n + length ts]"
proof (induction ts arbitrary: n)
  case (Cons t ts)
  then show ?case using upt_conv_Cons [of n "n + Suc (length ts)"] by simp
qed simp

lemma stamped_in: "t \<in> set (stamped n ts) \<Longrightarrow> n \<le> enqueue_order_set_to t \<and> enqueue_order_set_to t < n + length ts"
  by (induction ts arbitrary: n) fastforce+

lemma stamped_increasing:
  assumes "\<forall>k \<in> set (orders a). k < n" "0 < n"
  shows "increasing_after a (stamped n ts)"
  using assms by (auto simp: increasing_after_def dest!: stamped_in simp flip: set_map)

lemma set_queue_counter [simp]: "(set_queue w x s)\<lparr>order_counter := n\<rparr> = set_queue w x (s\<lparr>order_counter := n\<rparr>)"
  "(upd q F s)\<lparr>order_counter := n\<rparr> = upd q F (s\<lparr>order_counter := n\<rparr>)"
  by (simp_all add: set_queue_def upd_def)

text \<open>The state after the loop of MoveReadyDelayedTasksToWorkQueue has left \<open>dq\<close> and moved \<open>ts\<close>.\<close>

definition moved_state :: "nat \<Rightarrow> delayed_incoming_queue \<Rightarrow> closure task list \<Rightarrow> scheduler \<Rightarrow> scheduler" where
  "moved_state q dq ts s =
     set_queue (q, kDelayed) ((del s q)\<lparr>wq_tasks := wq_tasks (del s q) @ stamped (order_counter s) ts\<rparr>)
       (upd q (\<lambda>i. i\<lparr>tq_delayed_incoming_queue := dq\<rparr>) (s\<lparr>order_counter := order_counter s + length ts\<rparr>))"

lemma moved_state_Nil: "moved_state q dq [] s = upd q (\<lambda>i. i\<lparr>tq_delayed_incoming_queue := dq\<rparr>) s"
  by (simp add: moved_state_def upd_def set_queue_def)

lemma moved_state_append: "moved_state q dq us (moved_state q dq' ts s) = moved_state q dq (ts @ us) s"
proof -
  have "stamped n (ts @ us) = stamped n ts @ stamped (n + length ts) us" for n by (induction ts arbitrary: n) simp_all
  then show ?thesis by (simp add: moved_state_def upd_def set_queue_def add.assoc)
qed

lemma move_ready_loop_ok:
  assumes "delayed_ok dq" "dq_tasks dq = ts" "length ts < fuel" "tq_delayed_incoming_queue (task_queues s q) = dq"
    "tq_delayed_fence (task_queues s q) = None" "tp_work_queue tp = Some (q, kDelayed)"
    "queue_ok (del s q)" "\<forall>k \<in> set (orders (del s q)). k < order_counter s" "0 < order_counter s"
  shows "\<exists>dq'. move_ready_loop fuel q now tp s = Some (moved_state q dq' (fst (move_ready (is_cancelled s) now ts)) s) \<and> delayed_ok dq'
    \<and> dq_tasks dq' = snd (move_ready (is_cancelled s) now ts)"
  using assms
proof (induction ts arbitrary: dq s fuel)
  case Nil
  then obtain f where "fuel = Suc f" by (cases fuel) auto
  moreover have "moved_state q dq [] s = s" using Nil by (simp add: moved_state_Nil upd_idem)
  ultimately show ?case using Nil by (intro exI [of _ dq]) (simp add: dq_top_def)
next
  case (Cons t ts)
  obtain f where f: "fuel = Suc f" "length ts < f" using Cons.prems(3) by (cases fuel) auto
  from delayed_ok_pop [OF Cons.prems(1,2)] obtain m where
    dq': "dq_pop dq = Some (dq\<lparr>dq_tasks := ts, dq_high_res := m\<rparr>)" "delayed_ok (dq\<lparr>dq_tasks := ts, dq_high_res := m\<rparr>)" by auto
  let ?dq = "dq\<lparr>dq_tasks := ts, dq_high_res := m\<rparr>" and ?n = "order_counter s"
  have top: "dq_top dq = Some t" using Cons.prems(2) by (simp add: dq_top_def)
  have t0: "enqueue_order_set_to t = 0" using Cons.prems(1,2) by (simp add: delayed_ok_def)
  consider "dropped (is_cancelled s) t" | "\<not> dropped (is_cancelled s) t" "now < delayed_run_time t"
    | "\<not> dropped (is_cancelled s) t" "\<not> now < delayed_run_time t" by blast
  then show ?case
  proof cases
    case 1
    let ?s = "moved_state q ?dq [] s"
    have "move_ready_loop fuel q now tp s = move_ready_loop f q now tp ?s" using f 1 top dq'(1) Cons.prems(4) by (simp add: moved_state_Nil)
    with Cons.IH [OF dq'(2) _ f(2), of ?s] Cons.prems 1 show ?thesis
      by (auto simp: moved_state_append) (simp_all add: moved_state_def)
  next
    case 2
    have "moved_state q dq [] s = s" using Cons.prems(4) by (simp add: moved_state_Nil upd_idem)
    then show ?thesis using 2 f top Cons.prems by (intro exI [of _ dq]) simp
  next
    case 3
    let ?t = "t\<lparr>enqueue_order_set_to := ?n\<rparr>" and ?s = "moved_state q ?dq [t] s"
    have "enqueue_order (last (wq_tasks (del s q))) = Some (last (orders (del s q))) \<and> last (orders (del s q)) < ?n" if ne: "wq_tasks (del s q) \<noteq> []"
      using Cons.prems(7,8) last_in_set [OF ne] ne
      by (auto simp: enqueue_order_def queue_ok_def last_map simp del: last_in_set)
    then have push: "TaskPusher_Push tp ?t (s\<lparr>order_counter := ?n + 1\<rparr>) =
        Some (set_queue (q, kDelayed) ((del s q)\<lparr>wq_tasks := wq_tasks (del s q) @ [?t]\<rparr>) (s\<lparr>order_counter := ?n + 1\<rparr>))"
      using Cons.prems(6,9) by (simp add: TaskPusher_Push_def enqueue_order_set_def enqueue_order_def Let_def)
    have step: "move_ready_loop fuel q now tp s = move_ready_loop f q now tp ?s"
      using f 3 top dq'(1) Cons.prems(4,5) t0 push
      by (simp add: ActivateDelayedFenceIfNeeded_def enqueue_order_set_def GetNextSequenceNumber_def set_enqueue_order_def Let_def
          moved_state_def upd_set_queue)
    have s: "tq_delayed_incoming_queue (task_queues ?s q) = ?dq" "tq_delayed_fence (task_queues ?s q) = None" "is_cancelled ?s = is_cancelled s"
      "queue_ok (del ?s q)" "\<forall>k \<in> set (orders (del ?s q)). k < order_counter ?s" "0 < order_counter ?s"
      using Cons.prems(5,7-9) by (auto simp: moved_state_def queue_ok_def sorted_append less_Suc_eq intro: less_imp_le)
    from Cons.IH [OF dq'(2) _ f(2) s(1,2) Cons.prems(6) s(4-6)] step s(3) 3 show ?thesis
      by (auto simp: moved_state_append Let_def split: prod.split)
  qed
qed

lemma TaskPusher_delete_ok:
  fixes s :: scheduler
  assumes ok: "work_ok s" and inc: "increasing_after (queues s w) ts"
  defines "x \<equiv> (queues s w)\<lparr>wq_tasks := wq_tasks (queues s w) @ ts\<rparr>"
  shows "\<exists>s'. TaskPusher_delete \<lparr>tp_work_queue = Some w, tp_was_empty = (wq_tasks (queues s w) = [])\<rparr> (set_queue w x s) = Some s'
    \<and> work_ok s' \<and> sets_only (set_queue w x s) s' \<and> told (sel s) (sel s')"
proof -
  have qok: "queue_ok (queues s w)" using work_okD(1) [OF ok] .
  have x: "queue_ok x" using queue_ok_add [OF qok inc] by (simp add: x_def add_tasks_def)
  show ?thesis
  proof (cases "wq_tasks (queues s w) = [] \<and> ts \<noteq> []")
    case True
    then have "ready (queues s w) = None" by (simp add: ready_None front_None)
    with announce_step [OF ok x, of w] True show ?thesis by (simp add: TaskPusher_delete_def announce_def x_def)
  next
    case False
    then have "ready x = ready (queues s w)"
      by (cases "wq_tasks (queues s w)") (auto simp: x_def ready_def front_def blocked_def split: option.split)
    then have "work_ok (set_queue w x s)" using work_ok_silent [OF ok x, of w] by (simp add: x_def)
    then show ?thesis using False by (auto simp: TaskPusher_delete_def x_def)
  qed
qed

lemma MoveReadyDelayedTasksToWorkQueue_ok:
  fixes now :: int
  assumes inv: "sched_inv s reg" and wq: "tq_work_queues (task_queues s q)" and dq: "delayed_ok dq"
  defines "moved \<equiv> fst (move_ready (is_cancelled s) now (dq_tasks dq))" and "rest \<equiv> snd (move_ready (is_cancelled s) now (dq_tasks dq))"
  shows "\<exists>s' r. MoveReadyDelayedTasksToWorkQueue q now (upd q (\<lambda>i. i\<lparr>tq_delayed_incoming_queue := dq\<rparr>) s) = Some s'
    \<and> sched_inv s' (reg(q := r)) \<and> calm_on q s s'
    \<and> tasks_of s' q = (pending_immediate s q, wq_tasks (del s q) @ stamped (order_counter s) moved, rest) \<and> told (sel s) (sel s')"
proof -
  let ?w = "(q, kDelayed)" and ?n = "order_counter s" and ?s0 = "upd q (\<lambda>i. i\<lparr>tq_delayed_incoming_queue := dq\<rparr>) s"
  let ?tp = "\<lparr>tp_work_queue = Some ?w, tp_was_empty = (wq_tasks (del s q) = [])\<rparr>"
  note l = sched_invD(5) [OF inv wq]
  have ok: "work_ok s" using sched_invD(1) [OF inv] .
  have n: "0 < ?n" using sched_invD(2) [OF inv] by (simp add: env_ok_def)
  have ord: "\<forall>k \<in> set (orders (del s q)). k < ?n" using liveD(2) [OF l] by (auto simp: orders_ok_def)
  from move_ready_loop_ok [OF dq refl, of "length (dq_tasks dq) + 1" ?s0 q ?tp now] liveD(4) [OF l] sched_invD(7) [OF inv] ord n
  obtain dq' where loop: "move_ready_loop (length (dq_tasks dq) + 1) q now ?tp ?s0 = Some (moved_state q dq' moved ?s0)"
    and dq': "delayed_ok dq'" "dq_tasks dq' = rest" by (auto simp: fence_ok_def moved_def rest_def)
  define x where "x = (del s q)\<lparr>wq_tasks := wq_tasks (del s q) @ stamped ?n moved\<rparr>"
  define t where "t = moved_state q dq' moved ?s0"
  have iq: "task_queues t q = (task_queues s q)\<lparr>tq_delayed_incoming_queue := dq'\<rparr>" by (simp add: t_def moved_state_def)
  have tq: "queues t = (queues s)(?w := x)" "heaps t = heaps s" "sel t = sel s" "order_counter t = ?n + length moved"
    by (simp_all add: t_def moved_state_def x_def)
  have inc: "increasing_after (del s q) (stamped ?n moved)" by (rule stamped_increasing [OF ord n])
  have lv: "almost_live (order_counter t) (task_queues t q) (imm t q) (del t q) (reg q)"
  proof (rule almost_liveI)
    show "orders_ok (order_counter t) (task_queues t q) (wq_tasks (imm t q)) (wq_tasks (del t q))"
      using orders_ok_mono [OF liveD(2) [OF l], of "?n + length moved"] by (auto simp: iq tq x_def orders_ok_def)
    show "fence_ok (order_counter t) (task_queues t q) (wq_fence (imm t q)) (wq_fence (del t q))"
      using liveD(4) [OF l] by (simp add: iq tq x_def fence_ok_def)
  qed (use liveD [OF l] dq' in \<open>simp_all add: iq tq x_def wake_ok_def\<close>)
  have rep: "wake_rep t reg" using sched_invD(3) [OF inv] by (simp add: t_def moved_state_def wake_rep_upd)
  have ot: "others q s t"
    using others_trans [OF others_simps(3) [of s "?n + length moved"] others_trans [OF others_simps(1) others_trans [OF others_simps(1) others_simps(4)]]]
    by (simp add: t_def moved_state_def)
  obtain u r where u: "UpdateDelayedWakeUp q now t = Some u" "wake_rep u (reg(q := r))" "wake_ok (task_queues u q) r"
    "wake_only (upd q (\<lambda>i. i\<lparr>tq_scheduled_wake_up := next_wake_up (task_queues t q)\<rparr>) t) u"
    using UpdateDelayedWakeUp_ok [OF rep, of q now] lv unfolding almost_live_def by metis
  note w = wake_only_others [OF u(4)]
  define v where "v = set_queue ?w (del s q) u"
  have v: "work_ok v" using ok work_ok_cong [of v s] w(2-4) tq by (simp add: v_def)
  have "increasing_after (queues v ?w) (stamped ?n moved)" using inc by (simp add: v_def)
  from TaskPusher_delete_ok [OF v this] obtain s' where
    s': "TaskPusher_delete ?tp (set_queue ?w x v) = Some s'" "work_ok s'" "sets_only (set_queue ?w x v) s'" "told (sel s) (sel s')"
    using w(4) tq(3) by (auto simp: v_def x_def)
  have uv: "set_queue ?w x v = u" using w(2) tq(1) by (simp add: v_def set_queue_def)
  note so = sets_only_others [OF s'(3) [unfolded uv]]
  have run: "MoveReadyDelayedTasksToWorkQueue q now ?s0 = Some s'"
    using loop u(1) s'(1) uv wq by (simp add: MoveReadyDelayedTasksToWorkQueue_def CreateTaskPusher_def t_def)
  have o: "others q s s'" using others_trans [OF ot others_trans [OF others_simps(1) others_trans [OF w(1) so(1)]]] .
  obtain h where h: "task_queues u q = (task_queues t q)\<lparr>tq_scheduled_wake_up := next_wake_up (task_queues t q), tq_heap_handle := h\<rparr>"
    using w(6) [of q] by (auto simp: same_impl_def)
  have cnt: "order_counter s' = order_counter t" using so(4) w(5) by simp
  have sq: "same_queue (imm t q) (imm s' q)" "same_queue (del t q) (del s' q)" using so(6) w(2) by simp_all
  have "live (order_counter t) (task_queues u q) (imm t q) (del t q) r" using lv u(3) by (simp add: almost_live_def live_def h)
  then have "live (order_counter s') (task_queues s' q) (imm s' q) (del s' q) r"
    using live_same(1) [OF same_refl(2) sq] so(2) cnt by simp
  then have "sched_inv s' (reg(q := r))" using sched_inv_step [OF inv o s'(2)] so(9) u(2) by (simp add: queue_inv_def)
  moreover have "tasks_of s' q = (pending_immediate s q, wq_tasks (del s q) @ stamped ?n moved, rest)"
    using same_queue_sub(1) [OF sq(1)] same_queue_sub(1) [OF sq(2)] dq'(2) so(2)
    by (simp add: tasks_of_def pending_immediate_def h iq tq x_def)
  moreover have "calm_on q s s'" using o so(2) same_queue_sub(3) [OF sq(1)] by (simp add: step_on_def calm_on_def same_gate_def h iq tq)
  ultimately show ?thesis using run s'(4) by auto
qed

lemma run_ScheduleDelayedWorkTask_ok:
  assumes inv: "sched_inv s reg" and wq: "tq_work_queues (task_queues s q)" and t: "callback t \<noteq> None" "enqueue_order_set_to t = 0"
      "seq_num_ok (sequence_num t)"
  shows "\<exists>s' r. run_ScheduleDelayedWorkTask q t s = Some s' \<and> sched_inv s' (reg(q := r)) \<and> step_on q s s' \<and> told (sel s) (sel s')
    \<and> tasks_of s' q =
       (let now = queue_now q s; dq = dq_tasks (tq_delayed_incoming_queue (task_queues s q)) in
        if now < delayed_run_time t then (pending_immediate s q, wq_tasks (del s q), priority_push (client_task t) dq)
        else let (moved, rest) = move_ready (is_cancelled s) now (priority_push ((client_task t)\<lparr>delayed_run_time := now\<rparr>) dq)
             in (pending_immediate s q, wq_tasks (del s q) @ stamped (order_counter s) moved, rest))"
proof -
  note l = sched_invD(5) [OF inv wq]
  obtain d where d: "tq_time_domain (task_queues s q) = Some d" using liveD(1) [OF l] by (auto simp: domain_ok_def)
  have now: "queue_now q s = td_now (time_domains s d)" using d by (simp add: queue_now_def)
  have c: "callback (client_task t) \<noteq> None" "enqueue_order_set_to (client_task t) = 0" "seq_num_ok (sequence_num (client_task t))" using t by (simp_all add: client_task_def)
  show ?thesis
  proof (cases "queue_now q s < delayed_run_time t")
    case True
    from PushOntoDelayedIncomingQueueFromMainThread_ok [OF inv wq order_refl c, of "queue_now q s"] obtain s' r where
      "PushOntoDelayedIncomingQueueFromMainThread q (client_task t) (queue_now q s) s = Some s'" "sched_inv s' (reg(q := r))" "step_on q s s'"
      "tasks_of s' q = (pending_immediate s q, wq_tasks (del s q), priority_push (client_task t) (dq_tasks (tq_delayed_incoming_queue (task_queues s q))))"
      "sel s' = sel s" by auto
    moreover from this(1) have "run_ScheduleDelayedWorkTask q t s = Some s'" using True d now by (simp add: run_ScheduleDelayedWorkTask_def)
    ultimately show ?thesis using True by (intro exI [of _ s'] exI [of _ r]) (simp add: Let_def)
  next
    case False
    let ?t = "(client_task t)\<lparr>delayed_run_time := queue_now q s\<rparr>"
    let ?d = "tq_delayed_incoming_queue (task_queues s q)"
    obtain m where m: "dq_push ?t ?d = Some (?d\<lparr>dq_high_res := m, dq_tasks := priority_push ?t (dq_tasks ?d)\<rparr>)"
      "delayed_ok (?d\<lparr>dq_high_res := m, dq_tasks := priority_push ?t (dq_tasks ?d)\<rparr>)"
      using delayed_ok_push [OF liveD(6) [OF l], of ?t] c by auto
    let ?dq = "?d\<lparr>dq_high_res := m, dq_tasks := priority_push ?t (dq_tasks ?d)\<rparr>"
    from MoveReadyDelayedTasksToWorkQueue_ok [OF inv wq m(2), of "queue_now q s"] obtain s' r where
      "MoveReadyDelayedTasksToWorkQueue q (queue_now q s) (upd q (\<lambda>i. i\<lparr>tq_delayed_incoming_queue := ?dq\<rparr>) s) = Some s'"
      "sched_inv s' (reg(q := r))" "calm_on q s s'" "told (sel s) (sel s')"
      "tasks_of s' q = (pending_immediate s q, wq_tasks (del s q) @ stamped (order_counter s) (fst (move_ready (is_cancelled s) (queue_now q s) (dq_tasks ?dq))),
         snd (move_ready (is_cancelled s) (queue_now q s) (dq_tasks ?dq)))" by auto
    moreover from this(1) have "run_ScheduleDelayedWorkTask q t s = Some s'"
      using False d now m(1) by (simp add: run_ScheduleDelayedWorkTask_def upd_def)
    ultimately show ?thesis
      using False by (intro exI [of _ s'] exI [of _ r]) (simp add: Let_def case_prod_beta calm_on_def)
  qed
qed

section \<open>Operations on both work queues\<close>

text \<open>A step of the work queues of \<open>q\<close> and of the sets.\<close>

definition work_only :: "nat \<Rightarrow> scheduler \<Rightarrow> scheduler \<Rightarrow> bool" where
  "work_only q s s' \<longleftrightarrow>
     others q s s' \<and> task_queues s' = task_queues s \<and> time_domains s' = time_domains s \<and> order_counter s' = order_counter s
     \<and> event_log s' = event_log s"

lemma work_only_trans: "work_only q s t \<Longrightarrow> work_only q t u \<Longrightarrow> work_only q s u"
  unfolding work_only_def using others_trans by auto

lemma work_only_rep: "work_only q s s' \<Longrightarrow> wake_rep s' reg = wake_rep s reg"
  by (rule wake_rep_cong) (simp_all add: work_only_def)

lemma op_allowed_same: "same_queue a b \<Longrightarrow> op_allowed op b = op_allowed op a"
  by (cases op) (auto simp: same_queue_def increasing_after_def)

lemma op_effect_same: "same_queue a b \<Longrightarrow> same_queue (op_effect op a) (op_effect op b)"
proof -
  have "op_effect op (a\<lparr>wq_heap_handle := h\<rparr>) = (op_effect op a)\<lparr>wq_heap_handle := h\<rparr>" for h by (cases a, cases op) simp_all
  then show "same_queue a b \<Longrightarrow> same_queue (op_effect op a) (op_effect op b)" by (auto simp: same_queue_def)
qed

lemma run_op_work:
  fixes s :: scheduler
  assumes "work_ok s" "op_allowed op (queues s (q, ty))" "op_target op = (q, ty)"
  shows "\<exists>t. run_op op s = Some t \<and> work_ok t \<and> work_only q s t \<and> same_queue (op_effect op (queues s (q, ty))) (queues t (q, ty))
    \<and> (\<forall>ty'. ty' \<noteq> ty \<longrightarrow> same_queue (queues s (q, ty')) (queues t (q, ty')))"
proof -
  from run_op_ok [OF assms(1), of op] assms(2,3) obtain t where
    t: "run_op op s = Some t" "work_ok t" "sets_only (set_queue (q, ty) (op_effect op (queues s (q, ty))) s) t" by auto
  note c = changed_queue [OF t(3)]
  have "event_log t = event_log s" using sets_only_others(5) [OF t(3)] by simp
  then show ?thesis using t(1,2) c by (auto simp: work_only_def)
qed

lemma run_two_ops:
  fixes s :: scheduler
  assumes "work_ok s" "op_allowed op (del s q)" "op_allowed op' (imm s q)" "op_target op = (q, kDelayed)" "op_target op' = (q, kImmediate)"
  shows "\<exists>t u. run_op op s = Some t \<and> run_op op' t = Some u \<and> work_ok t \<and> work_ok u \<and> work_only q s u
    \<and> same_queue (op_effect op (del s q)) (del u q) \<and> same_queue (op_effect op' (imm s q)) (imm u q)
    \<and> same_queue (op_effect op (del s q)) (del t q) \<and> same_queue (imm s q) (imm t q)"
proof -
  from run_op_work [OF assms(1,2,4)] obtain t where t: "run_op op s = Some t" "work_ok t" "work_only q s t"
    "same_queue (op_effect op (del s q)) (del t q)" "same_queue (imm s q) (imm t q)" by auto
  from run_op_work [OF t(2) _ assms(5)] op_allowed_same [OF t(5), of op'] assms(3) obtain u where u: "run_op op' t = Some u" "work_ok u"
    "work_only q t u" "same_queue (op_effect op' (imm t q)) (imm u q)" "same_queue (del t q) (del u q)" by auto
  show ?thesis
    using t u work_only_trans [OF t(3) u(3)] same_trans(1) [OF t(4) u(5)] same_trans(1) [OF op_effect_same [OF t(5)] u(4)] by blast
qed

lemma CheckContainsQueueForTest_ok:
  assumes "work_ok s" "wq_sets (queues s (q, kDelayed)) = Some delayed_sets \<longleftrightarrow> wq_sets (queues s (q, kImmediate)) = Some immediate_sets"
  shows "CheckContainsQueueForTest q s = Some (wq_sets (queues s (q, kImmediate)) = Some immediate_sets)"
  using assms by (simp add: CheckContainsQueueForTest_def ContainsWorkQueueForTest_ok)

lemma AddQueueImpl_ok:
  fixes s :: scheduler
  assumes "work_ok s" "wq_sets (imm s q) = None" "wq_sets (del s q) = None" "p < kQueuePriorityCount"
  shows "\<exists>s'. AddQueueImpl q p s = Some s' \<and> work_ok s' \<and> work_only q s s'
    \<and> same_queue ((imm s q)\<lparr>wq_sets := Some immediate_sets, wq_set_index := p\<rparr>) (imm s' q)
    \<and> same_queue ((del s q)\<lparr>wq_sets := Some delayed_sets, wq_set_index := p\<rparr>) (del s' q)"
proof -
  from run_two_ops [OF assms(1), of "Op_AddQueue delayed_sets (q, kDelayed) p" q "Op_AddQueue immediate_sets (q, kImmediate) p"] assms
  obtain t u where t: "sets_AddQueue delayed_sets (q, kDelayed) p s = Some t" "sets_AddQueue immediate_sets (q, kImmediate) p t = Some u"
    "work_ok u" "work_only q s u" "same_queue ((imm s q)\<lparr>wq_sets := Some immediate_sets, wq_set_index := p\<rparr>) (imm u q)"
    "same_queue ((del s q)\<lparr>wq_sets := Some delayed_sets, wq_set_index := p\<rparr>) (del u q)" by auto
  have "wq_sets (imm u q) = Some immediate_sets" "wq_sets (del u q) = Some delayed_sets"
    using same_queue_sub(2) [OF t(5)] same_queue_sub(2) [OF t(6)] by simp_all
  then have "AddQueueImpl q p s = Some u"
    using t(1-3) assms by (simp add: AddQueueImpl_def CheckContainsQueueForTest_ok)
  then show ?thesis using t by blast
qed

lemma RemoveQueueImpl_ok:
  fixes s :: scheduler
  assumes "work_ok s" "wq_sets (imm s q) = Some immediate_sets" "wq_sets (del s q) = Some delayed_sets"
  shows "\<exists>s'. RemoveQueueImpl q s = Some s' \<and> work_ok s' \<and> work_only q s s'
    \<and> same_queue ((imm s q)\<lparr>wq_sets := None\<rparr>) (imm s' q) \<and> same_queue ((del s q)\<lparr>wq_sets := None\<rparr>) (del s' q)"
proof -
  from run_two_ops [OF assms(1), of "Op_RemoveQueue delayed_sets (q, kDelayed)" q "Op_RemoveQueue immediate_sets (q, kImmediate)"] assms
  obtain t u where t: "sets_RemoveQueue delayed_sets (q, kDelayed) s = Some t" "sets_RemoveQueue immediate_sets (q, kImmediate) t = Some u"
    "work_ok u" "work_only q s u" "same_queue ((imm s q)\<lparr>wq_sets := None\<rparr>) (imm u q)"
    "same_queue ((del s q)\<lparr>wq_sets := None\<rparr>) (del u q)" by auto
  have "wq_sets (imm u q) = None" "wq_sets (del u q) = None"
    using same_queue_sub(2) [OF t(5)] same_queue_sub(2) [OF t(6)] by simp_all
  then have "RemoveQueueImpl q s = Some u"
    using t(1-3) assms by (simp add: RemoveQueueImpl_def CheckContainsQueueForTest_ok)
  then show ?thesis using t by blast
qed

lemma selector_ChangeSetIndex_ok:
  fixes s :: scheduler
  assumes "work_ok s" "wq_sets (imm s q) = Some immediate_sets" "wq_sets (del s q) = Some delayed_sets" "p < kQueuePriorityCount"
    "p \<noteq> wq_set_index (imm s q)" "wq_set_index (del s q) = wq_set_index (imm s q)"
  shows "\<exists>s'. selector_ChangeSetIndex q p s = Some s' \<and> work_ok s' \<and> work_only q s s'
    \<and> same_queue ((imm s q)\<lparr>wq_set_index := p\<rparr>) (imm s' q) \<and> same_queue ((del s q)\<lparr>wq_set_index := p\<rparr>) (del s' q)"
proof -
  from run_two_ops [OF assms(1), of "Op_ChangeSetIndex delayed_sets (q, kDelayed) p" q "Op_ChangeSetIndex immediate_sets (q, kImmediate) p"] assms
  obtain t u where t: "sets_ChangeSetIndex delayed_sets (q, kDelayed) p s = Some t" "sets_ChangeSetIndex immediate_sets (q, kImmediate) p t = Some u"
    "work_ok u" "work_only q s u" "same_queue ((imm s q)\<lparr>wq_set_index := p\<rparr>) (imm u q)"
    "same_queue ((del s q)\<lparr>wq_set_index := p\<rparr>) (del u q)" by auto
  have "wq_sets (imm u q) = Some immediate_sets" "wq_sets (del u q) = Some delayed_sets"
    using same_queue_sub(2) [OF t(5)] same_queue_sub(2) [OF t(6)] assms by simp_all
  then have "selector_ChangeSetIndex q p s = Some u"
    using t(1-3) assms by (simp add: selector_ChangeSetIndex_def CheckContainsQueueForTest_ok)
  then show ?thesis using t by blast
qed

section \<open>Configuration of a queue\<close>

lemma work_only_step:
  assumes "sched_inv s reg" "work_only q s s'" "work_ok s'" "live (order_counter s) (task_queues s q) (imm s' q) (del s' q) (reg q)"
  shows "sched_inv s' reg"
proof -
  have "others q s s'" "task_queues s' = task_queues s" "order_counter s' = order_counter s" using assms(2) by (simp_all add: work_only_def)
  then show ?thesis
    using sched_inv_step [OF assms(1) _ assms(3)] work_only_rep [OF assms(2)] sched_invD(3) [OF assms(1)] assms(4)
    by (simp add: queue_inv_def)
qed

lemma AssignSetIndex_both:
  fixes s :: scheduler
  assumes "work_ok s" "wq_sets (imm s q) = None" "wq_sets (del s q) = None" "p < kQueuePriorityCount"
  defines "s' \<equiv> AssignSetIndex (q, kImmediate) p (AssignSetIndex (q, kDelayed) p s)"
  shows "work_ok s'" "work_only q s s'" "imm s' q = (imm s q)\<lparr>wq_set_index := p\<rparr>" "del s' q = (del s q)\<lparr>wq_set_index := p\<rparr>"
proof -
  have s': "s' = set_queue (q, kImmediate) ((imm s q)\<lparr>wq_set_index := p\<rparr>) (set_queue (q, kDelayed) ((del s q)\<lparr>wq_set_index := p\<rparr>) s)"
    by (simp add: s'_def AssignSetIndex_def)
  have ok: "work_ok (set_queue w ((queues t w)\<lparr>wq_set_index := p\<rparr>) t)" if "work_ok t" "wq_sets (queues t w) = None" for t :: scheduler and w
    using that work_okD(1) [OF that(1), of w] assms(4) by (intro work_ok_silent) (auto simp: queue_ok_def ready_def)
  have "work_ok (set_queue (q, kDelayed) ((del s q)\<lparr>wq_set_index := p\<rparr>) s)" using ok [OF assms(1,3)] .
  from ok [OF this, of "(q, kImmediate)"] assms(2) show "work_ok s'" by (simp add: s')
  show "work_only q s s'" unfolding s' work_only_def
    using others_trans [OF others_simps(4) others_simps(4)] by simp
  show "imm s' q = (imm s q)\<lparr>wq_set_index := p\<rparr>" "del s' q = (del s q)\<lparr>wq_set_index := p\<rparr>" by (simp_all add: s')
qed

lemma tq_SetQueuePriority_ok:
  assumes inv: "sched_inv s reg" and wq: "tq_work_queues (task_queues s q)" and p: "p < kQueuePriorityCount"
  shows "\<exists>s'. tq_SetQueuePriority q p s = Some s' \<and> sched_inv s' reg \<and> step_on q s s' \<and> tasks_of s' q = tasks_of s q
    \<and> wq_set_index (imm s' q) = p"
proof -
  note l = sched_invD(5) [OF inv wq]
  have ok: "work_ok s" using sched_invD(1) [OF inv] .
  let ?i = "task_queues s q"
  have idx: "wq_set_index (del s q) = wq_set_index (imm s q)" using liveD(5) [OF l] by (simp add: assigned_ok_def)
  show ?thesis
  proof (cases "p = wq_set_index (imm s q)")
    case True
    then show ?thesis using inv wq idx by (simp add: tq_SetQueuePriority_def GetQueuePriority_def)
  next
    case False
    obtain u where u: "selector_SetQueuePriority (tq_is_enabled ?i) q p s = Some u" "work_ok u" "work_only q s u"
      "same_queue ((imm s q)\<lparr>wq_set_index := p\<rparr>) (imm u q)" "same_queue ((del s q)\<lparr>wq_set_index := p\<rparr>) (del u q)"
    proof (cases "tq_is_enabled ?i")
      case en: True
      from selector_ChangeSetIndex_ok [OF ok _ _ p False idx] liveD(5) [OF l] en obtain u where
        u: "selector_ChangeSetIndex q p s = Some u" "work_ok u" "work_only q s u"
          "same_queue ((imm s q)\<lparr>wq_set_index := p\<rparr>) (imm u q)" "same_queue ((del s q)\<lparr>wq_set_index := p\<rparr>) (del u q)"
        by (auto simp: assigned_ok_def)
      then have "selector_SetQueuePriority True q p s = Some u"
        using p same_queue_sub(3) [OF u(4)] same_queue_sub(3) [OF u(5)] by (simp add: selector_SetQueuePriority_def GetQueuePriority_def)
      then show ?thesis using that u en by simp
    next
      case dis: False
      have n: "wq_sets (imm s q) = None" "wq_sets (del s q) = None" using liveD(5) [OF l] dis by (simp_all add: assigned_ok_def)
      note a = AssignSetIndex_both [OF ok n p]
      have "selector_SetQueuePriority False q p s = Some (AssignSetIndex (q, kImmediate) p (AssignSetIndex (q, kDelayed) p s))"
        using p a(3,4) by (simp add: selector_SetQueuePriority_def GetQueuePriority_def)
      then show ?thesis using that [OF _ a(1,2)] a(3,4) dis by simp
    qed
    note sub = same_queue_sub(1-4) [OF u(4)] same_queue_sub(1-4) [OF u(5)]
    have "live (order_counter s) ?i (imm u q) (del u q) (reg q)" using l sub by (simp add: live_def assigned_ok_def)
    then have "sched_inv u reg" using work_only_step [OF inv u(3,2)] by simp
    moreover have "tq_SetQueuePriority q p s = Some u"
      using False u(1) wq idx by (simp add: tq_SetQueuePriority_def GetQueuePriority_def)
    moreover have "tasks_of u q = tasks_of s q" using u(3) sub by (simp add: work_only_def tasks_of_def pending_immediate_def)
    ultimately show ?thesis using sub(3) u(3) by (auto simp: work_only_def step_on_def)
  qed
qed

lemma wake_up_any:
  assumes rep: "wake_rep t reg" and dl: "domain_ok (task_queues t q)" "linked (task_queues t q) (reg q)"
    "delayed_ok (tq_delayed_incoming_queue (task_queues t q))"
  shows "\<exists>s' r. UpdateDelayedWakeUp q now t = Some s' \<and> wake_rep s' (reg(q := r)) \<and> wake_ok (task_queues s' q) r
    \<and> rescheduled (task_queues t q) (task_queues s' q) \<and> others q t s' \<and> queues s' = queues t \<and> work_ok s' = work_ok t \<and> sel s' = sel t
    \<and> order_counter s' = order_counter t"
proof -
  let ?i = "task_queues t q"
  obtain s' r where s': "UpdateDelayedWakeUp q now t = Some s'" "wake_rep s' (reg(q := r))" "wake_ok (task_queues s' q) r"
    "wake_only (upd q (\<lambda>i. i\<lparr>tq_scheduled_wake_up := next_wake_up ?i\<rparr>) t) s'" using UpdateDelayedWakeUp_ok [OF rep dl] by metis
  note w = wake_only_others [OF s'(4)]
  have "rescheduled ?i (task_queues s' q)" using w(6) [of q] by (auto simp: same_impl_def rescheduled_def)
  then show ?thesis using s' w(2-5,8) others_trans [OF others_simps(1) w(1)] by auto
qed

lemma tq_BlockedByFence_total:
  assumes "tq_work_queues (task_queues s q)" "queue_ok (imm s q)" "queue_ok (del s q)" "0 \<notin> set (incoming_orders (task_queues s q))"
  shows "\<exists>b. tq_BlockedByFence q s = Some b"
  using assms by (cases "tq_immediate_incoming_queue (task_queues s q)") (auto simp: tq_BlockedByFence_def Let_def enqueue_order_def)

lemma OnTaskQueueEnabled_total:
  assumes "tq_work_queues (task_queues s q)" "queue_ok (imm s q)" "queue_ok (del s q)" "0 \<notin> set (incoming_orders (task_queues s q))"
    "tq_is_enabled (task_queues s q)" "tq_time_domain (task_queues s q) \<noteq> None"
  shows "OnTaskQueueEnabled q s = Some s \<or> OnTaskQueueEnabled q s = Some (emit ScheduleWork s)"
proof -
  obtain b where "tq_BlockedByFence q s = Some b" using tq_BlockedByFence_total [OF assms(1-4)] ..
  moreover have "\<exists>c. HasTaskToRunImmediately q s = Some c"
    using assms(1,6) by (cases "dq_top (tq_delayed_incoming_queue (task_queues s q))") (auto simp: HasTaskToRunImmediately_def)
  ultimately show ?thesis using assms(5) by (auto simp: OnTaskQueueEnabled_def)
qed

text \<open>The end of SetQueueEnabled when the queue is enabled, once the selector knows the queue again.\<close>

definition announce_enabled :: "nat \<Rightarrow> scheduler \<Rightarrow> scheduler option" where
  "announce_enabled q s =
     do { s \<leftarrow> OnTaskQueueEnabled q s;
          b \<leftarrow> tq_BlockedByFence q s;
          if \<not> b then let (order, s) = GetNextSequenceNumber s in Some (upd q (\<lambda>i. i\<lparr>tq_last_unblocked := order\<rparr>) s)
          else Some s }"

lemma live_last_unblocked: "live n i a b r \<Longrightarrow> n \<le> m \<Longrightarrow> live m (i\<lparr>tq_last_unblocked := k\<rparr>) a b r"
  by (drule (1) live_mono) (simp add: live_def)

lemma announce_enabled_ok:
  assumes inv: "sched_inv s reg" and wq: "tq_work_queues (task_queues s q)" and en: "tq_is_enabled (task_queues s q)"
  shows "\<exists>s'. announce_enabled q s = Some s' \<and> sched_inv s' reg \<and> step_on q s s' \<and> tasks_of s' q = tasks_of s q
    \<and> tq_is_enabled (task_queues s' q)"
proof -
  note l = sched_invD(5) [OF inv wq]
  have ord: "0 \<notin> set (incoming_orders (task_queues s q))" using liveD(2) [OF l] by (simp add: orders_ok_def)
  have dom: "tq_time_domain (task_queues s q) \<noteq> None" using liveD(1) [OF l] by (simp add: domain_ok_def)
  from OnTaskQueueEnabled_total [OF wq sched_invD(7) [OF inv] sched_invD(7) [OF inv] ord en dom] obtain t where
    t: "OnTaskQueueEnabled q s = Some t" "sched_inv t reg" "others q s t" "task_queues t = task_queues s" "queues t = queues s"
      "order_counter t = order_counter s" using inv others_simps(2) by fastforce
  from tq_BlockedByFence_total [of t q] obtain b where b: "tq_BlockedByFence q t = Some b"
    using t(4,5) wq ord sched_invD(7) [OF t(2)] by auto
  show ?thesis
  proof (cases b)
    case True
    then show ?thesis using t b en by (simp add: announce_enabled_def tasks_of_def pending_immediate_def step_on_def)
  next
    case False
    let ?u = "upd q (\<lambda>i. i\<lparr>tq_last_unblocked := order_counter t\<rparr>) (t\<lparr>order_counter := order_counter t + 1\<rparr>)"
    have o: "others q t ?u" using others_trans [OF others_simps(3) others_simps(1)] by simp
    have "live (order_counter t) (task_queues t q) (imm t q) (del t q) (reg q)" using sched_invD(5) [OF t(2), of q] t(4) wq by simp
    then have "sched_inv ?u reg"
      using sched_inv_step [OF t(2) o, of reg] sched_invD(1,3) [OF t(2)] live_last_unblocked
      by (simp add: queue_inv_def wake_rep_upd)
    moreover have "announce_enabled q s = Some ?u" using t(1) b False by (simp add: announce_enabled_def GetNextSequenceNumber_def)
    ultimately show ?thesis using others_trans [OF t(3) o] en t(4,5) by (simp add: tasks_of_def pending_immediate_def step_on_def)
  qed
qed

text \<open>The fields of a queue once SetQueueEnabled has updated them and the wake-up.\<close>

definition enabled_fields :: "bool \<Rightarrow> int \<Rightarrow> task_queue_impl \<Rightarrow> task_queue_impl" where
  "enabled_fields e now i = i\<lparr>tq_is_enabled := e, tq_disabled_time := (if e then None else Some now),
     tq_should_report := (if e then False else tq_should_report i)\<rparr>"

definition traced_fields :: "bool \<Rightarrow> task_queue_impl \<Rightarrow> task_queue_impl" where
  "traced_fields e i = i\<lparr>tq_tracing_is_enabled := e, tq_tracing_disabled_time := tq_disabled_time i,
     tq_tracing_should_report := tq_should_report i\<rparr>"

lemma enabled_live:
  assumes l: "live n i a b r0" and u: "rescheduled (enabled_fields e now i) j" "wake_ok j r" and m: "wq_tasks (imm u q) = wq_tasks a"
    and idx: "wq_set_index (imm u q) < kQueuePriorityCount"
    and a: "same_queue (a\<lparr>wq_sets := (if e then Some immediate_sets else None)\<rparr>) a'" "same_queue (b\<lparr>wq_sets := (if e then Some delayed_sets else None)\<rparr>) b'"
  shows "live n (traced_fields e (mirrored u q j)) a' b' r"
proof (rule liveI)
  obtain h where h: "j = (enabled_fields e now i)\<lparr>tq_scheduled_wake_up := next_wake_up (enabled_fields e now i), tq_heap_handle := h\<rparr>"
    using u(1) by (auto simp: rescheduled_def)
  note g = traced_fields_def h enabled_fields_def same_queue_sub(1-4) [OF a(1)] same_queue_sub(1-4) [OF a(2)]
  let ?i = "traced_fields e (mirrored u q j)"
  show "domain_ok ?i" using liveD(1) [OF l] by (simp add: g)
  show "orders_ok n ?i (wq_tasks a') (wq_tasks b')" using liveD(2) [OF l] by (simp add: g)
  show "mirror_ok ?i (wq_tasks a')" using liveD(3) [OF l] m by (simp add: g) (simp add: mirror_ok_def mirrored_def)
  show "fence_ok n ?i (wq_fence a') (wq_fence b')" using liveD(4) [OF l] by (simp add: g)
  show "assigned_ok ?i (wq_sets a') (wq_sets b') (wq_set_index a') (wq_set_index b')"
    using idx liveD(5) [OF l] by (simp add: g) (simp add: assigned_ok_def mirrored_def)
  show "delayed_ok (tq_delayed_incoming_queue ?i)" using liveD(6) [OF l] by (simp add: g)
  show "wake_ok ?i r" using u(2) by (simp add: traced_fields_def)
qed

lemma SetQueueEnabled_eq:
  assumes "tq_is_enabled (task_queues s q) \<noteq> e" "tq_time_domain (task_queues s q) = Some d"
    "UpdateDelayedWakeUp q (td_now (time_domains s d)) (upd q (enabled_fields e (td_now (time_domains s d))) s) = Some u"
    "tq_work_queues (task_queues u q)" "tq_is_enabled (task_queues u q) = e"
  defines "v \<equiv> upd q (traced_fields e) (upd q (mirrored u q) u)"
  shows "\<exists>w. (w = v \<or> w = emit (OnQueueNextWakeUpChanged q 0) v) \<and>
    SetQueueEnabled q e s = (if e then do { s \<leftarrow> EnableQueue e q w; announce_enabled q s } else DisableQueue e q w)"
proof -
  have "\<exists>b. HasPendingImmediateWork q (upd q (mirrored u q) u) = Some b" using assms(4) by (auto simp: HasPendingImmediateWork_def)
  then obtain b where b: "HasPendingImmediateWork q (upd q (mirrored u q) u) = Some b" ..
  have vs: "tq_is_enabled (task_queues v q) = e" using assms(5) by (simp add: v_def traced_fields_def)
  let ?w = "if e \<and> b \<and> tq_observer (task_queues v q) then emit (OnQueueNextWakeUpChanged q 0) v else v"
  have F: "(\<lambda>i. i\<lparr>tq_is_enabled := e, tq_disabled_time := (if e then None else Some now),
      tq_should_report := (if e then False else tq_should_report i)\<rparr>) = enabled_fields e now" for now
    by (simp add: enabled_fields_def fun_eq_iff)
  have T: "(\<lambda>i. i\<lparr>tq_tracing_is_enabled := e, tq_tracing_disabled_time := tq_disabled_time i,
      tq_tracing_should_report := tq_should_report i\<rparr>) = traced_fields e" by (simp add: traced_fields_def fun_eq_iff)
  have "SetQueueEnabled q e s =
      (if e then do { let s = (if b \<and> tq_observer (task_queues v q) then emit (OnQueueNextWakeUpChanged q 0) v else v);
                s \<leftarrow> EnableQueue (tq_is_enabled (task_queues s q)) q s; announce_enabled q s }
       else DisableQueue (tq_is_enabled (task_queues v q)) q v)"
    unfolding SetQueueEnabled_def announce_enabled_def [abs_def] assms(2) Option.bind.simps Let_def F T assms(3)
    using assms(1,4) b by (simp add: v_def)
  then show ?thesis using vs by (intro exI [of _ ?w]) (cases e; simp add: Let_def)
qed

lemma SetQueueEnabled_ok:
  assumes inv: "sched_inv s reg" and wq: "tq_work_queues (task_queues s q)"
  shows "\<exists>s' r. SetQueueEnabled q e s = Some s' \<and> sched_inv s' (reg(q := r)) \<and> step_on q s s' \<and> tasks_of s' q = tasks_of s q
    \<and> tq_is_enabled (task_queues s' q) = e"
proof (cases "tq_is_enabled (task_queues s q) = e")
  case True
  then show ?thesis using inv by (intro exI [of _ s] exI [of _ "reg q"]) (simp add: SetQueueEnabled_def)
next
  case False
  note l = sched_invD(5) [OF inv wq]
  let ?i = "task_queues s q"
  obtain d where d: "tq_time_domain ?i = Some d" using liveD(1) [OF l] by (auto simp: domain_ok_def)
  let ?now = "td_now (time_domains s d)"
  let ?t = "upd q (enabled_fields e ?now) s"
  have "wake_rep ?t reg" using sched_invD(3) [OF inv] by (simp add: wake_rep_upd enabled_fields_def)
  moreover have "domain_ok (task_queues ?t q)" "linked (task_queues ?t q) (reg q)" "delayed_ok (tq_delayed_incoming_queue (task_queues ?t q))"
    using liveD(1,6,7) [OF l] by (simp_all add: enabled_fields_def wake_ok_def)
  ultimately obtain u r where u: "UpdateDelayedWakeUp q ?now ?t = Some u" "wake_rep u (reg(q := r))" "wake_ok (task_queues u q) r"
      "rescheduled (enabled_fields e ?now ?i) (task_queues u q)" "others q ?t u" "queues u = queues s" "work_ok u" "order_counter u = order_counter s"
    using wake_up_any [of ?t reg q ?now] sched_invD(1) [OF inv] by auto
  have uq: "tq_work_queues (task_queues u q)" "tq_is_enabled (task_queues u q) = e"
    "tq_immediate_incoming_queue (task_queues u q) = tq_immediate_incoming_queue ?i"
    "tq_delayed_incoming_queue (task_queues u q) = tq_delayed_incoming_queue ?i" "tq_time_domain (task_queues u q) = tq_time_domain ?i"
    using rescheduled_simps [OF u(4)] wq by (simp_all add: enabled_fields_def)
  let ?v = "upd q (traced_fields e) (upd q (mirrored u q) u)"
  from SetQueueEnabled_eq [OF False d u(1) uq(1,2)] obtain v where
    v: "v = ?v \<or> v = emit (OnQueueNextWakeUpChanged q 0) ?v"
    and run: "SetQueueEnabled q e s = (if e then do { s \<leftarrow> EnableQueue e q v; announce_enabled q s } else DisableQueue e q v)" by auto
  have ov: "others q s ?v" using others_trans [OF others_simps(1) others_trans [OF u(5) others_trans [OF others_simps(1) others_simps(1)]]] .
  have vq: "task_queues v q = traced_fields e (mirrored u q (task_queues u q))" "queues v = queues s" "order_counter v = order_counter s" "work_ok v"
    "wake_rep v (reg(q := r))" "others q s v"
    using v u(2,6-8) ov others_trans [OF ov others_simps(2)] by (auto simp: wake_rep_upd traced_fields_def)
  have idx: "wq_set_index (imm u q) < kQueuePriorityCount" using sched_invD(6) [OF inv] u(6) by simp
  have as: "assigned_ok ?i (wq_sets (imm s q)) (wq_sets (del s q)) (wq_set_index (imm s q)) (wq_set_index (del s q))" using liveD(5) [OF l] .
  obtain t where t: "(if e then EnableQueue e q v else DisableQueue e q v) = Some t" "work_ok t" "work_only q v t"
    "same_queue ((imm s q)\<lparr>wq_sets := (if e then Some immediate_sets else None)\<rparr>) (imm t q)"
    "same_queue ((del s q)\<lparr>wq_sets := (if e then Some delayed_sets else None)\<rparr>) (del t q)"
  proof (cases e)
    case True
    have p: "GetQueuePriority q v = Some (wq_set_index (imm s q))" using as vq(2) by (simp add: GetQueuePriority_def assigned_ok_def)
    have eq: "(imm s q)\<lparr>wq_sets := x, wq_set_index := wq_set_index (imm s q)\<rparr> = (imm s q)\<lparr>wq_sets := x\<rparr>"
      "(del s q)\<lparr>wq_sets := x, wq_set_index := wq_set_index (imm s q)\<rparr> = (del s q)\<lparr>wq_sets := x\<rparr>" for x
      using as by (simp_all add: assigned_ok_def)
    from AddQueueImpl_ok [OF vq(4), of q "wq_set_index (imm s q)"] as False True vq(2) idx u(6) p that show ?thesis
      by (auto simp: EnableQueue_def assigned_ok_def eq)
  next
    case e: False
    from RemoveQueueImpl_ok [OF vq(4), of q] as False e vq(2) that show ?thesis
      by (auto simp: DisableQueue_def assigned_ok_def)
  qed
  have tv: "task_queues t = task_queues v" "order_counter t = order_counter s" using t(3) vq(3) by (simp_all add: work_only_def)
  have ot: "others q s t" using others_trans [OF vq(6)] t(3) by (simp add: work_only_def)
  have "live (order_counter s) (task_queues v q) (imm t q) (del t q) r"
    unfolding vq(1) by (rule enabled_live [OF l u(4,3) _ idx t(4,5)]) (simp add: u(6))
  then have it: "sched_inv t (reg(q := r))"
    using sched_inv_step [OF inv ot t(2)] work_only_rep [OF t(3)] vq(5) tv by (simp add: queue_inv_def)
  have tq: "tasks_of t q = tasks_of s q" "tq_work_queues (task_queues t q)" "tq_is_enabled (task_queues t q) = e"
    using same_queue_sub(1) [OF t(4)] same_queue_sub(1) [OF t(5)] uq
    by (simp_all add: tasks_of_def pending_immediate_def tv vq(1) traced_fields_def)
  have st: "step_on q s t" using ot wq uq by (intro step_onI) (simp_all add: tv vq(1) traced_fields_def)
  show ?thesis
  proof (cases e)
    case True
    from announce_enabled_ok [OF it tq(2)] tq(3) True obtain s' where
      "announce_enabled q t = Some s'" "sched_inv s' (reg(q := r))" "step_on q t s'" "tasks_of s' q = tasks_of t q" "tq_is_enabled (task_queues s' q)" by auto
    then show ?thesis using True run t(1) tq(1) step_on_trans [OF st] by auto
  next
    case e: False
    then show ?thesis using run t(1) tq it st by auto
  qed
qed

lemma UnregisterQueue_ok:
  assumes "wake_rep s reg" "tq_time_domain (task_queues s q) = Some d" "reg q = None \<or> (\<exists>e. reg q = Some (d, e))"
  shows "\<exists>s'. UnregisterQueue d q s = Some s' \<and> wake_rep s' (reg(q := None)) \<and> wake_only s s'"
  using SetNextWakeUpForQueue_ok [OF assms(1), of q d None kLow "td_now (time_domains s d)"] assms(2,3)
  by (auto simp: UnregisterQueue_def)

lemma SetTimeDomain_ok:
  assumes inv: "sched_inv s reg" and wq: "tq_work_queues (task_queues s q)"
  shows "\<exists>s' r. SetTimeDomain q d' s = Some s' \<and> sched_inv s' (reg(q := r)) \<and> others q s s' \<and> tasks_of s' q = tasks_of s q
    \<and> tq_time_domain (task_queues s' q) = Some d' \<and> tq_work_queues (task_queues s' q)"
proof -
  note l = sched_invD(5) [OF inv wq]
  let ?i = "task_queues s q"
  obtain d where d: "tq_time_domain ?i = Some d" and un: "\<not> tq_unregistered ?i" using liveD(1) [OF l] by (auto simp: domain_ok_def)
  show ?thesis
  proof (cases "d' = d")
    case True
    then show ?thesis using d un inv wq by (intro exI [of _ s] exI [of _ "reg q"]) (simp add: SetTimeDomain_def)
  next
    case False
    let ?s = "upd q (\<lambda>i. i\<lparr>tq_any_time_domain := Some d'\<rparr>) s"
    let ?G = "\<lambda>i. i\<lparr>tq_time_domain := Some d', tq_scheduled_wake_up := None\<rparr>"
    have "reg q = None \<or> (\<exists>e. reg q = Some (d, e))" using liveD(7) [OF l] d by (auto simp: wake_ok_def linked_def split: option.splits)
    with UnregisterQueue_ok [of ?s reg q d] sched_invD(3) [OF inv] d obtain t where
      t: "UnregisterQueue d q ?s = Some t" "wake_rep t (reg(q := None))" "wake_only ?s t" by (auto simp: wake_rep_upd)
    note w = wake_only_others [OF t(3)]
    obtain h where h: "task_queues t q = ?i\<lparr>tq_any_time_domain := Some d', tq_heap_handle := h\<rparr>" using w(6) [of q] by (auto simp: same_impl_def)
    let ?t = "upd q ?G t"
    define reg0 where "reg0 = reg(q := None)"
    have reg0: "reg0 q = None" "reg0(q := r) = reg(q := r)" for r by (simp_all add: reg0_def)
    have "wake_rep ?t reg0" using t(2) by (simp add: wake_rep_upd reg0_def)
    moreover have "domain_ok (task_queues ?t q)" "linked (task_queues ?t q) (reg0 q)" "delayed_ok (tq_delayed_incoming_queue (task_queues ?t q))"
      using liveD(1,6) [OF l] by (simp_all add: h domain_ok_def linked_def reg0)
    ultimately obtain u r where
      u: "UpdateDelayedWakeUp q (td_now (time_domains t d')) ?t = Some u" "wake_rep u (reg(q := r))" "wake_ok (task_queues u q) r"
        "rescheduled (?G (task_queues t q)) (task_queues u q)" "others q ?t u" "queues u = queues s" "work_ok u = work_ok s"
        "order_counter u = order_counter s" using wake_up_any [of ?t reg0 q "td_now (time_domains t d')"] w(2,5,8) by (auto simp: reg0)
    have run: "SetTimeDomain q d' s = Some u" using False d un t(1) u(1) by (simp add: SetTimeDomain_def)
    have o: "others q s u" using others_trans [OF others_simps(1) others_trans [OF w(1) others_trans [OF others_simps(1) u(5)]]] .
    obtain g x where iu: "task_queues u q = ?i\<lparr>tq_any_time_domain := Some d', tq_time_domain := Some d', tq_scheduled_wake_up := x, tq_heap_handle := g\<rparr>"
      using u(4) by (cases ?i) (auto simp: rescheduled_def h)
    have "live (order_counter s) (task_queues u q) (imm s q) (del s q) r"
    proof (rule liveI)
      show "wake_ok (task_queues u q) r" by (rule u(3))
    qed (use liveD [OF l] in \<open>simp_all add: iu domain_ok_def\<close>)
    then have "sched_inv u (reg(q := r))" using sched_inv_step [OF inv o] u(2,6-8) sched_invD(1) [OF inv] by (simp add: queue_inv_def)
    then show ?thesis using run o wq by (auto simp: tasks_of_def pending_immediate_def u(6)) (simp_all add: iu)
  qed
qed

section \<open>Sweeping cancelled tasks\<close>

lemma task_IsCancelled_eq: "callback t \<noteq> None \<Longrightarrow> task_IsCancelled canc t = Some (dropped canc t)"
  by (auto simp: task_IsCancelled_def dropped_def)

lemma swap_remove:
  assumes "it < length c"
  shows "\<exists>ys. take it (butlast (c[it := last c])) = take it c \<and> drop it (butlast (c[it := last c])) = ys \<and> mset ys = mset (drop (Suc it) c)"
proof -
  obtain xs t ys where c: "c = xs @ t # ys" "length xs = it" using id_take_nth_drop [OF assms] assms by (metis length_take min.absorb4)
  show ?thesis
  proof (cases ys rule: rev_cases)
    case Nil
    then show ?thesis using c by auto
  next
    case (snoc zs z)
    then have "butlast (c[it := last c]) = xs @ z # zs"
      by (simp add: c(1) c(2) [symmetric] butlast_append list_update_append)
    then show ?thesis using c snoc by auto
  qed
qed

lemma sweep_loop_ok:
  assumes "\<forall>t \<in> set c. callback t \<noteq> None"
  shows "\<exists>c'. sweep_loop canc it c n b =
      Some (c', n - int (size (filter_mset (\<lambda>t. is_high_res t \<and> dropped canc t) (mset (drop it c)))), b \<or> (\<exists>t \<in> set (drop it c). dropped canc t))
    \<and> mset c' = mset (take it c) + filter_mset (\<lambda>t. \<not> dropped canc t) (mset (drop it c))
    \<and> ((\<forall>t \<in> set (drop it c). \<not> dropped canc t) \<longrightarrow> c' = c)"
  using assms
proof (induction canc it c n b rule: sweep_loop.induct)
  case (1 canc it c n b)
  show ?case
  proof (cases "it < length c")
    case False
    then show ?thesis by (subst sweep_loop.simps) simp
  next
    case lt: True
    let ?t = "c ! it"
    have canc: "task_IsCancelled canc ?t = Some (dropped canc ?t)" using "1.prems" lt by (simp add: task_IsCancelled_eq)
    have dr: "drop it c = ?t # drop (Suc it) c" using Cons_nth_drop_Suc [OF lt] by simp
    show ?thesis
    proof (cases "dropped canc ?t")
      case True
      let ?c = "butlast (c[it := last c])" and ?n = "if is_high_res ?t then n - 1 else n"
      from swap_remove [OF lt] obtain ys where ys: "take it ?c = take it c" "drop it ?c = ys" "mset ys = mset (drop (Suc it) c)" by auto
      have "set ?c \<subseteq> set c"
      proof -
        have "set ?c = set (take it ?c) \<union> set (drop it ?c)" using set_append [of "take it ?c" "drop it ?c"] by simp
        also have "\<dots> \<subseteq> set c" using ys(1,2) mset_eq_setD [OF ys(3)] set_take_subset set_drop_subset by fastforce
        finally show ?thesis .
      qed
      then have cb: "\<forall>t \<in> set ?c. callback t \<noteq> None" using "1.prems" by blast
      have step: "sweep_loop canc it c n b = sweep_loop canc it ?c ?n True" using lt canc True by (subst sweep_loop.simps) simp
      from "1.IH"(1) [OF lt canc True cb] obtain c' where
        c': "sweep_loop canc it ?c ?n True = Some (c', ?n - int (size (filter_mset (\<lambda>t. is_high_res t \<and> dropped canc t) (mset ys))), True)"
          "mset c' = mset (take it c) + filter_mset (\<lambda>t. \<not> dropped canc t) (mset ys)" unfolding ys(1,2) by auto
      show ?thesis unfolding step c'(1) using True c'(2) by (intro exI [of _ c']) (simp add: dr ys(3))
    next
      case False
      have step: "sweep_loop canc it c n b = sweep_loop canc (it + 1) c n b" using lt canc False by (subst sweep_loop.simps) simp
      have "mset (take (Suc it) c) = add_mset ?t (mset (take it c))" using take_Suc_conv_app_nth [OF lt] by simp
      with "1.IH"(2) [OF lt canc False "1.prems"] show ?thesis unfolding step using False by (simp add: dr)
    qed
  qed
qed

lemma make_heap_ok:
  assumes "\<forall>t \<in> set c. seq_num_ok (sequence_num t)"
  shows "\<exists>c'. make_heap c = Some c' \<and> mset c' = mset c \<and> sorted (map run_key c')"
proof -
  have push: "mset (priority_push t ts) = add_mset t (mset ts)" for t ts by (induction ts) auto
  have m: "mset (foldr priority_push c []) = mset c" for c by (induction c) (simp_all add: push)
  then have set: "set (foldr priority_push c []) = set c" for c by (metis set_mset_mset)
  have "sorted (map run_key (foldr priority_push c []))" using assms by (induction c) (simp_all add: sorted_priority_push set)
  with m orderableI [OF assms] show ?thesis by (simp add: make_heap_def)
qed

lemma SweepCancelledTasks_ok:
  assumes "delayed_ok dq"
  shows "\<exists>dq'. SweepCancelledTasks canc dq = Some dq' \<and> delayed_ok dq' \<and> mset (dq_tasks dq') = filter_mset (\<lambda>t. \<not> dropped canc t) (mset (dq_tasks dq))"
proof -
  let ?ts = "dq_tasks dq" and ?D = "\<lambda>t. is_high_res t \<and> dropped canc t"
  have cb: "\<forall>t \<in> set ?ts. callback t \<noteq> None" using assms by (simp add: delayed_ok_def)
  let ?del = "\<exists>t \<in> set ?ts. dropped canc t" and ?n = "dq_high_res dq - int (size (filter_mset ?D (mset ?ts)))"
  obtain c where c: "sweep_loop canc 0 ?ts (dq_high_res dq) False = Some (c, ?n, ?del)"
    "mset c = filter_mset (\<lambda>t. \<not> dropped canc t) (mset ?ts)" "\<not> ?del \<Longrightarrow> c = ?ts"
    using sweep_loop_ok [OF cb, of canc 0 "dq_high_res dq" False] by auto
  have "\<forall>t \<in> set c. seq_num_ok (sequence_num t)"
    using arg_cong [OF c(2), of set_mset] assms by (auto simp: delayed_ok_def)
  from make_heap_ok [OF this] obtain c' where c': "make_heap c = Some c'" "mset c' = mset c" "sorted (map run_key c')" by blast
  let ?c = "if ?del then c' else c"
  have m: "mset ?c = filter_mset (\<lambda>t. \<not> dropped canc t) (mset ?ts)" using c(2) c'(2) by simp
  have set: "set ?c = {t \<in> set ?ts. \<not> dropped canc t}" using arg_cong [OF m, of set_mset] by simp
  have "sorted (map run_key ?c)" using c'(3) c(3) assms by (auto simp: delayed_ok_def)
  moreover have "?n = int (length (filter is_high_res ?c))"
  proof -
    have len: "length (filter P xs) = size (filter_mset P (mset xs))" for P and xs :: "closure task list" by (simp flip: mset_filter)
    have size_split: "size (filter_mset is_high_res M) = size (filter_mset ?D M) + size (filter_mset is_high_res (filter_mset (\<lambda>t. \<not> dropped canc t) M))" for M
      by (induction M) auto
    have "size (filter_mset is_high_res (mset ?ts)) = size (filter_mset ?D (mset ?ts)) + size (filter_mset is_high_res (mset ?c))"
      unfolding m using size_split [of "mset ?ts"] .
    then show ?thesis using assms unfolding len by (simp add: delayed_ok_def len)
  qed
  ultimately have "delayed_ok (dq\<lparr>dq_tasks := ?c, dq_high_res := ?n\<rparr>)" using assms set by (simp add: delayed_ok_def)
  moreover have "SweepCancelledTasks canc dq = Some (dq\<lparr>dq_tasks := ?c, dq_high_res := ?n\<rparr>)" using c(1) c'(1) by (simp add: SweepCancelledTasks_def)
  ultimately show ?thesis using m by (intro exI [of _ "dq\<lparr>dq_tasks := ?c, dq_high_res := ?n\<rparr>"]) simp
qed

lemma dq_step:
  assumes inv: "sched_inv s reg" and wq: "tq_work_queues (task_queues s q)" and dq: "delayed_ok dq"
  shows "\<exists>s' r. UpdateDelayedWakeUp q now (upd q (\<lambda>i. i\<lparr>tq_delayed_incoming_queue := dq\<rparr>) s) = Some s' \<and> sched_inv s' (reg(q := r)) \<and> step_on q s s'
    \<and> tasks_of s' q = (pending_immediate s q, wq_tasks (del s q), dq_tasks dq) \<and> sel s' = sel s
    \<and> same_gate (task_queues s q) (task_queues s' q)"
proof -
  let ?s = "upd q (\<lambda>i. i\<lparr>tq_delayed_incoming_queue := dq\<rparr>) s"
  have "almost_live (order_counter ?s) (task_queues ?s q) (imm ?s q) (del ?s q) (reg q)"
    using live_almost [OF sched_invD(5) [OF inv wq]] dq by (simp add: almost_live_def)
  moreover have "wake_rep ?s reg" using sched_invD(3) [OF inv] by (simp add: wake_rep_upd)
  moreover have "step_on q s ?s" by (rule step_onI) simp_all
  ultimately obtain s' r where "UpdateDelayedWakeUp q now ?s = Some s'" "sched_inv s' (reg(q := r))" "step_on q s s'" "tasks_of s' q = tasks_of ?s q"
    "sel s' = sel s" "same_gate (task_queues s q) (task_queues s' q)"
    using wake_up_step [OF inv, of q ?s now] sched_invD(1) [OF inv] by (auto simp: same_gate_def rescheduled_def)
  then show ?thesis by (intro exI [of _ s'] exI [of _ r]) (simp add: tasks_of_def pending_immediate_def)
qed

lemma ReclaimMemory_ok:
  assumes inv: "sched_inv s reg" and wq: "tq_work_queues (task_queues s q)"
  shows "\<exists>s' r. ReclaimMemory q now s = Some s' \<and> sched_inv s' (reg(q := r)) \<and> step_on q s s' \<and> sel s' = sel s
    \<and> same_gate (task_queues s q) (task_queues s' q) \<and> fst (tasks_of s' q) = fst (tasks_of s q) \<and> fst (snd (tasks_of s' q)) = fst (snd (tasks_of s q))
    \<and> mset (snd (snd (tasks_of s' q))) = filter_mset (\<lambda>t. \<not> dropped (is_cancelled s) t) (mset (snd (snd (tasks_of s q))))"
proof (cases "dq_tasks (tq_delayed_incoming_queue (task_queues s q)) = []")
  case True
  then show ?thesis using inv by (intro exI [of _ s] exI [of _ "reg q"]) (simp add: ReclaimMemory_def tasks_of_def)
next
  case False
  note l = sched_invD(5) [OF inv wq]
  obtain dq where dq: "SweepCancelledTasks (is_cancelled s) (tq_delayed_incoming_queue (task_queues s q)) = Some dq" "delayed_ok dq"
    "mset (dq_tasks dq) = filter_mset (\<lambda>t. \<not> dropped (is_cancelled s) t) (mset (dq_tasks (tq_delayed_incoming_queue (task_queues s q))))"
    using SweepCancelledTasks_ok [OF liveD(6) [OF l]] by blast
  from dq_step [OF inv wq dq(2), of now] dq(1,3) False wq show ?thesis by (auto simp: ReclaimMemory_def tasks_of_def)
qed

section \<open>Deferred tasks, deletion and the life of a queue\<close>

lemma fields_step:
  assumes inv: "sched_inv s reg" and F: "\<And>i. tq_heap_handle (F i) = tq_heap_handle i"
    and lv: "live (order_counter s) (F (task_queues s q)) (imm s q) (del s q) (reg q)"
  shows "sched_inv (upd q F s) reg"
  using sched_inv_step [OF inv others_simps(1), of q F reg] sched_invD(1,3) [OF inv] lv F by (simp add: queue_inv_def wake_rep_upd)

lemma SetObserver_ok:
  assumes "sched_inv s reg" "tq_work_queues (task_queues s q)" "b \<longrightarrow> \<not> tq_observer (task_queues s q)"
  shows "\<exists>s'. SetObserver q b s = Some s' \<and> sched_inv s' reg \<and> step_on q s s' \<and> tasks_of s' q = tasks_of s q"
proof -
  let ?F = "\<lambda>i. i\<lparr>tq_observer := b\<rparr>"
  have "live (order_counter s) (?F (task_queues s q)) (imm s q) (del s q) (reg q)" using sched_invD(5) [OF assms(1,2)] by (simp add: live_def)
  then have "sched_inv (upd q ?F s) reg" using fields_step [OF assms(1), of ?F] by simp
  then show ?thesis using assms(3) by (auto simp: SetObserver_def tasks_of_def pending_immediate_def intro!: step_onI)
qed

lemma SetShouldReport_ok:
  fixes tr b :: bool
  assumes "sched_inv s reg" "tq_work_queues (task_queues s q)"
  defines "s' \<equiv> SetShouldReportPostedTasksWhenDisabled tr q b s"
  shows "sched_inv s' reg" "step_on q s s'" "tasks_of s' q = tasks_of s q"
proof -
  let ?F = "\<lambda>i. i\<lparr>tq_should_report := b, tq_tracing_should_report := b\<rparr>"
  have "live (order_counter s) (?F (task_queues s q)) (imm s q) (del s q) (reg q)" using sched_invD(5) [OF assms(1,2)] by (simp add: live_def)
  then have "sched_inv (upd q ?F s) reg" using fields_step [OF assms(1), of ?F] by simp
  then show "sched_inv s' reg" "step_on q s s'" "tasks_of s' q = tasks_of s q"
    using assms(1) by (simp_all add: s'_def SetShouldReportPostedTasksWhenDisabled_def tasks_of_def pending_immediate_def step_on_def)
qed

text \<open>A task goes back to the front of the work queue that it came from.\<close>

definition may_requeue :: "scheduler \<Rightarrow> nat \<Rightarrow> queue_type \<Rightarrow> closure task \<Rightarrow> bool" where
  "may_requeue s q ty t \<longleftrightarrow>
     \<not> nestable t \<and> enqueue_order_set_to t \<noteq> 0 \<and> enqueue_order_set_to t < order_counter s
     \<and> (\<forall>k \<in> set (task_orders (if ty = kImmediate then pending_immediate s q else wq_tasks (del s q))). enqueue_order_set_to t \<le> k)"

lemma RequeueDeferredNonNestableTask_ok:
  assumes inv: "sched_inv s reg" and wq: "tq_work_queues (task_queues s q)" and t: "may_requeue s q ty t"
  shows "\<exists>s'. RequeueDeferredNonNestableTask q ty t s = Some s' \<and> sched_inv s' reg \<and> step_on q s s'
    \<and> tasks_of s' q = tasks_left s q ty (t # wq_tasks (queues s (q, ty)))"
proof -
  note l = sched_invD(5) [OF inv wq]
  have ok: "work_ok s" using sched_invD(1) [OF inv] .
  define F where "F i = (if ty = kImmediate \<and> wq_tasks (imm s q) = [] then i\<lparr>tq_reload_flag := False, tq_immediate_work_queue_empty := False\<rparr> else i)"
    for i :: task_queue_impl
  have F: "tq_heap_handle (F i) = tq_heap_handle i" "tq_immediate_incoming_queue (F i) = tq_immediate_incoming_queue i"
    "tq_delayed_incoming_queue (F i) = tq_delayed_incoming_queue i" for i by (simp_all add: F_def)
  let ?s = "upd q F s" and ?w = "(q, ty)" and ?x = "(queues s (q, ty))\<lparr>wq_tasks := t # wq_tasks (queues s (q, ty))\<rparr>"
  have ord: "\<forall>k \<in> set (orders (queues ?s ?w)). enqueue_order_set_to t \<le> k" using t by (cases ty) (auto simp: may_requeue_def pending_immediate_def)
  have "work_ok ?s" "\<not> nestable t" "enqueue_order_set_to t \<noteq> 0" using ok t by (simp_all add: may_requeue_def)
  from PushNonNestableTaskToFront_ok [OF this ord] obtain s' where
    s': "PushNonNestableTaskToFront ?w t ?s = Some s'" "work_ok s'" "sets_only (set_queue ?w ?x ?s) s'" by auto
  have lv: "live (order_counter s) (F (task_queues s q)) (if ty = kImmediate then ?x else imm s q) (if ty = kDelayed then ?x else del s q) (reg q)"
  proof (cases ty)
    case kImmediate
    show ?thesis
    proof (rule liveI)
      show "orders_ok (order_counter s) (F (task_queues s q)) (wq_tasks (if ty = kImmediate then ?x else imm s q)) (wq_tasks (if ty = kDelayed then ?x else del s q))"
        using liveD(2) [OF l] t kImmediate by (auto simp: orders_ok_def F_def may_requeue_def pending_immediate_def)
      show "mirror_ok (F (task_queues s q)) (wq_tasks (if ty = kImmediate then ?x else imm s q))"
        using liveD(3) [OF l] kImmediate by (auto simp: mirror_ok_def F_def)
    qed (use liveD [OF l] kImmediate in \<open>simp_all add: F_def\<close>)
  next
    case kDelayed
    then have "orders_ok (order_counter s) (task_queues s q) (wq_tasks (imm s q)) (t # wq_tasks (del s q))"
      using liveD(2) [OF l] t by (auto simp: orders_ok_def may_requeue_def)
    then show ?thesis using l kDelayed by (simp add: live_def F_def)
  qed
  have so: "sets_only (set_queue ?w ?x (upd q F (s\<lparr>order_counter := order_counter s\<rparr>))) s'" using s'(3) by simp
  note st = queue_step [OF inv F(1) order_refl so s'(2) lv]
  have "RequeueDeferredNonNestableTask q ty t s = PushNonNestableTaskToFront ?w t ?s"
    using t wq by (cases ty) (simp_all add: RequeueDeferredNonNestableTask_def may_requeue_def F_def upd_def)
  moreover have "tasks_of s' q = tasks_left s q ty (t # wq_tasks (queues s ?w))"
    using st(3) F(2,3) same_queue_sub(1) [OF st(4)] same_queue_sub(1) [OF st(5) [of kDelayed]] same_queue_sub(1) [OF st(5) [of kImmediate]]
    by (cases ty) (simp_all add: tasks_of_def tasks_left_def pending_immediate_def)
  moreover have "step_on q s s'" using st(2,3) by (simp add: step_on_def F_def)
  ultimately show ?thesis using s'(1) st(1) by simp
qed

lemma tq_DeletePendingTasks_ok:
  assumes inv: "sched_inv s reg" and wq: "tq_work_queues (task_queues s q)"
  shows "\<exists>s' r. tq_DeletePendingTasks q s = Some s' \<and> sched_inv s' (reg(q := r)) \<and> step_on q s s' \<and> tasks_of s' q = ([], [], [])"
proof -
  note l = sched_invD(5) [OF inv wq]
  obtain d where d: "tq_time_domain (task_queues s q) = Some d" using liveD(1) [OF l] by (auto simp: domain_ok_def)
  from run_two_ops [OF sched_invD(1) [OF inv], of "Op_DeleteTasks (q, kDelayed)" q "Op_DeleteTasks (q, kImmediate)"]
  obtain t u where t: "wq_DeletePendingTasks (q, kDelayed) s = Some t" "wq_DeletePendingTasks (q, kImmediate) t = Some u" "work_ok u" "work_only q s u"
    "same_queue ((del s q)\<lparr>wq_tasks := []\<rparr>) (del u q)" "same_queue ((imm s q)\<lparr>wq_tasks := []\<rparr>) (imm u q)" by auto
  let ?F = "\<lambda>i. i\<lparr>tq_delayed_incoming_queue := DelayedIncomingQueue, tq_immediate_incoming_queue := [],
                    tq_immediate_work_queue_empty := True, tq_reload_flag := False\<rparr>"
  let ?u = "upd q ?F u"
  have u: "task_queues u = task_queues s" "order_counter u = order_counter s" using t(4) by (simp_all add: work_only_def)
  note sub = same_queue_sub(1-4) [OF t(5)] same_queue_sub(1-4) [OF t(6)]
  have "others q s ?u" using t(4) others_trans [OF _ others_simps(1)] by (auto simp: work_only_def)
  then have o: "step_on q s ?u" by (rule step_onI) (simp_all add: u)
  have rep: "wake_rep ?u reg" using work_only_rep [OF t(4)] sched_invD(3) [OF inv] by (simp add: wake_rep_upd)
  have "almost_live (order_counter ?u) (task_queues ?u q) (imm ?u q) (del ?u q) (reg q)"
    using liveD [OF l] by (simp add: almost_live_def u sub wake_ok_def orders_ok_def mirror_ok_def)
      (simp add: delayed_ok_def DelayedIncomingQueue_def)
  from wake_up_step [OF inv o _ rep this, of "td_now (time_domains u d)"] t(3) show ?thesis
    using t(1,2) wq d by (auto simp: tq_DeletePendingTasks_def u tasks_of_def pending_immediate_def sub DelayedIncomingQueue_def)
qed

lemma gone_handle:
  assumes "sched_inv s reg" "gone (task_queues s q) (imm s q) (del s q) (reg q)"
  shows "reg q = None" "tq_heap_handle (task_queues s q) = None" "wq_heap_handle (imm s q) = None" "wq_heap_handle (del s q) = None"
    "ready (imm s q) = None" "ready (del s q) = None"
proof -
  show r: "reg q = None" and rd: "ready (imm s q) = None" "ready (del s q) = None" using assms(2) by (simp_all add: gone_def ready_None)
  show "tq_heap_handle (task_queues s q) = None"
    using r sched_invD(3) [OF assms(1)] heaps_repD(3) [of s reg q] by (simp add: wake_rep_def)
  show "wq_heap_handle (imm s q) = None" "wq_heap_handle (del s q) = None"
    using rd work_okD(3) [OF sched_invD(1) [OF assms(1)]] by blast+
qed

lemma work_ok_reset:
  fixes s :: scheduler
  assumes "work_ok s" "ready (queues s w) = None"
  shows "work_ok (set_queue w WorkQueue s)"
proof -
  have "wq_heap_handle (queues s w) = None" using assms work_okD(3) by blast
  moreover have "queue_ok WorkQueue" "ready WorkQueue = None" by (simp_all add: WorkQueue_def queue_ok_def ready_def)
  ultimately show ?thesis using assms by (intro work_ok_silent) (simp_all add: WorkQueue_def)
qed

lemma create_queue_ok:
  assumes inv: "sched_inv s reg" and new: "gone (task_queues s q) (imm s q) (del s q) (reg q)"
  shows "\<exists>t s'. TaskQueueImpl q d False s = Some t \<and> selector_AddQueue (tq_is_enabled (task_queues t q)) q t = Some s' \<and> sched_inv s' reg \<and> others q s s'
    \<and> tasks_of s' q = ([], [], []) \<and> tq_work_queues (task_queues s' q) \<and> tq_time_domain (task_queues s' q) = Some d"
proof -
  note h = gone_handle [OF inv new]
  have ok: "work_ok s" using sched_invD(1) [OF inv] .
  let ?s = "set_queue (q, kImmediate) WorkQueue (set_queue (q, kDelayed) WorkQueue s)"
  let ?t = "upd q (\<lambda>_. new_task_queue_impl d False) ?s"
  let ?u = "upd q (mirrored ?t q) ?t"
  have okd: "work_ok (set_queue (q, kDelayed) WorkQueue s)" using work_ok_reset [OF ok h(6)] .
  have ok': "work_ok ?u" using work_ok_reset [OF okd, of "(q, kImmediate)"] h(5) by simp
  have t: "TaskQueueImpl q d False s = Some ?u" by (simp add: TaskQueueImpl_def) (simp add: new_task_queue_impl_def)
  have iu: "task_queues ?u q = (new_task_queue_impl d False)\<lparr>tq_immediate_work_queue_empty := True, tq_should_schedule_work := True, tq_queue_set_index := 0\<rparr>"
    by (simp add: mirrored_def WorkQueue_def) (simp add: new_task_queue_impl_def enqueue_order_none_def)
  have rep: "wake_rep ?u reg"
  proof -
    have "wake_rep ?u reg = wake_rep s reg" by (rule wake_rep_cong) (use h(2) in \<open>simp_all add: mirrored_def new_task_queue_impl_def\<close>)
    then show ?thesis using sched_invD(3) [OF inv] by simp
  qed
  have o: "others q s ?u"
    using others_trans [OF others_simps(4) others_trans [OF others_simps(4) others_trans [OF others_simps(1) others_simps(1)]]] .
  from AddQueueImpl_ok [OF ok', of q kNormalPriority] obtain v where
    v: "AddQueueImpl q kNormalPriority ?u = Some v" "work_ok v" "work_only q ?u v"
      "same_queue (WorkQueue\<lparr>wq_sets := Some immediate_sets, wq_set_index := kNormalPriority\<rparr>) (imm v q)"
      "same_queue (WorkQueue\<lparr>wq_sets := Some delayed_sets, wq_set_index := kNormalPriority\<rparr>) (del v q)"
    by (auto simp: WorkQueue_def)
  note sub = same_queue_sub(1-4) [OF v(4)] same_queue_sub(1-4) [OF v(5)]
  have tv: "task_queues v = task_queues ?u" "order_counter v = order_counter s" using v(3) by (simp_all add: work_only_def)
  have ov: "others q s v" using others_trans [OF o] v(3) by (simp add: work_only_def)
  have two: "2 \<le> order_counter s" using sched_invD(2) [OF inv] by (simp add: env_ok_def)
  have "live (order_counter s) (task_queues v q) (imm v q) (del v q) (reg q)"
    unfolding tv iu h(1) live_def sub wake_ok_def
    using two by (simp add: new_task_queue_impl_def WorkQueue_def domain_ok_def orders_ok_def mirror_ok_def fence_ok_def assigned_ok_def
        delayed_ok_def DelayedIncomingQueue_def linked_def next_wake_up_def enqueue_order_none_def)
  then have "sched_inv v reg" using sched_inv_step [OF inv ov v(2)] work_only_rep [OF v(3)] rep tv by (simp add: queue_inv_def)
  moreover have "selector_AddQueue (tq_is_enabled (task_queues ?u q)) q ?u = Some v"
    unfolding iu selector_AddQueue_def using v(1) by (simp add: new_task_queue_impl_def)
  moreover have "tasks_of v q = ([], [], [])" "tq_work_queues (task_queues v q)" "tq_time_domain (task_queues v q) = Some d"
    unfolding tasks_of_def pending_immediate_def tv iu sub by (simp_all add: new_task_queue_impl_def WorkQueue_def DelayedIncomingQueue_def)
  ultimately show ?thesis using t ov by blast
qed

lemma destroy_queue_ok:
  assumes inv: "sched_inv s reg" and wq: "tq_work_queues (task_queues s q)"
  shows "\<exists>t s'. selector_RemoveQueue (tq_is_enabled (task_queues s q)) q s = Some t \<and> UnregisterTaskQueue q t = Some s' \<and> sched_inv s' (reg(q := None))
    \<and> others q s s' \<and> \<not> tq_work_queues (task_queues s' q) \<and> tq_unregistered (task_queues s' q) \<and> tasks_of s' q = ([], [], [])"
proof -
  note l = sched_invD(5) [OF inv wq]
  let ?i = "task_queues s q"
  obtain d where d: "tq_time_domain ?i = Some d" using liveD(1) [OF l] by (auto simp: domain_ok_def)
  obtain t where t: "selector_RemoveQueue (tq_is_enabled ?i) q s = Some t" "work_ok t" "work_only q s t"
    "wq_sets (imm t q) = None" "wq_sets (del t q) = None"
  proof (cases "tq_is_enabled ?i")
    case True
    with RemoveQueueImpl_ok [OF sched_invD(1) [OF inv], of q] liveD(5) [OF l] that show ?thesis
      by (auto simp: selector_RemoveQueue_def assigned_ok_def dest!: same_queue_sub(2))
  next
    case False
    then show ?thesis using that [of s] sched_invD(1) [OF inv] liveD(5) [OF l] by (simp add: selector_RemoveQueue_def assigned_ok_def work_only_def)
  qed
  have tt: "task_queues t = task_queues s" using t(3) by (simp add: work_only_def)
  let ?F = "\<lambda>i. i\<lparr>tq_unregistered := True, tq_any_time_domain := None, tq_immediate_incoming_queue := []\<rparr>"
  let ?G = "\<lambda>i. i\<lparr>tq_time_domain := None, tq_observer := False, tq_reload_flag := False,
      tq_delayed_incoming_queue := DelayedIncomingQueue, tq_work_queues := False\<rparr>"
  have "reg q = None \<or> (\<exists>e. reg q = Some (d, e))" using liveD(7) [OF l] d by (auto simp: wake_ok_def linked_def split: option.splits)
  with UnregisterQueue_ok [of "upd q ?F t" reg q d] sched_invD(3) [OF inv] work_only_rep [OF t(3)] d tt obtain u where
    u: "UnregisterQueue d q (upd q ?F t) = Some u" "wake_rep u (reg(q := None))" "wake_only (upd q ?F t) u" by (auto simp: wake_rep_upd)
  note w = wake_only_others [OF u(3)]
  obtain h where h: "task_queues u q = (?F ?i)\<lparr>tq_heap_handle := h\<rparr>" using w(6) [of q] tt by (auto simp: same_impl_def)
  let ?u = "upd q ?G u"
  let ?d = "set_queue (q, kDelayed) WorkQueue ?u"
  let ?v = "set_queue (q, kImmediate) WorkQueue ?d"
  have rd: "ready (imm ?u q) = None" "ready (del ?u q) = None" using t(4,5) w(2) by (simp_all add: ready_None)
  have "work_ok ?u" using w(8) t(2) by simp
  from work_ok_reset [OF this rd(2)] have okd: "work_ok ?d" .
  have ok: "work_ok ?v" using work_ok_reset [OF okd, of "(q, kImmediate)"] rd(1) by simp
  have run: "UnregisterTaskQueue q t = Some ?v"
    using u(1) d tt t(4,5) w(2) by (simp add: UnregisterTaskQueue_def WorkQueue_delete_def)
  have o: "others q s ?v"
    using others_trans [OF _ others_trans [OF others_simps(1) others_trans [OF w(1) others_trans [OF others_simps(1) others_trans [OF others_simps(4) others_simps(4)]]]]]
      t(3) by (simp add: work_only_def)
  have g: "gone (task_queues ?v q) (imm ?v q) (del ?v q) None" by (simp add: gone_def h WorkQueue_def)
  have "sched_inv ?v (reg(q := None))"
    using sched_inv_step [OF inv o ok, of "reg(q := None)"] u(2) g by (simp add: queue_inv_def wake_rep_upd)
  then show ?thesis using t(1) run o
    by (auto simp: h tasks_of_def pending_immediate_def WorkQueue_def DelayedIncomingQueue_def)
qed

end
