(* ===== verification/Sequence_Manager.thy ===== *)
theory Sequence_Manager
  imports Task_Queue_Steps
begin

text \<open>
  SequenceManagerImpl (base/task/sequence_manager/sequence_manager_impl.h and .cc) with the loop of TimeDomain that
  wakes up queues and RealTimeDomain::DelayTillNextTask.

  The record \<open>sequence_manager\<close> holds the fields of MainThreadOnly around the state of theory \<open>Task_Queue\<close>.  The
  number of a queue or of a time domain is its address: std::set and std::map of pointers are sorted
  lists.  The clock of the controller is that of the real time domain.  The order in which AtomicFlagSet visits the
  flags of the queues is the argument \<open>order\<close>; a flag is cleared when its callback runs.  Observers,
  handlers, task timing, tracing, logging and crash keys are not modelled.
\<close>

section \<open>The state\<close>

record sequence_manager =
  sched :: scheduler
  active_queues :: "nat list"
  queues_to_gracefully_shutdown :: "nat list"
  queues_to_delete :: "nat list"
  registered_time_domains :: "nat list"
  real_time_domain :: nat
  domains_with_manager :: "nat list"
  nesting_depth :: int
  non_nestable_task_queue :: "(closure task \<times> nat \<times> queue_type) list"
  task_execution_stack :: "(closure task \<times> nat) list"
  pending_native_work :: "nat list"
  memory_reclaim_scheduled :: bool
  next_time_to_reclaim_memory :: int

definition kReclaimMemoryInterval :: int where "kReclaimMemoryInterval = 30 * 1000000"

definition set_insert :: "nat \<Rightarrow> nat list \<Rightarrow> nat list" where
  "set_insert x xs = (if x \<in> set xs then xs else insort x xs)"

text \<open>
  \<open>domains_with_manager\<close> lists the time domains whose sequence_manager is set, which stays so when a domain
  is unregistered.
\<close>

definition RegisterTimeDomain :: "nat \<Rightarrow> sequence_manager \<Rightarrow> sequence_manager option" where
  "RegisterTimeDomain d m =
     do { let m = m\<lparr>registered_time_domains := set_insert d (registered_time_domains m)\<rparr>;
          DCHECK (d \<notin> set (domains_with_manager m));
          Some (m\<lparr>domains_with_manager := d # domains_with_manager m\<rparr>) }"

text \<open>The constructor: the settings give the delays of tasks and the selector; the real time domain is number 0.\<close>

definition SequenceManagerImpl :: "bool \<Rightarrow> 64 word \<Rightarrow> int list \<Rightarrow> int list \<Rightarrow> bool \<Rightarrow> int \<Rightarrow> sequence_manager option" where
  "SequenceManagerImpl no_anti_starvation seed cross_thread same_thread add_queue_time now =
     do { next_time \<leftarrow> time_plus Clang now kReclaimMemoryInterval;
          let gone_queue = (new_task_queue_impl 0 False)\<lparr>tq_unregistered := True, tq_work_queues := False, tq_time_domain := None\<rparr>;
          let s = work_state.extend (initial_work_state no_anti_starvation seed)
                    (scheduler.fields (\<lambda>_. gone_queue) (\<lambda>_. \<lparr>td_wake_ups = [], td_high_res = 0, td_now = now\<rparr>)
                       enqueue_order_first (\<lambda>_. False) [] cross_thread same_thread add_queue_time);
          RegisterTimeDomain 0 \<lparr>sched = s, active_queues = [], queues_to_gracefully_shutdown = [], queues_to_delete = [],
            registered_time_domains = [], real_time_domain = 0, domains_with_manager = [], nesting_depth = 0,
            non_nestable_task_queue = [], task_execution_stack = [], pending_native_work = [kBestEffortPriority],
            memory_reclaim_scheduled = False, next_time_to_reclaim_memory = next_time\<rparr> }"

definition UnregisterTimeDomain :: "nat \<Rightarrow> sequence_manager \<Rightarrow> sequence_manager" where
  "UnregisterTimeDomain d m = m\<lparr>registered_time_domains := remove1 d (registered_time_domains m)\<rparr>"

section \<open>Native work\<close>

text \<open>std::multiset::erase of a value removes every element that is equal to it.\<close>

definition OnNativeWorkPending :: "nat \<Rightarrow> sequence_manager \<Rightarrow> sequence_manager" where
  "OnNativeWorkPending priority m = m\<lparr>pending_native_work := insort priority (pending_native_work m)\<rparr>"

definition effective_priority :: "sequence_manager \<Rightarrow> nat option" where
  "effective_priority m = (case pending_native_work m of [] \<Rightarrow> None | p # _ \<Rightarrow> Some p)"

definition NativeWorkHandle_delete :: "nat \<Rightarrow> sequence_manager \<Rightarrow> sequence_manager option" where
  "NativeWorkHandle_delete priority m =
     do { prev_priority \<leftarrow> effective_priority m;
          let m = m\<lparr>pending_native_work := filter (\<lambda>p. p \<noteq> priority) (pending_native_work m)\<rparr>;
          DCHECK (1 \<le> length (pending_native_work m));
          p \<leftarrow> effective_priority m;
          Some (if prev_priority \<noteq> p then m\<lparr>sched := emit ScheduleWork (sched m)\<rparr> else m) }"

definition ShouldRunTaskOfPriority :: "nat \<Rightarrow> sequence_manager \<Rightarrow> bool option" where
  "ShouldRunTaskOfPriority priority m = do { p \<leftarrow> effective_priority m; Some (priority \<le> p) }"

section \<open>Queues\<close>

definition CreateTaskQueueImpl :: "nat \<Rightarrow> nat option \<Rightarrow> bool \<Rightarrow> sequence_manager \<Rightarrow> sequence_manager option" where
  "CreateTaskQueueImpl q spec_time_domain delayed_fence_allowed m =
     do { let d = (case spec_time_domain of Some d \<Rightarrow> d | None \<Rightarrow> real_time_domain m);
          DCHECK (d \<in> set (registered_time_domains m));
          s \<leftarrow> TaskQueueImpl q d delayed_fence_allowed (sched m);
          let m = m\<lparr>active_queues := set_insert q (active_queues m)\<rparr>;
          s \<leftarrow> selector_AddQueue (tq_is_enabled (task_queues s q)) q s;
          Some (m\<lparr>sched := s\<rparr>) }"

definition ShutdownTaskQueueGracefully :: "nat \<Rightarrow> sequence_manager \<Rightarrow> sequence_manager" where
  "ShutdownTaskQueueGracefully q m =
     m\<lparr>queues_to_gracefully_shutdown := set_insert q (queues_to_gracefully_shutdown m)\<rparr>"

definition UnregisterTaskQueueImpl :: "nat \<Rightarrow> sequence_manager \<Rightarrow> sequence_manager option" where
  "UnregisterTaskQueueImpl q m =
     do { s \<leftarrow> selector_RemoveQueue (tq_is_enabled (task_queues (sched m) q)) q (sched m);
          s \<leftarrow> UnregisterTaskQueue q s;
          Some (m\<lparr>sched := s, active_queues := remove1 q (active_queues m), queues_to_delete := set_insert q (queues_to_delete m)\<rparr>) }"

text \<open>The destructor of TaskQueueImpl checks that the queue was unregistered.\<close>

primrec clear_queues_to_delete :: "nat list \<Rightarrow> sequence_manager \<Rightarrow> sequence_manager option" where
  "clear_queues_to_delete [] m = Some (m\<lparr>queues_to_delete := []\<rparr>)"
| "clear_queues_to_delete (q # qs) m =
     do { DCHECK (tq_unregistered (task_queues (sched m) q)); clear_queues_to_delete qs m }"

primrec clean_up_loop :: "nat list \<Rightarrow> sequence_manager \<Rightarrow> sequence_manager option" where
  "clean_up_loop [] m = Some m"
| "clean_up_loop (q # qs) m =
     do { e \<leftarrow> tq_IsEmpty q (sched m);
          if e
          then do { m \<leftarrow> UnregisterTaskQueueImpl q m;
                    clean_up_loop qs (m\<lparr>active_queues := remove1 q (active_queues m),
                      queues_to_gracefully_shutdown := remove1 q (queues_to_gracefully_shutdown m)\<rparr>) }
          else clean_up_loop qs m }"

definition CleanUpQueues :: "sequence_manager \<Rightarrow> sequence_manager option" where
  "CleanUpQueues m =
     do { m \<leftarrow> clean_up_loop (queues_to_gracefully_shutdown m) m;
          clear_queues_to_delete (queues_to_delete m) m }"

section \<open>Bringing work queues up to date\<close>

primrec ReloadEmptyWorkQueues :: "nat list \<Rightarrow> scheduler \<Rightarrow> scheduler option" where
  "ReloadEmptyWorkQueues [] s = Some s"
| "ReloadEmptyWorkQueues (q # order) s =
     do { s \<leftarrow> (if tq_reload_flag (task_queues s q) then run_reload_callback q s else Some s);
          ReloadEmptyWorkQueues order s }"

text \<open>
  The loop of a time domain.  A queue whose ready tasks were moved has its wake-up after \<open>lazy_now\<close> or none, so the
  number of wake-ups bounds the iterations.
\<close>

primrec wake_up_loop :: "nat \<Rightarrow> nat \<Rightarrow> int \<Rightarrow> scheduler \<Rightarrow> scheduler option" where
  "wake_up_loop 0 d lazy_now s = None"
| "wake_up_loop (Suc fuel) d lazy_now s =
     (if heap_empty (wake_view s d) then Some s
      else do { e \<leftarrow> heap_top (wake_view s d);
                if wu_time (sw_wake_up e) \<le> lazy_now
                then do { s \<leftarrow> MoveReadyDelayedTasksToWorkQueue (sw_queue e) lazy_now s; wake_up_loop fuel d lazy_now s }
                else Some s })"

definition td_MoveReadyDelayedTasksToWorkQueues :: "nat \<Rightarrow> int \<Rightarrow> scheduler \<Rightarrow> scheduler option" where
  "td_MoveReadyDelayedTasksToWorkQueues d lazy_now s = wake_up_loop (length (td_wake_ups (time_domains s d)) + 1) d lazy_now s"

primrec move_ready_domains :: "nat list \<Rightarrow> nat \<Rightarrow> int \<Rightarrow> scheduler \<Rightarrow> scheduler option" where
  "move_ready_domains [] real lazy_now s = Some s"
| "move_ready_domains (d # ds) real lazy_now s =
     do { s \<leftarrow> td_MoveReadyDelayedTasksToWorkQueues d (if d = real then lazy_now else td_now (time_domains s d)) s;
          move_ready_domains ds real lazy_now s }"

definition sm_MoveReadyDelayedTasksToWorkQueues :: "int \<Rightarrow> sequence_manager \<Rightarrow> sequence_manager option" where
  "sm_MoveReadyDelayedTasksToWorkQueues lazy_now m =
     do { s \<leftarrow> move_ready_domains (registered_time_domains m) (real_time_domain m) lazy_now (sched m);
          Some (m\<lparr>sched := s\<rparr>) }"

section \<open>Selection of the next task\<close>

definition controller_now :: "sequence_manager \<Rightarrow> int" where
  "controller_now m = td_now (time_domains (sched m) (real_time_domain m))"

text \<open>The number of tasks in the work queues and the immediate incoming queues.\<close>

definition backlog :: "sequence_manager \<Rightarrow> nat" where
  "backlog m = sum_list (map (\<lambda>q. length (wq_tasks (imm (sched m) q)) + length (tq_immediate_incoming_queue (task_queues (sched m) q))
     + length (wq_tasks (del (sched m) q))) (active_queues m))"

primrec select_loop :: "nat \<Rightarrow> sequence_manager \<Rightarrow> (closure task option \<times> sequence_manager) option" where
  "select_loop 0 m = None"
| "select_loop (Suc fuel) m =
     do { (work_queue, s) \<leftarrow> SelectWorkQueueToService (sched m);
          let m = m\<lparr>sched := s\<rparr>;
          case work_queue of
            None \<Rightarrow> Some (None, m)
          | Some w \<Rightarrow>
              do { (removed, s) \<leftarrow> RemoveAllCanceledTasksFromFront w (sched m);
                   let m = m\<lparr>sched := s\<rparr>;
                   if removed then select_loop fuel m
                   else do {
                     front_task \<leftarrow> GetFrontTask (queues (sched m) w);
                     if \<not> nestable front_task \<and> 0 < nesting_depth m
                     then do { (t, s) \<leftarrow> TakeTaskFromWorkQueue w (sched m);
                               select_loop fuel (m\<lparr>sched := s,
                                 non_nestable_task_queue := non_nestable_task_queue m @ [(t, fst w, snd w)]\<rparr>) }
                     else do {
                       priority \<leftarrow> GetQueuePriority (fst w) (sched m);
                       run \<leftarrow> ShouldRunTaskOfPriority priority m;
                       if \<not> run then Some (None, m)
                       else do { (t, s) \<leftarrow> TakeTaskFromWorkQueue w (sched m);
                                 Some (Some t, m\<lparr>sched := s, task_execution_stack := task_execution_stack m @ [(t, fst w)]\<rparr>) } } } } }"

text \<open>
  Every iteration takes a task away or is the last, so the backlog bounds the iterations.  The time is sampled
  if the real time domain has a wake-up.
\<close>

definition SelectNextTaskImpl :: "nat list \<Rightarrow> sequence_manager \<Rightarrow> (closure task option \<times> sequence_manager) option" where
  "SelectNextTaskImpl order m =
     do { s \<leftarrow> ReloadEmptyWorkQueues order (sched m);
          let m = m\<lparr>sched := s\<rparr>;
          let lazy_now = controller_now m;
          let has_value = (real_time_domain m \<in> set (registered_time_domains m)
                           \<and> \<not> heap_empty (wake_view (sched m) (real_time_domain m)));
          m \<leftarrow> sm_MoveReadyDelayedTasksToWorkQueues lazy_now m;
          let m = (if has_value \<and> next_time_to_reclaim_memory m \<le> lazy_now then m\<lparr>memory_reclaim_scheduled := True\<rparr> else m);
          select_loop (backlog m + 1) m }"

text \<open>Running the task: a callback of the client may do anything, which is a sequence of further calls.\<close>

definition run_task :: "sequence_manager \<Rightarrow> sequence_manager option" where
  "run_task m =
     do { DCHECK (task_execution_stack m \<noteq> []);
          let (t, q) = last (task_execution_stack m);
          c \<leftarrow> callback t;
          case c of
            Client _ \<Rightarrow> Some m
          | ScheduleDelayedWorkTask u \<Rightarrow> do { s \<leftarrow> run_ScheduleDelayedWorkTask q u (sched m); Some (m\<lparr>sched := s\<rparr>) } }"

text \<open>The part of ThreadControllerWithMessagePumpImpl::DoWorkImpl that takes a task and starts it.\<close>

definition StartTask :: "nat list \<Rightarrow> sequence_manager \<Rightarrow> (closure task option \<times> sequence_manager) option" where
  "StartTask order m =
     do { (task, m) \<leftarrow> SelectNextTaskImpl order m;
          case task of
            None \<Rightarrow> Some (None, m)
          | Some t \<Rightarrow> do { m \<leftarrow> run_task m; Some (Some t, m) } }"

definition DidRunTask :: "sequence_manager \<Rightarrow> sequence_manager option" where
  "DidRunTask m =
     do { DCHECK (task_execution_stack m \<noteq> []);
          let m = m\<lparr>task_execution_stack := butlast (task_execution_stack m)\<rparr>;
          if nesting_depth m = 0 then CleanUpQueues m else Some m }"

section \<open>Nested run loops\<close>

definition OnBeginNestedRunLoop :: "sequence_manager \<Rightarrow> sequence_manager" where
  "OnBeginNestedRunLoop m = m\<lparr>nesting_depth := nesting_depth m + 1\<rparr>"

primrec requeue_all :: "(closure task \<times> nat \<times> queue_type) list \<Rightarrow> scheduler \<Rightarrow> scheduler option" where
  "requeue_all [] s = Some s"
| "requeue_all (x # xs) s =
     do { s \<leftarrow> RequeueDeferredNonNestableTask (fst (snd x)) (snd (snd x)) (fst x) s; requeue_all xs s }"

definition OnExitNestedRunLoop :: "sequence_manager \<Rightarrow> sequence_manager option" where
  "OnExitNestedRunLoop m =
     do { let m = m\<lparr>nesting_depth := nesting_depth m - 1\<rparr>;
          DCHECK (0 \<le> nesting_depth m);
          if nesting_depth m = 0
          then do { s \<leftarrow> requeue_all (rev (non_nestable_task_queue m)) (sched m);
                    Some (m\<lparr>sched := s, non_nestable_task_queue := []\<rparr>) }
          else Some m }"

section \<open>Delay until the next task\<close>

definition real_DelayTillNextTask :: "nat \<Rightarrow> int \<Rightarrow> scheduler \<Rightarrow> int option option" where
  "real_DelayTillNextTask d lazy_now s =
     do { next_run_time \<leftarrow> NextScheduledRunTime d s;
          case next_run_time of
            None \<Rightarrow> Some None
          | Some t \<Rightarrow> if t \<le> lazy_now then Some (Some 0) else do { x \<leftarrow> time_diff t lazy_now; Some (Some x) } }"

text \<open>DelayTillNextTask of the other time domains is the client's; the argument \<open>other\<close> stands for it.\<close>

primrec delay_loop ::
  "(nat \<Rightarrow> int \<Rightarrow> scheduler \<Rightarrow> int option) \<Rightarrow> nat \<Rightarrow> int \<Rightarrow> scheduler \<Rightarrow> nat list \<Rightarrow> int \<Rightarrow> int option" where
  "delay_loop other real lazy_now s [] delay_till_next_task = Some delay_till_next_task"
| "delay_loop other real lazy_now s (d # ds) delay_till_next_task =
     do { delay \<leftarrow> (if d = real then real_DelayTillNextTask d lazy_now s else Some (other d lazy_now s));
          delay_loop other real lazy_now s ds
            (case delay of None \<Rightarrow> delay_till_next_task
             | Some x \<Rightarrow> if x < delay_till_next_task then x else delay_till_next_task) }"

definition GetDelayTillNextDelayedTask :: "(nat \<Rightarrow> int \<Rightarrow> scheduler \<Rightarrow> int option) \<Rightarrow> int \<Rightarrow> sequence_manager \<Rightarrow> int option" where
  "GetDelayTillNextDelayedTask other lazy_now m =
     delay_loop other (real_time_domain m) lazy_now (sched m) (registered_time_domains m) td_Max"

definition DelayTillNextTask ::
  "(nat \<Rightarrow> int \<Rightarrow> scheduler \<Rightarrow> int option) \<Rightarrow> nat list \<Rightarrow> int \<Rightarrow> sequence_manager \<Rightarrow> (int \<times> sequence_manager) option" where
  "DelayTillNextTask other order lazy_now m =
     do { p \<leftarrow> GetHighestPendingPriority (sched m);
          case p of
            Some priority \<Rightarrow>
              do { run \<leftarrow> ShouldRunTaskOfPriority priority m;
                   if \<not> run then do { x \<leftarrow> GetDelayTillNextDelayedTask other lazy_now m; Some (x, m) } else Some (0, m) }
          | None \<Rightarrow>
              do { s \<leftarrow> ReloadEmptyWorkQueues order (sched m);
                   let m = m\<lparr>sched := s\<rparr>;
                   p \<leftarrow> GetHighestPendingPriority (sched m);
                   case p of
                     Some priority \<Rightarrow>
                       do { run \<leftarrow> ShouldRunTaskOfPriority priority m;
                            if \<not> run then do { x \<leftarrow> GetDelayTillNextDelayedTask other lazy_now m; Some (x, m) } else Some (0, m) }
                   | None \<Rightarrow> do { x \<leftarrow> GetDelayTillNextDelayedTask other lazy_now m; Some (x, m) } } }"

definition sm_HasPendingHighResolutionTasks :: "sequence_manager \<Rightarrow> bool" where
  "sm_HasPendingHighResolutionTasks m \<longleftrightarrow> list_ex (\<lambda>d. td_HasPendingHighResolutionTasks d (sched m)) (registered_time_domains m)"

section \<open>Housekeeping\<close>

definition RemoveAllCanceledTasks_both :: "nat \<Rightarrow> scheduler \<Rightarrow> scheduler option" where
  "RemoveAllCanceledTasks_both q s =
     do { work_queues_of q s;
          (_, s) \<leftarrow> RemoveAllCanceledTasksFromFront (q, kDelayed) s;
          (_, s) \<leftarrow> RemoveAllCanceledTasksFromFront (q, kImmediate) s;
          Some s }"

text \<open>The times of the domains do not change while memory is reclaimed.\<close>

definition ReclaimMemoryFromQueue :: "nat \<Rightarrow> scheduler \<Rightarrow> scheduler option" where
  "ReclaimMemoryFromQueue q s =
     do { d \<leftarrow> tq_time_domain (task_queues s q);
          s \<leftarrow> ReclaimMemory q (td_now (time_domains s d)) s;
          RemoveAllCanceledTasks_both q s }"

primrec each_queue :: "(nat \<Rightarrow> scheduler \<Rightarrow> scheduler option) \<Rightarrow> nat list \<Rightarrow> scheduler \<Rightarrow> scheduler option" where
  "each_queue f [] s = Some s"
| "each_queue f (q # qs) s = do { s \<leftarrow> f q s; each_queue f qs s }"

definition sm_ReclaimMemory :: "sequence_manager \<Rightarrow> sequence_manager option" where
  "sm_ReclaimMemory m =
     do { s \<leftarrow> each_queue ReclaimMemoryFromQueue (active_queues m) (sched m);
          s \<leftarrow> each_queue ReclaimMemoryFromQueue (queues_to_gracefully_shutdown m) s;
          Some (m\<lparr>sched := s\<rparr>) }"

definition MaybeReclaimMemory :: "sequence_manager \<Rightarrow> sequence_manager option" where
  "MaybeReclaimMemory m =
     (if \<not> memory_reclaim_scheduled m then Some m
      else do { m \<leftarrow> sm_ReclaimMemory m;
                t \<leftarrow> time_plus Clang (controller_now m) kReclaimMemoryInterval;
                Some (m\<lparr>next_time_to_reclaim_memory := t, memory_reclaim_scheduled := False\<rparr>) })"

definition RemoveAllCanceledTasksFromFrontOfWorkQueues :: "sequence_manager \<Rightarrow> sequence_manager option" where
  "RemoveAllCanceledTasksFromFrontOfWorkQueues m =
     do { s \<leftarrow> each_queue RemoveAllCanceledTasks_both (active_queues m) (sched m); Some (m\<lparr>sched := s\<rparr>) }"

definition sm_DeletePendingTasks :: "sequence_manager \<Rightarrow> sequence_manager option" where
  "sm_DeletePendingTasks m =
     do { DCHECK (task_execution_stack m = []);
          s \<leftarrow> each_queue tq_DeletePendingTasks (active_queues m) (sched m);
          s \<leftarrow> each_queue tq_DeletePendingTasks (queues_to_gracefully_shutdown m) s;
          s \<leftarrow> each_queue tq_DeletePendingTasks (queues_to_delete m) s;
          Some (m\<lparr>sched := s\<rparr>) }"

primrec any_queue :: "(nat \<Rightarrow> scheduler \<Rightarrow> bool option) \<Rightarrow> nat list \<Rightarrow> scheduler \<Rightarrow> bool option" where
  "any_queue f [] s = Some False"
| "any_queue f (q # qs) s = do { b \<leftarrow> f q s; if b then Some True else any_queue f qs s }"

definition sm_HasTasks :: "sequence_manager \<Rightarrow> (bool \<times> sequence_manager) option" where
  "sm_HasTasks m =
     do { m \<leftarrow> RemoveAllCanceledTasksFromFrontOfWorkQueues m;
          b \<leftarrow> any_queue HasTasks (active_queues m @ queues_to_gracefully_shutdown m @ queues_to_delete m) (sched m);
          Some (b, m) }"

definition IsIdleForTesting :: "nat list \<Rightarrow> sequence_manager \<Rightarrow> (bool \<times> sequence_manager) option" where
  "IsIdleForTesting order m =
     do { s \<leftarrow> ReloadEmptyWorkQueues order (sched m);
          m \<leftarrow> RemoveAllCanceledTasksFromFrontOfWorkQueues (m\<lparr>sched := s\<rparr>);
          p \<leftarrow> GetHighestPendingPriority (sched m);
          Some (p = None, m) }"

primrec count_tasks :: "nat list \<Rightarrow> scheduler \<Rightarrow> nat \<Rightarrow> nat option" where
  "count_tasks [] s acc = Some acc"
| "count_tasks (q # qs) s acc = do { n \<leftarrow> GetNumberOfPendingTasks q s; count_tasks qs s (acc + n) }"

definition GetPendingTaskCountForTesting :: "sequence_manager \<Rightarrow> nat option" where
  "GetPendingTaskCountForTesting m = count_tasks (active_queues m) (sched m) 0"

end
