(* ===== verification/Sequence_Manager_Steps.thy ===== *)
theory Sequence_Manager_Steps
  imports Sequence_Manager
begin

text \<open>
  The invariant of the sequence manager, and that its calls return and keep it.  The calls are a datatype;
  the states that sequences of allowed calls reach are those of the program.
\<close>

section \<open>What steps of queues do to tasks\<close>

text \<open>
  A task has a callback and a time of int64_t that is not negative; a delayed task in the callback of another one
  has not got its enqueue order yet.
\<close>

definition time_ok :: "int \<Rightarrow> bool" where
  "time_ok t \<longleftrightarrow> 0 \<le> t \<and> t \<le> limit_max int64_t"

definition task_ok :: "closure task \<Rightarrow> bool" where
  "task_ok t \<longleftrightarrow>
     time_ok (delayed_run_time t)
     \<and> (case callback t of
          None \<Rightarrow> False
        | Some (Client _) \<Rightarrow> True
        | Some (ScheduleDelayedWorkTask u) \<Rightarrow>
            callback u \<noteq> None \<and> enqueue_order_set_to u = 0 \<and> time_ok (delayed_run_time u) \<and> seq_num_ok (sequence_num u))"

definition delayed_tasks :: "scheduler \<Rightarrow> nat \<Rightarrow> closure task list" where
  "delayed_tasks s q = dq_tasks (tq_delayed_incoming_queue (task_queues s q))"

definition work_tasks :: "scheduler \<Rightarrow> nat \<Rightarrow> queue_type \<Rightarrow> closure task list" where
  "work_tasks s q ty = (if ty = kImmediate then pending_immediate s q else wq_tasks (del s q))"

definition tasks_ok :: "scheduler \<Rightarrow> bool" where
  "tasks_ok s \<longleftrightarrow> (\<forall>q. (\<forall>ty. \<forall>t \<in> set (work_tasks s q ty). task_ok t) \<and> (\<forall>t \<in> set (delayed_tasks s q). task_ok t))"

text \<open>New tasks have new enqueue orders.\<close>

definition evolves :: "scheduler \<Rightarrow> scheduler \<Rightarrow> bool" where
  "evolves s s' \<longleftrightarrow>
     order_counter s \<le> order_counter s' \<and> tasks_ok s'
     \<and> (\<forall>q ty. \<forall>k \<in> set (task_orders (work_tasks s' q ty)). k \<in> set (task_orders (work_tasks s q ty)) \<or> order_counter s \<le> k)"

definition same_owners :: "scheduler \<Rightarrow> scheduler \<Rightarrow> bool" where
  "same_owners s s' \<longleftrightarrow>
     (\<forall>q. tq_work_queues (task_queues s' q) = tq_work_queues (task_queues s q) \<and> tq_time_domain (task_queues s' q) = tq_time_domain (task_queues s q))"

definition runs :: "scheduler \<Rightarrow> scheduler \<Rightarrow> bool" where
  "runs s s' \<longleftrightarrow>
     sched_ok s' \<and> evolves s s' \<and> same_owners s s' \<and> (\<forall>d. td_now (time_domains s' d) = td_now (time_domains s d))
     \<and> is_cancelled s' = is_cancelled s"

text \<open>
  The jobs of a queue: the callbacks of the client that its tasks run now or later, without the cancelled ones.
\<close>

definition job :: "closure task \<Rightarrow> nat" where
  "job t = (case callback t of Some (Client n) \<Rightarrow> n | Some (ScheduleDelayedWorkTask u) \<Rightarrow> the (callback u) | None \<Rightarrow> 0)"

definition jobs_in :: "(nat \<Rightarrow> bool) \<Rightarrow> closure task list \<Rightarrow> nat multiset" where
  "jobs_in canc ts = filter_mset (\<lambda>n. \<not> canc n) (mset (map job ts))"

definition jobs :: "scheduler \<Rightarrow> nat \<Rightarrow> nat multiset" where
  "jobs s q = jobs_in (is_cancelled s) (work_tasks s q kImmediate @ work_tasks s q kDelayed @ delayed_tasks s q)"

definition task_count :: "scheduler \<Rightarrow> nat \<Rightarrow> nat" where
  "task_count s q = length (work_tasks s q kImmediate) + length (work_tasks s q kDelayed) + length (delayed_tasks s q)"

definition keeps :: "scheduler \<Rightarrow> scheduler \<Rightarrow> bool" where
  "keeps s s' \<longleftrightarrow> runs s s' \<and> (\<forall>q. jobs s' q = jobs s q \<and> task_count s' q \<le> task_count s q)"

lemma jobs_in_simps [simp]:
  "jobs_in canc [] = {#}" "jobs_in canc (ts @ us) = jobs_in canc ts + jobs_in canc us"
  "jobs_in canc (t # ts) = (if canc (job t) then {#} else {#job t#}) + jobs_in canc ts"
  by (auto simp: jobs_in_def)

lemma tasks_of_eq: "tasks_of s q = (work_tasks s q kImmediate, work_tasks s q kDelayed, delayed_tasks s q)"
  by (simp add: tasks_of_def work_tasks_def delayed_tasks_def)

lemma others_tasks:
  assumes "others q s s'" "p \<noteq> q"
  shows "work_tasks s' p ty = work_tasks s p ty" "delayed_tasks s' p = delayed_tasks s p"
proof -
  have same: "same_impl (task_queues s p) (task_queues s' p)" "same_queue (imm s p) (imm s' p)" "same_queue (del s p) (del s' p)"
    using assms by (simp_all add: others_def)
  show "work_tasks s' p ty = work_tasks s p ty" "delayed_tasks s' p = delayed_tasks s p"
    using same_queue_sub(1) [OF same(2)] same_queue_sub(1) [OF same(3)] same(1)
    by (auto simp: work_tasks_def pending_immediate_def delayed_tasks_def same_impl_def)
qed

lemma runs_refl: "sched_ok s \<Longrightarrow> tasks_ok s \<Longrightarrow> runs s s"
  by (simp add: runs_def evolves_def same_owners_def)

lemma evolves_trans:
  assumes "evolves s t" "evolves t u"
  shows "evolves s u"
  unfolding evolves_def
proof (intro conjI allI ballI)
  show "order_counter s \<le> order_counter u" "tasks_ok u" using assms by (auto simp: evolves_def)
  fix q ty k assume "k \<in> set (task_orders (work_tasks u q ty))"
  then have "k \<in> set (task_orders (work_tasks t q ty)) \<or> order_counter t \<le> k" using assms(2) unfolding evolves_def by blast
  then show "k \<in> set (task_orders (work_tasks s q ty)) \<or> order_counter s \<le> k" using assms(1) le_trans unfolding evolves_def by blast
qed

lemma runs_trans: "runs s t \<Longrightarrow> runs t u \<Longrightarrow> runs s u"
  unfolding runs_def same_owners_def by (auto intro: evolves_trans)

lemma runsD:
  assumes "runs s s'"
  shows "sched_ok s'" "tasks_ok s'" "evolves s s'" "tq_work_queues (task_queues s' q) = tq_work_queues (task_queues s q)"
    "tq_time_domain (task_queues s' q) = tq_time_domain (task_queues s q)" "td_now (time_domains s' d) = td_now (time_domains s d)"
    "is_cancelled s' = is_cancelled s"
  using assms by (simp_all add: runs_def evolves_def same_owners_def)

text \<open>The tasks that a step may leave in a queue.\<close>

definition fresh :: "scheduler \<Rightarrow> closure task list \<Rightarrow> closure task list \<Rightarrow> bool" where
  "fresh s old new \<longleftrightarrow> (\<forall>t \<in> set new. t \<in> set old \<or> task_ok t \<and> order_counter s \<le> enqueue_order_set_to t)"

lemma fresh_simps [simp]: "fresh s ts ts" "fresh s ts []" "set us \<subseteq> set ts \<Longrightarrow> fresh s ts us"
  by (auto simp: fresh_def)

lemma evolvesI:
  assumes ok: "tasks_ok s" and oth: "others q s s'" and t: "tasks_of s' q = (a, b, c)"
    and a: "fresh s (work_tasks s q kImmediate) a" and b: "fresh s (work_tasks s q kDelayed) b"
    and c: "\<forall>t \<in> set c. t \<in> set (delayed_tasks s q) \<or> task_ok t"
  shows "evolves s s'"
proof -
  have q: "work_tasks s' q kImmediate = a" "work_tasks s' q kDelayed = b" "delayed_tasks s' q = c" using t by (simp_all add: tasks_of_eq)
  have w: "fresh s (work_tasks s p ty) (work_tasks s' p ty)" for p ty
    using others_tasks(1) [OF oth, of p ty] q a b by (cases "p = q"; cases ty) auto
  have d: "\<forall>t \<in> set (delayed_tasks s' p). t \<in> set (delayed_tasks s p) \<or> task_ok t" for p
    using others_tasks(2) [OF oth, of p] q(3) c by (cases "p = q") auto
  have "order_counter s \<le> order_counter s'" using oth by (simp add: others_def)
  moreover have "tasks_ok s'" using ok w d unfolding tasks_ok_def fresh_def by blast
  moreover have "k \<in> set (task_orders (work_tasks s p ty)) \<or> order_counter s \<le> k" if "k \<in> set (task_orders (work_tasks s' p ty))" for p ty k
    using w [of p ty] that by (auto simp: fresh_def)
  ultimately show ?thesis by (simp add: evolves_def)
qed

lemma runsI:
  assumes inv: "sched_inv s' reg" and ok: "tasks_ok s" and st: "step_on q s s'" and t: "tasks_of s' q = (a, b, c)"
    and fr: "fresh s (work_tasks s q kImmediate) a" "fresh s (work_tasks s q kDelayed) b" "\<forall>t \<in> set c. t \<in> set (delayed_tasks s q) \<or> task_ok t"
  shows "runs s s'"
proof -
  have o: "others q s s'" using step_onD [OF st] .
  have "tq_work_queues (task_queues s' p) = tq_work_queues (task_queues s p) \<and> tq_time_domain (task_queues s' p) = tq_time_domain (task_queues s p)" for p
    using st o by (cases "p = q") (auto simp: step_on_def others_def same_impl_def)
  then show ?thesis
    using inv evolvesI [OF ok o t fr] o by (auto simp: runs_def same_owners_def sched_ok_def others_def)
qed

lemma jobs_others:
  assumes "others q s s'" "p \<noteq> q"
  shows "jobs s' p = jobs s p" "task_count s' p = task_count s p"
  using others_tasks [OF assms] assms(1) by (simp_all add: jobs_def others_def task_count_def)

lemma keepsI: "runs s s' \<Longrightarrow> others q s s' \<Longrightarrow> jobs s' q = jobs s q \<Longrightarrow> task_count s' q \<le> task_count s q \<Longrightarrow> keeps s s'"
  unfolding keeps_def using jobs_others by (metis order_refl)

lemma keepsD: "keeps s s' \<Longrightarrow> runs s s'" "keeps s s' \<Longrightarrow> jobs s' q = jobs s q" "keeps s s' \<Longrightarrow> task_count s' q \<le> task_count s q"
  by (simp_all add: keeps_def)

lemma keeps_refl: "sched_ok s \<Longrightarrow> tasks_ok s \<Longrightarrow> keeps s s"
  by (simp add: keeps_def runs_refl)

lemma keeps_trans: "keeps s t \<Longrightarrow> keeps t u \<Longrightarrow> keeps s u"
  unfolding keeps_def using runs_trans le_trans by (metis (no_types, lifting))

lemma keeps_same_tasks:
  assumes "sched_inv s' reg" "tasks_ok s" "step_on q s s'" "tasks_of s' q = tasks_of s q"
  shows "keeps s s'"
proof (rule keepsI)
  show "runs s s'"
    using runsI [OF assms(1-3), of "work_tasks s q kImmediate" "work_tasks s q kDelayed" "delayed_tasks s q"] assms(4) by (simp add: tasks_of_eq)
  show o: "others q s s'" using step_onD [OF assms(3)] .
  show "jobs s' q = jobs s q" "task_count s' q \<le> task_count s q"
    using assms(4) o by (simp_all add: tasks_of_eq jobs_def others_def task_count_def)
qed

section \<open>The calls of a queue\<close>

lemma sched_okE:
  assumes "sched_ok s"
  obtains reg where "sched_inv s reg"
  using assms by (auto simp: sched_ok_def)

lemma fence_keeps:
  assumes "sched_ok s" "tasks_ok s" "tq_work_queues (task_queues s q)"
  shows "\<exists>s'. tq_InsertFence q position s = Some s' \<and> keeps s s'" "\<exists>s'. tq_RemoveFence q s = Some s' \<and> keeps s s'"
proof -
  obtain reg where inv: "sched_inv s reg" by (rule sched_okE [OF assms(1)])
  show "\<exists>s'. tq_InsertFence q position s = Some s' \<and> keeps s s'"
    using tq_InsertFence_ok [OF inv assms(3)] keeps_same_tasks [OF _ assms(2)] by metis
  show "\<exists>s'. tq_RemoveFence q s = Some s' \<and> keeps s s'"
    using tq_RemoveFence_ok [OF inv assms(3)] keeps_same_tasks [OF _ assms(2)] by metis
qed

lemma priority_keeps:
  assumes "sched_ok s" "tasks_ok s" "tq_work_queues (task_queues s q)"
  shows "p < kQueuePriorityCount \<Longrightarrow> \<exists>s'. tq_SetQueuePriority q p s = Some s' \<and> keeps s s'"
    "\<exists>s'. SetQueueEnabled q e s = Some s' \<and> keeps s s'"
    "e \<longrightarrow> \<not> tq_observer (task_queues s q) \<Longrightarrow> \<exists>s'. SetObserver q e s = Some s' \<and> keeps s s'"
    "keeps s (SetShouldReportPostedTasksWhenDisabled tr q e s)"
proof -
  obtain reg where inv: "sched_inv s reg" by (rule sched_okE [OF assms(1)])
  show "\<exists>s'. tq_SetQueuePriority q p s = Some s' \<and> keeps s s'" if "p < kQueuePriorityCount"
    using tq_SetQueuePriority_ok [OF inv assms(3) that] keeps_same_tasks [OF _ assms(2)] by metis
  show "\<exists>s'. SetQueueEnabled q e s = Some s' \<and> keeps s s'"
    using SetQueueEnabled_ok [OF inv assms(3)] keeps_same_tasks [OF _ assms(2)] by metis
  show "\<exists>s'. SetObserver q e s = Some s' \<and> keeps s s'" if "e \<longrightarrow> \<not> tq_observer (task_queues s q)"
    using SetObserver_ok [OF inv assms(3) that] keeps_same_tasks [OF _ assms(2)] by metis
  show "keeps s (SetShouldReportPostedTasksWhenDisabled tr q e s)"
    using SetShouldReport_ok [OF inv assms(3)] keeps_same_tasks [OF _ assms(2)] by metis
qed

lemma queue_now_ok: "sched_inv s reg \<Longrightarrow> time_ok (queue_now q s)"
  using sched_invD(2) by (auto simp: env_ok_def queue_now_def time_ok_def)

lemma deferred_ok_task:
  "pt_callback task \<noteq> None \<Longrightarrow> callback (deferred q task d s) \<noteq> None \<and> enqueue_order_set_to (deferred q task d s) = 0"
  "sched_inv s reg \<Longrightarrow> 0 \<le> d \<Longrightarrow> time_ok (delayed_run_time (deferred q task d s))"
  "sched_inv s reg \<Longrightarrow> time_ok (delayed_run_time (enqueued q u n s))"
  using queue_now_ok by (auto simp: deferred_def enqueued_def Task_def time_ok_def)

lemma jobs_push: "jobs_in canc (priority_push t ts) = jobs_in canc (t # ts)"
  by (induction ts) (auto simp: jobs_in_def)

lemma jobs_posted:
  fixes q task thread d s
  assumes "pt_callback task \<noteq> None"
  defines "T \<equiv> tasks_posted q task thread d s" and "n \<equiv> the (pt_callback task)"
  shows "jobs_in canc (fst T @ fst (snd T) @ snd (snd T)) =
    jobs_in canc (work_tasks s q kImmediate @ work_tasks s q kDelayed @ delayed_tasks s q) + (if canc n then {#} else {#n#})"
  using assms(1) unfolding T_def n_def
  by (auto simp: tasks_posted_def work_tasks_def delayed_tasks_def Let_def jobs_push job_def enqueued_def deferred_def Task_def of_client_def
      client_task_def split: current_thread.split)

lemma PostTask_runs:
  assumes "sched_ok s" "tasks_ok s" "tq_work_queues (task_queues s q)" "pt_callback task \<noteq> None" "0 \<le> pt_delay task" "pt_delay task \<le> limit_max int64_t"
    "number_left q task thread s"
  shows "\<exists>s'. PostTask q task thread s = Some s' \<and> runs s s' \<and> (\<forall>p. p \<noteq> q \<longrightarrow> jobs s' p = jobs s p)
    \<and> jobs s' q = jobs s q + (if is_cancelled s (the (pt_callback task)) then {#} else {#the (pt_callback task)#})"
proof -
  obtain reg where inv: "sched_inv s reg" by (rule sched_okE [OF assms(1)])
  let ?d = "adjusted_delay q (pt_delay task) thread s"
  from PostTask_ok [OF inv assms(3-7)] obtain s' r where
    s': "PostTask q task thread s = Some s'" "sched_inv s' (reg(q := r))" "step_on q s s'" "tasks_of s' q = tasks_posted q task thread ?d s" by metis
  have d: "0 \<le> ?d" using MaybeAdjustTaskDelay_ok(2) [OF inv assms(3,5,6)] .
  note times = deferred_ok_task(2) [OF inv d, of q task] deferred_ok_task(3) [OF inv]
  have imm: "task_ok (enqueued q (of_client task) n s)" for n
    using assms(4) times(2) [of q "of_client task" n] by (auto simp: task_ok_def enqueued_def Task_def of_client_def)
  have wrap: "task_ok (enqueued q \<lparr>pt_callback = Some (ScheduleDelayedWorkTask (deferred q task ?d s)), pt_delay = 0, pt_nestable = False\<rparr> n s)"
    if "?d \<noteq> 0" for n
  proof -
    have "seq_num_ok (sequence_num (deferred q task ?d s))"
      using assms(7) that seq_num_of_order by (simp add: number_left_def deferred_def Task_def)
    then show ?thesis using deferred_ok_task(1) [OF assms(4)] times by (simp add: task_ok_def) (simp add: enqueued_def Task_def)
  qed
  have del: "task_ok (client_task (deferred q task ?d s))"
    using deferred_ok_task(1) [OF assms(4), of q ?d s] times(1) by (auto simp: task_ok_def client_task_def)
  have ord: "order_counter s \<le> enqueue_order_set_to (enqueued q u (order_counter s) s)"
    "order_counter s \<le> enqueue_order_set_to (enqueued q u (order_counter s + 1) s)" for u
    by (simp_all add: enqueued_def Task_def)
  let ?T = "tasks_posted q task thread ?d s"
  have "fresh s (work_tasks s q kImmediate) (fst ?T)" "fresh s (work_tasks s q kDelayed) (fst (snd ?T))"
    "\<forall>t \<in> set (snd (snd ?T)). t \<in> set (delayed_tasks s q) \<or> task_ok t"
    using imm wrap del ord by (auto simp: tasks_posted_def fresh_def work_tasks_def delayed_tasks_def Let_def split: current_thread.split)
  then have "runs s s'" using runsI [OF s'(2) assms(2) s'(3), of "fst ?T" "fst (snd ?T)" "snd (snd ?T)"] s'(4) by simp
  moreover have "jobs s' q = jobs s q + (if is_cancelled s (the (pt_callback task)) then {#} else {#the (pt_callback task)#})"
    using jobs_posted [OF assms(4), of "is_cancelled s" q thread ?d s, folded s'(4)] runsD(7) [OF calculation]
    by (simp add: jobs_def tasks_of_eq)
  ultimately show ?thesis using s'(1) jobs_others(1) [OF step_onD [OF s'(3)]] by blast
qed

section \<open>Bringing work queues up to date\<close>

definition calm :: "scheduler \<Rightarrow> scheduler \<Rightarrow> bool" where
  "calm s s' \<longleftrightarrow> keeps s s' \<and> (\<forall>q. tq_reload_flag (task_queues s' q) = tq_reload_flag (task_queues s q))"

lemma calm_trans: "calm s t \<Longrightarrow> calm t u \<Longrightarrow> calm s u"
  unfolding calm_def using keeps_trans by auto

lemma calm_refl: "sched_ok s \<Longrightarrow> tasks_ok s \<Longrightarrow> calm s s"
  by (simp add: calm_def keeps_refl)

lemma calmD: "calm s s' \<Longrightarrow> runs s s'" "calm s s' \<Longrightarrow> jobs s' q = jobs s q" "calm s s' \<Longrightarrow> task_count s' q \<le> task_count s q" "calm s s' \<Longrightarrow> tq_reload_flag (task_queues s' q) = tq_reload_flag (task_queues s q)"
  by (simp_all add: calm_def keeps_def)

lemma flags_on: "calm_on q s s' \<Longrightarrow> tq_reload_flag (task_queues s' p) = tq_reload_flag (task_queues s p)"
  by (cases "p = q") (auto simp: calm_on_def step_on_def others_def same_impl_def)

lemma calmI: "keeps s s' \<Longrightarrow> calm_on q s s' \<Longrightarrow> calm s s'"
  using flags_on by (auto simp: calm_def)

lemma dropped_job: "dropped canc t \<Longrightarrow> task_ok t \<Longrightarrow> canc (job t)"
  by (auto simp: dropped_def task_ok_def job_def split: option.splits closure.splits)

lemma jobs_none: "\<forall>t \<in> set ts. canc (job t) \<Longrightarrow> jobs_in canc ts = {#}"
  by (induction ts) simp_all

lemma jobs_stamped [simp]: "jobs_in canc (stamped n ts) = jobs_in canc ts"
  by (induction ts arbitrary: n) (simp_all add: job_def)

lemma jobs_move_ready:
  "\<forall>t \<in> set ts. task_ok t \<Longrightarrow> jobs_in canc (fst (move_ready canc now ts)) + jobs_in canc (snd (move_ready canc now ts)) = jobs_in canc ts"
  by (induction ts) (auto simp: Let_def case_prod_beta dest: dropped_job)

lemma count_move_ready: "length (fst (move_ready canc now ts)) + length (snd (move_ready canc now ts)) \<le> length ts"
  by (induction ts) (auto simp: Let_def case_prod_beta)

lemma stamped_length [simp]: "length (stamped n ts) = length ts"
  by (induction ts arbitrary: n) simp_all

lemma move_ready_rest:
  "suffix (snd (move_ready canc now ts)) ts" "set (fst (move_ready canc now ts)) \<subseteq> set ts"
  "snd (move_ready canc now ts) = [] \<or> now < delayed_run_time (hd (snd (move_ready canc now ts)))"
  by (induction ts) (auto simp: Let_def case_prod_beta suffix_Cons)

lemma not_due_rest:
  assumes "sorted (map run_key ts)" "t \<in> set (snd (move_ready canc now ts))"
  shows "now < delayed_run_time t"
proof -
  obtain zs where zs: "ts = zs @ snd (move_ready canc now ts)" using move_ready_rest(1) [of canc now ts] by (auto simp: suffix_def)
  obtain u us where us: "snd (move_ready canc now ts) = u # us" using assms(2) by (cases "snd (move_ready canc now ts)") auto
  have "sorted (map run_key (u # us))" using assms(1) zs us by (metis map_append sorted_append)
  then have "t = u \<or> run_key u \<le> run_key t" using assms(2) us by auto
  then have "delayed_run_time u \<le> delayed_run_time t" by (auto simp: run_key_def)
  then show ?thesis using move_ready_rest(3) [of canc now ts] us by auto
qed

lemma stamped_ok: "t \<in> set (stamped n ts) \<Longrightarrow> \<forall>u \<in> set ts. task_ok u \<Longrightarrow> task_ok t"
  by (induction ts arbitrary: n) (auto simp: task_ok_def)

lemma MoveReady_calm:
  assumes inv: "sched_inv s reg" and ok: "tasks_ok s" and wq: "tq_work_queues (task_queues s q)"
  shows "\<exists>s' r. MoveReadyDelayedTasksToWorkQueue q now s = Some s' \<and> sched_inv s' (reg(q := r)) \<and> calm s s' \<and> others q s s' \<and> told (sel s) (sel s')
    \<and> (\<forall>t \<in> set (delayed_tasks s' q). now < delayed_run_time t)
    \<and> tasks_of s' q = (pending_immediate s q, wq_tasks (del s q) @ stamped (order_counter s) (fst (move_ready (is_cancelled s) now (delayed_tasks s q))),
         snd (move_ready (is_cancelled s) now (delayed_tasks s q)))"
proof -
  let ?dq = "tq_delayed_incoming_queue (task_queues s q)" and ?ts = "delayed_tasks s q"
  let ?m = "move_ready (is_cancelled s) now ?ts"
  have dq: "delayed_ok ?dq" using liveD(6) [OF sched_invD(5) [OF inv wq]] .
  have id: "upd q (\<lambda>i. i\<lparr>tq_delayed_incoming_queue := ?dq\<rparr>) s = s" by (rule upd_idem) simp
  from MoveReadyDelayedTasksToWorkQueue_ok [OF inv wq dq, of now] obtain s' r where
    s': "MoveReadyDelayedTasksToWorkQueue q now s = Some s'" "sched_inv s' (reg(q := r))" "calm_on q s s'" "told (sel s) (sel s')"
      "tasks_of s' q = (pending_immediate s q, wq_tasks (del s q) @ stamped (order_counter s) (fst ?m), snd ?m)"
    unfolding id delayed_tasks_def by metis
  have st: "step_on q s s'" using calm_onD [OF s'(3)] .
  have old: "\<forall>t \<in> set ?ts. task_ok t" using ok by (simp add: tasks_ok_def)
  have "fresh s (work_tasks s q kDelayed) (wq_tasks (del s q) @ stamped (order_counter s) (fst ?m))"
    using old stamped_ok [of _ "order_counter s" "fst ?m"] stamped_in [of _ "order_counter s" "fst ?m"] move_ready_rest(2) [of "is_cancelled s" now ?ts]
    by (fastforce simp: fresh_def work_tasks_def)
  moreover have "\<forall>t \<in> set (snd ?m). t \<in> set ?ts \<or> task_ok t" using set_mono_suffix [OF move_ready_rest(1) [of "is_cancelled s" now ?ts]] by blast
  ultimately have "runs s s'" using runsI [OF s'(2) ok st s'(5)] by (simp add: work_tasks_def)
  moreover have "\<forall>t \<in> set (delayed_tasks s' q). now < delayed_run_time t"
    using s'(5) not_due_rest [of ?ts _ "is_cancelled s" now] dq by (simp add: tasks_of_eq delayed_ok_def delayed_tasks_def)
  moreover have "jobs s' q = jobs s q"
    using s'(5) runsD(7) [OF calculation(1)] jobs_move_ready [OF old] by (simp add: jobs_def tasks_of_eq) (simp add: work_tasks_def add.assoc)
  moreover have "task_count s' q \<le> task_count s q"
    using s'(5) count_move_ready [of "is_cancelled s" now ?ts] by (simp add: task_count_def tasks_of_eq) (simp add: work_tasks_def)
  ultimately show ?thesis using s' calmI keepsI step_onD [OF st] by blast
qed

text \<open>The queues whose wake-up in domain \<open>d\<close> is due.\<close>

definition due_queues :: "(nat \<Rightarrow> (nat \<times> scheduled_wake_up) option) \<Rightarrow> nat \<Rightarrow> int \<Rightarrow> nat set" where
  "due_queues reg d now = {q. \<exists>e. reg q = Some (d, e) \<and> wu_time (sw_wake_up e) \<le> now}"

lemma registered_live:
  assumes "sched_inv s reg" "reg q = Some (d, e)"
  shows "tq_work_queues (task_queues s q)" "tq_time_domain (task_queues s q) = Some d"
    "Some (sw_wake_up e) = next_wake_up (task_queues s q)"
proof -
  have l: "live (order_counter s) (task_queues s q) (imm s q) (del s q) (reg q)"
    using sched_invD(4) [OF assms(1), of q] assms(2) by (auto simp: queue_inv_def gone_def)
  show "tq_work_queues (task_queues s q)" using liveD(8) [OF l] .
  show "tq_time_domain (task_queues s q) = Some d" "Some (sw_wake_up e) = next_wake_up (task_queues s q)"
    using liveD(7) [OF l] assms(2) by (auto simp: wake_ok_def linked_def)
qed

lemma due_queues_step:
  assumes "sched_inv s' (reg(q := r))" "\<forall>t \<in> set (delayed_tasks s' q). now < delayed_run_time t"
  shows "due_queues (reg(q := r)) d now = due_queues reg d now - {q}"
proof -
  have "now < wu_time (sw_wake_up e)" if "r = Some (d, e)" for e
    using registered_live(3) [OF assms(1), of q d e] that assms(2)
    by (auto simp: next_wake_up_def task_delayed_wake_up_def delayed_tasks_def split: if_splits)
  then have "\<not> wu_time (sw_wake_up e) \<le> now" if "r = Some (d, e)" for e using that by force
  then show ?thesis by (auto simp: due_queues_def)
qed

abbreviation same_count :: "scheduler \<Rightarrow> scheduler \<Rightarrow> bool" where
  "same_count s s' \<equiv> selection_count (sel s') = selection_count (sel s)"

lemma told_count: "told c c' \<Longrightarrow> selection_count c' = selection_count c"
  by (auto simp: told_def dest!: sel_fields)

lemma wake_up_loop_ok:
  assumes "sched_inv s reg" "tasks_ok s" "finite (due_queues reg d now)" "card (due_queues reg d now) < fuel"
  shows "\<exists>s' reg'. wake_up_loop fuel d now s = Some s' \<and> sched_inv s' reg' \<and> calm s s' \<and> same_count s s' \<and> due_queues reg' d now = {}
    \<and> (\<forall>q. tq_time_domain (task_queues s q) \<noteq> Some d \<longrightarrow> reg' q = reg q)"
  using assms
proof (induction fuel arbitrary: s reg)
  case (Suc fuel)
  have rep: "heaps_rep s reg" using sched_invD(3) [OF Suc.prems(1)] by (simp add: wake_rep_def)
  have cs: "calm s s" using Suc.prems(1,2) calm_refl by (auto simp: sched_ok_def)
  obtain x where x: "NextScheduledRunTime d s = Some x" "x = None \<longleftrightarrow> (\<forall>q e. reg q \<noteq> Some (d, e))"
    "\<And>t. x = Some t \<Longrightarrow> \<exists>q e. reg q = Some (d, e) \<and> wu_time (sw_wake_up e) = t
        \<and> heap_top (wake_view s d) = Some e \<and> (\<forall>q' e'. reg q' = Some (d, e') \<longrightarrow> t \<le> wu_time (sw_wake_up e'))"
    using NextScheduledRunTime_ok [OF rep, of d] by blast
  show ?case
  proof (cases x)
    case None
    then have "due_queues reg d now = {}" using x(2) by (auto simp: due_queues_def)
    moreover have "heap_empty (wake_view s d)" using x(1) None by (auto simp: NextScheduledRunTime_def split: if_splits bind_splits)
    ultimately show ?thesis using Suc.prems(1) cs by auto
  next
    case (Some t)
    then obtain q e where e: "reg q = Some (d, e)" "wu_time (sw_wake_up e) = t" "heap_top (wake_view s d) = Some e"
      "\<And>q' e'. reg q' = Some (d, e') \<Longrightarrow> t \<le> wu_time (sw_wake_up e')" using x(3) by blast
    have ne: "\<not> heap_empty (wake_view s d)" using x(1) Some by (auto simp: NextScheduledRunTime_def split: if_splits)
    have q: "sw_queue e = q" using heaps_repD(4) [OF rep e(1)] .
    show ?thesis
    proof (cases "t \<le> now")
      case False
      then have "due_queues reg d now = {}" using e(4) by (force simp: due_queues_def)
      then show ?thesis using False e(2,3) ne Suc.prems(1) cs by auto
    next
      case True
      from MoveReady_calm [OF Suc.prems(1,2) registered_live(1) [OF Suc.prems(1) e(1)], of now] obtain u r where
        u: "MoveReadyDelayedTasksToWorkQueue q now s = Some u" "sched_inv u (reg(q := r))" "calm s u" "others q s u" "told (sel s) (sel u)"
          "\<forall>t \<in> set (delayed_tasks u q). now < delayed_run_time t" by blast
      have due: "due_queues (reg(q := r)) d now = due_queues reg d now - {q}" using due_queues_step [OF u(2,6)] .
      have "q \<in> due_queues reg d now" using e(1,2) True by (auto simp: due_queues_def)
      then have "card (due_queues (reg(q := r)) d now) < fuel"
        using Suc.prems(4) card_Diff1_less [OF Suc.prems(3)] unfolding due by fastforce
      moreover have "finite (due_queues (reg(q := r)) d now)" unfolding due using Suc.prems(3) by simp
      ultimately obtain s' reg' where
        s': "wake_up_loop fuel d now u = Some s'" "sched_inv s' reg'" "calm u s'" "same_count u s'" "due_queues reg' d now = {}"
          "\<forall>p. tq_time_domain (task_queues u p) \<noteq> Some d \<longrightarrow> reg' p = (reg(q := r)) p"
        using Suc.IH [OF u(2) runsD(2) [OF calmD(1) [OF u(3)]]] by blast
      have "reg' p = reg p" if "tq_time_domain (task_queues s p) \<noteq> Some d" for p
      proof -
        have "p \<noteq> q" using that registered_live(2) [OF Suc.prems(1) e(1)] by auto
        then show ?thesis using s'(6) that runsD(5) [OF calmD(1) [OF u(3)], of p] by simp
      qed
      then show ?thesis using s' told_count [OF u(5)] calm_trans [OF u(3) s'(3)] True e(2,3) ne u(1) q by auto
    qed
  qed
qed simp

text \<open>No delayed task of an enabled queue in domain \<open>d\<close> is due.\<close>

definition none_due :: "scheduler \<Rightarrow> nat \<Rightarrow> int \<Rightarrow> bool" where
  "none_due s d now \<longleftrightarrow>
     (\<forall>q. tq_time_domain (task_queues s q) = Some d \<and> tq_is_enabled (task_queues s q) \<longrightarrow> (\<forall>t \<in> set (delayed_tasks s q). now < delayed_run_time t))"

lemma none_dueI:
  assumes "sched_inv s reg" "due_queues reg d now = {}"
  shows "none_due s d now"
  unfolding none_due_def
proof (intro allI impI ballI)
  fix q t assume q: "tq_time_domain (task_queues s q) = Some d \<and> tq_is_enabled (task_queues s q)" and t: "t \<in> set (delayed_tasks s q)"
  have l: "live (order_counter s) (task_queues s q) (imm s q) (del s q) (reg q)"
    using sched_invD(4) [OF assms(1), of q] q by (auto simp: queue_inv_def gone_def)
  let ?dq = "tq_delayed_incoming_queue (task_queues s q)"
  obtain u us where us: "dq_tasks ?dq = u # us" using t by (cases "dq_tasks ?dq") (auto simp: delayed_tasks_def)
  then have "next_wake_up (task_queues s q) = Some (task_delayed_wake_up u)" using q by (simp add: next_wake_up_def)
  then obtain e where "reg q = Some (d, e)" "sw_wake_up e = task_delayed_wake_up u"
    using liveD(7) [OF l] q by (auto simp: wake_ok_def linked_def split: option.splits)
  then have "now < delayed_run_time u" using assms(2) by (force simp: due_queues_def task_delayed_wake_up_def)
  moreover have "sorted (map run_key (u # us))" using liveD(6) [OF l] us by (simp add: delayed_ok_def)
  then have "delayed_run_time u \<le> delayed_run_time t" using t us by (auto simp: delayed_tasks_def run_key_def)
  ultimately show "now < delayed_run_time t" by simp
qed

lemma td_MoveReady_ok:
  assumes inv: "sched_inv s reg" and "tasks_ok s"
  shows "\<exists>s' reg'. td_MoveReadyDelayedTasksToWorkQueues d now s = Some s' \<and> sched_inv s' reg' \<and> calm s s' \<and> same_count s s' \<and> due_queues reg' d now = {}
    \<and> (\<forall>d' now'. d' \<noteq> d \<and> due_queues reg d' now' = {} \<longrightarrow> due_queues reg' d' now' = {})"
proof -
  have rep: "heaps_rep s reg" using sched_invD(3) [OF inv] by (simp add: wake_rep_def)
  let ?h = "td_wake_ups (time_domains s d)"
  have "due_queues reg d now \<subseteq> sw_queue ` set ?h"
  proof
    fix q assume "q \<in> due_queues reg d now"
    then obtain e where e: "reg q = Some (d, e)" by (auto simp: due_queues_def)
    then have "sw_queue e = q" using heaps_repD(4) [OF rep] by blast
    then show "q \<in> sw_queue ` set ?h" using e unfolding heaps_repD(2) [OF rep] by blast
  qed
  then have fin: "finite (due_queues reg d now)" and "card (due_queues reg d now) \<le> card (sw_queue ` set ?h)"
    by (auto intro: finite_subset card_mono)
  then have "card (due_queues reg d now) < length ?h + 1"
    using card_image_le [of "set ?h" sw_queue] card_length [of ?h] by simp
  from wake_up_loop_ok [OF inv assms(2) fin this] obtain s' reg' where
    s': "wake_up_loop (length ?h + 1) d now s = Some s'" "sched_inv s' reg'" "calm s s'" "same_count s s'" "due_queues reg' d now = {}"
      "\<forall>q. tq_time_domain (task_queues s q) \<noteq> Some d \<longrightarrow> reg' q = reg q" by blast
  have "due_queues reg' d' now' = {}" if "d' \<noteq> d" "due_queues reg d' now' = {}" for d' now'
  proof -
    have "reg q = Some (d', e)" if "reg' q = Some (d', e)" for q e
      using registered_live(2) [OF s'(2) that] runsD(5) [OF calmD(1) [OF s'(3)], of q] s'(6) \<open>d' \<noteq> d\<close> that by simp
    then show ?thesis using that(2) by (auto simp: due_queues_def)
  qed
  then show ?thesis using s' unfolding td_MoveReadyDelayedTasksToWorkQueues_def by blast
qed

lemma move_ready_domains_ok:
  assumes "sched_inv s reg" "tasks_ok s" "distinct ds"
  shows "\<exists>s' reg'. move_ready_domains ds real now s = Some s' \<and> sched_inv s' reg' \<and> calm s s' \<and> same_count s s'
    \<and> (\<forall>d \<in> set ds. due_queues reg' d (if d = real then now else td_now (time_domains s d)) = {})
    \<and> (\<forall>d' now'. d' \<notin> set ds \<and> due_queues reg d' now' = {} \<longrightarrow> due_queues reg' d' now' = {})"
  using assms
proof (induction ds arbitrary: s reg)
  case Nil
  then show ?case using calm_refl by (auto simp: sched_ok_def)
next
  case (Cons d ds)
  let ?now = "if d = real then now else td_now (time_domains s d)"
  from td_MoveReady_ok [OF Cons.prems(1,2), of d ?now] obtain t reg1 where
    t: "td_MoveReadyDelayedTasksToWorkQueues d ?now s = Some t" "sched_inv t reg1" "calm s t" "same_count s t" "due_queues reg1 d ?now = {}"
      "\<forall>d' now'. d' \<noteq> d \<and> due_queues reg d' now' = {} \<longrightarrow> due_queues reg1 d' now' = {}" by blast
  note r = runsD [OF calmD(1) [OF t(3)]]
  from Cons.IH [OF t(2) r(2)] Cons.prems(3) obtain s' reg' where
    s': "move_ready_domains ds real now t = Some s'" "sched_inv s' reg'" "calm t s'" "same_count t s'"
      "\<forall>d \<in> set ds. due_queues reg' d (if d = real then now else td_now (time_domains t d)) = {}"
      "\<forall>d' now'. d' \<notin> set ds \<and> due_queues reg1 d' now' = {} \<longrightarrow> due_queues reg' d' now' = {}" by auto
  have "due_queues reg' d ?now = {}" using s'(6) t(5) Cons.prems(3) by simp
  moreover have "\<forall>d \<in> set ds. due_queues reg' d (if d = real then now else td_now (time_domains s d)) = {}" using s'(5) r(6) by auto
  moreover have "\<forall>d' now'. d' \<notin> set (d # ds) \<and> due_queues reg d' now' = {} \<longrightarrow> due_queues reg' d' now' = {}" using s'(6) t(6) by simp
  moreover have "move_ready_domains (d # ds) real now s = Some s'" using t(1) s'(1) by simp
  ultimately show ?case using s'(2,4) t(4) calm_trans [OF t(3) s'(3)] by (intro exI [of _ s'] exI [of _ reg']) auto
qed

lemma reload_keeps:
  assumes inv: "sched_inv s reg" and ok: "tasks_ok s" and fl: "tq_reload_flag (task_queues s q)"
  shows "\<exists>s'. run_reload_callback q s = Some s' \<and> sched_inv s' reg \<and> keeps s s' \<and> told (sel s) (sel s')
    \<and> (\<forall>p. tq_reload_flag (task_queues s' p) \<longleftrightarrow> tq_reload_flag (task_queues s p) \<and> p \<noteq> q)"
proof -
  from run_reload_callback_ok [OF inv fl] obtain s' where
    s': "run_reload_callback q s = Some s'" "sched_inv s' reg" "step_on q s s'" "tasks_of s' q = tasks_of s q" "told (sel s) (sel s')"
      "\<not> tq_reload_flag (task_queues s' q)" by blast
  have "tq_reload_flag (task_queues s' p) = tq_reload_flag (task_queues s p)" if "p \<noteq> q" for p
    using step_onD [OF s'(3)] that by (auto simp: others_def same_impl_def)
  then show ?thesis using s' keeps_same_tasks [OF s'(2) ok s'(3,4)] fl by metis
qed

lemma ReloadEmptyWorkQueues_ok:
  assumes "sched_inv s reg" "tasks_ok s"
  shows "\<exists>s'. ReloadEmptyWorkQueues order s = Some s' \<and> sched_inv s' reg \<and> keeps s s' \<and> same_count s s'
    \<and> (\<forall>p. tq_reload_flag (task_queues s' p) \<longleftrightarrow> tq_reload_flag (task_queues s p) \<and> p \<notin> set order)"
  using assms
proof (induction order arbitrary: s)
  case Nil
  then show ?case using keeps_refl by (auto simp: sched_ok_def)
next
  case (Cons q order)
  obtain t where t: "(if tq_reload_flag (task_queues s q) then run_reload_callback q s else Some s) = Some t" "sched_inv t reg" "keeps s t" "same_count s t"
    "\<forall>p. tq_reload_flag (task_queues t p) \<longleftrightarrow> tq_reload_flag (task_queues s p) \<and> p \<noteq> q"
  proof (cases "tq_reload_flag (task_queues s q)")
    case True
    from reload_keeps [OF Cons.prems True] obtain t where "run_reload_callback q s = Some t" "sched_inv t reg" "keeps s t" "told (sel s) (sel t)"
      "\<forall>p. tq_reload_flag (task_queues t p) \<longleftrightarrow> tq_reload_flag (task_queues s p) \<and> p \<noteq> q" by blast
    then show ?thesis using that [of t] True told_count by simp
  next
    case False
    have "keeps s s" using Cons.prems keeps_refl by (auto simp: sched_ok_def)
    then show ?thesis using that [of s] False Cons.prems by auto
  qed
  from Cons.IH [OF t(2) runsD(2) [OF keepsD(1) [OF t(3)]]] t(1,4,5) keeps_trans [OF t(3)] show ?case by auto
qed

section \<open>Selection of the next task\<close>

text \<open>The number of tasks that queue \<open>q\<close> offers or is about to offer.\<close>

definition load :: "scheduler \<Rightarrow> nat \<Rightarrow> nat" where
  "load s q = length (work_tasks s q kImmediate) + length (work_tasks s q kDelayed)"

definition total_load :: "scheduler \<Rightarrow> nat set \<Rightarrow> nat" where
  "total_load s A = (\<Sum>q\<in>A. load s q)"

lemma backlog_eq: "distinct (active_queues m) \<Longrightarrow> backlog m = total_load (sched m) (set (active_queues m))"
  by (simp add: backlog_def total_load_def load_def work_tasks_def pending_immediate_def sum_list_distinct_conv_sum_set add.assoc)

lemma load_others: "others q s s' \<Longrightarrow> p \<noteq> q \<Longrightarrow> load s' p = load s p"
  by (simp add: load_def others_tasks)

lemma total_load_less:
  assumes "others q s s'" "load s' q < load s q" "q \<in> A" "finite A"
  shows "total_load s' A < total_load s A"
  unfolding total_load_def using assms load_others [OF assms(1)]
  by (intro sum_strict_mono_ex1) (auto simp: order.strict_iff_order split: if_splits, metis order_refl)

lemma left_tasks:
  assumes "tasks_of s' q = tasks_left s q ty ts" "suffix ts (wq_tasks (queues s (q, ty)))"
  shows "work_tasks s' q ty' = (if ty' = ty then ts @ (if ty = kImmediate then tq_immediate_incoming_queue (task_queues s q) else []) else work_tasks s q ty')"
    "delayed_tasks s' q = delayed_tasks s q" "set (work_tasks s' q ty') \<subseteq> set (work_tasks s q ty')"
  using assms set_mono_suffix [OF assms(2)]
  by (cases ty; cases ty'; auto simp: tasks_of_eq tasks_left_def work_tasks_def delayed_tasks_def pending_immediate_def)+

lemma left_runs:
  assumes inv: "sched_inv s' reg" and ok: "tasks_ok s" and st: "calm_on q s s'"
    and left: "tasks_of s' q = tasks_left s q ty ts" "suffix ts (wq_tasks (queues s (q, ty)))"
  shows "runs s s'"
  by (rule runsI [OF inv ok calm_onD [OF st], of "work_tasks s' q kImmediate" "work_tasks s' q kDelayed" "delayed_tasks s' q"])
    (simp_all add: tasks_of_eq left_tasks(2,3) [OF left])

lemma left_jobs:
  assumes "calm_on q s s'" "tasks_of s' q = tasks_left s q ty ts" "wq_tasks (queues s (q, ty)) = us @ ts"
  shows "jobs s q = jobs_in (is_cancelled s) us + jobs s' q"
proof -
  have "suffix ts (wq_tasks (queues s (q, ty)))" using assms(3) by (simp add: suffix_def)
  note w = left_tasks [OF assms(2) this]
  have "is_cancelled s' = is_cancelled s" using assms(1) by (simp add: calm_on_def step_on_def others_def)
  then show ?thesis using assms(3)
    by (cases ty) (simp_all add: jobs_def w(1,2), simp_all add: work_tasks_def pending_immediate_def ac_simps)
qed

lemma left_load:
  assumes "calm_on q s s'" "tasks_of s' q = tasks_left s q ty ts" "suffix ts (wq_tasks (queues s (q, ty)))" "length ts < length (wq_tasks (queues s (q, ty)))"
    "q \<in> A" "finite A"
  shows "total_load s' A < total_load s A"
proof -
  have "load s' q < load s q"
    using assms(4) by (cases ty) (simp_all add: load_def left_tasks(1) [OF assms(2,3)], simp_all add: work_tasks_def pending_immediate_def)
  then show ?thesis using total_load_less [OF step_onD [OF calm_onD [OF assms(1)]]] assms(5,6) by blast
qed

text \<open>What selecting a queue gives, and that it does not touch the rest of the state.\<close>

lemma highest_ok:
  assumes inv: "sched_inv s reg"
  shows "\<exists>x. GetHighestPendingPriority s = Some x \<and> (x = None \<longrightarrow> (\<forall>w. ready (queues s w) = None))
    \<and> (\<forall>p. x = Some p \<longrightarrow> (\<exists>w sid k. ready (queues s w) = Some (sid, p, k)))"
proof -
  have ok: "work_ok s" using sched_invD(1) [OF inv] .
  have sr: "sel_rep (non_empty s) (sel s)" using ok by (simp add: work_ok_def)
  obtain ps where ps: "spq_rep (active_priorities (sel s)) ps" by (rule sel_repD [OF sr])
  have act: "snd ` set ps = {i. i < kQueuePriorityCount \<and> (\<exists>sid. waiting s sid i)}" using work_ok_active(2) [OF ok ps] .
  show ?thesis
  proof (cases "ps = []")
    case True
    have "ready (queues s w) = None" for w
    proof (cases "ready (queues s w)")
      case (Some x)
      then obtain sid p k where x: "ready (queues s w) = Some (sid, p, k)" by (cases x) auto
      then have "p < kQueuePriorityCount" using readyD(2) [OF x] sched_invD(6) [OF inv] by blast
      then show ?thesis using act True x by (cases w) (auto simp: waiting_def)
    qed
    then show ?thesis using spq_empty_iff [OF ps] True by (auto simp: GetHighestPendingPriority_def)
  next
    case False
    have "snd (hd ps) \<in> snd ` set ps" using False by simp
    then have "\<exists>sid. waiting s sid (snd (hd ps))" using act by auto
    then show ?thesis using spq_empty_iff [OF ps] min_id_ok [OF ps False] False by (auto simp: GetHighestPendingPriority_def waiting_def)
  qed
qed

text \<open>
  The native work goes first: the priority that the selector serves next lies below it.  Without the anti-starvation
  logic this is the most important one, so that all queues with a task that may run lie below the native work.
\<close>

definition native_first :: "nat \<Rightarrow> scheduler \<Rightarrow> bool" where
  "native_first native s \<longleftrightarrow>
     (\<exists>p. GetHighestPendingPriority s = Some (Some p) \<and> native < p \<and> (\<exists>w sid k. ready (queues s w) = Some (sid, p, k)))
     \<and> (anti_starvation_disabled (sel s) \<longrightarrow> (\<forall>w sid p k. ready (queues s w) = Some (sid, p, k) \<longrightarrow> native < p))"

lemma native_firstI:
  assumes inv: "sched_inv s reg" and p: "GetHighestPendingPriority s = Some (Some p)" "native < p"
  shows "native_first native s"
proof -
  have ok: "work_ok s" using sched_invD(1) [OF inv] .
  have sr: "sel_rep (non_empty s) (sel s)" using ok by (simp add: work_ok_def)
  obtain ps where ps: "spq_rep (active_priorities (sel s)) ps" by (rule sel_repD [OF sr])
  have ne: "ps \<noteq> []" using p(1) spq_empty_iff [OF ps] by (auto simp: GetHighestPendingPriority_def)
  have hd: "snd (hd ps) = p" using p(1) min_id_ok [OF ps ne] spq_empty_iff [OF ps] ne by (simp add: GetHighestPendingPriority_def)
  have "p \<le> r" if "anti_starvation_disabled (sel s)" "ready (queues s w) = Some (sid, r, k)" for w sid r k
  proof -
    have "waiting s sid r" using that(2) by (cases w) (auto simp: waiting_def)
    moreover have "r < kQueuePriorityCount" using readyD(2) [OF that(2)] sched_invD(6) [OF inv] by blast
    ultimately show ?thesis using active_order(3) [OF ok ps ne] that(1) hd by blast
  qed
  moreover have "\<exists>w sid k. ready (queues s w) = Some (sid, p, k)" using highest_ok [OF inv] p(1) by auto
  ultimately show ?thesis using p unfolding native_first_def by (meson less_le_trans)
qed

lemma Select_total:
  assumes inv: "sched_inv s reg" and "room s"
  shows "\<exists>r s'. SelectWorkQueueToService s = Some (r, s') \<and> (r = None \<longrightarrow> (\<forall>w. ready (queues s w) = None))
    \<and> (\<forall>w. r = Some w \<longrightarrow> (\<exists>sid p k. ready (queues s w) = Some (sid, p, k) \<and> GetHighestPendingPriority s = Some (Some p)))
    \<and> selection_count (sel s') \<le> selection_count (sel s) + 1"
proof -
  have ok: "work_ok s" using sched_invD(1) [OF inv] .
  have sr: "sel_rep (non_empty s) (sel s)" using ok by (simp add: work_ok_def)
  obtain ps where ps: "spq_rep (active_priorities (sel s)) ps" by (rule sel_repD [OF sr])
  show ?thesis
  proof (cases "ps = []")
    case True
    have "ready (queues s w) = None" for w
    proof (cases "ready (queues s w)")
      case (Some x)
      then obtain sid p k where x: "ready (queues s w) = Some (sid, p, k)" by (cases x) auto
      then have "p < kQueuePriorityCount" using readyD(2) [OF x] sched_invD(6) [OF inv] by blast
      then show ?thesis using work_ok_active(2) [OF ok ps] True x by (cases w) (auto simp: waiting_def)
    qed
    then show ?thesis using spq_empty_iff [OF ps] True by (auto simp: SelectWorkQueueToService_def)
  next
    case False
    from SelectWorkQueueToService_ok [OF ok ps False assms(2)] obtain w b l a key where
      w: "SelectWorkQueueToService s = Some (Some w, s\<lparr>last_rand := l, sel := (sel s)\<lparr>active_priorities := a,
          selection_count := selected_count s (snd (hd ps)),
          immediate_starvation_count := (if b then immediate_starvation_count (sel s) + 1 else 0)\<rparr>\<rparr>)"
      "choice (operation_of s) s (snd (hd ps)) w b" by (elim exE conjE)
    moreover have "GetHighestPendingPriority s = Some (Some (snd (hd ps)))"
      using spq_empty_iff [OF ps] min_id_ok [OF ps False] False by (simp add: GetHighestPendingPriority_def)
    ultimately show ?thesis by (auto simp: choice_def offered_def)
  qed
qed

lemma Select_same:
  assumes inv: "sched_inv s reg" and "tasks_ok s" "room s" "SelectWorkQueueToService s = Some (r, s')"
  shows "sched_inv s' reg" "queues s' = queues s" "task_queues s' = task_queues s" "calm s s'" "total_load s' A = total_load s A"
proof -
  have ok: "work_ok s" using sched_invD(1) [OF inv] .
  note k = Select_keeps [OF ok assms(3,4)]
  have m: "task_queues s' = task_queues s" "time_domains s' = time_domains s" "order_counter s' = order_counter s" "is_cancelled s' = is_cancelled s"
    "cross_thread_task_delay s' = cross_thread_task_delay s" "same_thread_task_delay s' = same_thread_task_delay s" "event_log s' = event_log s"
    using k(4) by (cases s; cases s'; simp)+
  have rep: "wake_rep s' reg = wake_rep s reg" by (rule wake_rep_cong) (use m in simp_all)
  show inv': "sched_inv s' reg" using inv k(1,2) m rep by (simp add: sched_inv_def env_ok_def log_ok_def)
  show "queues s' = queues s" "task_queues s' = task_queues s" by fact+
  have w: "work_tasks s' = work_tasks s" "delayed_tasks s' = delayed_tasks s"
    using k(2) m(1) by (auto simp: work_tasks_def pending_immediate_def delayed_tasks_def fun_eq_iff)
  then show "calm s s'" using inv' m assms(2)
    by (auto simp: calm_def keeps_def runs_def evolves_def same_owners_def sched_ok_def tasks_ok_def jobs_def task_count_def)
  show "total_load s' A = total_load s A" using w by (simp add: total_load_def load_def)
qed

text \<open>A queue that is offered belongs to a live task queue.\<close>

lemma ready_live:
  assumes "sched_inv s reg" "ready (queues s (q, ty)) = Some (sid, p, k)"
  shows "tq_work_queues (task_queues s q)" "GetQueuePriority q s = Some p" "wq_tasks (queues s (q, ty)) \<noteq> []"
proof -
  have "\<not> gone (task_queues s q) (imm s q) (del s q) (reg q)" using readyD(4) [OF assms(2)] by (cases ty) (auto simp: gone_def)
  then have l: "live (order_counter s) (task_queues s q) (imm s q) (del s q) (reg q)"
    using sched_invD(4) [OF assms(1), of q] by (simp add: queue_inv_def)
  show "tq_work_queues (task_queues s q)" using liveD(8) [OF l] .
  show "wq_tasks (queues s (q, ty)) \<noteq> []" using readyD(4) [OF assms(2)] .
  show "GetQueuePriority q s = Some p"
    using liveD(5) [OF l] readyD(2) [OF assms(2)] by (cases ty) (auto simp: GetQueuePriority_def assigned_ok_def)
qed

section \<open>The invariant\<close>

text \<open>
  Deferred tasks wait to be put back in front of their work queues, whose orders they may not exceed.
\<close>

definition deferred_of :: "(closure task \<times> nat \<times> queue_type) list \<Rightarrow> nat \<Rightarrow> queue_type \<Rightarrow> closure task list" where
  "deferred_of ds q ty = map fst (filter (\<lambda>x. snd x = (q, ty)) ds)"

definition deferred_ok :: "(closure task \<times> nat \<times> queue_type) list \<Rightarrow> scheduler \<Rightarrow> bool" where
  "deferred_ok ds s \<longleftrightarrow>
     (\<forall>q ty. sorted (task_orders (deferred_of ds q ty)))
     \<and> (\<forall>(t, q, ty) \<in> set ds. tq_work_queues (task_queues s q) \<and> task_ok t \<and> may_requeue s q ty t)"

definition queues_ok :: "sequence_manager \<Rightarrow> bool" where
  "queues_ok m \<longleftrightarrow>
     sorted_wrt (<) (active_queues m) \<and> (\<forall>q. tq_work_queues (task_queues (sched m) q) \<longleftrightarrow> q \<in> set (active_queues m))
     \<and> (\<forall>q \<in> set (active_queues m). tq_time_domain (task_queues (sched m) q) \<in> Some ` set (registered_time_domains m))
     \<and> sorted_wrt (<) (registered_time_domains m) \<and> real_time_domain m \<in> set (registered_time_domains m)
     \<and> set (registered_time_domains m) \<subseteq> set (domains_with_manager m)
     \<and> sorted_wrt (<) (queues_to_gracefully_shutdown m) \<and> set (queues_to_gracefully_shutdown m) \<subseteq> set (active_queues m)
     \<and> set (queues_to_delete m) \<inter> set (active_queues m) = {}"

definition loops_ok :: "sequence_manager \<Rightarrow> bool" where
  "loops_ok m \<longleftrightarrow>
     0 \<le> nesting_depth m \<and> (nesting_depth m = 0 \<longrightarrow> non_nestable_task_queue m = [])
     \<and> pending_native_work m \<noteq> [] \<and> sorted (pending_native_work m) \<and> (\<forall>x \<in> set (task_execution_stack m). task_ok (fst x))"

definition sm_inv :: "sequence_manager \<Rightarrow> bool" where
  "sm_inv m \<longleftrightarrow>
     sched_ok (sched m) \<and> tasks_ok (sched m) \<and> deferred_ok (non_nestable_task_queue m) (sched m) \<and> queues_ok m \<and> loops_ok m"

lemma may_requeue_eq:
  "may_requeue s q ty t \<longleftrightarrow> \<not> nestable t \<and> enqueue_order_set_to t \<noteq> 0 \<and> enqueue_order_set_to t < order_counter s
     \<and> (\<forall>k \<in> set (task_orders (work_tasks s q ty)). enqueue_order_set_to t \<le> k)"
  by (simp add: may_requeue_def work_tasks_def)

lemma may_requeue_evolves: "may_requeue s q ty t \<Longrightarrow> evolves s s' \<Longrightarrow> may_requeue s' q ty t"
  unfolding may_requeue_eq evolves_def by (meson le_trans less_imp_le less_le_trans)

lemma deferred_runs: "deferred_ok ds s \<Longrightarrow> runs s s' \<Longrightarrow> deferred_ok ds s'"
  unfolding deferred_ok_def using may_requeue_evolves [OF _ runsD(3)] runsD(4) by fastforce

lemma sm_invD:
  assumes "sm_inv m"
  shows "sched_ok (sched m)" "tasks_ok (sched m)" "deferred_ok (non_nestable_task_queue m) (sched m)" "queues_ok m" "loops_ok m"
  using assms by (simp_all add: sm_inv_def)

lemma queues_okD:
  assumes "queues_ok m"
  shows "sorted_wrt (<) (active_queues m)" "tq_work_queues (task_queues (sched m) q) \<longleftrightarrow> q \<in> set (active_queues m)"
    "distinct (active_queues m)" "distinct (registered_time_domains m)" "distinct (queues_to_gracefully_shutdown m)"
    "set (queues_to_gracefully_shutdown m) \<subseteq> set (active_queues m)"
  using assms strict_sorted_iff by (auto simp: queues_ok_def)

lemma queues_ok_runs: "queues_ok m \<Longrightarrow> runs (sched m) s' \<Longrightarrow> queues_ok (m\<lparr>sched := s'\<rparr>)"
  by (simp add: queues_ok_def runsD(4,5))

lemma sm_inv_runs:
  assumes "sm_inv m" "runs (sched m) s'"
  shows "sm_inv (m\<lparr>sched := s'\<rparr>)"
  using sm_invD [OF assms(1)] runsD(1,2) [OF assms(2)] deferred_runs [OF _ assms(2)] queues_ok_runs [OF _ assms(2)]
  by (simp add: sm_inv_def loops_ok_def)

text \<open>The fields that selecting a task leaves alone.\<close>

definition same_frame :: "sequence_manager \<Rightarrow> sequence_manager \<Rightarrow> bool" where
  "same_frame m m' \<longleftrightarrow>
     (\<exists>s ds st. m' = m\<lparr>sched := s, non_nestable_task_queue := ds, task_execution_stack := st\<rparr>)"

lemma same_frameD:
  assumes "same_frame m m'"
  shows "active_queues m' = active_queues m" "registered_time_domains m' = registered_time_domains m" "real_time_domain m' = real_time_domain m"
    "nesting_depth m' = nesting_depth m" "pending_native_work m' = pending_native_work m"
    "queues_to_gracefully_shutdown m' = queues_to_gracefully_shutdown m" "queues_to_delete m' = queues_to_delete m"
  using assms by (auto simp: same_frame_def)

lemma same_frame_trans: "same_frame m m' \<Longrightarrow> same_frame m' m'' \<Longrightarrow> same_frame m m''"
  unfolding same_frame_def by (elim exE) (simp, metis)

section \<open>One iteration of the selection\<close>

lemma work_sorted:
  assumes inv: "sched_inv s reg" and wq: "tq_work_queues (task_queues s q)"
  shows "sorted (task_orders (work_tasks s q ty))" "\<forall>t \<in> set (work_tasks s q ty). enqueue_order_set_to t \<noteq> 0 \<and> enqueue_order_set_to t < order_counter s"
proof -
  note l = sched_invD(5) [OF inv wq]
  have ok: "queue_ok (imm s q)" "queue_ok (del s q)" using sched_invD(7) [OF inv] by blast+
  show "sorted (task_orders (work_tasks s q ty))"
    using liveD(2) [OF l] ok by (cases ty) (auto simp: work_tasks_def pending_immediate_def orders_ok_def queue_ok_def)
  show "\<forall>t \<in> set (work_tasks s q ty). enqueue_order_set_to t \<noteq> 0 \<and> enqueue_order_set_to t < order_counter s"
    using liveD(2) [OF l] ok by (cases ty) (fastforce simp: work_tasks_def pending_immediate_def orders_ok_def queue_ok_def)+
qed

lemma front_work:
  assumes "sched_inv s reg" "ready (queues s (q, ty)) = Some (sid, p, k)"
  shows "hd (wq_tasks (queues s (q, ty))) \<in> set (work_tasks s q ty)"
  using readyD(4) [OF assms(2)] by (cases ty) (auto simp: work_tasks_def pending_immediate_def)

lemma take_task:
  assumes inv: "sched_inv s reg" and ok: "tasks_ok s" and r: "ready (queues s (q, ty)) = Some (sid, p, k)" and A: "q \<in> A" "finite A"
  defines "t \<equiv> hd (wq_tasks (queues s (q, ty)))"
  shows "\<exists>s'. TakeTaskFromWorkQueue (q, ty) s = Some (t, s') \<and> sched_inv s' reg \<and> runs s s' \<and> calm_on q s s' \<and> told (sel s) (sel s')
    \<and> total_load s' A < total_load s A \<and> work_tasks s q ty = t # work_tasks s' q ty \<and> jobs s q = jobs_in (is_cancelled s) [t] + jobs s' q"
proof -
  let ?ts = "wq_tasks (queues s (q, ty))"
  from TakeTaskFromWorkQueue_ok [OF inv r] obtain s' where
    s': "TakeTaskFromWorkQueue (q, ty) s = Some (t, s')" "sched_inv s' reg" "calm_on q s s'" "tasks_of s' q = tasks_left s q ty (tl ?ts)" "told (sel s) (sel s')"
    unfolding t_def by blast
  have ne: "?ts = [t] @ tl ?ts" using readyD(4) [OF r] by (simp add: t_def)
  have suf: "suffix (tl ?ts) ?ts" by (simp add: suffix_tl)
  have len: "length (tl ?ts) < length ?ts" using readyD(4) [OF r] by simp
  have "work_tasks s q ty = t # work_tasks s' q ty"
    using left_tasks(1) [OF s'(4) suf, of ty] ne by (cases ty) (simp_all add: work_tasks_def pending_immediate_def)
  then show ?thesis
    using s' left_runs [OF s'(2) ok s'(3,4) suf] left_load [OF s'(3,4) suf len A] left_jobs [OF s'(3,4) ne] by blast
qed

lemma drop_tasks:
  assumes inv: "sched_inv s reg" and ok: "tasks_ok s" and set: "wq_sets (queues s (q, ty)) \<noteq> None" and A: "q \<in> A" "finite A"
  shows "\<exists>b s'. RemoveAllCanceledTasksFromFront (q, ty) s = Some (b, s') \<and> sched_inv s' reg \<and> calm s s' \<and> told (sel s) (sel s')
    \<and> (b \<longrightarrow> total_load s' A < total_load s A)
    \<and> (\<not> b \<longrightarrow> s' = s \<and> (wq_tasks (queues s (q, ty)) \<noteq> [] \<longrightarrow> \<not> dropped (is_cancelled s) (hd (wq_tasks (queues s (q, ty))))))"
proof -
  let ?ts = "wq_tasks (queues s (q, ty))" and ?d = "dropped (is_cancelled s)"
  from RemoveAllCanceledTasksFromFront_ok [OF inv set] obtain s' where
    s': "RemoveAllCanceledTasksFromFront (q, ty) s = Some (dropWhile ?d ?ts \<noteq> ?ts, s')" "sched_inv s' reg" "calm_on q s s'"
      "tasks_of s' q = tasks_left s q ty (dropWhile ?d ?ts)" "told (sel s) (sel s')" "dropWhile ?d ?ts = ?ts \<longrightarrow> s' = s" by blast
  have suf: "suffix (dropWhile ?d ?ts) ?ts" by (rule suffix_dropWhile)
  have sp: "?ts = takeWhile ?d ?ts @ dropWhile ?d ?ts" by simp
  have "set ?ts \<subseteq> set (work_tasks s q ty)" by (cases ty) (auto simp: work_tasks_def pending_immediate_def)
  then have "\<forall>t \<in> set (takeWhile ?d ?ts). ?d t \<and> task_ok t" using ok set_takeWhileD [of _ ?d ?ts] unfolding tasks_ok_def by blast
  then have "jobs_in (is_cancelled s) (takeWhile ?d ?ts) = {#}" using dropped_job by (intro jobs_none) blast
  then have "jobs s' q = jobs s q" using left_jobs [OF s'(3,4) sp] by simp
  moreover have "task_count s' q \<le> task_count s q"
    using suffix_length_le [OF suf]
    by (cases ty) (simp_all add: task_count_def left_tasks(1,2) [OF s'(4) suf], simp_all add: work_tasks_def pending_immediate_def)
  ultimately have "calm s s'"
    using calmI [OF keepsI [OF left_runs [OF s'(2) ok s'(3,4) suf]] s'(3)] step_onD [OF calm_onD [OF s'(3)]] by blast
  moreover have "total_load s' A < total_load s A" if "dropWhile ?d ?ts \<noteq> ?ts"
  proof -
    have "takeWhile ?d ?ts \<noteq> []" using that takeWhile_dropWhile_id [of ?d ?ts] by (metis append_Nil)
    then have "length (dropWhile ?d ?ts) < length ?ts" using sp by (metis length_append length_greater_0_conv less_add_same_cancel2)
    then show ?thesis using left_load [OF s'(3,4) suf _ A] by blast
  qed
  moreover have "\<not> ?d (hd ?ts)" if "dropWhile ?d ?ts = ?ts" "?ts \<noteq> []"
    using that hd_dropWhile [of ?d ?ts] by simp
  ultimately show ?thesis using s' by blast
qed

lemma defer_ok:
  assumes inv: "sched_inv s reg" and ds: "deferred_ok ds s" and wq: "tq_work_queues (task_queues s q)" and run: "runs s s'"
    and w: "work_tasks s q ty = t # work_tasks s' q ty" and t: "\<not> nestable t" "task_ok t"
  shows "deferred_ok (ds @ [(t, q, ty)]) s'"
proof -
  note so = work_sorted [OF inv wq, of ty]
  have "order_counter s \<le> order_counter s'" using runsD(3) [OF run] by (simp add: evolves_def)
  then have "may_requeue s' q ty t" using so t(1) by (auto simp: may_requeue_eq w)
  moreover have "enqueue_order_set_to u \<le> enqueue_order_set_to t" if "(u, q, ty) \<in> set ds" for u
  proof -
    have "may_requeue s q ty u" using that ds by (auto simp: deferred_ok_def)
    then show ?thesis by (simp add: may_requeue_eq w)
  qed
  ultimately show ?thesis
    using deferred_runs [OF ds run] t(2) wq runsD(4) [OF run, of q]
    by (auto simp: deferred_ok_def deferred_of_def sorted_append)
qed

text \<open>The jobs that still have to run, and what a selection may return.\<close>

definition pending :: "sequence_manager \<Rightarrow> nat multiset" where
  "pending m =
     (\<Sum>q \<in> set (active_queues m). jobs (sched m) q) + jobs_in (is_cancelled (sched m)) (map fst (non_nestable_task_queue m))"

definition selected :: "sequence_manager \<Rightarrow> closure task option \<Rightarrow> sequence_manager \<Rightarrow> bool" where
  "selected m r m' \<longleftrightarrow>
     (case r of
        None \<Rightarrow>
          task_execution_stack m' = task_execution_stack m
          \<and> ((\<forall>w. ready (queues (sched m') w) = None)
             \<or> (\<exists>s w. SelectWorkQueueToService s = Some (Some w, sched m') \<and> native_first (hd (pending_native_work m)) s))
      | Some t \<Rightarrow>
          (\<exists>q. task_execution_stack m' = task_execution_stack m @ [(t, q)] \<and> q \<in> set (active_queues m)
             \<and> wq_set_index (imm (sched m') q) \<le> hd (pending_native_work m))
          \<and> task_ok t \<and> \<not> dropped (is_cancelled (sched m)) t \<and> (0 < nesting_depth m \<longrightarrow> nestable t))
     \<and> pending m = pending m' + (case r of None \<Rightarrow> {#} | Some t \<Rightarrow> jobs_in (is_cancelled (sched m)) [t])"

lemma pending_calm: "calm (sched m) s' \<Longrightarrow> pending (m\<lparr>sched := s'\<rparr>) = pending m"
  using calmD(2) runsD(7) [OF calmD(1)] by (simp add: pending_def)

lemma pending_take:
  assumes "finite A" "q \<in> A" "jobs s q = J + jobs s' q" "others q s s'"
  shows "(\<Sum>p\<in>A. jobs s p) = J + (\<Sum>p\<in>A. jobs s' p)"
proof -
  have "(\<Sum>p\<in>A. jobs s p) = jobs s q + (\<Sum>p\<in>A - {q}. jobs s p)" using assms(1,2) by (simp add: sum.remove)
  also have "\<dots> = J + (jobs s' q + (\<Sum>p\<in>A - {q}. jobs s' p))" using assms(3) jobs_others(1) [OF assms(4)] by (simp add: add.assoc)
  finally show ?thesis using assms(1,2) by (simp add: sum.remove)
qed

lemma selected_via:
  assumes "selected m1 r m'" "task_execution_stack m1 = task_execution_stack m" "active_queues m1 = active_queues m"
    "pending_native_work m1 = pending_native_work m" "nesting_depth m1 = nesting_depth m" "is_cancelled (sched m1) = is_cancelled (sched m)"
    "pending m1 = pending m"
  shows "selected m r m'"
  using assms by (cases r) (simp_all add: selected_def)

definition quiet :: "scheduler \<Rightarrow> scheduler \<Rightarrow> bool" where
  "quiet s s' \<longleftrightarrow> runs s s' \<and> (\<forall>p. tq_reload_flag (task_queues s' p) = tq_reload_flag (task_queues s p))"

lemma quiet_trans: "quiet s t \<Longrightarrow> quiet t u \<Longrightarrow> quiet s u"
  unfolding quiet_def using runs_trans by auto

lemma quietI: "calm s s' \<Longrightarrow> quiet s s'" "runs s s' \<Longrightarrow> calm_on q s s' \<Longrightarrow> quiet s s'"
  using flags_on by (auto simp: quiet_def calm_def keeps_def)

definition select_ok :: "(nat \<Rightarrow> (nat \<times> scheduled_wake_up) option) \<Rightarrow> sequence_manager \<Rightarrow> closure task option \<Rightarrow> sequence_manager \<Rightarrow> bool" where
  "select_ok reg m r m' \<longleftrightarrow>
     sm_inv m' \<and> sched_inv (sched m') reg \<and> same_frame m m' \<and> quiet (sched m) (sched m') \<and> selected m r m'"

text \<open>An iteration that takes a task away goes on from a state like \<open>m\<close>.\<close>

lemma select_ok_via:
  assumes "select_ok reg m1 r m'" "same_frame m m1" "task_execution_stack m1 = task_execution_stack m" "quiet (sched m) (sched m1)" "pending m1 = pending m"
  shows "select_ok reg m r m'"
proof -
  have "is_cancelled (sched m1) = is_cancelled (sched m)" using assms(4) runsD(7) by (simp add: quiet_def)
  then have "selected m r m'" using selected_via [of m1 r m' m] assms(1,3,5) same_frameD [OF assms(2)] by (simp add: select_ok_def)
  then show ?thesis using assms same_frame_trans [OF assms(2)] quiet_trans [OF assms(4)] by (auto simp: select_ok_def)
qed

lemma sched_frame [simp]: "same_frame m (m\<lparr>sched := s\<rparr>)" "same_frame m (m\<lparr>sched := s, non_nestable_task_queue := ds\<rparr>)"
  "same_frame m (m\<lparr>sched := s, task_execution_stack := st\<rparr>)"
  unfolding same_frame_def
  by (rule exI [of _ s], rule exI [of _ "non_nestable_task_queue m"], rule exI [of _ "task_execution_stack m"], simp)
    (rule exI [of _ s], rule exI [of _ ds], rule exI [of _ "task_execution_stack m"], simp,
     rule exI [of _ s], rule exI [of _ "non_nestable_task_queue m"], rule exI [of _ st], simp)

lemma defer_step:
  assumes m: "sm_inv m" and inv: "sched_inv s reg" and c: "calm (sched m) s" and r: "ready (queues s (q, ty)) = Some (sid, p, k)"
    and t: "\<not> nestable (hd (wq_tasks (queues s (q, ty))))" and n: "0 < nesting_depth m"
  defines "t \<equiv> hd (wq_tasks (queues s (q, ty)))"
  shows "\<exists>s'. TakeTaskFromWorkQueue (q, ty) s = Some (t, s')
    \<and> (let m1 = m\<lparr>sched := s', non_nestable_task_queue := non_nestable_task_queue m @ [(t, q, ty)]\<rparr> in
       sm_inv m1 \<and> sched_inv s' reg \<and> quiet (sched m) s' \<and> pending m1 = pending m
       \<and> total_load s' (set (active_queues m)) < total_load s (set (active_queues m)) \<and> told (sel s) (sel s'))"
proof -
  note run = calmD(1) [OF c]
  have m1: "sm_inv (m\<lparr>sched := s\<rparr>)" using sm_inv_runs [OF m run] .
  note i = sm_invD [OF m1, simplified]
  have wq: "tq_work_queues (task_queues s q)" using ready_live(1) [OF inv r] .
  have A: "q \<in> set (active_queues m)" using queues_okD(2) [OF i(4), of q] wq by simp
  from take_task [OF inv i(2) r A finite_set] obtain s' where
    s': "TakeTaskFromWorkQueue (q, ty) s = Some (t, s')" "sched_inv s' reg" "runs s s'" "calm_on q s s'" "told (sel s) (sel s')"
      "total_load s' (set (active_queues m)) < total_load s (set (active_queues m))" "work_tasks s q ty = t # work_tasks s' q ty"
      "jobs s q = jobs_in (is_cancelled s) [t] + jobs s' q" unfolding t_def by blast
  have tok: "task_ok t" using i(2) s'(7) unfolding tasks_ok_def by (metis list.set_intros(1))
  have "deferred_ok (non_nestable_task_queue m @ [(t, q, ty)]) s'"
    using defer_ok [OF inv i(3) wq s'(3,7)] t tok by (simp add: t_def)
  moreover have "queues_ok (m\<lparr>sched := s'\<rparr>)" using queues_ok_runs [OF sm_invD(4) [OF m] runs_trans [OF run s'(3)]] .
  ultimately have "sm_inv (m\<lparr>sched := s', non_nestable_task_queue := non_nestable_task_queue m @ [(t, q, ty)]\<rparr>)"
    using runsD(1,2) [OF s'(3)] i(5) n by (simp add: sm_inv_def loops_ok_def queues_ok_def)
  moreover have "pending (m\<lparr>sched := s', non_nestable_task_queue := non_nestable_task_queue m @ [(t, q, ty)]\<rparr>) = pending m"
    using pending_take [OF finite_set A s'(8) step_onD [OF calm_onD [OF s'(4)]]] pending_calm [OF c] runsD(7) [OF s'(3)]
    by (simp add: pending_def ac_simps)
  ultimately show ?thesis
    using s' quiet_trans [OF quietI(1) [OF c] quietI(2) [OF s'(3,4)]] by (auto simp: Let_def)
qed

lemma run_step:
  assumes m: "sm_inv m" and inv: "sched_inv s reg" and c: "calm (sched m) s" and r: "ready (queues s (q, ty)) = Some (sid, p, k)"
    and t: "\<not> (\<not> nestable (hd (wq_tasks (queues s (q, ty)))) \<and> 0 < nesting_depth m)" "p \<le> hd (pending_native_work m)"
      "\<not> dropped (is_cancelled s) (hd (wq_tasks (queues s (q, ty))))"
  defines "t \<equiv> hd (wq_tasks (queues s (q, ty)))"
  shows "\<exists>s'. TakeTaskFromWorkQueue (q, ty) s = Some (t, s')
    \<and> select_ok reg m (Some t) (m\<lparr>sched := s', task_execution_stack := task_execution_stack m @ [(t, q)]\<rparr>)"
proof -
  note run = calmD(1) [OF c]
  have m1: "sm_inv (m\<lparr>sched := s\<rparr>)" using sm_inv_runs [OF m run] .
  note i = sm_invD [OF m1, simplified]
  have wq: "tq_work_queues (task_queues s q)" using ready_live(1) [OF inv r] .
  have A: "q \<in> set (active_queues m)" using queues_okD(2) [OF i(4), of q] wq by simp
  from take_task [OF inv i(2) r A finite_set] obtain s' where
    s': "TakeTaskFromWorkQueue (q, ty) s = Some (t, s')" "sched_inv s' reg" "runs s s'" "calm_on q s s'" "work_tasks s q ty = t # work_tasks s' q ty"
      "jobs s q = jobs_in (is_cancelled s) [t] + jobs s' q" unfolding t_def by blast
  have tok: "task_ok t" using i(2) s'(5) unfolding tasks_ok_def by (metis list.set_intros(1))
  have canc: "is_cancelled s = is_cancelled (sched m)" "is_cancelled s' = is_cancelled (sched m)" using runsD(7) [OF s'(3)] runsD(7) [OF run] by simp_all
  let ?m = "m\<lparr>sched := s', task_execution_stack := task_execution_stack m @ [(t, q)]\<rparr>"
  have "sm_inv (m\<lparr>sched := s'\<rparr>)" using sm_inv_runs [OF m runs_trans [OF run s'(3)]] .
  then have "sm_inv ?m" using tok by (auto simp: sm_inv_def loops_ok_def queues_ok_def)
  moreover have "pending m = pending ?m + jobs_in (is_cancelled (sched m)) [t]"
    using pending_take [OF finite_set A s'(6) step_onD [OF calm_onD [OF s'(4)]]] pending_calm [OF c] canc
    by (simp add: pending_def ac_simps)
  moreover have "wq_set_index (imm s' q) = p"
    using s'(4) ready_live(2) [OF inv r] by (auto simp: calm_on_def GetQueuePriority_def Let_def split: if_splits)
  ultimately show ?thesis
    using s'(1,2) t A tok canc quiet_trans [OF quietI(1) [OF c] quietI(2) [OF s'(3,4)]]
    by (auto simp: select_ok_def selected_def t_def)
qed

lemma effective_ok: "loops_ok m \<Longrightarrow> effective_priority m = Some (hd (pending_native_work m))"
  by (auto simp: loops_ok_def effective_priority_def split: list.split)

theorem select_loop_ok:
  assumes "sm_inv m" "sched_inv (sched m) reg" "total_load (sched m) (set (active_queues m)) < fuel"
    "selection_count (sel (sched m)) + int fuel + 16 \<le> limit_max int64_t"
  shows "\<exists>r m'. select_loop fuel m = Some (r, m') \<and> select_ok reg m r m'"
  using assms
proof (induction fuel arbitrary: m)
  case (Suc fuel)
  note inv = Suc.prems(2)
  let ?A = "set (active_queues m)"
  have ok: "tasks_ok (sched m)" using sm_invD(2) [OF Suc.prems(1)] .
  have room: "room (sched m)" using Suc.prems(4) by simp
  from Select_total [OF inv room] obtain r0 s where s: "SelectWorkQueueToService (sched m) = Some (r0, s)"
    "r0 = None \<longrightarrow> (\<forall>w. ready (queues (sched m) w) = None)" "\<forall>w. r0 = Some w \<longrightarrow> (\<exists>sid p k. ready (queues (sched m) w) = Some (sid, p, k) \<and> GetHighestPendingPriority (sched m) = Some (Some p))"
    "selection_count (sel s) \<le> selection_count (sel (sched m)) + 1" by blast
  note same = Select_same [OF inv ok room s(1)]
  have sm: "sm_inv (m\<lparr>sched := s\<rparr>)" using sm_inv_runs [OF Suc.prems(1) calmD(1) [OF same(4)]] .
  have loops: "loops_ok m" using sm_invD(5) [OF Suc.prems(1)] .
  show ?case
  proof (cases r0)
    case None
    have "selected m None (m\<lparr>sched := s\<rparr>)" using None s(2) same(2) pending_calm [OF same(4)] by (simp add: selected_def)
    then have "select_ok reg m None (m\<lparr>sched := s\<rparr>)" using sm same(1) quietI(1) [OF same(4)] by (simp add: select_ok_def)
    then show ?thesis using None s(1) by simp
  next
    case (Some w)
    obtain q ty where w: "w = (q, ty)" by (cases w)
    obtain sid p k where r: "ready (queues s (q, ty)) = Some (sid, p, k)" and hp: "GetHighestPendingPriority (sched m) = Some (Some p)"
      using Some s(3) same(2) w by auto
    note live = ready_live [OF same(1) r]
    have A: "q \<in> ?A" using queues_okD(2) [OF sm_invD(4) [OF sm], of q] live(1) by simp
    from drop_tasks [OF same(1) runsD(2) [OF calmD(1) [OF same(4)]] _ A finite_set, of ty] readyD(1) [OF r] obtain b s2 where
      s2: "RemoveAllCanceledTasksFromFront (q, ty) s = Some (b, s2)" "sched_inv s2 reg" "calm s s2" "told (sel s) (sel s2)"
        "b \<longrightarrow> total_load s2 ?A < total_load s ?A" "\<not> b \<longrightarrow> s2 = s \<and> \<not> dropped (is_cancelled s) (hd (wq_tasks (queues s (q, ty))))" using live(3) by auto
    show ?thesis
    proof (cases b)
      case True
      let ?m = "m\<lparr>sched := s2\<rparr>"
      have c: "calm (sched m) s2" using calm_trans [OF same(4) s2(3)] .
      have "sm_inv ?m" using sm_inv_runs [OF Suc.prems(1) calmD(1) [OF c]] .
      moreover have "total_load s2 ?A < fuel" using True s2(5) same(5) Suc.prems(3) by simp
      ultimately obtain r m' where m': "select_loop fuel ?m = Some (r, m')" "select_ok reg ?m r m'"
        using Suc.IH [of ?m] s2(2) told_count [OF s2(4)] s(4) Suc.prems(4) by auto
      then have "select_ok reg m r m'" using select_ok_via [OF m'(2)] quietI(1) [OF c] pending_calm [OF c] by simp
      then show ?thesis using m'(1) Some s(1) w s2(1) True by simp
    next
      case False
      then have s2s: "s2 = s" and nd: "\<not> dropped (is_cancelled s) (hd (wq_tasks (queues s (q, ty))))" using s2(6) by auto
      let ?t = "hd (wq_tasks (queues s (q, ty)))"
      have front: "GetFrontTask (queues s (q, ty)) = Some ?t" using live(3) by (cases "wq_tasks (queues s (q, ty))") (auto simp: GetFrontTask_def)
      show ?thesis
      proof (cases "\<not> nestable ?t \<and> 0 < nesting_depth m")
        case True
        from defer_step [OF Suc.prems(1) same(1,4) r] True obtain s3 where
          s3: "TakeTaskFromWorkQueue (q, ty) s = Some (?t, s3)"
            "sm_inv (m\<lparr>sched := s3, non_nestable_task_queue := non_nestable_task_queue m @ [(?t, q, ty)]\<rparr>)" "sched_inv s3 reg" "quiet (sched m) s3"
            "pending (m\<lparr>sched := s3, non_nestable_task_queue := non_nestable_task_queue m @ [(?t, q, ty)]\<rparr>) = pending m"
            "total_load s3 ?A < total_load s ?A" "told (sel s) (sel s3)" by (auto simp: Let_def)
        let ?m = "m\<lparr>sched := s3, non_nestable_task_queue := non_nestable_task_queue m @ [(?t, q, ty)]\<rparr>"
        have "total_load s3 ?A < fuel" using s3(6) same(5) Suc.prems(3) by simp
        then obtain r m' where m': "select_loop fuel ?m = Some (r, m')" "select_ok reg ?m r m'"
          using Suc.IH [of ?m] s3(2,3) told_count [OF s3(7)] s(4) Suc.prems(4) by auto
        then have "select_ok reg m r m'" using select_ok_via [OF m'(2)] s3(4,5) by simp
        then show ?thesis using m'(1) Some s(1) w s2(1) s2s \<open>\<not> b\<close> front True s3(1) by simp
      next
        case run: False
        show ?thesis
        proof (cases "p \<le> hd (pending_native_work m)")
          case True
          from run_step [OF Suc.prems(1) same(1,4) r run True nd] show ?thesis
            using Some s(1) w s2(1) s2s \<open>\<not> b\<close> front run live(2) effective_ok [OF loops] True
            by (auto simp: ShouldRunTaskOfPriority_def effective_priority_def)
        next
          case False
          have "native_first (hd (pending_native_work m)) (sched m)" using native_firstI [OF inv hp] False by simp
          moreover have "SelectWorkQueueToService (sched m) = Some (Some w, s)" using s(1) Some by simp
          ultimately have "selected m None (m\<lparr>sched := s\<rparr>)"
            unfolding selected_def using pending_calm [OF same(4)] by (simp del: split_paired_Ex) blast
          then have "select_ok reg m None (m\<lparr>sched := s\<rparr>)" using sm same(1) quietI(1) [OF same(4)] by (simp add: select_ok_def)
          then show ?thesis using Some s(1) w s2(1) s2s \<open>\<not> b\<close> front run live(2) effective_ok [OF loops] False
            by (auto simp: ShouldRunTaskOfPriority_def effective_priority_def)
        qed
      qed
    qed
  qed
qed simp

section \<open>SelectNextTask\<close>

text \<open>
  No enabled queue has a task that may run: tasks in its work queues lie behind its fence, and its delayed
  tasks are not due.
\<close>

definition work_blocked :: "sequence_manager \<Rightarrow> bool" where
  "work_blocked m \<longleftrightarrow>
     (\<forall>q \<in> set (active_queues m). let i = task_queues (sched m) q in tq_is_enabled i \<longrightarrow>
        (\<forall>ty. \<forall>t \<in> set (work_tasks (sched m) q ty). tq_current_fence i \<noteq> 0 \<and> tq_current_fence i \<le> enqueue_order_set_to t))"

definition nothing_due :: "sequence_manager \<Rightarrow> bool" where
  "nothing_due m \<longleftrightarrow>
     work_blocked m
     \<and> (\<forall>q \<in> set (active_queues m). tq_is_enabled (task_queues (sched m) q) \<longrightarrow>
          (\<forall>t \<in> set (delayed_tasks (sched m) q). queue_now q (sched m) < delayed_run_time t))"

lemma not_ready_blocked:
  assumes inv: "sched_inv s reg" and wq: "tq_work_queues (task_queues s q)" and en: "tq_is_enabled (task_queues s q)"
    and flag: "\<not> tq_reload_flag (task_queues s q)" and r: "ready (queues s (q, ty)) = None" and t: "t \<in> set (work_tasks s q ty)"
  shows "tq_current_fence (task_queues s q) \<noteq> 0 \<and> tq_current_fence (task_queues s q) \<le> enqueue_order_set_to t"
proof -
  note l = sched_invD(5) [OF inv wq]
  have sets: "wq_sets (queues s (q, ty)) \<noteq> None" and fence: "wq_fence (queues s (q, ty)) = tq_current_fence (task_queues s q)"
    using liveD(4,5) [OF l] en by (cases ty; simp add: assigned_ok_def fence_ok_def)+
  have ne: "wq_tasks (queues s (q, ty)) \<noteq> []"
    using t liveD(3) [OF l] flag by (cases ty) (auto simp: work_tasks_def pending_immediate_def mirror_ok_def)
  then obtain u us where us: "wq_tasks (queues s (q, ty)) = u # us" by (cases "wq_tasks (queues s (q, ty))") auto
  have "blocked (queues s (q, ty))" using r sets ne by (auto simp: ready_def front_def split: if_splits)
  then have "tq_current_fence (task_queues s q) \<noteq> 0 \<and> tq_current_fence (task_queues s q) \<le> enqueue_order_set_to u"
    using us fence by (simp add: blocked_def)
  moreover have "enqueue_order_set_to u \<le> enqueue_order_set_to t"
    using work_sorted(1) [OF inv wq, of ty] t us by (cases ty) (auto simp: work_tasks_def pending_immediate_def)
  ultimately show ?thesis by linarith
qed

lemma work_blockedI:
  assumes "queues_ok m" "sched_inv (sched m) reg" "\<forall>q. \<not> tq_reload_flag (task_queues (sched m) q)" "\<forall>w. ready (queues (sched m) w) = None"
  shows "work_blocked m"
  unfolding work_blocked_def Let_def using not_ready_blocked [OF assms(2)] queues_okD(2) [OF assms(1)] assms(3,4) by blast

lemma nothing_dueI:
  assumes q: "queues_ok m" and inv: "sched_inv (sched m) reg" and flag: "\<forall>q. \<not> tq_reload_flag (task_queues (sched m) q)"
    and r: "\<forall>w. ready (queues (sched m) w) = None"
    and due: "\<forall>d \<in> set (registered_time_domains m). due_queues reg d (td_now (time_domains (sched m) d)) = {}"
  shows "nothing_due m"
  unfolding nothing_due_def
proof (intro conjI ballI impI)
  fix q t assume a: "q \<in> set (active_queues m)" and en: "tq_is_enabled (task_queues (sched m) q)" and t: "t \<in> set (delayed_tasks (sched m) q)"
  obtain d where d: "tq_time_domain (task_queues (sched m) q) = Some d" "d \<in> set (registered_time_domains m)"
    using a assms(1) by (auto simp: queues_ok_def)
  have "none_due (sched m) d (td_now (time_domains (sched m) d))" using none_dueI [OF inv] due d(2) by blast
  then show "queue_now q (sched m) < delayed_run_time t" using t d en by (simp add: none_due_def queue_now_def)
qed (rule work_blockedI [OF q inv flag r])

definition all_tasks :: "sequence_manager \<Rightarrow> nat" where
  "all_tasks m = (\<Sum>q \<in> set (active_queues m). task_count (sched m) q)"

text \<open>There is room for the selections of one call in the counter of selections.\<close>

definition selections_left :: "sequence_manager \<Rightarrow> bool" where
  "selections_left m \<longleftrightarrow> selection_count (sel (sched m)) + int (all_tasks m) + 17 \<le> limit_max int64_t"

lemma load_le: "(\<And>q. task_count s' q \<le> task_count s q) \<Longrightarrow> total_load s' A \<le> (\<Sum>q\<in>A. task_count s q)"
  unfolding total_load_def by (rule sum_mono) (metis add_leD1 load_def task_count_def)

lemma pending_keeps: "keeps (sched m) s' \<Longrightarrow> pending (m\<lparr>sched := s'\<rparr>) = pending m"
  using keepsD(2) runsD(7) [OF keepsD(1)] by (simp add: pending_def)

lemma SelectNextTaskImpl_ok:
  assumes m: "sm_inv m" and room: "selections_left m" and order: "\<forall>q. tq_reload_flag (task_queues (sched m) q) \<longrightarrow> q \<in> set order"
  shows "\<exists>r m'. SelectNextTaskImpl order m = Some (r, m') \<and> sm_inv m' \<and> selected m r m' \<and> runs (sched m) (sched m')
    \<and> active_queues m' = active_queues m \<and> nesting_depth m' = nesting_depth m
    \<and> (r = None \<longrightarrow> nothing_due m' \<or> (\<exists>s w. SelectWorkQueueToService s = Some (Some w, sched m') \<and> native_first (hd (pending_native_work m)) s))"
proof -
  obtain reg where inv: "sched_inv (sched m) reg" by (rule sched_okE [OF sm_invD(1) [OF m]])
  from ReloadEmptyWorkQueues_ok [OF inv sm_invD(2) [OF m], of order] obtain s1 where
    s1: "ReloadEmptyWorkQueues order (sched m) = Some s1" "sched_inv s1 reg" "keeps (sched m) s1" "same_count (sched m) s1"
      "\<forall>p. tq_reload_flag (task_queues s1 p) \<longleftrightarrow> tq_reload_flag (task_queues (sched m) p) \<and> p \<notin> set order" by blast
  note q = queues_okD [OF sm_invD(4) [OF m]]
  let ?real = "real_time_domain m" and ?ds = "registered_time_domains m"
  let ?now = "td_now (time_domains s1 ?real)"
  from move_ready_domains_ok [OF s1(2) runsD(2) [OF keepsD(1) [OF s1(3)]] q(4), of ?real ?now] obtain s2 reg2 where
    s2: "move_ready_domains ?ds ?real ?now s1 = Some s2" "sched_inv s2 reg2" "calm s1 s2" "same_count s1 s2"
      "\<forall>d \<in> set ?ds. due_queues reg2 d (if d = ?real then ?now else td_now (time_domains s1 d)) = {}" by blast
  have k: "keeps (sched m) s2" using keeps_trans [OF s1(3)] s2(3) by (auto simp: calm_def)
  define m2 where "m2 = m\<lparr>sched := s2, memory_reclaim_scheduled := memory_reclaim_scheduled m
      \<or> (?real \<in> set ?ds \<and> \<not> heap_empty (wake_view s1 ?real)) \<and> next_time_to_reclaim_memory m \<le> ?now\<rparr>"
  have "sm_inv (m\<lparr>sched := s2\<rparr>)" using sm_inv_runs [OF m keepsD(1) [OF k]] .
  then have m2: "sm_inv m2" by (simp add: m2_def sm_inv_def queues_ok_def loops_ok_def)
  have bl: "backlog m2 = total_load s2 (set (active_queues m))" using backlog_eq [of m2] q(3) by (simp add: m2_def)
  have "total_load s2 (set (active_queues m)) \<le> all_tasks m" unfolding all_tasks_def by (rule load_le [OF keepsD(3) [OF k]])
  then have "selection_count (sel (sched m2)) + int (backlog m2 + 1) + 16 \<le> limit_max int64_t"
    using room s1(4) s2(4) bl by (simp add: selections_left_def m2_def)
  from select_loop_ok [OF m2, of reg2 "backlog m2 + 1"] this s2(2) bl obtain r m' where
    m': "select_loop (backlog m2 + 1) m2 = Some (r, m')" "select_ok reg2 m2 r m'" by (auto simp: m2_def)
  have run: "SelectNextTaskImpl order m = Some (r, m')"
  proof -
    have "(if (?real \<in> set ?ds \<and> \<not> heap_empty (wake_view s1 ?real)) \<and> next_time_to_reclaim_memory m \<le> ?now
        then m\<lparr>sched := s2, memory_reclaim_scheduled := True\<rparr> else m\<lparr>sched := s2\<rparr>) = m2" by (cases m) (auto simp: m2_def)
    then show ?thesis using s1(1) s2(1) m'(1)
      by (auto simp: SelectNextTaskImpl_def Let_def sm_MoveReadyDelayedTasksToWorkQueues_def controller_now_def simp del: select_loop.simps
          split: if_splits)
  qed
  have sel: "selected m r m'" and sm: "sm_inv m'" and inv': "sched_inv (sched m') reg2" and qu: "quiet s2 (sched m')" and fr: "same_frame m2 m'"
    using m'(2) selected_via [of m2 r m' m] runsD(7) [OF keepsD(1) [OF k]] pending_keeps [OF k]
    by (auto simp: select_ok_def m2_def pending_def)
  note f = same_frameD [OF fr]
  have rn: "runs s2 (sched m')" using qu by (simp add: quiet_def)
  have "nothing_due m'" if "\<forall>w. ready (queues (sched m') w) = None"
  proof (rule nothing_dueI [OF sm_invD(4) [OF sm] inv' _ that])
    show "\<forall>q. \<not> tq_reload_flag (task_queues (sched m') q)"
      using qu s1(5) order calmD(4) [OF s2(3)] by (auto simp: quiet_def)
    show "\<forall>d \<in> set (registered_time_domains m'). due_queues reg2 d (td_now (time_domains (sched m') d)) = {}"
      using s2(5) runsD(6) [OF rn] runsD(6) [OF calmD(1) [OF s2(3)]] f(2) by (auto simp: m2_def split: if_splits)
  qed
  then show ?thesis
    using run sel sm runs_trans [OF keepsD(1) [OF k] rn] f by (auto simp: selected_def m2_def)
qed

section \<open>Leaving a nested run loop\<close>

lemma requeue_ok:
  assumes inv: "sched_inv s reg" and ok: "tasks_ok s" and wq: "tq_work_queues (task_queues s q)" and t: "may_requeue s q ty t" "task_ok t"
  shows "\<exists>s'. RequeueDeferredNonNestableTask q ty t s = Some s' \<and> sched_inv s' reg \<and> tasks_ok s' \<and> step_on q s s'
    \<and> work_tasks s' q ty = t # work_tasks s q ty \<and> (\<forall>ty'. ty' \<noteq> ty \<longrightarrow> work_tasks s' q ty' = work_tasks s q ty')
    \<and> jobs s' q = jobs_in (is_cancelled s) [t] + jobs s q"
proof -
  from RequeueDeferredNonNestableTask_ok [OF inv wq t(1)] obtain s' where
    s': "RequeueDeferredNonNestableTask q ty t s = Some s'" "sched_inv s' reg" "step_on q s s'"
      "tasks_of s' q = tasks_left s q ty (t # wq_tasks (queues s (q, ty)))" by blast
  have e: "work_tasks s' q kImmediate = (if ty = kImmediate then t # work_tasks s q kImmediate else work_tasks s q kImmediate)"
    "work_tasks s' q kDelayed = (if ty = kImmediate then work_tasks s q kDelayed else t # work_tasks s q kDelayed)" "delayed_tasks s' q = delayed_tasks s q"
    using s'(4) unfolding tasks_of_eq tasks_left_def by (cases ty; simp add: work_tasks_def [of s] pending_immediate_def delayed_tasks_def [of s])+
  have w: "work_tasks s' q ty = t # work_tasks s q ty" "\<forall>ty'. ty' \<noteq> ty \<longrightarrow> work_tasks s' q ty' = work_tasks s q ty'" "delayed_tasks s' q = delayed_tasks s q"
  proof -
    show "work_tasks s' q ty = t # work_tasks s q ty" using e(1,2) by (cases ty) simp_all
    show "\<forall>ty'. ty' \<noteq> ty \<longrightarrow> work_tasks s' q ty' = work_tasks s q ty'"
    proof (intro allI impI)
      fix ty' assume "ty' \<noteq> ty" then show "work_tasks s' q ty' = work_tasks s q ty'" using e(1,2) by (cases ty; cases ty') simp_all
    qed
  qed (rule e(3))
  have o: "others q s s'" using step_onD [OF s'(3)] .
  have "set (work_tasks s' p ty') \<subseteq> insert t (set (work_tasks s p ty'))" for p ty'
    using w(1,2) others_tasks(1) [OF o, of p ty'] by (cases "p = q"; cases "ty' = ty") auto
  moreover have "delayed_tasks s' p = delayed_tasks s p" for p using w(3) others_tasks(2) [OF o, of p] by (cases "p = q") auto
  ultimately have "tasks_ok s'" using ok t(2) unfolding tasks_ok_def by (metis (no_types, lifting) insertE subsetD)
  moreover have "jobs s' q = jobs_in (is_cancelled s) [t] + jobs s q"
    using w o by (cases ty) (auto simp: jobs_def others_def ac_simps)
  ultimately show ?thesis using s' w by blast
qed

definition requeued :: "(closure task \<times> nat \<times> queue_type) list \<Rightarrow> scheduler \<Rightarrow> scheduler \<Rightarrow> bool" where
  "requeued ds s s' \<longleftrightarrow>
     sched_ok s' \<and> tasks_ok s' \<and> same_owners s s' \<and> is_cancelled s' = is_cancelled s
     \<and> (\<forall>A. finite A \<and> (fst \<circ> snd) ` set ds \<subseteq> A \<longrightarrow>
          (\<Sum>q\<in>A. jobs s' q) = (\<Sum>q\<in>A. jobs s q) + jobs_in (is_cancelled s) (map fst ds))"

lemma deferred_of_snoc: "deferred_of (ds @ [(t, q, ty)]) p ty' = deferred_of ds p ty' @ (if (q, ty) = (p, ty') then [t] else [])"
  by (simp add: deferred_of_def)

lemma deferred_ok_last:
  assumes "deferred_ok (ds @ [(t, q, ty)]) s" "step_on q s s'" "work_tasks s' q ty = t # work_tasks s q ty"
    "\<forall>ty'. ty' \<noteq> ty \<longrightarrow> work_tasks s' q ty' = work_tasks s q ty'"
  shows "deferred_ok ds s'"
proof -
  have o: "others q s s'" using step_onD [OF assms(2)] .
  have so: "sorted (task_orders (deferred_of ds p ty' @ (if (q, ty) = (p, ty') then [t] else [])))" for p ty'
    using assms(1) unfolding deferred_ok_def deferred_of_snoc by blast
  then have sorted: "sorted (task_orders (deferred_of ds p ty'))" for p ty' by (metis map_append sorted_append)
  have "may_requeue s' p ty' u \<and> tq_work_queues (task_queues s' p) \<and> task_ok u" if u: "(u, p, ty') \<in> set ds" for u p ty'
  proof -
    have old: "may_requeue s p ty' u" "tq_work_queues (task_queues s p)" "task_ok u" using assms(1) u by (auto simp: deferred_ok_def)
    have cnt: "order_counter s \<le> order_counter s'" and own: "tq_work_queues (task_queues s' p) = tq_work_queues (task_queues s p)"
      using o assms(2) by (cases "p = q"; auto simp: others_def step_on_def same_impl_def)+
    have "enqueue_order_set_to u \<le> enqueue_order_set_to t" if "(p, ty') = (q, ty)"
    proof -
      have "sorted (task_orders (deferred_of ds q ty @ [t]))" using so [of q ty] by simp
      moreover have "u \<in> set (deferred_of ds q ty)" using u that by (force simp: deferred_of_def)
      ultimately show ?thesis by (auto simp: sorted_append)
    qed
    then have "may_requeue s' p ty' u"
      using old(1) cnt assms(3,4) others_tasks(1) [OF o, of p ty'] by (cases "p = q"; cases "ty' = ty") (auto simp: may_requeue_eq)
    then show ?thesis using old own by simp
  qed
  then show ?thesis using sorted by (auto simp: deferred_ok_def)
qed

lemma requeue_all_ok:
  assumes "sched_ok s" "tasks_ok s" "deferred_ok ds s"
  shows "\<exists>s'. requeue_all (rev ds) s = Some s' \<and> requeued ds s s'"
  using assms
proof (induction ds arbitrary: s rule: rev_induct)
  case Nil
  then show ?case by (simp add: requeued_def same_owners_def)
next
  case (snoc x ds)
  obtain t q ty where x: "x = (t, q, ty)" by (cases x)
  obtain reg where inv: "sched_inv s reg" by (rule sched_okE [OF snoc.prems(1)])
  have d: "tq_work_queues (task_queues s q)" "may_requeue s q ty t" "task_ok t" using snoc.prems(3) x by (auto simp: deferred_ok_def)
  from requeue_ok [OF inv snoc.prems(2) d] obtain u where
    u: "RequeueDeferredNonNestableTask q ty t s = Some u" "sched_inv u reg" "tasks_ok u" "step_on q s u"
      "work_tasks u q ty = t # work_tasks s q ty" "\<forall>ty'. ty' \<noteq> ty \<longrightarrow> work_tasks u q ty' = work_tasks s q ty'"
      "jobs u q = jobs_in (is_cancelled s) [t] + jobs s q" by blast
  have "deferred_ok ds u" using deferred_ok_last [OF _ u(4-6)] snoc.prems(3) x by blast
  then obtain s' where s': "requeue_all (rev ds) u = Some s'" "requeued ds u s'" using snoc.IH u(2,3) by (auto simp: sched_ok_def)
  have o: "others q s u" using step_onD [OF u(4)] .
  have own: "same_owners s u" unfolding same_owners_def
  proof
    fix p show "tq_work_queues (task_queues u p) = tq_work_queues (task_queues s p) \<and> tq_time_domain (task_queues u p) = tq_time_domain (task_queues s p)"
      using o u(4) by (cases "p = q") (auto simp: others_def step_on_def same_impl_def)
  qed
  have canc: "is_cancelled u = is_cancelled s" using o by (simp add: others_def)
  have "(\<Sum>p\<in>A. jobs u p) = jobs_in (is_cancelled s) [t] + (\<Sum>p\<in>A. jobs s p)" if "finite A" "q \<in> A" for A
  proof -
    have "(\<Sum>p\<in>A. jobs u p) = jobs u q + (\<Sum>p\<in>A - {q}. jobs u p)" using that by (simp add: sum.remove)
    also have "\<dots> = jobs_in (is_cancelled s) [t] + (jobs s q + (\<Sum>p\<in>A - {q}. jobs s p))" using u(7) jobs_others(1) [OF o] by (simp add: add.assoc)
    finally show ?thesis using that by (simp add: sum.remove)
  qed
  then have "requeued (ds @ [x]) s s'"
    using s'(2) own canc x by (auto simp: requeued_def same_owners_def ac_simps)
  then show ?case using s'(1) u(1) x by simp
qed

lemma OnExitNestedRunLoop_ok:
  assumes m: "sm_inv m" and n: "0 < nesting_depth m"
  shows "\<exists>m'. OnExitNestedRunLoop m = Some m' \<and> sm_inv m' \<and> pending m' = pending m \<and> is_cancelled (sched m') = is_cancelled (sched m)"
proof (cases "nesting_depth m = 1")
  case True
  note i = sm_invD [OF m]
  from requeue_all_ok [OF i(1-3)] obtain s' where s': "requeue_all (rev (non_nestable_task_queue m)) (sched m) = Some s'" "requeued (non_nestable_task_queue m) (sched m) s'" by blast
  let ?m = "m\<lparr>nesting_depth := 0, sched := s', non_nestable_task_queue := []\<rparr>"
  have own: "\<forall>q. tq_work_queues (task_queues s' q) = tq_work_queues (task_queues (sched m) q) \<and> tq_time_domain (task_queues s' q) = tq_time_domain (task_queues (sched m) q)"
    using s'(2) by (simp add: requeued_def same_owners_def)
  have "(fst \<circ> snd) ` set (non_nestable_task_queue m) \<subseteq> set (active_queues m)"
    using i(3) queues_okD(2) [OF i(4)] by (auto simp: deferred_ok_def)
  then have "pending ?m = pending m" using s'(2) by (simp add: requeued_def pending_def)
  moreover have "sm_inv ?m" using i own s'(2) by (simp add: sm_inv_def requeued_def queues_ok_def loops_ok_def deferred_ok_def deferred_of_def)
  ultimately show ?thesis using True s' by (auto simp: OnExitNestedRunLoop_def requeued_def)
next
  case False
  then have "sm_inv (m\<lparr>nesting_depth := nesting_depth m - 1\<rparr>)" using m n by (auto simp: sm_inv_def queues_ok_def loops_ok_def)
  then show ?thesis using n False by (auto simp: OnExitNestedRunLoop_def pending_def)
qed

end
