(* ===== verification/Sequence_Manager_Calls.thy ===== *)
theory Sequence_Manager_Calls
  imports Sequence_Manager_Steps
begin

text \<open>
  The calls of the sequence manager that create and destroy queues, do housekeeping, post and start tasks
  and say how long the thread may sleep: they return and keep the invariant and the jobs that are pending.
\<close>

section \<open>Creating and unregistering queues\<close>

lemma set_insert_sorted [simp]:
  "set (set_insert x xs) = insert x (set xs)" "sorted_wrt (<) xs \<Longrightarrow> sorted_wrt (<) (set_insert x xs)"
  by (auto simp: set_insert_def set_insort_key strict_sorted_iff distinct_insort sorted_insort)

lemma remove1_sorted [simp]: "sorted_wrt (<) (xs :: nat list) \<Longrightarrow> sorted_wrt (<) (remove1 x xs)"
  by (auto simp: strict_sorted_iff sorted_remove1)

lemma remove1_set: "sorted_wrt (<) (xs :: nat list) \<Longrightarrow> set (remove1 x xs) = set xs - {x}"
  by (simp add: strict_sorted_iff)

text \<open>What a step on one queue does that neither posts nor runs anything.\<close>

lemma owners_others:
  assumes "others q s s'" "p \<noteq> q"
  shows "tq_work_queues (task_queues s' p) = tq_work_queues (task_queues s p)" "tq_time_domain (task_queues s' p) = tq_time_domain (task_queues s p)"
  using assms by (auto simp: others_def same_impl_def)

lemma evolves_empty:
  assumes "tasks_ok s" "others q s s'" "tasks_of s' q = ([], [], [])"
  shows "evolves s s'"
  using evolvesI [OF assms] by simp

lemma deferred_others:
  assumes "deferred_ok ds s" "others q s s'" "evolves s s'" "\<forall>x \<in> set ds. fst (snd x) \<noteq> q"
  shows "deferred_ok ds s'"
  using assms(1,4) may_requeue_evolves [OF _ assms(3)] owners_others(1) [OF assms(2)] unfolding deferred_ok_def by fastforce

lemma jobs_empty: "tasks_of s q = ([], [], []) \<Longrightarrow> jobs s q = {#}"
  by (simp add: tasks_of_eq jobs_def)

lemma sum_jobs_others: "others q s s' \<Longrightarrow> q \<notin> A \<Longrightarrow> (\<Sum>p\<in>A. jobs s' p) = (\<Sum>p\<in>A. jobs s p)"
  by (intro sum.cong refl jobs_others(1)) auto

lemma gone_tasks:
  assumes "sched_inv s reg" "\<not> tq_work_queues (task_queues s q)"
  shows "gone (task_queues s q) (imm s q) (del s q) (reg q)"
  using sched_invD(4) [OF assms(1), of q] assms(2) liveD(8) by (auto simp: queue_inv_def)

lemma CreateTaskQueueImpl_ok:
  assumes m: "sm_inv m" and q: "q \<notin> set (active_queues m)" "q \<notin> set (queues_to_delete m)"
    and d: "\<forall>x. d = Some x \<longrightarrow> x \<in> set (registered_time_domains m)"
  shows "\<exists>m'. CreateTaskQueueImpl q d False m = Some m' \<and> sm_inv m' \<and> pending m' = pending m \<and> is_cancelled (sched m') = is_cancelled (sched m)"
proof -
  note i = sm_invD [OF m] and qs = queues_okD [OF sm_invD(4) [OF m]]
  let ?d = "case d of Some d \<Rightarrow> d | None \<Rightarrow> real_time_domain m"
  obtain reg where inv: "sched_inv (sched m) reg" by (rule sched_okE [OF i(1)])
  have g: "gone (task_queues (sched m) q) (imm (sched m) q) (del (sched m) q) (reg q)" using gone_tasks [OF inv] qs(2) q(1) by simp
  from create_queue_ok [OF inv g, of ?d] obtain t s' where
    s': "TaskQueueImpl q ?d False (sched m) = Some t" "selector_AddQueue (tq_is_enabled (task_queues t q)) q t = Some s'" "sched_inv s' reg"
      "others q (sched m) s'" "tasks_of s' q = ([], [], [])" "tq_work_queues (task_queues s' q)" "tq_time_domain (task_queues s' q) = Some ?d" by blast
  let ?m = "m\<lparr>active_queues := set_insert q (active_queues m), sched := s'\<rparr>"
  have dr: "?d \<in> set (registered_time_domains m)" using d i(4) by (auto simp: queues_ok_def split: option.split)
  have ev: "evolves (sched m) s'" using evolves_empty [OF i(2) s'(4,5)] .
  have "\<forall>x \<in> set (non_nestable_task_queue m). fst (snd x) \<noteq> q" using i(3) qs(2) q(1) by (auto simp: deferred_ok_def)
  then have "deferred_ok (non_nestable_task_queue m) s'" using deferred_others [OF i(3) s'(4) ev] by blast
  moreover have "queues_ok ?m"
  proof -
    have "tq_work_queues (task_queues s' p) \<longleftrightarrow> p = q \<or> p \<in> set (active_queues m)" for p
      using owners_others(1) [OF s'(4), of p] s'(6) qs(2) [of p] by (cases "p = q") auto
    moreover have "tq_time_domain (task_queues s' p) \<in> Some ` set (registered_time_domains m)" if "p = q \<or> p \<in> set (active_queues m)" for p
      using that owners_others(2) [OF s'(4), of p] s'(7) dr i(4) by (cases "p = q") (auto simp: queues_ok_def)
    ultimately show ?thesis using i(4) q by (auto simp: queues_ok_def)
  qed
  ultimately have "sm_inv ?m" using s'(3) ev i(5) by (auto simp: sm_inv_def sched_ok_def evolves_def loops_ok_def)
  moreover have "pending ?m = pending m"
    using sum_jobs_others [OF s'(4) q(1)] jobs_empty [OF s'(5)] q(1) s'(4) by (simp add: pending_def others_def)
  ultimately show ?thesis using s' dr by (auto simp: CreateTaskQueueImpl_def others_def)
qed

text \<open>The state after a queue was unregistered; its tasks are gone.\<close>

lemma UnregisterTaskQueueImpl_ok:
  assumes m: "sm_inv m" and q: "q \<in> set (active_queues m)" and ds: "\<forall>x \<in> set (non_nestable_task_queue m). fst (snd x) \<noteq> q"
  shows "\<exists>m'. UnregisterTaskQueueImpl q m = Some m' \<and> queues_to_gracefully_shutdown m' = queues_to_gracefully_shutdown m
    \<and> active_queues m' = remove1 q (active_queues m)
    \<and> sm_inv (m'\<lparr>queues_to_gracefully_shutdown := remove1 q (queues_to_gracefully_shutdown m)\<rparr>)
    \<and> pending m = pending m' + jobs (sched m) q \<and> is_cancelled (sched m') = is_cancelled (sched m)
    \<and> nesting_depth m' = nesting_depth m \<and> non_nestable_task_queue m' = non_nestable_task_queue m
    \<and> (\<forall>p. p \<noteq> q \<longrightarrow> jobs (sched m') p = jobs (sched m) p) \<and> queues_to_delete m' = set_insert q (queues_to_delete m) \<and> task_execution_stack m' = task_execution_stack m"
proof -
  note i = sm_invD [OF m] and qs = queues_okD [OF sm_invD(4) [OF m]]
  obtain reg where inv: "sched_inv (sched m) reg" by (rule sched_okE [OF i(1)])
  from destroy_queue_ok [OF inv, of q] qs(2) q obtain t s' where
    s': "selector_RemoveQueue (tq_is_enabled (task_queues (sched m) q)) q (sched m) = Some t" "UnregisterTaskQueue q t = Some s'" "sched_inv s' (reg(q := None))"
      "others q (sched m) s'" "\<not> tq_work_queues (task_queues s' q)" "tasks_of s' q = ([], [], [])" by blast
  let ?m = "m\<lparr>sched := s', active_queues := remove1 q (active_queues m), queues_to_delete := set_insert q (queues_to_delete m)\<rparr>"
  let ?n = "?m\<lparr>queues_to_gracefully_shutdown := remove1 q (queues_to_gracefully_shutdown m)\<rparr>"
  have ev: "evolves (sched m) s'" using evolves_empty [OF i(2) s'(4,6)] .
  have del: "deferred_ok (non_nestable_task_queue m) s'" using deferred_others [OF i(3) s'(4) ev ds] .
  have own: "tq_work_queues (task_queues s' p) \<longleftrightarrow> p \<in> set (active_queues m) - {q}" for p
    using owners_others(1) [OF s'(4), of p] s'(5) qs(2) [of p] by (cases "p = q") auto
  have "queues_ok ?n"
    using i(4) own owners_others(2) [OF s'(4)] by (auto simp: queues_ok_def remove1_set)
  then have "sm_inv ?n" using s'(3) ev del i(5) by (auto simp: sm_inv_def sched_ok_def evolves_def loops_ok_def)
  moreover have "pending m = pending ?m + jobs (sched m) q"
  proof -
    have "(\<Sum>p\<in>set (active_queues m). jobs (sched m) p) = jobs (sched m) q + (\<Sum>p\<in>set (active_queues m) - {q}. jobs (sched m) p)"
      using q by (simp add: sum.remove)
    then show ?thesis using sum_jobs_others [OF s'(4), of "set (active_queues m) - {q}"] s'(4) qs(1) by (simp add: pending_def remove1_set others_def ac_simps)
  qed
  ultimately show ?thesis using s' jobs_others(1) [OF s'(4)] by (auto simp: UnregisterTaskQueueImpl_def others_def)
qed

lemma IsEmpty_ok:
  assumes "sched_inv s reg" "tq_work_queues (task_queues s q)"
  shows "tq_IsEmpty q s = Some (tasks_of s q = ([], [], []))"
  using assms(2) by (auto simp: tq_IsEmpty_def tasks_of_def pending_immediate_def work_queues_of_def)

definition housekept :: "sequence_manager \<Rightarrow> sequence_manager \<Rightarrow> bool" where
  "housekept m m' \<longleftrightarrow>
     sm_inv m' \<and> pending m' = pending m \<and> is_cancelled (sched m') = is_cancelled (sched m) \<and> nesting_depth m' = nesting_depth m
     \<and> task_execution_stack m' = task_execution_stack m"

lemma clean_up_loop_ok:
  assumes "sm_inv m" "nesting_depth m = 0" "distinct qs" "set qs \<subseteq> set (queues_to_gracefully_shutdown m)"
  shows "\<exists>m'. clean_up_loop qs m = Some m' \<and> housekept m m'"
  using assms
proof (induction qs arbitrary: m)
  case Nil
  then show ?case by (simp add: housekept_def)
next
  case (Cons q qs)
  note i = sm_invD [OF Cons.prems(1)] and q = queues_okD [OF sm_invD(4) [OF Cons.prems(1)]]
  obtain reg where inv: "sched_inv (sched m) reg" by (rule sched_okE [OF i(1)])
  have a: "q \<in> set (active_queues m)" using Cons.prems(4) q(6) by auto
  have e: "tq_IsEmpty q (sched m) = Some (tasks_of (sched m) q = ([], [], []))" using IsEmpty_ok [OF inv] q(2) a by simp
  show ?case
  proof (cases "tasks_of (sched m) q = ([], [], [])")
    case False
    then show ?thesis using Cons.IH [of m] Cons.prems e by simp
  next
    case True
    have "non_nestable_task_queue m = []" using i(5) Cons.prems(2) by (simp add: loops_ok_def)
    with UnregisterTaskQueueImpl_ok [OF Cons.prems(1) a] obtain m1 where
      m1: "UnregisterTaskQueueImpl q m = Some m1" "queues_to_gracefully_shutdown m1 = queues_to_gracefully_shutdown m" "active_queues m1 = remove1 q (active_queues m)"
        "sm_inv (m1\<lparr>queues_to_gracefully_shutdown := remove1 q (queues_to_gracefully_shutdown m)\<rparr>)" "pending m = pending m1 + jobs (sched m) q"
        "is_cancelled (sched m1) = is_cancelled (sched m)" "nesting_depth m1 = nesting_depth m" "task_execution_stack m1 = task_execution_stack m" by auto
    let ?m = "m1\<lparr>active_queues := remove1 q (active_queues m1), queues_to_gracefully_shutdown := remove1 q (queues_to_gracefully_shutdown m1)\<rparr>"
    have "remove1 q (active_queues m1) = active_queues m1" using m1(3) q(3) by (simp add: remove1_idem)
    then have m: "?m = m1\<lparr>queues_to_gracefully_shutdown := remove1 q (queues_to_gracefully_shutdown m)\<rparr>" using m1(2) by simp
    have "set qs \<subseteq> set (queues_to_gracefully_shutdown ?m)" using Cons.prems(3,4) m1(2) q(5) by auto
    then obtain m' where m': "clean_up_loop qs ?m = Some m'" "housekept ?m m'" using Cons.IH [of ?m] m m1(4,7) Cons.prems(2,3) by auto
    have "pending ?m = pending m" using m m1(5) jobs_empty [OF True] by (simp add: pending_def)
    then have "housekept m m'" using m'(2) m m1 by (simp add: housekept_def)
    then show ?thesis using m' e True m1(1) by simp
  qed
qed

lemma clear_queues_ok:
  assumes "\<forall>q \<in> set qs. tq_unregistered (task_queues (sched m) q)"
  shows "clear_queues_to_delete qs m = Some (m\<lparr>queues_to_delete := []\<rparr>)"
  using assms by (induction qs) auto

lemma CleanUpQueues_ok:
  assumes m: "sm_inv m" and n: "nesting_depth m = 0"
  shows "\<exists>m'. CleanUpQueues m = Some m' \<and> housekept m m'"
proof -
  from clean_up_loop_ok [OF m n queues_okD(5) [OF sm_invD(4) [OF m]] order_refl] obtain m1 where
    m1: "clean_up_loop (queues_to_gracefully_shutdown m) m = Some m1" "housekept m m1" by blast
  have i: "sm_inv m1" using m1(2) by (simp add: housekept_def)
  obtain reg where inv: "sched_inv (sched m1) reg" by (rule sched_okE [OF sm_invD(1) [OF i]])
  have "tq_unregistered (task_queues (sched m1) q)" if "q \<in> set (queues_to_delete m1)" for q
    using that gone_tasks [OF inv, of q] sm_invD(4) [OF i] by (auto simp: queues_ok_def gone_def)
  then have "clear_queues_to_delete (queues_to_delete m1) m1 = Some (m1\<lparr>queues_to_delete := []\<rparr>)" using clear_queues_ok by blast
  moreover have "housekept m (m1\<lparr>queues_to_delete := []\<rparr>)"
    using m1(2) by (auto simp: housekept_def sm_inv_def queues_ok_def loops_ok_def pending_def)
  ultimately show ?thesis using m1(1) by (simp add: CleanUpQueues_def)
qed

lemma DidRunTask_ok:
  assumes m: "sm_inv m" and st: "task_execution_stack m \<noteq> []"
  shows "\<exists>m'. DidRunTask m = Some m' \<and> housekept (m\<lparr>task_execution_stack := butlast (task_execution_stack m)\<rparr>) m'"
proof -
  let ?m = "m\<lparr>task_execution_stack := butlast (task_execution_stack m)\<rparr>"
  have "sm_inv ?m" using m by (auto simp: sm_inv_def queues_ok_def loops_ok_def dest: in_set_butlastD)
  then show ?thesis
    using CleanUpQueues_ok [of ?m] st by (cases "nesting_depth m = 0") (auto simp: DidRunTask_def housekept_def)
qed

section \<open>Housekeeping\<close>

lemma drop_any:
  assumes inv: "sched_inv s reg" and ok: "tasks_ok s"
  shows "\<exists>b s'. RemoveAllCanceledTasksFromFront (q, ty) s = Some (b, s') \<and> sched_inv s' reg \<and> keeps s s'"
proof (cases "wq_sets (queues s (q, ty)) = None")
  case True
  then show ?thesis using inv keeps_refl [OF _ ok] by (auto simp: RemoveAllCanceledTasksFromFront_def sched_ok_def)
next
  case False
  then show ?thesis using drop_tasks [OF inv ok False, of "{q}"] by (auto simp: calm_def)
qed

lemma RemoveAllCanceledTasks_both_ok:
  assumes ok: "sched_ok s" "tasks_ok s" and wq: "tq_work_queues (task_queues s q)"
  shows "\<exists>s'. RemoveAllCanceledTasks_both q s = Some s' \<and> keeps s s'"
proof -
  obtain reg where inv: "sched_inv s reg" by (rule sched_okE [OF ok(1)])
  from drop_any [OF inv ok(2), of q kDelayed] obtain b t where t: "RemoveAllCanceledTasksFromFront (q, kDelayed) s = Some (b, t)" "sched_inv t reg" "keeps s t" by blast
  from drop_any [OF t(2) runsD(2) [OF keepsD(1) [OF t(3)]], of q kImmediate] obtain c u where
    u: "RemoveAllCanceledTasksFromFront (q, kImmediate) t = Some (c, u)" "keeps t u" by blast
  show ?thesis using t u wq keeps_trans [OF t(3) u(2)] by (auto simp: RemoveAllCanceledTasks_both_def work_queues_of_def)
qed

lemma jobs_in_mset: "jobs_in canc ts = image_mset job (filter_mset (\<lambda>t. \<not> canc (job t)) (mset ts))"
  by (induction ts) (auto simp: jobs_in_def)

lemma ReclaimMemory_keeps:
  assumes inv: "sched_inv s reg" and ok: "tasks_ok s" and wq: "tq_work_queues (task_queues s q)"
  shows "\<exists>s'. ReclaimMemory q now s = Some s' \<and> sched_ok s' \<and> keeps s s'"
proof -
  from ReclaimMemory_ok [OF inv wq, of now] obtain s' r where
    s': "ReclaimMemory q now s = Some s'" "sched_inv s' (reg(q := r))" "step_on q s s'" "work_tasks s' q kImmediate = work_tasks s q kImmediate"
      "work_tasks s' q kDelayed = work_tasks s q kDelayed"
      "mset (delayed_tasks s' q) = filter_mset (\<lambda>t. \<not> dropped (is_cancelled s) t) (mset (delayed_tasks s q))" by (auto simp: tasks_of_eq)
  have old: "\<forall>t \<in> set (delayed_tasks s q). task_ok t" using ok by (simp add: tasks_ok_def)
  have sub: "set (delayed_tasks s' q) \<subseteq> set (delayed_tasks s q)" using s'(6) by (metis multiset_filter_subset set_mset_mono set_mset_mset)
  have r: "runs s s'"
    by (rule runsI [OF s'(2) ok s'(3), of "work_tasks s' q kImmediate" "work_tasks s' q kDelayed" "delayed_tasks s' q"])
      (use s'(4,5) sub in \<open>auto simp: tasks_of_eq\<close>)
  have "jobs_in (is_cancelled s) (delayed_tasks s' q) = jobs_in (is_cancelled s) (delayed_tasks s q)"
    using old unfolding jobs_in_mset s'(6)
    by (auto simp: filter_filter_mset intro!: arg_cong [of _ _ "image_mset job"] filter_mset_cong dest: dropped_job)
  then have "jobs s' q = jobs s q" using s'(4,5) runsD(7) [OF r] by (simp add: jobs_def)
  moreover have "length (delayed_tasks s' q) \<le> length (delayed_tasks s q)"
    using s'(6) by (metis multiset_filter_subset size_mset size_mset_mono)
  then have "task_count s' q \<le> task_count s q" using s'(4,5) by (simp add: task_count_def)
  ultimately show ?thesis using s'(1,2) r keepsI [OF r step_onD [OF s'(3)]] by (auto simp: sched_ok_def)
qed

lemma ReclaimMemoryFromQueue_ok:
  assumes ok: "sched_ok s" "tasks_ok s" and wq: "tq_work_queues (task_queues s q)"
  shows "\<exists>s'. ReclaimMemoryFromQueue q s = Some s' \<and> keeps s s'"
proof -
  obtain reg where inv: "sched_inv s reg" by (rule sched_okE [OF ok(1)])
  obtain d where d: "tq_time_domain (task_queues s q) = Some d" using liveD(1) [OF sched_invD(5) [OF inv wq]] by (auto simp: domain_ok_def)
  from ReclaimMemory_keeps [OF inv ok(2) wq, of "td_now (time_domains s d)"] obtain t where
    t: "ReclaimMemory q (td_now (time_domains s d)) s = Some t" "sched_ok t" "keeps s t" by blast
  note r = runsD [OF keepsD(1) [OF t(3)]]
  from RemoveAllCanceledTasks_both_ok [OF t(2) r(2)] r(4) wq obtain u where u: "RemoveAllCanceledTasks_both q t = Some u" "keeps t u" by metis
  then show ?thesis using d t keeps_trans [OF t(3)] by (auto simp: ReclaimMemoryFromQueue_def)
qed

definition keeper :: "(nat \<Rightarrow> scheduler \<Rightarrow> scheduler option) \<Rightarrow> bool" where
  "keeper f \<longleftrightarrow>
     (\<forall>q s. sched_ok s \<and> tasks_ok s \<and> tq_work_queues (task_queues s q) \<longrightarrow> (\<exists>s'. f q s = Some s' \<and> keeps s s'))"

lemma keepers: "keeper RemoveAllCanceledTasks_both" "keeper ReclaimMemoryFromQueue"
  using RemoveAllCanceledTasks_both_ok ReclaimMemoryFromQueue_ok by (auto simp: keeper_def)

lemma each_queue_ok:
  assumes "keeper f" "sched_ok s" "tasks_ok s" "\<forall>q \<in> set qs. tq_work_queues (task_queues s q)"
  shows "\<exists>s'. each_queue f qs s = Some s' \<and> keeps s s'"
  using assms(2-4)
proof (induction qs arbitrary: s)
  case Nil
  then show ?case by (simp add: keeps_refl)
next
  case (Cons q qs)
  with assms(1) obtain t where t: "f q s = Some t" "keeps s t" unfolding keeper_def by (metis list.set_intros(1))
  note r = runsD [OF keepsD(1) [OF t(2)]]
  from Cons.IH [OF r(1,2)] Cons.prems(3) r(4) obtain u where "each_queue f qs t = Some u" "keeps t u" by auto
  then show ?case using t keeps_trans [OF t(2)] by auto
qed

lemma sm_inv_keeps:
  assumes "sm_inv m" "keeps (sched m) s'"
  shows "housekept m (m\<lparr>sched := s'\<rparr>)"
  using sm_inv_runs [OF assms(1) keepsD(1) [OF assms(2)]] pending_keeps [OF assms(2)] runsD(7) [OF keepsD(1) [OF assms(2)]]
  by (simp add: housekept_def)

lemma active_live: "sm_inv m \<Longrightarrow> set qs \<subseteq> set (active_queues m) \<Longrightarrow> \<forall>q \<in> set qs. tq_work_queues (task_queues (sched m) q)"
  using queues_okD(2) [OF sm_invD(4)] by blast

lemma sm_ReclaimMemory_ok:
  assumes m: "sm_inv m"
  shows "\<exists>s'. sm_ReclaimMemory m = Some (m\<lparr>sched := s'\<rparr>) \<and> keeps (sched m) s'"
proof -
  note i = sm_invD [OF m]
  from each_queue_ok [OF keepers(2) i(1,2) active_live [OF m order_refl]] obtain t where
    t: "each_queue ReclaimMemoryFromQueue (active_queues m) (sched m) = Some t" "keeps (sched m) t" by blast
  note r = runsD [OF keepsD(1) [OF t(2)]]
  from each_queue_ok [OF keepers(2) r(1,2)] active_live [OF m queues_okD(6) [OF i(4)]] r(4) obtain u where
    "each_queue ReclaimMemoryFromQueue (queues_to_gracefully_shutdown m) t = Some u" "keeps t u" by metis
  then show ?thesis using t keeps_trans [OF t(2)] by (auto simp: sm_ReclaimMemory_def)
qed

lemma reclaim_fields:
  "housekept m (m'\<lparr>next_time_to_reclaim_memory := t\<rparr>) = housekept m m'" "housekept m (m'\<lparr>memory_reclaim_scheduled := b\<rparr>) = housekept m m'"
  by (simp_all add: housekept_def sm_inv_def queues_ok_def loops_ok_def pending_def)

lemma reclaim_time:
  assumes "time_ok v"
  shows "\<exists>t. time_plus Clang v kReclaimMemoryInterval = Some t"
proof -
  have "in_range int64_t v" "in_range int64_t kReclaimMemoryInterval" "kReclaimMemoryInterval \<noteq> td_Max" "kReclaimMemoryInterval \<noteq> td_Min"
    using assms by (simp_all add: time_ok_def in_range_int64 int64_limits kReclaimMemoryInterval_def td_Max_def td_Min_def)
  then show ?thesis by (simp add: time_plus_def SaturatedAdd_eq)
qed

lemma MaybeReclaimMemory_ok:
  assumes m: "sm_inv m"
  shows "\<exists>m'. MaybeReclaimMemory m = Some m' \<and> housekept m m'"
proof (cases "memory_reclaim_scheduled m")
  case True
  from sm_ReclaimMemory_ok [OF m] obtain s' where s': "sm_ReclaimMemory m = Some (m\<lparr>sched := s'\<rparr>)" "keeps (sched m) s'" by blast
  note h = sm_inv_keeps [OF m s'(2)]
  obtain reg where inv: "sched_inv s' reg" by (rule sched_okE [OF runsD(1) [OF keepsD(1) [OF s'(2)]]])
  have "time_ok (controller_now (m\<lparr>sched := s'\<rparr>))" using sched_invD(2) [OF inv] by (auto simp: env_ok_def time_ok_def controller_now_def)
  from reclaim_time [OF this] obtain t where "time_plus Clang (controller_now (m\<lparr>sched := s'\<rparr>)) kReclaimMemoryInterval = Some t" ..
  then have "MaybeReclaimMemory m = Some (m\<lparr>sched := s', next_time_to_reclaim_memory := t, memory_reclaim_scheduled := False\<rparr>)"
    using True s'(1) by (simp add: MaybeReclaimMemory_def)
  moreover have "housekept m (m\<lparr>sched := s', next_time_to_reclaim_memory := t, memory_reclaim_scheduled := False\<rparr>)"
    using h unfolding reclaim_fields .
  ultimately show ?thesis by blast
next
  case False
  then show ?thesis using m by (auto simp: MaybeReclaimMemory_def housekept_def)
qed

lemma RemoveAllCanceledTasksFromFrontOfWorkQueues_ok:
  assumes m: "sm_inv m"
  shows "\<exists>m'. RemoveAllCanceledTasksFromFrontOfWorkQueues m = Some m' \<and> housekept m m'"
  using each_queue_ok [OF keepers(1) sm_invD(1,2) [OF m] active_live [OF m order_refl]] sm_inv_keeps [OF m]
  by (auto simp: RemoveAllCanceledTasksFromFrontOfWorkQueues_def)

section \<open>Posting, running and moving queues between time domains\<close>

abbreviation job_if :: "(nat \<Rightarrow> bool) \<Rightarrow> nat \<Rightarrow> nat multiset" where
  "job_if canc n \<equiv> (if canc n then {#} else {#n#})"

lemma pending_post:
  assumes "sm_inv m" "runs (sched m) s'" "q \<in> set (active_queues m)" "jobs s' q = jobs (sched m) q + J" "\<forall>p. p \<noteq> q \<longrightarrow> jobs s' p = jobs (sched m) p"
  shows "pending (m\<lparr>sched := s'\<rparr>) = pending m + J"
proof -
  have "(\<Sum>p\<in>set (active_queues m) - {q}. jobs s' p) = (\<Sum>p\<in>set (active_queues m) - {q}. jobs (sched m) p)"
    using assms(5) by (intro sum.cong) auto
  then have "(\<Sum>p\<in>set (active_queues m). jobs s' p) = J + (\<Sum>p\<in>set (active_queues m). jobs (sched m) p)"
    using assms(3,4) by (simp add: sum.remove [of _ q] ac_simps)
  then show ?thesis using runsD(7) [OF assms(2)] by (simp add: pending_def ac_simps)
qed

lemma post_ok:
  assumes m: "sm_inv m" and q: "q \<in> set (active_queues m)" and t: "pt_callback task \<noteq> None" "0 \<le> pt_delay task" "pt_delay task \<le> limit_max int64_t"
    "number_left q task thread (sched m)"
  shows "\<exists>s'. PostTask q task thread (sched m) = Some s' \<and> sm_inv (m\<lparr>sched := s'\<rparr>) \<and> runs (sched m) s'
    \<and> pending (m\<lparr>sched := s'\<rparr>) = pending m + job_if (is_cancelled (sched m)) (the (pt_callback task))"
proof -
  have wq: "tq_work_queues (task_queues (sched m) q)" using queues_okD(2) [OF sm_invD(4) [OF m]] q by simp
  from PostTask_runs [OF sm_invD(1,2) [OF m] wq t] obtain s' where
    s': "PostTask q task thread (sched m) = Some s'" "runs (sched m) s'" "\<forall>p. p \<noteq> q \<longrightarrow> jobs s' p = jobs (sched m) p"
      "jobs s' q = jobs (sched m) q + job_if (is_cancelled (sched m)) (the (pt_callback task))" by blast
  then show ?thesis using sm_inv_runs [OF m s'(2)] pending_post [OF m s'(2) q s'(4,3)] by blast
qed

lemma ScheduleDelayed_runs:
  assumes inv: "sched_inv s reg" and ok: "tasks_ok s" and wq: "tq_work_queues (task_queues s q)"
    and u: "callback u \<noteq> None" "enqueue_order_set_to u = 0" "time_ok (delayed_run_time u)" "seq_num_ok (sequence_num u)"
  shows "\<exists>s'. run_ScheduleDelayedWorkTask q u s = Some s' \<and> runs s s' \<and> (\<forall>p. p \<noteq> q \<longrightarrow> jobs s' p = jobs s p)
    \<and> jobs s' q = jobs s q + job_if (is_cancelled s) (the (callback u))"
proof -
  let ?now = "queue_now q s" and ?ts = "delayed_tasks s q"
  let ?t = "(client_task u)\<lparr>delayed_run_time := ?now\<rparr>"
  let ?m = "move_ready (is_cancelled s) ?now (priority_push ?t ?ts)"
  obtain s' r where s': "run_ScheduleDelayedWorkTask q u s = Some s'" "sched_inv s' (reg(q := r))" "step_on q s s'"
    "tasks_of s' q = (if ?now < delayed_run_time u then (pending_immediate s q, wq_tasks (del s q), priority_push (client_task u) ?ts)
       else (pending_immediate s q, wq_tasks (del s q) @ stamped (order_counter s) (fst ?m), snd ?m))"
    using run_ScheduleDelayedWorkTask_ok [OF inv wq u(1,2,4)] unfolding Let_def case_prod_beta delayed_tasks_def by metis
  have tok: "task_ok (client_task u)" "task_ok ?t" using u queue_now_ok [OF inv, of q] by (auto simp: task_ok_def client_task_def)
  have old: "\<forall>t \<in> set ?ts. task_ok t" using ok by (simp add: tasks_ok_def)
  have ts: "\<forall>t \<in> set (priority_push ?t ?ts). task_ok t" using tok(2) old by simp
  have mv: "set (fst ?m) \<subseteq> set (priority_push ?t ?ts)" "set (snd ?m) \<subseteq> set (priority_push ?t ?ts)"
    using move_ready_rest(2) [of "is_cancelled s" ?now "priority_push ?t ?ts"] set_mono_suffix [OF move_ready_rest(1) [of "is_cancelled s" ?now "priority_push ?t ?ts"]] by blast+
  have st: "task_ok t \<and> order_counter s \<le> enqueue_order_set_to t" if "t \<in> set (stamped (order_counter s) (fst ?m))" for t
    using stamped_ok [OF that] stamped_in [OF that] mv(1) ts by blast
  let ?T = "tasks_of s' q"
  have "runs s s'"
    by (rule runsI [OF s'(2) ok s'(3), of "fst ?T" "fst (snd ?T)" "snd (snd ?T)"])
      (use s'(4) st mv(2) ts tok(1) in \<open>auto simp: fresh_def work_tasks_def delayed_tasks_def\<close>)
  moreover have "job (client_task u) = the (callback u)" "job ?t = the (callback u)" using u(1) by (auto simp: job_def client_task_def)
  then have "jobs s' q = jobs s q + job_if (is_cancelled s) (the (callback u))"
    using s'(4) runsD(7) [OF calculation] jobs_move_ready [OF ts, of "is_cancelled s" ?now]
    by (auto simp: jobs_def tasks_of_eq jobs_push split: if_splits) (simp_all add: work_tasks_def ac_simps)
  ultimately show ?thesis using s'(1) jobs_others(1) [OF step_onD [OF s'(3)]] by blast
qed

definition started :: "closure task \<Rightarrow> nat multiset" where
  "started t = (case callback t of Some (Client n) \<Rightarrow> {#n#} | _ \<Rightarrow> {#})"

lemma run_task_ok:
  assumes m: "sm_inv m" and st: "task_execution_stack m \<noteq> []" "last (task_execution_stack m) = (t, q)" and q: "q \<in> set (active_queues m)"
  shows "\<exists>m'. run_task m = Some m' \<and> sm_inv m' \<and> runs (sched m) (sched m') \<and> task_execution_stack m' = task_execution_stack m
    \<and> pending m' + filter_mset (\<lambda>n. \<not> is_cancelled (sched m) n) (started t) = pending m + jobs_in (is_cancelled (sched m)) [t]"
proof -
  note i = sm_invD [OF m]
  have "(t, q) \<in> set (task_execution_stack m)" using st last_in_set by metis
  then have tok: "task_ok t" using i(5) by (auto simp: loops_ok_def)
  then obtain c where c: "callback t = Some c" by (auto simp: task_ok_def split: option.splits)
  show ?thesis
  proof (cases c)
    case (Client n)
    then show ?thesis using m st c runs_refl [OF i(1,2)] by (auto simp: run_task_def started_def job_def)
  next
    case (ScheduleDelayedWorkTask u)
    obtain reg where inv: "sched_inv (sched m) reg" by (rule sched_okE [OF i(1)])
    have wq: "tq_work_queues (task_queues (sched m) q)" using queues_okD(2) [OF i(4)] q by simp
    have u: "callback u \<noteq> None" "enqueue_order_set_to u = 0" "time_ok (delayed_run_time u)" "seq_num_ok (sequence_num u)"
      using tok c ScheduleDelayedWorkTask by (auto simp: task_ok_def)
    from ScheduleDelayed_runs [OF inv i(2) wq u] obtain s' where
      s': "run_ScheduleDelayedWorkTask q u (sched m) = Some s'" "runs (sched m) s'" "\<forall>p. p \<noteq> q \<longrightarrow> jobs s' p = jobs (sched m) p"
        "jobs s' q = jobs (sched m) q + job_if (is_cancelled (sched m)) (the (callback u))" by blast
    have "pending (m\<lparr>sched := s'\<rparr>) = pending m + jobs_in (is_cancelled (sched m)) [t]"
      using pending_post [OF m s'(2) q s'(4,3)] c ScheduleDelayedWorkTask by (simp add: job_def)
    then show ?thesis using s' st c ScheduleDelayedWorkTask sm_inv_runs [OF m s'(2)] by (auto simp: run_task_def started_def)
  qed
qed

lemma sm_SetTimeDomain_ok:
  assumes m: "sm_inv m" and q: "q \<in> set (active_queues m)" and d: "d \<in> set (registered_time_domains m)"
  shows "\<exists>s'. SetTimeDomain q d (sched m) = Some s' \<and> housekept m (m\<lparr>sched := s'\<rparr>)"
proof -
  note i = sm_invD [OF m] and qs = queues_okD [OF sm_invD(4) [OF m]]
  obtain reg where inv: "sched_inv (sched m) reg" by (rule sched_okE [OF i(1)])
  from SetTimeDomain_ok [OF inv, of q d] qs(2) q obtain s' r where
    s': "SetTimeDomain q d (sched m) = Some s'" "sched_inv s' (reg(q := r))" "others q (sched m) s'" "tasks_of s' q = tasks_of (sched m) q"
      "tq_time_domain (task_queues s' q) = Some d" "tq_work_queues (task_queues s' q)" by blast
  have ev: "evolves (sched m) s'"
    using evolvesI [OF i(2) s'(3), of "work_tasks (sched m) q kImmediate" "work_tasks (sched m) q kDelayed" "delayed_tasks (sched m) q"] s'(4) by (simp add: tasks_of_eq)
  have own: "tq_work_queues (task_queues s' p) = tq_work_queues (task_queues (sched m) p)" for p
    using owners_others(1) [OF s'(3), of p] s'(6) qs(2) [of q] q by (cases "p = q") auto
  have dom: "tq_time_domain (task_queues s' p) = (if p = q then Some d else tq_time_domain (task_queues (sched m) p))" for p
    using owners_others(2) [OF s'(3), of p] s'(5) by simp
  have jb: "jobs s' p = jobs (sched m) p" for p
    using jobs_others(1) [OF s'(3), of p] s'(3,4) by (cases "p = q") (auto simp: jobs_def tasks_of_eq others_def)
  have "deferred_ok (non_nestable_task_queue m) s'" using i(3) may_requeue_evolves [OF _ ev] own unfolding deferred_ok_def by fastforce
  moreover have "queues_ok (m\<lparr>sched := s'\<rparr>)" using i(4) own dom d by (auto simp: queues_ok_def)
  ultimately have "sm_inv (m\<lparr>sched := s'\<rparr>)" using s'(2) ev i(5) by (auto simp: sm_inv_def sched_ok_def evolves_def loops_ok_def)
  then show ?thesis using s'(1,3) jb by (auto simp: housekept_def pending_def others_def)
qed

section \<open>How long the thread may sleep\<close>

abbreviation wake_delay :: "scheduled_wake_up \<Rightarrow> int \<Rightarrow> int" where
  "wake_delay e now \<equiv> max 0 (wu_time (sw_wake_up e) - now)"

lemma wake_time_ok:
  assumes inv: "sched_inv s reg" and ok: "tasks_ok s" and e: "reg q = Some (d, e)"
  shows "time_ok (wu_time (sw_wake_up e))"
proof -
  have "next_wake_up (task_queues s q) = Some (sw_wake_up e)" using registered_live(3) [OF inv e] by simp
  then have ne: "delayed_tasks s q \<noteq> []" and "sw_wake_up e = task_delayed_wake_up (hd (delayed_tasks s q))"
    by (auto simp: next_wake_up_def delayed_tasks_def split: if_splits)
  moreover have "task_ok (hd (delayed_tasks s q))" using ok hd_in_set [OF ne] unfolding tasks_ok_def by blast
  ultimately show ?thesis by (simp add: task_ok_def task_delayed_wake_up_def)
qed

lemma real_DelayTillNextTask_ok:
  assumes inv: "sched_inv s reg" and ok: "tasks_ok s" and now: "time_ok now"
  shows "\<exists>x. real_DelayTillNextTask d now s = Some x \<and> (\<forall>v. x = Some v \<longrightarrow> 0 \<le> v)
    \<and> (\<forall>q e. reg q = Some (d, e) \<longrightarrow> (\<exists>v. x = Some v \<and> v \<le> wake_delay e now))"
proof -
  have rep: "heaps_rep s reg" using sched_invD(3) [OF inv] by (simp add: wake_rep_def)
  obtain x where x: "NextScheduledRunTime d s = Some x" "x = None \<longleftrightarrow> (\<forall>q e. reg q \<noteq> Some (d, e))"
    "\<And>t. x = Some t \<Longrightarrow> \<exists>q e. reg q = Some (d, e) \<and> wu_time (sw_wake_up e) = t \<and> (\<forall>q' e'. reg q' = Some (d, e') \<longrightarrow> t \<le> wu_time (sw_wake_up e'))"
    using NextScheduledRunTime_ok [OF rep, of d] by blast
  show ?thesis
  proof (cases x)
    case None
    then show ?thesis using x(1,2) by (auto simp: real_DelayTillNextTask_def)
  next
    case (Some t)
    then obtain q e where e: "reg q = Some (d, e)" "wu_time (sw_wake_up e) = t" "\<And>q' e'. reg q' = Some (d, e') \<Longrightarrow> t \<le> wu_time (sw_wake_up e')"
      using x(3) by blast
    have t: "time_ok t" using wake_time_ok [OF inv ok e(1)] e(2) by simp
    have "time_diff t now = Some (t - now)" using t now by (simp add: time_diff_def arith_int64 in_range_int64 time_ok_def int64_limits)
    then have "real_DelayTillNextTask d now s = Some (Some (max 0 (t - now)))" using x(1) Some by (simp add: real_DelayTillNextTask_def)
    moreover have "max 0 (t - now) \<le> wake_delay e' now" if "reg q' = Some (d, e')" for q' e' using e(3) [OF that] by simp
    ultimately show ?thesis by auto
  qed
qed

lemma delay_loop_ok:
  assumes inv: "sched_inv s reg" and ok: "tasks_ok s" and now: "time_ok now" and oth: "\<forall>d x. other d now s = Some x \<longrightarrow> 0 \<le> x" and acc: "0 \<le> acc"
  shows "\<exists>v. delay_loop other real now s ds acc = Some v \<and> 0 \<le> v \<and> v \<le> acc
    \<and> (real \<in> set ds \<longrightarrow> (\<forall>q e. reg q = Some (real, e) \<longrightarrow> v \<le> wake_delay e now))"
  using acc
proof (induction ds arbitrary: acc)
  case (Cons d ds)
  from real_DelayTillNextTask_ok [OF inv ok now, of real] obtain x where x: "real_DelayTillNextTask real now s = Some x" "\<forall>v. x = Some v \<longrightarrow> 0 \<le> v"
    "\<forall>q e. reg q = Some (real, e) \<longrightarrow> (\<exists>v. x = Some v \<and> v \<le> wake_delay e now)" by (elim exE conjE)
  define y where "y = (if d = real then x else other d now s)"
  define a where "a = (case y of None \<Rightarrow> acc | Some x \<Rightarrow> if x < acc then x else acc)"
  have y: "\<forall>v. y = Some v \<longrightarrow> 0 \<le> v" using x(2) oth by (simp add: y_def)
  have a: "0 \<le> a" "a \<le> acc" "\<And>v. y = Some v \<Longrightarrow> a \<le> v" using y Cons.prems by (auto simp: a_def split: option.split)
  from Cons.IH [OF a(1)] obtain v where v: "delay_loop other real now s ds a = Some v" "0 \<le> v" "v \<le> a"
    "real \<in> set ds \<longrightarrow> (\<forall>q e. reg q = Some (real, e) \<longrightarrow> v \<le> wake_delay e now)" by blast
  have "delay_loop other real now s (d # ds) acc = Some v" using v(1) x(1) by (auto simp: y_def a_def)
  moreover have "v \<le> wake_delay e now" if "d = real" "reg q = Some (real, e)" for q e
    using x(3) that a(3) v(3) unfolding y_def by (metis order_trans)
  ultimately show ?case using v a(2) by (auto intro: order_trans)
qed simp

text \<open>
  The thread may sleep for \<open>x\<close>: not past a delayed task of the real time domain, and not at all if
  there is work that may run before the native work.
\<close>

definition may_sleep :: "sequence_manager \<Rightarrow> int \<Rightarrow> bool" where
  "may_sleep m x \<longleftrightarrow>
     0 \<le> x \<and> x \<le> td_Max
     \<and> (\<forall>q \<in> set (active_queues m). tq_is_enabled (task_queues (sched m) q) \<and> tq_time_domain (task_queues (sched m) q) = Some (real_time_domain m) \<longrightarrow>
          (\<forall>t \<in> set (delayed_tasks (sched m) q). x \<le> max 0 (delayed_run_time t - controller_now m)))
     \<and> (x = 0 \<or> work_blocked m \<or> native_first (hd (pending_native_work m)) (sched m))"

lemma sleep_tasks:
  assumes inv: "sched_inv s reg" and x: "\<And>q e. reg q = Some (d, e) \<Longrightarrow> x \<le> wake_delay e now"
    and q: "tq_is_enabled (task_queues s q)" "tq_time_domain (task_queues s q) = Some d" and t: "t \<in> set (delayed_tasks s q)"
  shows "x \<le> max 0 (delayed_run_time t - now)"
proof -
  have l: "live (order_counter s) (task_queues s q) (imm s q) (del s q) (reg q)"
    using sched_invD(4) [OF inv, of q] q(2) by (auto simp: queue_inv_def gone_def)
  let ?dq = "tq_delayed_incoming_queue (task_queues s q)"
  obtain u us where us: "dq_tasks ?dq = u # us" using t by (cases "dq_tasks ?dq") (auto simp: delayed_tasks_def)
  then have "next_wake_up (task_queues s q) = Some (task_delayed_wake_up u)" using q by (simp add: next_wake_up_def)
  then obtain e where e: "reg q = Some (d, e)" "sw_wake_up e = task_delayed_wake_up u"
    using liveD(7) [OF l] q by (auto simp: wake_ok_def linked_def split: option.splits)
  have "sorted (map run_key (u # us))" using liveD(6) [OF l] us by (simp add: delayed_ok_def)
  then have "delayed_run_time u \<le> delayed_run_time t" using t us by (auto simp: delayed_tasks_def run_key_def)
  then show ?thesis using x [OF e(1)] e(2) by (simp add: task_delayed_wake_up_def)
qed

lemma GetDelayTillNextDelayedTask_ok:
  assumes m: "sm_inv m" and inv: "sched_inv (sched m) reg" and oth: "\<forall>d x. other d (controller_now m) (sched m) = Some x \<longrightarrow> 0 \<le> x"
    and work: "work_blocked m \<or> native_first (hd (pending_native_work m)) (sched m)"
  shows "\<exists>x. GetDelayTillNextDelayedTask other (controller_now m) m = Some x \<and> may_sleep m x"
proof -
  note i = sm_invD [OF m]
  have now: "time_ok (controller_now m)" using sched_invD(2) [OF inv] by (auto simp: env_ok_def time_ok_def controller_now_def)
  have "0 \<le> td_Max" by (simp add: td_Max_def int64_limits)
  from delay_loop_ok [where other = other, OF inv i(2) now oth this, of "real_time_domain m" "registered_time_domains m"] obtain v where
    v: "delay_loop other (real_time_domain m) (controller_now m) (sched m) (registered_time_domains m) td_Max = Some v" "0 \<le> v"
      "real_time_domain m \<in> set (registered_time_domains m) \<longrightarrow> (\<forall>q e. reg q = Some (real_time_domain m, e) \<longrightarrow> v \<le> wake_delay e (controller_now m))"
      "v \<le> td_Max" by (elim exE conjE)
  have "real_time_domain m \<in> set (registered_time_domains m)" using i(4) by (simp add: queues_ok_def)
  then have reg: "\<And>q e. reg q = Some (real_time_domain m, e) \<Longrightarrow> v \<le> wake_delay e (controller_now m)" using v(3) by blast
  have "v \<le> max 0 (delayed_run_time t - controller_now m)"
    if "tq_is_enabled (task_queues (sched m) q)" "tq_time_domain (task_queues (sched m) q) = Some (real_time_domain m)" "t \<in> set (delayed_tasks (sched m) q)" for q t
    by (rule sleep_tasks [OF inv _ that]) (rule reg)
  then have "may_sleep m v" unfolding may_sleep_def using v(2,4) work by blast
  then show ?thesis using v(1) by (simp add: GetDelayTillNextDelayedTask_def)
qed

lemma sleep_zero: "may_sleep m 0"
  by (simp add: may_sleep_def td_Max_def int64_limits)

lemma delay_or_zero:
  assumes m: "sm_inv m" and inv: "sched_inv (sched m) reg" and oth: "\<forall>d x. other d (controller_now m) (sched m) = Some x \<longrightarrow> 0 \<le> x"
    and p: "GetHighestPendingPriority (sched m) = Some (Some p)"
  shows "\<exists>x. do { run \<leftarrow> ShouldRunTaskOfPriority p m;
      if \<not> run then do { x \<leftarrow> GetDelayTillNextDelayedTask other (controller_now m) m; Some (x, m) } else Some (0, m) } = Some (x, m) \<and> may_sleep m x"
proof (cases "p \<le> hd (pending_native_work m)")
  case True
  then show ?thesis using effective_ok [OF sm_invD(5) [OF m]] sleep_zero by (simp add: ShouldRunTaskOfPriority_def)
next
  case False
  then have "hd (pending_native_work m) < p" by simp
  with native_firstI [OF inv p] have "native_first (hd (pending_native_work m)) (sched m)" .
  from GetDelayTillNextDelayedTask_ok [where other = other, OF m inv oth disjI2 [OF this]] show ?thesis
    using False effective_ok [OF sm_invD(5) [OF m]] by (auto simp: ShouldRunTaskOfPriority_def)
qed

lemma DelayTillNextTask_ok:
  assumes m: "sm_inv m" and oth: "\<forall>s d x. other d (controller_now m) s = Some x \<longrightarrow> 0 \<le> x"
    and order: "\<forall>q. tq_reload_flag (task_queues (sched m) q) \<longrightarrow> q \<in> set order"
  shows "\<exists>x m'. DelayTillNextTask other order (controller_now m) m = Some (x, m') \<and> housekept m m' \<and> may_sleep m' x"
proof -
  obtain reg where inv: "sched_inv (sched m) reg" by (rule sched_okE [OF sm_invD(1) [OF m]])
  obtain y where y: "GetHighestPendingPriority (sched m) = Some y"
    using highest_ok [OF inv] by blast
  show ?thesis
  proof (cases y)
    case (Some p)
    then have r: "GetHighestPendingPriority (sched m) = Some (Some p)" using y by simp
    have "\<forall>d x. other d (controller_now m) (sched m) = Some x \<longrightarrow> 0 \<le> x" using oth by blast
    from delay_or_zero [where other = other, OF m inv this r] obtain x where
      "do { run \<leftarrow> ShouldRunTaskOfPriority p m;
        if \<not> run then do { x \<leftarrow> GetDelayTillNextDelayedTask other (controller_now m) m; Some (x, m) } else Some (0, m) } = Some (x, m)" "may_sleep m x" by blast
    then show ?thesis using y Some m by (simp add: DelayTillNextTask_def housekept_def)
  next
    case None
    from ReloadEmptyWorkQueues_ok [OF inv sm_invD(2) [OF m], of order] obtain s where
      s: "ReloadEmptyWorkQueues order (sched m) = Some s" "sched_inv s reg" "keeps (sched m) s"
        "\<forall>p. tq_reload_flag (task_queues s p) \<longleftrightarrow> tq_reload_flag (task_queues (sched m) p) \<and> p \<notin> set order" by blast
    let ?m = "m\<lparr>sched := s\<rparr>"
    have hk: "housekept m ?m" using sm_inv_keeps [OF m s(3)] .
    have mi: "sm_inv ?m" using hk by (simp add: housekept_def)
    have now: "controller_now ?m = controller_now m" using runsD(6) [OF keepsD(1) [OF s(3)]] by (simp add: controller_now_def)
    obtain z where z: "GetHighestPendingPriority s = Some z" "z = None \<longrightarrow> (\<forall>w. ready (queues s w) = None)"
      using highest_ok [OF s(2)] by blast
    have oth': "\<forall>d x. other d (controller_now ?m) (sched ?m) = Some x \<longrightarrow> 0 \<le> x" using oth now by simp
    show ?thesis
    proof (cases z)
      case (Some p)
      then have r: "GetHighestPendingPriority (sched ?m) = Some (Some p)" using z(1) by simp
      have "sched_inv (sched ?m) reg" using s(2) by simp
      from delay_or_zero [where other = other, OF mi this oth' r, unfolded now] obtain x where
        "do { run \<leftarrow> ShouldRunTaskOfPriority p ?m;
          if \<not> run then do { x \<leftarrow> GetDelayTillNextDelayedTask other (controller_now m) ?m; Some (x, ?m) } else Some (0, ?m) } = Some (x, ?m)"
        "may_sleep ?m x" by blast
      then show ?thesis using y None s(1) z(1) Some hk by (simp add: DelayTillNextTask_def)
    next
      case none: None
      have "work_blocked ?m" using work_blockedI [OF sm_invD(4) [OF mi]] s(2,4) order z(2) none by simp
      from GetDelayTillNextDelayedTask_ok [where other = other, OF mi _ oth' disjI1 [OF this]] s(2) obtain x where
        "GetDelayTillNextDelayedTask other (controller_now m) ?m = Some x" "may_sleep ?m x" using now by auto
      then show ?thesis using y None s(1) z(1) none hk by (simp add: DelayTillNextTask_def)
    qed
  qed
qed

text \<open>While the native work goes first, tasks that may run do not count.\<close>

lemma DelayTillNextTask_native:
  assumes "sm_inv m" "native_first (hd (pending_native_work m)) (sched m)"
  shows "DelayTillNextTask other order lazy_now m = do { x \<leftarrow> GetDelayTillNextDelayedTask other lazy_now m; Some (x, m) }"
  using assms(2) effective_ok [OF sm_invD(5) [OF assms(1)]]
  by (auto simp: native_first_def DelayTillNextTask_def ShouldRunTaskOfPriority_def)

section \<open>Deleting pending tasks\<close>

lemma delete_queue_runs:
  assumes ok: "sched_ok s" "tasks_ok s" and wq: "tq_work_queues (task_queues s q)"
  shows "\<exists>s'. tq_DeletePendingTasks q s = Some s' \<and> runs s s' \<and> jobs s' q = {#} \<and> (\<forall>p. p \<noteq> q \<longrightarrow> jobs s' p = jobs s p)"
proof -
  obtain reg where inv: "sched_inv s reg" by (rule sched_okE [OF ok(1)])
  from tq_DeletePendingTasks_ok [OF inv wq] obtain s' r where
    s': "tq_DeletePendingTasks q s = Some s'" "sched_inv s' (reg(q := r))" "step_on q s s'" "tasks_of s' q = ([], [], [])" by blast
  have "runs s s'" using runsI [OF s'(2) ok(2) s'(3,4)] by simp
  then show ?thesis using s'(1) jobs_empty [OF s'(4)] jobs_others(1) [OF step_onD [OF s'(3)]] by blast
qed

lemma delete_queues_runs:
  assumes "sched_ok s" "tasks_ok s" "\<forall>q \<in> set qs. tq_work_queues (task_queues s q)"
  shows "\<exists>s'. each_queue tq_DeletePendingTasks qs s = Some s' \<and> runs s s' \<and> (\<forall>q. jobs s' q = (if q \<in> set qs then {#} else jobs s q))"
  using assms
proof (induction qs arbitrary: s)
  case Nil
  then show ?case by (simp add: runs_refl)
next
  case (Cons q qs)
  with delete_queue_runs [of s q] obtain t where t: "tq_DeletePendingTasks q s = Some t" "runs s t" "jobs t q = {#}" "\<forall>p. p \<noteq> q \<longrightarrow> jobs t p = jobs s p" by auto
  from Cons.IH [OF runsD(1,2) [OF t(2)]] Cons.prems(3) runsD(4) [OF t(2)] obtain u where
    u: "each_queue tq_DeletePendingTasks qs t = Some u" "runs t u" "\<forall>q. jobs u q = (if q \<in> set qs then {#} else jobs t q)" by auto
  then show ?case using t runs_trans [OF t(2) u(2)] by auto
qed

lemma sm_DeletePendingTasks_ok:
  assumes m: "sm_inv m" and st: "task_execution_stack m = []" "queues_to_delete m = []"
  shows "\<exists>m'. sm_DeletePendingTasks m = Some m' \<and> sm_inv m' \<and> is_cancelled (sched m') = is_cancelled (sched m)
    \<and> pending m = pending m' + (\<Sum>q \<in> set (active_queues m). jobs (sched m) q)"
proof -
  note i = sm_invD [OF m] and q = queues_okD [OF sm_invD(4) [OF m]]
  from delete_queues_runs [OF i(1,2) active_live [OF m order_refl]] obtain t where
    t: "each_queue tq_DeletePendingTasks (active_queues m) (sched m) = Some t" "runs (sched m) t"
      "\<forall>q. jobs t q = (if q \<in> set (active_queues m) then {#} else jobs (sched m) q)" by blast
  have "\<forall>q \<in> set (queues_to_gracefully_shutdown m). tq_work_queues (task_queues t q)" using active_live [OF m q(6)] runsD(4) [OF t(2)] by simp
  from delete_queues_runs [OF runsD(1,2) [OF t(2)] this] obtain u where
    u: "each_queue tq_DeletePendingTasks (queues_to_gracefully_shutdown m) t = Some u" "runs t u"
      "\<forall>q. jobs u q = (if q \<in> set (queues_to_gracefully_shutdown m) then {#} else jobs t q)" by blast
  have r: "runs (sched m) u" using runs_trans [OF t(2) u(2)] .
  have "(\<Sum>q \<in> set (active_queues m). jobs u q) = {#}" using t(3) u(3) by (simp add: sum.neutral)
  then show ?thesis
    using t(1) u(1) st sm_inv_runs [OF m r] runsD(7) [OF r] by (simp add: sm_DeletePendingTasks_def pending_def)
qed

lemma any_queue_ok:
  assumes "\<forall>q \<in> set qs. tq_work_queues (task_queues s q)"
  shows "\<exists>b. any_queue HasTasks qs s = Some b"
  using assms by (induction qs) (auto simp: HasTasks_def work_queues_of_def)

lemma sm_HasTasks_ok:
  assumes m: "sm_inv m" and d: "queues_to_delete m = []"
  shows "\<exists>b m'. sm_HasTasks m = Some (b, m') \<and> housekept m m'"
proof -
  note i = sm_invD [OF m] and q = queues_okD [OF sm_invD(4) [OF m]]
  from each_queue_ok [OF keepers(1) i(1,2) active_live [OF m order_refl]] obtain s where
    s: "each_queue RemoveAllCanceledTasks_both (active_queues m) (sched m) = Some s" "keeps (sched m) s" by blast
  have "\<forall>q \<in> set (active_queues m @ queues_to_gracefully_shutdown m @ queues_to_delete m). tq_work_queues (task_queues s q)"
    using active_live [OF m order_refl] active_live [OF m q(6)] runsD(4) [OF keepsD(1) [OF s(2)]] d by auto
  from any_queue_ok [OF this] obtain b where "any_queue HasTasks (active_queues m @ queues_to_gracefully_shutdown m @ queues_to_delete m) s = Some b" ..
  then show ?thesis using s(1) sm_inv_keeps [OF m s(2)] by (simp add: sm_HasTasks_def RemoveAllCanceledTasksFromFrontOfWorkQueues_def)
qed

lemma IsIdleForTesting_ok:
  assumes m: "sm_inv m"
  shows "\<exists>b m'. IsIdleForTesting order m = Some (b, m') \<and> housekept m m'"
proof -
  obtain reg where inv: "sched_inv (sched m) reg" by (rule sched_okE [OF sm_invD(1) [OF m]])
  from ReloadEmptyWorkQueues_ok [OF inv sm_invD(2) [OF m], of order] obtain s where
    s: "ReloadEmptyWorkQueues order (sched m) = Some s" "keeps (sched m) s" by blast
  have h: "housekept m (m\<lparr>sched := s\<rparr>)" using sm_inv_keeps [OF m s(2)] .
  then have i: "sm_inv (m\<lparr>sched := s\<rparr>)" by (simp add: housekept_def)
  from RemoveAllCanceledTasksFromFrontOfWorkQueues_ok [OF i] obtain m' where
    m': "RemoveAllCanceledTasksFromFrontOfWorkQueues (m\<lparr>sched := s\<rparr>) = Some m'" "housekept (m\<lparr>sched := s\<rparr>) m'" by blast
  have i': "sm_inv m'" using m'(2) by (simp add: housekept_def)
  obtain reg' where inv': "sched_inv (sched m') reg'" by (rule sched_okE [OF sm_invD(1) [OF i']])
  obtain x where "GetHighestPendingPriority (sched m') = Some x" using highest_ok [OF inv'] by blast
  moreover have "housekept m m'" using h m'(2) by (simp add: housekept_def)
  ultimately show ?thesis using s(1) m'(1) by (auto simp: IsIdleForTesting_def)
qed

end
