(* ===== verification/Scheduler_Runs.thy ===== *)
theory Scheduler_Runs
  imports Sequence_Manager_Calls
begin

text \<open>
  The calls that a program makes to the sequence manager, as a datatype, with the conditions under which it may
  make them; the states that sequences of calls reach; and what holds in all of them.  Calls of other threads
  stand anywhere in the sequence: they hold a lock while they change the state.
\<close>

section \<open>Calls\<close>

datatype call =
    Create_Queue nat "nat option"
  | Post_Task nat "nat posted_task" current_thread
  | Set_Priority nat nat
  | Set_Enabled nat bool
  | Insert_Fence nat insert_fence_position
  | Remove_Fence nat
  | Set_Observer nat bool
  | Set_Report bool nat bool
  | Set_Time_Domain nat nat
  | Start_Task "nat list"
  | Did_Run_Task
  | Begin_Nested
  | Exit_Nested
  | Unregister_Queue nat
  | Shutdown_Queue nat
  | Reclaim
  | Delay_Till "nat list"
  | Delete_Pending
  | Has_Tasks
  | Is_Idle "nat list"
  | Advance_Clock nat int
  | Cancel nat
  | Native_Begin nat
  | Native_End nat
  | Add_Domain nat
  | Remove_Domain nat

text \<open>What the caller sees: a job was accepted or began to run, or the time to sleep.\<close>

datatype outcome = Accepted nat | Refused | Began nat | Sleep int | Silent

definition on_sched :: "(scheduler \<Rightarrow> scheduler option) \<Rightarrow> sequence_manager \<Rightarrow> (outcome \<times> sequence_manager) option" where
  "on_sched f m = do { s \<leftarrow> f (sched m); Some (Silent, m\<lparr>sched := s\<rparr>) }"

definition silently :: "sequence_manager option \<Rightarrow> (outcome \<times> sequence_manager) option" where
  "silently r = do { m \<leftarrow> r; Some (Silent, m) }"

text \<open>Time domains other than the real one do not ask for wake-ups, like MockTimeDomain.\<close>

definition no_delay :: "nat \<Rightarrow> int \<Rightarrow> scheduler \<Rightarrow> int option" where
  "no_delay d lazy_now s = None"

definition begin_outcome :: "closure task option \<Rightarrow> outcome" where
  "begin_outcome r = (case r of None \<Rightarrow> Silent | Some t \<Rightarrow> (case callback t of Some (Client n) \<Rightarrow> Began n | _ \<Rightarrow> Silent))"

fun run_call :: "call \<Rightarrow> sequence_manager \<Rightarrow> (outcome \<times> sequence_manager) option" where
  "run_call (Create_Queue q d) m = silently (CreateTaskQueueImpl q d False m)"
| "run_call (Post_Task q task thread) m =
     do { (accepted, s) \<leftarrow> GuardedTaskPoster_PostTask q task thread (sched m);
          Some (if accepted then Accepted (the (pt_callback task)) else Refused, m\<lparr>sched := s\<rparr>) }"
| "run_call (Set_Priority q p) m = on_sched (tq_SetQueuePriority q p) m"
| "run_call (Set_Enabled q e) m = on_sched (SetQueueEnabled q e) m"
| "run_call (Insert_Fence q position) m = on_sched (tq_InsertFence q position) m"
| "run_call (Remove_Fence q) m = on_sched (tq_RemoveFence q) m"
| "run_call (Set_Observer q e) m = on_sched (SetObserver q e) m"
| "run_call (Set_Report tracing q e) m = on_sched (\<lambda>s. Some (SetShouldReportPostedTasksWhenDisabled tracing q e s)) m"
| "run_call (Set_Time_Domain q d) m = on_sched (SetTimeDomain q d) m"
| "run_call (Start_Task order) m = do { (r, m) \<leftarrow> StartTask order m; Some (begin_outcome r, m) }"
| "run_call Did_Run_Task m = silently (DidRunTask m)"
| "run_call Begin_Nested m = silently (Some (OnBeginNestedRunLoop m))"
| "run_call Exit_Nested m = silently (OnExitNestedRunLoop m)"
| "run_call (Unregister_Queue q) m = silently (UnregisterTaskQueueImpl q m)"
| "run_call (Shutdown_Queue q) m = silently (Some (ShutdownTaskQueueGracefully q m))"
| "run_call Reclaim m = silently (MaybeReclaimMemory m)"
| "run_call (Delay_Till order) m = do { (x, m) \<leftarrow> DelayTillNextTask no_delay order (controller_now m) m; Some (Sleep x, m) }"
| "run_call Delete_Pending m = silently (sm_DeletePendingTasks m)"
| "run_call Has_Tasks m = do { (_, m) \<leftarrow> sm_HasTasks m; Some (Silent, m) }"
| "run_call (Is_Idle order) m = do { (_, m) \<leftarrow> IsIdleForTesting order m; Some (Silent, m) }"
| "run_call (Advance_Clock d t) m =
     on_sched (\<lambda>s. Some (s\<lparr>time_domains := (time_domains s)(d := (time_domains s d)\<lparr>td_now := t\<rparr>)\<rparr>)) m"
| "run_call (Cancel n) m = on_sched (\<lambda>s. Some (s\<lparr>is_cancelled := (is_cancelled s)(n := True)\<rparr>)) m"
| "run_call (Native_Begin p) m = silently (Some (OnNativeWorkPending p m))"
| "run_call (Native_End p) m = silently (NativeWorkHandle_delete p m)"
| "run_call (Add_Domain d) m = silently (RegisterTimeDomain d m)"
| "run_call (Remove_Domain d) m = silently (Some (UnregisterTimeDomain d m))"

text \<open>
  The conditions.  A task has a callback and a delay that is not negative, and a task that is delayed is among the first
  \<open>2 ^ 31\<close> numbers that the manager hands out, because the differences of larger ones may overflow.  Calls on a queue need a queue that was not
  unregistered; a queue is not unregistered while tasks of it are deferred, and tasks are not
  deleted while unregistered queues wait to be deleted.
  \<open>order\<close> visits all queues that asked to be reloaded.  Native work ends with a handle whose
  priority is not the only one.  Without these conditions the calls may fail (see \<open>scheduler_crashes\<close>).
\<close>

definition visits :: "nat list \<Rightarrow> sequence_manager \<Rightarrow> bool" where
  "visits order m \<longleftrightarrow> (\<forall>q \<in> set (active_queues m). tq_reload_flag (task_queues (sched m) q) \<longrightarrow> q \<in> set order)"

fun call_ok :: "call \<Rightarrow> sequence_manager \<Rightarrow> bool" where
  "call_ok (Create_Queue q d) m \<longleftrightarrow>
     q \<notin> set (active_queues m) \<and> q \<notin> set (queues_to_delete m) \<and> (case d of None \<Rightarrow> True | Some x \<Rightarrow> x \<in> set (registered_time_domains m))"
| "call_ok (Post_Task q task thread) m \<longleftrightarrow>
     pt_callback task \<noteq> None \<and> 0 \<le> pt_delay task \<and> pt_delay task \<le> limit_max int64_t
     \<and> (q \<in> set (active_queues m) \<longrightarrow> number_left q task thread (sched m))"
| "call_ok (Set_Priority q p) m \<longleftrightarrow> q \<in> set (active_queues m) \<and> p < kQueuePriorityCount"
| "call_ok (Set_Enabled q e) m \<longleftrightarrow> q \<in> set (active_queues m)"
| "call_ok (Insert_Fence q position) m \<longleftrightarrow> q \<in> set (active_queues m)"
| "call_ok (Remove_Fence q) m \<longleftrightarrow> q \<in> set (active_queues m)"
| "call_ok (Set_Observer q e) m \<longleftrightarrow> q \<in> set (active_queues m) \<and> (e \<longrightarrow> \<not> tq_observer (task_queues (sched m) q))"
| "call_ok (Set_Report tracing q e) m \<longleftrightarrow> q \<in> set (active_queues m)"
| "call_ok (Set_Time_Domain q d) m \<longleftrightarrow> q \<in> set (active_queues m) \<and> d \<in> set (registered_time_domains m)"
| "call_ok (Start_Task order) m \<longleftrightarrow> visits order m \<and> selections_left m"
| "call_ok Did_Run_Task m \<longleftrightarrow> task_execution_stack m \<noteq> []"
| "call_ok Begin_Nested m \<longleftrightarrow> True"
| "call_ok Exit_Nested m \<longleftrightarrow> 0 < nesting_depth m"
| "call_ok (Unregister_Queue q) m \<longleftrightarrow>
     q \<in> set (active_queues m) \<and> q \<notin> set (queues_to_gracefully_shutdown m) \<and> (\<forall>x \<in> set (non_nestable_task_queue m). fst (snd x) \<noteq> q)"
| "call_ok (Shutdown_Queue q) m \<longleftrightarrow> q \<in> set (active_queues m)"
| "call_ok Reclaim m \<longleftrightarrow> True"
| "call_ok (Delay_Till order) m \<longleftrightarrow> visits order m"
| "call_ok Delete_Pending m \<longleftrightarrow> task_execution_stack m = [] \<and> queues_to_delete m = []"
| "call_ok Has_Tasks m \<longleftrightarrow> queues_to_delete m = []"
| "call_ok (Is_Idle order) m \<longleftrightarrow> True"
| "call_ok (Advance_Clock d t) m \<longleftrightarrow> td_now (time_domains (sched m) d) \<le> t \<and> t \<le> limit_max int64_t"
| "call_ok (Cancel n) m \<longleftrightarrow> True"
| "call_ok (Native_Begin p) m \<longleftrightarrow> p < kQueuePriorityCount"
| "call_ok (Native_End p) m \<longleftrightarrow> (\<exists>x \<in> set (pending_native_work m). x \<noteq> p)"
| "call_ok (Add_Domain d) m \<longleftrightarrow> d \<notin> set (domains_with_manager m)"
| "call_ok (Remove_Domain d) m \<longleftrightarrow>
     d \<noteq> real_time_domain m \<and> (\<forall>q \<in> set (active_queues m). tq_time_domain (task_queues (sched m) q) \<noteq> Some d)"

section \<open>Every call returns and keeps the invariant\<close>

definition posted :: "outcome \<Rightarrow> nat multiset" where
  "posted r = (case r of Accepted n \<Rightarrow> {#n#} | _ \<Rightarrow> {#})"

definition begun :: "outcome \<Rightarrow> nat multiset" where
  "begun r = (case r of Began n \<Rightarrow> {#n#} | _ \<Rightarrow> {#})"

definition discarded :: "call \<Rightarrow> sequence_manager \<Rightarrow> nat multiset" where
  "discarded c m =
     (case c of
        Unregister_Queue q \<Rightarrow> jobs (sched m) q
      | Delete_Pending \<Rightarrow> (\<Sum>q \<in> set (active_queues m). jobs (sched m) q)
      | _ \<Rightarrow> {#})"

text \<open>The jobs that are not cancelled.\<close>

definition uncancelled :: "sequence_manager \<Rightarrow> nat multiset \<Rightarrow> nat multiset" where
  "uncancelled m J = filter_mset (\<lambda>n. \<not> is_cancelled (sched m) n) J"

text \<open>A call does not lose a job: what was pending or posted is pending, has begun or was discarded.\<close>

definition good_call :: "call \<Rightarrow> sequence_manager \<Rightarrow> outcome \<Rightarrow> sequence_manager \<Rightarrow> bool" where
  "good_call c m r m' \<longleftrightarrow>
     sm_inv m' \<and> (\<forall>n. is_cancelled (sched m) n \<longrightarrow> is_cancelled (sched m') n)
     \<and> uncancelled m' (pending m + posted r) = pending m' + uncancelled m' (begun r + discarded c m)"

lemma sum_multiset_in: "finite A \<Longrightarrow> n \<in># (\<Sum>q\<in>A. f q) \<Longrightarrow> \<exists>q \<in> A. n \<in># f q"
  by (induction A rule: finite_induct) auto

lemma uncancelled_pending [simp]: "uncancelled m (pending m) = pending m"
proof -
  have "\<not> is_cancelled (sched m) n" if "n \<in># pending m" for n
    using that sum_multiset_in [of "set (active_queues m)" n "jobs (sched m)"] by (auto simp: pending_def jobs_def jobs_in_def)
  then show ?thesis unfolding uncancelled_def by (simp add: filter_mset_eq_conv)
qed

lemma uncancelled_simps [simp]: "uncancelled m {#} = {#}" "uncancelled m (J + K) = uncancelled m J + uncancelled m K" "uncancelled m (add_mset n J) = (if is_cancelled (sched m) n then uncancelled m J else add_mset n (uncancelled m J))"
  by (auto simp: uncancelled_def)

lemma uncancelled_cong: "is_cancelled (sched m') = is_cancelled (sched m) \<Longrightarrow> uncancelled m' J = uncancelled m J"
  by (simp add: uncancelled_def)

lemma good_same:
  assumes "sm_inv m'" "pending m' = pending m" "is_cancelled (sched m') = is_cancelled (sched m)" "posted r = {#}" "begun r = {#}" "discarded c m = {#}"
  shows "good_call c m r m'"
  using assms uncancelled_cong [of m' m "pending m"] by (auto simp: good_call_def)

lemma good_housekept:
  assumes "housekept m m'" "posted r = {#}" "begun r = {#}" "discarded c m = {#}"
  shows "good_call c m r m'"
  using assms good_same by (simp add: housekept_def)

lemma silent [simp]: "posted Silent = {#}" "begun Silent = {#}" "posted (Sleep x) = {#}" "begun (Sleep x) = {#}" "posted Refused = {#}" "begun Refused = {#}"
  "posted (Began n) = {#}" "begun (Accepted n) = {#}" "posted (Accepted n) = {#n#}" "begun (Began n) = {#n#}"
  by (simp_all add: posted_def begun_def)

lemma visits_all:
  assumes "sm_inv m" "visits order m"
  shows "\<forall>q. tq_reload_flag (task_queues (sched m) q) \<longrightarrow> q \<in> set order"
proof (intro allI impI)
  fix q assume f: "tq_reload_flag (task_queues (sched m) q)"
  obtain reg where inv: "sched_inv (sched m) reg" by (rule sched_okE [OF sm_invD(1) [OF assms(1)]])
  have "tq_work_queues (task_queues (sched m) q)" using gone_tasks [OF inv, of q] f by (auto simp: gone_def)
  then show "q \<in> set order" using assms(2) f queues_okD(2) [OF sm_invD(4) [OF assms(1)]] by (simp add: visits_def)
qed

text \<open>Cancelling a job and the passing of time.\<close>

lemma sched_inv_cancel: "sched_inv (s\<lparr>is_cancelled := f\<rparr>) reg = sched_inv s reg"
proof -
  have "wake_rep (s\<lparr>is_cancelled := f\<rparr>) reg = wake_rep s reg" by (rule wake_rep_cong) simp_all
  then show ?thesis by (simp add: sched_inv_def env_ok_def work_ok_cong [of "s\<lparr>is_cancelled := f\<rparr>" s])
qed

definition at_time :: "nat \<Rightarrow> int \<Rightarrow> scheduler \<Rightarrow> scheduler" where
  "at_time d t s = s\<lparr>time_domains := (time_domains s)(d := (time_domains s d)\<lparr>td_now := t\<rparr>)\<rparr>"

lemma at_time_simps [simp]:
  "task_queues (at_time d t s) = task_queues s" "queues (at_time d t s) = queues s" "heaps (at_time d t s) = heaps s" "sel (at_time d t s) = sel s"
  "order_counter (at_time d t s) = order_counter s" "is_cancelled (at_time d t s) = is_cancelled s"
  "td_wake_ups (time_domains (at_time d t s) e) = td_wake_ups (time_domains s e)" "td_high_res (time_domains (at_time d t s) e) = td_high_res (time_domains s e)"
  "td_now (time_domains (at_time d t s) e) = (if e = d then t else td_now (time_domains s e))"
  "cross_thread_task_delay (at_time d t s) = cross_thread_task_delay s" "same_thread_task_delay (at_time d t s) = same_thread_task_delay s"
  "event_log (at_time d t s) = event_log s" "log_ok (at_time d t s) = log_ok s"
  by (simp_all add: at_time_def)

lemma sched_inv_time:
  assumes "sched_inv s reg" "time_ok t"
  shows "sched_inv (at_time d t s) reg"
proof -
  have "wake_rep (at_time d t s) reg = wake_rep s reg" using heaps_rep_cong [of "at_time d t s" s reg] by (simp add: wake_rep_def)
  then show ?thesis using assms by (auto simp: sched_inv_def env_ok_def time_ok_def work_ok_cong [of "at_time d t s" s])
qed

lemma same_tasks_fields:
  "work_tasks (s\<lparr>is_cancelled := f\<rparr>) = work_tasks s" "delayed_tasks (s\<lparr>is_cancelled := f\<rparr>) = delayed_tasks s"
  "work_tasks (at_time d t s) = work_tasks s" "delayed_tasks (at_time d t s) = delayed_tasks s"
  by (auto simp: fun_eq_iff work_tasks_def pending_immediate_def delayed_tasks_def)

lemma sm_inv_same:
  assumes m: "sm_inv m" and s: "sched_ok s'" "task_queues s' = task_queues (sched m)" "order_counter s' = order_counter (sched m)"
    "work_tasks s' = work_tasks (sched m)" "delayed_tasks s' = delayed_tasks (sched m)"
  shows "sm_inv (m\<lparr>sched := s'\<rparr>)"
proof -
  have "may_requeue s' = may_requeue (sched m)" using s by (simp add: fun_eq_iff may_requeue_eq)
  then have "deferred_ok (non_nestable_task_queue m) s'" using sm_invD(3) [OF m] s(2) by (simp add: deferred_ok_def)
  then show ?thesis using m s by (simp add: sm_inv_def tasks_ok_def queues_ok_def loops_ok_def)
qed

lemma jobs_in_more:
  assumes "\<forall>k. canc k \<longrightarrow> f k"
  shows "filter_mset (\<lambda>k. \<not> f k) (jobs_in canc ts) = jobs_in f ts"
  using assms by (induction ts) auto

lemma cancel_ok:
  assumes m: "sm_inv m" and f: "\<forall>k. is_cancelled (sched m) k \<longrightarrow> f k"
  shows "good_call (Cancel n) m Silent (m\<lparr>sched := (sched m)\<lparr>is_cancelled := f\<rparr>\<rparr>)"
proof -
  let ?s = "(sched m)\<lparr>is_cancelled := f\<rparr>" and ?m = "m\<lparr>sched := (sched m)\<lparr>is_cancelled := f\<rparr>\<rparr>"
  have "sm_inv ?m"
    by (rule sm_inv_same [OF m]) (use sm_invD(1) [OF m] in \<open>simp_all add: sched_ok_def sched_inv_cancel same_tasks_fields\<close>)
  moreover have j: "filter_mset (\<lambda>k. \<not> f k) (jobs (sched m) q) = jobs ?s q" for q
    by (simp add: jobs_def jobs_in_more [OF f] same_tasks_fields)
  have "filter_mset (\<lambda>k. \<not> f k) (\<Sum>q\<in>A. jobs (sched m) q) = (\<Sum>q\<in>A. jobs ?s q)" if "finite A" for A
    using that by (induction A rule: finite_induct) (simp_all add: j)
  then have "uncancelled ?m (pending m) = pending ?m" using jobs_in_more [OF f] by (simp add: uncancelled_def pending_def)
  ultimately show ?thesis using f by (simp add: good_call_def discarded_def)
qed

lemma clock_ok:
  assumes m: "sm_inv m" and t: "time_ok t"
  shows "housekept m (m\<lparr>sched := at_time d t (sched m)\<rparr>)"
proof -
  have "sm_inv (m\<lparr>sched := at_time d t (sched m)\<rparr>)"
    by (rule sm_inv_same [OF m]) (use sm_invD(1) [OF m] sched_inv_time [OF _ t] in \<open>auto simp: sched_ok_def same_tasks_fields\<close>)
  then show ?thesis by (simp add: housekept_def pending_def jobs_def [abs_def] same_tasks_fields)
qed

text \<open>The outcome of the calls that keep all jobs.\<close>

lemma keeps_call:
  assumes m: "sm_inv m" and f: "\<exists>s'. f (sched m) = Some s' \<and> keeps (sched m) s'" and c: "discarded c m = {#}"
  shows "\<exists>r m'. on_sched f m = Some (r, m') \<and> good_call c m r m'"
proof -
  from f obtain s' where s': "f (sched m) = Some s'" "keeps (sched m) s'" by blast
  have "good_call c m Silent (m\<lparr>sched := s'\<rparr>)" using good_housekept [OF sm_inv_keeps [OF m s'(2)]] c by simp
  then show ?thesis using s'(1) by (simp add: on_sched_def)
qed

lemma silent_call:
  assumes "\<exists>m'. f = Some m' \<and> housekept m m'" "discarded c m = {#}"
  shows "\<exists>r m'. silently f = Some (r, m') \<and> good_call c m r m'"
  using assms good_housekept [of m _ Silent c] by (auto simp: silently_def)

lemma post_call:
  assumes m: "sm_inv m" and t: "pt_callback task \<noteq> None" "0 \<le> pt_delay task" "pt_delay task \<le> limit_max int64_t"
    "q \<in> set (active_queues m) \<longrightarrow> number_left q task thread (sched m)"
  shows "\<exists>r m'. run_call (Post_Task q task thread) m = Some (r, m') \<and> good_call (Post_Task q task thread) m r m'"
proof (cases "q \<in> set (active_queues m)")
  case True
  note i = sm_invD [OF m]
  obtain reg where inv: "sched_inv (sched m) reg" by (rule sched_okE [OF i(1)])
  have wq: "tq_work_queues (task_queues (sched m) q)" using queues_okD(2) [OF i(4)] True by simp
  have un: "\<not> tq_unregistered (task_queues (sched m) q)" using liveD(1) [OF sched_invD(5) [OF inv wq]] by (simp add: domain_ok_def)
  from post_ok [OF m True t(1-3)] t(4) True obtain s' where
    s': "PostTask q task thread (sched m) = Some s'" "sm_inv (m\<lparr>sched := s'\<rparr>)" "runs (sched m) s'"
      "pending (m\<lparr>sched := s'\<rparr>) = pending m + job_if (is_cancelled (sched m)) (the (pt_callback task))" by blast
  have canc: "is_cancelled s' = is_cancelled (sched m)" using runsD(7) [OF s'(3)] .
  have "good_call (Post_Task q task thread) m (Accepted (the (pt_callback task))) (m\<lparr>sched := s'\<rparr>)"
    using s'(2,4) canc uncancelled_cong [of "m\<lparr>sched := s'\<rparr>" m] by (simp add: good_call_def discarded_def)
  then show ?thesis using s'(1) un by (simp add: GuardedTaskPoster_PostTask_def)
next
  case False
  obtain reg where inv: "sched_inv (sched m) reg" by (rule sched_okE [OF sm_invD(1) [OF m]])
  have "tq_unregistered (task_queues (sched m) q)"
    using gone_tasks [OF inv] queues_okD(2) [OF sm_invD(4) [OF m]] False by (auto simp: gone_def)
  moreover have "good_call (Post_Task q task thread) m Refused (m\<lparr>sched := sched m\<rparr>)"
    using m by (intro good_housekept) (simp_all add: housekept_def discarded_def)
  ultimately show ?thesis by (simp add: GuardedTaskPoster_PostTask_def)
qed

lemma begun_outcome: "begun (begin_outcome (Some t)) = started t" "posted (begin_outcome r) = {#}" "begun (begin_outcome None) = {#}"
  by (auto simp: begin_outcome_def started_def split: option.split closure.split)

lemma start_call:
  assumes m: "sm_inv m" and ok: "visits order m" "selections_left m"
  shows "\<exists>r m'. run_call (Start_Task order) m = Some (r, m') \<and> good_call (Start_Task order) m r m'"
proof -
  from SelectNextTaskImpl_ok [OF m ok(2) visits_all [OF m ok(1)]] obtain r m1 where
    m1: "SelectNextTaskImpl order m = Some (r, m1)" "sm_inv m1" "selected m r m1" "runs (sched m) (sched m1)" "active_queues m1 = active_queues m" by blast
  have canc: "is_cancelled (sched m1) = is_cancelled (sched m)" using runsD(7) [OF m1(4)] .
  show ?thesis
  proof (cases r)
    case None
    then have "good_call (Start_Task order) m (begin_outcome r) m1"
      using m1(2,3) canc uncancelled_cong [of m1 m "pending m"] by (simp add: good_call_def selected_def begun_outcome discarded_def)
    then show ?thesis using None m1(1) by (simp add: StartTask_def)
  next
    case (Some t)
    with m1(3) obtain q where q: "task_execution_stack m1 = task_execution_stack m @ [(t, q)]" "q \<in> set (active_queues m)"
      "pending m = pending m1 + jobs_in (is_cancelled (sched m)) [t]" by (auto simp: selected_def)
    from run_task_ok [OF m1(2), of t q] q(1,2) m1(5) obtain m' where
      m': "run_task m1 = Some m'" "sm_inv m'" "runs (sched m1) (sched m')"
        "pending m' + filter_mset (\<lambda>n. \<not> is_cancelled (sched m1) n) (started t) = pending m1 + jobs_in (is_cancelled (sched m1)) [t]" by auto
    have canc': "is_cancelled (sched m') = is_cancelled (sched m)" using runsD(7) [OF m'(3)] canc by simp
    have "uncancelled m' (pending m) = pending m" using uncancelled_cong [OF canc'] by simp
    then have "good_call (Start_Task order) m (begin_outcome r) m'"
      using m'(2,4) q(3) canc canc' Some by (simp add: good_call_def begun_outcome discarded_def) (simp add: uncancelled_def)
    then show ?thesis using Some m1(1) m'(1) by (simp add: StartTask_def)
  qed
qed

lemma unregister_call:
  assumes m: "sm_inv m" and q: "q \<in> set (active_queues m)" "q \<notin> set (queues_to_gracefully_shutdown m)"
    and ds: "\<forall>x \<in> set (non_nestable_task_queue m). fst (snd x) \<noteq> q"
  shows "\<exists>r m'. run_call (Unregister_Queue q) m = Some (r, m') \<and> good_call (Unregister_Queue q) m r m'"
proof -
  from UnregisterTaskQueueImpl_ok [OF m q(1) ds] obtain m' where
    m': "UnregisterTaskQueueImpl q m = Some m'" "queues_to_gracefully_shutdown m' = queues_to_gracefully_shutdown m"
      "sm_inv (m'\<lparr>queues_to_gracefully_shutdown := remove1 q (queues_to_gracefully_shutdown m)\<rparr>)"
      "pending m = pending m' + jobs (sched m) q" "is_cancelled (sched m') = is_cancelled (sched m)" by blast
  have "m'\<lparr>queues_to_gracefully_shutdown := remove1 q (queues_to_gracefully_shutdown m)\<rparr> = m'" using m'(2) q(2) by (simp add: remove1_idem)
  then have "sm_inv m'" using m'(3) by simp
  moreover have "uncancelled m' (jobs (sched m) q) = jobs (sched m) q" using m'(5) by (simp add: uncancelled_def jobs_def jobs_in_def filter_filter_mset)
  ultimately have "good_call (Unregister_Queue q) m Silent m'" using m'(4,5) by (simp add: good_call_def discarded_def)
  then show ?thesis using m'(1) by (simp add: silently_def)
qed

lemma delete_call:
  assumes m: "sm_inv m" and st: "task_execution_stack m = []" "queues_to_delete m = []"
  shows "\<exists>r m'. run_call Delete_Pending m = Some (r, m') \<and> good_call Delete_Pending m r m'"
proof -
  from sm_DeletePendingTasks_ok [OF m st] obtain m' where
    m': "sm_DeletePendingTasks m = Some m'" "sm_inv m'" "is_cancelled (sched m') = is_cancelled (sched m)"
      "pending m = pending m' + (\<Sum>q \<in> set (active_queues m). jobs (sched m) q)" by blast
  have "uncancelled m' (pending m) = pending m" using uncancelled_cong [OF m'(3)] by simp
  then have "good_call Delete_Pending m Silent m'" using m'(2-4) by (simp add: good_call_def discarded_def)
  then show ?thesis using m'(1) by (simp add: silently_def)
qed

definition returns :: "call \<Rightarrow> sequence_manager \<Rightarrow> bool" where
  "returns c m \<longleftrightarrow> (\<exists>r m'. run_call c m = Some (r, m') \<and> good_call c m r m')"

lemma emit_fields:
  "work_tasks (emit e s) = work_tasks s" "delayed_tasks (emit e s) = delayed_tasks s" "event_ok e \<Longrightarrow> sched_inv (emit e s) reg = sched_inv s reg"
proof -
  show "work_tasks (emit e s) = work_tasks s" "delayed_tasks (emit e s) = delayed_tasks s"
    by (auto simp: fun_eq_iff work_tasks_def pending_immediate_def delayed_tasks_def)
  have "wake_rep (emit e s) reg = wake_rep s reg" by (rule wake_rep_cong) simp_all
  then show "event_ok e \<Longrightarrow> sched_inv (emit e s) reg = sched_inv s reg" by (simp add: sched_inv_def env_ok_def)
qed

lemma frame_ok:
  assumes m: "sm_inv m"
  shows "q \<in> set (active_queues m) \<Longrightarrow> housekept m (ShutdownTaskQueueGracefully q m)"
    "housekept m (OnNativeWorkPending p m)"
    "\<exists>x \<in> set (pending_native_work m). x \<noteq> p \<Longrightarrow> \<exists>m'. NativeWorkHandle_delete p m = Some m' \<and> housekept m m'"
    "d \<notin> set (domains_with_manager m) \<Longrightarrow> \<exists>m'. RegisterTimeDomain d m = Some m' \<and> housekept m m'"
    "d \<noteq> real_time_domain m \<Longrightarrow> \<forall>q \<in> set (active_queues m). tq_time_domain (task_queues (sched m) q) \<noteq> Some d \<Longrightarrow> housekept m (UnregisterTimeDomain d m)"
proof -
  note i = sm_invD [OF m]
  show "housekept m (ShutdownTaskQueueGracefully q m)" if "q \<in> set (active_queues m)"
    using i that by (simp add: housekept_def sm_inv_def ShutdownTaskQueueGracefully_def pending_def queues_ok_def loops_ok_def)
  show "housekept m (OnNativeWorkPending p m)"
    using i by (simp add: housekept_def sm_inv_def OnNativeWorkPending_def pending_def queues_ok_def loops_ok_def sorted_insort)
  show "\<exists>m'. RegisterTimeDomain d m = Some m' \<and> housekept m m'" if "d \<notin> set (domains_with_manager m)"
    using i that by (auto simp: housekept_def sm_inv_def RegisterTimeDomain_def pending_def queues_ok_def loops_ok_def)
  show "housekept m (UnregisterTimeDomain d m)" if d: "d \<noteq> real_time_domain m" "\<forall>q \<in> set (active_queues m). tq_time_domain (task_queues (sched m) q) \<noteq> Some d"
  proof -
    have "\<forall>q \<in> set (active_queues m). tq_time_domain (task_queues (sched m) q) \<in> Some ` (set (registered_time_domains m) - {d})"
      using d(2) i(4) unfolding queues_ok_def by blast
    then show ?thesis using i d(1) by (auto simp: housekept_def sm_inv_def UnregisterTimeDomain_def pending_def queues_ok_def loops_ok_def remove1_set)
  qed
  show "\<exists>m'. NativeWorkHandle_delete p m = Some m' \<and> housekept m m'" if x: "\<exists>x \<in> set (pending_native_work m). x \<noteq> p"
  proof -
    let ?ps = "filter (\<lambda>x. x \<noteq> p) (pending_native_work m)"
    obtain a as where a: "?ps = a # as" using x by (cases ?ps) (auto simp: filter_empty_conv)
    have e: "effective_priority m = Some (hd (pending_native_work m))" using effective_ok [OF i(5)] .
    let ?m = "m\<lparr>pending_native_work := ?ps\<rparr>"
    have "sorted ?ps" using i(5) by (simp add: loops_ok_def sorted_filter [of id, simplified])
    then have h: "housekept m ?m" using i a by (simp add: housekept_def sm_inv_def pending_def queues_ok_def loops_ok_def)
    have "housekept m (?m\<lparr>sched := emit ScheduleWork (sched m)\<rparr>)"
    proof -
      have "sm_inv ?m" using h by (simp add: housekept_def)
      from sm_inv_same [OF this, of "emit ScheduleWork (sched m)"] i(1) have "sm_inv (?m\<lparr>sched := emit ScheduleWork (sched m)\<rparr>)"
        by (simp add: sched_ok_def emit_fields)
      then show ?thesis by (simp add: housekept_def pending_def jobs_def [abs_def] emit_fields)
    qed
    then show ?thesis using a e h by (auto simp: NativeWorkHandle_delete_def effective_priority_def Let_def)
  qed
qed

theorem call_good:
  assumes m: "sm_inv m" and c: "call_ok c m"
  shows "returns c m"
proof -
  note i = sm_invD(1,2) [OF m]
  have wq: "tq_work_queues (task_queues (sched m) q)" if "q \<in> set (active_queues m)" for q using that queues_okD(2) [OF sm_invD(4) [OF m]] by simp
  note simps = returns_def discarded_def
  show ?thesis
  proof (cases c)
    case (Create_Queue q d)
    with c have "\<exists>m'. CreateTaskQueueImpl q d False m = Some m' \<and> sm_inv m' \<and> pending m' = pending m \<and> is_cancelled (sched m') = is_cancelled (sched m)"
      using CreateTaskQueueImpl_ok [OF m, of q d] by (auto split: option.splits)
    then show ?thesis using Create_Queue good_same by (fastforce simp: simps silently_def)
  next
    case (Post_Task q task thread)
    then show ?thesis using post_call [OF m] c by (simp add: returns_def)
  next
    case (Set_Priority q p)
    then show ?thesis using keeps_call [OF m] priority_keeps(1) [OF i wq] c by (simp add: simps)
  next
    case (Set_Enabled q e)
    then show ?thesis using keeps_call [OF m] priority_keeps(2) [OF i wq] c by (simp add: simps)
  next
    case (Insert_Fence q position)
    then show ?thesis using keeps_call [OF m] fence_keeps(1) [OF i wq] c by (simp add: simps)
  next
    case (Remove_Fence q)
    then show ?thesis using keeps_call [OF m] fence_keeps(2) [OF i wq] c by (simp add: simps)
  next
    case (Set_Observer q e)
    then show ?thesis using keeps_call [OF m] priority_keeps(3) [OF i wq] c by (simp add: simps)
  next
    case (Set_Report tracing q e)
    then show ?thesis using keeps_call [OF m] priority_keeps(4) [OF i wq] c by (simp add: simps)
  next
    case (Set_Time_Domain q d)
    then show ?thesis using sm_SetTimeDomain_ok [OF m, of q d] good_housekept [of m _ Silent c] c by (fastforce simp: simps on_sched_def)
  next
    case (Start_Task order)
    then show ?thesis using start_call [OF m] c by (simp add: returns_def)
  next
    case Did_Run_Task
    from DidRunTask_ok [OF m] c Did_Run_Task obtain m' where
      m': "DidRunTask m = Some m'" "housekept (m\<lparr>task_execution_stack := butlast (task_execution_stack m)\<rparr>) m'" by auto
    then have "good_call c m Silent m'" using Did_Run_Task by (intro good_same) (auto simp: housekept_def pending_def discarded_def)
    then show ?thesis using m'(1) Did_Run_Task by (simp add: returns_def silently_def)
  next
    case Begin_Nested
    have "sm_inv (OnBeginNestedRunLoop m)" using m by (simp add: sm_inv_def OnBeginNestedRunLoop_def queues_ok_def loops_ok_def)
    then have "good_call c m Silent (OnBeginNestedRunLoop m)"
      using good_same [of "OnBeginNestedRunLoop m" m Silent c] Begin_Nested by (simp add: OnBeginNestedRunLoop_def pending_def discarded_def)
    then show ?thesis using Begin_Nested by (simp add: returns_def silently_def)
  next
    case Exit_Nested
    then show ?thesis using OnExitNestedRunLoop_ok [OF m] c good_same by (fastforce simp: simps silently_def)
  next
    case (Unregister_Queue q)
    then show ?thesis using unregister_call [OF m] c by (simp add: returns_def)
  next
    case (Shutdown_Queue q)
    then show ?thesis using silent_call [of "Some (ShutdownTaskQueueGracefully q m)" m c] frame_ok(1) [OF m] c by (simp add: simps)
  next
    case Reclaim
    then show ?thesis using silent_call [OF MaybeReclaimMemory_ok [OF m], of c] by (simp add: simps)
  next
    case (Delay_Till order)
    from DelayTillNextTask_ok [of m no_delay order] m visits_all [OF m] c Delay_Till good_housekept [of m _ _ c] show ?thesis
      by (fastforce simp: simps no_delay_def)
  next
    case Delete_Pending
    then show ?thesis using delete_call [OF m] c by (simp add: returns_def)
  next
    case Has_Tasks
    then show ?thesis using sm_HasTasks_ok [OF m] c good_housekept [of m _ Silent c] by (fastforce simp: simps)
  next
    case (Is_Idle order)
    then show ?thesis using IsIdleForTesting_ok [OF m, of order] good_housekept [of m _ Silent c] by (fastforce simp: simps)
  next
    case (Advance_Clock d t)
    obtain reg where inv: "sched_inv (sched m) reg" by (rule sched_okE [OF i(1)])
    then have "0 \<le> td_now (time_domains (sched m) d)" using sched_invD(2) by (auto simp: env_ok_def)
    then have "time_ok t" using c Advance_Clock by (simp add: time_ok_def)
    then show ?thesis using Advance_Clock clock_ok [OF m, of t d] good_housekept [of m _ Silent c] by (simp add: simps on_sched_def at_time_def)
  next
    case (Cancel n)
    then show ?thesis using cancel_ok [OF m, of "(is_cancelled (sched m))(n := True)" n] by (simp add: simps on_sched_def)
  next
    case (Native_Begin p)
    then show ?thesis using silent_call [of "Some (OnNativeWorkPending p m)" m c] frame_ok(2) [OF m] by (simp add: simps)
  next
    case (Native_End p)
    then show ?thesis using silent_call [OF frame_ok(3) [OF m], of p c] c by (simp add: simps)
  next
    case (Add_Domain d)
    then show ?thesis using silent_call [OF frame_ok(4) [OF m], of d c] c by (simp add: simps)
  next
    case (Remove_Domain d)
    then show ?thesis using silent_call [of "Some (UnregisterTimeDomain d m)" m c] frame_ok(5) [OF m] c by (simp add: simps)
  qed
qed

section \<open>Runs\<close>

definition settings_ok :: "int list \<Rightarrow> int list \<Rightarrow> int \<Rightarrow> bool" where
  "settings_ok cross_thread same_thread now \<longleftrightarrow>
     length cross_thread = kQueuePriorityCount \<and> length same_thread = kQueuePriorityCount
     \<and> (\<forall>x \<in> set (cross_thread @ same_thread). 0 \<le> x \<and> x \<le> limit_max int64_t) \<and> 0 \<le> now \<and> now \<le> limit_max int64_t"

lemma work_ok_transfer:
  assumes "queues s = queues t" "heaps s = heaps t" "sel s = sel t" "work_ok t"
  shows "work_ok s"
proof -
  have "heap_view s = heap_view t" using assms by (simp add: heap_view_def fun_eq_iff)
  then show ?thesis using assms by (simp add: work_ok_def sets_rep_def)
qed

lemma initial_sm:
  assumes "settings_ok cross_thread same_thread now"
  shows "\<exists>m. SequenceManagerImpl b seed cross_thread same_thread add_queue_time now = Some m \<and> sm_inv m \<and> pending m = {#}"
proof -
  have time: "time_ok now" using assms by (simp add: settings_ok_def time_ok_def)
  from reclaim_time [OF time] obtain t where t: "time_plus Clang now kReclaimMemoryInterval = Some t" ..
  obtain m where m: "SequenceManagerImpl b seed cross_thread same_thread add_queue_time now = Some m"
    using t by (simp add: SequenceManagerImpl_def RegisterTimeDomain_def Let_def)
  let ?s = "sched m"
  have s: "queues ?s = queues (initial_work_state b seed)" "heaps ?s = heaps (initial_work_state b seed)" "sel ?s = sel (initial_work_state b seed)"
    "order_counter ?s = 2" "time_domains ?s = (\<lambda>_. \<lparr>td_wake_ups = [], td_high_res = 0, td_now = now\<rparr>)"
    "cross_thread_task_delay ?s = cross_thread" "same_thread_task_delay ?s = same_thread" "event_log ?s = []"
    "task_queues ?s = (\<lambda>_. (new_task_queue_impl 0 False)\<lparr>tq_unregistered := True, tq_work_queues := False, tq_time_domain := None\<rparr>)"
    "active_queues m = []" "queues_to_gracefully_shutdown m = []" "queues_to_delete m = []" "registered_time_domains m = [0]" "real_time_domain m = 0"
    "domains_with_manager m = [0]" "nesting_depth m = 0" "non_nestable_task_queue m = []" "task_execution_stack m = []" "pending_native_work m = [kBestEffortPriority]"
    using m t by (auto simp: SequenceManagerImpl_def RegisterTimeDomain_def set_insert_def Let_def work_state.defs scheduler.defs enqueue_order_first_def)
  have wok: "work_ok ?s" using work_ok_transfer [OF s(1-3) initial_ok] .
  have env: "env_ok ?s" using assms by (auto simp: env_ok_def s settings_ok_def log_ok_def)
  have rep: "wake_rep ?s (\<lambda>_. None)"
    by (simp add: wake_rep_def heaps_rep_def s wake_view_def high_res_entries_def new_task_queue_impl_def)
  have tasks: "wq_tasks (queues ?s w) = []" "wq_sets (queues ?s w) = None" for w by (simp_all add: s initial_work_state_def WorkQueue_def)
  have "gone (task_queues ?s q) (imm ?s q) (del ?s q) None" for q by (simp add: gone_def tasks) (simp add: s new_task_queue_impl_def)
  then have inv: "sched_inv ?s (\<lambda>_. None)" using wok env rep by (simp add: sched_inv_def queue_inv_def)
  have "tasks_ok ?s" by (simp add: tasks_ok_def work_tasks_def pending_immediate_def delayed_tasks_def tasks) (simp add: s new_task_queue_impl_def DelayedIncomingQueue_def)
  then have "sm_inv m" using inv by (auto simp: sm_inv_def sched_ok_def deferred_ok_def deferred_of_def queues_ok_def loops_ok_def s)
  then show ?thesis using m s by (simp add: pending_def)
qed

primrec run_calls :: "call list \<Rightarrow> sequence_manager \<Rightarrow> (outcome list \<times> nat multiset \<times> sequence_manager) option" where
  "run_calls [] m = Some ([], {#}, m)"
| "run_calls (c # cs) m =
     do { (r, m1) \<leftarrow> run_call c m; (rs, D, m2) \<leftarrow> run_calls cs m1; Some (r # rs, discarded c m + D, m2) }"

primrec calls_ok :: "call list \<Rightarrow> sequence_manager \<Rightarrow> bool" where
  "calls_ok [] m \<longleftrightarrow> True"
| "calls_ok (c # cs) m \<longleftrightarrow> call_ok c m \<and> (case run_call c m of None \<Rightarrow> True | Some (_, m') \<Rightarrow> calls_ok cs m')"

definition all_posted :: "outcome list \<Rightarrow> nat multiset" where
  "all_posted rs = sum_list (map posted rs)"

definition all_begun :: "outcome list \<Rightarrow> nat multiset" where
  "all_begun rs = sum_list (map begun rs)"

lemma uncancelled_twice: "(\<forall>n. is_cancelled (sched m) n \<longrightarrow> is_cancelled (sched m') n) \<Longrightarrow> uncancelled m' (uncancelled m J) = uncancelled m' J"
  unfolding uncancelled_def filter_filter_mset by (rule filter_mset_cong) auto

lemma run_calls_good:
  assumes "sm_inv m" "calls_ok cs m"
  shows "\<exists>rs D m'. run_calls cs m = Some (rs, D, m') \<and> sm_inv m' \<and> (\<forall>n. is_cancelled (sched m) n \<longrightarrow> is_cancelled (sched m') n)
    \<and> uncancelled m' (pending m + all_posted rs) = pending m' + uncancelled m' (all_begun rs + D)"
  using assms
proof (induction cs arbitrary: m)
  case Nil
  then show ?case by (simp add: all_posted_def all_begun_def)
next
  case (Cons c cs)
  have "returns c m" using call_good [OF Cons.prems(1)] Cons.prems(2) by simp
  then obtain r m1 where m1: "run_call c m = Some (r, m1)" "sm_inv m1" "\<forall>n. is_cancelled (sched m) n \<longrightarrow> is_cancelled (sched m1) n"
    "uncancelled m1 (pending m + posted r) = pending m1 + uncancelled m1 (begun r + discarded c m)" by (auto simp: returns_def good_call_def)
  have "calls_ok cs m1" using Cons.prems(2) m1(1) by simp
  from Cons.IH [OF m1(2) this] obtain rs D m' where
    m': "run_calls cs m1 = Some (rs, D, m')" "sm_inv m'" "\<forall>n. is_cancelled (sched m1) n \<longrightarrow> is_cancelled (sched m') n"
      "uncancelled m' (pending m1 + all_posted rs) = pending m' + uncancelled m' (all_begun rs + D)" by blast
  have "uncancelled m' (pending m + posted r) = uncancelled m' (pending m1) + uncancelled m' (begun r + discarded c m)"
    using arg_cong [OF m1(4), of "uncancelled m'"] unfolding uncancelled_twice [OF m'(3)] by (simp add: uncancelled_twice [OF m'(3)])
  then have "uncancelled m' (pending m + all_posted (r # rs)) = pending m' + uncancelled m' (all_begun (r # rs) + (discarded c m + D))"
    using m'(4) by (simp add: all_posted_def all_begun_def ac_simps) (metis (no_types, lifting) add.assoc add.left_commute)
  then show ?case using m1(1,3) m'(1-3) by auto
qed

section \<open>Programs\<close>

definition program :: "bool \<Rightarrow> 64 word \<Rightarrow> int list \<Rightarrow> int list \<Rightarrow> bool \<Rightarrow> int \<Rightarrow> call list \<Rightarrow> (outcome list \<times> nat multiset \<times> sequence_manager) option" where
  "program no_anti_starvation seed cross_thread same_thread add_queue_time now cs =
     do { m \<leftarrow> SequenceManagerImpl no_anti_starvation seed cross_thread same_thread add_queue_time now; run_calls cs m }"

definition program_ok :: "bool \<Rightarrow> 64 word \<Rightarrow> int list \<Rightarrow> int list \<Rightarrow> bool \<Rightarrow> int \<Rightarrow> call list \<Rightarrow> bool" where
  "program_ok no_anti_starvation seed cross_thread same_thread add_queue_time now cs \<longleftrightarrow>
     settings_ok cross_thread same_thread now
     \<and> (case SequenceManagerImpl no_anti_starvation seed cross_thread same_thread add_queue_time now of None \<Rightarrow> True | Some m \<Rightarrow> calls_ok cs m)"

text \<open>The states that programs reach.\<close>

inductive reached :: "sequence_manager \<Rightarrow> bool" where
  construct: "settings_ok cross_thread same_thread now
    \<Longrightarrow> SequenceManagerImpl b seed cross_thread same_thread add_queue_time now = Some m \<Longrightarrow> reached m"
| call: "reached m \<Longrightarrow> call_ok c m \<Longrightarrow> run_call c m = Some (r, m') \<Longrightarrow> reached m'"

lemma reached_inv: "reached m \<Longrightarrow> sm_inv m"
proof (induction rule: reached.induct)
  case (construct cross_thread same_thread now b seed add_queue_time m)
  then show ?case using initial_sm [of cross_thread same_thread now b seed add_queue_time] by auto
next
  case (call m c r m')
  then show ?case using call_good [OF call.IH call.hyps(2)] by (auto simp: returns_def good_call_def)
qed

lemma run_calls_reached: "reached m \<Longrightarrow> calls_ok cs m \<Longrightarrow> run_calls cs m = Some (rs, D, m') \<Longrightarrow> reached m'"
proof (induction cs arbitrary: m rs D)
  case (Cons c cs)
  then obtain r m1 rs1 D1 where "run_call c m = Some (r, m1)" "run_calls cs m1 = Some (rs1, D1, m')" by (auto split: bind_splits)
  then show ?case using Cons.IH [of m1] Cons.prems reached.call [of m c r m1] by simp
qed simp

lemma program_reached:
  assumes "program_ok b seed cross_thread same_thread add_queue_time now cs"
    "program b seed cross_thread same_thread add_queue_time now cs = Some (rs, D, m)"
  shows "reached m"
  using assms run_calls_reached [OF reached.construct] by (auto simp: program_ok_def program_def split: bind_splits)

section \<open>A program\<close>

text \<open>A queue of highest priority with two immediate tasks and a delayed task; one task is run.\<close>

definition demo_calls :: "call list" where
  "demo_calls =
     [Create_Queue 3 None, Set_Priority 3 kHighestPriority,
      Post_Task 3 \<lparr>pt_callback = Some 10, pt_delay = 0, pt_nestable = True\<rparr> kMainThread,
      Post_Task 3 \<lparr>pt_callback = Some 11, pt_delay = 0, pt_nestable = True\<rparr> kNotMainThread,
      Post_Task 3 \<lparr>pt_callback = Some 12, pt_delay = 500, pt_nestable = True\<rparr> kMainThread,
      Start_Task [3]]"

abbreviation demo_program :: "(outcome list \<times> nat multiset \<times> sequence_manager) option" where
  "demo_program \<equiv> program False 0 (replicate 7 0) (replicate 7 0) False 100 demo_calls"

lemma demo_allowed: "program_ok False 0 (replicate 7 0) (replicate 7 0) False 100 demo_calls"
  by code_simp

lemma demo_outcomes:
  "map_option (\<lambda>(rs, D, m). (rs, D, map (is_cancelled (sched m)) [10, 11, 12])) demo_program
    = Some ([Silent, Silent, Accepted 10, Accepted 11, Accepted 12, Began 10], {#}, [False, False, False])"
  by code_simp

lemma demo_next:
  "map_option (\<lambda>(rs, D, m). (visits [] m, selections_left m, map_option (map_option callback \<circ> fst) (SelectNextTaskImpl [] m))) demo_program
    = Some (True, True, Some (Some (Some (Client 11))))"
  by code_simp

text \<open>A queue with one delayed task.\<close>

definition delayed_calls :: "call list" where
  "delayed_calls =
     [Create_Queue 3 None, Post_Task 3 \<lparr>pt_callback = Some 12, pt_delay = 500, pt_nestable = True\<rparr> kMainThread]"

abbreviation delayed_program :: "(outcome list \<times> nat multiset \<times> sequence_manager) option" where
  "delayed_program \<equiv> program False 0 (replicate 7 0) (replicate 7 0) False 100 delayed_calls"

lemma delayed_allowed: "program_ok False 0 (replicate 7 0) (replicate 7 0) False 100 delayed_calls"
  by code_simp

lemma delayed_delay:
  "map_option (\<lambda>(rs, D, m). (visits [] m, map_option fst (DelayTillNextTask no_delay [] (controller_now m) m))) delayed_program = Some (True, Some 500)"
  by code_simp

section \<open>Properties\<close>

text \<open>
  Claim C1.  A program that makes only allowed calls never runs into a failed check, a null work queue or undefined
  behaviour: every call returns, and the invariant of the sequence manager, its queues, fences, time domains
  and heaps holds afterwards.  Of the allowed posts of delayed tasks each is among the first \<open>2 ^ 31\<close> numbers of the
  manager, so that no difference of sequence numbers overflows.
\<close>

theorem scheduler_calls_return:
  assumes "program_ok b seed cross_thread same_thread add_queue_time now cs"
  shows "\<exists>rs D m. program b seed cross_thread same_thread add_queue_time now cs = Some (rs, D, m) \<and> sm_inv m"
proof -
  from initial_sm [of cross_thread same_thread now b seed add_queue_time] assms obtain m0 where
    m0: "SequenceManagerImpl b seed cross_thread same_thread add_queue_time now = Some m0" "sm_inv m0" by (auto simp: program_ok_def)
  with assms have "calls_ok cs m0" by (simp add: program_ok_def)
  from run_calls_good [OF m0(2) this] show ?thesis using m0(1) by (auto simp: program_def)
qed

theorem scheduler_calls_return_witness:
  "program_ok False 0 (replicate 7 0) (replicate 7 0) False 100 demo_calls \<and> (\<exists>rs D m. demo_program = Some (rs, D, m) \<and> sm_inv m)"
  using scheduler_calls_return [OF demo_allowed] demo_allowed by blast

text \<open>
  Claim C2.  No job is lost or run twice: of the posted jobs that are not cancelled, each is exactly once still pending,
  has begun, or was discarded when its queue was unregistered or pending tasks were deleted.  Jobs are
  followed through delayed queues, work queues, thread hops, deferral in nested loops and shut down.
\<close>

theorem no_job_lost:
  assumes "program_ok b seed cross_thread same_thread add_queue_time now cs"
    "program b seed cross_thread same_thread add_queue_time now cs = Some (rs, D, m)"
  shows "uncancelled m (all_posted rs) = pending m + uncancelled m (all_begun rs + D)"
proof -
  from initial_sm [of cross_thread same_thread now b seed add_queue_time] assms(1) obtain m0 where
    m0: "SequenceManagerImpl b seed cross_thread same_thread add_queue_time now = Some m0" "sm_inv m0" "pending m0 = {#}" by (auto simp: program_ok_def)
  with assms(1) have "calls_ok cs m0" by (simp add: program_ok_def)
  from run_calls_good [OF m0(2) this] show ?thesis using m0 assms(2) by (auto simp: program_def)
qed

theorem no_job_lost_witness:
  "\<exists>m. demo_program = Some ([Silent, Silent, Accepted 10, Accepted 11, Accepted 12, Began 10], {#}, m)
    \<and> pending m = {#11, 12#}"
proof -
  obtain m where m: "demo_program = Some ([Silent, Silent, Accepted 10, Accepted 11, Accepted 12, Began 10], {#}, m)"
    and c: "map (is_cancelled (sched m)) [10, 11, 12] = [False, False, False]" using demo_outcomes by auto
  from no_job_lost [OF demo_allowed this(1)] show ?thesis
    using m c by (intro exI [of _ m] conjI) (simp_all add: all_posted_def all_begun_def)
qed





end
