(* ===== verification/Scheduler_Service.thy ===== *)
theory Scheduler_Service
  imports Scheduler_Runs
begin

text \<open>
  How the priorities share the main thread.  The steps that serve queues are those of the loop in
  SequenceManagerImpl::SelectNextTaskImpl, with posts from any thread between them; a priority that always
  has a task that may run is chosen after a bounded number of selections, however the other priorities
  are loaded.
\<close>

section \<open>The steps\<close>

datatype service_step =
    Serve_Post nat "nat posted_task" current_thread
  | Serve_Reload nat
  | Serve_Wake nat int
  | Serve_Drop wq_ptr
  | Serve_Take wq_ptr
  | Serve_Select

text \<open>A step returns the priority that a selection chose.\<close>

fun serve :: "service_step \<Rightarrow> scheduler \<Rightarrow> (nat option \<times> scheduler) option" where
  "serve (Serve_Post q task thread) s = do { s \<leftarrow> PostTask q task thread s; Some (None, s) }"
| "serve (Serve_Reload q) s = do { s \<leftarrow> run_reload_callback q s; Some (None, s) }"
| "serve (Serve_Wake q lazy_now) s = do { s \<leftarrow> MoveReadyDelayedTasksToWorkQueue q lazy_now s; Some (None, s) }"
| "serve (Serve_Drop w) s = do { (_, s) \<leftarrow> RemoveAllCanceledTasksFromFront w s; Some (None, s) }"
| "serve (Serve_Take w) s = do { (_, s) \<leftarrow> TakeTaskFromWorkQueue w s; Some (None, s) }"
| "serve Serve_Select s =
     do { (w, s') \<leftarrow> SelectWorkQueueToService s; Some (map_option (\<lambda>w. wq_set_index (queues s w)) w, s') }"

fun serve_ok :: "service_step \<Rightarrow> scheduler \<Rightarrow> bool" where
  "serve_ok (Serve_Post q task thread) s \<longleftrightarrow>
     tq_work_queues (task_queues s q) \<and> pt_callback task \<noteq> None \<and> 0 \<le> pt_delay task \<and> pt_delay task \<le> limit_max int64_t
     \<and> number_left q task thread s"
| "serve_ok (Serve_Reload q) s \<longleftrightarrow> tq_reload_flag (task_queues s q)"
| "serve_ok (Serve_Wake q lazy_now) s \<longleftrightarrow> tq_work_queues (task_queues s q)"
| "serve_ok (Serve_Drop w) s \<longleftrightarrow> wq_sets (queues s w) \<noteq> None"
| "serve_ok (Serve_Take w) s \<longleftrightarrow> ready (queues s w) \<noteq> None"
| "serve_ok Serve_Select s \<longleftrightarrow> room s"

primrec serve_all :: "service_step list \<Rightarrow> scheduler \<Rightarrow> (nat list \<times> scheduler) option" where
  "serve_all [] s = Some ([], s)"
| "serve_all (x # xs) s =
     do { (c, s) \<leftarrow> serve x s; (cs, s) \<leftarrow> serve_all xs s;
          Some ((case c of None \<Rightarrow> cs | Some p \<Rightarrow> p # cs), s) }"

text \<open>Priority \<open>p\<close> has a task that may run, and no control task is waiting, all the time.\<close>

definition hungry :: "nat \<Rightarrow> scheduler \<Rightarrow> bool" where
  "hungry p s \<longleftrightarrow> (\<exists>sid. waiting s sid p) \<and> (\<forall>sid. \<not> waiting s sid kControlPriority)"

primrec kept_hungry :: "nat \<Rightarrow> service_step list \<Rightarrow> scheduler \<Rightarrow> bool" where
  "kept_hungry p [] s \<longleftrightarrow> hungry p s"
| "kept_hungry p (x # xs) s \<longleftrightarrow>
     hungry p s \<and> serve_ok x s \<and> (case serve x s of None \<Rightarrow> True | Some (_, s') \<Rightarrow> kept_hungry p xs s')"

definition selections :: "service_step list \<Rightarrow> nat" where
  "selections xs = length (filter (\<lambda>x. x = Serve_Select) xs)"

section \<open>What a queue promises\<close>

text \<open>
  The view of a client: the immediate tasks in posting order, the delayed tasks that became ready in the order in
  which they did, and the delayed tasks that did not, the earliest first.  \<open>queue_step\<close> says how a step changes the view
  of the queue that it is about; it does not mention the two halves of the immediate queue, reloading,
  heaps or fences.  A task that is delayed comes after those that are due before it and after those that are due at the same
  time and were posted before.
\<close>

definition by_run_time :: "closure task \<Rightarrow> closure task list \<Rightarrow> closure task list" where
  "by_run_time t ts = takeWhile (\<lambda>u. run_key u \<le> run_key t) ts @ t # dropWhile (\<lambda>u. run_key u \<le> run_key t) ts"

type_synonym queue_view = "closure task list \<times> closure task list \<times> closure task list"

inductive queue_step :: "scheduler \<Rightarrow> service_step \<Rightarrow> queue_view \<Rightarrow> queue_view \<Rightarrow> bool" for s where
  post_now: "adjusted_delay q (pt_delay task) thread s = 0 \<Longrightarrow>
    queue_step s (Serve_Post q task thread) (i, r, d) (i @ [enqueued q (of_client task) (order_counter s) s], r, d)"
| post_later: "adjusted_delay q (pt_delay task) kMainThread s = delay \<Longrightarrow> delay \<noteq> 0 \<Longrightarrow>
    queue_step s (Serve_Post q task kMainThread) (i, r, d) (i, r, by_run_time (client_task (deferred q task delay s)) d)"
| post_across: "adjusted_delay q (pt_delay task) kNotMainThread s = delay \<Longrightarrow> delay \<noteq> 0 \<Longrightarrow>
    queue_step s (Serve_Post q task kNotMainThread) (i, r, d)
      (i @ [enqueued q \<lparr>pt_callback = Some (ScheduleDelayedWorkTask (deferred q task delay s)), pt_delay = 0, pt_nestable = False\<rparr>
         (order_counter s + 1) s], r, d)"
| reload: "queue_step s (Serve_Reload q) v v"
| wake: "queue_step s (Serve_Wake q now) (i, r, d)
    (i, r @ stamped (order_counter s) (filter (\<lambda>t. \<not> dropped (is_cancelled s) t \<and> delayed_run_time t \<le> now) d),
     dropWhile (\<lambda>t. dropped (is_cancelled s) t \<or> delayed_run_time t \<le> now) d)"
| drop_immediate: "\<forall>t \<in> set c. dropped (is_cancelled s) t \<Longrightarrow> queue_step s (Serve_Drop (q, kImmediate)) (c @ i, r, d) (i, r, d)"
| drop_delayed: "\<forall>t \<in> set c. dropped (is_cancelled s) t \<Longrightarrow> queue_step s (Serve_Drop (q, kDelayed)) (i, c @ r, d) (i, r, d)"
| take_immediate: "queue_step s (Serve_Take (q, kImmediate)) (t # i, r, d) (i, r, d)"
| take_delayed: "queue_step s (Serve_Take (q, kDelayed)) (i, t # r, d) (i, r, d)"

fun concerns :: "service_step \<Rightarrow> nat option" where
  "concerns (Serve_Post q task thread) = Some q"
| "concerns (Serve_Reload q) = Some q"
| "concerns (Serve_Wake q now) = Some q"
| "concerns (Serve_Drop w) = Some (fst w)"
| "concerns (Serve_Take w) = Some (fst w)"
| "concerns Serve_Select = None"

text \<open>Every step returns; \<open>implements\<close> says that it does to each queue what the view says.\<close>

definition implements :: "service_step \<Rightarrow> scheduler \<Rightarrow> scheduler \<Rightarrow> bool" where
  "implements x s s' \<longleftrightarrow>
     (\<forall>q. if concerns x = Some q then queue_step s x (tasks_of s q) (tasks_of s' q) else tasks_of s' q = tasks_of s q)"

lemma implementsI:
  assumes "others q s s'" "concerns x = Some q" "queue_step s x (tasks_of s q) (tasks_of s' q)"
  shows "implements x s s'"
proof -
  have "tasks_of s' p = tasks_of s p" if "p \<noteq> q" for p
    using assms(1) that unfolding others_def tasks_of_def pending_immediate_def same_impl_def same_queue_def by force
  then show ?thesis using assms(2,3) by (auto simp: implements_def)
qed

lemma priority_push_by_run_time:
  assumes "\<forall>u \<in> insert t (set ts). seq_num_ok (sequence_num u)"
  shows "priority_push t ts = by_run_time t ts"
  using assms by (induction ts) (auto simp: by_run_time_def task_less_iff not_less)

lemma post_implements:
  assumes "tasks_of s' q = tasks_posted q task thread (adjusted_delay q (pt_delay task) thread s) s"
    "number_left q task thread s" "\<forall>u \<in> set (delayed_tasks s q). seq_num_ok (sequence_num u)"
  shows "queue_step s (Serve_Post q task thread) (tasks_of s q) (tasks_of s' q)"
proof (cases "adjusted_delay q (pt_delay task) thread s = 0")
  case True
  then show ?thesis using assms post_now [OF True] by (simp add: tasks_posted_def tasks_of_def Let_def)
next
  case False
  let ?t = "client_task (deferred q task (adjusted_delay q (pt_delay task) thread s) s)"
  have "seq_num_ok (sequence_num ?t)"
    using False assms(2) seq_num_of_order by (simp add: number_left_def client_task_def deferred_def Task_def)
  then have "priority_push ?t (delayed_tasks s q) = by_run_time ?t (delayed_tasks s q)"
    using assms(3) by (intro priority_push_by_run_time) simp
  then show ?thesis
    using False assms(1) post_later [OF refl, of q task s] post_across [OF refl, of q task s]
    by (cases thread) (auto simp: tasks_posted_def tasks_of_def delayed_tasks_def Let_def)
qed

lemma move_ready_due:
  assumes "sorted (map run_key ts)"
  shows "move_ready canc now ts =
    (filter (\<lambda>t. \<not> dropped canc t \<and> delayed_run_time t \<le> now) ts, dropWhile (\<lambda>t. dropped canc t \<or> delayed_run_time t \<le> now) ts)"
  using assms
proof (induction ts)
  case (Cons t ts)
  have "filter (\<lambda>t. \<not> dropped canc t \<and> delayed_run_time t \<le> now) ts = []" if "now < delayed_run_time t"
    using Cons.prems that by (auto simp: filter_empty_conv run_key_def less_eq_prod_def)
  then show ?case using Cons by auto
qed simp

lemma taken_implements:
  assumes "wq_tasks (queues s (q, ty)) = c @ ts" "tasks_of s' q = tasks_left s q ty ts"
  shows "(\<forall>t \<in> set c. dropped (is_cancelled s) t) \<Longrightarrow> queue_step s (Serve_Drop (q, ty)) (tasks_of s q) (tasks_of s' q)"
    "c = [t] \<Longrightarrow> queue_step s (Serve_Take (q, ty)) (tasks_of s q) (tasks_of s' q)"
  using assms
  by (cases ty; auto simp: tasks_of_def tasks_left_def pending_immediate_def
      intro: drop_immediate drop_delayed take_immediate take_delayed)+

lemma serve_implements:
  assumes inv: "sched_inv s reg" and "tasks_ok s" "serve_ok x s"
  shows "\<exists>c s'. serve x s = Some (c, s') \<and> implements x s s'"
proof (cases x)
  case (Serve_Post q task thread)
  with assms(3) have ok: "tq_work_queues (task_queues s q)" "pt_callback task \<noteq> None" "0 \<le> pt_delay task" "pt_delay task \<le> limit_max int64_t"
    "number_left q task thread s" by auto
  have num: "\<forall>u \<in> set (delayed_tasks s q). seq_num_ok (sequence_num u)"
    using liveD(6) [OF sched_invD(5) [OF inv ok(1)]] by (simp add: delayed_ok_def delayed_tasks_def)
  from PostTask_ok [OF inv ok] obtain s' where s': "PostTask q task thread s = Some s'" "step_on q s s'"
    "tasks_of s' q = tasks_posted q task thread (adjusted_delay q (pt_delay task) thread s) s" by metis
  then show ?thesis using Serve_Post implementsI [OF step_onD [OF s'(2)], of x] post_implements [OF s'(3) ok(5) num] by simp
next
  case (Serve_Reload q)
  with run_reload_callback_ok [OF inv, of q] assms(3) obtain s' where
    s': "run_reload_callback q s = Some s'" "step_on q s s'" "tasks_of s' q = tasks_of s q" by auto
  then show ?thesis using Serve_Reload implementsI [OF step_onD [OF s'(2)], of x] reload by simp
next
  case (Serve_Wake q now)
  with MoveReady_calm [OF inv assms(2), of q now] assms(3) obtain s' where
    s': "MoveReadyDelayedTasksToWorkQueue q now s = Some s'" "others q s s'"
      "tasks_of s' q = (pending_immediate s q, wq_tasks (del s q) @ stamped (order_counter s) (fst (move_ready (is_cancelled s) now (delayed_tasks s q))),
         snd (move_ready (is_cancelled s) now (delayed_tasks s q)))" by auto
  have "tq_work_queues (task_queues s q)" using Serve_Wake assms(3) by simp
  from liveD(6) [OF sched_invD(5) [OF inv this]] have "sorted (map run_key (delayed_tasks s q))" by (simp add: delayed_ok_def delayed_tasks_def)
  then show ?thesis
    using Serve_Wake s'(1,3) implementsI [OF s'(2), of x] wake by (simp add: move_ready_due tasks_of_def delayed_tasks_def)
next
  case (Serve_Drop w)
  obtain q ty where w: "w = (q, ty)" by (cases w)
  let ?ts = "wq_tasks (queues s (q, ty))" and ?d = "dropped (is_cancelled s)"
  from RemoveAllCanceledTasksFromFront_ok [OF inv, of q ty] Serve_Drop w assms(3) obtain b s' where
    s': "RemoveAllCanceledTasksFromFront w s = Some (b, s')" "calm_on q s s'" "tasks_of s' q = tasks_left s q ty (dropWhile ?d ?ts)" by auto
  have "?ts = takeWhile ?d ?ts @ dropWhile ?d ?ts" "\<forall>t \<in> set (takeWhile ?d ?ts). ?d t" by (auto dest: set_takeWhileD)
  from taken_implements(1) [OF this(1) s'(3) this(2)] s'(1,2) show ?thesis
    using Serve_Drop w implementsI [of q s s' x] by (simp add: calm_on_def step_on_def)
next
  case (Serve_Take w)
  obtain q ty where w: "w = (q, ty)" by (cases w)
  obtain sid i k where r: "ready (queues s (q, ty)) = Some (sid, i, k)" using assms(3) Serve_Take w by (cases "ready (queues s w)") auto
  let ?ts = "wq_tasks (queues s (q, ty))"
  from TakeTaskFromWorkQueue_ok [OF inv r] w obtain s' where
    s': "TakeTaskFromWorkQueue w s = Some (hd ?ts, s')" "calm_on q s s'" "tasks_of s' q = tasks_left s q ty (tl ?ts)" by auto
  have "?ts = [hd ?ts] @ tl ?ts" using readyD(4) [OF r] by simp
  from taken_implements(2) [OF this s'(3) refl] s'(1,2) show ?thesis
    using Serve_Take w implementsI [of q s s' x] by (simp add: calm_on_def step_on_def)
next
  case Serve_Select
  then have room: "room s" using assms(3) by simp
  from Select_total [OF inv this] obtain r s' where s': "SelectWorkQueueToService s = Some (r, s')" by blast
  from Select_same(2,3) [OF inv assms(2) room this] have "tasks_of s' = tasks_of s" by (simp add: fun_eq_iff tasks_of_def pending_immediate_def)
  then show ?thesis using Serve_Select s' by (simp add: implements_def)
qed

section \<open>Every step returns\<close>

lemma serve_total:
  assumes "sched_ok s" "tasks_ok s" "hungry p s" "serve_ok x s"
  shows "\<exists>c s'. serve x s = Some (c, s') \<and> sched_ok s' \<and> tasks_ok s' \<and> (c = None \<longleftrightarrow> x \<noteq> Serve_Select)
    \<and> (x \<noteq> Serve_Select \<longrightarrow> told (sel s) (sel s'))"
proof -
  obtain reg where inv: "sched_inv s reg" by (rule sched_okE [OF assms(1)])
  have sk: "sched_ok s'" if "sched_inv s' r" for s' r using that by (auto simp: sched_ok_def)
  show ?thesis
  proof (cases x)
    case (Serve_Post q task thread)
    with assms(4) have "tq_work_queues (task_queues s q)" "pt_callback task \<noteq> None" "0 \<le> pt_delay task" "pt_delay task \<le> limit_max int64_t"
      "number_left q task thread s" by auto
    with PostTask_runs [OF assms(1,2) this] PostTask_ok [OF inv this] obtain s' where
      "PostTask q task thread s = Some s'" "runs s s'" "sel s' = sel s" by force
    then show ?thesis using Serve_Post runsD(1,2) [of s s'] by simp
  next
    case (Serve_Reload q)
    with reload_keeps [OF inv assms(2), of q] assms(4) obtain s' where
      "run_reload_callback q s = Some s'" "keeps s s'" "told (sel s) (sel s')" "sched_inv s' reg" by auto
    then show ?thesis using Serve_Reload keepsD(1) [of s s'] by (auto simp: runs_def evolves_def)
  next
    case (Serve_Wake q lazy_now)
    with MoveReady_calm [OF inv assms(2), of q lazy_now] assms(4) obtain s' where
      "MoveReadyDelayedTasksToWorkQueue q lazy_now s = Some s'" "calm s s'" "told (sel s) (sel s')" by auto
    then show ?thesis using Serve_Wake calmD(1) [of s s'] by (auto simp: runs_def evolves_def)
  next
    case (Serve_Drop w)
    obtain q ty where w: "w = (q, ty)" by (cases w)
    with Serve_Drop drop_tasks [OF inv assms(2), of q ty "{q}"] assms(4) obtain b s' where
      "RemoveAllCanceledTasksFromFront w s = Some (b, s')" "calm s s'" "told (sel s) (sel s')" by auto
    then show ?thesis using Serve_Drop calmD(1) [of s s'] by (auto simp: runs_def evolves_def)
  next
    case (Serve_Take w)
    obtain q ty where w: "w = (q, ty)" by (cases w)
    obtain sid i k where "ready (queues s (q, ty)) = Some (sid, i, k)" using assms(4) Serve_Take w by (cases "ready (queues s w)") auto
    from take_task [OF inv assms(2) this, of "{q}"] w obtain t s' where
      "TakeTaskFromWorkQueue w s = Some (t, s')" "runs s s'" "told (sel s) (sel s')" by auto
    then show ?thesis using Serve_Take by (auto simp: runs_def evolves_def)
  next
    case Serve_Select
    then have room: "room s" using assms(4) by simp
    from Select_total [OF inv this] obtain r s' where
      s': "SelectWorkQueueToService s = Some (r, s')" "r = None \<longrightarrow> (\<forall>w. ready (queues s w) = None)" by blast
    have "r \<noteq> None" using s'(2) assms(3) by (auto simp: hungry_def waiting_def)
    then show ?thesis
      using Serve_Select s'(1) Select_same(4) [OF inv assms(2) room s'(1)] calmD(1) [of s s'] by (auto simp: runs_def evolves_def)
  qed
qed

lemma serve_all_total:
  assumes "sched_ok s" "tasks_ok s" "kept_hungry p xs s"
  shows "\<exists>cs s'. serve_all xs s = Some (cs, s') \<and> length cs = selections xs"
  using assms
proof (induction xs arbitrary: s)
  case Nil
  then show ?case by (simp add: selections_def)
next
  case (Cons x xs)
  from Cons.prems(3) have h: "hungry p s" "serve_ok x s" by auto
  from serve_total [OF Cons.prems(1,2) this] obtain c s1 where
    s1: "serve x s = Some (c, s1)" "sched_ok s1" "tasks_ok s1" "c = None \<longleftrightarrow> x \<noteq> Serve_Select" by blast
  with Cons.prems(3) have "kept_hungry p xs s1" by simp
  from Cons.IH [OF s1(2,3) this] s1(1,4) show ?case by (cases c) (auto simp: selections_def)
qed

section \<open>A priority that is passed over gets hungrier\<close>

lemma served_otherwise:
  assumes "sched_ok s" "tasks_ok s" "kept_hungry p xs s" "serve_all xs s = Some (cs, s')" "p \<notin> set cs" "starving s ps p K"
  shows "selections xs \<le> hunger (sel s) ps p K"
  using assms
proof (induction xs arbitrary: s ps cs)
  case Nil
  then show ?case by (simp add: selections_def)
next
  case (Cons x xs)
  from Cons.prems(3) have h: "hungry p s" "serve_ok x s" by auto
  from serve_total [OF Cons.prems(1,2) this] obtain c s1 where
    s1: "serve x s = Some (c, s1)" "sched_ok s1" "tasks_ok s1" "c = None \<longleftrightarrow> x \<noteq> Serve_Select" "x \<noteq> Serve_Select \<longrightarrow> told (sel s) (sel s1)" by blast
  with Cons.prems(3) have k: "kept_hungry p xs s1" by simp
  obtain cs1 where cs1: "serve_all xs s1 = Some (cs1, s')" "cs = (case c of None \<Rightarrow> cs1 | Some p \<Rightarrow> p # cs1)"
    using Cons.prems(4) s1(1) by (auto split: bind_splits)
  then have np: "p \<notin> set cs1" using Cons.prems(5) by (cases c) auto
  have h1: "hungry p s1" using k by (cases xs) auto
  obtain reg where "sched_inv s1 reg" by (rule sched_okE [OF s1(2)])
  then have ok: "work_ok s1" by (rule sched_invD(1))
  show ?case
  proof (cases "x = Serve_Select")
    case False
    then obtain ps1 where "starving s1 ps1 p K" "hunger (sel s1) ps1 p K \<le> hunger (sel s) ps p K"
      using starving_told [OF Cons.prems(6) _ ok] s1(5) h1 by (auto simp: hungry_def)
    then show ?thesis using Cons.IH [OF s1(2,3) k cs1(1) np, of ps1] False by (simp add: selections_def)
  next
    case True
    then obtain w where w: "SelectWorkQueueToService s = Some (Some w, s1)" "c = Some (wq_set_index (queues s w))"
      using s1(1,4) by (auto split: bind_splits)
    then have "wq_set_index (queues s w) \<noteq> p" using Cons.prems(5) cs1(2) by auto
    with starving_selected [OF Cons.prems(6) _ w(1)] h(2) True obtain ps1 where
      "starving s1 ps1 p K" "hunger (sel s1) ps1 p K < hunger (sel s) ps p K" by auto
    then show ?thesis using Cons.IH [OF s1(2,3) k cs1(1) np, of ps1] True by (simp add: selections_def)
  qed
qed

lemma starving_start:
  assumes "work_ok s" "hungry p s" "room s" "p \<in> {kHighestPriority..kLowPriority}" "\<not> anti_starvation_disabled (sel s)"
  shows "\<exists>ps K. starving s ps p K \<and> hunger (sel s) ps p K \<le> nat (per_priority_starvation_tolerance ! p) + 5"
proof -
  have "sel_rep (non_empty s) (sel s)" using assms(1) by (simp add: work_ok_def)
  then obtain ps where ps: "spq_rep (active_priorities (sel s)) ps" by (auto simp: sel_rep_def active_rep_def)
  note act = work_ok_active [OF assms(1) ps]
  have p: "p \<in> {1..5}" "p < kQueuePriorityCount" using assms(4) by auto
  then have "p \<in> snd ` set ps" using act(2) assms(2) by (auto simp: hungry_def)
  then obtain K where K: "(K, p) \<in> set ps" by auto
  have c: "p \<in> {1, 2, 3, 4, 5}" using p(1) by auto
  have "key_ok (sel s) (K, p)" using act(1) K by blast
  then have key: "K \<le> selection_count (sel s) + per_priority_starvation_tolerance ! p" using p(1) assms(5) by (auto simp: key_ok_def)
  moreover have tol: "0 \<le> per_priority_starvation_tolerance ! p" "per_priority_starvation_tolerance ! p < 16"
    using c by (auto simp: per_priority_starvation_tolerance_def)
  ultimately have max: "K < limit_max int64_t" using assms(3) by simp
  have "0 \<notin> snd ` set ps" using act(2) assms(2) by (auto simp: hungry_def)
  then have sub: "snd ` set ps \<subseteq> {1..<kQueuePriorityCount}" using act(2) by (metis (no_types, lifting) atLeastLessThan_iff less_one linorder_not_less mem_Collect_eq subsetI)
  have "card (in_front ps p K) \<le> 4" using in_front_card(2) [OF in_front_middle [OF act(1) sub max] p(1)] .
  then have "hunger (sel s) ps p K \<le> nat (per_priority_starvation_tolerance ! p) + 5" using key tol(1) by (auto simp: hunger_def)
  then show ?thesis using assms(1,5) ps K max p(1) sub by (auto simp: starving_def)
qed

section \<open>Selections only\<close>

lemma hungry_heaps:
  assumes "work_ok s" "p < kQueuePriorityCount"
  shows "hungry p s \<longleftrightarrow> (heaps s immediate_sets ! p \<noteq> [] \<or> heaps s delayed_sets ! p \<noteq> [])
    \<and> heaps s immediate_sets ! kControlPriority = [] \<and> heaps s delayed_sets ! kControlPriority = []"
proof -
  have ex: "(\<exists>sid. P sid) \<longleftrightarrow> P immediate_sets \<or> P delayed_sets" and al: "(\<forall>sid. P sid) \<longleftrightarrow> P immediate_sets \<and> P delayed_sets" for P
    using set_id.exhaust by metis+
  show ?thesis using waiting_iff [OF assms] waiting_iff [OF assms(1), of kControlPriority] unfolding hungry_def ex al by simp
qed

lemma selections_hungry:
  assumes "sched_ok s" "tasks_ok s" "hungry p s" "selection_count (sel s) + int n + 16 \<le> limit_max int64_t"
  shows "kept_hungry p (replicate n Serve_Select) s"
  using assms
proof (induction n arbitrary: s)
  case (Suc n)
  obtain reg where inv: "sched_inv s reg" by (rule sched_okE [OF Suc.prems(1)])
  have room: "room s" using Suc.prems(4) by simp
  from Select_total [OF inv room] obtain r s' where s': "SelectWorkQueueToService s = Some (r, s')"
    "selection_count (sel s') \<le> selection_count (sel s) + 1" by blast
  note same = Select_same [OF inv Suc.prems(2) room s'(1)]
  have "hungry p s'" using Suc.prems(3) same(2) by (simp add: hungry_def waiting_def)
  moreover have "sched_ok s'" "tasks_ok s'" using runsD(1,2) [OF calmD(1) [OF same(4)]] .
  ultimately have "kept_hungry p (replicate n Serve_Select) s'" using Suc.IH [of s'] Suc.prems(4) s'(2) by simp
  then show ?case using Suc.prems(3) room s'(1) by simp
qed simp

lemma demo_hungry:
  "map_option (\<lambda>(rs, D, m). (heaps (sched m) immediate_sets ! kHighestPriority \<noteq> [], heaps (sched m) immediate_sets ! kControlPriority,
      heaps (sched m) delayed_sets ! kControlPriority, anti_starvation_disabled (sel (sched m)), selection_count (sel (sched m)),
      map_option fst (ready (queues (sched m) (3, kImmediate))))) demo_program
    = Some (True, [], [], False, 1, Some immediate_sets)"
  by code_simp

section \<open>Properties\<close>

text \<open>
  Claim C7.  The task queue implements the view of its client: in every state that programs reach, posting, reloading, moving
  delayed tasks that are due, dropping cancelled tasks, taking a task and selecting a queue return and change the view as
  \<open>queue_step\<close> says.  So immediate tasks of a queue are taken in the order in which they were posted, on whatever thread,
  and delayed tasks in the order of their run times.  The other queues' views stay the same.
\<close>

theorem task_queue_refines_view:
  assumes "reached m" "serve_ok x (sched m)"
  shows "\<exists>c s'. serve x (sched m) = Some (c, s')
    \<and> (\<forall>q. if concerns x = Some q then queue_step (sched m) x (tasks_of (sched m) q) (tasks_of s' q)
           else tasks_of s' q = tasks_of (sched m) q)"
proof -
  have ok: "sched_ok (sched m)" "tasks_ok (sched m)" using sm_invD(1,2) [OF reached_inv [OF assms(1)]] .
  obtain reg where "sched_inv (sched m) reg" by (rule sched_okE [OF ok(1)])
  from serve_implements [OF this ok(2) assms(2)] show ?thesis by (simp add: implements_def)
qed

theorem task_queue_refines_view_witness:
  "\<exists>rs D m s'. demo_program = Some (rs, D, m) \<and> serve_ok (Serve_Take (3, kImmediate)) (sched m)
    \<and> serve (Serve_Take (3, kImmediate)) (sched m) = Some (None, s')
    \<and> fst (tasks_of s' 3) = tl (fst (tasks_of (sched m) 3)) \<and> tasks_of s' 4 = tasks_of (sched m) 4"
proof -
  obtain rs D m where m: "demo_program = Some (rs, D, m)" "map_option fst (ready (queues (sched m) (3, kImmediate))) = Some immediate_sets"
    using demo_hungry by auto
  have r: "reached m" using program_reached [OF demo_allowed m(1)] .
  have ok: "serve_ok (Serve_Take (3, kImmediate)) (sched m)" using m(2) by auto
  from task_queue_refines_view [OF r ok] obtain c s' where c: "serve (Serve_Take (3, kImmediate)) (sched m) = Some (c, s')"
    and v: "\<forall>q. if concerns (Serve_Take (3, kImmediate)) = Some q
      then queue_step (sched m) (Serve_Take (3, kImmediate)) (tasks_of (sched m) q) (tasks_of s' q)
      else tasks_of s' q = tasks_of (sched m) q" by blast
  have s': "serve (Serve_Take (3, kImmediate)) (sched m) = Some (c, s')"
    "queue_step (sched m) (Serve_Take (3, kImmediate)) (tasks_of (sched m) 3) (tasks_of s' 3)" "tasks_of s' 4 = tasks_of (sched m) 4"
    using c v [rule_format, of 3] v [rule_format, of 4] by simp_all
  then have "fst (tasks_of s' 3) = tl (fst (tasks_of (sched m) 3))" by (auto elim: queue_step.cases)
  moreover have "c = None" using s'(1) by (auto split: bind_splits)
  ultimately show ?thesis using m(1) ok s'(1,3) by blast
qed



end
