(* ===== verification/Scheduler_Errors.thy ===== *)
theory Scheduler_Errors
  imports Scheduler_Service
begin

text \<open>
  Runs of the scheduler that fail: why the conditions of \<open>call_ok\<close> exclude some calls, and why the
  invariant of theory \<open>Task_Queue_Invariant\<close> is about queues without delayed fences.
\<close>

definition settings_program :: "call list \<Rightarrow> (outcome list \<times> nat multiset \<times> sequence_manager) option" where
  "settings_program cs = program False 0 (replicate 7 0) (replicate 7 0) False 0 cs"

text \<open>A task is deferred in a nested loop and its queue is unregistered before the loop ends.\<close>

definition nested_calls :: "call list" where
  "nested_calls =
     [Create_Queue 3 None, Post_Task 3 \<lparr>pt_callback = Some 10, pt_delay = 0, pt_nestable = False\<rparr> kMainThread,
      Begin_Nested, Start_Task [3], Unregister_Queue 3]"

text \<open>
  Queue 3 has a delayed fence at time 100, an immediate task in its work queue and a delayed task that is due at time
  90.  At time 100 another immediate task is posted, the delayed task becomes ready, and the first task is
  taken, which reloads the work queue and activates the fence silently.
\<close>

definition fence_race :: "scheduler option" where
  "fence_race =
     do { m \<leftarrow> SequenceManagerImpl False 0 (replicate 7 0) (replicate 7 0) False 0;
          m \<leftarrow> CreateTaskQueueImpl 3 None True m;
          s \<leftarrow> InsertFenceAt 3 100 (sched m);
          s \<leftarrow> PostTask 3 \<lparr>pt_callback = Some 10, pt_delay = 0, pt_nestable = True\<rparr> kMainThread s;
          s \<leftarrow> run_reload_callback 3 s;
          s \<leftarrow> PostTask 3 \<lparr>pt_callback = Some 11, pt_delay = 90, pt_nestable = True\<rparr> kMainThread s;
          let s = s\<lparr>time_domains := (time_domains s)(0 := (time_domains s 0)\<lparr>td_now := 100\<rparr>)\<rparr>;
          s \<leftarrow> PostTask 3 \<lparr>pt_callback = Some 12, pt_delay = 0, pt_nestable = True\<rparr> kMainThread s;
          s \<leftarrow> MoveReadyDelayedTasksToWorkQueue 3 100 s;
          (_, s) \<leftarrow> TakeTaskFromWorkQueue (3, kImmediate) s;
          Some s }"

text \<open>Another queue has an immediate task.\<close>

definition other_queue :: "scheduler \<Rightarrow> scheduler option" where
  "other_queue s =
     do { s \<leftarrow> TaskQueueImpl 5 0 False s;
          s \<leftarrow> selector_AddQueue True 5 s;
          s \<leftarrow> PostTask 5 \<lparr>pt_callback = Some 13, pt_delay = 0, pt_nestable = True\<rparr> kMainThread s;
          run_reload_callback 5 s }"

section \<open>Evaluation\<close>

lemma nested_run: "settings_program nested_calls \<noteq> None"
  by code_simp

lemma nested_exit: "settings_program (nested_calls @ [Exit_Nested]) = None"
  by code_simp

lemma deletion_run:
  "settings_program [Create_Queue 3 None, Unregister_Queue 3] \<noteq> None"
  "settings_program [Create_Queue 3 None, Unregister_Queue 3, Delete_Pending] = None"
  by code_simp+

lemma native_run:
  "settings_program [Native_Begin kBestEffortPriority, Native_End kBestEffortPriority] = None"
  "map_option (\<lambda>(rs, D, m). pending_native_work m)
    (settings_program [Native_Begin kHighPriority, Native_Begin kHighPriority, Native_End kHighPriority]) = Some [kBestEffortPriority]"
  by code_simp+

lemma race_run:
  "map_option (\<lambda>s. (heaps s delayed_sets ! kNormalPriority, wq_BlockedByFence (del s 3), map_option fst (SelectWorkQueueToService s))) fence_race
    = Some ([(5, (3, kDelayed))], Some True, Some (Some (3, kDelayed)))"
  by code_simp

lemma race_check: "map_option (\<lambda>s. SelectWorkQueueToService s = None) (Option.bind fence_race other_queue) = Some True"
  by code_simp

section \<open>Properties\<close>



end
