(* ===== verification/Work_Deduplicator.thy ===== *)
theory Work_Deduplicator
  imports Prelude "HOL-Library.Word"
begin

text \<open>
  WorkDeduplicator (base/task/sequence_manager/work_deduplicator.h and .cc): the atomic word through which threads that post
  tasks and the thread that runs them agree on who asks the message pump for a call.  An atomic operation is one step.
\<close>

unbundle bit_operations_syntax

section \<open>The word and its operations\<close>

datatype should_schedule_work = kScheduleImmediate | kNotNeeded

datatype next_task = kIsImmediate | kIsDelayed

definition kInDoWorkFlag :: "32 word" where "kInDoWorkFlag = push_bit 0 1"

definition kPendingDoWorkFlag :: "32 word" where "kPendingDoWorkFlag = push_bit 1 1"

definition kBoundFlag :: "32 word" where "kBoundFlag = push_bit 2 1"

definition kUnbound :: "32 word" where "kUnbound = 0"

definition kIdle :: "32 word" where "kIdle = kBoundFlag"

definition kDoWorkPending :: "32 word" where "kDoWorkPending = kPendingDoWorkFlag OR kBoundFlag"

definition kInDoWork :: "32 word" where "kInDoWork = kInDoWorkFlag OR kBoundFlag"

record work_deduplicator =
  wd_state :: "32 word"
  last_work_check_result :: should_schedule_work

definition WorkDeduplicator :: work_deduplicator where
  "WorkDeduplicator = \<lparr>wd_state = kUnbound, last_work_check_result = kNotNeeded\<rparr>"

definition wd_BindToCurrentThread :: "work_deduplicator \<Rightarrow> (should_schedule_work \<times> work_deduplicator) option" where
  "wd_BindToCurrentThread d =
     do { let previous_flags = wd_state d;
          let d = d\<lparr>wd_state := wd_state d OR kBoundFlag\<rparr>;
          DCHECK (previous_flags AND kBoundFlag = 0);
          Some (if previous_flags AND kPendingDoWorkFlag \<noteq> 0 then kScheduleImmediate else kNotNeeded, d) }"

definition OnWorkRequested :: "work_deduplicator \<Rightarrow> should_schedule_work \<times> work_deduplicator" where
  "OnWorkRequested d =
     (if wd_state d = kIdle then kScheduleImmediate else kNotNeeded, d\<lparr>wd_state := wd_state d OR kPendingDoWorkFlag\<rparr>)"

definition OnDelayedWorkRequested :: "work_deduplicator \<Rightarrow> should_schedule_work" where
  "OnDelayedWorkRequested d = (if wd_state d = kIdle then kScheduleImmediate else kNotNeeded)"

definition OnWorkStarted :: "work_deduplicator \<Rightarrow> work_deduplicator option" where
  "OnWorkStarted d = do { DCHECK (wd_state d AND kBoundFlag = kBoundFlag); Some (d\<lparr>wd_state := kInDoWork\<rparr>) }"

definition WillCheckForMoreWork :: "work_deduplicator \<Rightarrow> work_deduplicator option" where
  "WillCheckForMoreWork d = do { DCHECK (wd_state d AND kBoundFlag = kBoundFlag); Some (d\<lparr>wd_state := kInDoWork\<rparr>) }"

definition DidCheckForMoreWork :: "next_task \<Rightarrow> work_deduplicator \<Rightarrow> (should_schedule_work \<times> work_deduplicator) option" where
  "DidCheckForMoreWork next d =
     do { DCHECK (wd_state d AND kBoundFlag = kBoundFlag);
          let d = (if next = kIsImmediate then d\<lparr>wd_state := kDoWorkPending, last_work_check_result := kScheduleImmediate\<rparr>
                   else d\<lparr>wd_state := wd_state d AND NOT kInDoWorkFlag,
                          last_work_check_result := (if wd_state d AND kPendingDoWorkFlag = 0 then kNotNeeded else kScheduleImmediate)\<rparr>);
          Some (last_work_check_result d, d) }"

definition OnDelayedWorkStarted :: "work_deduplicator \<Rightarrow> work_deduplicator option" where
  "OnDelayedWorkStarted d = OnWorkStarted d"

definition OnDelayedWorkEnded :: "next_task \<Rightarrow> work_deduplicator \<Rightarrow> (should_schedule_work \<times> work_deduplicator) option" where
  "OnDelayedWorkEnded next d =
     do { let prev_last_work_check_result = last_work_check_result d;
          (should_schedule_work, d) \<leftarrow> DidCheckForMoreWork next d;
          Some (if prev_last_work_check_result = kScheduleImmediate then kNotNeeded else should_schedule_work, d) }"

section \<open>The states of a bound deduplicator\<close>

text \<open>
  A bound word is idle, has a request pending, is in a work call, or is in a work call with a request pending.
\<close>

definition idle_word :: "work_deduplicator \<Rightarrow> bool" where
  "idle_word d \<longleftrightarrow> wd_state d = kIdle \<or> wd_state d = kDoWorkPending"

definition working_word :: "work_deduplicator \<Rightarrow> bool" where
  "working_word d \<longleftrightarrow> wd_state d = kInDoWork \<or> wd_state d = kInDoWork OR kPendingDoWorkFlag"

definition requested :: "work_deduplicator \<Rightarrow> bool" where
  "requested d \<longleftrightarrow> wd_state d AND kPendingDoWorkFlag \<noteq> 0"

lemmas flag_values =
  kInDoWorkFlag_def kPendingDoWorkFlag_def kBoundFlag_def kUnbound_def kIdle_def kDoWorkPending_def kInDoWork_def

lemmas word_states = flag_values idle_word_def working_word_def requested_def

lemma request_idle:
  assumes "idle_word d"
  shows "fst (OnWorkRequested d) = (if requested d then kNotNeeded else kScheduleImmediate)"
    "idle_word (snd (OnWorkRequested d))" "requested (snd (OnWorkRequested d))"
  using assms by (auto simp: OnWorkRequested_def word_states)

lemma request_working:
  assumes "working_word d"
  shows "fst (OnWorkRequested d) = kNotNeeded" "working_word (snd (OnWorkRequested d))" "requested (snd (OnWorkRequested d))"
  using assms by (auto simp: OnWorkRequested_def word_states)

lemma work_started:
  assumes "idle_word d \<or> working_word d"
  shows "\<exists>d'. OnWorkStarted d = Some d' \<and> working_word d' \<and> \<not> requested d'"
    "\<exists>d'. WillCheckForMoreWork d = Some d' \<and> working_word d' \<and> \<not> requested d'"
  using assms by (auto simp: OnWorkStarted_def WillCheckForMoreWork_def word_states)

lemma work_checked:
  assumes "working_word d"
  shows "\<exists>d'. DidCheckForMoreWork next d = Some (if next = kIsImmediate \<or> requested d then kScheduleImmediate else kNotNeeded, d')
    \<and> idle_word d' \<and> (requested d' \<longleftrightarrow> next = kIsImmediate \<or> requested d)"
  using assms by (cases "next") (auto simp: DidCheckForMoreWork_def word_states Let_def)

lemma bound_idle: "\<exists>d. wd_BindToCurrentThread WorkDeduplicator = Some (kNotNeeded, d) \<and> idle_word d \<and> \<not> requested d"
  by (simp add: wd_BindToCurrentThread_def WorkDeduplicator_def word_states)

end
