(* ===== verification/Thread_Controller.thy ===== *)
theory Thread_Controller
  imports Scheduler_Runs Work_Deduplicator
begin

text \<open>
  ThreadControllerWithMessagePumpImpl (base/task/sequence_manager/thread_controller_with_message_pump_impl.cc), which runs the tasks
  that the sequence manager selects, and MessagePumpDefault (base/message_loop/message_pump_default.cc), the loop that calls it
  and sleeps in between.

  The code of DoSomeWork, DoWork and DoDelayedWork around DoWorkImpl, and the code of DoWorkImpl around the calls of the sequence
  manager, are separate definitions, because other threads act between them.  Calls of the pump are recorded in
  \<open>pump_calls\<close>, oldest first, and served by the pump.
\<close>

section \<open>The thread controller\<close>

datatype pump_call = Pump_ScheduleWork | Pump_ScheduleDelayedWork int | Pump_Quit

record thread_controller =
  dedup :: work_deduplicator
  quit_pending :: bool
  work_batch_size :: int
  runloop_count :: int
  next_delayed_do_work :: int
  quit_runloop_after :: int
  task_execution_allowed :: bool
  pump_calls :: "pump_call list"

abbreviation ticks_max :: int where "ticks_max \<equiv> limit_max int64_t"

definition call_pump :: "pump_call \<Rightarrow> thread_controller \<Rightarrow> thread_controller" where
  "call_pump x c = c\<lparr>pump_calls := pump_calls c @ [x]\<rparr>"

definition CapAtOneDay :: "int \<Rightarrow> int \<Rightarrow> int option" where
  "CapAtOneDay next_run_time lazy_now =
     do { day \<leftarrow> FromDays 1; tomorrow \<leftarrow> time_plus Clang lazy_now day; Some (min next_run_time tomorrow) }"

definition ThreadController :: thread_controller where
  "ThreadController = \<lparr>dedup = WorkDeduplicator, quit_pending = False, work_batch_size = 1, runloop_count = 0,
     next_delayed_do_work = ticks_max, quit_runloop_after = ticks_max, task_execution_allowed = True, pump_calls = []\<rparr>"

definition tc_BindToCurrentThread :: "thread_controller \<Rightarrow> thread_controller option" where
  "tc_BindToCurrentThread c =
     do { (r, d) \<leftarrow> wd_BindToCurrentThread (dedup c);
          let c = c\<lparr>dedup := d\<rparr>;
          Some (if r = kScheduleImmediate then call_pump Pump_ScheduleWork c else c) }"

definition SetWorkBatchSize :: "int \<Rightarrow> thread_controller \<Rightarrow> thread_controller option" where
  "SetWorkBatchSize n c = do { DCHECK (1 \<le> n); Some (c\<lparr>work_batch_size := n\<rparr>) }"

definition tc_ScheduleWork :: "thread_controller \<Rightarrow> thread_controller" where
  "tc_ScheduleWork c =
     (let (r, d) = OnWorkRequested (dedup c); c = c\<lparr>dedup := d\<rparr>
      in if r = kScheduleImmediate then call_pump Pump_ScheduleWork c else c)"

definition tc_SetNextDelayedDoWork :: "int \<Rightarrow> int \<Rightarrow> thread_controller \<Rightarrow> thread_controller option" where
  "tc_SetNextDelayedDoWork lazy_now run_time c =
     do { DCHECK (lazy_now < run_time);
          if next_delayed_do_work c = run_time then Some c
          else do { let c = c\<lparr>next_delayed_do_work := run_time\<rparr>;
                    run_time \<leftarrow> CapAtOneDay run_time lazy_now;
                    Some (if OnDelayedWorkRequested (dedup c) = kScheduleImmediate
                          then call_pump (Pump_ScheduleDelayedWork run_time) c else c) } }"

definition EnsureWorkScheduled :: "thread_controller \<Rightarrow> thread_controller" where
  "EnsureWorkScheduled c =
     (let (r, d) = OnWorkRequested (dedup c); c = c\<lparr>dedup := d\<rparr>
      in if r = kScheduleImmediate then call_pump Pump_ScheduleWork c else c)"

definition SetTaskExecutionAllowed :: "bool \<Rightarrow> thread_controller \<Rightarrow> thread_controller option" where
  "SetTaskExecutionAllowed allowed c =
     do { c \<leftarrow> (if allowed then Some (call_pump Pump_ScheduleWork (c\<lparr>dedup := snd (OnWorkRequested (dedup c))\<rparr>))
               else do { d \<leftarrow> OnWorkStarted (dedup c); Some (c\<lparr>dedup := d\<rparr>) });
          Some (c\<lparr>task_execution_allowed := allowed\<rparr>) }"

definition tc_Quit :: "thread_controller \<Rightarrow> thread_controller" where
  "tc_Quit c = call_pump Pump_Quit (c\<lparr>quit_pending := True\<rparr>)"

text \<open>A call that the sequence manager makes; the controller has no part in notifying the observers of a queue.\<close>

definition tc_handle :: "event \<Rightarrow> thread_controller \<Rightarrow> thread_controller option" where
  "tc_handle e c =
     (case e of
        ScheduleWork \<Rightarrow> Some (tc_ScheduleWork c)
      | SetNextDelayedDoWork lazy_now run_time \<Rightarrow> tc_SetNextDelayedDoWork lazy_now run_time c
      | OnQueueNextWakeUpChanged _ _ \<Rightarrow> Some c)"

primrec tc_handle_all :: "event list \<Rightarrow> thread_controller \<Rightarrow> thread_controller option" where
  "tc_handle_all [] c = Some c"
| "tc_handle_all (e # es) c = do { c \<leftarrow> tc_handle e c; tc_handle_all es c }"

section \<open>Doing work\<close>

text \<open>Before the batch: the delay that DoWorkImpl returns at once if tasks may not run now.\<close>

definition DoWorkImpl_begin :: "int \<Rightarrow> thread_controller \<Rightarrow> int option option" where
  "DoWorkImpl_begin lazy_now c =
     (if task_execution_allowed c then Some None
      else if quit_runloop_after c = ticks_max then Some (Some td_Max)
      else do { d \<leftarrow> time_diff (quit_runloop_after c) lazy_now; Some (Some d) })"

definition DoWorkImpl_take :: "thread_controller \<Rightarrow> thread_controller" where
  "DoWorkImpl_take c = c\<lparr>task_execution_allowed := False\<rparr>"

definition DoWorkImpl_ran :: "thread_controller \<Rightarrow> thread_controller" where
  "DoWorkImpl_ran c = c\<lparr>task_execution_allowed := True\<rparr>"

text \<open>After the batch: nothing is checked if the loop shall quit.\<close>

definition DoWorkImpl_check :: "thread_controller \<Rightarrow> thread_controller option option" where
  "DoWorkImpl_check c =
     (if quit_pending c then Some None
      else do { d \<leftarrow> WillCheckForMoreWork (dedup c); Some (Some (c\<lparr>dedup := d\<rparr>)) })"

definition DoSomeWork_begin :: "thread_controller \<Rightarrow> thread_controller option" where
  "DoSomeWork_begin c = do { d \<leftarrow> OnWorkStarted (dedup c); Some (c\<lparr>dedup := d\<rparr>) }"

text \<open>NextWorkInfo is the run time and the recent time; the null run time is 0.\<close>

definition DoSomeWork_end :: "int \<Rightarrow> int \<Rightarrow> thread_controller \<Rightarrow> ((int \<times> int) \<times> thread_controller) option" where
  "DoSomeWork_end continuation_lazy_now delay_till_next_task c =
     do { let next_task = (if td_is_zero delay_till_next_task then kIsImmediate else kIsDelayed);
          (r, d) \<leftarrow> DidCheckForMoreWork next_task (dedup c);
          let c = c\<lparr>dedup := d\<rparr>;
          if r = kScheduleImmediate then Some ((0, 0), c)
          else if td_is_max delay_till_next_task then Some ((ticks_max, 0), c\<lparr>next_delayed_do_work := ticks_max\<rparr>)
          else do { t \<leftarrow> time_plus Clang continuation_lazy_now delay_till_next_task;
                    let c = c\<lparr>next_delayed_do_work := t\<rparr>;
                    if next_delayed_do_work c > quit_runloop_after c
                    then do { let c = c\<lparr>next_delayed_do_work := quit_runloop_after c\<rparr>;
                              if continuation_lazy_now \<ge> quit_runloop_after c then Some ((ticks_max, 0), c)
                              else do { t \<leftarrow> CapAtOneDay (next_delayed_do_work c) continuation_lazy_now;
                                        Some ((t, continuation_lazy_now), c) } }
                    else do { t \<leftarrow> CapAtOneDay (next_delayed_do_work c) continuation_lazy_now;
                              Some ((t, continuation_lazy_now), c) } } }"

definition DoWork_end :: "int \<Rightarrow> bool \<Rightarrow> thread_controller \<Rightarrow> (bool \<times> thread_controller) option" where
  "DoWork_end delay_till_next_task ran_task c =
     do { let ran_task = (td_is_zero delay_till_next_task \<or> ran_task);
          let next_task = (if ran_task then kIsImmediate else kIsDelayed);
          (r, d) \<leftarrow> DidCheckForMoreWork next_task (dedup c);
          Some (r = kScheduleImmediate, c\<lparr>dedup := d\<rparr>) }"

definition DoDelayedWork_begin :: "thread_controller \<Rightarrow> thread_controller option" where
  "DoDelayedWork_begin c = do { d \<leftarrow> OnDelayedWorkStarted (dedup c); Some (c\<lparr>dedup := d\<rparr>) }"

definition DoDelayedWork_end :: "int \<Rightarrow> int \<Rightarrow> bool \<Rightarrow> thread_controller \<Rightarrow> (int \<times> bool \<times> thread_controller) option" where
  "DoDelayedWork_end continuation_lazy_now delay_till_next_task ran_task c =
     do { (next_task, next_run_time, c) \<leftarrow>
            (if td_is_zero delay_till_next_task then Some (kIsImmediate, 0, c)
             else if delay_till_next_task \<noteq> td_Max
             then do { t \<leftarrow> time_plus Clang continuation_lazy_now delay_till_next_task;
                       t \<leftarrow> CapAtOneDay t continuation_lazy_now;
                       let t = (if t > quit_runloop_after c
                                then (if continuation_lazy_now \<ge> quit_runloop_after c then 0 else quit_runloop_after c) else t);
                       Some (kIsDelayed, t, c\<lparr>next_delayed_do_work := t\<rparr>) }
             else Some (kIsDelayed, 0, c));
          (r, d) \<leftarrow> OnDelayedWorkEnded next_task (dedup c);
          let c = c\<lparr>dedup := d\<rparr>;
          Some (next_run_time, ran_task, if r = kScheduleImmediate then call_pump Pump_ScheduleWork c else c) }"

text \<open>
  DoIdleWork after OnSystemIdle; RunLoop::Delegate decides \<open>quit_when_idle\<close>.  The result is whether there is more work.
\<close>

definition DoIdleWork_end :: "bool \<Rightarrow> int \<Rightarrow> bool \<Rightarrow> thread_controller \<Rightarrow> bool \<times> thread_controller" where
  "DoIdleWork_end have_work now quit_when_idle c =
     (if have_work then (False, call_pump Pump_ScheduleWork c)
      else if quit_runloop_after c \<noteq> ticks_max \<and> quit_runloop_after c \<le> now then (False, tc_Quit c)
      else (False, if quit_when_idle then tc_Quit c else c))"

text \<open>
  Run before and after the loop of the pump.  The result of the first is what the second restores: the time after which an
  outer loop quits, and whether tasks are allowed only during this loop.
\<close>

definition tc_Run_begin :: "bool \<Rightarrow> bool \<Rightarrow> int \<Rightarrow> int \<Rightarrow> thread_controller \<Rightarrow> ((int \<times> bool) \<times> thread_controller) option" where
  "tc_Run_begin nested application_tasks_allowed timeout now c =
     do { t \<leftarrow> (if timeout = td_Max then Some ticks_max else time_plus Clang now timeout);
          let saved = quit_runloop_after c;
          let c = c\<lparr>quit_runloop_after := t, quit_pending := False, runloop_count := runloop_count c + 1\<rparr>;
          if application_tasks_allowed \<and> \<not> task_execution_allowed c
          then do { DCHECK nested; Some ((saved, True), c\<lparr>task_execution_allowed := True\<rparr>) }
          else Some ((saved, False), c) }"

definition tc_Run_end :: "int \<times> bool \<Rightarrow> thread_controller \<Rightarrow> thread_controller" where
  "tc_Run_end saved c =
     (let c = (if snd saved then c\<lparr>task_execution_allowed := False\<rparr> else c)
      in c\<lparr>runloop_count := runloop_count c - 1, quit_pending := False, quit_runloop_after := fst saved\<rparr>)"

text \<open>OnSystemIdle of the sequence manager; \<open>fast_forward\<close> is what the time domains answer, which is no for a RealTimeDomain.\<close>

definition OnSystemIdle :: "(nat \<Rightarrow> bool) \<Rightarrow> sequence_manager \<Rightarrow> (bool \<times> sequence_manager) option" where
  "OnSystemIdle fast_forward m =
     do { let have_work_to_do = list_ex fast_forward (registered_time_domains m);
          m \<leftarrow> (if \<not> have_work_to_do then MaybeReclaimMemory m else Some m);
          Some (have_work_to_do, m) }"

definition real_MaybeFastForwardToNextTask :: "nat \<Rightarrow> bool" where
  "real_MaybeFastForwardToNextTask d = False"

section \<open>The default message pump\<close>

text \<open>\<open>event\<close> is whether the WaitableEvent, which a wait resets, is signalled.\<close>

record default_pump =
  keep_running :: bool
  event_signaled :: bool

definition MessagePumpDefault :: default_pump where
  "MessagePumpDefault = \<lparr>keep_running = True, event_signaled = False\<rparr>"

definition pump_Quit :: "default_pump \<Rightarrow> default_pump" where
  "pump_Quit p = p\<lparr>keep_running := False\<rparr>"

definition pump_ScheduleWork :: "default_pump \<Rightarrow> default_pump" where
  "pump_ScheduleWork p = p\<lparr>event_signaled := True\<rparr>"

definition pump_ScheduleDelayedWork :: "int \<Rightarrow> default_pump \<Rightarrow> default_pump" where
  "pump_ScheduleDelayedWork delayed_work_time p = p"

definition pump_serve :: "pump_call \<Rightarrow> default_pump \<Rightarrow> default_pump" where
  "pump_serve x p =
     (case x of
        Pump_ScheduleWork \<Rightarrow> pump_ScheduleWork p
      | Pump_ScheduleDelayedWork t \<Rightarrow> pump_ScheduleDelayedWork t p
      | Pump_Quit \<Rightarrow> pump_Quit p)"

definition remaining_delay :: "int \<Rightarrow> int \<Rightarrow> int \<Rightarrow> int option" where
  "remaining_delay now run_time recent_now =
     do { DCHECK (run_time \<noteq> 0 \<and> run_time \<noteq> ticks_max); DCHECK (now \<ge> recent_now); time_diff run_time recent_now }"

section \<open>Capped times\<close>

lemma time_plus_total: "0 < d \<Longrightarrow> d < limit_max int64_t \<Longrightarrow> \<exists>t. time_plus Clang now d = Some t"
  by (auto simp: time_plus_def SaturatedAdd_def td_is_max_def td_is_min_def ClampedAddOp_def CheckedAddOp_def case_prod_beta int64_limits)

lemma one_day: "FromDays 1 = Some 86400000000"
  by (simp add: FromDays_def arith_int64 in_range_int64 int64_limits time_units limit_max_def)

lemma CapAtOneDay_total: "\<exists>t. CapAtOneDay run_time now = Some t"
  using time_plus_total [of 86400000000 now] by (auto simp: CapAtOneDay_def one_day int64_limits)

lemma CapAtOneDay_ok:
  assumes "time_ok now"
  shows "CapAtOneDay run_time now = Some (min run_time (min (now + 86400000000) ticks_max))"
  using assms delay_ok [of now 86400000000] by (simp add: CapAtOneDay_def one_day time_plus_def time_ok_def int64_limits)

section \<open>Properties\<close>

text \<open>
  Claim C38.  A pump that still calls DoDelayedWork may lose a wake-up.  When DoDelayedWork finds no more work it tells the pump, by the
  null time, that no further call is needed, but unlike DoSomeWork it keeps the old time in \<open>next_delayed_do_work\<close>.  If the same time
  is set again outside of a work call, for example because a queue was disabled and is enabled again, SetNextDelayedDoWork takes it for
  a repetition and does not call the pump; after DoSomeWork it does.
\<close>

theorem delayed_work_forgotten:
  assumes "wd_state (dedup c) = kInDoWork" "next_delayed_do_work c = t" "now < t" "t \<noteq> ticks_max"
  shows "(\<exists>c1 c2. DoDelayedWork_end now td_Max False c = Some (0, False, c1) \<and> tc_SetNextDelayedDoWork now t c1 = Some c2
        \<and> pump_calls c2 = pump_calls c)
    \<and> (\<exists>c1 c2 x. DoSomeWork_end now td_Max c = Some ((ticks_max, 0), c1) \<and> tc_SetNextDelayedDoWork now t c1 = Some c2
        \<and> pump_calls c2 = pump_calls c @ [Pump_ScheduleDelayedWork x])"
proof -
  obtain x where x: "CapAtOneDay t now = Some x" using CapAtOneDay_total by blast
  have "working_word (dedup c)" "\<not> requested (dedup c)" using assms(1) by (simp_all add: word_states)
  with work_checked [of "dedup c" kIsDelayed] obtain d where
    d: "DidCheckForMoreWork kIsDelayed (dedup c) = Some (kNotNeeded, d)" "idle_word d" "\<not> requested d" by auto
  have idle: "OnDelayedWorkRequested d = kScheduleImmediate" using d(2,3) by (auto simp: OnDelayedWorkRequested_def word_states)
  have big: "\<not> td_is_zero td_Max" "td_is_max td_Max" by (simp_all add: td_is_zero_def td_is_max_def td_Max_def int64_limits)
  have "DoDelayedWork_end now td_Max False c = Some (0, False, c\<lparr>dedup := d\<rparr>)"
    using d(1) big by (simp add: DoDelayedWork_end_def OnDelayedWorkEnded_def)
  moreover have "tc_SetNextDelayedDoWork now t (c\<lparr>dedup := d\<rparr>) = Some (c\<lparr>dedup := d\<rparr>)" using assms(2,3) by (simp add: tc_SetNextDelayedDoWork_def)
  moreover have "DoSomeWork_end now td_Max c = Some ((ticks_max, 0), c\<lparr>dedup := d, next_delayed_do_work := ticks_max\<rparr>)"
    using d(1) big by (simp add: DoSomeWork_end_def)
  moreover have "tc_SetNextDelayedDoWork now t (c\<lparr>dedup := d, next_delayed_do_work := ticks_max\<rparr>)
      = Some (call_pump (Pump_ScheduleDelayedWork x) (c\<lparr>dedup := d, next_delayed_do_work := t\<rparr>))"
    using assms(3,4) x idle by (simp add: tc_SetNextDelayedDoWork_def)
  ultimately show ?thesis by (simp add: call_pump_def)
qed

theorem delayed_work_forgotten_witness:
  "\<exists>c c1 c2. c = ThreadController\<lparr>dedup := \<lparr>wd_state = kInDoWork, last_work_check_result = kNotNeeded\<rparr>, next_delayed_do_work := 6000\<rparr>
     \<and> DoDelayedWork_end 5000 td_Max False c = Some (0, False, c1) \<and> tc_SetNextDelayedDoWork 5000 6000 c1 = Some c2 \<and> pump_calls c2 = []"
proof -
  let ?c = "ThreadController\<lparr>dedup := \<lparr>wd_state = kInDoWork, last_work_check_result = kNotNeeded\<rparr>, next_delayed_do_work := 6000\<rparr>"
  have "(6000::int) \<noteq> ticks_max" by (simp add: int64_limits)
  with delayed_work_forgotten [of ?c 6000 5000] show ?thesis by (simp add: ThreadController_def)
qed

end
