(* ===== verification/Message_Loop.thy ===== *)
theory Message_Loop
  imports Thread_Controller
begin

text \<open>
  The whole loop of a thread: MessagePumpDefault::Run calls the thread controller, which calls the sequence manager, while other
  threads post tasks.  One action is what one thread does between two points where another may act.  The invariant of
  the loop gives that no check fails, and that the thread does not sleep while there is work for it.

  A thread that posts a task first changes the queue under its lock and then, without the lock, calls ScheduleWork if it
  has to; these are two actions.  \<open>in_flight\<close> counts the threads in between.  The loop is not nested, all queues are in the real time domain, and there is no native work.
\<close>

section \<open>Actions\<close>

text \<open>
  Where the main thread is: outside of Run; at the head of the loop; in DoSomeWork, before selecting the task with a number,
  in that task, after the batch, before DelayTillNextTask, and before the end with the time that was read and the delay; after
  DoSomeWork with the NextWorkInfo; and waiting for the event, with the NextWorkInfo and since when.
\<close>

datatype place =
    Outside
  | Head
  | Selecting int
  | Running int
  | Leaving
  | Checking
  | Returning int int
  | Did_Work int int
  | Waiting int int int

record message_loop =
  manager :: sequence_manager
  controller :: thread_controller
  pump :: default_pump
  place :: place
  outer_run :: "int \<times> bool"
  outer_keep_running :: bool
  in_flight :: nat

datatype action =
    Run_Loop bool int
  | Begin_Work
  | Select_Task "nat list"
  | Main_Call call
  | Post nat "nat posted_task"
  | Notify
  | Tick int
  | Cancel_Job nat
  | Quit_Loop
  | Batch_Size int
  | End_Task
  | Leave_Batch
  | Check_Delay "nat list"
  | End_Work
  | Idle_Work bool
  | Wake

text \<open>The pump serves what the controller asked for.\<close>

definition serve_pump :: "message_loop \<Rightarrow> message_loop" where
  "serve_pump Y =
     Y\<lparr>pump := fold pump_serve (pump_calls (controller Y)) (pump Y), controller := (controller Y)\<lparr>pump_calls := []\<rparr>\<rparr>"

definition with_controller :: "thread_controller \<Rightarrow> message_loop \<Rightarrow> message_loop" where
  "with_controller c Y = serve_pump (Y\<lparr>controller := c\<rparr>)"

text \<open>The sequence manager becomes \<open>m\<close>, and the controller handles the calls that it made on the way.\<close>

definition new_events :: "sequence_manager \<Rightarrow> sequence_manager \<Rightarrow> event list" where
  "new_events m m' = drop (length (event_log (sched m))) (event_log (sched m'))"

definition with_manager :: "sequence_manager \<Rightarrow> message_loop \<Rightarrow> message_loop option" where
  "with_manager m Y =
     do { c \<leftarrow> tc_handle_all (new_events (manager Y) m) (controller Y); Some (with_controller c (Y\<lparr>manager := m\<rparr>)) }"

definition make_call :: "call \<Rightarrow> message_loop \<Rightarrow> message_loop option" where
  "make_call c Y = do { (_, m) \<leftarrow> run_call c (manager Y); with_manager m Y }"

definition loop_now :: "message_loop \<Rightarrow> int" where
  "loop_now Y = controller_now (manager Y)"

text \<open>Run of the pump and of the controller return.\<close>

definition leave_loop :: "message_loop \<Rightarrow> message_loop" where
  "leave_loop Y =
     Y\<lparr>pump := (pump Y)\<lparr>keep_running := outer_keep_running Y\<rparr>, controller := tc_Run_end (outer_run Y) (controller Y), place := Outside\<rparr>"

text \<open>MessagePumpDefault::Run: entering the loop, after DoSomeWork, after DoIdleWork, and the wait.\<close>

definition pump_Run_begin :: "message_loop \<Rightarrow> message_loop" where
  "pump_Run_begin Y = Y\<lparr>outer_keep_running := keep_running (pump Y), pump := (pump Y)\<lparr>keep_running := True\<rparr>, place := Head\<rparr>"

definition pump_Run_worked :: "int \<times> int \<Rightarrow> message_loop \<Rightarrow> message_loop" where
  "pump_Run_worked info Y =
     (if \<not> keep_running (pump Y) then leave_loop Y
      else if fst info = 0 then Y\<lparr>place := Head\<rparr>
      else Y\<lparr>place := Did_Work (fst info) (snd info)\<rparr>)"

definition pump_Run_idle :: "int \<times> int \<Rightarrow> bool \<Rightarrow> message_loop \<Rightarrow> message_loop option" where
  "pump_Run_idle info again Y =
     (if \<not> keep_running (pump Y) then Some (leave_loop Y)
      else if again then Some (Y\<lparr>place := Head\<rparr>)
      else if fst info = ticks_max then Some (Y\<lparr>place := Waiting ticks_max 0 (loop_now Y)\<rparr>)
      else do { _ \<leftarrow> remaining_delay (loop_now Y) (fst info) (snd info);
                Some (Y\<lparr>place := Waiting (fst info) (snd info) (loop_now Y)\<rparr>) })"

definition pump_Run_wake :: "int \<Rightarrow> int \<Rightarrow> int \<Rightarrow> message_loop \<Rightarrow> message_loop option" where
  "pump_Run_wake run_time recent_now since Y =
     (if event_signaled (pump Y) then Some (Y\<lparr>pump := (pump Y)\<lparr>event_signaled := False\<rparr>, place := Head\<rparr>)
      else if run_time \<noteq> ticks_max \<and> since + (run_time - recent_now) \<le> loop_now Y then Some (Y\<lparr>place := Head\<rparr>)
      else None)"

fun act :: "action \<Rightarrow> message_loop \<Rightarrow> message_loop option" where
  "act (Run_Loop application_tasks_allowed timeout) Y =
     (if place Y \<noteq> Outside then None
      else do { (saved, c) \<leftarrow> tc_Run_begin False application_tasks_allowed timeout (loop_now Y) (controller Y);
                Some (pump_Run_begin (Y\<lparr>controller := c, outer_run := saved\<rparr>)) })"
| "act Begin_Work Y =
     (if place Y \<noteq> Head then None
      else do { c \<leftarrow> DoSomeWork_begin (controller Y);
                refused \<leftarrow> DoWorkImpl_begin (loop_now Y) c;
                Some (Y\<lparr>controller := c, place := (case refused of None \<Rightarrow> Selecting 0 | Some d \<Rightarrow> Returning (loop_now Y) d)\<rparr>) })"
| "act (Select_Task order) Y =
     (case place Y of
        Selecting i \<Rightarrow>
          if \<not> i < work_batch_size (controller Y) then Some (Y\<lparr>place := Leaving\<rparr>)
          else do { (task, m) \<leftarrow> StartTask order (manager Y);
                    Y \<leftarrow> with_manager m Y;
                    Some (if task = None then Y\<lparr>place := Leaving\<rparr>
                          else Y\<lparr>controller := DoWorkImpl_take (controller Y), place := Running i\<rparr>) }
      | _ \<Rightarrow> None)"
| "act (Main_Call c) Y = make_call c Y"
| "act (Post q task) Y =
     do { (_, m) \<leftarrow> run_call (Post_Task q task kNotMainThread) (manager Y);
          Some (Y\<lparr>manager := m, in_flight := in_flight Y + count_list (new_events (manager Y) m) ScheduleWork\<rparr>) }"
| "act Notify Y =
     (if in_flight Y = 0 then None
      else Some (with_controller (tc_ScheduleWork (controller Y)) (Y\<lparr>in_flight := in_flight Y - 1\<rparr>)))"
| "act (Tick t) Y = make_call (Advance_Clock (real_time_domain (manager Y)) t) Y"
| "act (Cancel_Job n) Y = make_call (Cancel n) Y"
| "act Quit_Loop Y = Some (with_controller (tc_Quit (controller Y)) Y)"
| "act (Batch_Size n) Y = do { c \<leftarrow> SetWorkBatchSize n (controller Y); Some (Y\<lparr>controller := c\<rparr>) }"
| "act End_Task Y =
     (case place Y of
        Running i \<Rightarrow>
          do { Y \<leftarrow> make_call Did_Run_Task (Y\<lparr>controller := DoWorkImpl_ran (controller Y)\<rparr>);
               Some (Y\<lparr>place := (if quit_pending (controller Y) then Leaving else Selecting (i + 1))\<rparr>) }
      | _ \<Rightarrow> None)"
| "act Leave_Batch Y =
     (if place Y \<noteq> Leaving then None
      else do { r \<leftarrow> DoWorkImpl_check (controller Y);
                Some (case r of
                        None \<Rightarrow> Y\<lparr>place := Returning (loop_now Y) td_Max\<rparr>
                      | Some c \<Rightarrow> Y\<lparr>controller := c, place := Checking\<rparr>) })"
| "act (Check_Delay order) Y =
     (if place Y \<noteq> Checking then None
      else do { (delay, m) \<leftarrow> DelayTillNextTask no_delay order (loop_now Y) (manager Y);
                Y \<leftarrow> with_manager m Y;
                DCHECK (0 \<le> delay);
                Some (Y\<lparr>place := Returning (loop_now Y) delay\<rparr>) })"
| "act End_Work Y =
     (case place Y of
        Returning lazy_now delay \<Rightarrow>
          do { (info, c) \<leftarrow> DoSomeWork_end lazy_now delay (controller Y); Some (pump_Run_worked info (with_controller c Y)) }
      | _ \<Rightarrow> None)"
| "act (Idle_Work quit_when_idle) Y =
     (case place Y of
        Did_Work run_time recent_now \<Rightarrow>
          do { (have_work, m) \<leftarrow> OnSystemIdle real_MaybeFastForwardToNextTask (manager Y);
               Y \<leftarrow> with_manager m Y;
               let (again, c) = DoIdleWork_end have_work (loop_now Y) quit_when_idle (controller Y);
               pump_Run_idle (run_time, recent_now) again (with_controller c Y) }
      | _ \<Rightarrow> None)"
| "act Wake Y =
     (case place Y of
        Waiting run_time recent_now since \<Rightarrow> pump_Run_wake run_time recent_now since Y
      | _ \<Rightarrow> None)"

text \<open>
  When an action is allowed.  Main thread code runs in tasks and outside of the loop; there it may make all calls
  but those of the controller, of nested loops, of native work and of other time domains.
\<close>

fun main_call :: "call \<Rightarrow> bool" where
  "main_call (Start_Task _) = False"
| "main_call Did_Run_Task = False"
| "main_call Begin_Nested = False"
| "main_call Exit_Nested = False"
| "main_call (Native_Begin _) = False"
| "main_call (Native_End _) = False"
| "main_call (Add_Domain _) = False"
| "main_call (Remove_Domain _) = False"
| "main_call (Delay_Till _) = False"
| "main_call Reclaim = False"
| "main_call (Advance_Clock _ _) = False"
| "main_call _ = True"

definition main_place :: "place \<Rightarrow> bool" where
  "main_place p = (case p of Outside \<Rightarrow> True | Running _ \<Rightarrow> True | _ \<Rightarrow> False)"

fun action_ok :: "action \<Rightarrow> message_loop \<Rightarrow> bool" where
  "action_ok (Run_Loop _ timeout) Y \<longleftrightarrow> place Y = Outside \<and> 0 \<le> timeout \<and> timeout \<le> td_Max"
| "action_ok Begin_Work Y \<longleftrightarrow> place Y = Head"
| "action_ok (Select_Task order) Y \<longleftrightarrow> (case place Y of Selecting _ \<Rightarrow> True | _ \<Rightarrow> False) \<and> call_ok (Start_Task order) (manager Y)"
| "action_ok (Main_Call c) Y \<longleftrightarrow> main_place (place Y) \<and> main_call c \<and> call_ok c (manager Y)"
| "action_ok (Post q task) Y \<longleftrightarrow> call_ok (Post_Task q task kNotMainThread) (manager Y)"
| "action_ok Notify Y \<longleftrightarrow> in_flight Y \<noteq> 0"
| "action_ok (Tick t) Y \<longleftrightarrow> call_ok (Advance_Clock (real_time_domain (manager Y)) t) (manager Y)"
| "action_ok (Cancel_Job n) Y \<longleftrightarrow> True"
| "action_ok Quit_Loop Y \<longleftrightarrow> main_place (place Y)"
| "action_ok (Batch_Size n) Y \<longleftrightarrow> main_place (place Y) \<and> 1 \<le> n"
| "action_ok End_Task Y \<longleftrightarrow> (case place Y of Running _ \<Rightarrow> True | _ \<Rightarrow> False)"
| "action_ok Leave_Batch Y \<longleftrightarrow> place Y = Leaving"
| "action_ok (Check_Delay order) Y \<longleftrightarrow> place Y = Checking \<and> call_ok (Delay_Till order) (manager Y)"
| "action_ok End_Work Y \<longleftrightarrow> (case place Y of Returning _ _ \<Rightarrow> True | _ \<Rightarrow> False)"
| "action_ok (Idle_Work _) Y \<longleftrightarrow> (case place Y of Did_Work _ _ \<Rightarrow> True | _ \<Rightarrow> False)"
| "action_ok Wake Y \<longleftrightarrow>
     (case place Y of
        Waiting t n since \<Rightarrow> event_signaled (pump Y) \<or> t \<noteq> ticks_max \<and> since + (t - n) \<le> loop_now Y
      | _ \<Rightarrow> False)"

section \<open>What the calls leave alone\<close>

definition frame :: "sequence_manager \<Rightarrow> nat list \<times> nat \<times> nat list" where
  "frame m = (registered_time_domains m, real_time_domain m, pending_native_work m)"

lemma frame_simps [simp]:
  "frame (m\<lparr>sched := s\<rparr>) = frame m" "frame (m\<lparr>sched := s, non_nestable_task_queue := ds\<rparr>) = frame m"
  "frame (m\<lparr>sched := s, task_execution_stack := st\<rparr>) = frame m" "frame (m\<lparr>memory_reclaim_scheduled := b\<rparr>) = frame m"
  "frame (m\<lparr>queues_to_gracefully_shutdown := qs\<rparr>) = frame m"
  by (simp_all add: frame_def)

lemma clear_frame: "clear_queues_to_delete qs m = Some m' \<Longrightarrow> frame m' = frame m"
  by (induction qs) (auto simp: frame_def split: if_splits)

lemma unregister_frame: "UnregisterTaskQueueImpl q m = Some m' \<Longrightarrow> frame m' = frame m \<and> task_execution_stack m' = task_execution_stack m"
  by (auto simp: UnregisterTaskQueueImpl_def frame_def bind_eq_Some_conv)

lemma clean_up_frame: "clean_up_loop qs m = Some m' \<Longrightarrow> frame m' = frame m"
proof (induction qs arbitrary: m)
  case (Cons q qs)
  then show ?case
    using unregister_frame [of q m] by (auto simp: bind_eq_Some_conv frame_def split: if_splits)
qed simp

lemma DidRunTask_frame: "DidRunTask m = Some m' \<Longrightarrow> frame m' = frame m"
  using clean_up_frame clear_frame
  by (fastforce simp: DidRunTask_def CleanUpQueues_def bind_eq_Some_conv frame_def Let_def split: if_splits)

lemma wake_ups_frame: "sm_MoveReadyDelayedTasksToWorkQueues now m = Some m' \<Longrightarrow> frame m' = frame m"
  by (auto simp: sm_MoveReadyDelayedTasksToWorkQueues_def bind_eq_Some_conv)

lemma select_frame: "select_loop fuel m = Some (r, m') \<Longrightarrow> frame m' = frame m"
proof (induction fuel arbitrary: m)
  case (Suc fuel)
  from Suc.prems show ?case
    by (auto simp: bind_eq_Some_conv Let_def dest!: Suc.IH split: option.splits if_splits)
qed simp

lemma run_task_frame: "run_task m = Some m' \<Longrightarrow> frame m' = frame m"
  by (cases "the (callback (fst (last (task_execution_stack m))))")
    (auto simp: run_task_def bind_eq_Some_conv Let_def split: prod.splits if_splits)

lemma StartTask_frame:
  assumes "StartTask order m = Some (r, m')"
  shows "frame m' = frame m"
proof -
  have sel: "frame m1 = frame m" if s: "SelectNextTaskImpl order m = Some (t, m1)" for t m1
  proof -
    from s obtain s m2 m3 n where "sm_MoveReadyDelayedTasksToWorkQueues (controller_now (m\<lparr>sched := s\<rparr>)) (m\<lparr>sched := s\<rparr>) = Some m2"
      "select_loop n m3 = Some (t, m1)" "frame m3 = frame m2"
      by (auto simp: SelectNextTaskImpl_def bind_eq_Some_conv Let_def frame_def simp del: select_loop.simps split: if_splits)
    then show ?thesis using wake_ups_frame select_frame by fastforce
  qed
  show ?thesis using assms
    by (auto simp: StartTask_def bind_eq_Some_conv dest!: sel run_task_frame split: option.splits)
qed

lemma each_queue_frame:
  "sm_DeletePendingTasks m = Some m' \<Longrightarrow> frame m' = frame m \<and> task_execution_stack m' = task_execution_stack m"
  "RemoveAllCanceledTasksFromFrontOfWorkQueues m = Some m' \<Longrightarrow> frame m' = frame m \<and> task_execution_stack m' = task_execution_stack m"
  by (auto simp: sm_DeletePendingTasks_def RemoveAllCanceledTasksFromFrontOfWorkQueues_def bind_eq_Some_conv split: if_splits)

lemma create_frame: "CreateTaskQueueImpl q d b m = Some m' \<Longrightarrow> frame m' = frame m \<and> task_execution_stack m' = task_execution_stack m"
  by (auto simp: CreateTaskQueueImpl_def frame_def bind_eq_Some_conv Let_def split: if_splits)

lemma main_call_frame:
  assumes "run_call c m = Some (r, m')" "main_call c"
  shows "frame m' = frame m" "task_execution_stack m' = task_execution_stack m"
proof -
  have "frame m' = frame m \<and> task_execution_stack m' = task_execution_stack m"
    using assms
    by (cases c) (auto simp: on_sched_def silently_def bind_eq_Some_conv sm_HasTasks_def IsIdleForTesting_def ShutdownTaskQueueGracefully_def
        dest!: create_frame unregister_frame each_queue_frame split: if_splits)
  then show "frame m' = frame m" "task_execution_stack m' = task_execution_stack m" by simp_all
qed

lemma DelayTill_frame: "DelayTillNextTask other order now m = Some (x, m') \<Longrightarrow> frame m' = frame m"
  by (auto simp: DelayTillNextTask_def bind_eq_Some_conv Let_def split: option.splits if_splits)

lemma Reclaim_frame: "MaybeReclaimMemory m = Some m' \<Longrightarrow> frame m' = frame m \<and> task_execution_stack m' = task_execution_stack m"
  by (auto simp: MaybeReclaimMemory_def sm_ReclaimMemory_def frame_def bind_eq_Some_conv split: if_splits)

section \<open>The controller and the pump\<close>

text \<open>
  Handling the calls of the sequence manager: the flags of the controller stay, requests add up, and a first request
  outside of a work call reaches the pump.
\<close>

definition settings :: "thread_controller \<Rightarrow> bool \<times> int \<times> int \<times> int \<times> bool" where
  "settings c = (quit_pending c, work_batch_size c, runloop_count c, quit_runloop_after c, task_execution_allowed c)"

definition handled :: "thread_controller \<Rightarrow> thread_controller \<Rightarrow> bool" where
  "handled c c' \<longleftrightarrow>
     settings c' = settings c \<and> (idle_word (dedup c) \<longrightarrow> idle_word (dedup c')) \<and> (working_word (dedup c) \<longrightarrow> working_word (dedup c'))
     \<and> (requested (dedup c) \<longrightarrow> requested (dedup c'))
     \<and> (\<exists>xs. pump_calls c' = pump_calls c @ xs \<and> Pump_Quit \<notin> set xs
          \<and> (idle_word (dedup c) \<and> requested (dedup c') \<longrightarrow> requested (dedup c) \<or> Pump_ScheduleWork \<in> set xs))"

lemma handled_refl: "handled c c"
  by (simp add: handled_def)

lemma handled_trans:
  assumes "handled a b" "handled b c"
  shows "handled a c"
proof -
  from assms obtain xs ys where x: "pump_calls b = pump_calls a @ xs" "Pump_Quit \<notin> set xs"
    "idle_word (dedup a) \<and> requested (dedup b) \<longrightarrow> requested (dedup a) \<or> Pump_ScheduleWork \<in> set xs"
    and y: "pump_calls c = pump_calls b @ ys" "Pump_Quit \<notin> set ys"
    "idle_word (dedup b) \<and> requested (dedup c) \<longrightarrow> requested (dedup b) \<or> Pump_ScheduleWork \<in> set ys" unfolding handled_def by blast
  have "pump_calls c = pump_calls a @ (xs @ ys)" using x(1) y(1) by simp
  then show ?thesis using assms x(2,3) y(2,3) unfolding handled_def by (metis Un_iff set_append)
qed

lemma schedule_handled:
  assumes "idle_word (dedup c) \<or> working_word (dedup c)"
  shows "handled c (tc_ScheduleWork c)" "requested (dedup (tc_ScheduleWork c))"
proof -
  let ?d = "snd (OnWorkRequested (dedup c))" and ?r = "fst (OnWorkRequested (dedup c))"
  have e: "tc_ScheduleWork c = (if ?r = kScheduleImmediate then call_pump Pump_ScheduleWork (c\<lparr>dedup := ?d\<rparr>) else c\<lparr>dedup := ?d\<rparr>)"
    by (simp add: tc_ScheduleWork_def Let_def case_prod_beta)
  have d: "requested ?d" "idle_word (dedup c) \<longrightarrow> idle_word ?d" "working_word (dedup c) \<longrightarrow> working_word ?d"
    using assms request_idle request_working by blast+
  show "requested (dedup (tc_ScheduleWork c))" using d by (simp add: e call_pump_def)
  have "idle_word (dedup c) \<Longrightarrow> \<not> requested (dedup c) \<Longrightarrow> ?r = kScheduleImmediate" using request_idle(1) [of "dedup c"] by simp
  then show "handled c (tc_ScheduleWork c)" using d by (auto simp: e handled_def settings_def call_pump_def)
qed

lemma set_next_handled:
  assumes "lazy_now < run_time"
  shows "\<exists>c'. tc_SetNextDelayedDoWork lazy_now run_time c = Some c' \<and> handled c c'"
proof -
  obtain t where "CapAtOneDay run_time lazy_now = Some t" using CapAtOneDay_total by blast
  then show ?thesis using assms by (auto simp: tc_SetNextDelayedDoWork_def handled_def settings_def call_pump_def Let_def)
qed

lemma handle_ok:
  assumes "event_ok e" "idle_word (dedup c) \<or> working_word (dedup c)"
  shows "\<exists>c'. tc_handle e c = Some c' \<and> handled c c'"
  using assms schedule_handled(1) set_next_handled handled_refl by (cases e) (auto simp: tc_handle_def)

lemma handle_all_ok:
  assumes "list_all event_ok es" "idle_word (dedup c) \<or> working_word (dedup c)"
  shows "\<exists>c'. tc_handle_all es c = Some c' \<and> handled c c'"
  using assms
proof (induction es arbitrary: c)
  case (Cons e es)
  from handle_ok [of e c] Cons.prems obtain b where b: "tc_handle e c = Some b" "handled c b" by auto
  then have "idle_word (dedup b) \<or> working_word (dedup b)" using Cons.prems(2) by (auto simp: handled_def)
  from Cons.IH [OF _ this] Cons.prems(1) obtain c' where "tc_handle_all es b = Some c'" "handled b c'" by auto
  then show ?case using b handled_trans by auto
qed (simp add: handled_refl)

text \<open>What the pump made of the requests.\<close>

lemma fold_serve:
  "event_signaled (fold pump_serve xs p) \<longleftrightarrow> event_signaled p \<or> Pump_ScheduleWork \<in> set xs"
  "keep_running (fold pump_serve xs p) \<longleftrightarrow> keep_running p \<and> Pump_Quit \<notin> set xs"
  by (induction xs arbitrary: p)
    (auto simp: pump_serve_def pump_ScheduleWork_def pump_ScheduleDelayedWork_def pump_Quit_def split: pump_call.splits)

definition delivered :: "message_loop \<Rightarrow> message_loop \<Rightarrow> bool" where
  "delivered Y Y' \<longleftrightarrow>
     place Y' = place Y \<and> outer_run Y' = outer_run Y \<and> outer_keep_running Y' = outer_keep_running Y
     \<and> settings (controller Y') = settings (controller Y) \<and> pump_calls (controller Y') = [] \<and> keep_running (pump Y') = keep_running (pump Y)
     \<and> (idle_word (dedup (controller Y)) \<longrightarrow> idle_word (dedup (controller Y')))
     \<and> (working_word (dedup (controller Y)) \<longrightarrow> working_word (dedup (controller Y')))
     \<and> (requested (dedup (controller Y)) \<longrightarrow> requested (dedup (controller Y'))) \<and> (event_signaled (pump Y) \<longrightarrow> event_signaled (pump Y'))
     \<and> (idle_word (dedup (controller Y)) \<and> requested (dedup (controller Y')) \<longrightarrow> requested (dedup (controller Y)) \<or> event_signaled (pump Y'))"

lemma with_handled:
  assumes "handled (controller Y) c" "pump_calls (controller Y) = []"
  shows "delivered Y (with_controller c Y)" "manager (with_controller c Y) = manager Y" "in_flight (with_controller c Y) = in_flight Y"
    "dedup (controller (with_controller c Y)) = dedup c"
  using assms by (auto simp: handled_def delivered_def with_controller_def serve_pump_def fold_serve settings_def)

lemma with_manager_ok:
  assumes "sm_inv m" "idle_word (dedup (controller Y)) \<or> working_word (dedup (controller Y))" "pump_calls (controller Y) = []"
  shows "\<exists>Y'. with_manager m Y = Some Y' \<and> delivered Y Y' \<and> manager Y' = m \<and> in_flight Y' = in_flight Y"
proof -
  obtain reg where "sched_inv (sched m) reg" by (rule sched_okE [OF sm_invD(1) [OF assms(1)]])
  then have "list_all event_ok (event_log (sched m))" using sched_invD(2) by (auto simp: env_ok_def log_ok_def)
  then have "list_all event_ok (new_events (manager Y) m)" by (auto simp: new_events_def list_all_iff dest: in_set_dropD)
  from handle_all_ok [OF this assms(2)] obtain c where
    c: "tc_handle_all (new_events (manager Y) m) (controller Y) = Some c" "handled (controller Y) c" by blast
  let ?Y = "Y\<lparr>manager := m\<rparr>"
  have "delivered ?Y (with_controller c ?Y)" "manager (with_controller c ?Y) = m" "in_flight (with_controller c ?Y) = in_flight Y"
    using with_handled [of ?Y c] c(2) assms(3) by simp_all
  moreover have "delivered ?Y Z = delivered Y Z" for Z by (simp add: delivered_def)
  ultimately show ?thesis using c(1) by (simp add: with_manager_def)
qed

section \<open>Calls while the thread is about to sleep\<close>

text \<open>Delayed tasks of enabled queues do not run before \<open>t\<close>.\<close>

definition wake_bound :: "int \<Rightarrow> sequence_manager \<Rightarrow> bool" where
  "wake_bound t m \<longleftrightarrow>
     (\<forall>q \<in> set (active_queues m). tq_is_enabled (task_queues (sched m) q) \<longrightarrow> (\<forall>u \<in> set (delayed_tasks (sched m) q). t \<le> delayed_run_time u))"

text \<open>A call that brings no new work for a sleeping thread, unless \<open>b\<close>.\<close>

definition rests :: "bool \<Rightarrow> sequence_manager \<Rightarrow> sequence_manager \<Rightarrow> bool" where
  "rests b m m' \<longleftrightarrow>
     sm_inv m' \<and> frame m' = frame m \<and> task_execution_stack m' = task_execution_stack m \<and> controller_now m \<le> controller_now m'
     \<and> (\<forall>t. wake_bound t m \<longrightarrow> wake_bound t m') \<and> (b \<or> (work_blocked m \<longrightarrow> work_blocked m'))"

text \<open>A new immediate task comes last, and is announced if it is the only one and the queue may run.\<close>

definition received :: "nat \<Rightarrow> scheduler \<Rightarrow> scheduler \<Rightarrow> bool" where
  "received q s s' \<longleftrightarrow>
     others q s s' \<and> same_gate (task_queues s q) (task_queues s' q)
     \<and> (\<exists>t. order_counter s \<le> enqueue_order_set_to t \<and> tasks_of s' q = (pending_immediate s q @ [t], snd (tasks_of s q)))
     \<and> event_log s' = event_log s @ (if pending_immediate s q = [] \<and> tq_should_schedule_work (task_queues s q) then [ScheduleWork] else [])"

lemma immediate_received:
  assumes "sched_inv s reg" "tq_work_queues (task_queues s q)" "pt_callback task \<noteq> None"
  shows "\<exists>s'. PostImmediateTaskImpl q task s = Some s' \<and> received q s s'"
proof -
  have "enqueue_order_set_to (Task task run_time (order_counter s) (order_counter s) kLow) = order_counter s" for run_time by (simp add: Task_def)
  then show ?thesis using PostImmediateTaskImpl_ok [OF assms] unfolding received_def step_on_def by (metis order_refl)
qed

lemma cross_post:
  assumes inv: "sched_inv s reg" and wq: "tq_work_queues (task_queues s q)" and cb: "pt_callback task \<noteq> None"
    and d: "0 \<le> pt_delay task" "pt_delay task \<le> limit_max int64_t"
  shows "\<exists>s'. PostTask q task kNotMainThread s = Some s' \<and> received q s s'"
proof -
  let ?d = "adjusted_delay q (pt_delay task) kNotMainThread s"
  let ?task = "task\<lparr>pt_delay := ?d\<rparr>"
  note a = MaybeAdjustTaskDelay_ok [OF inv wq d, of kNotMainThread]
  show ?thesis
  proof (cases "?d = 0")
    case True
    have "pt_callback (of_client ?task) \<noteq> None" using cb by (simp add: of_client_def)
    from immediate_received [OF inv wq this] show ?thesis using True a(1) by (auto simp: PostTask_def td_is_zero_def)
  next
    case False
    obtain dm where dm: "tq_any_time_domain (task_queues s q) = Some dm" using liveD(1) [OF sched_invD(5) [OF inv wq]] by (auto simp: domain_ok_def)
    have now: "0 \<le> td_now (time_domains s dm)" "td_now (time_domains s dm) \<le> limit_max int64_t"
      using sched_invD(2) [OF inv] by (simp_all add: env_ok_def)
    obtain t where t: "time_plus Clang (td_now (time_domains s dm)) ?d = Some t" using delay_ok [OF now a(2,3)] by (simp add: time_plus_def)
    let ?s = "s\<lparr>order_counter := order_counter s + 1\<rparr>"
    let ?p = "\<lparr>pt_callback = Some (ScheduleDelayedWorkTask (Task ?task t (order_counter s) 0 kLow)), pt_delay = 0, pt_nestable = False\<rparr>"
    have "sched_inv ?s reg" using sched_inv_counter [OF inv] by simp
    from immediate_received [OF this, of q ?p] wq obtain s' where s': "PostImmediateTaskImpl q ?p ?s = Some s'" "received q ?s s'" by auto
    have "PostTask q task kNotMainThread s = Some s'"
      using cb False a t dm s'(1)
      by (simp add: PostTask_def td_is_zero_def PostDelayedTaskImpl_def GetNextSequenceNumber_def PushOntoDelayedIncomingQueue_def enqueue_order_none_def Let_def)
    moreover have "received q s s'"
      using s'(2) others_trans [OF others_simps(3) [of s "order_counter s + 1" q]]
      by (auto simp: received_def pending_immediate_def tasks_of_def)
    ultimately show ?thesis by blast
  qed
qed

lemma post_rests:
  assumes m: "sm_inv m" and ok: "call_ok (Post_Task q task kNotMainThread) m"
  shows "\<exists>r m'. run_call (Post_Task q task kNotMainThread) m = Some (r, m') \<and> rests (count_list (new_events m m') ScheduleWork \<noteq> 0) m m'"
proof (cases "tq_unregistered (task_queues (sched m) q)")
  case True
  then show ?thesis using m by (simp add: GuardedTaskPoster_PostTask_def rests_def frame_def)
next
  case False
  obtain reg where inv: "sched_inv (sched m) reg" by (rule sched_okE [OF sm_invD(1) [OF m]])
  have wq: "tq_work_queues (task_queues (sched m) q)" using False sched_invD(4) [OF inv, of q] by (auto simp: queue_inv_def gone_def live_def domain_ok_def)
  note l = sched_invD(5) [OF inv wq]
  from cross_post [OF inv wq] ok obtain s' where s': "PostTask q task kNotMainThread (sched m) = Some s'" "received q (sched m) s'" by auto
  from post_call [OF m, of task q kNotMainThread] ok obtain r m' where
    m': "run_call (Post_Task q task kNotMainThread) m = Some (r, m')" "good_call (Post_Task q task kNotMainThread) m r m'" by auto
  have e: "m' = m\<lparr>sched := s'\<rparr>" using m'(1) s'(1) False by (simp add: GuardedTaskPoster_PostTask_def)
  from s'(2) obtain t where t: "order_counter (sched m) \<le> enqueue_order_set_to t" "tasks_of s' q = (pending_immediate (sched m) q @ [t], snd (tasks_of (sched m) q))"
    and oth: "others q (sched m) s'" and gate: "same_gate (task_queues (sched m) q) (task_queues s' q)"
    and ev: "event_log s' = event_log (sched m) @ (if pending_immediate (sched m) q = [] \<and> tq_should_schedule_work (task_queues (sched m) q) then [ScheduleWork] else [])"
    by (auto simp: received_def)
  have gates: "same_gate (task_queues (sched m) p) (task_queues s' p)" for p
    using gate oth by (cases "p = q") (auto simp: others_def same_impl_def same_gate_def)
  have del: "delayed_tasks s' p = delayed_tasks (sched m) p" for p
    using t(2) others_tasks(2) [OF oth, of p] by (cases "p = q") (auto simp: tasks_of_eq)
  have work: "work_tasks s' p ty = work_tasks (sched m) p ty @ (if p = q \<and> ty = kImmediate then [t] else [])" for p ty
    using t(2) others_tasks(1) [OF oth, of p ty] by (cases "p = q"; cases ty) (auto simp: tasks_of_eq work_tasks_def)
  have quiet: "work_blocked m'" if n: "count_list (new_events m m') ScheduleWork = 0" and b: "work_blocked m"
  proof -
    let ?i = "task_queues (sched m) q"
    have "tq_current_fence ?i \<noteq> 0" if en: "tq_is_enabled ?i"
    proof
      assume f: "tq_current_fence ?i = 0"
      then have "tq_should_schedule_work ?i" using liveD(3) [OF l] en by (simp add: mirror_ok_def)
      then have "pending_immediate (sched m) q \<noteq> []" using n ev e by (auto simp: new_events_def)
      then obtain u where "u \<in> set (work_tasks (sched m) q kImmediate)" by (cases "pending_immediate (sched m) q") (auto simp: work_tasks_def)
      then show False using b en f queues_okD(2) [OF sm_invD(4) [OF m], of q] wq by (auto simp: work_blocked_def Let_def)
    qed
    moreover have "tq_current_fence ?i \<le> enqueue_order_set_to t" using liveD(4) [OF l] t(1) by (simp add: fence_ok_def)
    ultimately show ?thesis using b gates by (auto simp: work_blocked_def e Let_def work same_gate_def split: if_splits)
  qed
  have "controller_now m' = controller_now m" using oth by (simp add: controller_now_def e others_def)
  then have "rests (count_list (new_events m m') ScheduleWork \<noteq> 0) m m'"
    using m'(2) quiet gates del by (auto simp: rests_def good_call_def e wake_bound_def same_gate_def)
  then show ?thesis using m'(1) by blast
qed

text \<open>Reclaiming memory only takes tasks away.\<close>

definition eases :: "scheduler \<Rightarrow> scheduler \<Rightarrow> bool" where
  "eases s s' \<longleftrightarrow>
     (\<forall>p. same_gate (task_queues s p) (task_queues s' p) \<and> set (delayed_tasks s' p) \<subseteq> set (delayed_tasks s p)
        \<and> (\<forall>ty. set (work_tasks s' p ty) \<subseteq> set (work_tasks s p ty)))"

lemma eases_refl: "eases s s"
  by (simp add: eases_def)

lemma eases_trans: "eases s t \<Longrightarrow> eases t u \<Longrightarrow> eases s u"
  unfolding eases_def same_gate_def by (metis subset_trans)

lemma easesI:
  assumes "others q s s'" "same_gate (task_queues s q) (task_queues s' q)" "set (delayed_tasks s' q) \<subseteq> set (delayed_tasks s q)"
    "\<And>ty. set (work_tasks s' q ty) \<subseteq> set (work_tasks s q ty)"
  shows "eases s s'"
  unfolding eases_def
proof
  fix p
  have "same_gate (task_queues s p) (task_queues s' p)" if "p \<noteq> q" using assms(1) that by (auto simp: others_def same_impl_def same_gate_def)
  then show "same_gate (task_queues s p) (task_queues s' p) \<and> set (delayed_tasks s' p) \<subseteq> set (delayed_tasks s p)
      \<and> (\<forall>ty. set (work_tasks s' p ty) \<subseteq> set (work_tasks s p ty))"
    using others_tasks [OF assms(1), of p] assms(2-4) by (cases "p = q") auto
qed

lemma drop_eases:
  assumes "sched_inv s reg" "RemoveAllCanceledTasksFromFront (q, ty) s = Some (b, s')"
  shows "eases s s'"
proof (cases "wq_sets (queues s (q, ty)) = None")
  case True
  then show ?thesis using assms(2) by (simp add: RemoveAllCanceledTasksFromFront_def eases_refl)
next
  case False
  let ?ts = "dropWhile (dropped (is_cancelled s)) (wq_tasks (queues s (q, ty)))"
  have s': "calm_on q s s'" "tasks_of s' q = tasks_left s q ty ?ts"
    using RemoveAllCanceledTasksFromFront_ok [OF assms(1) False] assms(2) by auto
  have suf: "suffix ?ts (wq_tasks (queues s (q, ty)))" by (rule suffix_dropWhile)
  show ?thesis
    by (rule easesI [OF step_onD [OF calm_onD [OF s'(1)]]]) (use s'(1) left_tasks(2,3) [OF s'(2) suf] in \<open>simp_all add: calm_on_def\<close>)
qed

lemma reclaim_eases:
  assumes "sched_inv s reg" "tq_work_queues (task_queues s q)" "ReclaimMemory q now s = Some s'"
  shows "eases s s'"
proof -
  have s': "step_on q s s'" "same_gate (task_queues s q) (task_queues s' q)" "work_tasks s' q kImmediate = work_tasks s q kImmediate"
    "work_tasks s' q kDelayed = work_tasks s q kDelayed"
    "mset (delayed_tasks s' q) = filter_mset (\<lambda>t. \<not> dropped (is_cancelled s) t) (mset (delayed_tasks s q))"
    using ReclaimMemory_ok [OF assms(1,2), of now] assms(3) by (auto simp: tasks_of_eq)
  have "set (delayed_tasks s' q) \<subseteq> set (delayed_tasks s q)" using s'(5) by (metis multiset_filter_subset set_mset_mono set_mset_mset)
  moreover have "set (work_tasks s' q ty) \<subseteq> set (work_tasks s q ty)" for ty using s'(3,4) by (cases ty) simp_all
  ultimately show ?thesis using easesI [OF step_onD [OF s'(1)] s'(2)] by blast
qed

lemma reclaim_queue_eases:
  assumes ok: "sched_ok s" "tasks_ok s" and wq: "tq_work_queues (task_queues s q)" and run: "ReclaimMemoryFromQueue q s = Some s'"
  shows "eases s s'"
proof -
  obtain reg where inv: "sched_inv s reg" by (rule sched_okE [OF ok(1)])
  from run obtain d t u b c where d: "ReclaimMemory q (td_now (time_domains s d)) s = Some t"
    "RemoveAllCanceledTasksFromFront (q, kDelayed) t = Some (b, u)" "RemoveAllCanceledTasksFromFront (q, kImmediate) u = Some (c, s')"
    by (auto simp: ReclaimMemoryFromQueue_def RemoveAllCanceledTasks_both_def bind_eq_Some_conv)
  have k: "sched_ok t \<and> keeps s t" using ReclaimMemory_keeps [OF inv ok(2) wq, of "td_now (time_domains s d)"] d(1) by auto
  then have t: "sched_ok t" "tasks_ok t" using runsD(2) keepsD(1) by blast+
  obtain reg' where inv': "sched_inv t reg'" by (rule sched_okE [OF t(1)])
  have "sched_inv u reg'" using drop_any [OF inv' t(2), of q kDelayed] d(2) by auto
  then show ?thesis using reclaim_eases [OF inv wq d(1)] drop_eases [OF inv' d(2)] drop_eases d(3) eases_trans by blast
qed

lemma each_reclaim_eases:
  assumes "sched_ok s" "tasks_ok s" "\<forall>q \<in> set qs. tq_work_queues (task_queues s q)" "each_queue ReclaimMemoryFromQueue qs s = Some s'"
  shows "eases s s'"
  using assms
proof (induction qs arbitrary: s)
  case Nil
  then show ?case by (simp add: eases_refl)
next
  case (Cons q qs)
  from Cons.prems(4) obtain t where t: "ReclaimMemoryFromQueue q s = Some t" "each_queue ReclaimMemoryFromQueue qs t = Some s'"
    by (auto simp: bind_eq_Some_conv)
  have k: "keeps s t" using ReclaimMemoryFromQueue_ok [OF Cons.prems(1,2)] Cons.prems(3) t(1) by fastforce
  note r = runsD [OF keepsD(1) [OF k]]
  have "eases t s'" using Cons.IH [OF r(1,2)] r(4) Cons.prems(3) t(2) by simp
  then show ?case using reclaim_queue_eases [OF Cons.prems(1,2) _ t(1)] Cons.prems(3) eases_trans by simp
qed

lemma eases_rests:
  assumes "eases (sched m) (sched m')" "active_queues m' = active_queues m"
  shows "work_blocked m \<Longrightarrow> work_blocked m'" "wake_bound t m \<Longrightarrow> wake_bound t m'"
  using assms unfolding eases_def work_blocked_def wake_bound_def same_gate_def Let_def by (metis subsetD)+

lemma Reclaim_rests:
  assumes m: "sm_inv m"
  shows "\<exists>m'. MaybeReclaimMemory m = Some m' \<and> rests False m m'"
proof -
  from MaybeReclaimMemory_ok [OF m] obtain m' where m': "MaybeReclaimMemory m = Some m'" "housekept m m'" by blast
  note f = Reclaim_frame [OF m'(1)]
  show ?thesis
  proof (cases "memory_reclaim_scheduled m")
    case False
    then show ?thesis using m by (auto simp: MaybeReclaimMemory_def rests_def)
  next
    case True
    with m'(1) obtain t u where t: "each_queue ReclaimMemoryFromQueue (active_queues m) (sched m) = Some t"
      "each_queue ReclaimMemoryFromQueue (queues_to_gracefully_shutdown m) t = Some u" "sched m' = u" "active_queues m' = active_queues m"
      by (auto simp: MaybeReclaimMemory_def sm_ReclaimMemory_def bind_eq_Some_conv)
    have live: "\<forall>q \<in> set (active_queues m). tq_work_queues (task_queues (sched m) q)" using active_live [OF m order_refl] .
    from each_queue_ok [OF keepers(2) sm_invD(1,2) [OF m] live] t(1) have k: "keeps (sched m) t" by auto
    note r = runsD [OF keepsD(1) [OF k]]
    have live': "\<forall>q \<in> set (queues_to_gracefully_shutdown m). tq_work_queues (task_queues t q)"
      using active_live [OF m queues_okD(6) [OF sm_invD(4) [OF m]]] r(4) by simp
    from each_queue_ok [OF keepers(2) r(1,2) live'] t(2) have k': "keeps t u" by auto
    have e: "eases (sched m) (sched m')"
      using each_reclaim_eases [OF sm_invD(1,2) [OF m] live t(1)] each_reclaim_eases [OF r(1,2) live' t(2)] t(3) eases_trans by simp
    have "controller_now m' = controller_now m"
      using r(6) runsD(6) [OF keepsD(1) [OF k']] t(3) f by (simp add: controller_now_def frame_def)
    then show ?thesis using m' f eases_rests [OF e t(4)] by (auto simp: rests_def housekept_def)
  qed
qed

lemma tick_rests:
  assumes m: "sm_inv m" and ok: "call_ok (Advance_Clock (real_time_domain m) t) m"
  shows "\<exists>m'. run_call (Advance_Clock (real_time_domain m) t) m = Some (Silent, m') \<and> rests False m m'"
proof -
  obtain reg where "sched_inv (sched m) reg" by (rule sched_okE [OF sm_invD(1) [OF m]])
  then have "0 \<le> controller_now m" using sched_invD(2) by (auto simp: env_ok_def controller_now_def)
  then have "time_ok t" using ok by (simp add: time_ok_def controller_now_def)
  from clock_ok [OF m this, of "real_time_domain m"] show ?thesis
    using ok by (auto simp: on_sched_def at_time_def [symmetric] rests_def housekept_def controller_now_def work_blocked_def wake_bound_def same_tasks_fields frame_def)
qed

lemma cancel_rests:
  assumes "sm_inv m"
  shows "\<exists>m'. run_call (Cancel n) m = Some (Silent, m') \<and> rests False m m'"
  using cancel_ok [OF assms, of "(is_cancelled (sched m))(n := True)" n]
  by (auto simp: on_sched_def rests_def good_call_def controller_now_def work_blocked_def wake_bound_def same_tasks_fields frame_def)

end
