(* ===== verification/Message_Loop_Runs.thy ===== *)
theory Message_Loop_Runs
  imports Message_Loop
begin

text \<open>
  The invariant of the loop of a thread, which every action keeps, and what it gives: no check fails on the way, and a thread that
  waits has nothing to do.
\<close>

section \<open>The invariant\<close>

definition in_work :: "place \<Rightarrow> bool" where
  "in_work p = (case p of Selecting _ \<Rightarrow> True | Running _ \<Rightarrow> True | Leaving \<Rightarrow> True | Checking \<Rightarrow> True | Returning _ _ \<Rightarrow> True | _ \<Rightarrow> False)"

text \<open>
  Work for the thread has been announced or is about to be, or there is none that may run; and delayed tasks do not run before \<open>t\<close>.
\<close>

definition covered :: "int \<Rightarrow> message_loop \<Rightarrow> bool" where
  "covered t Y \<longleftrightarrow> (event_signaled (pump Y) \<or> in_flight Y \<noteq> 0 \<or> work_blocked (manager Y)) \<and> wake_bound t (manager Y)"

definition info_ok :: "int \<Rightarrow> int \<Rightarrow> message_loop \<Rightarrow> bool" where
  "info_ok t n Y \<longleftrightarrow> 0 < t \<and> t \<le> ticks_max \<and> 0 \<le> n \<and> n \<le> t \<and> n \<le> loop_now Y"

definition overdue :: "message_loop \<Rightarrow> bool" where
  "overdue Y \<longleftrightarrow> quit_runloop_after (controller Y) \<noteq> ticks_max \<and> quit_runloop_after (controller Y) \<le> loop_now Y"

fun place_ok :: "place \<Rightarrow> message_loop \<Rightarrow> bool" where
  "place_ok (Running _) Y \<longleftrightarrow> task_execution_stack (manager Y) \<noteq> []"
| "place_ok (Returning l x) Y \<longleftrightarrow>
     0 \<le> l \<and> l \<le> loop_now Y \<and> 0 \<le> x \<and> x \<le> td_Max
     \<and> (quit_pending (controller Y) \<or> x = 0
        \<or> (requested (dedup (controller Y)) \<or> in_flight Y \<noteq> 0 \<or> work_blocked (manager Y)) \<and> wake_bound (l + x) (manager Y))"
| "place_ok (Did_Work t n) Y \<longleftrightarrow>
     \<not> quit_pending (controller Y) \<and> info_ok t n Y \<and> (requested (dedup (controller Y)) \<longrightarrow> event_signaled (pump Y))
     \<and> (overdue Y \<or> covered t Y)"
| "place_ok (Waiting t n since) Y \<longleftrightarrow>
     info_ok t n Y \<and> n \<le> since \<and> since \<le> loop_now Y \<and> (requested (dedup (controller Y)) \<longrightarrow> event_signaled (pump Y)) \<and> covered t Y"
| "place_ok _ Y \<longleftrightarrow> True"

definition controller_ok :: "message_loop \<Rightarrow> bool" where
  "controller_ok Y \<longleftrightarrow>
     pump_calls (controller Y) = [] \<and> time_ok (quit_runloop_after (controller Y)) \<and> time_ok (fst (outer_run Y)) \<and> \<not> snd (outer_run Y)
     \<and> (task_execution_allowed (controller Y) \<longleftrightarrow> (\<forall>i. place Y \<noteq> Running i))
     \<and> (if in_work (place Y) then working_word (dedup (controller Y)) else idle_word (dedup (controller Y)))
     \<and> (place Y \<noteq> Outside \<and> quit_pending (controller Y) \<longrightarrow> \<not> keep_running (pump Y))"

definition manager_ok :: "sequence_manager \<Rightarrow> bool" where
  "manager_ok m \<longleftrightarrow> sm_inv m \<and> registered_time_domains m = [real_time_domain m] \<and> pending_native_work m = [kBestEffortPriority]"

definition loop_inv :: "message_loop \<Rightarrow> bool" where
  "loop_inv Y \<longleftrightarrow> manager_ok (manager Y) \<and> controller_ok Y \<and> place_ok (place Y) Y"

lemma loop_invD:
  assumes "loop_inv Y"
  shows "manager_ok (manager Y)" "sm_inv (manager Y)" "controller_ok Y" "place_ok (place Y) Y" "pump_calls (controller Y) = []"
    "idle_word (dedup (controller Y)) \<or> working_word (dedup (controller Y))" "time_ok (loop_now Y)"
proof -
  show i: "manager_ok (manager Y)" "sm_inv (manager Y)" "controller_ok Y" "place_ok (place Y) Y" "pump_calls (controller Y) = []"
    "idle_word (dedup (controller Y)) \<or> working_word (dedup (controller Y))"
    using assms by (auto simp: loop_inv_def manager_ok_def controller_ok_def split: if_splits)
  obtain reg where "sched_inv (sched (manager Y)) reg" by (rule sched_okE [OF sm_invD(1) [OF i(2)]])
  then show "time_ok (loop_now Y)" using sched_invD(2) by (auto simp: env_ok_def time_ok_def loop_now_def controller_now_def)
qed

lemma manager_ok_frame: "manager_ok m \<Longrightarrow> sm_inv m' \<Longrightarrow> frame m' = frame m \<Longrightarrow> manager_ok m'"
  by (simp add: manager_ok_def frame_def)

lemma controller_ok_delivered: "controller_ok Y \<Longrightarrow> delivered Y Y' \<Longrightarrow> controller_ok Y'"
  by (auto simp: controller_ok_def delivered_def settings_def split: if_splits)

section \<open>Actions of other threads\<close>

definition later :: "message_loop \<Rightarrow> message_loop \<Rightarrow> bool" where
  "later Y Y' \<longleftrightarrow>
     rests (in_flight Y' \<noteq> 0) (manager Y) (manager Y') \<and> delivered Y Y'
     \<and> (in_flight Y \<noteq> 0 \<longrightarrow> in_flight Y' \<noteq> 0 \<or> requested (dedup (controller Y')))"

lemma laterD:
  assumes "later Y Y'"
  shows "settings (controller Y') = settings (controller Y)" "loop_now Y \<le> loop_now Y'" "task_execution_stack (manager Y') = task_execution_stack (manager Y)"
    "requested (dedup (controller Y)) \<Longrightarrow> requested (dedup (controller Y'))" "event_signaled (pump Y) \<Longrightarrow> event_signaled (pump Y')"
    "idle_word (dedup (controller Y)) \<Longrightarrow> requested (dedup (controller Y')) \<Longrightarrow> requested (dedup (controller Y)) \<or> event_signaled (pump Y')"
    "in_flight Y \<noteq> 0 \<Longrightarrow> in_flight Y' \<noteq> 0 \<or> requested (dedup (controller Y'))"
    "work_blocked (manager Y) \<Longrightarrow> in_flight Y' \<noteq> 0 \<or> work_blocked (manager Y')" "wake_bound t (manager Y) \<Longrightarrow> wake_bound t (manager Y')"
  using assms unfolding later_def rests_def delivered_def loop_now_def by blast+

lemma place_ok_later:
  assumes "loop_inv Y" "later Y Y'"
  shows "place_ok (place Y) Y'"
proof -
  note d = laterD [OF assms(2)]
  have idle: "idle_word (dedup (controller Y))" if "\<not> in_work (place Y)" using assms(1) that by (simp add: loop_inv_def controller_ok_def)
  have ok: "place_ok (place Y) Y" using assms(1) by (simp add: loop_inv_def)
  have quit: "quit_pending (controller Y') = quit_pending (controller Y)" "overdue Y \<Longrightarrow> overdue Y'"
    using d(1,2) by (auto simp: settings_def overdue_def)
  have info: "info_ok t n Y \<Longrightarrow> info_ok t n Y'" for t n using d(2) by (simp add: info_ok_def)
  have cov: "covered t Y'" "requested (dedup (controller Y')) \<longrightarrow> event_signaled (pump Y')"
    if "covered t Y" "\<not> in_work (place Y)" "requested (dedup (controller Y)) \<longrightarrow> event_signaled (pump Y)" for t
    using that idle d(4-9) unfolding covered_def by blast+
  show ?thesis
  proof (cases "place Y")
    case (Returning l x)
    then have "0 \<le> l \<and> l \<le> loop_now Y \<and> 0 \<le> x \<and> x \<le> td_Max" "quit_pending (controller Y) \<or> x = 0
        \<or> (requested (dedup (controller Y)) \<or> in_flight Y \<noteq> 0 \<or> work_blocked (manager Y)) \<and> wake_bound (l + x) (manager Y)" using ok by simp_all
    then have "0 \<le> l \<and> l \<le> loop_now Y' \<and> 0 \<le> x \<and> x \<le> td_Max" "quit_pending (controller Y') \<or> x = 0
        \<or> (requested (dedup (controller Y')) \<or> in_flight Y' \<noteq> 0 \<or> work_blocked (manager Y')) \<and> wake_bound (l + x) (manager Y')"
      using d(2) quit(1) d(4,7-9) order_trans by blast+
    then show ?thesis using Returning by simp
  next
    case (Did_Work t n)
    then have "\<not> in_work (place Y)" by (simp add: in_work_def)
    moreover have "requested (dedup (controller Y')) \<longrightarrow> event_signaled (pump Y')" using ok Did_Work idle [OF calculation] d(4-6) by auto
    ultimately show ?thesis using ok Did_Work quit info cov(1) by auto
  next
    case (Waiting t n since)
    then have "\<not> in_work (place Y)" by (simp add: in_work_def)
    then show ?thesis using ok Waiting info cov d(2) by auto
  qed (use ok d(3) in simp_all)
qed

lemma loop_inv_later:
  assumes "loop_inv Y" "later Y Y'"
  shows "loop_inv Y'"
proof -
  have "place Y' = place Y" using assms(2) by (simp add: later_def delivered_def)
  then show ?thesis
    using place_ok_later [OF assms] loop_invD(1,3) [OF assms(1)] controller_ok_delivered manager_ok_frame assms(2)
    by (auto simp: loop_inv_def later_def rests_def)
qed

lemma post_ok_later:
  assumes Y: "loop_inv Y" and ok: "action_ok (Post q task) Y"
  shows "\<exists>Y'. act (Post q task) Y = Some Y' \<and> loop_inv Y'"
proof -
  from post_rests [OF loop_invD(2) [OF Y], of q task] ok obtain r m' where
    m': "run_call (Post_Task q task kNotMainThread) (manager Y) = Some (r, m')"
      "rests (count_list (new_events (manager Y) m') ScheduleWork \<noteq> 0) (manager Y) m'" by auto
  let ?Y = "Y\<lparr>manager := m', in_flight := in_flight Y + count_list (new_events (manager Y) m') ScheduleWork\<rparr>"
  have "later Y ?Y" using m'(2) loop_invD(5) [OF Y] by (auto simp: later_def delivered_def rests_def)
  then have "loop_inv ?Y" using loop_inv_later [OF Y] by blast
  then show ?thesis using m'(1) by simp
qed

lemma notify_ok:
  assumes Y: "loop_inv Y" and ok: "action_ok Notify Y"
  shows "\<exists>Y'. act Notify Y = Some Y' \<and> loop_inv Y'"
proof -
  let ?Z = "Y\<lparr>in_flight := in_flight Y - 1\<rparr>" and ?c = "tc_ScheduleWork (controller Y)"
  note s = schedule_handled [OF loop_invD(6) [OF Y]]
  have w: "delivered ?Z (with_controller ?c ?Z)" "manager (with_controller ?c ?Z) = manager Y" "dedup (controller (with_controller ?c ?Z)) = dedup ?c"
    using with_handled [of ?Z ?c] s(1) loop_invD(5) [OF Y] by simp_all
  have "later Y (with_controller ?c ?Z)"
    using w s(2) loop_invD(2) [OF Y] by (simp add: later_def rests_def delivered_def)
  then show ?thesis using loop_inv_later [OF Y] ok by simp
qed

lemma rests_later:
  assumes Y: "loop_inv Y" and m: "rests False (manager Y) m"
  shows "\<exists>Y'. with_manager m Y = Some Y' \<and> later Y Y'"
proof -
  have "sm_inv m" using m by (simp add: rests_def)
  from with_manager_ok [OF this loop_invD(6,5) [OF Y]] obtain Y' where
    Y': "with_manager m Y = Some Y'" "delivered Y Y'" "manager Y' = m" "in_flight Y' = in_flight Y" by blast
  then show ?thesis using m by (auto simp: later_def rests_def)
qed

lemma tick_ok:
  assumes Y: "loop_inv Y" and ok: "action_ok (Tick t) Y"
  shows "\<exists>Y'. act (Tick t) Y = Some Y' \<and> loop_inv Y'"
proof -
  from tick_rests [OF loop_invD(2) [OF Y], of t] ok obtain m' where
    "run_call (Advance_Clock (real_time_domain (manager Y)) t) (manager Y) = Some (Silent, m')" "rests False (manager Y) m'" by auto
  then show ?thesis using rests_later [OF Y, of m'] loop_inv_later [OF Y] by (auto simp: make_call_def simp del: run_call.simps)
qed

lemma cancel_job_ok:
  assumes Y: "loop_inv Y"
  shows "\<exists>Y'. act (Cancel_Job n) Y = Some Y' \<and> loop_inv Y'"
proof -
  from cancel_rests [OF loop_invD(2) [OF Y], of n] obtain m' where
    "run_call (Cancel n) (manager Y) = Some (Silent, m')" "rests False (manager Y) m'" by blast
  then show ?thesis using rests_later [OF Y, of m'] loop_inv_later [OF Y] by (auto simp: make_call_def simp del: run_call.simps)
qed

section \<open>Actions of the main thread\<close>

text \<open>A call in a task or outside of the loop.\<close>

lemma make_call_ok:
  assumes Y: "manager_ok (manager Y)" "controller_ok Y" and c: "call_ok c (manager Y)"
    and f: "\<And>r m'. run_call c (manager Y) = Some (r, m') \<Longrightarrow> frame m' = frame (manager Y)"
  shows "\<exists>r m' Y'. run_call c (manager Y) = Some (r, m') \<and> make_call c Y = Some Y' \<and> manager Y' = m' \<and> manager_ok m' \<and> controller_ok Y' \<and> delivered Y Y'"
proof -
  have sm: "sm_inv (manager Y)" using Y(1) by (simp add: manager_ok_def)
  from call_good [OF sm c] obtain r m' where m': "run_call c (manager Y) = Some (r, m')" "sm_inv m'" by (auto simp: returns_def good_call_def)
  have w: "idle_word (dedup (controller Y)) \<or> working_word (dedup (controller Y))" "pump_calls (controller Y) = []"
    using Y(2) by (auto simp: controller_ok_def split: if_splits)
  from with_manager_ok [OF m'(2) w] obtain Y' where Y': "with_manager m' Y = Some Y'" "delivered Y Y'" "manager Y' = m'" by blast
  then show ?thesis
    using m' manager_ok_frame [OF Y(1) m'(2) f [OF m'(1)]] controller_ok_delivered [OF Y(2) Y'(2)] by (auto simp: make_call_def)
qed

lemma main_call_ok:
  assumes Y: "loop_inv Y" and ok: "action_ok (Main_Call c) Y"
  shows "\<exists>Y'. act (Main_Call c) Y = Some Y' \<and> loop_inv Y'"
proof -
  note i = loop_invD [OF Y]
  from make_call_ok [OF i(1,3), of c] ok main_call_frame(1) obtain r m' Y' where
    Y': "run_call c (manager Y) = Some (r, m')" "make_call c Y = Some Y'" "manager Y' = m'" "manager_ok m'" "controller_ok Y'" "delivered Y Y'" by auto
  have "place Y' = place Y" using Y'(6) by (simp add: delivered_def)
  moreover have "place_ok (place Y) Y'"
    using ok i(4) Y'(3) main_call_frame(2) [OF Y'(1)] by (cases "place Y") (auto simp: main_place_def)
  ultimately show ?thesis using Y' by (auto simp: loop_inv_def)
qed

lemma quit_ok:
  assumes Y: "loop_inv Y" and ok: "action_ok Quit_Loop Y"
  shows "\<exists>Y'. act Quit_Loop Y = Some Y' \<and> loop_inv Y'"
proof -
  note i = loop_invD [OF Y]
  let ?Y = "with_controller (tc_Quit (controller Y)) Y"
  have p: "place ?Y = place Y" "manager ?Y = manager Y" by (simp_all add: with_controller_def serve_pump_def)
  have "controller_ok ?Y"
    using i(3) by (auto simp: controller_ok_def with_controller_def serve_pump_def tc_Quit_def call_pump_def pump_serve_def pump_Quit_def)
  moreover have "place_ok (place Y) ?Y" using ok i(4) p by (cases "place Y") (auto simp: main_place_def)
  ultimately show ?thesis using i(1) p by (auto simp: loop_inv_def)
qed

lemma batch_ok:
  assumes Y: "loop_inv Y" and ok: "action_ok (Batch_Size n) Y"
  shows "\<exists>Y'. act (Batch_Size n) Y = Some Y' \<and> loop_inv Y'"
proof -
  note i = loop_invD [OF Y]
  let ?Y = "Y\<lparr>controller := (controller Y)\<lparr>work_batch_size := n\<rparr>\<rparr>"
  have "controller_ok ?Y" using i(3) by (auto simp: controller_ok_def)
  moreover have "place_ok (place Y) ?Y" using ok i(4) by (cases "place Y") (auto simp: main_place_def)
  ultimately show ?thesis using i(1) ok by (auto simp: loop_inv_def SetWorkBatchSize_def)
qed

section \<open>The work of the loop\<close>

lemma run_loop_ok:
  assumes Y: "loop_inv Y" and ok: "action_ok (Run_Loop b timeout) Y"
  shows "\<exists>Y'. act (Run_Loop b timeout) Y = Some Y' \<and> loop_inv Y'"
proof -
  note i = loop_invD [OF Y]
  have c: "task_execution_allowed (controller Y)" "time_ok (quit_runloop_after (controller Y))" "idle_word (dedup (controller Y))" "pump_calls (controller Y) = []"
    using i(3) ok by (auto simp: controller_ok_def in_work_def)
  have "\<exists>t. (if timeout = td_Max then Some ticks_max else time_plus Clang (loop_now Y) timeout) = Some t \<and> time_ok t"
    using delay_ok [of "loop_now Y" timeout] i(7) ok by (auto simp: time_plus_def time_ok_def td_Max_def int64_limits)
  then obtain t where t: "(if timeout = td_Max then Some ticks_max else time_plus Clang (loop_now Y) timeout) = Some t" "time_ok t" by blast
  let ?c = "(controller Y)\<lparr>quit_runloop_after := t, quit_pending := False, runloop_count := runloop_count (controller Y) + 1\<rparr>"
  let ?Y = "pump_Run_begin (Y\<lparr>controller := ?c, outer_run := (quit_runloop_after (controller Y), False)\<rparr>)"
  have "act (Run_Loop b timeout) Y = Some ?Y" using t(1) c(1) ok by (simp add: tc_Run_begin_def Let_def)
  moreover have "loop_inv ?Y"
    using i(1) c t(2) by (simp add: loop_inv_def controller_ok_def pump_Run_begin_def in_work_def)
  ultimately show ?thesis by blast
qed

lemma begin_work_ok:
  assumes Y: "loop_inv Y" and ok: "action_ok Begin_Work Y"
  shows "\<exists>Y'. act Begin_Work Y = Some Y' \<and> loop_inv Y'"
proof -
  note i = loop_invD [OF Y]
  from work_started(1) [OF i(6)] obtain d where d: "OnWorkStarted (dedup (controller Y)) = Some d" "working_word d" by blast
  let ?Y = "Y\<lparr>controller := (controller Y)\<lparr>dedup := d\<rparr>, place := Selecting 0\<rparr>"
  have "act Begin_Work Y = Some ?Y" using d(1) ok i(3) by (simp add: DoSomeWork_begin_def DoWorkImpl_begin_def controller_ok_def)
  moreover have "loop_inv ?Y" using i(1,3) d(2) ok by (auto simp: loop_inv_def controller_ok_def in_work_def)
  ultimately show ?thesis by blast
qed

lemma StartTask_ok:
  assumes m: "sm_inv m" and ok: "call_ok (Start_Task order) m"
  shows "\<exists>r m'. StartTask order m = Some (r, m') \<and> sm_inv m' \<and> (r \<noteq> None \<longrightarrow> task_execution_stack m' \<noteq> [])"
proof -
  from call_good [OF m ok] obtain r m' where m': "StartTask order m = Some (r, m')" "sm_inv m'"
    by (auto simp: returns_def good_call_def bind_eq_Some_conv)
  have "visits order m" "selections_left m" using ok by simp_all
  from SelectNextTaskImpl_ok [OF m this(2) visits_all [OF m this(1)]] obtain t m1 where
    m1: "SelectNextTaskImpl order m = Some (t, m1)" "selected m t m1" by blast
  have "task_execution_stack m' \<noteq> []" if some: "r \<noteq> None"
  proof -
    obtain u where u: "t = Some u" "run_task m1 = Some m'" using m'(1) m1(1) some by (cases t) (auto simp: StartTask_def bind_eq_Some_conv)
    have "task_execution_stack m1 \<noteq> []" using m1(2) u(1) by (auto simp: selected_def)
    moreover have "task_execution_stack m' = task_execution_stack m1"
      using u(2) by (cases "the (callback (fst (last (task_execution_stack m1))))") (auto simp: run_task_def bind_eq_Some_conv Let_def split: prod.splits if_splits)
    ultimately show ?thesis by simp
  qed
  then show ?thesis using m' by blast
qed

lemma select_ok_loop:
  assumes Y: "loop_inv Y" and ok: "action_ok (Select_Task order) Y"
  shows "\<exists>Y'. act (Select_Task order) Y = Some Y' \<and> loop_inv Y'"
proof -
  note i = loop_invD [OF Y]
  from ok obtain k where k: "place Y = Selecting k" by (cases "place Y") auto
  show ?thesis
  proof (cases "k < work_batch_size (controller Y)")
    case False
    moreover have "loop_inv (Y\<lparr>place := Leaving\<rparr>)" using i(1,3) k by (auto simp: loop_inv_def controller_ok_def in_work_def)
    ultimately show ?thesis using k by simp
  next
    case True
    from StartTask_ok [OF i(2), of order] ok obtain r m' where
      m': "StartTask order (manager Y) = Some (r, m')" "sm_inv m'" "r \<noteq> None \<longrightarrow> task_execution_stack m' \<noteq> []" by auto
    from with_manager_ok [OF m'(2) i(6,5)] obtain Z where Z: "with_manager m' Y = Some Z" "delivered Y Z" "manager Z = m'" by blast
    let ?Y = "if r = None then Z\<lparr>place := Leaving\<rparr> else Z\<lparr>controller := DoWorkImpl_take (controller Z), place := Running k\<rparr>"
    have "act (Select_Task order) Y = Some ?Y" using k True m'(1) Z(1) by simp
    moreover have "controller_ok Z" "place Z = Selecting k" using controller_ok_delivered [OF i(3) Z(2)] Z(2) k by (simp_all add: delivered_def)
    then have "loop_inv ?Y" using manager_ok_frame [OF i(1) m'(2) StartTask_frame [OF m'(1)]] Z(3) m'(3)
      by (auto simp: loop_inv_def controller_ok_def in_work_def DoWorkImpl_take_def)
    ultimately show ?thesis by blast
  qed
qed

lemma end_task_ok:
  assumes Y: "loop_inv Y" and ok: "action_ok End_Task Y"
  shows "\<exists>Y'. act End_Task Y = Some Y' \<and> loop_inv Y'"
proof -
  note i = loop_invD [OF Y]
  from ok obtain k where k: "place Y = Running k" by (cases "place Y") auto
  let ?Z = "Y\<lparr>controller := DoWorkImpl_ran (controller Y)\<rparr>"
  have st: "task_execution_stack (manager Y) \<noteq> []" using i(4) k by simp
  from call_good [OF i(2), of Did_Run_Task] st obtain m' where m': "DidRunTask (manager Y) = Some m'" "sm_inv m'"
    by (auto simp: returns_def good_call_def silently_def bind_eq_Some_conv)
  have "idle_word (dedup (controller ?Z)) \<or> working_word (dedup (controller ?Z))" "pump_calls (controller ?Z) = []"
    using i(5,6) by (simp_all add: DoWorkImpl_ran_def)
  from with_manager_ok [OF m'(2) this] obtain Y' where
    Y': "with_manager m' ?Z = Some Y'" "delivered ?Z Y'" "manager Y' = m'" by blast
  let ?Y = "Y'\<lparr>place := (if quit_pending (controller Y') then Leaving else Selecting (k + 1))\<rparr>"
  have "act End_Task Y = Some ?Y" using k m'(1) Y'(1) by (simp add: make_call_def silently_def)
  moreover have "controller_ok ?Y"
    using Y'(2) i(3) k by (auto simp: controller_ok_def in_work_def delivered_def DoWorkImpl_ran_def settings_def)
  then have "loop_inv ?Y" using manager_ok_frame [OF i(1) m'(2) DidRunTask_frame [OF m'(1)]] Y'(3) by (simp add: loop_inv_def)
  ultimately show ?thesis by blast
qed

lemma leave_ok:
  assumes Y: "loop_inv Y" and ok: "action_ok Leave_Batch Y"
  shows "\<exists>Y'. act Leave_Batch Y = Some Y' \<and> loop_inv Y'"
proof -
  note i = loop_invD [OF Y]
  have p: "place Y = Leaving" using ok by simp
  show ?thesis
  proof (cases "quit_pending (controller Y)")
    case True
    have "loop_inv (Y\<lparr>place := Returning (loop_now Y) td_Max\<rparr>)"
      using i(1,3,7) p True by (simp add: loop_inv_def controller_ok_def in_work_def time_ok_def td_Max_def int64_limits loop_now_def)
    then show ?thesis using p True by (simp add: DoWorkImpl_check_def)
  next
    case False
    from work_started(2) [OF i(6)] obtain d where d: "WillCheckForMoreWork (dedup (controller Y)) = Some d" "working_word d" by blast
    have "loop_inv (Y\<lparr>controller := (controller Y)\<lparr>dedup := d\<rparr>, place := Checking\<rparr>)"
      using i(1,3) p d(2) by (simp add: loop_inv_def controller_ok_def in_work_def)
    then show ?thesis using p False d(1) by (simp add: DoWorkImpl_check_def)
  qed
qed

text \<open>There is no native work that a ready task would have to wait for.\<close>

lemma no_native:
  assumes "manager_ok m" "sched_inv (sched m) reg" "ready (queues (sched m) w) = Some (sid, p, k)"
  shows "\<not> hd (pending_native_work m) < p"
proof -
  have "p < kQueuePriorityCount" using readyD(2) [OF assms(3)] sched_invD(6) [OF assms(2)] by blast
  then show ?thesis using assms(1) by (simp add: manager_ok_def)
qed

lemma sleep_bound:
  assumes m: "manager_ok m" and s: "may_sleep m x" "x \<noteq> 0"
  shows "work_blocked m" "wake_bound (controller_now m + x) m"
proof -
  obtain reg where inv: "sched_inv (sched m) reg" using m by (meson manager_ok_def sched_okE sm_invD(1))
  show "work_blocked m" using s no_native [OF m inv] by (auto simp: may_sleep_def native_first_def)
  have "tq_time_domain (task_queues (sched m) q) = Some (real_time_domain m)" if "q \<in> set (active_queues m)" for q
    using that m by (auto simp: manager_ok_def sm_inv_def queues_ok_def)
  then have "x \<le> max 0 (delayed_run_time u - controller_now m)"
    if "q \<in> set (active_queues m)" "tq_is_enabled (task_queues (sched m) q)" "u \<in> set (delayed_tasks (sched m) q)" for q u
    using s(1) that unfolding may_sleep_def by blast
  moreover have "0 < x" using s by (auto simp: may_sleep_def)
  ultimately show "wake_bound (controller_now m + x) m" by (fastforce simp: wake_bound_def)
qed

lemma check_delay_ok:
  assumes Y: "loop_inv Y" and ok: "action_ok (Check_Delay order) Y"
  shows "\<exists>Y'. act (Check_Delay order) Y = Some Y' \<and> loop_inv Y'"
proof -
  note i = loop_invD [OF Y]
  have p: "place Y = Checking" and vis: "visits order (manager Y)" using ok by auto
  have "\<forall>s d x. no_delay d (controller_now (manager Y)) s = Some x \<longrightarrow> 0 \<le> x" by (simp add: no_delay_def)
  from DelayTillNextTask_ok [where other = no_delay, OF i(2) this visits_all [OF i(2) vis]] obtain x m' where
    x: "DelayTillNextTask no_delay order (loop_now Y) (manager Y) = Some (x, m')" "housekept (manager Y) m'" "may_sleep m' x"
    unfolding loop_now_def by blast
  have sm: "sm_inv m'" using x(2) by (simp add: housekept_def)
  from with_manager_ok [OF sm i(6,5)] obtain Z where Z: "with_manager m' Y = Some Z" "delivered Y Z" "manager Z = m'" by blast
  let ?Y = "Z\<lparr>place := Returning (loop_now Z) x\<rparr>"
  have mok: "manager_ok m'" using manager_ok_frame [OF i(1) sm DelayTill_frame [OF x(1)]] .
  have x0: "0 \<le> x" "x \<le> td_Max" using x(3) by (auto simp: may_sleep_def)
  have "act (Check_Delay order) Y = Some ?Y" using p x(1) Z(1) x0 by simp
  moreover have "controller_ok ?Y" using controller_ok_delivered [OF i(3) Z(2)] Z(2) p by (auto simp: controller_ok_def delivered_def in_work_def)
  moreover have "place_ok (place ?Y) ?Y"
  proof -
    obtain reg where "sched_inv (sched m') reg" by (rule sched_okE [OF sm_invD(1) [OF sm]])
    then have "0 \<le> loop_now Z" using sched_invD(2) Z(3) by (auto simp: env_ok_def loop_now_def controller_now_def)
    then show ?thesis using x0 sleep_bound [OF mok x(3)] Z(3) by (auto simp: loop_now_def)
  qed
  ultimately show ?thesis using mok Z(3) by (auto simp: loop_inv_def)
qed

text \<open>The NextWorkInfo that DoSomeWork returns.\<close>

lemma wake_bound_mono: "wake_bound t m \<Longrightarrow> t' \<le> t \<Longrightarrow> wake_bound t' m"
  by (auto simp: wake_bound_def intro: order_trans)

lemma work_info:
  assumes w: "working_word (dedup c)" and l: "time_ok l" and x: "0 \<le> x" "x \<le> td_Max" and q: "time_ok (quit_runloop_after c)"
  shows "\<exists>t n c'. DoSomeWork_end l x c = Some ((t, n), c') \<and> settings c' = settings c \<and> pump_calls c' = pump_calls c \<and> idle_word (dedup c')
    \<and> (t = 0 \<or> \<not> requested (dedup c') \<and> \<not> requested (dedup c) \<and> x \<noteq> 0 \<and> 0 < t \<and> t \<le> ticks_max \<and> 0 \<le> n \<and> n \<le> t \<and> n \<le> l
         \<and> (t \<le> l + x \<or> quit_runloop_after c \<noteq> ticks_max \<and> quit_runloop_after c \<le> l))"
proof -
  let ?n = "if td_is_zero x then kIsImmediate else kIsDelayed"
  from work_checked [OF w, of ?n] obtain d where
    d: "DidCheckForMoreWork ?n (dedup c) = Some (if ?n = kIsImmediate \<or> requested (dedup c) then kScheduleImmediate else kNotNeeded, d)"
      "idle_word d" "requested d \<longleftrightarrow> ?n = kIsImmediate \<or> requested (dedup c)" by blast
  show ?thesis
  proof (cases "td_is_zero x \<or> requested (dedup c)")
    case True
    then show ?thesis using d by (auto simp: DoSomeWork_end_def settings_def)
  next
    case False
    then have r: "\<not> requested d" "0 < x" "x \<noteq> 0" using d(3) x by (auto simp: td_is_zero_def)
    have plus: "time_plus Clang l x = Some (min (l + x) ticks_max)" using delay_ok [of l x] l x by (simp add: time_plus_def time_ok_def td_Max_def)
    have lim: "0 \<le> l" "l \<le> ticks_max" "0 < min (l + x) ticks_max" using l r by (auto simp: time_ok_def int64_limits)
    let ?t = "min (l + x) ticks_max" and ?q = "quit_runloop_after c"
    have q': "0 \<le> ?q" "?q \<le> ticks_max" using q by (simp_all add: time_ok_def)
    have e: "DoSomeWork_end l x c = (if x = ticks_max then Some ((ticks_max, 0), c\<lparr>dedup := d, next_delayed_do_work := ticks_max\<rparr>)
        else if ?q < ?t then if ?q \<le> l then Some ((ticks_max, 0), c\<lparr>dedup := d, next_delayed_do_work := ?q\<rparr>)
          else Some ((min ?q (min (l + 86400000000) ticks_max), l), c\<lparr>dedup := d, next_delayed_do_work := ?q\<rparr>)
        else Some ((min ?t (min (l + 86400000000) ticks_max), l), c\<lparr>dedup := d, next_delayed_do_work := ?t\<rparr>))"
      using False d(1) plus CapAtOneDay_ok [OF l] by (simp add: DoSomeWork_end_def td_is_max_def Let_def)
    have b: "l \<le> min v (min (l + 86400000000) ticks_max)" "0 < min v (min (l + 86400000000) ticks_max)" "min v (min (l + 86400000000) ticks_max) \<le> v"
      if "l \<le> v" "0 < v" for v using that lim by (auto simp: int64_limits)
    have rest: ?thesis
      if "DoSomeWork_end l x c = Some ((t, n), c\<lparr>dedup := d, next_delayed_do_work := y\<rparr>)" "0 < t" "t \<le> ticks_max" "0 \<le> n" "n \<le> t" "n \<le> l"
        "t \<le> l + x \<or> ?q \<noteq> ticks_max \<and> ?q \<le> l" for t n y
      using that d(2) r False by (intro exI [of _ t] exI [of _ n] exI [of _ "c\<lparr>dedup := d, next_delayed_do_work := y\<rparr>"]) (simp add: settings_def)
    have lt: "l \<le> ?t" using r lim by simp
    consider "x = ticks_max" | "x \<noteq> ticks_max" "?q < ?t" "?q \<le> l" | "x \<noteq> ticks_max" "?q < ?t" "l < ?q" | "x \<noteq> ticks_max" "\<not> ?q < ?t" by linarith
    then show ?thesis
    proof cases
      case 1
      show ?thesis by (rule rest [of ticks_max 0 ticks_max]) (use 1 e lim in simp_all)
    next
      case 2
      show ?thesis by (rule rest [of ticks_max 0 ?q]) (use 2 e lim q' in simp_all)
    next
      case 3
      have "0 < ?q" using 3 lim by simp
      from b [OF less_imp_le [OF 3(3)] this] show ?thesis
        by (intro rest [of "min ?q (min (l + 86400000000) ticks_max)" l ?q]) (use 3 e lim in \<open>simp_all add: min_le_iff_disj\<close>)
    next
      case 4
      from e have "DoSomeWork_end l x c = Some ((min ?t (min (l + 86400000000) ticks_max), l), c\<lparr>dedup := d, next_delayed_do_work := ?t\<rparr>)"
        unfolding if_not_P [OF 4(1)] if_not_P [OF 4(2)] .
      with b [OF lt lim(3)] show ?thesis by (intro rest [of "min ?t (min (l + 86400000000) ticks_max)" l ?t]) (use lim in simp_all)
    qed
  qed
qed

lemma leave_loop_ok:
  assumes "manager_ok (manager Y)" "pump_calls (controller Y) = []" "time_ok (fst (outer_run Y))" "\<not> snd (outer_run Y)"
    "task_execution_allowed (controller Y)" "idle_word (dedup (controller Y))"
  shows "loop_inv (leave_loop Y)"
  using assms by (simp add: loop_inv_def controller_ok_def leave_loop_def tc_Run_end_def Let_def in_work_def)

lemma end_work_ok:
  assumes Y: "loop_inv Y" and ok: "action_ok End_Work Y"
  shows "\<exists>Y'. act End_Work Y = Some Y' \<and> loop_inv Y'"
proof -
  note i = loop_invD [OF Y]
  from ok obtain l x where p: "place Y = Returning l x" by (cases "place Y") auto
  have w: "working_word (dedup (controller Y))" "time_ok (quit_runloop_after (controller Y))" "task_execution_allowed (controller Y)"
    using i(3) p by (auto simp: controller_ok_def in_work_def)
  have lx: "time_ok l" "0 \<le> x" "x \<le> td_Max" "l \<le> loop_now Y" using i(4,7) p by (auto simp: time_ok_def)
  from work_info [OF w(1) lx(1-3) w(2)] obtain t n c where
    c: "DoSomeWork_end l x (controller Y) = Some ((t, n), c)" "settings c = settings (controller Y)" "pump_calls c = pump_calls (controller Y)" "idle_word (dedup c)"
      "t = 0 \<or> \<not> requested (dedup c) \<and> \<not> requested (dedup (controller Y)) \<and> x \<noteq> 0 \<and> 0 < t \<and> t \<le> ticks_max \<and> 0 \<le> n \<and> n \<le> t \<and> n \<le> l
         \<and> (t \<le> l + x \<or> quit_runloop_after (controller Y) \<noteq> ticks_max \<and> quit_runloop_after (controller Y) \<le> l)" by blast
  let ?Z = "with_controller c Y"
  have Z: "manager ?Z = manager Y" "controller ?Z = c" "pump ?Z = pump Y" "outer_run ?Z = outer_run Y" "outer_keep_running ?Z = outer_keep_running Y" "in_flight ?Z = in_flight Y"
    using c(3) i(5) by (simp_all add: with_controller_def serve_pump_def)
  have run: "act End_Work Y = Some (pump_Run_worked (t, n) ?Z)" using p c(1) by simp
  have al: "task_execution_allowed c" "quit_pending c = quit_pending (controller Y)" "quit_runloop_after c = quit_runloop_after (controller Y)"
    using c(2) w(3) by (auto simp: settings_def)
  have out: "time_ok (fst (outer_run Y))" "\<not> snd (outer_run Y)" using i(3) by (simp_all add: controller_ok_def)
  show ?thesis
  proof (cases "keep_running (pump Y)")
    case False
    then have "pump_Run_worked (t, n) ?Z = leave_loop ?Z" using Z(3) by (simp add: pump_Run_worked_def)
    then show ?thesis using run leave_loop_ok [of ?Z] Z i(1,5) c(3,4) al out by simp
  next
    case True
    then have nq: "\<not> quit_pending (controller Y)" using i(3) p by (auto simp: controller_ok_def)
    show ?thesis
    proof (cases "t = 0")
      case t: True
      have "loop_inv (?Z\<lparr>place := Head\<rparr>)"
        using i(1,5) Z al out nq w(2) c(3,4) by (simp add: loop_inv_def controller_ok_def in_work_def)
      then show ?thesis using run True t Z(3) by (simp add: pump_Run_worked_def)
    next
      case t: False
      let ?Y = "?Z\<lparr>place := Did_Work t n\<rparr>"
      have now: "loop_now ?Y = loop_now Y" using Z(1) by (simp add: loop_now_def)
      have b: "in_flight Y \<noteq> 0 \<or> work_blocked (manager Y)" "wake_bound (l + x) (manager Y)" using i(4) p c(5) t nq by auto
      have "overdue ?Y \<or> covered t ?Y"
        using c(5) t b wake_bound_mono [OF b(2), of t] Z al lx(4) now by (auto simp: overdue_def covered_def)
      moreover have "info_ok t n ?Y" using c(5) t lx(4) now by (auto simp: info_ok_def)
      moreover have "controller_ok ?Y" using i(5) Z al out nq w(2) c(3,4) by (simp add: controller_ok_def in_work_def)
      ultimately have "loop_inv ?Y" using i(1) Z al nq c(5) t by (auto simp: loop_inv_def)
      then show ?thesis using run True t Z(3) by (simp add: pump_Run_worked_def)
    qed
  qed
qed

lemma with_controller_id: "pump_calls (controller Y) = [] \<Longrightarrow> with_controller (controller Y) Y = Y"
  by (simp add: with_controller_def serve_pump_def)

lemma idle_quit:
  assumes Z: "loop_inv Z" "place Z = Did_Work t n"
  shows "loop_inv (leave_loop (with_controller (tc_Quit (controller Z)) Z))" "\<not> keep_running (pump (with_controller (tc_Quit (controller Z)) Z))"
  using loop_invD(1,3) [OF Z(1)] Z(2)
  by (auto simp: with_controller_def serve_pump_def tc_Quit_def call_pump_def pump_serve_def pump_Quit_def controller_ok_def in_work_def intro!: leave_loop_ok)

lemma idle_sleep:
  assumes Z: "loop_inv Z" "place Z = Did_Work t n" "\<not> overdue Z"
  shows "\<exists>Y'. pump_Run_idle (t, n) False Z = Some Y' \<and> loop_inv Y'"
proof -
  note i = loop_invD [OF Z(1)]
  have c: "pump_calls (controller Z) = []" "time_ok (fst (outer_run Z))" "\<not> snd (outer_run Z)" "task_execution_allowed (controller Z)" "idle_word (dedup (controller Z))"
    "time_ok (quit_runloop_after (controller Z))" using i(3) Z(2) by (auto simp: controller_ok_def in_work_def)
  have p: "\<not> quit_pending (controller Z)" "info_ok t n Z" "requested (dedup (controller Z)) \<longrightarrow> event_signaled (pump Z)" "covered t Z"
    using i(4) Z(2,3) by auto
  have wait: "loop_inv (Z\<lparr>place := Waiting t n' (loop_now Z)\<rparr>)" if "n' = n \<or> n' = 0" for n'
    using i(1,7) c p that by (auto simp: loop_inv_def controller_ok_def in_work_def info_ok_def covered_def loop_now_def time_ok_def)
  have "time_diff t n = Some (t - n)" using p(2) by (auto simp: info_ok_def time_diff_def arith_int64 in_range_int64 int64_limits)
  then have "t \<noteq> ticks_max \<Longrightarrow> remaining_delay (loop_now Z) t n = Some (t - n)" using p(2) by (simp add: remaining_delay_def info_ok_def)
  then show ?thesis
    using wait leave_loop_ok [OF i(1) c(1-5)] by (cases "keep_running (pump Z)"; cases "t = ticks_max") (auto simp: pump_Run_idle_def)
qed

lemma idle_work_ok:
  assumes Y: "loop_inv Y" and ok: "action_ok (Idle_Work b) Y"
  shows "\<exists>Y'. act (Idle_Work b) Y = Some Y' \<and> loop_inv Y'"
proof -
  note i = loop_invD [OF Y]
  from ok obtain t n where p: "place Y = Did_Work t n" by (cases "place Y") auto
  from Reclaim_rests [OF i(2)] obtain m' where m': "MaybeReclaimMemory (manager Y) = Some m'" "rests False (manager Y) m'" by blast
  from rests_later [OF Y m'(2)] obtain Z where Z: "with_manager m' Y = Some Z" "later Y Z" by blast
  have inv: "loop_inv Z" using loop_inv_later [OF Y Z(2)] .
  have pz: "place Z = Did_Work t n" using Z(2) p by (simp add: later_def delivered_def)
  have idle: "OnSystemIdle real_MaybeFastForwardToNextTask (manager Y) = Some (False, m')"
    using m'(1) by (simp add: OnSystemIdle_def real_MaybeFastForwardToNextTask_def list_ex_iff)
  let ?r = "DoIdleWork_end False (loop_now Z) b (controller Z)"
  have run: "act (Idle_Work b) Y = pump_Run_idle (t, n) (fst ?r) (with_controller (snd ?r) Z)"
    using p idle Z(1) by (simp add: case_prod_beta)
  show ?thesis
  proof (cases "overdue Z \<or> b")
    case True
    then have "?r = (False, tc_Quit (controller Z))" by (auto simp: DoIdleWork_end_def overdue_def)
    then show ?thesis using run idle_quit [OF inv pz] by (simp add: pump_Run_idle_def del: act.simps)
  next
    case False
    then have "?r = (False, controller Z)" by (auto simp: DoIdleWork_end_def overdue_def)
    then show ?thesis using run idle_sleep [OF inv pz] False with_controller_id [OF loop_invD(5) [OF inv]] by (simp del: act.simps)
  qed
qed

lemma wake_ok_loop:
  assumes Y: "loop_inv Y" and ok: "action_ok Wake Y"
  shows "\<exists>Y'. act Wake Y = Some Y' \<and> loop_inv Y'"
proof -
  note i = loop_invD [OF Y]
  from ok obtain t n since where p: "place Y = Waiting t n since" by (cases "place Y") auto
  have "loop_inv (Y\<lparr>pump := (pump Y)\<lparr>event_signaled := False\<rparr>, place := Head\<rparr>)" "loop_inv (Y\<lparr>place := Head\<rparr>)"
    using i(1,3) p by (auto simp: loop_inv_def controller_ok_def in_work_def)
  then show ?thesis using p ok by (auto simp: pump_Run_wake_def)
qed

theorem action_keeps:
  assumes "loop_inv Y" "action_ok a Y"
  shows "\<exists>Y'. act a Y = Some Y' \<and> loop_inv Y'"
proof (cases a)
  case (Run_Loop b t)
  then show ?thesis using run_loop_ok [OF assms(1), of b t] assms(2) by blast
next
  case Begin_Work
  then show ?thesis using begin_work_ok [OF assms(1)] assms(2) by blast
next
  case (Select_Task order)
  then show ?thesis using select_ok_loop [OF assms(1)] assms(2) by blast
next
  case (Main_Call c)
  then show ?thesis using main_call_ok [OF assms(1)] assms(2) by blast
next
  case (Post q task)
  then show ?thesis using post_ok_later [OF assms(1)] assms(2) by blast
next
  case Notify
  then show ?thesis using notify_ok [OF assms(1)] assms(2) by blast
next
  case (Tick t)
  then show ?thesis using tick_ok [OF assms(1)] assms(2) by blast
next
  case (Cancel_Job n)
  then show ?thesis using cancel_job_ok [OF assms(1)] by blast
next
  case Quit_Loop
  then show ?thesis using quit_ok [OF assms(1)] assms(2) by blast
next
  case (Batch_Size n)
  then show ?thesis using batch_ok [OF assms(1)] assms(2) by blast
next
  case End_Task
  then show ?thesis using end_task_ok [OF assms(1)] assms(2) by blast
next
  case Leave_Batch
  then show ?thesis using leave_ok [OF assms(1)] assms(2) by blast
next
  case (Check_Delay order)
  then show ?thesis using check_delay_ok [OF assms(1)] assms(2) by blast
next
  case End_Work
  then show ?thesis using end_work_ok [OF assms(1)] assms(2) by blast
next
  case (Idle_Work b)
  then show ?thesis using idle_work_ok [OF assms(1)] assms(2) by blast
next
  case Wake
  then show ?thesis using wake_ok_loop [OF assms(1)] assms(2) by blast
qed

section \<open>Runs of the loop\<close>

definition start_loop :: "bool \<Rightarrow> 64 word \<Rightarrow> int list \<Rightarrow> int list \<Rightarrow> bool \<Rightarrow> int \<Rightarrow> message_loop option" where
  "start_loop b seed cross_thread same_thread add_queue_time now =
     do { m \<leftarrow> SequenceManagerImpl b seed cross_thread same_thread add_queue_time now;
          c \<leftarrow> tc_BindToCurrentThread ThreadController;
          Some (serve_pump \<lparr>manager = m, controller = c, pump = MessagePumpDefault, place = Outside, outer_run = (ticks_max, False),
            outer_keep_running = True, in_flight = 0\<rparr>) }"

primrec run_actions :: "action list \<Rightarrow> message_loop \<Rightarrow> message_loop option" where
  "run_actions [] Y = Some Y"
| "run_actions (a # as) Y = do { Y \<leftarrow> act a Y; run_actions as Y }"

primrec actions_ok :: "action list \<Rightarrow> message_loop \<Rightarrow> bool" where
  "actions_ok [] Y \<longleftrightarrow> True"
| "actions_ok (a # as) Y \<longleftrightarrow> action_ok a Y \<and> (case act a Y of None \<Rightarrow> False | Some Y' \<Rightarrow> actions_ok as Y')"

inductive loop_reached :: "message_loop \<Rightarrow> bool" where
  start: "settings_ok cross_thread same_thread now \<Longrightarrow> start_loop b seed cross_thread same_thread add_queue_time now = Some Y \<Longrightarrow> loop_reached Y"
| step: "loop_reached Y \<Longrightarrow> action_ok a Y \<Longrightarrow> act a Y = Some Y' \<Longrightarrow> loop_reached Y'"

lemma start_loop_ok:
  assumes "settings_ok cross_thread same_thread now"
  shows "\<exists>Y. start_loop b seed cross_thread same_thread add_queue_time now = Some Y \<and> loop_inv Y"
proof -
  from initial_sm [OF assms, of b seed add_queue_time] obtain m where
    m: "SequenceManagerImpl b seed cross_thread same_thread add_queue_time now = Some m" "sm_inv m" by blast
  have "registered_time_domains m = [real_time_domain m]" "pending_native_work m = [kBestEffortPriority]"
    using m(1) by (auto simp: SequenceManagerImpl_def RegisterTimeDomain_def set_insert_def Let_def bind_eq_Some_conv)
  then have "manager_ok m" using m(2) by (simp add: manager_ok_def)
  moreover obtain d where "wd_BindToCurrentThread WorkDeduplicator = Some (kNotNeeded, d)" "idle_word d" using bound_idle by blast
  ultimately show ?thesis
    using m(1)
    by (simp add: start_loop_def tc_BindToCurrentThread_def ThreadController_def serve_pump_def loop_inv_def controller_ok_def in_work_def time_ok_def int64_limits)
qed

lemma loop_reached_inv: "loop_reached Y \<Longrightarrow> loop_inv Y"
proof (induction rule: loop_reached.induct)
  case (start cross_thread same_thread now b seed add_queue_time Y)
  then show ?case using start_loop_ok [OF start(1), of b seed add_queue_time] by simp
next
  case (step Y a Y')
  then show ?case using action_keeps by fastforce
qed

lemma loop_reached_run: "loop_reached Y \<Longrightarrow> actions_ok as Y \<Longrightarrow> run_actions as Y = Some Y' \<Longrightarrow> loop_reached Y'"
proof (induction as arbitrary: Y)
  case (Cons a as)
  then show ?case by (auto simp del: act.simps action_ok.simps split: option.splits intro: loop_reached.step)
qed simp

lemma notify_signals:
  assumes Y: "loop_inv Y" and p: "place Y = Waiting t n since" and f: "in_flight Y \<noteq> 0"
  shows "\<exists>Y'. act Notify Y = Some Y' \<and> place Y' = Waiting t n since \<and> event_signaled (pump Y')"
proof -
  let ?Z = "Y\<lparr>in_flight := in_flight Y - 1\<rparr>" and ?c = "tc_ScheduleWork (controller Y)"
  note i = loop_invD [OF Y] and s = schedule_handled [OF loop_invD(6) [OF Y]]
  have w: "delivered ?Z (with_controller ?c ?Z)" "dedup (controller (with_controller ?c ?Z)) = dedup ?c"
    using with_handled [of ?Z ?c] s(1) i(5) by simp_all
  have "idle_word (dedup (controller Y))" "requested (dedup (controller Y)) \<longrightarrow> event_signaled (pump Y)"
    using i(3,4) p by (auto simp: controller_ok_def in_work_def)
  then have "event_signaled (pump (with_controller ?c ?Z))" "place (with_controller ?c ?Z) = place Y"
    using w s(2) by (auto simp: delivered_def)
  then show ?thesis using f p by simp
qed

lemma waiting_idle:
  assumes Y: "loop_inv Y" and p: "place Y = Waiting t n since"
  shows "wake_bound t (manager Y)" "work_blocked (manager Y) \<or> event_signaled (pump Y) \<or> in_flight Y \<noteq> 0" "n \<le> since"
  using loop_invD(4) [OF Y] p by (auto simp: covered_def)

definition demo_actions :: "action list" where
  "demo_actions =
     [Main_Call (Create_Queue 0 None), Main_Call (Post_Task 0 \<lparr>pt_callback = Some 7, pt_delay = 5000, pt_nestable = True\<rparr> kMainThread),
      Run_Loop True td_Max, Begin_Work, Select_Task [], Leave_Batch, Check_Delay [], End_Work, Idle_Work False]"

definition demo_loop :: "message_loop option" where
  "demo_loop = do { Y \<leftarrow> start_loop True 0 (replicate 7 0) (replicate 7 0) False 1000; run_actions demo_actions Y }"

definition demo_ok :: bool where
  "demo_ok = (case start_loop True 0 (replicate 7 0) (replicate 7 0) False 1000 of None \<Rightarrow> False | Some Y \<Rightarrow> actions_ok demo_actions Y)"

lemma demo_waits: "demo_ok" "map_option (\<lambda>Y. (place Y, event_signaled (pump Y), in_flight Y)) demo_loop = Some (Waiting 6000 1000 1000, False, 0)"
  by code_simp+

lemma demo_reached: "demo_loop = Some Y \<Longrightarrow> loop_reached Y"
proof -
  assume Y: "demo_loop = Some Y"
  have "settings_ok (replicate 7 0) (replicate 7 0) 1000" by (simp add: settings_ok_def int64_limits)
  with start_loop_ok obtain X where X: "start_loop True 0 (replicate 7 0) (replicate 7 0) False 1000 = Some X" by blast
  have "actions_ok demo_actions X" using demo_waits(1) X by (simp add: demo_ok_def)
  moreover have "run_actions demo_actions X = Some Y" using Y X by (simp add: demo_loop_def)
  ultimately show ?thesis using loop_reached_run loop_reached.start [OF _ X] by (simp add: settings_ok_def int64_limits)
qed

section \<open>Properties\<close>

text \<open>
  Claim C4.  Message pump, thread controller, deduplicator and sequence manager fit together.  A loop that is created with valid settings
  starts, and from every state that it reaches, every allowed action of the main thread, of a task that it runs or of another thread
  returns: no check of any of these components fails, whatever the interleaving.
\<close>

theorem message_loop_returns:
  "(\<forall>b seed cross_thread same_thread add_queue_time now. settings_ok cross_thread same_thread now \<longrightarrow>
      (\<exists>Y. start_loop b seed cross_thread same_thread add_queue_time now = Some Y \<and> loop_reached Y))
   \<and> (\<forall>Y a. loop_reached Y \<and> action_ok a Y \<longrightarrow> (\<exists>Y'. act a Y = Some Y' \<and> loop_reached Y'))"
  using start_loop_ok loop_reached.start action_keeps [OF loop_reached_inv] loop_reached.step by metis

theorem message_loop_returns_witness:
  "\<exists>Y. start_loop True 0 (replicate 7 0) (replicate 7 0) False 1000 = Some Y \<and> loop_reached Y \<and> (\<exists>Y'. act (Run_Loop True td_Max) Y = Some Y')"
proof -
  have "settings_ok (replicate 7 0) (replicate 7 0) 1000" by (simp add: settings_ok_def int64_limits)
  with message_loop_returns obtain Y where Y: "start_loop True 0 (replicate 7 0) (replicate 7 0) False 1000 = Some Y" "loop_reached Y" by blast
  have "place Y = Outside" using Y(1) by (auto simp: start_loop_def bind_eq_Some_conv serve_pump_def)
  then have "action_ok (Run_Loop True td_Max) Y" by (simp add: td_Max_def int64_limits)
  then show ?thesis using Y message_loop_returns by blast
qed

text \<open>
  Claim C3.  No wake-up is lost.  When the main thread waits in MessagePumpDefault::Run and there is a task that it may run, then the
  event on which it waits is signalled, or a thread that posted a task is about to call ScheduleWork and will signal it: in both cases the
  wait ends.  A delayed task of an enabled queue is not before the end of the timed wait but for the time between
  DoSomeWork reading the clock and the wait; once its run time and this delay have passed, the wait ends.
\<close>

theorem no_wake_up_lost:
  assumes "loop_reached Y" "place Y = Waiting t n since"
  shows "(\<not> work_blocked (manager Y) \<longrightarrow>
        (\<exists>Y'. act Wake Y = Some Y' \<and> place Y' = Head)
        \<or> (\<exists>Y1 Y'. in_flight Y \<noteq> 0 \<and> act Notify Y = Some Y1 \<and> act Wake Y1 = Some Y' \<and> place Y' = Head))
    \<and> (\<forall>q \<in> set (active_queues (manager Y)). tq_is_enabled (task_queues (sched (manager Y)) q) \<longrightarrow>
        (\<forall>u \<in> set (delayed_tasks (sched (manager Y)) q). delayed_run_time u < ticks_max \<and> delayed_run_time u + (since - n) \<le> loop_now Y \<longrightarrow>
           (\<exists>Y'. act Wake Y = Some Y' \<and> place Y' = Head)))"
proof -
  note inv = loop_reached_inv [OF assms(1)]
  note w = waiting_idle [OF inv assms(2)]
  have "(\<exists>Y'. act Wake Y = Some Y' \<and> place Y' = Head)
      \<or> (\<exists>Y1 Y'. in_flight Y \<noteq> 0 \<and> act Notify Y = Some Y1 \<and> act Wake Y1 = Some Y' \<and> place Y' = Head)" if "\<not> work_blocked (manager Y)"
  proof (cases "event_signaled (pump Y)")
    case True
    then show ?thesis using assms(2) by (simp add: pump_Run_wake_def)
  next
    case False
    then have "in_flight Y \<noteq> 0" using w(2) that by blast
    with notify_signals [OF inv assms(2)] obtain Y1 where "act Notify Y = Some Y1" "place Y1 = Waiting t n since" "event_signaled (pump Y1)" by blast
    then have "act Notify Y = Some Y1 \<and> act Wake Y1 = Some (Y1\<lparr>pump := (pump Y1)\<lparr>event_signaled := False\<rparr>, place := Head\<rparr>)" by (simp add: pump_Run_wake_def)
    then show ?thesis using \<open>in_flight Y \<noteq> 0\<close> by fastforce
  qed
  moreover have "\<exists>Y'. act Wake Y = Some Y' \<and> place Y' = Head"
    if "q \<in> set (active_queues (manager Y))" "tq_is_enabled (task_queues (sched (manager Y)) q)" "u \<in> set (delayed_tasks (sched (manager Y)) q)"
      "delayed_run_time u < ticks_max" "delayed_run_time u + (since - n) \<le> loop_now Y" for q u
  proof -
    have "t \<le> delayed_run_time u" using w(1) that(1-3) by (simp add: wake_bound_def)
    then show ?thesis using assms(2) that(4,5) by (simp add: pump_Run_wake_def)
  qed
  ultimately show ?thesis by blast
qed

theorem no_wake_up_lost_witness:
  "\<exists>Y. demo_loop = Some Y \<and> place Y = Waiting 6000 1000 1000
     \<and> (\<forall>q \<in> set (active_queues (manager Y)). tq_is_enabled (task_queues (sched (manager Y)) q) \<longrightarrow>
        (\<forall>u \<in> set (delayed_tasks (sched (manager Y)) q). delayed_run_time u < ticks_max \<and> delayed_run_time u + (1000 - 1000) \<le> loop_now Y \<longrightarrow>
           (\<exists>Y'. act Wake Y = Some Y' \<and> place Y' = Head)))"
proof -
  obtain Y where Y: "demo_loop = Some Y" "place Y = Waiting 6000 1000 1000" using demo_waits(2) by auto
  from no_wake_up_lost [OF demo_reached [OF Y(1)] Y(2)] Y show ?thesis by (elim conjE) blast
qed

end
