(* ===== verification/Spec2Isabelle.thy ===== *)
theory Spec2Isabelle
  imports Circular_Deque Safe_Math Lazy_Deque Intrusive_Heap Atomic_Flag_Set Scheduler_Errors Message_Loop_Runs
begin

text \<open>
  A verification development for Chromium's base library (src/src/base): its integer and time arithmetic, the containers
  that hold tasks, and the task scheduler of a thread.

  \<^bold>\<open>The program.\<close>  A thread of Chromium runs tasks.  Any thread posts a task to a TaskQueueImpl; an immediate task goes to the
  immediate incoming queue and from there to the immediate WorkQueue, a delayed task to a priority queue and, once it is due,
  to the delayed WorkQueue.  The WorkQueues that have a task before their fence are in the heaps of two WorkQueueSets, which
  tell a TaskQueueSelector the priorities that have work.  The SequenceManagerImpl owns the queues; for the thread controller it
  brings the work queues up to date, lets the selector choose, and says how long the thread may sleep, which a
  TimeDomain knows from its heap of wake-ups.  The ThreadControllerWithMessagePumpImpl is called by a message pump: it runs batches
  of tasks and tells the pump when to call again; a WorkDeduplicator, one atomic word, settles with the posting threads who wakes
  the pump.  MessagePumpDefault is the loop that calls the controller and waits for an event in between.  Below this are a lazily shrinking deque of tasks, a heap with handles,
  saturating time arithmetic and checked integer arithmetic; beside it the general purpose ring buffer.

  \<^bold>\<open>Conventions.\<close>  The model is the build with DCHECK_IS_ON().  Code that may stop the process is a function into \<open>option\<close>:
  \<open>None\<close> is a failed CHECK or DCHECK, a null dereference, a read of storage without an object or arithmetic that C++
  does not define.  So a theorem that an operation yields \<open>Some\<close> is a theorem that none of this happens.  Objects that are shared
  by pointers live in one record and are named by numbers.  An int64_t is an \<open>int\<close> whose range is checked by \<open>arith\<close>;
  the random state of the selector and the generation of a deque are machine words.  Every definition that models code is
  executable, and the witnesses evaluate them.

  \<^bold>\<open>Theories.\<close>

  \<^item> \<open>Prelude\<close>: checks, the option monad, arithmetic of ring buffers.

  \<^item> \<open>Vector_Buffer\<close>, \<open>Deque_Spec\<close>, \<open>Circular_Deque\<close> (containers/vector_buffer.h, circular_deque.h): storage with explicit object
    lifetimes, the ring buffer with checked iterators.  The locale \<open>deque_impl\<close> is the contract of a deque; its interpretation gives
    that programs cannot tell the ring from a list.  Inserting and erasing ranges, copying, iterating and the destructor follow.

  \<^item> \<open>Safe_Conversions\<close>, \<open>Safe_Math\<close> (numerics/): integer types as values, so that the templates are functions of their type
    arguments; comparisons, casts, checked and clamped operations, portable and with compiler builtins, against unbounded integers.

  \<^item> \<open>Time_Arith\<close> (time/time.h, time.cc, time_conversion_posix.cc): saturation, unit conversions, tick lattice, conversions to C types.

  \<^item> \<open>Lazy_Deque\<close> (task/sequence_manager/lazily_deallocated_deque.h): the chain of rings with its raw tail pointer, the second
    interpretation of \<open>deque_impl\<close>; shrinking and iteration.

  \<^item> \<open>Intrusive_Heap\<close>, \<open>Shared_Heap\<close> (containers/intrusive_heap.h, task/common/intrusive_heap.h): the heap with handles as a map with a
    least element (locale \<open>heap_order\<close>), and heaps whose handles lie in common storage.

  \<^item> \<open>Atomic_Flag_Set\<close> (atomic_flag_set.cc): groups of 64 flags in two doubly linked lists with explicit addresses; the set is
    a map from flags to callbacks, and no activation is lost between threads.

  \<^item> \<open>Small_Priority_Queue\<close>, \<open>Work_Queue\<close>, \<open>Task_Queue_Selector\<close> (work_queue.cc, work_queue_sets.cc, task_queue_selector.cc): the
    sets hold exactly the queues with a task before their fence (\<open>work_ok\<close>), the selector knows exactly their priorities,
    and what it selects; how the sort keys bound the time a priority is passed over.

  \<^item> \<open>Task_Queue\<close> (task_queue_impl.cc, time_domain.cc): the record \<open>scheduler\<close> and the operations of a queue; \<open>Task_Queue_Invariant\<close>
    and \<open>Task_Queue_Steps\<close>: the invariant \<open>sched_inv\<close>, and that every operation returns, keeps it, and what it does to the
    tasks of the queue.

  \<^item> \<open>Sequence_Manager\<close> (sequence_manager_impl.cc, real_time_domain.cc): the record \<open>sequence_manager\<close> and its calls;
    \<open>Sequence_Manager_Steps\<close> and \<open>Sequence_Manager_Calls\<close>: the invariant \<open>sm_inv\<close>, selection, nesting, shut down, reclaiming, sleeping.

  \<^item> \<open>Scheduler_Runs\<close>: the datatype \<open>call\<close> of everything a program may ask of the scheduler, the condition \<open>call_ok\<close> under which it
    may, and the states \<open>reached\<close>: calls return, jobs are not lost, selection and sleeping are right.
    \<open>Scheduler_Service\<close>: queues refine lists, and no priority starves.  \<open>Scheduler_Errors\<close>: calls that fail.

  \<^item> \<open>Work_Deduplicator\<close>, \<open>Thread_Controller\<close> (work_deduplicator.cc, thread_controller_with_message_pump_impl.cc,
    message_loop/message_pump_default.cc): the atomic word, the work calls of the controller and the operations of the pump.
    \<open>Message_Loop\<close> composes them with the sequence manager: the record \<open>message_loop\<close>, the datatype \<open>action\<close> of what one thread
    does between two points where another may act, and \<open>act\<close>.  \<open>Message_Loop_Runs\<close>: the invariant \<open>loop_inv\<close>, the states
    \<open>loop_reached\<close>; every action returns, and the thread does not sleep while there is work for it.

  \<^bold>\<open>Bounds and fuel.\<close>  Loops are structural or have a termination proof, with these exceptions.  \<open>select_loop\<close> has the number of
    tasks in work queues and immediate incoming queues plus one as fuel, since every iteration but the last takes a task away;
    \<open>wake_up_loop\<close> the number of wake-ups plus one, since a queue that was woken has its next wake-up in the future;
    \<open>move_ready_loop\<close> the number of delayed tasks plus one.  The lemmas on them prove that the fuel suffices.
    The selector counts selections in an int64_t; \<open>room\<close> and \<open>selections_left\<close> say that it is not within a few of its limit.
    Enqueue orders and sequence numbers are naturals: the code assumes that its counters do not wrap.

  \<^bold>\<open>Concurrency.\<close>  Posting threads and the main thread share a TaskQueueImpl under its lock, so that an operation is one step, and a
    run is any interleaving of such steps.  In the message loop a post is two actions, the change of the queue under its lock and the
    call of ScheduleWork after it, and DoSomeWork is several, so that posts fall between the selection of a task, the check for
    more work and the wait.  The order in which AtomicFlagSet visits queues that asked to be reloaded is an
    argument that every theorem quantifies.

  \<^bold>\<open>Not modelled.\<close>  Floating point instantiations of base/numerics and conversions of times to double, because the development has no
    model of IEEE arithmetic.  Task observers, task handlers, tracing, logging, crash keys and value dumps of the scheduler, which
    do not change the modelled state.  In the message loop: nested loops, native work and time domains other than the real one, which
    the theorems on the sequence manager cover but \<open>loop_inv\<close> excludes.  The message pumps other than the default one, threads, files, processes and the other parts of base that are calls to the
    operating system.  The remaining libraries of base (strings, json, metrics, memory, trace_event, the thread pool) and the
    directories ipc, mojo, crypto, url, net and third_party are listed in the manifest and left out.
\<close>

end
